(* ===== verification/Prelude.thy ===== *)
theory Prelude
  imports Main "HOL-Library.Word"
begin

text \<open>
  The prelude of the PotatOS development: the names of the C integer types, the errors a kernel
  routine can end with, the sequencing operator of fallible code, bounds-checked arrays, and the
  generic facts on words, ranges and lists that the component theories share.

  The collections \<open>result_simps\<close> (sequencing and array access), \<open>frame_simps\<close> (what an operation
  leaves alone) and \<open>word_nat\<close> (moving from words to natural numbers) are filled here and in the
  component theories.
\<close>

unbundle bit_operations_syntax

named_theorems result_simps \<open>inversion of sequencing and of bounds-checked access\<close>
named_theorems frame_simps \<open>what an operation leaves unchanged\<close>
named_theorems word_nat \<open>words read as natural numbers\<close>

section \<open>C integer types\<close>

type_synonym u8 = "8 word"
type_synonym u16 = "16 word"
type_synonym u32 = "32 word"
type_synonym u64 = "64 word"

section \<open>How a kernel routine can end\<close>

text \<open>
  \<open>Halted\<close>: the code called \<open>halt()\<close> (or disabled interrupts and spun on purpose).
  \<open>Diverged\<close>: a loop that never leaves.
  \<open>NullDeref\<close>: a null pointer was dereferenced, undefined behaviour in C (the kernel's own page tree
  maps nothing at address 0).
  \<open>OutOfBounds\<close>: an index outside the array object it is applied to.
\<close>

datatype error = Halted | Diverged | NullDeref | OutOfBounds

type_synonym 'a result = "error + 'a"

definition res_bind :: "'a result \<Rightarrow> ('a \<Rightarrow> 'b result) \<Rightarrow> 'b result" where
  "res_bind r f = (case r of Inl e \<Rightarrow> Inl e | Inr x \<Rightarrow> f x)"

lemma res_bind_simps [simp]:
  "res_bind (Inl e) f = Inl e"
  "res_bind (Inr x) f = f x"
  by (simp_all add: res_bind_def)

lemma res_bind_Inr_iff [result_simps]:
  "(res_bind r f = Inr y) \<longleftrightarrow> (\<exists>x. r = Inr x \<and> f x = Inr y)"
  by (cases r) auto

lemma res_bind_assoc: "res_bind (res_bind r f) g = res_bind r (\<lambda>x. res_bind (f x) g)"
  by (cases r) auto

lemma res_bind_cong [fundef_cong]:
  "r = r' \<Longrightarrow> (\<And>x. r' = Inr x \<Longrightarrow> f x = g x) \<Longrightarrow> res_bind r f = res_bind r' g"
  by (cases r') auto

definition res_ok :: "'a result \<Rightarrow> bool" where
  "res_ok r \<longleftrightarrow> (case r of Inl _ \<Rightarrow> False | Inr _ \<Rightarrow> True)"

lemma res_ok_iff [result_simps]: "res_ok r \<longleftrightarrow> (\<exists>x. r = Inr x)"
  by (cases r) (auto simp: res_ok_def)

section \<open>Arrays with bounds\<close>

definition arr_get :: "'a list \<Rightarrow> nat \<Rightarrow> 'a result" where
  "arr_get xs i = (if i < length xs then Inr (xs ! i) else Inl OutOfBounds)"

definition arr_set :: "'a list \<Rightarrow> nat \<Rightarrow> 'a \<Rightarrow> 'a list result" where
  "arr_set xs i v = (if i < length xs then Inr (xs[i := v]) else Inl OutOfBounds)"

lemma arr_get_Inr [result_simps]: "arr_get xs i = Inr v \<longleftrightarrow> i < length xs \<and> v = xs ! i"
  by (auto simp: arr_get_def)

lemma arr_set_Inr [result_simps]: "arr_set xs i v = Inr ys \<longleftrightarrow> i < length xs \<and> ys = xs[i := v]"
  by (auto simp: arr_set_def)

lemma arr_set_ok: "i < length xs \<Longrightarrow> arr_set xs i v = Inr (xs[i := v])"
  by (simp add: arr_set_def)

lemma arr_get_ok: "i < length xs \<Longrightarrow> arr_get xs i = Inr (xs ! i)"
  by (simp add: arr_get_def)

section \<open>Words as natural numbers\<close>

lemma unat_u64_less [word_nat]: "unat (x :: u64) < 2 ^ 64"
  using unsigned_less[of x] by simp

lemma unat_u64_le: "unat (x :: u64) \<le> 2 ^ 64 - 1"
  using unat_u64_less[of x] by linarith

lemma unat_add_u64 [word_nat]:
  "unat (x :: u64) + unat y < 2 ^ 64 \<Longrightarrow> unat (x + y) = unat x + unat y"
  by (simp add: unat_word_ariths)

lemma unat_mult_u64 [word_nat]:
  "unat (x :: u64) * unat y < 2 ^ 64 \<Longrightarrow> unat (x * y) = unat x * unat y"
  by (simp add: unat_word_ariths)

lemma unat_of_nat_u64 [word_nat]: "n < 2 ^ 64 \<Longrightarrow> unat (of_nat n :: u64) = n"
  by (simp add: unat_of_nat take_bit_eq_mod)

lemma unat_div_u64 [word_nat]: "unat ((x :: u64) div y) = unat x div unat y"
  by (simp add: unat_div)

lemma unat_mod_u64 [word_nat]: "unat ((x :: u64) mod y) = unat x mod unat y"
  by (simp add: unat_mod)

lemma u64_eq_iff: "(x :: u64) = y \<longleftrightarrow> unat x = unat y"
  by (simp add: word_unat_eq_iff)

lemma of_nat_inj_u64:
  "m < 2 ^ 64 \<Longrightarrow> n < 2 ^ 64 \<Longrightarrow> (of_nat m :: u64) = of_nat n \<longleftrightarrow> m = n"
  by (metis unat_of_nat_u64)

text \<open>An address lies in a block: \<open>x - a < n\<close>, the test that stays right when the block wraps.\<close>

lemma in_block_iff:
  fixes a x n :: u64
  assumes "unat a + unat n \<le> 2 ^ 64"
  shows "x - a < n \<longleftrightarrow> unat a \<le> unat x \<and> unat x < unat a + unat n"
  using assms unat_u64_less[of x] by (auto simp: word_less_nat_alt unat_sub_if')

lemma length_distinct_u64:
  assumes "distinct (xs :: u64 list)"
  shows "length xs \<le> 2 ^ 64"
proof -
  have "length xs = card (set xs)"
    using assms by (simp add: distinct_card)
  also have "\<dots> \<le> card (UNIV :: u64 set)"
    by (rule card_mono) auto
  also have "\<dots> = 2 ^ 64"
    by (simp add: card_word)
  finally show ?thesis .
qed

section \<open>Linked lists in a store\<close>

text \<open>\<open>chain nxt p ps\<close>: following \<open>nxt\<close> from pointer \<open>p\<close> visits exactly the addresses \<open>ps\<close> and ends
  in the null pointer 0. The pools of the heap, the nodes of a vector and the entries of a directory
  are chains.\<close>

primrec chain :: "(u64 \<Rightarrow> u64) \<Rightarrow> u64 \<Rightarrow> u64 list \<Rightarrow> bool" where
  "chain nxt p [] \<longleftrightarrow> p = 0"
| "chain nxt p (a # as) \<longleftrightarrow> p = a \<and> a \<noteq> 0 \<and> chain nxt (nxt a) as"

lemma chain_null [simp]: "chain nxt 0 ps \<longleftrightarrow> ps = []"
  by (cases ps) auto

lemma chain_nonnull: "p \<noteq> 0 \<Longrightarrow> chain nxt p ps \<longleftrightarrow> (\<exists>as. ps = p # as \<and> chain nxt (nxt p) as)"
  by (cases ps) auto

lemma chain_append: "chain nxt p (as @ b # bs) \<longleftrightarrow> chain (nxt(b := 0)) p (as @ [b]) \<and> chain nxt (nxt b) bs"
  if "b \<notin> set as"
  using that by (induction as arbitrary: p) auto

lemma chain_unique: "chain nxt p as \<Longrightarrow> chain nxt p bs \<Longrightarrow> as = bs"
proof (induction as arbitrary: p bs)
  case (Cons a as)
  then obtain bs' where "bs = a # bs'" "chain nxt (nxt a) bs'" by (cases bs) auto
  with Cons show ?case by auto
qed auto

lemma chain_suffix: "chain nxt p (as @ bs) \<Longrightarrow> \<exists>q. chain nxt q bs"
  by (induction as arbitrary: p) auto

lemma chain_hd: "chain nxt p (a # as) \<Longrightarrow> p = a"
  by simp

lemma chain_distinct: "chain nxt p ps \<Longrightarrow> distinct ps"
proof (induction ps arbitrary: p)
  case (Cons a as)
  have "a \<notin> set as"
  proof
    assume "a \<in> set as"
    then obtain us vs where as: "as = us @ a # vs" by (auto simp: in_set_conv_decomp)
    then have "chain nxt (nxt a) (us @ a # vs)" using Cons.prems by simp
    then obtain q where "chain nxt q (a # vs)" using chain_suffix by blast
    then have "chain nxt (nxt a) vs" by simp
    then have "vs = as" using Cons.prems chain_unique by auto
    with as show False by simp
  qed
  with Cons show ?case by auto
qed simp

lemma chain_length: "chain nxt p ps \<Longrightarrow> length ps \<le> 2 ^ 64"
  by (rule length_distinct_u64) (rule chain_distinct)

lemma chain_0: "chain nxt p ps \<Longrightarrow> 0 \<notin> set ps"
  by (induction ps arbitrary: p) auto

lemma chain_length_less: "chain nxt p ps \<Longrightarrow> length ps < 2 ^ 64"
  using length_distinct_u64[of "0 # ps"] chain_0[of nxt p ps] chain_distinct[of nxt p ps] by simp

lemma chain_cong: "(\<And>a. a \<in> set ps \<Longrightarrow> nxt a = nxt' a) \<Longrightarrow> chain nxt p ps = chain nxt' p ps"
  by (induction ps arbitrary: p) auto

lemma chain_upd: "b \<notin> set ps \<Longrightarrow> chain (nxt(b := q)) p ps = chain nxt p ps"
  by (rule chain_cong) auto

text \<open>Linking a fresh cell \<open>q\<close> behind \<open>b\<close>.\<close>

lemma chain_insert_after:
  assumes "chain nxt p (as @ b # bs)" "q \<noteq> 0" "q \<notin> set (as @ b # bs)"
  shows "chain (nxt(b := q, q := nxt b)) p (as @ b # q # bs)"
  using assms
proof (induction as arbitrary: p)
  case Nil
  then have "b \<notin> set bs" using chain_distinct by fastforce
  with Nil have "chain (nxt(b := q, q := nxt b)) (nxt b) bs"
    by (subst chain_cong[where nxt' = nxt]) auto
  with Nil show ?case by (auto simp: fun_upd_def)
next
  case (Cons a as)
  have "distinct (a # as @ b # bs)" using Cons.prems(1) chain_distinct by fastforce
  with Cons show ?case by auto
qed

text \<open>Unlinking the cell behind \<open>b\<close>.\<close>

lemma chain_remove_after:
  assumes "chain nxt p (as @ b # c # bs)"
  shows "chain (nxt(b := nxt c)) p (as @ b # bs)"
  using assms
proof (induction as arbitrary: p)
  case Nil
  then have "b \<notin> set bs" using chain_distinct by fastforce
  with Nil have "chain (nxt(b := nxt c)) (nxt c) bs" by (simp add: chain_upd)
  with Nil show ?case by (auto simp: fun_upd_def)
next
  case (Cons a as)
  have "distinct (a # as @ b # c # bs)" using Cons.prems(1) chain_distinct by fastforce
  with Cons show ?case by auto
qed

lemma chain_next:
  "chain nxt p (as @ b # bs) \<Longrightarrow> nxt b = (case bs of [] \<Rightarrow> 0 | c # _ \<Rightarrow> c)"
  by (induction as arbitrary: p) (auto split: list.splits)

end
