(* ===== verification/Memory.thy ===== *)
theory Memory
  imports Prelude
begin

text \<open>
  The memory the kernel sees through the higher-half direct map: one byte per 64-bit address,
  with \<open>rep stosb\<close> (\<open>ku_memset\<close>), \<open>rep movsb\<close> (\<open>ku_memcpy\<close>), the byte comparison loop
  \<open>ku_memcmp\<close> and little-endian 64-bit cells (page-table entries) on top of it.
  Addresses wrap at \<open>2 ^ 64\<close>, as on the CPU.
\<close>

type_synonym memory = "u64 \<Rightarrow> u8"

section \<open>Block operations\<close>

text \<open>\<open>ku_memset(array, value, size)\<close>: \<open>rep stosb\<close> stores the low byte of \<open>value\<close>.\<close>

definition ku_memset :: "u64 \<Rightarrow> u64 \<Rightarrow> u64 \<Rightarrow> memory \<Rightarrow> memory" where
  "ku_memset array value sz m = (\<lambda>x. if x - array < sz then ucast value else m x)"

text \<open>\<open>ku_memcpy(dest, from, n)\<close>: \<open>rep movsb\<close> moves one byte at a time, upwards, so an
  overlapping copy reads bytes it has already written.\<close>

primrec movsb :: "nat \<Rightarrow> u64 \<Rightarrow> u64 \<Rightarrow> memory \<Rightarrow> memory" where
  "movsb 0 dest from m = m"
| "movsb (Suc n) dest from m = movsb n (dest + 1) (from + 1) (m(dest := m from))"

definition ku_memcpy :: "u64 \<Rightarrow> u64 \<Rightarrow> u64 \<Rightarrow> memory \<Rightarrow> memory" where
  "ku_memcpy dest from n m = movsb (unat n) dest from m"

text \<open>\<open>ku_memcmp(str1, str2, size)\<close>: true iff no byte differs; the loop stops at the first.\<close>

primrec memcmp_loop :: "nat \<Rightarrow> u64 \<Rightarrow> u64 \<Rightarrow> memory \<Rightarrow> bool" where
  "memcmp_loop 0 str1 str2 m = True"
| "memcmp_loop (Suc n) str1 str2 m =
     (if m str1 \<noteq> m str2 then False else memcmp_loop n (str1 + 1) (str2 + 1) m)"

definition ku_memcmp :: "u64 \<Rightarrow> u64 \<Rightarrow> u64 \<Rightarrow> memory \<Rightarrow> bool" where
  "ku_memcmp str1 str2 sz m = memcmp_loop (unat sz) str1 str2 m"

section \<open>64-bit cells\<close>

definition rd64 :: "memory \<Rightarrow> u64 \<Rightarrow> u64" where
  "rd64 m a = fold (\<lambda>i w. w OR push_bit (8 * i) (ucast (m (a + of_nat i)))) [0..<8] 0"

definition wr64 :: "memory \<Rightarrow> u64 \<Rightarrow> u64 \<Rightarrow> memory" where
  "wr64 m a v = (\<lambda>x. if x - a < 8 then ucast (drop_bit (8 * unat (x - a)) v) else m x)"

section \<open>Lemmas\<close>

lemma ku_memset_in: "x - a < n \<Longrightarrow> ku_memset a v n m x = ucast v"
  by (simp add: ku_memset_def)

lemma ku_memset_out: "\<not> x - a < n \<Longrightarrow> ku_memset a v n m x = m x"
  by (simp add: ku_memset_def)

text \<open>A forward copy whose destination does not start inside the source (and whose blocks do not
  wrap) copies the source as it was.\<close>

lemma movsb_outside:
  assumes "\<And>i. i < n \<Longrightarrow> x \<noteq> dest + of_nat i"
  shows "movsb n dest from m x = m x"
  using assms
proof (induction n arbitrary: dest "from" m)
  case (Suc n)
  have "movsb n (dest + 1) (from + 1) (m(dest := m from)) x = (m(dest := m from)) x"
  proof (rule Suc.IH)
    fix i assume "i < n"
    then show "x \<noteq> dest + 1 + of_nat i"
      using Suc.prems[of "Suc i"] by (simp add: ac_simps)
  qed
  moreover have "x \<noteq> dest" using Suc.prems[of 0] by simp
  ultimately show ?case by simp
qed simp

lemma movsb_inside:
  assumes "i < n" "n \<le> 2 ^ 64"
    and "\<And>j k. j < n \<Longrightarrow> k < n \<Longrightarrow> dest + of_nat j \<noteq> from + of_nat k"
  shows "movsb n dest from m (dest + of_nat i) = m (from + of_nat i)"
  using assms
proof (induction n arbitrary: dest "from" m i)
  case (Suc n)
  have ne: "dest + 1 + of_nat j \<noteq> from + 1 + of_nat k" if "j < n" "k < n" for j k
    using Suc.prems(3)[of "Suc j" "Suc k"] that by (simp add: ac_simps)
  show ?case
  proof (cases i)
    case 0
    have "dest \<noteq> dest + 1 + of_nat j" if "j < n" for j
    proof -
      have "Suc j < 2 ^ 64" using that Suc.prems(2) by simp
      then have "of_nat (Suc j) \<noteq> (0 :: u64)"
        using of_nat_inj_u64[of "Suc j" 0] by simp
      moreover have "dest + 1 + of_nat j = dest + of_nat (Suc j)"
        by (simp add: ac_simps)
      ultimately show ?thesis by simp
    qed
    then show ?thesis using 0 by (simp add: movsb_outside)
  next
    case (Suc i')
    have "movsb n (dest + 1) (from + 1) (m(dest := m from)) (dest + 1 + of_nat i') =
        (m(dest := m from)) (from + 1 + of_nat i')"
      using Suc Suc.prems(1,2) ne by (intro Suc.IH) auto
    moreover have "from + 1 + of_nat i' \<noteq> dest"
      using Suc.prems(3)[of 0 "Suc i'"] Suc Suc.prems(1) by (auto simp: ac_simps)
    ultimately show ?thesis using Suc by (simp add: ac_simps)
  qed
qed simp

lemma memcmp_loop_iff:
  "memcmp_loop n a b m \<longleftrightarrow> (\<forall>i<n. m (a + of_nat i) = m (b + of_nat i))"
proof (induction n arbitrary: a b)
  case (Suc n)
  have "(\<forall>i<Suc n. m (a + of_nat i) = m (b + of_nat i)) \<longleftrightarrow>
      m a = m b \<and> (\<forall>i<n. m (a + 1 + of_nat i) = m (b + 1 + of_nat i))"
    by (simp add: All_less_Suc2 ac_simps)
  with Suc show ?case by simp
qed simp

lemma ku_memcmp_iff:
  "ku_memcmp a b n m \<longleftrightarrow> (\<forall>i<unat n. m (a + of_nat i) = m (b + of_nat i))"
  by (simp add: ku_memcmp_def memcmp_loop_iff)

lemma rd64_cong: "(\<And>i. i < 8 \<Longrightarrow> m (a + of_nat i) = m' (a + of_nat i)) \<Longrightarrow> rd64 m a = rd64 m' a"
  unfolding rd64_def by (intro fold_cong) auto

lemma bit_or_fold:
  "bit (fold (\<lambda>i w. w OR push_bit (8 * i) (ucast (f i :: u8))) xs w0 :: u64) n \<longleftrightarrow>
     bit w0 n \<or> (\<exists>i\<in>set xs. 8 * i \<le> n \<and> n < 64 \<and> bit (f i) (n - 8 * i))"
proof (induction xs arbitrary: w0)
  case (Cons x xs)
  have "bit (push_bit (8 * x) (ucast (f x)) :: u64) n \<longleftrightarrow>
      8 * x \<le> n \<and> n < 64 \<and> bit (f x) (n - 8 * x)"
    by (auto simp: bit_simps dest: bit_imp_le_length)
  with Cons show ?case by (auto simp: bit_or_iff)
qed simp

lemma rd64_wr64_same [simp]: "rd64 (wr64 m a v) a = v"
proof -
  have "wr64 m a v (a + of_nat i) = ucast (drop_bit (8 * i) v)" if "i < 8" for i
    using that by (simp add: wr64_def word_less_nat_alt unat_of_nat_u64)
  then have "rd64 (wr64 m a v) a =
      fold (\<lambda>i w. w OR push_bit (8 * i) (ucast (ucast (drop_bit (8 * i) v) :: u8))) [0..<8] 0"
    unfolding rd64_def by (intro fold_cong) auto
  also have "\<dots> = v"
  proof (rule bit_word_eqI)
    fix n assume "n < LENGTH(64)"
    then show "bit (fold (\<lambda>i w. w OR push_bit (8 * i) (ucast (ucast (drop_bit (8 * i) v) :: u8)))
        [0..<8] 0 :: u64) n = bit v n"
      unfolding bit_or_fold
      by (auto simp: bit_simps intro!: bexI[of _ "n div 8"])
  qed
  finally show ?thesis .
qed

lemma rd64_wr64_apart:
  assumes "8 \<le> b - a" "8 \<le> a - b"
  shows "rd64 (wr64 m a v) b = rd64 m b"
proof (rule rd64_cong)
  fix i :: nat assume i: "i < 8"
  let ?d = "b - a"
  have "unat ?d + 8 \<le> 2 ^ 64"
    using assms unat_u64_less[of a] unat_u64_less[of b]
    by (simp add: word_le_nat_alt unat_sub_if' split: if_splits)
  then have "unat (?d + of_nat i) = unat ?d + i"
    using i by (simp add: unat_add_u64 unat_of_nat_u64)
  then have "\<not> ?d + of_nat i < 8"
    using assms(1) by (simp add: word_less_nat_alt word_le_nat_alt)
  then have "\<not> b + of_nat i - a < 8"
    by (simp add: algebra_simps)
  then show "wr64 m a v (b + of_nat i) = m (b + of_nat i)"
    by (simp add: wr64_def)
qed

end
