(* ===== verification/PMM.thy ===== *)
theory PMM
  imports Memory
begin

text \<open>
  The physical memory manager (\<open>src/src/mem/pmm.c\<close>): a first-fit bitmap allocator of 4096-byte
  pages. Each usable section of the bootloader's memory map keeps its bitmap in its own first page,
  reached through the direct map at \<open>base + hhdm\<close>; bit \<open>p\<close> stands for page \<open>p\<close> after it.
\<close>

section \<open>State\<close>

text \<open>\<open>struct limine_memmap_entry\<close>; type 0 is \<open>LIMINE_MEMMAP_USABLE\<close>.\<close>

record limine_memmap_entry =
  me_base :: u64
  me_length :: u64
  me_type :: u64

text \<open>The part of \<open>Kernel\<close> the allocator uses, with the memory behind the direct map. \<open>memmap\<close> is
  the array the code indexes as \<open>(*kernel.memmap.entries)[i]\<close>. The three \<open>last_freed\<close> fields are
  C \<open>long\<close>s and a \<open>uint64_t\<close>; -1 is the all-ones word.\<close>

record pmm_state =
  mem :: memory
  memmap :: "limine_memmap_entry list"
  hhdm :: u64
  last_freed_page :: u64
  last_freed_section :: u64
  last_freed_num_pages :: u64
  total_memory_allocated :: u64

definition LIMINE_MEMMAP_USABLE :: u64 where
  "LIMINE_MEMMAP_USABLE = 0"

definition memmap_at :: "'a pmm_state_scheme \<Rightarrow> u64 \<Rightarrow> limine_memmap_entry result" where
  "memmap_at s i = arr_get (memmap s) (unat i)"

section \<open>Operations\<close>

text \<open>\<open>get_bitmap_reserved\<close>: the loop never changes \<open>n\<close>, so it either leaves at once or never;
  \<open>n\<close> and the products are \<open>uint32_t\<close>, the comparison is on \<open>uint64_t\<close>.\<close>

partial_function (option) bitmap_reserved_loop :: "limine_memmap_entry \<Rightarrow> u32 \<Rightarrow> u64 option" where
  "bitmap_reserved_loop e n =
     (if ucast (n * 4096 * 8) > me_length e div 4096 - ucast n then Some (ucast (n * 4096))
      else bitmap_reserved_loop e n)"

definition get_bitmap_reserved :: "limine_memmap_entry \<Rightarrow> u64 result" where
  "get_bitmap_reserved e =
     (case bitmap_reserved_loop e 1 of None \<Rightarrow> Inl Diverged | Some r \<Rightarrow> Inr r)"

definition init_single_bitmap ::
  "limine_memmap_entry \<Rightarrow> 'a pmm_state_scheme \<Rightarrow> 'a pmm_state_scheme" where
  "init_single_bitmap e s =
     (if me_type e \<noteq> LIMINE_MEMMAP_USABLE then s
      else s\<lparr>mem := ku_memset (me_base e + hhdm s) 0 (me_length e) (mem s)\<rparr>)"

definition init_PMM :: "'a pmm_state_scheme \<Rightarrow> 'a pmm_state_scheme" where
  "init_PMM s =
     (fold init_single_bitmap (memmap s) s)\<lparr>last_freed_section := - 1, last_freed_page := - 1\<rparr>"

definition allocate_page :: "u64 \<Rightarrow> u64 \<Rightarrow> 'a pmm_state_scheme \<Rightarrow> 'a pmm_state_scheme result" where
  "allocate_page section_index page_frame_number s =
     res_bind (memmap_at s section_index) (\<lambda>e.
       let bitmap_start = me_base e + hhdm s;
           byte = page_frame_number div 8;
           bitn = page_frame_number mod 8;
           or_value = (if bitn \<noteq> 0 then push_bit (unat bitn) 1 else 1);
           current_byte = bitmap_start + byte
       in Inr (s\<lparr>mem := (mem s)(current_byte := mem s current_byte OR or_value)\<rparr>))"

text \<open>\<open>for (i = 0; i < num_pages; i++) allocate_page(section, first + i)\<close>.\<close>

primrec allocate_pages_loop ::
  "nat \<Rightarrow> u64 \<Rightarrow> u64 \<Rightarrow> 'a pmm_state_scheme \<Rightarrow> 'a pmm_state_scheme result" where
  "allocate_pages_loop 0 section_index pfn s = Inr s"
| "allocate_pages_loop (Suc n) section_index pfn s =
     res_bind (allocate_page section_index pfn s) (allocate_pages_loop n section_index (pfn + 1))"

definition allocate_pages ::
  "u64 \<Rightarrow> u64 \<Rightarrow> u64 \<Rightarrow> 'a pmm_state_scheme \<Rightarrow> 'a pmm_state_scheme result" where
  "allocate_pages section_index page_frame_number num_pages s =
     allocate_pages_loop (unat num_pages) section_index page_frame_number s"

text \<open>The bitmap test of \<open>check_pages_avaliable\<close> over \<open>n\<close> consecutive page numbers.\<close>

primrec pages_free_loop :: "nat \<Rightarrow> u64 \<Rightarrow> u64 \<Rightarrow> memory \<Rightarrow> bool" where
  "pages_free_loop 0 bitmap_start pfn m = True"
| "pages_free_loop (Suc n) bitmap_start pfn m =
     (if drop_bit (unat (pfn mod 8)) (m (bitmap_start + pfn div 8)) AND 1 \<noteq> 0 then False
      else pages_free_loop n bitmap_start (pfn + 1) m)"

definition check_pages_avaliable ::
  "u64 \<Rightarrow> u64 \<Rightarrow> u64 \<Rightarrow> u64 \<Rightarrow> 'a pmm_state_scheme \<Rightarrow> bool result" where
  "check_pages_avaliable section_index page_frame_number num_pages bitmap_reserved s =
     res_bind (memmap_at s section_index) (\<lambda>e.
       let max_bitmap_bytes = (me_length e - bitmap_reserved) div 4096 div 8;
           pages_in_section = max_bitmap_bytes * 8;
           top_page = page_frame_number + num_pages;
           bitmap_start = me_base e + hhdm s
       in if top_page > pages_in_section then Inr False
          else if me_type e \<noteq> LIMINE_MEMMAP_USABLE then Inr False
          else if pages_in_section < num_pages then Inr False
          else Inr (pages_free_loop (unat top_page - unat page_frame_number)
                      bitmap_start page_frame_number (mem s)))"

text \<open>The three nested loops of \<open>kmalloc\<close>: over the bits of a bitmap byte, over the bytes of a
  section's bitmap, over the sections. A loop result \<open>None\<close> is "fell through", \<open>Some\<close> is the value
  the function returns from inside.\<close>

definition kmalloc_take ::
  "u64 \<Rightarrow> u64 \<Rightarrow> u64 \<Rightarrow> u64 \<Rightarrow> 'a pmm_state_scheme \<Rightarrow> (u64 \<times> 'a pmm_state_scheme) result" where
  "kmalloc_take entry pfn num_pages bitmap_reserved s =
     res_bind (allocate_pages entry pfn num_pages s) (\<lambda>s.
     res_bind (memmap_at s entry) (\<lambda>e.
       let addr = me_base e + pfn * 4096 + bitmap_reserved
       in Inr (addr,
            s\<lparr>mem := ku_memset (addr + hhdm s) 0 (num_pages * 4096) (mem s),
              total_memory_allocated := total_memory_allocated s + num_pages * 4096\<rparr>)))"

function kmalloc_bits ::
  "nat \<Rightarrow> nat \<Rightarrow> u64 \<Rightarrow> u64 \<Rightarrow> u64 \<Rightarrow> 'a pmm_state_scheme \<Rightarrow>
     (u64 \<times> 'a pmm_state_scheme) option result" where
  "kmalloc_bits bitmap_bit bitmap_byte entry num_pages bitmap_reserved s =
     (if bitmap_bit < 8 then
        (let pfn = of_nat bitmap_bit + of_nat bitmap_byte * 8 in
         res_bind (check_pages_avaliable entry pfn num_pages bitmap_reserved s) (\<lambda>ok.
           if ok then
             res_bind (kmalloc_take entry pfn num_pages bitmap_reserved s) (\<lambda>r. Inr (Some r))
           else kmalloc_bits (Suc bitmap_bit) bitmap_byte entry num_pages bitmap_reserved s))
      else Inr None)"
  by pat_completeness auto
termination
  by (relation "measure (\<lambda>(bitmap_bit, bitmap_byte, entry, num_pages, bitmap_reserved, s). 8 - bitmap_bit)") auto

function kmalloc_bytes ::
  "nat \<Rightarrow> nat \<Rightarrow> u64 \<Rightarrow> u64 \<Rightarrow> u64 \<Rightarrow> 'a pmm_state_scheme \<Rightarrow>
     (u64 \<times> 'a pmm_state_scheme) option result" where
  "kmalloc_bytes bitmap_byte max_bitmap_bytes entry num_pages bitmap_reserved s =
     (if bitmap_byte < max_bitmap_bytes then
        res_bind (kmalloc_bits 0 bitmap_byte entry num_pages bitmap_reserved s) (\<lambda>r.
          case r of
            Some x \<Rightarrow> Inr (Some x)
          | None \<Rightarrow> kmalloc_bytes (Suc bitmap_byte) max_bitmap_bytes entry num_pages bitmap_reserved s)
      else Inr None)"
  by pat_completeness auto
termination
  by (relation "measure (\<lambda>(bitmap_byte, mx, entry, num_pages, bitmap_reserved, s). mx - bitmap_byte)") auto

function kmalloc_sections ::
  "nat \<Rightarrow> u64 \<Rightarrow> 'a pmm_state_scheme \<Rightarrow> (u64 \<times> 'a pmm_state_scheme) option result" where
  "kmalloc_sections entry num_pages s =
     (if entry < length (memmap s) then
        (let e = memmap s ! entry in
         if me_type e \<noteq> LIMINE_MEMMAP_USABLE then kmalloc_sections (Suc entry) num_pages s
         else
           res_bind (get_bitmap_reserved e) (\<lambda>bitmap_reserved.
             let max_bitmap_bytes = (me_length e - bitmap_reserved) div 4096 div 8 in
             res_bind (kmalloc_bytes 0 (unat max_bitmap_bytes) (of_nat entry) num_pages
                         bitmap_reserved s) (\<lambda>r.
               case r of
                 Some x \<Rightarrow> Inr (Some x)
               | None \<Rightarrow> kmalloc_sections (Suc entry) num_pages s)))
      else Inr None)"
  by pat_completeness auto
termination
  by (relation "measure (\<lambda>(entry, num_pages, s). length (memmap s) - entry)") auto

declare bitmap_reserved_loop.simps [code]
declare kmalloc_bits.simps [simp del] kmalloc_bytes.simps [simp del] kmalloc_sections.simps [simp del]

definition kmalloc :: "u64 \<Rightarrow> 'a pmm_state_scheme \<Rightarrow> (u64 \<times> 'a pmm_state_scheme) result" where
  "kmalloc num_pages s =
     (if num_pages < 1 then Inl Halted
      else if last_freed_page s \<noteq> - 1 \<and> num_pages < last_freed_num_pages s then
        res_bind (allocate_pages (last_freed_section s) (last_freed_page s) num_pages s) (\<lambda>s.
        res_bind (memmap_at s (last_freed_section s)) (\<lambda>e.
        res_bind (get_bitmap_reserved e) (\<lambda>bitmap_reserved.
          Inr (me_base e + last_freed_page s * 4096 + bitmap_reserved, s))))
      else
        res_bind (kmalloc_sections 0 num_pages s) (\<lambda>r.
          case r of Some x \<Rightarrow> Inr x | None \<Rightarrow> Inl Halted))"


section \<open>Views of the bitmap\<close>

abbreviation bitmap_at :: "'a pmm_state_scheme \<Rightarrow> limine_memmap_entry \<Rightarrow> u64" where
  "bitmap_at s e \<equiv> me_base e + hhdm s"

definition page_used :: "'a pmm_state_scheme \<Rightarrow> limine_memmap_entry \<Rightarrow> nat \<Rightarrow> bool" where
  "page_used s e p \<longleftrightarrow> bit (mem s (bitmap_at s e + of_nat (p div 8))) (p mod 8)"

definition section_pages :: "limine_memmap_entry \<Rightarrow> nat" where
  "section_pages e = (unat (me_length e) - 4096) div 4096 div 8 * 8"

definition usable :: "limine_memmap_entry \<Rightarrow> bool" where
  "usable e \<longleftrightarrow> me_type e = LIMINE_MEMMAP_USABLE"

definition section_ok :: "limine_memmap_entry \<Rightarrow> bool" where
  "section_ok e \<longleftrightarrow> 4096 \<le> unat (me_length e) \<and> unat (me_length e) div 4096 \<le> 32768"

definition in_section :: "u64 \<Rightarrow> limine_memmap_entry \<Rightarrow> u64 \<Rightarrow> bool" where
  "in_section off e x \<longleftrightarrow> x - (me_base e + off) < me_length e"

definition run_free :: "'a pmm_state_scheme \<Rightarrow> limine_memmap_entry \<Rightarrow> nat \<Rightarrow> nat \<Rightarrow> bool" where
  "run_free s e p n \<longleftrightarrow> p + n \<le> section_pages e \<and> (\<forall>q. p \<le> q \<and> q < p + n \<longrightarrow> \<not> page_used s e q)"

lemma bitmap_reserved_loop_Some:
  "bitmap_reserved_loop e n = Some r \<Longrightarrow> me_length e div 4096 - ucast n < ucast (n * 4096 * 8)"
  by (rule bitmap_reserved_loop.raw_induct
        [where P = "\<lambda>e n r. me_length e div 4096 - ucast n < ucast (n * 4096 * 8)"])
     (auto split: if_splits)

lemma section_ok_iff:
  "section_ok e \<longleftrightarrow> me_length e div 4096 - 1 < 32768"
proof -
  let ?k = "me_length e div 4096"
  have k: "unat ?k = unat (me_length e) div 4096"
    by (simp add: unat_div_u64)
  show ?thesis
  proof (cases "?k = 0")
    case True
    then have "unat (me_length e) div 4096 = 0" using k by simp
    then show ?thesis using True by (simp add: section_ok_def div_eq_0_iff)
  next
    case False
    then have "0 < unat ?k" by (simp add: unat_gt_0)
    then have "unat (?k - 1) = unat ?k - 1"
      by (simp add: unat_sub_if')
    moreover have "4096 \<le> unat (me_length e)"
      using \<open>0 < unat ?k\<close> k by (simp add: div_greater_zero_iff)
    ultimately show ?thesis
      using \<open>0 < unat ?k\<close> by (auto simp: section_ok_def word_less_nat_alt k)
  qed
qed

lemma get_bitmap_reserved_ok: "section_ok e \<Longrightarrow> get_bitmap_reserved e = Inr 4096"
  by (subst (asm) section_ok_iff)
     (simp add: get_bitmap_reserved_def bitmap_reserved_loop.simps)

lemma get_bitmap_reserved_diverges:
  assumes "\<not> section_ok e"
  shows "get_bitmap_reserved e = Inl Diverged"
proof -
  have "bitmap_reserved_loop e 1 = None"
    using assms bitmap_reserved_loop_Some[of e 1]
    by (cases "bitmap_reserved_loop e 1") (auto simp: section_ok_iff)
  then show ?thesis by (simp add: get_bitmap_reserved_def)
qed

lemma bit_test_and_1: "(drop_bit k (w :: u8) AND 1 \<noteq> 0) \<longleftrightarrow> bit w k"
  by (simp add: and_one_eq bit_iff_odd_drop_bit odd_iff_mod_2_eq_one)

lemma pages_free_loop_iff:
  assumes "p + n < 2 ^ 64"
  shows "pages_free_loop n b (of_nat p) m \<longleftrightarrow>
     (\<forall>q. p \<le> q \<and> q < p + n \<longrightarrow> \<not> bit (m (b + of_nat (q div 8))) (q mod 8))"
  using assms
proof (induction n arbitrary: p)
  case (Suc n)
  have d: "(of_nat p :: u64) div 8 = of_nat (p div 8)" "unat ((of_nat p :: u64) mod 8) = p mod 8"
    using Suc.prems by (simp_all add: u64_eq_iff unat_div_u64 unat_mod_u64 unat_of_nat_u64)
  have split: "(\<forall>q. p \<le> q \<and> q < p + Suc n \<longrightarrow> Q q) \<longleftrightarrow>
      Q p \<and> (\<forall>q. Suc p \<le> q \<and> q < Suc p + n \<longrightarrow> Q q)" for Q
    by (auto simp: Suc_le_eq le_eq_less_or_eq[of p])
  have IH: "pages_free_loop n b (of_nat (Suc p)) m \<longleftrightarrow>
      (\<forall>q. Suc p \<le> q \<and> q < Suc p + n \<longrightarrow> \<not> bit (m (b + of_nat (q div 8))) (q mod 8))"
    using Suc.prems by (intro Suc.IH) simp
  have step: "of_nat p + (1 :: u64) = of_nat (Suc p)" by simp
  show ?case
    unfolding split[of "\<lambda>q. \<not> bit (m (b + of_nat (q div 8))) (q mod 8)"] pages_free_loop.simps
      step IH d bit_test_and_1 by auto
qed auto

lemma section_pages_bound: "section_ok e \<Longrightarrow> section_pages e \<le> 32760"
  unfolding section_ok_def section_pages_def by auto

lemma max_bitmap_bytes:
  assumes "section_ok e"
  shows "unat ((me_length e - 4096) div 4096 div 8) * 8 = section_pages e"
    and "unat ((me_length e - 4096) div 4096 div 8 * 8) = section_pages e"
proof -
  have "4096 \<le> me_length e"
    using assms by (simp add: section_ok_def word_le_nat_alt)
  then have "unat (me_length e - 4096) = unat (me_length e) - 4096"
    by (simp add: unat_sub)
  then have 1: "unat ((me_length e - 4096) div 4096 div 8) = (unat (me_length e) - 4096) div 4096 div 8"
    by (simp add: unat_div_u64)
  then show 2: "unat ((me_length e - 4096) div 4096 div 8) * 8 = section_pages e"
    by (simp add: section_pages_def)
  show "unat ((me_length e - 4096) div 4096 div 8 * 8) = section_pages e"
    using 2 section_pages_bound[OF assms] by (subst unat_mult_u64) simp_all
qed


text \<open>What the Limine protocol documents of its memory map (usable regions do not overlap), with the
  size range for which \<open>get_bitmap_reserved\<close> returns; and the state \<open>init_PMM\<close> leaves: nothing in this
  kernel ever frees a page, so \<open>last_freed_page\<close> stays -1.\<close>

definition memmap_ok :: "'a pmm_state_scheme \<Rightarrow> bool" where
  "memmap_ok s \<longleftrightarrow>
     (\<forall>e \<in> set (memmap s). usable e \<longrightarrow> section_ok e) \<and>
     (\<forall>i < length (memmap s). \<forall>j < length (memmap s). i \<noteq> j \<longrightarrow>
        usable (memmap s ! i) \<longrightarrow> usable (memmap s ! j) \<longrightarrow>
        (\<forall>x. \<not> (in_section 0 (memmap s ! i) x \<and> in_section 0 (memmap s ! j) x))) \<and>
     length (memmap s) < 2 ^ 64"

definition pmm_wf :: "'a pmm_state_scheme \<Rightarrow> bool" where
  "pmm_wf s \<longleftrightarrow> memmap_ok s \<and> last_freed_page s = - 1"

lemma check_pages_avaliable_eq:
  assumes i: "i < length (memmap s)" "i < 2 ^ 64" and e: "e = memmap s ! i"
    and ok: "usable e" "section_ok e" and p: "p < section_pages e"
  shows "check_pages_avaliable (of_nat i) (of_nat p) n 4096 s = Inr (run_free s e p (unat n))"
proof -
  let ?mp = "(me_length e - 4096) div 4096 div 8 * 8"
  note mp = max_bitmap_bytes(2)[OF ok(2)] and bnd = section_pages_bound[OF ok(2)]
  have at: "memmap_at s (of_nat i) = Inr e"
    using i e by (simp add: memmap_at_def arr_get_def unat_of_nat_u64)
  have up: "unat (of_nat p :: u64) = p" using p bnd by (simp add: unat_of_nat_u64)
  show ?thesis
  proof (cases "?mp < n")
    case True
    then have "section_pages e < unat n" using mp by (simp add: word_less_nat_alt)
    with True ok(1) show ?thesis
      by (simp add: check_pages_avaliable_def at Let_def run_free_def usable_def)
  next
    case False
    then have n: "unat n \<le> section_pages e" using mp by (simp add: word_less_nat_alt)
    then have top: "unat (of_nat p + n) = p + unat n"
      using p bnd up by (simp add: unat_add_u64)
    have "pages_free_loop (unat (of_nat p + n) - unat (of_nat p :: u64)) (bitmap_at s e) (of_nat p) (mem s)
        \<longleftrightarrow> (\<forall>q. p \<le> q \<and> q < p + unat n \<longrightarrow> \<not> page_used s e q)"
      unfolding top up page_used_def using n p bnd by (subst diff_add_inverse, subst pages_free_loop_iff) auto
    moreover have "(?mp < of_nat p + n) \<longleftrightarrow> \<not> p + unat n \<le> section_pages e"
      by (simp add: word_less_nat_alt top mp not_le)
    ultimately show ?thesis
      using ok(1) False
      by (auto simp: check_pages_avaliable_def at Let_def run_free_def usable_def)
  qed
qed

lemma bitmap_byte_inj:
  "p < 32768 \<Longrightarrow> q < 32768 \<Longrightarrow>
     (b + of_nat (p div 8) = b + (of_nat (q div 8) :: u64)) \<longleftrightarrow> p div 8 = q div 8"
  by (simp add: of_nat_inj_u64)

text \<open>Marking a run of pages sets their bits, no other bit of the bitmap, and no byte outside the
  bitmap page.\<close>

lemma allocate_pages_loop_marks:
  assumes "i < length (memmap s)" "i < 2 ^ 64" "e = memmap s ! i" "p + n \<le> 32768"
  shows "\<exists>m. allocate_pages_loop n (of_nat i) (of_nat p) s = Inr (s\<lparr>mem := m\<rparr>) \<and>
     (\<forall>q < 32768. bit (m (bitmap_at s e + of_nat (q div 8))) (q mod 8) \<longleftrightarrow>
        page_used s e q \<or> p \<le> q \<and> q < p + n) \<and>
     (\<forall>x. \<not> x - bitmap_at s e < 4096 \<longrightarrow> m x = mem s x)"
  using assms
proof (induction n arbitrary: p s)
  case 0
  have "s\<lparr>mem := mem s\<rparr> = s" by simp
  then show ?case by (intro exI[of _ "mem s"]) (auto simp: page_used_def)
next
  case (Suc n)
  let ?b = "bitmap_at s e" and ?a = "bitmap_at s e + of_nat (p div 8)"
  let ?m = "(mem s)(?a := mem s ?a OR push_bit (p mod 8) 1)"
  let ?s = "s\<lparr>mem := ?m\<rparr>"
  have p: "p < 32768" using Suc.prems(4) by simp
  then have d: "(of_nat p :: u64) div 8 = of_nat (p div 8)" "unat ((of_nat p :: u64) mod 8) = p mod 8"
    by (simp_all add: u64_eq_iff unat_div_u64 unat_mod_u64 unat_of_nat_u64)
  have or1: "(if (of_nat p :: u64) mod 8 \<noteq> 0 then push_bit (unat ((of_nat p :: u64) mod 8)) 1 else 1)
      = (push_bit (p mod 8) 1 :: u8)"
    using d(2) by (auto simp: u64_eq_iff)
  have step: "allocate_page (of_nat i) (of_nat p) s = Inr ?s"
    using Suc.prems
    by (simp add: allocate_page_def memmap_at_def arr_get_def unat_of_nat_u64 Let_def or1 d(1)
        del: push_bit_eq_0_iff)
  have marks: "page_used ?s e q \<longleftrightarrow> page_used s e q \<or> q = p" if q: "q < 32768" for q
  proof (cases "q div 8 = p div 8")
    case True
    then have "q mod 8 = p mod 8 \<longleftrightarrow> q = p" by (metis div_mult_mod_eq)
    moreover have "bit (push_bit (p mod 8) 1 :: u8) (q mod 8) \<longleftrightarrow> q mod 8 = p mod 8"
      by (auto simp: bit_simps)
    ultimately show ?thesis using True by (simp add: page_used_def bit_or_iff)
  next
    case False
    then show ?thesis using bitmap_byte_inj[OF q p, of ?b] by (auto simp: page_used_def)
  qed
  have "unat (?a - ?b) < 4096" using p by (simp add: unat_of_nat_u64)
  then have out: "\<not> x - ?b < 4096 \<Longrightarrow> mem ?s x = mem s x" for x
    by (auto simp: word_less_nat_alt)
  obtain m where m: "allocate_pages_loop n (of_nat i) (of_nat (Suc p)) ?s = Inr (?s\<lparr>mem := m\<rparr>)"
    "\<forall>q < 32768. bit (m (bitmap_at ?s e + of_nat (q div 8))) (q mod 8) \<longleftrightarrow>
        page_used ?s e q \<or> Suc p \<le> q \<and> q < Suc p + n"
    "\<forall>x. \<not> x - bitmap_at ?s e < 4096 \<longrightarrow> m x = mem ?s x"
    using Suc.IH[of ?s "Suc p"] Suc.prems by auto
  have "of_nat p + (1 :: u64) = of_nat (Suc p)" by simp
  then have "allocate_pages_loop (Suc n) (of_nat i) (of_nat p) s = Inr (s\<lparr>mem := m\<rparr>)"
    using step m(1) by (simp add: add.commute)
  moreover have "\<forall>q < 32768. bit (m (?b + of_nat (q div 8))) (q mod 8) \<longleftrightarrow>
        page_used s e q \<or> p \<le> q \<and> q < p + Suc n"
    using m(2) marks by auto
  moreover have "\<forall>x. \<not> x - ?b < 4096 \<longrightarrow> m x = mem s x"
    using m(3) out by auto
  ultimately show ?case by blast
qed


lemma in_section_shift: "in_section off e x \<longleftrightarrow> in_section 0 e (x - off)"
  by (simp add: in_section_def algebra_simps)

lemma section_offsets:
  assumes "section_ok e" "p + n \<le> section_pages e"
  shows "4096 + (p + n) * 4096 \<le> unat (me_length e)"
  using assms unfolding section_ok_def section_pages_def by auto

lemma block_size:
  fixes n :: u64
  assumes "section_ok e" "p + unat n \<le> section_pages e"
  shows "unat (n * 4096) = unat n * 4096"
    and "unat (of_nat p * 4096 + 4096 :: u64) = p * 4096 + 4096"
proof -
  have b: "p + unat n \<le> 32760" using section_pages_bound[OF assms(1)] assms(2) by linarith
  then show "unat (n * 4096) = unat n * 4096" by (simp add: unat_mult_u64)
  have "unat (of_nat p * 4096 :: u64) = p * 4096"
    using b by (simp add: unat_mult_u64 unat_of_nat_u64)
  then show "unat (of_nat p * 4096 + 4096 :: u64) = p * 4096 + 4096"
    using b by (simp add: unat_add_u64)
qed

text \<open>A block of \<open>n\<close> pages at page \<open>p\<close> lies in its section and misses the section's bitmap page.\<close>

lemma block_offset:
  fixes n b x :: u64
  assumes "section_ok e" "p + unat n \<le> section_pages e"
    and x: "x - (b + (of_nat p * 4096 + 4096)) < n * 4096"
  shows "p * 4096 + 4096 \<le> unat (x - b)" "unat (x - b) < (p + unat n) * 4096 + 4096"
proof -
  let ?c = "of_nat p * 4096 + 4096 :: u64"
  note sz = block_size[OF assms(1,2)]
  have bnd: "4096 + (p + unat n) * 4096 \<le> 2 ^ 28"
    using section_pages_bound[OF assms(1)] assms(2) by simp
  have "unat (x - (b + ?c)) < unat n * 4096"
    using x sz by (simp add: word_less_nat_alt)
  then have "unat (x - (b + ?c) + ?c) = unat (x - (b + ?c)) + (p * 4096 + 4096)"
    using sz bnd by (subst unat_add_u64) simp_all
  moreover have "x - (b + ?c) + ?c = x - b" by (simp add: algebra_simps)
  ultimately have "unat (x - b) = unat (x - (b + ?c)) + (p * 4096 + 4096)" by simp
  then show "p * 4096 + 4096 \<le> unat (x - b)" "unat (x - b) < (p + unat n) * 4096 + 4096"
    using \<open>unat (x - (b + ?c)) < unat n * 4096\<close> by (simp_all add: algebra_simps)
qed

lemma block_in_section:
  assumes "section_ok e" "p + unat n \<le> section_pages e"
    and "x - (me_base e + off + (of_nat p * 4096 + 4096)) < n * 4096"
  shows "in_section off e x" "\<not> x - (me_base e + off) < 4096"
  using block_offset[OF assms] section_offsets[OF assms(1,2)]
  by (simp_all add: in_section_def word_less_nat_alt)

lemma bitmap_in_section:
  assumes "section_ok e" "x - (me_base e + off) < 4096"
  shows "in_section off e x"
  using assms by (simp add: in_section_def section_ok_def word_less_nat_alt)

lemma bitmap_byte_in_bitmap:
  "section_ok e \<Longrightarrow> q < section_pages e \<Longrightarrow> (b + of_nat (q div 8)) - b < (4096 :: u64)"
  using section_pages_bound[of e] by (simp add: word_less_nat_alt unat_of_nat_u64)

text \<open>What \<open>kmalloc\<close> does once it has chosen page \<open>p\<close> of section \<open>i\<close>.\<close>

lemma kmalloc_take_effect:
  assumes i: "i < length (memmap s)" "i < 2 ^ 64" "e = memmap s ! i"
    and ok: "section_ok e" and fits: "p + unat n \<le> section_pages e"
  shows "\<exists>m. kmalloc_take (of_nat i) (of_nat p) n 4096 s =
       Inr (me_base e + (of_nat p * 4096 + 4096),
            s\<lparr>mem := m, total_memory_allocated := total_memory_allocated s + n * 4096\<rparr>) \<and>
     (\<forall>q < 32768. bit (m (bitmap_at s e + of_nat (q div 8))) (q mod 8) \<longleftrightarrow>
        page_used s e q \<or> p \<le> q \<and> q < p + unat n) \<and>
     (\<forall>x. x - (bitmap_at s e + (of_nat p * 4096 + 4096)) < n * 4096 \<longrightarrow> m x = 0) \<and>
     (\<forall>x. \<not> x - (bitmap_at s e + (of_nat p * 4096 + 4096)) < n * 4096 \<longrightarrow>
          \<not> x - bitmap_at s e < 4096 \<longrightarrow> m x = mem s x)"
proof -
  let ?c = "of_nat p * 4096 + 4096 :: u64"
  have "p + unat n \<le> 32768" using section_pages_bound[OF ok] fits by linarith
  from allocate_pages_loop_marks[OF i this] obtain m where
    m: "allocate_pages_loop (unat n) (of_nat i) (of_nat p) s = Inr (s\<lparr>mem := m\<rparr>)"
       "\<forall>q < 32768. bit (m (bitmap_at s e + of_nat (q div 8))) (q mod 8) \<longleftrightarrow>
          page_used s e q \<or> p \<le> q \<and> q < p + unat n"
       "\<forall>x. \<not> x - bitmap_at s e < 4096 \<longrightarrow> m x = mem s x"
    by blast
  let ?m = "ku_memset (bitmap_at s e + ?c) 0 (n * 4096) m"
  have "me_base e + of_nat p * 4096 + 4096 + hhdm s = bitmap_at s e + ?c"
    by (simp add: algebra_simps)
  then have "kmalloc_take (of_nat i) (of_nat p) n 4096 s =
       Inr (me_base e + ?c,
            s\<lparr>mem := ?m, total_memory_allocated := total_memory_allocated s + n * 4096\<rparr>)"
    using m(1) i
    by (simp add: kmalloc_take_def allocate_pages_def memmap_at_def arr_get_def unat_of_nat_u64
        Let_def ac_simps)
  moreover have "?m (bitmap_at s e + of_nat (q div 8)) = m (bitmap_at s e + of_nat (q div 8))"
    if "q < 32768" for q
  proof (rule ku_memset_out)
    have "(bitmap_at s e + of_nat (q div 8)) - bitmap_at s e < (4096 :: u64)"
      using that by (simp add: word_less_nat_alt unat_of_nat_u64)
    then show "\<not> (bitmap_at s e + of_nat (q div 8)) - (bitmap_at s e + ?c) < n * 4096"
      using block_in_section(2)[OF ok fits] by blast
  qed
  ultimately show ?thesis
    using m(2,3) by (intro exI[of _ ?m]) (simp add: ku_memset_def)
qed


text \<open>The loops of \<open>kmalloc\<close>: they find the first free run, or show there is none.\<close>

lemma kmalloc_bits_cases:
  assumes i: "i < length (memmap s)" "i < 2 ^ 64" "e = memmap s ! i"
    and ok: "usable e" "section_ok e" and byte: "byte * 8 < section_pages e" and "k \<le> 8"
  shows "(kmalloc_bits k byte (of_nat i) n 4096 s = Inr None \<and>
            (\<forall>p. byte * 8 + k \<le> p \<and> p < byte * 8 + 8 \<longrightarrow> \<not> run_free s e p (unat n))) \<or>
         (\<exists>p r. byte * 8 + k \<le> p \<and> p < byte * 8 + 8 \<and> run_free s e p (unat n) \<and>
            kmalloc_take (of_nat i) (of_nat p) n 4096 s = Inr r \<and>
            kmalloc_bits k byte (of_nat i) n 4096 s = Inr (Some r))"
  using \<open>k \<le> 8\<close>
proof (induction "8 - k" arbitrary: k)
  case 0
  then have "k = 8" by simp
  then show ?case by (auto simp: kmalloc_bits.simps)
next
  case (Suc d)
  then have k: "k < 8" by simp
  let ?p = "byte * 8 + k"
  obtain c where "section_pages e = c * 8" by (simp add: section_pages_def)
  with byte have "byte * 8 + 8 \<le> section_pages e" by simp
  with k have p: "?p < section_pages e" by linarith
  have pw: "of_nat k + of_nat byte * 8 = (of_nat ?p :: u64)" by simp
  have chk: "check_pages_avaliable (of_nat i) (of_nat ?p) n 4096 s = Inr (run_free s e ?p (unat n))"
    by (rule check_pages_avaliable_eq[OF i ok p])
  show ?case
  proof (cases "run_free s e ?p (unat n)")
    case True
    then obtain r where "kmalloc_take (of_nat i) (of_nat ?p) n 4096 s = Inr r"
      using kmalloc_take_effect[OF i ok(2)] by (metis run_free_def)
    moreover from this have "kmalloc_bits k byte (of_nat i) n 4096 s = Inr (Some r)"
      using True chk k
      by (subst kmalloc_bits.simps) (simp add: pw Let_def del: of_nat_add of_nat_mult)
    ultimately show ?thesis using True k by (intro disjI2 exI[of _ ?p]) auto
  next
    case False
    have unf: "kmalloc_bits k byte (of_nat i) n 4096 s = kmalloc_bits (Suc k) byte (of_nat i) n 4096 s"
      using False chk k
      by (subst kmalloc_bits.simps) (simp add: pw Let_def del: of_nat_add of_nat_mult)
    have "d = 8 - Suc k" "Suc k \<le> 8" using Suc.hyps(2) k by auto
    note IH = Suc.hyps(1)[OF this]
    have le: "?p \<le> p \<longleftrightarrow> p = ?p \<or> byte * 8 + Suc k \<le> p" for p by auto
    show ?thesis unfolding unf le using IH False by blast
  qed
qed


lemma kmalloc_bytes_cases:
  assumes i: "i < length (memmap s)" "i < 2 ^ 64" "e = memmap s ! i"
    and ok: "usable e" "section_ok e" and mx: "mx * 8 = section_pages e" and "byte \<le> mx"
  shows "(kmalloc_bytes byte mx (of_nat i) n 4096 s = Inr None \<and>
            (\<forall>p. byte * 8 \<le> p \<and> p < section_pages e \<longrightarrow> \<not> run_free s e p (unat n))) \<or>
         (\<exists>p r. run_free s e p (unat n) \<and>
            kmalloc_take (of_nat i) (of_nat p) n 4096 s = Inr r \<and>
            kmalloc_bytes byte mx (of_nat i) n 4096 s = Inr (Some r))"
  using \<open>byte \<le> mx\<close>
proof (induction "mx - byte" arbitrary: byte)
  case 0
  then have "byte = mx" by simp
  then show ?case using mx by (auto simp: kmalloc_bytes.simps)
next
  case (Suc d)
  then have byte: "byte < mx" by simp
  then have "byte * 8 < section_pages e" using mx by simp
  from kmalloc_bits_cases[OF i ok this, of 0 n] consider
      (none) "kmalloc_bits 0 byte (of_nat i) n 4096 s = Inr None"
        "\<forall>p. byte * 8 \<le> p \<and> p < byte * 8 + 8 \<longrightarrow> \<not> run_free s e p (unat n)"
    | (some) p r where "run_free s e p (unat n)" "kmalloc_take (of_nat i) (of_nat p) n 4096 s = Inr r"
        "kmalloc_bits 0 byte (of_nat i) n 4096 s = Inr (Some r)"
    by auto
  then show ?case
  proof cases
    case none
    have unf: "kmalloc_bytes byte mx (of_nat i) n 4096 s = kmalloc_bytes (Suc byte) mx (of_nat i) n 4096 s"
      using none(1) byte by (subst kmalloc_bytes.simps) simp
    have "d = mx - Suc byte" "Suc byte \<le> mx" using Suc.hyps(2) byte by auto
    from Suc.hyps(1)[OF this] show ?thesis
      unfolding unf using none(2) by (auto simp: add.commute) (meson not_le)
  next
    case (some p r)
    then have "kmalloc_bytes byte mx (of_nat i) n 4096 s = Inr (Some r)"
      using byte by (subst kmalloc_bytes.simps) simp
    with some show ?thesis by blast
  qed
qed

lemma kmalloc_sections_cases:
  assumes ok: "\<forall>e \<in> set (memmap s). usable e \<longrightarrow> section_ok e" and len: "length (memmap s) < 2 ^ 64"
    and "0 < unat n" and "i \<le> length (memmap s)"
  shows "(kmalloc_sections i n s = Inr None \<and>
            (\<forall>j p. i \<le> j \<and> j < length (memmap s) \<and> usable (memmap s ! j) \<longrightarrow>
               \<not> run_free s (memmap s ! j) p (unat n))) \<or>
         (\<exists>j p r. j < length (memmap s) \<and> usable (memmap s ! j) \<and>
            run_free s (memmap s ! j) p (unat n) \<and>
            kmalloc_take (of_nat j) (of_nat p) n 4096 s = Inr r \<and>
            kmalloc_sections i n s = Inr (Some r))"
  using \<open>i \<le> length (memmap s)\<close>
proof (induction "length (memmap s) - i" arbitrary: i)
  case 0
  then show ?case by (auto simp: kmalloc_sections.simps)
next
  case (Suc d)
  then have i: "i < length (memmap s)" "i < 2 ^ 64" using len by auto
  let ?e = "memmap s ! i"
  have next_i: "d = length (memmap s) - Suc i" "Suc i \<le> length (memmap s)"
    using Suc.hyps(2) i by auto
  note IH = Suc.hyps(1)[OF next_i]
  have skip: ?case
    if "kmalloc_sections i n s = kmalloc_sections (Suc i) n s"
      "\<And>p. usable ?e \<Longrightarrow> \<not> run_free s ?e p (unat n)"
    unfolding that(1) using IH that(2) by (metis Suc_leI le_neq_implies_less)
  show ?case
  proof (cases "usable ?e")
    case False
    then show ?thesis
      using i by (intro skip) (subst kmalloc_sections.simps, simp_all add: Let_def usable_def)
  next
    case True
    then have sok: "section_ok ?e" using ok i by simp
    let ?mx = "unat ((me_length ?e - 4096) div 4096 div 8)"
    have unf: "kmalloc_sections i n s =
        res_bind (kmalloc_bytes 0 ?mx (of_nat i) n 4096 s) (\<lambda>r. case r of
          Some x \<Rightarrow> Inr (Some x) | None \<Rightarrow> kmalloc_sections (Suc i) n s)"
      using True i
      by (subst kmalloc_sections.simps) (simp add: Let_def usable_def get_bitmap_reserved_ok[OF sok])
    from kmalloc_bytes_cases[OF i refl True sok max_bitmap_bytes(1)[OF sok], of 0 n] consider
        (none) "kmalloc_bytes 0 ?mx (of_nat i) n 4096 s = Inr None"
          "\<forall>p. p < section_pages ?e \<longrightarrow> \<not> run_free s ?e p (unat n)"
      | (some) p r where "run_free s ?e p (unat n)" "kmalloc_take (of_nat i) (of_nat p) n 4096 s = Inr r"
          "kmalloc_bytes 0 ?mx (of_nat i) n 4096 s = Inr (Some r)"
      by auto
    then show ?thesis
    proof cases
      case none
      have "\<not> run_free s ?e p (unat n)" for p
        using none(2) \<open>0 < unat n\<close> by (cases "p < section_pages ?e") (auto simp: run_free_def)
      then show ?thesis using none(1) unf by (intro skip) simp_all
    next
      case (some p r)
      then have "kmalloc_sections i n s = Inr (Some r)" using unf by simp
      then show ?thesis using some True i by blast
    qed
  qed
qed


lemma kmalloc_cases:
  assumes wf: "pmm_wf s" and n: "1 \<le> n"
  shows "(kmalloc n s = Inl Halted \<and>
            (\<forall>e p. e \<in> set (memmap s) \<and> usable e \<longrightarrow> \<not> run_free s e p (unat n))) \<or>
         (\<exists>i p r. i < length (memmap s) \<and> usable (memmap s ! i) \<and>
            run_free s (memmap s ! i) p (unat n) \<and>
            kmalloc_take (of_nat i) (of_nat p) n 4096 s = Inr r \<and> kmalloc n s = Inr r)"
proof -
  have n0: "0 < unat n" "\<not> n < 1" using n by (auto simp: word_le_nat_alt word_less_nat_alt)
  have unf: "kmalloc n s = res_bind (kmalloc_sections 0 n s)
      (\<lambda>r. case r of Some x \<Rightarrow> Inr x | None \<Rightarrow> Inl Halted)"
    using wf n0(2) by (simp add: kmalloc_def pmm_wf_def memmap_ok_def)
  have "\<forall>e \<in> set (memmap s). usable e \<longrightarrow> section_ok e" "length (memmap s) < 2 ^ 64"
    using wf by (simp_all add: pmm_wf_def memmap_ok_def)
  from kmalloc_sections_cases[OF this n0(1), of 0] show ?thesis
    unfolding unf by (auto simp: in_set_conv_nth)
qed

lemma kmalloc_effect:
  assumes wf: "pmm_wf s" and res: "kmalloc n s = Inr (a, s')"
  obtains i p e where "i < length (memmap s)" "e = memmap s ! i" "usable e"
    "run_free s e p (unat n)" "a = me_base e + (of_nat p * 4096 + 4096)"
    "\<And>f q. f \<in> set (memmap s) \<Longrightarrow> usable f \<Longrightarrow> q < section_pages f \<Longrightarrow>
       page_used s' f q \<longleftrightarrow> page_used s f q \<or> (f = e \<and> p \<le> q \<and> q < p + unat n)"
    "\<And>x. x - (a + hhdm s) < n * 4096 \<Longrightarrow> mem s' x = 0"
    "\<And>x. \<not> x - (a + hhdm s) < n * 4096 \<Longrightarrow> \<not> x - bitmap_at s e < 4096 \<Longrightarrow> mem s' x = mem s x"
    "\<exists>m. s' = s\<lparr>mem := m, total_memory_allocated := total_memory_allocated s + n * 4096\<rparr>"
proof -
  have "1 \<le> n"
  proof (rule ccontr)
    assume "\<not> 1 \<le> n"
    then have "n < 1" by (simp only: not_le)
    with res show False by (simp add: kmalloc_def)
  qed
  from kmalloc_cases[OF wf this] res obtain i p where
    i: "i < length (memmap s)" and us: "usable (memmap s ! i)" and
    free: "run_free s (memmap s ! i) p (unat n)" and
    take: "kmalloc_take (of_nat i) (of_nat p) n 4096 s = Inr (a, s')"
    by auto
  let ?e = "memmap s ! i"
  have i64: "i < 2 ^ 64" and sok: "\<And>f. f \<in> set (memmap s) \<Longrightarrow> usable f \<Longrightarrow> section_ok f"
    using wf i by (auto simp: pmm_wf_def memmap_ok_def)
  have ok: "section_ok ?e" using sok us i by simp
  have fits: "p + unat n \<le> section_pages ?e" using free by (simp add: run_free_def)
  let ?c = "of_nat p * 4096 + 4096 :: u64"
  from kmalloc_take_effect[OF i i64 refl ok fits] take obtain m where
    a: "a = me_base ?e + ?c" and
    s': "s' = s\<lparr>mem := m, total_memory_allocated := total_memory_allocated s + n * 4096\<rparr>" and
    bits: "\<forall>q < 32768. bit (m (bitmap_at s ?e + of_nat (q div 8))) (q mod 8) \<longleftrightarrow>
       page_used s ?e q \<or> p \<le> q \<and> q < p + unat n" and
    zero: "\<forall>x. x - (bitmap_at s ?e + ?c) < n * 4096 \<longrightarrow> m x = 0" and
    out: "\<forall>x. \<not> x - (bitmap_at s ?e + ?c) < n * 4096 \<longrightarrow> \<not> x - bitmap_at s ?e < 4096 \<longrightarrow> m x = mem s x"
    by auto
  have ah: "a + hhdm s = bitmap_at s ?e + ?c" by (simp add: a algebra_simps)
  have used: "page_used s' f q \<longleftrightarrow> page_used s f q \<or> (f = ?e \<and> p \<le> q \<and> q < p + unat n)"
    if f: "f \<in> set (memmap s)" "usable f" and q: "q < section_pages f" for f q
  proof (cases "f = ?e")
    case True
    then show ?thesis
      using bits q section_pages_bound[OF ok] by (auto simp: page_used_def s')
  next
    case False
    let ?x = "bitmap_at s f + of_nat (q div 8)"
    obtain j where j: "j < length (memmap s)" "f = memmap s ! j" using f by (auto simp: in_set_conv_nth)
    with False have ij: "i \<noteq> j" by auto
    have "in_section (hhdm s) f ?x"
      using bitmap_in_section[OF sok[OF f]] bitmap_byte_in_bitmap[OF sok[OF f] q] by simp
    then have nin: "\<not> in_section (hhdm s) ?e ?x"
      using wf i j us f ij unfolding in_section_shift[of "hhdm s"] pmm_wf_def memmap_ok_def by metis
    have "\<not> ?x - (bitmap_at s ?e + ?c) < n * 4096"
      using nin block_in_section(1)[OF ok fits] by blast
    moreover have "\<not> ?x - bitmap_at s ?e < 4096"
      using nin bitmap_in_section[OF ok] by blast
    ultimately show ?thesis using out False by (simp add: page_used_def s')
  qed
  show ?thesis
    by (rule that[OF i refl us free a used]) (use zero out ah s' in auto)
qed

lemma kmalloc_frame:
  assumes "pmm_wf s" "kmalloc n s = Inr (a, s')"
  shows "\<exists>m. s' = s\<lparr>mem := m, total_memory_allocated := total_memory_allocated s + n * 4096\<rparr>"
  using kmalloc_effect[OF assms] by metis

lemma kmalloc_zeroes:
  assumes wf: "pmm_wf s" and res: "kmalloc n s = Inr (a, s')" and x: "x - (a + hhdm s) < n * 4096"
  shows "mem s' x = 0"
  by (rule kmalloc_effect[OF wf res]) (use x in blast)

lemma pmm_wf_upd [frame_simps]:
  "pmm_wf (s\<lparr>mem := m, total_memory_allocated := t\<rparr>) = pmm_wf s"
  "pmm_wf (s\<lparr>mem := m\<rparr>) = pmm_wf s"
  by (simp_all add: pmm_wf_def memmap_ok_def)

lemma pmm_wf_kmalloc: "pmm_wf s \<Longrightarrow> kmalloc n s = Inr (a, s') \<Longrightarrow> pmm_wf s'"
  by (frule (1) kmalloc_frame) (auto simp only: frame_simps)


section \<open>The interface of a page allocator\<close>

text \<open>The bytes of a block of \<open>n\<close> pages at physical address \<open>a\<close>.\<close>

definition page_block :: "u64 \<Rightarrow> u64 \<Rightarrow> u64 set" where
  "page_block a n = {x. x - a < n * 4096}"

text \<open>A client's sequence of requests.\<close>

primrec alloc_run ::
  "(u64 \<Rightarrow> 's \<Rightarrow> (u64 \<times> 's) result) \<Rightarrow> u64 list \<Rightarrow> 's \<Rightarrow> (u64 list \<times> 's) result" where
  "alloc_run alloc [] s = Inr ([], s)"
| "alloc_run alloc (n # ns) s =
     res_bind (alloc n s) (\<lambda>(a, s).
     res_bind (alloc_run alloc ns s) (\<lambda>(as, s). Inr (a # as, s)))"

locale page_allocator =
  fixes alloc :: "u64 \<Rightarrow> 's \<Rightarrow> (u64 \<times> 's) result"
    and inv :: "'s \<Rightarrow> bool"
    and owned :: "'s \<Rightarrow> u64 set"
  assumes alloc_inv: "inv s \<Longrightarrow> alloc n s = Inr (a, s') \<Longrightarrow> inv s'"
    and alloc_fresh: "inv s \<Longrightarrow> alloc n s = Inr (a, s') \<Longrightarrow> page_block a n \<inter> owned s = {}"
    and alloc_owned: "inv s \<Longrightarrow> alloc n s = Inr (a, s') \<Longrightarrow> owned s' = owned s \<union> page_block a n"
begin

lemma run_owned:
  "inv s \<Longrightarrow> alloc_run alloc ns s = Inr (as, s') \<Longrightarrow>
     inv s' \<and> length as = length ns \<and>
     owned s' = owned s \<union> (\<Union>i<length ns. page_block (as ! i) (ns ! i))"
proof (induction ns arbitrary: s as)
  case (Cons n ns)
  then obtain a s1 bs where a: "alloc n s = Inr (a, s1)" "alloc_run alloc ns s1 = Inr (bs, s')" "as = a # bs"
    by (auto simp: result_simps)
  have "inv s1" using Cons.prems(1) a(1) by (rule alloc_inv)
  from Cons.IH[OF this a(2)] show ?case
    using alloc_owned[OF Cons.prems(1) a(1)] a(3)
    by (auto simp: lessThan_Suc_eq_insert_0 image_image)
qed simp

lemma run_fresh:
  "inv s \<Longrightarrow> alloc_run alloc ns s = Inr (as, s') \<Longrightarrow> i < length ns \<Longrightarrow>
     page_block (as ! i) (ns ! i) \<inter> owned s = {}"
proof (induction ns arbitrary: s as i)
  case (Cons n ns)
  then obtain a s1 bs where a: "alloc n s = Inr (a, s1)" "alloc_run alloc ns s1 = Inr (bs, s')" "as = a # bs"
    by (auto simp: result_simps)
  have s1: "inv s1" using Cons.prems(1) a(1) by (rule alloc_inv)
  show ?case
  proof (cases i)
    case 0
    then show ?thesis using alloc_fresh[OF Cons.prems(1) a(1)] a(3) by simp
  next
    case (Suc k)
    then have "page_block (bs ! k) (ns ! k) \<inter> owned s1 = {}" using Cons.IH[OF s1 a(2)] Cons.prems(3) by simp
    then show ?thesis using alloc_owned[OF Cons.prems(1) a(1)] Suc a(3) by auto
  qed
qed simp

lemma run_disjoint:
  "inv s \<Longrightarrow> alloc_run alloc ns s = Inr (as, s') \<Longrightarrow> i < j \<Longrightarrow> j < length ns \<Longrightarrow>
     page_block (as ! i) (ns ! i) \<inter> page_block (as ! j) (ns ! j) = {}"
proof (induction ns arbitrary: s as i j)
  case (Cons n ns)
  then obtain a s1 bs where a: "alloc n s = Inr (a, s1)" "alloc_run alloc ns s1 = Inr (bs, s')" "as = a # bs"
    by (auto simp: result_simps)
  have s1: "inv s1" using Cons.prems(1) a(1) by (rule alloc_inv)
  obtain j' where j: "j = Suc j'" "j' < length ns" using Cons.prems by (cases j) auto
  show ?case
  proof (cases i)
    case 0
    then show ?thesis
      using run_fresh[OF s1 a(2) j(2)] alloc_owned[OF Cons.prems(1) a(1)] j a(3) by auto
  next
    case (Suc i')
    then show ?thesis using Cons.IH[OF s1 a(2), of i' j'] Cons.prems(3) j a(3) by simp
  qed
qed simp

end

definition owned_bytes :: "'a pmm_state_scheme \<Rightarrow> u64 set" where
  "owned_bytes s = {x. \<exists>e p. e \<in> set (memmap s) \<and> usable e \<and> p < section_pages e \<and>
     page_used s e p \<and> x - (me_base e + (of_nat p * 4096 + 4096)) < 4096}"

lemma page_offset:
  assumes "section_ok e" "p < section_pages e" "x - (me_base e + (of_nat p * 4096 + 4096)) < 4096"
  shows "unat (x - me_base e) div 4096 = Suc p" "in_section 0 e x"
proof -
  have l: "x - (me_base e + (of_nat p * 4096 + 4096)) < 1 * 4096" using assms(3) by simp
  have f: "p + unat (1 :: u64) \<le> section_pages e" using assms(2) by simp
  from block_offset[OF assms(1) f l] show "unat (x - me_base e) div 4096 = Suc p"
    by (simp add: div_nat_eqI)
  show "in_section 0 e x" using block_in_section(1)[OF assms(1) f, of x 0] l by simp
qed

lemma page_block_offset:
  assumes "section_ok e" "p + unat n \<le> section_pages e"
  shows "x \<in> page_block (me_base e + (of_nat p * 4096 + 4096)) n \<longleftrightarrow>
     Suc p \<le> unat (x - me_base e) div 4096 \<and> unat (x - me_base e) div 4096 < Suc p + unat n"
proof
  assume "x \<in> page_block (me_base e + (of_nat p * 4096 + 4096)) n"
  then have "x - (me_base e + (of_nat p * 4096 + 4096)) < n * 4096" by (simp add: page_block_def)
  from block_offset[OF assms this]
  show "Suc p \<le> unat (x - me_base e) div 4096 \<and> unat (x - me_base e) div 4096 < Suc p + unat n"
    by (simp add: less_eq_div_iff_mult_less_eq div_less_iff_less_mult algebra_simps)
next
  assume r: "Suc p \<le> unat (x - me_base e) div 4096 \<and> unat (x - me_base e) div 4096 < Suc p + unat n"
  let ?d = "x - me_base e" and ?c = "of_nat p * 4096 + 4096 :: u64"
  note sz = block_size[OF assms]
  have lo: "p * 4096 + 4096 \<le> unat ?d" and hi: "unat ?d < p * 4096 + 4096 + unat n * 4096"
    using r by (simp_all add: less_eq_div_iff_mult_less_eq div_less_iff_less_mult algebra_simps)
  have "unat (?d - ?c) = unat ?d - (p * 4096 + 4096)"
    using lo sz(2) by (simp add: unat_sub word_le_nat_alt)
  then have "?d - ?c < n * 4096" using hi lo sz(1) by (simp add: word_less_nat_alt)
  then show "x \<in> page_block (me_base e + ?c) n"
    by (simp add: page_block_def diff_diff_eq)
qed


lemma kmalloc_fresh:
  assumes wf: "pmm_wf s" and res: "kmalloc n s = Inr (a, s')"
  shows "page_block a n \<inter> owned_bytes s = {}"
proof (rule ccontr)
  assume "page_block a n \<inter> owned_bytes s \<noteq> {}"
  then obtain x f q where x: "x \<in> page_block a n" and f: "f \<in> set (memmap s)" "usable f"
    and q: "q < section_pages f" "page_used s f q" "x - (me_base f + (of_nat q * 4096 + 4096)) < 4096"
    by (auto simp: owned_bytes_def)
  from kmalloc_effect[OF wf res] obtain i p e where e: "i < length (memmap s)" "e = memmap s ! i"
    "usable e" "run_free s e p (unat n)" "a = me_base e + (of_nat p * 4096 + 4096)"
    by metis
  have ok: "section_ok e" "section_ok f" using wf e f by (auto simp: pmm_wf_def memmap_ok_def)
  have fits: "p + unat n \<le> section_pages e" using e(4) by (simp add: run_free_def)
  have xe: "in_section 0 e x"
    using block_in_section(1)[OF ok(1) fits, of x 0] x e(5) by (simp add: page_block_def)
  have xf: "in_section 0 f x" by (rule page_offset(2)[OF ok(2) q(1,3)])
  have "f = e"
  proof (rule ccontr)
    assume "f \<noteq> e"
    moreover obtain j where "j < length (memmap s)" "f = memmap s ! j"
      using f(1) by (auto simp: in_set_conv_nth)
    ultimately show False
      using wf e(1,2,3) f(2) xe xf unfolding pmm_wf_def memmap_ok_def by metis
  qed
  with q page_offset(1)[OF ok(2) q(1,3)] x e(4,5) page_block_offset[OF ok(1) fits, of x]
  show False by (auto simp: run_free_def)
qed

lemma kmalloc_owned:
  assumes wf: "pmm_wf s" and res: "kmalloc n s = Inr (a, s')"
  shows "owned_bytes s' = owned_bytes s \<union> page_block a n"
proof -
  obtain i p e where e: "i < length (memmap s)" "e = memmap s ! i"
    "usable e" "run_free s e p (unat n)" and a: "a = me_base e + (of_nat p * 4096 + 4096)"
    and used: "\<And>f q. f \<in> set (memmap s) \<Longrightarrow> usable f \<Longrightarrow> q < section_pages f \<Longrightarrow>
       page_used s' f q \<longleftrightarrow> page_used s f q \<or> (f = e \<and> p \<le> q \<and> q < p + unat n)"
    and s': "\<exists>m. s' = s\<lparr>mem := m, total_memory_allocated := total_memory_allocated s + n * 4096\<rparr>"
    by (rule kmalloc_effect[OF wf res]) (rule that, assumption+)
  have mm: "memmap s' = memmap s" using s' by auto
  have em: "e \<in> set (memmap s)" using e by simp
  then have ok: "section_ok e" using wf e by (simp add: pmm_wf_def memmap_ok_def)
  have fits: "p + unat n \<le> section_pages e" using e(4) by (simp add: run_free_def)
  have blk: "x \<in> page_block a n \<longleftrightarrow>
      (\<exists>q. p \<le> q \<and> q < p + unat n \<and> x - (me_base e + (of_nat q * 4096 + 4096)) < 4096)" for x
  proof
    assume x: "x \<in> page_block a n"
    let ?q = "unat (x - me_base e) div 4096 - 1"
    have q: "Suc p \<le> Suc ?q" "Suc ?q < Suc p + unat n" "unat (x - me_base e) div 4096 = Suc ?q"
      using x page_block_offset[OF ok fits, of x] a by auto
    then have "?q + unat (1 :: u64) \<le> section_pages e" using fits by simp
    from page_block_offset[OF ok this, of x] q(3)
    have "x - (me_base e + (of_nat ?q * 4096 + 4096)) < 4096" by (simp add: page_block_def)
    with q(1,2) show "\<exists>q. p \<le> q \<and> q < p + unat n \<and> x - (me_base e + (of_nat q * 4096 + 4096)) < 4096"
      by (intro exI[of _ ?q]) auto
  next
    assume "\<exists>q. p \<le> q \<and> q < p + unat n \<and> x - (me_base e + (of_nat q * 4096 + 4096)) < 4096"
    then obtain q where q: "p \<le> q" "q < p + unat n" "x - (me_base e + (of_nat q * 4096 + 4096)) < 4096"
      by blast
    then have "q < section_pages e" using fits by simp
    from page_offset(1)[OF ok this q(3)] show "x \<in> page_block a n"
      using q page_block_offset[OF ok fits, of x] a by simp
  qed
  show ?thesis
  proof (intro set_eqI iffI)
    fix x assume "x \<in> owned_bytes s'"
    then show "x \<in> owned_bytes s \<union> page_block a n"
      unfolding Un_iff blk using used by (auto simp: owned_bytes_def mm) blast
  next
    fix x assume x: "x \<in> owned_bytes s \<union> page_block a n"
    have "q < section_pages e \<and> page_used s' e q" if "p \<le> q" "q < p + unat n" for q
      using used[OF em e(3), of q] that fits by auto
    with x show "x \<in> owned_bytes s'"
      unfolding Un_iff blk using used em e(3) by (auto simp: owned_bytes_def mm) blast
  qed
qed

interpretation pmm: page_allocator kmalloc pmm_wf owned_bytes
  by unfold_locales (fact pmm_wf_kmalloc kmalloc_fresh kmalloc_owned)+


section \<open>Properties\<close>

lemma fold_init_single_bitmap:
  "fold init_single_bitmap es s = s\<lparr>mem :=
     (\<lambda>x. if \<exists>e \<in> set es. usable e \<and> in_section (hhdm s) e x then 0 else mem s x)\<rparr>"
proof (induction es arbitrary: s)
  case (Cons e es)
  let ?m = "\<lambda>x. if usable e \<and> in_section (hhdm s) e x then 0 else mem s x"
  have "init_single_bitmap e s = s\<lparr>mem := ?m\<rparr>"
    by (auto simp: init_single_bitmap_def usable_def in_section_def ku_memset_def cong: if_cong)
  moreover have "(\<lambda>x. if \<exists>e \<in> set es. usable e \<and> in_section (hhdm s) e x then 0 else ?m x) =
      (\<lambda>x. if \<exists>e \<in> set (e # es). usable e \<and> in_section (hhdm s) e x then 0 else mem s x)"
    by (auto simp: fun_eq_iff)
  ultimately show ?case
    using Cons.IH[of "s\<lparr>mem := ?m\<rparr>"] by (simp cong: if_cong)
qed simp

text \<open>A machine with one usable section of 40 pages and one reserved one, its bitmap cleared.\<close>

definition sample_memmap :: "limine_memmap_entry list" where
  "sample_memmap =
     [\<lparr>me_base = 0x1000, me_length = 0x1000, me_type = 1\<rparr>,
      \<lparr>me_base = 0x100000, me_length = 0x28000, me_type = 0\<rparr>]"

definition sample_pmm :: pmm_state where
  "sample_pmm =
     \<lparr>mem = (\<lambda>_. 0), memmap = sample_memmap, hhdm = 0xffff800000000000, last_freed_page = - 1,
      last_freed_section = - 1, last_freed_num_pages = 0, total_memory_allocated = 0\<rparr>"

lemma sample_pmm_wf: "pmm_wf sample_pmm"
  by (auto simp: pmm_wf_def memmap_ok_def sample_pmm_def sample_memmap_def usable_def section_ok_def
      LIMINE_MEMMAP_USABLE_def less_Suc_eq nth_Cons')



text \<open>C1. The page allocator is right when it returns: it chose a run of pages of one usable section
  that were all free, the address it returns is the run's, the pages of that run and no others
  become used, the returned block is zeroed, and no byte outside the block and outside that
  section's bitmap page changes; the allocator's invariant is kept.\<close>

theorem kmalloc_correct:
  assumes "pmm_wf s" and "kmalloc n s = Inr (a, s')"
  shows "\<exists>e p. e \<in> set (memmap s) \<and> usable e \<and> p + unat n \<le> section_pages e \<and>
     a = me_base e + 4096 + of_nat p * 4096 \<and>
     (\<forall>q. p \<le> q \<and> q < p + unat n \<longrightarrow> \<not> page_used s e q) \<and>
     (\<forall>f \<in> set (memmap s). usable f \<longrightarrow> (\<forall>q < section_pages f.
        page_used s' f q \<longleftrightarrow> page_used s f q \<or> (f = e \<and> p \<le> q \<and> q < p + unat n))) \<and>
     (\<forall>x. x - (a + hhdm s) < n * 4096 \<longrightarrow> mem s' x = 0) \<and>
     (\<forall>x. \<not> x - (a + hhdm s) < n * 4096 \<and> \<not> x - (me_base e + hhdm s) < 4096 \<longrightarrow>
        mem s' x = mem s x) \<and>
     pmm_wf s'"
proof -
  obtain i p e where e: "i < length (memmap s)" "e = memmap s ! i" "usable e"
    "run_free s e p (unat n)" "a = me_base e + (of_nat p * 4096 + 4096)"
    "\<And>f q. f \<in> set (memmap s) \<Longrightarrow> usable f \<Longrightarrow> q < section_pages f \<Longrightarrow>
       page_used s' f q \<longleftrightarrow> page_used s f q \<or> (f = e \<and> p \<le> q \<and> q < p + unat n)"
    "\<And>x. x - (a + hhdm s) < n * 4096 \<Longrightarrow> mem s' x = 0"
    "\<And>x. \<not> x - (a + hhdm s) < n * 4096 \<Longrightarrow> \<not> x - bitmap_at s e < 4096 \<Longrightarrow> mem s' x = mem s x"
    by (rule kmalloc_effect[OF assms]) (rule that, assumption+)
  have "pmm_wf s'" by (rule pmm_wf_kmalloc[OF assms])
  moreover have "e \<in> set (memmap s)" using e(1,2) by simp
  moreover have "a = me_base e + 4096 + of_nat p * 4096" using e(5) by (simp add: ac_simps)
  ultimately show ?thesis
    using e(3,4) e(6-8) unfolding run_free_def by (intro exI[of _ e] exI[of _ p]) simp
qed

theorem kmalloc_correct_witness:
  "case kmalloc 2 sample_pmm of Inl _ \<Rightarrow> False
   | Inr (a, s') \<Rightarrow> a = 0x101000 \<and> pmm_wf s' \<and> mem s' (0x102fff + hhdm sample_pmm) = 0"
proof -
  have a: "map_sum id fst (kmalloc 2 sample_pmm) = Inr 0x101000" by code_simp
  then obtain s' where r: "kmalloc 2 sample_pmm = Inr (0x101000, s')"
    by (cases "kmalloc 2 sample_pmm") auto
  from kmalloc_correct[OF sample_pmm_wf r] have
    z: "\<forall>x. x - (0x101000 + hhdm sample_pmm) < 2 * 4096 \<longrightarrow> mem s' x = 0" and w: "pmm_wf s'"
    by blast+
  have "mem s' (0x102fff + hhdm sample_pmm) = 0"
    using z by (rule allE[of _ "0x102fff + hhdm sample_pmm"]) (simp add: sample_pmm_def)
  with r w show ?thesis by simp
qed

text \<open>C2. The page allocator is complete: in a well-formed state a request for at least one page is
  refused (the machine is halted) exactly when no usable section has a free run of that length, and
  otherwise it returns a block; it never loops and never leaves its arrays.\<close>

theorem kmalloc_complete:
  assumes "pmm_wf s" and "1 \<le> n"
  shows "(kmalloc n s = Inl Halted \<longleftrightarrow>
       \<not> (\<exists>e \<in> set (memmap s). usable e \<and> (\<exists>p. run_free s e p (unat n)))) \<and>
     (\<forall>err. kmalloc n s = Inl err \<longrightarrow> err = Halted)"
  using kmalloc_cases[OF assms] by (metis Inl_Inr_False nth_mem sum.inject(1))

theorem kmalloc_complete_witness:
  "kmalloc 33 sample_pmm = Inl Halted \<and> kmalloc 32 sample_pmm \<noteq> Inl Halted"
proof -
  let ?e = "sample_memmap ! 1"
  have n: "(1 :: u64) \<le> 33" "(1 :: u64) \<le> 32" by simp_all
  have pages: "section_pages ?e = 32" by (simp add: section_pages_def sample_memmap_def)
  have us: "usable ?e" "\<not> usable (sample_memmap ! 0)"
    by (simp_all add: usable_def sample_memmap_def LIMINE_MEMMAP_USABLE_def)
  have mm: "set (memmap sample_pmm) = {sample_memmap ! 0, ?e}"
    by (auto simp: sample_pmm_def sample_memmap_def)
  have "run_free sample_pmm ?e 0 32"
    using pages by (simp add: run_free_def page_used_def sample_pmm_def)
  then have "\<exists>e \<in> set (memmap sample_pmm). usable e \<and> (\<exists>p. run_free sample_pmm e p (unat (32 :: u64)))"
    using us mm by auto
  moreover have "\<not> (\<exists>e \<in> set (memmap sample_pmm). usable e \<and> (\<exists>p. run_free sample_pmm e p (unat (33 :: u64))))"
    using us mm pages by (auto simp: run_free_def)
  ultimately show ?thesis
    using kmalloc_complete[OF sample_pmm_wf n(1)] kmalloc_complete[OF sample_pmm_wf n(2)] by blast
qed

text \<open>C3. Blocks handed out by any sequence of page requests are pairwise disjoint, and none of them
  meets a page that was in use before.\<close>

theorem kmalloc_blocks_disjoint:
  assumes "pmm_wf s" and "alloc_run kmalloc ns s = Inr (as, s')"
  shows "(\<forall>i < length ns. page_block (as ! i) (ns ! i) \<inter> owned_bytes s = {} \<and>
       (\<forall>j < length ns. i \<noteq> j \<longrightarrow> page_block (as ! i) (ns ! i) \<inter> page_block (as ! j) (ns ! j) = {})) \<and>
     length as = length ns \<and>
     owned_bytes s' = owned_bytes s \<union> (\<Union>k < length ns. page_block (as ! k) (ns ! k))"
proof -
  have d: "page_block (as ! i) (ns ! i) \<inter> page_block (as ! j) (ns ! j) = {}"
    if "i < length ns" "j < length ns" "i \<noteq> j" for i j
    using that pmm.run_disjoint[OF assms, of i j] pmm.run_disjoint[OF assms, of j i]
    by (cases "i < j") (auto simp: Int_commute)
  then show ?thesis using pmm.run_fresh[OF assms] pmm.run_owned[OF assms] by blast
qed

theorem kmalloc_blocks_disjoint_witness:
  "\<exists>as s'. alloc_run kmalloc [2, 3] sample_pmm = Inr (as, s') \<and>
     page_block (as ! 0) 2 \<inter> page_block (as ! 1) 3 = {} \<and>
     page_block (as ! 1) 3 \<inter> owned_bytes sample_pmm = {}"
proof -
  have "map_sum id fst (alloc_run kmalloc [2, 3] sample_pmm) = Inr [0x101000, 0x103000]"
    by code_simp
  then obtain as s' where r: "alloc_run kmalloc [2, 3] sample_pmm = Inr (as, s')"
    by (cases "alloc_run kmalloc [2, 3] sample_pmm") auto
  note d = kmalloc_blocks_disjoint[OF sample_pmm_wf r]
  have "page_block (as ! 0) ([2, 3] ! 0) \<inter> page_block (as ! 1) ([2, 3] ! 1) = {}"
    "page_block (as ! 1) ([2, 3] ! 1) \<inter> owned_bytes sample_pmm = {}"
    using d[THEN conjunct1, rule_format, of 0] d[THEN conjunct1, rule_format, of 1] by simp_all
  with r show ?thesis by auto
qed

text \<open>C29. A usable section of more than 32768 pages (128 MiB) stops the allocator for good: when it is
  the first usable section, every page request loops forever in \<open>get_bitmap_reserved\<close>, whose
  counter is never incremented.\<close>

theorem kmalloc_large_section_diverges:
  assumes "memmap s = skipped @ e # rest" and "\<forall>f \<in> set skipped. \<not> usable f" and "usable e"
    and "32768 < unat (me_length e) div 4096" and "1 \<le> n" and "last_freed_page s = - 1"
  shows "kmalloc n s = Inl Diverged"
proof -
  have "\<not> section_ok e" using assms(4) by (simp add: section_ok_def)
  then have d: "get_bitmap_reserved e = Inl Diverged" by (rule get_bitmap_reserved_diverges)
  have "kmalloc_sections i n s = Inl Diverged" if "i \<le> length skipped" for i
    using that
  proof (induction "length skipped - i" arbitrary: i)
    case 0
    then have "memmap s ! i = e" "i < length (memmap s)" using assms(1) by (auto simp: nth_append)
    then show ?case using assms(3) d by (subst kmalloc_sections.simps) (simp add: Let_def usable_def)
  next
    case (Suc k)
    then have i: "i < length skipped" by simp
    then have "\<not> usable (memmap s ! i)" "i < length (memmap s)"
      using assms(1,2) by (auto simp: nth_append)
    then show ?case using Suc by (subst kmalloc_sections.simps) (simp add: Let_def usable_def)
  qed
  then show ?thesis
    using assms(5,6) by (simp add: kmalloc_def not_less[symmetric])
qed

theorem kmalloc_large_section_diverges_witness:
  "kmalloc 1 (sample_pmm\<lparr>memmap := [\<lparr>me_base = 0, me_length = 0x10000000, me_type = 0\<rparr>]\<rparr>) =
     Inl Diverged"
  by (rule kmalloc_large_section_diverges[where skipped = "[]" and rest = "[]" and
        e = "\<lparr>me_base = 0, me_length = 0x10000000, me_type = 0\<rparr>"])
     (simp_all add: usable_def LIMINE_MEMMAP_USABLE_def sample_pmm_def)

lemma init_PMM_all_free:
  assumes "memmap_ok s"
  shows "pmm_wf (init_PMM s) \<and>
     (\<forall>e \<in> set (memmap s). usable e \<longrightarrow> (\<forall>p < section_pages e. \<not> page_used (init_PMM s) e p))"
proof -
  have "\<not> page_used (init_PMM s) e p" if e: "e \<in> set (memmap s)" "usable e" "p < section_pages e" for e p
  proof -
    have "section_ok e" using assms e by (simp add: memmap_ok_def)
    then have "in_section (hhdm s) e (bitmap_at s e + of_nat (p div 8))"
      using bitmap_in_section bitmap_byte_in_bitmap e(3) by blast
    then show ?thesis
      using e by (auto simp: page_used_def init_PMM_def fold_init_single_bitmap)
  qed
  moreover have "pmm_wf (init_PMM s)"
    using assms by (simp add: pmm_wf_def memmap_ok_def init_PMM_def fold_init_single_bitmap)
  ultimately show ?thesis by blast
qed

text \<open>\<open>init_PMM\<close> establishes the allocator's invariant with every page of every usable section
  free, whatever the memory held before.\<close>

theorem init_PMM_establishes:
  assumes "memmap_ok s"
  shows "pmm_wf (init_PMM s) \<and>
     (\<forall>e \<in> set (memmap s). usable e \<longrightarrow> (\<forall>p < section_pages e. \<not> page_used (init_PMM s) e p))"
  using assms by (rule init_PMM_all_free)

theorem init_PMM_establishes_witness:
  "pmm_wf (init_PMM (sample_pmm\<lparr>mem := (\<lambda>_. 0xff)\<rparr>)) \<and>
   \<not> page_used (init_PMM (sample_pmm\<lparr>mem := (\<lambda>_. 0xff)\<rparr>)) (sample_memmap ! 1) 31"
proof -
  have "memmap_ok (sample_pmm\<lparr>mem := (\<lambda>_. 0xff)\<rparr>)"
    using sample_pmm_wf by (simp add: pmm_wf_def memmap_ok_def)
  from init_PMM_establishes[OF this] show ?thesis
    by (simp add: sample_pmm_def sample_memmap_def usable_def LIMINE_MEMMAP_USABLE_def section_pages_def)
qed

end
