(* ===== verification/Kheap.thy ===== *)
theory Kheap
  imports PMM
begin

text \<open>
  The kernel heap (\<open>src/src/mem/kheap.c\<close>): a singly linked list of pools, each a packed 26-byte
  header followed by its data. A pool at \<open>p\<close> owns the bytes from \<open>p\<close> to \<open>p + size\<close> inclusive;
  \<open>required_size\<close> is how much of it, header included, the current block needs. \<open>malloc\<close> takes a free
  pool, or splits the unused tail of a pool, or asks the page allocator for a new one.

  Structures in kernel memory are kept in one typed store per structure type: a total function from
  addresses, so an object that was never written holds an arbitrary value, as C memory does.
\<close>

section \<open>State\<close>

record Pool =
  pool_verify :: u8
  pool_size :: u64
  required_size :: u64
  next_pool :: u64
  pool_free :: bool

record kheap_state = pmm_state +
  kheap_start :: u64
  pools :: "u64 \<Rightarrow> Pool"

definition sizeof_Pool :: u64 where
  "sizeof_Pool = 26"

definition PAGE_ALIGN_UP :: "u64 \<Rightarrow> u64" where
  "PAGE_ALIGN_UP x = ((x + 4095) div 4096) * 4096"

definition PAGE_ALIGN_DOWN :: "u64 \<Rightarrow> u64" where
  "PAGE_ALIGN_DOWN addr = (addr div 4096) * 4096"

text \<open>The list walks below stop after \<open>2 ^ 64\<close> steps: a longer walk has met an address twice without
  changing anything, so it never ends.\<close>

definition walk_fuel :: nat where
  "walk_fuel = 2 ^ 64"

section \<open>Operations\<close>

definition create_pool :: "u64 \<Rightarrow> u64 \<Rightarrow> u64 \<Rightarrow> bool \<Rightarrow> Pool" where
  "create_pool sz req nxt fr =
     \<lparr>pool_verify = 69, pool_size = sz - 1, required_size = req, next_pool = nxt, pool_free = fr\<rparr>"

definition init_kheap :: "'a kheap_state_scheme \<Rightarrow> 'a kheap_state_scheme result" where
  "init_kheap s =
     res_bind (kmalloc 2 s) (\<lambda>(a, s).
       let start = a + hhdm s in
       Inr (s\<lparr>kheap_start := start,
              pools := (pools s)(start := create_pool 8192 sizeof_Pool 0 True)\<rparr>))"

definition split_pool :: "u64 \<Rightarrow> u64 \<Rightarrow> 'a kheap_state_scheme \<Rightarrow> u64 \<times> 'a kheap_state_scheme" where
  "split_pool pool_addr sz s =
     (let p = pools s pool_addr;
          new_pool = pool_addr + required_size p + 1;
          new_pool_size = sizeof_Pool + sz;
          st = (pools s)(new_pool :=
                 create_pool (pool_size p - required_size p) new_pool_size (next_pool p) False);
          st = st(pool_addr := (st pool_addr)\<lparr>pool_size := required_size (st pool_addr)\<rparr>);
          st = st(pool_addr := (st pool_addr)\<lparr>next_pool := new_pool\<rparr>)
      in (new_pool, s\<lparr>pools := st\<rparr>))"

text \<open>\<open>malloc\<close>: the three outcomes at a pool, in the order the code tests them.\<close>

fun malloc_loop ::
  "nat \<Rightarrow> u64 \<Rightarrow> u64 \<Rightarrow> 'a kheap_state_scheme \<Rightarrow> (u64 \<times> 'a kheap_state_scheme) result" where
  "malloc_loop fuel sz this_pool s =
     (if fuel = 0 then Inl Diverged
      else if this_pool = 0 then Inl NullDeref
      else
        (let p = pools s this_pool in
         if pool_free p \<and> pool_size p > sz + sizeof_Pool then
           Inr (this_pool + sizeof_Pool,
                s\<lparr>pools := (pools s)(this_pool :=
                   p\<lparr>pool_free := False, required_size := sz + sizeof_Pool\<rparr>)\<rparr>)
         else if pool_size p > required_size p + sz + sizeof_Pool then
           (let (new_pool, s) = split_pool this_pool sz s in Inr (new_pool + sizeof_Pool, s))
         else if next_pool p = 0 then
           (let new_pool_size = PAGE_ALIGN_UP (sz + sizeof_Pool) in
            res_bind (kmalloc (new_pool_size div 4096) s) (\<lambda>(a, s).
              let nxt = a + hhdm s;
                  st = (pools s)(this_pool := (pools s this_pool)\<lparr>next_pool := nxt\<rparr>);
                  st = st(nxt := create_pool new_pool_size (sz + sizeof_Pool) 0 False)
              in Inr (nxt + sizeof_Pool, s\<lparr>pools := st\<rparr>)))
         else malloc_loop (fuel - 1) sz (next_pool p) s))"

declare malloc_loop.simps [simp del]

definition malloc :: "u64 \<Rightarrow> 'a kheap_state_scheme \<Rightarrow> (u64 \<times> 'a kheap_state_scheme) result" where
  "malloc sz s = malloc_loop walk_fuel sz (kheap_start s) s"

definition kfree :: "u64 \<Rightarrow> 'a kheap_state_scheme \<Rightarrow> 'a kheap_state_scheme result" where
  "kfree addr s =
     (let this_pool = addr - sizeof_Pool; p = pools s this_pool in
      if pool_verify p \<noteq> 69 then Inl Halted
      else Inr (s\<lparr>pools := (pools s)(this_pool :=
              p\<lparr>pool_free := True, required_size := sizeof_Pool\<rparr>)\<rparr>))"

section \<open>Invariant\<close>

abbreviation next_of :: "(u64 \<Rightarrow> Pool) \<Rightarrow> u64 \<Rightarrow> u64" where
  "next_of st \<equiv> (\<lambda>p. next_pool (st p))"

text \<open>One pool: its header is valid, it does not wrap, header and block fit in it.\<close>

definition pool_ok :: "(u64 \<Rightarrow> Pool) \<Rightarrow> u64 \<Rightarrow> bool" where
  "pool_ok st p \<longleftrightarrow> pool_verify (st p) = 69 \<and>
     unat (pool_size (st p)) < 2 ^ 28 \<and>
     unat p + Suc (unat (pool_size (st p))) < 2 ^ 64 \<and>
     26 \<le> unat (required_size (st p)) \<and>
     unat (required_size (st p)) \<le> Suc (unat (pool_size (st p)))"

definition region :: "(u64 \<Rightarrow> Pool) \<Rightarrow> u64 \<Rightarrow> u64 set" where
  "region st p = {x. unat p \<le> unat x \<and> unat x \<le> unat p + unat (pool_size (st p))}"

text \<open>The direct map of the usable sections does not wrap around the top of the address space.\<close>

definition hhdm_ok :: "'a pmm_state_scheme \<Rightarrow> bool" where
  "hhdm_ok s \<longleftrightarrow> (\<forall>e \<in> set (memmap s). usable e \<longrightarrow>
     unat (me_base e + hhdm s) + unat (me_length e) < 2 ^ 64)"

definition heap_chain :: "'a kheap_state_scheme \<Rightarrow> u64 list \<Rightarrow> bool" where
  "heap_chain s ps \<longleftrightarrow>
     pmm_wf s \<and> hhdm_ok s \<and> ps \<noteq> [] \<and>
     chain (next_of (pools s)) (kheap_start s) ps \<and>
     (\<forall>p \<in> set ps. pool_ok (pools s) p) \<and>
     (\<forall>p \<in> set ps. \<forall>q \<in> set ps. p \<noteq> q \<longrightarrow> region (pools s) p \<inter> region (pools s) q = {}) \<and>
     (\<forall>p \<in> set ps. \<forall>x \<in> region (pools s) p. x - hhdm s \<in> owned_bytes s)"

definition heap_inv :: "'a kheap_state_scheme \<Rightarrow> bool" where
  "heap_inv s \<longleftrightarrow> (\<exists>ps. heap_chain s ps)"

text \<open>The live blocks: address of the data \<open>\<mapsto>\<close> its size in bytes.\<close>

definition live :: "'a kheap_state_scheme \<Rightarrow> u64 \<Rightarrow> nat option" where
  "live s a =
     (let p = a - sizeof_Pool in
      if (\<exists>ps. chain (next_of (pools s)) (kheap_start s) ps \<and> p \<in> set ps) \<and> \<not> pool_free (pools s p)
      then Some (unat (required_size (pools s p)) - 26) else None)"


section \<open>Lemmas\<close>

lemma live_eq:
  assumes "heap_chain s ps"
  shows "live s a = (if a - 26 \<in> set ps \<and> \<not> pool_free (pools s (a - 26))
     then Some (unat (required_size (pools s (a - 26))) - 26) else None)"
proof -
  have c: "chain (next_of (pools s)) (kheap_start s) ps" using assms by (simp add: heap_chain_def)
  then have "(\<exists>ps. chain (next_of (pools s)) (kheap_start s) ps \<and> x \<in> set ps) \<longleftrightarrow> x \<in> set ps" for x
    using chain_unique by blast
  then show ?thesis by (simp add: live_def Let_def sizeof_Pool_def)
qed

lemma heap_chainD:
  assumes "heap_chain s ps"
  shows "pmm_wf s" "hhdm_ok s" "ps \<noteq> []" "chain (next_of (pools s)) (kheap_start s) ps"
    and "\<And>p. p \<in> set ps \<Longrightarrow> pool_ok (pools s) p"
    and "\<And>p q. p \<in> set ps \<Longrightarrow> q \<in> set ps \<Longrightarrow> p \<noteq> q \<Longrightarrow> region (pools s) p \<inter> region (pools s) q = {}"
    and "\<And>p x. p \<in> set ps \<Longrightarrow> x \<in> region (pools s) p \<Longrightarrow> x - hhdm s \<in> owned_bytes s"
  using assms unfolding heap_chain_def by blast+

lemma region_self: "p \<in> region st p"
  by (simp add: region_def)

lemma region_cong: "pool_size (st p) = pool_size (st' p) \<Longrightarrow> region st p = region st' p"
  by (simp add: region_def)

lemma kheap_frames [frame_simps]:
  "pmm_wf (s\<lparr>pools := st\<rparr>) = pmm_wf s"
  "hhdm_ok (s\<lparr>pools := st\<rparr>) = hhdm_ok s"
  "owned_bytes (s\<lparr>pools := st\<rparr>) = owned_bytes s"
  "hhdm_ok (s\<lparr>mem := m, total_memory_allocated := t\<rparr>) = hhdm_ok s"
  by (simp_all add: pmm_wf_def memmap_ok_def hhdm_ok_def owned_bytes_def page_used_def)

text \<open>Changing only the block of a pool (its \<open>free\<close> and \<open>required_size\<close>) keeps the heap.\<close>

lemma heap_chain_block_upd:
  assumes h: "heap_chain s ps" and p: "p \<in> set ps"
    and P: "pool_verify P = 69" "pool_size P = pool_size (pools s p)" "next_pool P = next_pool (pools s p)"
    and req: "26 \<le> unat (required_size P)" "unat (required_size P) \<le> Suc (unat (pool_size P))"
  shows "heap_chain (s\<lparr>pools := (pools s)(p := P)\<rparr>) ps"
proof -
  let ?st = "(pools s)(p := P)"
  have n: "next_of ?st = next_of (pools s)" using P(3) by auto
  have r: "region ?st q = region (pools s) q" for q using P(2) by (intro region_cong) auto
  have ok: "pool_ok ?st q" if "q \<in> set ps" for q
    using h that P req by (cases "q = p") (auto simp: heap_chain_def pool_ok_def)
  show ?thesis
    using h ok unfolding heap_chain_def
    by (simp add: n r frame_simps del: fun_upd_apply)
qed

text \<open>Splitting: the new pool takes the tail of the old one behind its block.\<close>

lemma heap_chain_split:
  assumes h: "heap_chain s (pre @ p # post)"
    and big: "unat (required_size (pools s p)) + unat n + 26 < unat (pool_size (pools s p))"
    and sp: "split_pool p n s = (q, s')"
  shows "heap_chain s' (pre @ p # q # post)" "q \<notin> set (pre @ p # post)"
    "pool_free (pools s' q) = False" "unat (required_size (pools s' q)) = unat n + 26"
    "unat n + 26 \<le> unat (pool_size (pools s' q))"
    "\<And>r. r \<noteq> q \<Longrightarrow> required_size (pools s' r) = required_size (pools s r) \<and>
        pool_free (pools s' r) = pool_free (pools s r)"
    "\<exists>st. s' = s\<lparr>pools := st\<rparr>"
    "\<And>r. r \<noteq> q \<Longrightarrow> r \<noteq> p \<Longrightarrow> pools s' r = pools s r"
    "unat (pool_size (pools s' q)) = unat (pool_size (pools s p)) - unat (required_size (pools s p)) - 1"
proof -
  let ?P = "pools s p" and ?ps = "pre @ p # post"
  have ok: "pool_ok (pools s) p" using h by (simp add: heap_chain_def)
  define rq sz where "rq = unat (required_size ?P)" and "sz = unat (pool_size ?P)"
  have b: "rq + unat n + 26 < sz" "unat p + Suc sz < 2 ^ 64" "sz < 2 ^ 28" "26 \<le> rq"
    using big ok by (simp_all add: rq_def sz_def pool_ok_def)
  have q: "q = p + required_size ?P + 1" using sp by (simp add: split_pool_def Let_def)
  have up: "unat (p + required_size ?P) = unat p + rq"
    using b unfolding rq_def by (intro unat_add_u64) linarith
  then have uq: "unat q = unat p + rq + 1"
    using b unfolding q by (subst unat_add_u64) (simp_all add: rq_def)
  have qp: "q \<noteq> p" using uq by auto
  define Q where "Q = create_pool (pool_size ?P - required_size ?P) (sizeof_Pool + n) (next_pool ?P) False"
  define st where "st = (pools s)(q := Q, p := ?P\<lparr>pool_size := required_size ?P, next_pool := q\<rparr>)"
  have s': "s' = s\<lparr>pools := st\<rparr>"
    using sp qp by (auto simp: split_pool_def Let_def q st_def Q_def fun_upd_twist)
  have szQ: "unat (pool_size Q) = sz - rq - 1"
  proof -
    have "unat (pool_size ?P - required_size ?P) = sz - rq"
      using b by (simp add: sz_def rq_def unat_sub word_le_nat_alt)
    moreover have "0 < sz - rq" using b by simp
    ultimately show ?thesis by (simp add: Q_def create_pool_def unat_sub word_le_nat_alt)
  qed
  have rqQ: "unat (required_size Q) = unat n + 26"
    using b by (simp add: Q_def create_pool_def sizeof_Pool_def unat_add_u64)
  have stq: "st q = Q" "pool_size (st p) = required_size ?P" "\<And>r. r \<noteq> p \<Longrightarrow> r \<noteq> q \<Longrightarrow> st r = pools s r"
    using qp by (simp_all add: st_def)
  have regq: "region st q \<subseteq> region (pools s) p"
    using uq szQ b by (auto simp: region_def stq sz_def)
  have regp: "region st p \<subseteq> region (pools s) p"
    using b by (auto simp: region_def stq rq_def sz_def)
  have pq: "region st p \<inter> region st q = {}"
    using uq by (auto simp: region_def stq rq_def)
  have disj: "\<And>r r'. r \<in> set ?ps \<Longrightarrow> r' \<in> set ?ps \<Longrightarrow> r \<noteq> r' \<Longrightarrow> region (pools s) r \<inter> region (pools s) r' = {}"
    using h unfolding heap_chain_def by blast
  have "q \<in> region (pools s) p" using regq region_self by blast
  then show qn: "q \<notin> set ?ps"
    using disj[of p q] region_self[of q "pools s"] qp by auto
  have regr: "region st r = region (pools s) r" if "r \<in> set ?ps" "r \<noteq> p" for r
  proof -
    have "r \<noteq> q" using that(1) qn by auto
    then show ?thesis using stq(3) that(2) by (intro region_cong) simp
  qed
  have dist: "distinct ?ps" using h chain_distinct unfolding heap_chain_def by blast
  have q0: "q \<noteq> 0" using uq by auto
  have "chain ((next_of (pools s))(p := q, q := next_of (pools s) p)) (kheap_start s) (pre @ p # q # post)"
    using h q0 qn unfolding heap_chain_def by (intro chain_insert_after) auto
  moreover have "next_of st = (next_of (pools s))(p := q, q := next_of (pools s) p)"
    using qp by (auto simp: st_def Q_def create_pool_def)
  ultimately have ch: "chain (next_of st) (kheap_start s) (pre @ p # q # post)" by simp
  have oks: "pool_ok st r" if r: "r \<in> set (pre @ p # q # post)" for r
  proof -
    consider "r = q" | "r = p" | "r \<in> set ?ps" "r \<noteq> p" "r \<noteq> q" using r by auto
    then show ?thesis
    proof cases
      case 1
      then show ?thesis
        using uq szQ rqQ b stq(1) by (simp add: pool_ok_def Q_def create_pool_def) linarith
    next
      case 2
      then show ?thesis using ok b qp by (auto simp: pool_ok_def st_def rq_def sz_def)
    next
      case 3
      then show ?thesis using h stq(3) by (simp add: heap_chain_def pool_ok_def)
    qed
  qed
  have sub: "region st r \<subseteq> region (pools s) (if r = q then p else r)" if "r \<in> set (pre @ p # q # post)" for r
    using that regq regp regr qp by (cases "r = q"; cases "r = p") auto
  have disj': "region st r \<inter> region st r' = {}"
    if "r \<in> set (pre @ p # q # post)" "r' \<in> set (pre @ p # q # post)" "r \<noteq> r'" for r r'
  proof (cases "(if r = q then p else r) = (if r' = q then p else r')")
    case True
    then show ?thesis using that(3) pq qp by (auto split: if_splits)
  next
    case False
    then have "region (pools s) (if r = q then p else r) \<inter> region (pools s) (if r' = q then p else r') = {}"
      using that by (intro disj) auto
    then show ?thesis using sub[OF that(1)] sub[OF that(2)] by blast
  qed
  have own: "x - hhdm s \<in> owned_bytes s" if "r \<in> set (pre @ p # q # post)" "x \<in> region st r" for r x
  proof -
    have "(if r = q then p else r) \<in> set ?ps" using that(1) by auto
    then show ?thesis using heap_chainD(7)[OF h] sub[OF that(1)] that(2) by blast
  qed
  show "heap_chain s' (pre @ p # q # post)"
    using h ch oks disj' own unfolding heap_chain_def s' by (simp add: frame_simps)
  show "pool_free (pools s' q) = False" "unat (required_size (pools s' q)) = unat n + 26"
    "unat n + 26 \<le> unat (pool_size (pools s' q))"
    using rqQ szQ b by (simp_all add: s' stq(1)) (simp add: Q_def create_pool_def)
  show "\<And>r. r \<noteq> q \<Longrightarrow> required_size (pools s' r) = required_size (pools s r) \<and>
        pool_free (pools s' r) = pool_free (pools s r)"
    by (simp add: s' st_def)
  show "\<exists>st. s' = s\<lparr>pools := st\<rparr>" using s' by blast
  show "\<And>r. r \<noteq> q \<Longrightarrow> r \<noteq> p \<Longrightarrow> pools s' r = pools s r" using stq(3) by (simp add: s')
  show "unat (pool_size (pools s' q)) = unat (pool_size ?P) - unat (required_size ?P) - 1"
    using szQ by (simp add: s' stq(1) sz_def rq_def)
qed


text \<open>Growing: a fresh page block becomes the last pool.\<close>

lemma page_align_up:
  assumes "unat n < 2 ^ 63"
  shows "unat (PAGE_ALIGN_UP n) = (unat n + 4095) div 4096 * 4096"
    "PAGE_ALIGN_UP n div 4096 * 4096 = PAGE_ALIGN_UP n"
    "unat n \<le> unat (PAGE_ALIGN_UP n)"
proof -
  have "unat (n + 4095) = unat n + 4095" using assms by (simp add: unat_add_u64)
  then have d: "unat ((n + 4095) div 4096) = (unat n + 4095) div 4096" by (simp add: unat_div_u64)
  have "(unat n + 4095) div 4096 * 4096 \<le> unat n + 4095" by simp
  then show u: "unat (PAGE_ALIGN_UP n) = (unat n + 4095) div 4096 * 4096"
    unfolding PAGE_ALIGN_UP_def using assms d by (subst unat_mult_u64) simp_all
  then have "unat (PAGE_ALIGN_UP n div 4096) = (unat n + 4095) div 4096"
    by (simp add: unat_div_u64)
  then have "unat (PAGE_ALIGN_UP n div 4096 * 4096) = unat (PAGE_ALIGN_UP n)"
    using u unat_u64_less[of "PAGE_ALIGN_UP n"] by (subst unat_mult_u64) simp_all
  then show "PAGE_ALIGN_UP n div 4096 * 4096 = PAGE_ALIGN_UP n" by (simp add: u64_eq_iff)
  show "unat n \<le> unat (PAGE_ALIGN_UP n)" unfolding u by simp
qed

lemma kmalloc_block_mapped:
  assumes "pmm_wf s" "hhdm_ok s" "kmalloc k s = Inr (a, s')"
  shows "unat (k * 4096) = unat k * 4096" "unat k \<le> 32760" "1 \<le> unat k"
    "0 < unat (a + hhdm s)" "unat (a + hhdm s) + unat k * 4096 < 2 ^ 64"
    "x - hhdm s \<in> page_block a k \<longleftrightarrow>
       unat (a + hhdm s) \<le> unat x \<and> unat x < unat (a + hhdm s) + unat k * 4096"
proof -
  obtain i p e where e: "i < length (memmap s)" "e = memmap s ! i" "usable e"
    "run_free s e p (unat k)" "a = me_base e + (of_nat p * 4096 + 4096)"
    by (rule kmalloc_effect[OF assms(1,3)]) (rule that, assumption+)
  have ok: "section_ok e" and h: "unat (me_base e + hhdm s) + unat (me_length e) < 2 ^ 64"
    using assms e by (auto simp: pmm_wf_def memmap_ok_def hhdm_ok_def)
  have fits: "p + unat k \<le> section_pages e" using e(4) by (simp add: run_free_def)
  note sz = block_size[OF ok fits] and off = section_offsets[OF ok fits]
  show k: "unat (k * 4096) = unat k * 4096" by (rule sz)
  show "unat k \<le> 32760" using fits section_pages_bound[OF ok] by linarith
  show "1 \<le> unat k"
  proof (rule ccontr)
    assume "\<not> 1 \<le> unat k"
    then have "k < 1" by (simp add: word_less_nat_alt)
    then show False using assms(3) by (simp add: kmalloc_def)
  qed
  have ah: "a + hhdm s = (me_base e + hhdm s) + (of_nat p * 4096 + 4096)" using e(5) by (simp add: ac_simps)
  have ua: "unat (a + hhdm s) = unat (me_base e + hhdm s) + (p * 4096 + 4096)"
    unfolding ah using sz(2) off h by (subst unat_add_u64) simp_all
  then show "0 < unat (a + hhdm s)" by simp
  show le: "unat (a + hhdm s) + unat k * 4096 < 2 ^ 64" using ua off h by (simp add: algebra_simps)
  have "x - hhdm s - a < k * 4096 \<longleftrightarrow> x - (a + hhdm s) < k * 4096" by (simp add: algebra_simps)
  also have "\<dots> \<longleftrightarrow> unat (a + hhdm s) \<le> unat x \<and> unat x < unat (a + hhdm s) + unat k * 4096"
    using le k by (subst in_block_iff) simp_all
  finally show "x - hhdm s \<in> page_block a k \<longleftrightarrow>
       unat (a + hhdm s) \<le> unat x \<and> unat x < unat (a + hhdm s) + unat k * 4096"
    by (simp add: page_block_def)
qed

lemma kmalloc_error:
  assumes "pmm_wf s" "kmalloc k s = Inl e"
  shows "e = Halted"
proof (cases "k < 1")
  case True
  then show ?thesis using assms(2) by (simp add: kmalloc_def)
next
  case False
  then have "1 \<le> k" by (simp only: not_less)
  then show ?thesis using kmalloc_cases[OF assms(1)] assms(2) by fastforce
qed

lemma heap_chain_grow:
  assumes h: "heap_chain s (pre @ [p])" and n: "unat n < 2 ^ 62"
    and np: "np = PAGE_ALIGN_UP (n + sizeof_Pool)"
    and km: "kmalloc (np div 4096) s = Inr (a, s1)" and q: "q = a + hhdm s1"
    and s': "s' = s1\<lparr>pools := (pools s1)(p := (pools s1 p)\<lparr>next_pool := q\<rparr>,
        q := create_pool np (n + sizeof_Pool) 0 False)\<rparr>"
  shows "heap_chain s' (pre @ [p, q])" "q \<notin> set (pre @ [p])"
    "pool_free (pools s' q) = False" "unat (required_size (pools s' q)) = unat n + 26"
    "(unat n + 26) mod 4096 \<noteq> 0 \<Longrightarrow> unat n + 26 \<le> unat (pool_size (pools s' q))"
    "\<And>r. r \<noteq> q \<Longrightarrow> required_size (pools s' r) = required_size (pools s r) \<and>
        pool_free (pools s' r) = pool_free (pools s r)"
    "\<exists>m t st. s' = s\<lparr>mem := m, total_memory_allocated := t, pools := st\<rparr>"
proof -
  have wf: "pmm_wf s" "hhdm_ok s" using h by (simp_all add: heap_chain_def)
  obtain m t where s1: "s1 = s\<lparr>mem := m, total_memory_allocated := t\<rparr>"
    using kmalloc_frame[OF wf(1) km] by blast
  then have same: "pools s1 = pools s" "hhdm s1 = hhdm s" "kheap_start s1 = kheap_start s"
    by simp_all
  note blk = kmalloc_block_mapped[OF wf km] and own = kmalloc_owned[OF wf(1) km]
  have n26: "unat (n + sizeof_Pool) = unat n + 26"
    using n by (simp add: sizeof_Pool_def unat_add_u64)
  have al: "unat np = (unat n + 26 + 4095) div 4096 * 4096" "np div 4096 * 4096 = np" "unat n + 26 \<le> unat np"
    using page_align_up[of "n + sizeof_Pool"] n n26 by (simp_all add: np)
  have k: "unat (np div 4096) * 4096 = unat np" using blk(1) al(2) by simp
  have uq: "0 < unat q" "unat q + unat np < 2 ^ 64" using blk(4,5) k by (simp_all add: q same)
  have npb: "unat np \<le> 32760 * 4096" "4096 \<le> unat np" using blk(2,3) k by linarith+
  have qm: "unat (np - 1) = unat np - 1" using npb by (simp add: unat_sub word_le_nat_alt)
  let ?Q = "create_pool np (n + sizeof_Pool) 0 False"
  let ?st = "(pools s)(p := (pools s p)\<lparr>next_pool := q\<rparr>, q := ?Q)"
  have regq: "x \<in> region ?st q \<longleftrightarrow> x - hhdm s \<in> page_block a (np div 4096)" for x
    using blk(6)[of x] k npb by (auto simp: region_def create_pool_def qm q same)
  have fresh: "region ?st q \<inter> region (pools s) r = {}" if "r \<in> set (pre @ [p])" for r
  proof -
    have "x - hhdm s \<in> owned_bytes s" if "x \<in> region (pools s) r" for x
      using h that \<open>r \<in> set (pre @ [p])\<close> unfolding heap_chain_def by blast
    then show ?thesis using regq kmalloc_fresh[OF wf(1) km] by blast
  qed
  show qn: "q \<notin> set (pre @ [p])"
    using fresh[of q] region_self[of q ?st] region_self[of q "pools s"] by blast
  then have qp: "q \<noteq> p" by auto
  have st': "pools s' = ?st" using s' same by simp
  have reg: "region ?st r = region (pools s) r" if "r \<in> set (pre @ [p])" for r
    using that qn by (intro region_cong) auto
  have "chain ((next_of (pools s))(p := q, q := next_of (pools s) p)) (kheap_start s) (pre @ p # q # [])"
    using h qn uq(1) unfolding heap_chain_def by (intro chain_insert_after) auto
  moreover have "next_of (pools s) p = 0"
    using h chain_next[of "next_of (pools s)" "kheap_start s" pre p "[]"] by (simp add: heap_chain_def)
  then have "next_of ?st = (next_of (pools s))(p := q, q := next_of (pools s) p)"
    using qp by (auto simp: create_pool_def)
  ultimately have ch: "chain (next_of ?st) (kheap_start s) (pre @ [p, q])" by simp
  have okq: "pool_ok ?st q"
    using uq npb al n26 by (simp add: pool_ok_def create_pool_def qm)
  have oks: "pool_ok ?st r" if "r \<in> set (pre @ [p, q])" for r
  proof (cases "r = q")
    case False
    then have "pool_ok (pools s) r" using heap_chainD(5)[OF h] that by auto
    then show ?thesis using False by (auto simp: pool_ok_def)
  qed (use okq in simp)
  have disj: "region ?st r \<inter> region ?st r' = {}"
    if r: "r \<in> set (pre @ [p, q])" "r' \<in> set (pre @ [p, q])" "r \<noteq> r'" for r r'
  proof -
    consider "r = q" "r' \<in> set (pre @ [p])" | "r' = q" "r \<in> set (pre @ [p])"
      | "r \<in> set (pre @ [p])" "r' \<in> set (pre @ [p])" using r by auto
    then show ?thesis
    proof cases
      case 3
      then show ?thesis using h r(3) reg unfolding heap_chain_def by blast
    qed (use fresh reg in blast)+
  qed
  have owns: "x - hhdm s \<in> owned_bytes s1" if "r \<in> set (pre @ [p, q])" "x \<in> region ?st r" for r x
  proof (cases "r = q")
    case True
    then show ?thesis using that regq own by blast
  next
    case False
    then have "r \<in> set (pre @ [p])" using that by auto
    then have "x - hhdm s \<in> owned_bytes s" using h that reg unfolding heap_chain_def by blast
    then show ?thesis using own by blast
  qed
  have "pmm_wf s1" by (rule pmm_wf_kmalloc[OF wf(1) km])
  moreover have "hhdm_ok s1" using wf(2) s1 by (simp add: frame_simps)
  ultimately show "heap_chain s' (pre @ [p, q])"
    using ch oks disj owns unfolding heap_chain_def s' same
    by (simp add: frame_simps same del: fun_upd_apply)
  show "pool_free (pools s' q) = False" "unat (required_size (pools s' q)) = unat n + 26"
    unfolding st' using n26 by (simp_all add: create_pool_def)
  show "unat n + 26 \<le> unat (pool_size (pools s' q))" if "(unat n + 26) mod 4096 \<noteq> 0"
  proof -
    have "unat np mod 4096 = 0" unfolding al(1) by (rule mod_mult_self2_is_0)
    with that have "unat np \<noteq> unat n + 26" by metis
    then show ?thesis unfolding st' using al(3) qm by (simp add: create_pool_def)
  qed
  show "\<And>r. r \<noteq> q \<Longrightarrow> required_size (pools s' r) = required_size (pools s r) \<and>
        pool_free (pools s' r) = pool_free (pools s r)"
    by (simp add: st')
  show "\<exists>m t st. s' = s\<lparr>mem := m, total_memory_allocated := t, pools := st\<rparr>"
    using s' s1 by auto
qed


text \<open>What one successful \<open>malloc\<close> does to the live blocks, wherever in the list it succeeds.\<close>

definition malloc_done ::
  "'a kheap_state_scheme \<Rightarrow> u64 \<Rightarrow> u64 \<Rightarrow> 'a kheap_state_scheme \<Rightarrow> bool" where
  "malloc_done s n a s' \<longleftrightarrow>
     (\<exists>ps'. heap_chain s' ps' \<and> a - 26 \<in> set ps') \<and>
     live s a = None \<and> live s' = (live s)(a \<mapsto> unat n) \<and>
     ((unat n + 26) mod 4096 \<noteq> 0 \<longrightarrow> unat n + 26 \<le> unat (pool_size (pools s' (a - 26)))) \<and>
     (\<exists>m t st. s' = s\<lparr>mem := m, total_memory_allocated := t, pools := st\<rparr>)"

lemma malloc_done_new:
  assumes h: "heap_chain s ps" and h': "heap_chain s' ps'" and ps': "set ps' = insert q (set ps)"
    and q: "q \<notin> set ps" "\<not> pool_free (pools s' q)" "unat (required_size (pools s' q)) = unat n + 26"
    and same: "\<And>r. r \<noteq> q \<Longrightarrow> required_size (pools s' r) = required_size (pools s r) \<and>
        pool_free (pools s' r) = pool_free (pools s r)"
    and slack: "(unat n + 26) mod 4096 \<noteq> 0 \<Longrightarrow> unat n + 26 \<le> unat (pool_size (pools s' q))"
    and fr: "\<exists>m t st. s' = s\<lparr>mem := m, total_memory_allocated := t, pools := st\<rparr>"
  shows "malloc_done s n (q + 26) s'"
proof -
  have "live s' x = ((live s)(q + 26 \<mapsto> unat n)) x" for x
  proof (cases "x = q + 26")
    case True
    then show ?thesis unfolding live_eq[OF h'] using ps' q by simp
  next
    case False
    then have "x - 26 \<noteq> q" by (metis diff_add_cancel)
    then show ?thesis
      using False same ps' unfolding live_eq[OF h'] fun_upd_other[OF False] live_eq[OF h] by auto
  qed
  then show ?thesis
    using h' ps' q slack fr unfolding malloc_done_def live_eq[OF h] by auto
qed

lemma malloc_done_reuse:
  assumes h: "heap_chain s ps" and p: "p \<in> set ps" "pool_free (pools s p)"
    and n: "unat n < 2 ^ 62" "unat n + 26 < unat (pool_size (pools s p))"
    and s': "s' = s\<lparr>pools := (pools s)(p :=
      (pools s p)\<lparr>pool_free := False, required_size := n + sizeof_Pool\<rparr>)\<rparr>"
  shows "malloc_done s n (p + 26) s'"
proof -
  have n26: "unat (n + sizeof_Pool) = unat n + 26" using n(1) by (simp add: sizeof_Pool_def unat_add_u64)
  have h': "heap_chain s' ps"
    unfolding s' using heap_chainD(5)[OF h p(1)] n n26
    by (intro heap_chain_block_upd[OF h p(1)]) (auto simp: pool_ok_def)
  have "live s' x = ((live s)(p + 26 \<mapsto> unat n)) x" for x
  proof (cases "x = p + 26")
    case True
    then show ?thesis unfolding live_eq[OF h'] using p n26 by (simp add: s')
  next
    case False
    then have "x - 26 \<noteq> p" by (metis diff_add_cancel)
    then show ?thesis
      using False unfolding live_eq[OF h'] fun_upd_other[OF False] live_eq[OF h] by (simp add: s')
  qed
  moreover have "\<exists>m t st. s' = s\<lparr>mem := m, total_memory_allocated := t, pools := st\<rparr>"
    unfolding s' by (intro exI[of _ "mem s"] exI[of _ "total_memory_allocated s"]) auto
  ultimately show ?thesis
    using h' p n unfolding malloc_done_def live_eq[OF h] by (auto simp: s')
qed

text \<open>One round of the loop at a pool of the heap, its tests read as numbers.\<close>

abbreviation fits_free :: "'a kheap_state_scheme \<Rightarrow> u64 \<Rightarrow> u64 \<Rightarrow> bool" where
  "fits_free s p n \<equiv> pool_free (pools s p) \<and> unat n + 26 < unat (pool_size (pools s p))"

abbreviation fits_tail :: "'a kheap_state_scheme \<Rightarrow> u64 \<Rightarrow> u64 \<Rightarrow> bool" where
  "fits_tail s p n \<equiv> unat (required_size (pools s p)) + unat n + 26 < unat (pool_size (pools s p))"

abbreviation reuse_pool :: "u64 \<Rightarrow> u64 \<Rightarrow> 'a kheap_state_scheme \<Rightarrow> 'a kheap_state_scheme" where
  "reuse_pool p n s \<equiv> s\<lparr>pools := (pools s)(p :=
     (pools s p)\<lparr>pool_free := False, required_size := n + sizeof_Pool\<rparr>)\<rparr>"

lemma malloc_loop_round:
  assumes h: "heap_chain s (pre @ p # post)" and n: "unat n < 2 ^ 62" and fuel: "0 < fuel"
  shows "fits_free s p n \<Longrightarrow> malloc_loop fuel n p s = Inr (p + 26, reuse_pool p n s)"
    "fits_free s p n \<Longrightarrow> heap_chain (reuse_pool p n s) (pre @ p # post)"
    "\<not> fits_free s p n \<Longrightarrow> fits_tail s p n \<Longrightarrow> split_pool p n s = (q, s') \<Longrightarrow>
       malloc_loop fuel n p s = Inr (q + 26, s')"
    "\<not> fits_free s p n \<Longrightarrow> \<not> fits_tail s p n \<Longrightarrow> post = c # cs \<Longrightarrow>
       malloc_loop fuel n p s = malloc_loop (fuel - 1) n c s"
    "\<not> fits_free s p n \<Longrightarrow> \<not> fits_tail s p n \<Longrightarrow> post = [] \<Longrightarrow>
       malloc_loop fuel n p s =
         (let np = PAGE_ALIGN_UP (n + sizeof_Pool) in
          res_bind (kmalloc (np div 4096) s) (\<lambda>(a, s).
            let q = a + hhdm s in
            Inr (q + 26, s\<lparr>pools := (pools s)(p := (pools s p)\<lparr>next_pool := q\<rparr>,
               q := create_pool np (n + sizeof_Pool) 0 False)\<rparr>)))"
proof -
  let ?P = "pools s p"
  have ok: "pool_ok (pools s) p" and p0: "p \<noteq> 0"
    using heap_chainD(5)[OF h] chain_0[OF heap_chainD(4)[OF h]] by auto
  have n26: "unat (n + sizeof_Pool) = unat n + 26" using n by (simp add: sizeof_Pool_def unat_add_u64)
  have "unat (required_size ?P + n) = unat (required_size ?P) + unat n"
    using ok n by (intro unat_add_u64) (simp add: pool_ok_def)
  then have "unat (required_size ?P + n + sizeof_Pool) = unat (required_size ?P) + unat n + 26"
    using ok n by (subst unat_add_u64) (simp_all add: pool_ok_def sizeof_Pool_def)
  then have t: "pool_size ?P > n + sizeof_Pool \<longleftrightarrow> unat n + 26 < unat (pool_size ?P)"
    "pool_size ?P > required_size ?P + n + sizeof_Pool \<longleftrightarrow> fits_tail s p n"
    using n26 by (simp_all add: word_less_nat_alt)
  have nx: "next_pool ?P = (case post of [] \<Rightarrow> 0 | c # _ \<Rightarrow> c)" "\<And>c cs. post = c # cs \<Longrightarrow> c \<noteq> 0"
    using chain_next[OF heap_chainD(4)[OF h]] chain_0[OF heap_chainD(4)[OF h]] by auto
  have body: "malloc_loop fuel n p s =
      (if fits_free s p n then Inr (p + 26, reuse_pool p n s)
       else if fits_tail s p n then (let (q, s) = split_pool p n s in Inr (q + 26, s))
       else if next_pool ?P = 0 then
         (let np = PAGE_ALIGN_UP (n + sizeof_Pool) in
          res_bind (kmalloc (np div 4096) s) (\<lambda>(a, s).
            let q = a + hhdm s in
            Inr (q + 26, s\<lparr>pools := (pools s)(p := (pools s p)\<lparr>next_pool := q\<rparr>,
               q := create_pool np (n + sizeof_Pool) 0 False)\<rparr>)))
       else malloc_loop (fuel - 1) n (next_pool ?P) s)"
    using fuel p0 by (subst malloc_loop.simps) (simp add: Let_def t[unfolded sizeof_Pool_def] sizeof_Pool_def)
  show "fits_free s p n \<Longrightarrow> malloc_loop fuel n p s = Inr (p + 26, reuse_pool p n s)"
    unfolding body by simp
  show "fits_free s p n \<Longrightarrow> heap_chain (reuse_pool p n s) (pre @ p # post)"
    using h ok n26 by (intro heap_chain_block_upd) (auto simp: pool_ok_def)
  show "\<not> fits_free s p n \<Longrightarrow> fits_tail s p n \<Longrightarrow> split_pool p n s = (q, s') \<Longrightarrow>
       malloc_loop fuel n p s = Inr (q + 26, s')"
    unfolding body by simp
  show "\<not> fits_free s p n \<Longrightarrow> \<not> fits_tail s p n \<Longrightarrow> post = c # cs \<Longrightarrow>
       malloc_loop fuel n p s = malloc_loop (fuel - 1) n c s"
    unfolding body using nx by auto
  show "\<not> fits_free s p n \<Longrightarrow> \<not> fits_tail s p n \<Longrightarrow> post = [] \<Longrightarrow>
       malloc_loop fuel n p s =
         (let np = PAGE_ALIGN_UP (n + sizeof_Pool) in
          res_bind (kmalloc (np div 4096) s) (\<lambda>(a, s).
            let q = a + hhdm s in
            Inr (q + 26, s\<lparr>pools := (pools s)(p := (pools s p)\<lparr>next_pool := q\<rparr>,
               q := create_pool np (n + sizeof_Pool) 0 False)\<rparr>)))"
    unfolding body using nx by auto
qed

lemma malloc_loop_here:
  assumes h: "heap_chain s (pre @ p # post)" and n: "unat n < 2 ^ 62" and fuel: "0 < fuel"
    and c: "fits_free s p n \<or> fits_tail s p n"
  shows "\<exists>a s'. malloc_loop fuel n p s = Inr (a, s') \<and> malloc_done s n a s'"
proof (cases "fits_free s p n")
  case True
  then have "malloc_done s n (p + 26) (reuse_pool p n s)"
    using n by (intro malloc_done_reuse[OF h]) auto
  then show ?thesis using malloc_loop_round(1)[OF h n fuel True] by blast
next
  case False
  with c have big: "fits_tail s p n" by blast
  obtain q s' where sp: "split_pool p n s = (q, s')" by fastforce
  note S = heap_chain_split[OF h big sp]
  have "malloc_done s n (q + 26) s'"
  proof (rule malloc_done_new[OF h S(1)])
    obtain st where "s' = s\<lparr>pools := st\<rparr>" using S(7) by blast
    then show "\<exists>m t st. s' = s\<lparr>mem := m, total_memory_allocated := t, pools := st\<rparr>"
      by (intro exI[of _ "mem s"] exI[of _ "total_memory_allocated s"] exI[of _ st]) simp
  qed (use S in auto)
  then show ?thesis using malloc_loop_round(3)[OF h n fuel False big sp] by blast
qed

lemma malloc_loop_done:
  assumes "heap_chain s (pre @ p # post)" "length post < fuel" "unat n < 2 ^ 62"
  shows "case malloc_loop fuel n p s of
       Inr (a, s') \<Rightarrow> malloc_done s n a s'
     | Inl err \<Rightarrow> err = Halted \<and> kmalloc (PAGE_ALIGN_UP (n + 26) div 4096) s = Inl Halted"
  using assms
proof (induction post arbitrary: pre p fuel)
  case (Cons q post)
  note h = Cons.prems(1)
  show ?case
  proof (cases "fits_free s p n \<or> fits_tail s p n")
    case True
    then show ?thesis using malloc_loop_here[OF h Cons.prems(3) _ True, of fuel] Cons.prems(2) by auto
  next
    case False
    then have "malloc_loop fuel n p s = malloc_loop (fuel - 1) n q s"
      using Cons.prems(2) by (intro malloc_loop_round(4)[OF h Cons.prems(3)]) auto
    then show ?thesis using Cons.IH[of "pre @ [p]" q "fuel - 1"] Cons.prems by simp
  qed
next
  case Nil
  note h = Nil.prems(1)
  have fl: "0 < fuel" using Nil.prems(2) by simp
  show ?case
  proof (cases "fits_free s p n \<or> fits_tail s p n")
    case True
    then show ?thesis using malloc_loop_here[OF h Nil.prems(3) fl True] by auto
  next
    case False
    let ?np = "PAGE_ALIGN_UP (n + sizeof_Pool)"
    have l: "malloc_loop fuel n p s = (let np = ?np in
          res_bind (kmalloc (np div 4096) s) (\<lambda>(a, s).
            let q = a + hhdm s in
            Inr (q + 26, s\<lparr>pools := (pools s)(p := (pools s p)\<lparr>next_pool := q\<rparr>,
               q := create_pool np (n + sizeof_Pool) 0 False)\<rparr>)))"
      using False by (intro malloc_loop_round(5)[OF h Nil.prems(3) fl]) auto
    show ?thesis
    proof (cases "kmalloc (?np div 4096) s")
      case (Inl e)
      then have "e = Halted" by (rule kmalloc_error[OF heap_chainD(1)[OF h]])
      then show ?thesis using Inl unfolding l by (simp add: Let_def sizeof_Pool_def)
    next
      case (Inr r)
      obtain a s1 where km: "kmalloc (?np div 4096) s = Inr (a, s1)" using Inr by (cases r) auto
      define q where "q = a + hhdm s1"
      define s' where "s' = s1\<lparr>pools := (pools s1)(p := (pools s1 p)\<lparr>next_pool := q\<rparr>,
        q := create_pool ?np (n + sizeof_Pool) 0 False)\<rparr>"
      note G = heap_chain_grow[OF h[simplified] Nil.prems(3) refl km q_def s'_def]
      have "malloc_done s n (q + 26) s'" by (rule malloc_done_new[OF h G(1)]) (use G in auto)
      then show ?thesis unfolding l using km by (simp add: Let_def s'_def q_def)
    qed
  qed
qed

text \<open>Room: the unused tail of the last pool. A request that fits in it succeeds and uses up at most the
  block, its header and one byte.\<close>

definition heap_room :: "'a kheap_state_scheme \<Rightarrow> u64 \<Rightarrow> nat" where
  "heap_room s p = unat (pool_size (pools s p)) - unat (required_size (pools s p))"

lemma malloc_loop_room:
  assumes "heap_chain s (pre @ p # post)" "length post < fuel" "unat n < 2 ^ 62"
    and "unat n + 27 + k \<le> heap_room s (last (p # post))"
  shows "\<exists>a s' ps'. malloc_loop fuel n p s = Inr (a, s') \<and> heap_chain s' ps' \<and> k \<le> heap_room s' (last ps')"
  using assms
proof (induction post arbitrary: pre p fuel)
  case Nil
  note h = Nil.prems(1)
  have fl: "0 < fuel" using Nil.prems(2) by simp
  have room: "fits_tail s p n" using Nil.prems(4) by (simp add: heap_room_def)
  have ok: "pool_ok (pools s) p" using heap_chainD(5)[OF h] by simp
  show ?case
  proof (cases "fits_free s p n")
    case True
    have "unat (n + sizeof_Pool) = unat n + 26"
      using Nil.prems(3) by (simp add: sizeof_Pool_def unat_add_u64)
    then have "k \<le> heap_room (reuse_pool p n s) (last (pre @ [p]))"
      using ok Nil.prems(4) by (simp add: heap_room_def pool_ok_def)
    then show ?thesis using malloc_loop_round(1,2)[OF h Nil.prems(3) fl True] by blast
  next
    case False
    obtain q s' where sp: "split_pool p n s = (q, s')" by fastforce
    note S = heap_chain_split[OF h room sp]
    have "k \<le> heap_room s' (last (pre @ p # q # []))"
      using S(4,9) Nil.prems(4) by (simp add: heap_room_def)
    then show ?thesis using S(1) malloc_loop_round(3)[OF h Nil.prems(3) fl False room sp] by blast
  qed
next
  case (Cons c post)
  note h = Cons.prems(1) and n = Cons.prems(3)
  have fl: "0 < fuel" using Cons.prems(2) by simp
  have lp: "last (c # post) \<noteq> p"
    using chain_distinct[OF heap_chainD(4)[OF h]] last_in_set[of "c # post"] by auto
  show ?case
  proof (cases "fits_free s p n")
    case True
    have "k \<le> heap_room (reuse_pool p n s) (last (pre @ p # c # post))"
      using Cons.prems(4) lp by (simp add: heap_room_def)
    then show ?thesis using malloc_loop_round(1,2)[OF h n fl True] by blast
  next
    case F: False
    show ?thesis
    proof (cases "fits_tail s p n")
      case True
      obtain q s' where sp: "split_pool p n s = (q, s')" by fastforce
      note S = heap_chain_split[OF h True sp]
      have "last (c # post) \<noteq> q" using S(2) last_in_set[of "c # post"] by auto
      then have "k \<le> heap_room s' (last (pre @ p # q # c # post))"
        using S(8) lp Cons.prems(4) by (simp add: heap_room_def)
      then show ?thesis using S(1) malloc_loop_round(3)[OF h n fl F True sp] by blast
    next
      case False
      have "malloc_loop fuel n p s = malloc_loop (fuel - 1) n c s"
        using F False by (intro malloc_loop_round(4)[OF h n fl]) auto
      then show ?thesis using Cons.IH[of "pre @ [p]" c "fuel - 1"] Cons.prems by simp
    qed
  qed
qed

lemma heap_inv_start:
  assumes "heap_chain s ps"
  obtains post where "ps = kheap_start s # post" "length post < walk_fuel"
proof -
  obtain post where p: "ps = kheap_start s # post"
    using heap_chainD(3,4)[OF assms] by (cases ps) auto
  have "length ps \<le> 2 ^ 64" by (rule chain_length[OF heap_chainD(4)[OF assms]])
  then have "length post < walk_fuel" using p by (simp add: walk_fuel_def)
  with p that show thesis by blast
qed

lemma malloc_effect:
  assumes "heap_inv s" "unat n < 2 ^ 62"
  shows "case malloc n s of
       Inr (a, s') \<Rightarrow> malloc_done s n a s'
     | Inl err \<Rightarrow> err = Halted \<and> kmalloc (PAGE_ALIGN_UP (n + 26) div 4096) s = Inl Halted"
proof -
  obtain ps where h: "heap_chain s ps" using assms(1) by (auto simp: heap_inv_def)
  obtain post where p: "ps = kheap_start s # post" "length post < walk_fuel"
    by (rule heap_inv_start[OF h])
  show ?thesis
    unfolding malloc_def
    using malloc_loop_done[of s "[]" "kheap_start s" post walk_fuel n] h p assms(2) by simp
qed

definition roomy :: "nat \<Rightarrow> 'a kheap_state_scheme \<Rightarrow> bool" where
  "roomy k s \<longleftrightarrow> (\<exists>ps. heap_chain s ps \<and> k \<le> heap_room s (last ps))"

lemma malloc_room:
  assumes "roomy (unat n + 27 + k) s" "unat n < 2 ^ 62"
  shows "\<exists>a s'. malloc n s = Inr (a, s') \<and> roomy k s'"
proof -
  obtain ps where h: "heap_chain s ps" "unat n + 27 + k \<le> heap_room s (last ps)"
    using assms(1) by (auto simp: roomy_def)
  obtain post where p: "ps = kheap_start s # post" "length post < walk_fuel"
    by (rule heap_inv_start[OF h(1)])
  show ?thesis
    unfolding malloc_def roomy_def
    using malloc_loop_room[of s "[]" "kheap_start s" post walk_fuel n k] h p assms(2) by auto
qed

text \<open>The block of a live allocation lies in the region of its pool, behind the header.\<close>

definition heap_block :: "u64 \<Rightarrow> nat \<Rightarrow> u64 set" where
  "heap_block a n = {x. unat a \<le> unat x \<and> unat x < unat a + n}"

lemma live_block:
  assumes h: "heap_chain s ps" and l: "live s a = Some n"
  shows "a - 26 \<in> set ps" "unat a = unat (a - 26) + 26"
    "heap_block a n \<subseteq> region (pools s) (a - 26)"
    "unat a + n < 2 ^ 64"
    "x \<in> region (pools s) (a - 26) \<Longrightarrow> unat x < unat (a - 26) + 26 \<or>
       unat a \<le> unat x \<and> unat x < unat a + (unat (pool_size (pools s (a - 26))) - 25)"
proof -
  show m: "a - 26 \<in> set ps"
    using l unfolding live_eq[OF h] by (auto split: if_splits)
  have rq: "n = unat (required_size (pools s (a - 26))) - 26"
    using l unfolding live_eq[OF h] by (auto split: if_splits)
  have ok: "pool_ok (pools s) (a - 26)" by (rule heap_chainD(5)[OF h m])
  have "unat (a - 26 + 26) = unat (a - 26) + 26"
    using ok by (subst unat_add_u64) (simp_all add: pool_ok_def)
  then show ua: "unat a = unat (a - 26) + 26" by simp
  show "heap_block a n \<subseteq> region (pools s) (a - 26)"
    using ok ua unfolding heap_block_def region_def rq pool_ok_def by auto
  show "unat a + n < 2 ^ 64" using ok ua unfolding rq pool_ok_def by auto
  show "unat x < unat (a - 26) + 26 \<or>
       unat a \<le> unat x \<and> unat x < unat a + (unat (pool_size (pools s (a - 26))) - 25)"
    if "x \<in> region (pools s) (a - 26)"
    using that ok ua unfolding region_def pool_ok_def by auto
qed

lemma live_blocks_disjoint:
  assumes "heap_inv s" "live s a = Some m" "live s b = Some n" "a \<noteq> b"
  shows "heap_block a m \<inter> heap_block b n = {}"
proof -
  obtain ps where h: "heap_chain s ps" using assms(1) by (auto simp: heap_inv_def)
  note A = live_block[OF h assms(2)] and B = live_block[OF h assms(3)]
  have "a - 26 \<noteq> b - 26" using assms(4) by simp
  then have "region (pools s) (a - 26) \<inter> region (pools s) (b - 26) = {}"
    by (rule heap_chainD(6)[OF h A(1) B(1)])
  then show ?thesis using A(3) B(3) by blast
qed

lemma live_block_owned:
  assumes "heap_inv s" "live s a = Some n" "x \<in> heap_block a n"
  shows "x - hhdm s \<in> owned_bytes s"
proof -
  obtain ps where h: "heap_chain s ps" using assms(1) by (auto simp: heap_inv_def)
  show ?thesis using live_block[OF h assms(2)] assms(3) heap_chainD(7)[OF h] by blast
qed

lemma kfree_effect:
  assumes inv: "heap_inv s" and l: "live s a = Some n"
  shows "\<exists>s'. kfree a s = Inr s' \<and> heap_inv s' \<and> live s' = (live s)(a := None) \<and>
    (\<exists>st. s' = s\<lparr>pools := st\<rparr>)"
proof -
  obtain ps where h: "heap_chain s ps" using inv by (auto simp: heap_inv_def)
  note m = live_block(1)[OF h l]
  let ?P = "(pools s (a - 26))\<lparr>pool_free := True, required_size := sizeof_Pool\<rparr>"
  let ?s = "s\<lparr>pools := (pools s)(a - 26 := ?P)\<rparr>"
  have ok: "pool_ok (pools s) (a - 26)" by (rule heap_chainD(5)[OF h m])
  then have k: "kfree a s = Inr ?s" by (simp add: kfree_def sizeof_Pool_def pool_ok_def Let_def)
  have h': "heap_chain ?s ps"
    using ok by (intro heap_chain_block_upd[OF h m]) (auto simp: pool_ok_def sizeof_Pool_def)
  have "live ?s x = ((live s)(a := None)) x" for x
  proof (cases "x = a")
    case True
    then show ?thesis unfolding live_eq[OF h'] by simp
  next
    case False
    then have "x - 26 \<noteq> a - 26" by simp
    then show ?thesis unfolding live_eq[OF h'] fun_upd_other[OF False] live_eq[OF h] by simp
  qed
  then show ?thesis using k h' unfolding heap_inv_def by blast
qed

text \<open>Room that comes back: a free pool, or the unused tail of a pool, in which a block of \<open>n\<close> bytes fits so that the block
  can be used again once it is free. The code's comparisons are strict, so that takes one byte more than the block
  and its header.\<close>

definition spare :: "nat \<Rightarrow> (u64 \<Rightarrow> Pool) \<Rightarrow> u64 \<Rightarrow> bool" where
  "spare n st p \<longleftrightarrow> pool_free (st p) \<and> n + 26 < unat (pool_size (st p)) \<or>
     unat (required_size (st p)) + n + 27 < unat (pool_size (st p))"

definition room_for :: "nat \<Rightarrow> 'a kheap_state_scheme \<Rightarrow> bool" where
  "room_for n s \<longleftrightarrow> heap_inv s \<and> (\<exists>ps. chain (next_of (pools s)) (kheap_start s) ps \<and> (\<exists>p \<in> set ps. spare n (pools s) p))"

text \<open>The same once the block at \<open>a\<close> is free.\<close>

definition room_after :: "nat \<Rightarrow> u64 \<Rightarrow> 'a kheap_state_scheme \<Rightarrow> bool" where
  "room_after n a s \<longleftrightarrow> (\<exists>ps. chain (next_of (pools s)) (kheap_start s) ps \<and> a - 26 \<in> set ps \<and>
     (n + 26 < unat (pool_size (pools s (a - 26))) \<or> (\<exists>q \<in> set ps. q \<noteq> a - 26 \<and> spare n (pools s) q)))"

lemma room_cong:
  assumes "pools s = pools s'" "kheap_start s = kheap_start s'"
  shows "room_after n a s = room_after n a s'" "heap_inv s = heap_inv s' \<Longrightarrow> room_for n s = room_for n s'"
  by (simp_all add: room_after_def room_for_def assms)

lemma malloc_loop_spare:
  assumes "heap_chain s (pre @ p # post)" "length post < fuel" "unat n < 2 ^ 62" and "\<exists>q \<in> set (p # post). spare (unat n) (pools s) q"
  shows "\<exists>a s'. malloc_loop fuel n p s = Inr (a, s') \<and> room_after (unat n) a s'"
  using assms
proof (induction post arbitrary: pre p fuel)
  case Nil
  note h = Nil.prems(1)
  have fl: "0 < fuel" using Nil.prems(2) by simp
  have sp: "spare (unat n) (pools s) p" using Nil.prems(4) by simp
  show ?case
  proof (cases "fits_free s p n")
    case True
    have "room_after (unat n) (p + 26) (reuse_pool p n s)"
      using heap_chainD(4)[OF malloc_loop_round(2)[OF h Nil.prems(3) fl True]] True unfolding room_after_def by auto
    then show ?thesis using malloc_loop_round(1)[OF h Nil.prems(3) fl True] by blast
  next
    case False
    then have tail: "unat (required_size (pools s p)) + unat n + 27 < unat (pool_size (pools s p))" using sp by (auto simp: spare_def)
    then have room: "fits_tail s p n" by simp
    obtain q s' where sp: "split_pool p n s = (q, s')" by fastforce
    note S = heap_chain_split[OF h room sp]
    have "room_after (unat n) (q + 26) s'"
      using heap_chainD(4)[OF S(1)] S(9) tail unfolding room_after_def by (intro exI[of _ "pre @ [p, q]"]) auto
    then show ?thesis using malloc_loop_round(3)[OF h Nil.prems(3) fl False room sp] by blast
  qed
next
  case (Cons c post)
  note h = Cons.prems(1) and n = Cons.prems(3)
  have fl: "0 < fuel" using Cons.prems(2) by simp
  have ps: "p \<notin> set (c # post)" using chain_distinct[OF heap_chainD(4)[OF h]] by auto
  show ?case
  proof (cases "fits_free s p n")
    case True
    have "room_after (unat n) (p + 26) (reuse_pool p n s)"
      using heap_chainD(4)[OF malloc_loop_round(2)[OF h n fl True]] True unfolding room_after_def by auto
    then show ?thesis using malloc_loop_round(1)[OF h n fl True] by blast
  next
    case F: False
    show ?thesis
    proof (cases "fits_tail s p n")
      case True
      obtain q s' where sp: "split_pool p n s = (q, s')" by fastforce
      note S = heap_chain_split[OF h True sp]
      have "room_after (unat n) (q + 26) s'"
      proof (cases "unat n + 26 < unat (pool_size (pools s' q))")
        case True
        then show ?thesis
          using heap_chainD(4)[OF S(1)] unfolding room_after_def by (intro exI[of _ "pre @ p # q # c # post"]) auto
      next
        case False
        then have "\<not> spare (unat n) (pools s) p" using S(9) F by (auto simp: spare_def)
        then obtain r where r: "r \<in> set (c # post)" "spare (unat n) (pools s) r" using Cons.prems(4) by auto
        then have rn: "r \<noteq> p" "r \<noteq> q" using ps S(2) by auto
        then have "spare (unat n) (pools s') r" using r(2) S(8) by (simp add: spare_def)
        then show ?thesis
          using heap_chainD(4)[OF S(1)] rn r(1) unfolding room_after_def by (intro exI[of _ "pre @ p # q # c # post"]) auto
      qed
      then show ?thesis using malloc_loop_round(3)[OF h n fl F True sp] by blast
    next
      case False
      have "malloc_loop fuel n p s = malloc_loop (fuel - 1) n c s"
        using F False by (intro malloc_loop_round(4)[OF h n fl]) auto
      moreover have "\<not> spare (unat n) (pools s) p" using F False by (auto simp: spare_def)
      ultimately show ?thesis using Cons.IH[of "pre @ [p]" c "fuel - 1"] Cons.prems by simp
    qed
  qed
qed

lemma malloc_room_for:
  assumes "room_for (unat n) s" "unat n < 2 ^ 62"
  shows "\<exists>a s'. malloc n s = Inr (a, s') \<and> room_after (unat n) a s'"
proof -
  obtain ps where h: "heap_chain s ps" using assms(1) by (auto simp: room_for_def heap_inv_def)
  have sp: "\<exists>p \<in> set ps. spare (unat n) (pools s) p"
    using assms(1) chain_unique[OF heap_chainD(4)[OF h]] unfolding room_for_def by blast
  obtain post where p: "ps = kheap_start s # post" "length post < walk_fuel"
    by (rule heap_inv_start[OF h])
  show ?thesis
    unfolding malloc_def using malloc_loop_spare[of s "[]" "kheap_start s" post walk_fuel n] h p sp assms(2) by auto
qed

lemma kfree_room_for:
  assumes inv: "heap_inv s" and l: "live s a = Some m" and r: "room_after n a s" and f: "kfree a s = Inr s'"
  shows "room_for n s'"
proof -
  obtain ps where h: "heap_chain s ps" using inv by (auto simp: heap_inv_def)
  note m = live_block(1)[OF h l]
  let ?P = "(pools s (a - 26))\<lparr>pool_free := True, required_size := sizeof_Pool\<rparr>"
  have ok: "pool_ok (pools s) (a - 26)" by (rule heap_chainD(5)[OF h m])
  then have s': "s' = s\<lparr>pools := (pools s)(a - 26 := ?P)\<rparr>"
    using f by (simp add: kfree_def sizeof_Pool_def pool_ok_def Let_def)
  have h': "heap_chain s' ps" unfolding s'
    using ok by (intro heap_chain_block_upd[OF h m]) (auto simp: pool_ok_def sizeof_Pool_def)
  have "n + 26 < unat (pool_size (pools s (a - 26))) \<or> (\<exists>q \<in> set ps. q \<noteq> a - 26 \<and> spare n (pools s) q)"
    using r chain_unique[OF heap_chainD(4)[OF h]] unfolding room_after_def by blast
  then have "\<exists>q \<in> set ps. spare n (pools s') q"
  proof
    assume "n + 26 < unat (pool_size (pools s (a - 26)))"
    then have "spare n (pools s') (a - 26)" by (simp add: s' spare_def)
    then show ?thesis using m by blast
  next
    assume "\<exists>q \<in> set ps. q \<noteq> a - 26 \<and> spare n (pools s) q"
    then obtain q where "q \<in> set ps" "q \<noteq> a - 26" "spare n (pools s) q" by blast
    moreover from this have "spare n (pools s') q" by (simp add: s' spare_def)
    ultimately show ?thesis by blast
  qed
  then show ?thesis using heap_chainD(4)[OF h'] h' unfolding room_for_def heap_inv_def by blast
qed

lemma roomy_room_for: "roomy (n + 28) s \<Longrightarrow> room_for n s"
proof -
  assume "roomy (n + 28) s"
  then obtain ps where h: "heap_chain s ps" "n + 28 \<le> heap_room s (last ps)" by (auto simp: roomy_def)
  then have "spare n (pools s) (last ps)" by (auto simp: spare_def heap_room_def)
  then show ?thesis using heap_chainD(3,4)[OF h(1)] h(1) unfolding room_for_def heap_inv_def by (meson last_in_set)
qed

lemma init_kheap_effect:
  assumes wf: "pmm_wf s" "hhdm_ok s"
  shows "case init_kheap s of
      Inr s' \<Rightarrow> heap_inv s' \<and> live s' = Map.empty \<and> roomy 8165 s'
    | Inl e \<Rightarrow> e = Halted"
proof (cases "kmalloc 2 s")
  case (Inl e)
  then show ?thesis using kmalloc_error[OF wf(1) Inl] by (simp add: init_kheap_def)
next
  case (Inr r)
  obtain a s1 where km: "kmalloc 2 s = Inr (a, s1)" using Inr by (cases r) auto
  obtain m t where s1: "s1 = s\<lparr>mem := m, total_memory_allocated := t\<rparr>"
    using kmalloc_frame[OF wf(1) km] by blast
  note blk = kmalloc_block_mapped[OF wf km] and own = kmalloc_owned[OF wf(1) km]
  define q where "q = a + hhdm s"
  let ?Q = "create_pool 8192 sizeof_Pool 0 True"
  let ?s = "s1\<lparr>kheap_start := q, pools := (pools s)(q := ?Q)\<rparr>"
  have i: "init_kheap s = Inr ?s" using km s1 by (simp add: init_kheap_def q_def Let_def)
  have uq: "0 < unat q" "unat q + 8192 < 2 ^ 64" using blk(4,5) by (simp_all add: q_def)
  have q0: "q \<noteq> 0" using uq by auto
  have ok: "pool_ok (pools ?s) q" using uq by (simp add: pool_ok_def create_pool_def sizeof_Pool_def)
  have reg: "x - hhdm s \<in> owned_bytes s1" if "x \<in> region (pools ?s) q" for x
  proof -
    have "x - hhdm s \<in> page_block a 2"
      using that blk(6)[of x] by (simp add: region_def create_pool_def q_def)
    then show ?thesis using own by blast
  qed
  have w1: "pmm_wf s1" "hhdm_ok s1"
    using pmm_wf_kmalloc[OF wf(1) km] wf(2) by (simp_all add: s1 frame_simps)
  have fr: "pmm_wf ?s = pmm_wf s1" "hhdm_ok ?s = hhdm_ok s1" "owned_bytes ?s = owned_bytes s1"
    by (simp_all add: pmm_wf_def memmap_ok_def hhdm_ok_def owned_bytes_def page_used_def)
  have h: "heap_chain ?s [q]"
    using w1 ok reg q0 unfolding heap_chain_def fr
    by (simp add: s1 create_pool_def)
  have "live ?s = Map.empty"
    unfolding live_eq[OF h] fun_eq_iff by (simp add: create_pool_def)
  moreover have "roomy 8165 ?s"
    unfolding roomy_def by (rule exI[of _ "[q]"])
      (use h in \<open>simp add: heap_room_def create_pool_def sizeof_Pool_def\<close>)
  ultimately show ?thesis using h i by (auto simp: heap_inv_def)
qed

section \<open>The contract of an allocator\<close>

text \<open>A client that only releases what it holds: requests and releases in any order.\<close>

inductive client_step ::
  "(u64 \<Rightarrow> 's \<Rightarrow> (u64 \<times> 's) result) \<Rightarrow> (u64 \<Rightarrow> 's \<Rightarrow> 's result) \<Rightarrow>
   ('s \<Rightarrow> u64 \<Rightarrow> nat option) \<Rightarrow> 's \<Rightarrow> 's \<Rightarrow> bool"
  for alloc release blocks where
  take: "unat n < 2 ^ 62 \<Longrightarrow> alloc n s = Inr (a, s') \<Longrightarrow> client_step alloc release blocks s s'"
| give: "blocks s a = Some k \<Longrightarrow> release a s = Inr s' \<Longrightarrow> client_step alloc release blocks s s'"

text \<open>What every client of the heap relies on: a request gives a block that was not live and leaves
  the others alone, a live block can be released, live blocks never overlap.\<close>

locale heap_allocator =
  fixes alloc :: "u64 \<Rightarrow> 's \<Rightarrow> (u64 \<times> 's) result"
    and release :: "u64 \<Rightarrow> 's \<Rightarrow> 's result"
    and inv :: "'s \<Rightarrow> bool"
    and blocks :: "'s \<Rightarrow> u64 \<Rightarrow> nat option"
  assumes alloc_ok: "inv s \<Longrightarrow> unat n < 2 ^ 62 \<Longrightarrow> alloc n s = Inr (a, s') \<Longrightarrow>
      inv s' \<and> blocks s a = None \<and> blocks s' = (blocks s)(a \<mapsto> unat n)"
    and alloc_error: "inv s \<Longrightarrow> unat n < 2 ^ 62 \<Longrightarrow> alloc n s = Inl e \<Longrightarrow> e = Halted"
    and release_ok: "inv s \<Longrightarrow> blocks s a = Some k \<Longrightarrow>
      \<exists>s'. release a s = Inr s' \<and> inv s' \<and> blocks s' = (blocks s)(a := None)"
    and disjoint: "inv s \<Longrightarrow> blocks s a = Some k \<Longrightarrow> blocks s b = Some l \<Longrightarrow> a \<noteq> b \<Longrightarrow>
      heap_block a k \<inter> heap_block b l = {}"
begin

lemma step_inv: "client_step alloc release blocks s s' \<Longrightarrow> inv s \<Longrightarrow> inv s'"
proof (induction rule: client_step.induct)
  case (take n s a s')
  then show ?case using alloc_ok by blast
next
  case (give s a k s')
  then show ?case using release_ok by force
qed

lemma steps_inv: "(client_step alloc release blocks)\<^sup>*\<^sup>* s s' \<Longrightarrow> inv s \<Longrightarrow> inv s'"
  by (induction rule: rtranclp_induct) (auto intro: step_inv)

lemma steps_disjoint:
  assumes "(client_step alloc release blocks)\<^sup>*\<^sup>* s s'" "inv s" "blocks s' a = Some m" "blocks s' b = Some n" "a \<noteq> b"
  shows "heap_block a m \<inter> heap_block b n = {}"
  using disjoint[OF steps_inv[OF assms(1,2)] assms(3-5)] .

text \<open>Releasing gives back exactly what a request took.\<close>

lemma alloc_release:
  assumes "inv s" "unat n < 2 ^ 62" "alloc n s = Inr (a, s')"
  shows "\<exists>s''. release a s' = Inr s'' \<and> inv s'' \<and> blocks s'' = blocks s"
proof -
  have "inv s'" "blocks s a = None" "blocks s' = (blocks s)(a \<mapsto> unat n)"
    using alloc_ok[OF assms] by auto
  moreover from this obtain s'' where "release a s' = Inr s''" "inv s''" "blocks s'' = (blocks s')(a := None)"
    using release_ok[of s' a "unat n"] by auto
  ultimately show ?thesis by (metis fun_upd_triv fun_upd_upd)
qed

end

lemma malloc_Inr:
  assumes "heap_inv s" "unat n < 2 ^ 62" "malloc n s = Inr (a, s')"
  shows "malloc_done s n a s'"
  using malloc_effect[OF assms(1,2)] assms(3) by simp

lemma malloc_done_inv: "malloc_done s n a s' \<Longrightarrow> heap_inv s'"
  unfolding malloc_done_def heap_inv_def by blast

interpretation kheap: heap_allocator malloc kfree heap_inv live
proof unfold_locales
  fix s s' :: "'a kheap_state_scheme" and n a
  assume "heap_inv s" "unat n < 2 ^ 62" "malloc n s = Inr (a, s')"
  then show "heap_inv s' \<and> live s a = None \<and> live s' = (live s)(a \<mapsto> unat n)"
    using malloc_Inr malloc_done_inv unfolding malloc_done_def by blast
next
  fix s :: "'a kheap_state_scheme" and n e
  assume "heap_inv s" "unat n < 2 ^ 62" "malloc n s = Inl e"
  then show "e = Halted" using malloc_effect[of s n] by simp
next
  fix s :: "'a kheap_state_scheme" and n a
  assume "heap_inv s" "live s a = Some n"
  then show "\<exists>s'. kfree a s = Inr s' \<and> heap_inv s' \<and> live s' = (live s)(a := None)"
    using kfree_effect by blast
qed (rule live_blocks_disjoint)

text \<open>Facts the clients of the heap use directly: what \<open>malloc\<close> and \<open>kfree\<close> leave alone.\<close>

lemma malloc_frame:
  assumes "heap_inv s" "unat n < 2 ^ 62" "malloc n s = Inr (a, s')"
  obtains m t st where "s' = s\<lparr>mem := m, total_memory_allocated := t, pools := st\<rparr>"
  using malloc_Inr[OF assms] unfolding malloc_done_def by blast

lemma live_nonnull:
  assumes "heap_inv s" "live s a = Some n"
  shows "a \<noteq> 0"
proof -
  obtain ps where h: "heap_chain s ps" using assms(1) by (auto simp: heap_inv_def)
  have "unat a \<noteq> 0" using live_block(2)[OF h assms(2)] by simp
  then show ?thesis by auto
qed

text \<open>Live blocks and invariant only depend on the heap's own fields.\<close>

lemma heap_cong:
  assumes "kheap_state.truncate s = kheap_state.truncate s'"
  shows "live s = live s'" "heap_inv s = heap_inv s'" "roomy k s = roomy k s'"
proof -
  have eq: "mem s = mem s'" "memmap s = memmap s'" "hhdm s = hhdm s'"
    "last_freed_page s = last_freed_page s'" "last_freed_section s = last_freed_section s'"
    "last_freed_num_pages s = last_freed_num_pages s'" "kheap_start s = kheap_start s'"
    "pools s = pools s'"
    using assms by (simp_all add: kheap_state.defs)
  show "live s = live s'" by (rule ext) (simp add: live_def Let_def eq)
  have c: "heap_chain s ps = heap_chain s' ps" for ps
    by (simp add: heap_chain_def pmm_wf_def memmap_ok_def hhdm_ok_def owned_bytes_def page_used_def eq)
  show "heap_inv s = heap_inv s'" by (simp add: heap_inv_def c)
  show "roomy k s = roomy k s'" by (simp add: roomy_def c heap_room_def eq)
qed

section \<open>A concrete heap\<close>

definition sample_boot :: kheap_state where
  "sample_boot = pmm_state.extend sample_pmm
     \<lparr>kheap_start = 0, pools = (\<lambda>_. create_pool 0 0 0 False)\<rparr>"

lemma sample_boot_wf: "pmm_wf sample_boot" "hhdm_ok sample_boot"
proof -
  have "pmm_wf sample_boot = pmm_wf sample_pmm"
    by (simp add: pmm_wf_def memmap_ok_def sample_boot_def pmm_state.defs)
  then show "pmm_wf sample_boot" using sample_pmm_wf by simp
  show "hhdm_ok sample_boot"
    by (auto simp: sample_boot_def sample_pmm_def sample_memmap_def usable_def
        LIMINE_MEMMAP_USABLE_def pmm_state.defs hhdm_ok_def)
qed

lemma sample_heap:
  "\<exists>s. init_kheap sample_boot = Inr s \<and> heap_inv s \<and> live s = Map.empty \<and> roomy 8165 s \<and>
     kheap_start s = 0xffff800000101000 \<and> pools s 0xffff800000101000 = create_pool 8192 26 0 True"
proof -
  have "map_sum id fst (kmalloc 2 sample_boot) = Inr 0x101000" by code_simp
  then obtain s1 where km: "kmalloc 2 sample_boot = Inr (0x101000, s1)"
    by (cases "kmalloc 2 sample_boot") auto
  obtain m t where s1: "s1 = sample_boot\<lparr>mem := m, total_memory_allocated := t\<rparr>"
    using kmalloc_frame[OF sample_boot_wf(1) km] by blast
  have "hhdm s1 = 0xffff800000000000" by (simp add: s1 sample_boot_def sample_pmm_def pmm_state.defs)
  with km obtain s where "init_kheap sample_boot = Inr s" "kheap_start s = 0xffff800000101000"
    "pools s 0xffff800000101000 = create_pool 8192 26 0 True"
    by (simp add: init_kheap_def Let_def sizeof_Pool_def)
  then show ?thesis using init_kheap_effect[OF sample_boot_wf] by auto
qed

lemma sample_heap_pages:
  "\<exists>s :: kheap_state. heap_inv s \<and> live s = Map.empty \<and> kheap_start s = 0xffff800000101000 \<and>
     pools s 0xffff800000101000 = create_pool 8192 26 0 True \<and> memmap s = sample_memmap \<and> hhdm s = 0xffff800000000000 \<and>
     run_free s (sample_memmap ! 1) 2 30"
proof -
  obtain s where s: "init_kheap sample_boot = Inr s" "heap_inv s" "live s = Map.empty" "kheap_start s = 0xffff800000101000"
    "pools s 0xffff800000101000 = create_pool 8192 26 0 True" using sample_heap by blast
  obtain a s1 where km: "kmalloc 2 sample_boot = Inr (a, s1)" and s1: "mem s = mem s1" "hhdm s = hhdm s1" "memmap s = memmap s1"
    "kheap_start s = a + hhdm s1"
    using s(1) unfolding init_kheap_def by (auto simp: result_simps Let_def)
  obtain m t where f: "s1 = sample_boot\<lparr>mem := m, total_memory_allocated := t\<rparr>"
    using kmalloc_frame[OF sample_boot_wf(1) km] by blast
  have b: "memmap sample_boot = sample_memmap" "hhdm sample_boot = 0xffff800000000000" "mem sample_boot = (\<lambda>_. 0)"
    by (simp_all add: sample_boot_def sample_pmm_def pmm_state.defs)
  have a: "a = 0x101000" using s(4) s1(4) by (simp add: f b)
  let ?e = "sample_memmap ! 1"
  have e: "?e \<in> set sample_memmap" "usable ?e" "section_pages ?e = 32"
    by (simp_all add: sample_memmap_def usable_def LIMINE_MEMMAP_USABLE_def section_pages_def)
  obtain i p g where g: "i < length (memmap sample_boot)" "g = memmap sample_boot ! i" "usable g" "run_free sample_boot g p (unat (2 :: u64))"
      "a = me_base g + (of_nat p * 4096 + 4096)"
    and used: "\<And>f q. f \<in> set (memmap sample_boot) \<Longrightarrow> usable f \<Longrightarrow> q < section_pages f \<Longrightarrow>
       page_used s1 f q \<longleftrightarrow> page_used sample_boot f q \<or> (f = g \<and> p \<le> q \<and> q < p + unat (2 :: u64))"
    by (rule kmalloc_effect[OF sample_boot_wf(1) km]) (rule that, assumption+)
  have ge: "g = ?e" using g(1-3) by (cases i) (auto simp: b sample_memmap_def usable_def LIMINE_MEMMAP_USABLE_def less_Suc_eq)
  have "p < 32" using g(4) e(3) by (simp add: run_free_def ge)
  then have "p = 0"
    using g(5) a by (simp add: ge sample_memmap_def u64_eq_iff unat_word_ariths unat_of_nat_u64)
  then have "\<not> page_used s1 ?e q" if "2 \<le> q" "q < 32" for q
    using used[of ?e q] e that by (simp add: b page_used_def)
  moreover have "page_used s ?e q = page_used s1 ?e q" for q by (simp add: page_used_def s1)
  ultimately have "run_free s ?e 2 30" unfolding run_free_def e(3) by auto
  then show ?thesis using s s1 by (auto simp: f b)
qed

text \<open>A heap whose last pool has been grown to twenty-five pages and freed again.\<close>

lemma large_heap:
  "\<exists>s :: kheap_state. heap_inv s \<and> live s = Map.empty \<and> roomy 100000 s \<and> memmap s = sample_memmap \<and> hhdm s = 0xffff800000000000"
proof -
  let ?p = "0xffff800000101000 :: u64"
  obtain s :: kheap_state where s: "heap_inv s" "live s = Map.empty" "kheap_start s = ?p"
    "pools s ?p = create_pool 8192 26 0 True" and mm: "memmap s = sample_memmap" "hhdm s = 0xffff800000000000"
    and r: "run_free s (sample_memmap ! 1) 2 30" using sample_heap_pages by blast
  have wf: "pmm_wf s" using s(1) by (auto simp: heap_inv_def heap_chain_def)
  have e: "sample_memmap ! 1 \<in> set (memmap s)" "usable (sample_memmap ! 1)"
    by (simp_all add: mm sample_memmap_def usable_def LIMINE_MEMMAP_USABLE_def)
  have r25: "run_free s (sample_memmap ! 1) 2 (unat (25 :: u64))" using r by (auto simp: run_free_def)
  obtain a s1 where km: "kmalloc 25 s = Inr (a, s1)"
    using kmalloc_cases[OF wf, of 25] e r25 by (cases "kmalloc 25 s") auto
  obtain ps where ps: "heap_chain s ps" using s(1) by (auto simp: heap_inv_def)
  have "chain (next_of (pools s)) ?p [?p]" using s(4) by (simp add: create_pool_def)
  then have one: "ps = [?p]" using chain_unique heap_chainD(4)[OF ps] unfolding s(3) by blast
  have h: "heap_chain s ([] @ [?p])" using ps one by simp
  have n: "unat (100000 :: u64) < 2 ^ 62" by simp
  have fit: "\<not> fits_free s ?p 100000" "\<not> fits_tail s ?p 100000" by (simp_all add: s(4) create_pool_def)
  have np: "PAGE_ALIGN_UP (100000 + sizeof_Pool) = 102400" by (simp add: PAGE_ALIGN_UP_def sizeof_Pool_def)
  define q where "q = a + hhdm s1"
  define s2 where "s2 = s1\<lparr>pools := (pools s1)(?p := (pools s1 ?p)\<lparr>next_pool := q\<rparr>,
        q := create_pool 102400 (100000 + sizeof_Pool) 0 False)\<rparr>"
  have km': "kmalloc (102400 div 4096) s = Inr (a, s1)" using km by simp
  note G = heap_chain_grow[OF h n np[symmetric] km' q_def s2_def]
  have m: "malloc 100000 s = Inr (q + 26, s2)"
    using malloc_loop_round(5)[of s "[]" ?p "[]" 100000 walk_fuel, OF _ n _ fit] h km
    by (simp add: malloc_def s(3) walk_fuel_def np Let_def q_def s2_def)
  have l2: "live s2 = [q + 26 \<mapsto> 100000]" "heap_inv s2" using kheap.alloc_ok[OF s(1) n m] s(2) by simp_all
  have l2q: "live s2 (q + 26) = Some 100000" by (simp add: l2)
  obtain s3 where f: "kfree (q + 26) s2 = Inr s3" "heap_inv s3" "live s3 = (live s2)(q + 26 := None)" "\<exists>st. s3 = s2\<lparr>pools := st\<rparr>"
    using kfree_effect[OF l2(2) l2q] by blast
  have P: "pools s2 q = create_pool 102400 (100000 + sizeof_Pool) 0 False" by (simp add: s2_def)
  let ?P = "(pools s2 q)\<lparr>pool_free := True, required_size := sizeof_Pool\<rparr>"
  have s3: "s3 = s2\<lparr>pools := (pools s2)(q := ?P)\<rparr>"
    using f(1) by (simp add: kfree_def P create_pool_def sizeof_Pool_def Let_def)
  have ok: "pool_ok (pools s2) q" by (rule heap_chainD(5)[OF G(1)]) simp
  have "heap_chain s3 ([] @ [?p, q])" unfolding s3
    using ok by (intro heap_chain_block_upd[OF G(1)]) (auto simp: pool_ok_def sizeof_Pool_def)
  moreover have "heap_room s3 q = 102373" by (simp add: s3 heap_room_def P create_pool_def sizeof_Pool_def)
  ultimately have "roomy 100000 s3" unfolding roomy_def by (intro exI[of _ "[?p, q]"]) simp
  moreover have "live s3 = Map.empty" using f(3) l2(1) by simp
  moreover have "memmap s3 = memmap s" "hhdm s3 = hhdm s" 
    by (rule malloc_frame[OF s(1) n m]; use f(4) in auto)+
  ultimately show ?thesis using f(2) mm by auto
qed

lemma sample_malloc:
  assumes "kheap_start s = 0xffff800000101000" "pools s 0xffff800000101000 = create_pool 8192 26 0 True"
    "n < 8000"
  shows "\<exists>s'. malloc n s = Inr (0xffff80000010101a, s')"
proof -
  have "unat n < 8000" using assms(3) by (simp add: word_less_nat_alt)
  then have "n + 26 < 8191" by (simp add: word_less_nat_alt unat_add_u64)
  then show ?thesis
    using assms(1,2)
    by (simp add: malloc_def malloc_loop.simps walk_fuel_def create_pool_def sizeof_Pool_def Let_def)
qed

section \<open>Properties\<close>

text \<open>C4. \<open>malloc\<close> is right when it returns: the block it returns was not live, it is recorded with the
  requested size, every other live block is as before, the block overlaps no other live block and
  all of it lies in pages the page allocator handed out; the heap invariant is kept.\<close>

theorem malloc_correct:
  assumes "heap_inv s" and "unat n < 2 ^ 62" and "malloc n s = Inr (a, s')"
  shows "heap_inv s' \<and> live s a = None \<and> live s' = (live s)(a \<mapsto> unat n) \<and>
     (\<forall>b k. live s b = Some k \<longrightarrow> heap_block a (unat n) \<inter> heap_block b k = {}) \<and>
     (\<forall>x \<in> heap_block a (unat n). x - hhdm s' \<in> owned_bytes s')"
proof -
  have ok: "heap_inv s'" "live s a = None" "live s' = (live s)(a \<mapsto> unat n)"
    using kheap.alloc_ok[OF assms] by blast+
  have "heap_block a (unat n) \<inter> heap_block b k = {}" if "live s b = Some k" for b k
    using that ok by (intro kheap.disjoint[OF ok(1)]) (auto)
  moreover have "x - hhdm s' \<in> owned_bytes s'" if "x \<in> heap_block a (unat n)" for x
    using live_block_owned[OF ok(1) _ that] ok(3) by simp
  ultimately show ?thesis using ok by blast
qed

theorem malloc_correct_witness:
  "\<exists>(s :: kheap_state) s'. heap_inv s \<and> malloc 100 s = Inr (0xffff80000010101a, s') \<and>
     live s' 0xffff80000010101a = Some 100"
proof -
  obtain s :: kheap_state where s: "heap_inv s" "kheap_start s = 0xffff800000101000"
    "pools s 0xffff800000101000 = create_pool 8192 26 0 True" using sample_heap by blast
  obtain s' where m: "malloc 100 s = Inr (0xffff80000010101a, s')"
    using sample_malloc[OF s(2,3), of 100] by auto
  have "live s' 0xffff80000010101a = Some 100"
    using malloc_correct[OF s(1) _ m] by simp
  with s m show ?thesis by blast
qed

text \<open>C6. The walk of \<open>malloc\<close> always ends, and never through a null pointer: it returns a block, or the
  machine is halted because the page allocator has no run of pages for a new pool.\<close>

theorem malloc_ends:
  assumes "heap_inv s" and "unat n < 2 ^ 62"
  shows "(\<exists>a s'. malloc n s = Inr (a, s')) \<or>
     (malloc n s = Inl Halted \<and> kmalloc (PAGE_ALIGN_UP (n + sizeof_Pool) div 4096) s = Inl Halted)"
  using malloc_effect[OF assms] by (auto split: sum.splits simp: sizeof_Pool_def)

theorem malloc_ends_witness:
  "\<exists>s :: kheap_state. heap_inv s \<and> live s = Map.empty \<and> ((\<exists>a s'. malloc 5000 s = Inr (a, s')) \<or> malloc 5000 s = Inl Halted)"
proof -
  obtain s :: kheap_state where s: "heap_inv s" "live s = Map.empty" using sample_heap by blast
  then show ?thesis using malloc_ends[of s 5000] by auto
qed

text \<open>C7. \<open>free\<close> of a live block succeeds, makes that block and no other dead and keeps the heap
  invariant; nothing but pool headers changes.\<close>

theorem kfree_correct:
  assumes "heap_inv s" and "live s a = Some n"
  shows "\<exists>s' st. kfree a s = Inr s' \<and> heap_inv s' \<and> live s' = (live s)(a := None) \<and> s' = s\<lparr>pools := st\<rparr>"
  using kfree_effect[OF assms] by blast

theorem kfree_correct_witness:
  "\<exists>(s :: kheap_state) s'. live s 0xffff80000010101a = Some 100 \<and> kfree 0xffff80000010101a s = Inr s' \<and>
     live s' 0xffff80000010101a = None"
proof -
  obtain s :: kheap_state where s: "heap_inv s" "kheap_start s = 0xffff800000101000"
    "pools s 0xffff800000101000 = create_pool 8192 26 0 True" using sample_heap by blast
  obtain s1 where m: "malloc 100 s = Inr (0xffff80000010101a, s1)"
    using sample_malloc[OF s(2,3), of 100] by auto
  have l: "heap_inv s1" "live s1 0xffff80000010101a = Some 100"
    using kheap.alloc_ok[OF s(1) _ m] by simp_all
  show ?thesis using kfree_correct[OF l] l(2) by (metis fun_upd_same)
qed

text \<open>C5. After \<open>init_kheap\<close>, however \<open>malloc\<close> and \<open>free\<close> of live blocks are interleaved, any two live
  blocks are disjoint.\<close>

theorem heap_never_overlaps:
  assumes "pmm_wf s0" and "hhdm_ok s0" and "init_kheap s0 = Inr s"
    and "(client_step malloc kfree live)\<^sup>*\<^sup>* s s'"
    and "live s' a = Some m" and "live s' b = Some n" and "a \<noteq> b"
  shows "heap_block a m \<inter> heap_block b n = {}"
proof -
  have "heap_inv s" using init_kheap_effect[OF assms(1,2)] assms(3) by simp
  then show ?thesis using kheap.steps_disjoint assms by blast
qed

theorem heap_never_overlaps_witness:
  "\<exists>(s :: kheap_state) a b. live s a = Some 100 \<and> live s b = Some 200 \<and>
     heap_block a 100 \<inter> heap_block b 200 = {}"
proof -
  obtain s where s: "init_kheap sample_boot = Inr s" "heap_inv s" "kheap_start s = 0xffff800000101000"
    "pools s 0xffff800000101000 = create_pool 8192 26 0 True" using sample_heap by blast
  obtain s1 where m: "malloc 100 s = Inr (0xffff80000010101a, s1)"
    using sample_malloc[OF s(3,4), of 100] by auto
  then have "kheap_start s1 = 0xffff800000101000 \<and>
      pools s1 0xffff800000101000 = (create_pool 8192 126 0 False)"
    using s(3,4) by (auto simp: malloc_def malloc_loop.simps walk_fuel_def create_pool_def
        sizeof_Pool_def Let_def)
  then obtain s2 where m2: "malloc 200 s1 = Inr (0xffff800000101099, s2)"
    by (simp add: malloc_def malloc_loop.simps walk_fuel_def create_pool_def split_pool_def
        sizeof_Pool_def Let_def)
  have inv: "heap_inv s1" and l1: "live s1 = (live s)(0xffff80000010101a \<mapsto> 100)"
    using kheap.alloc_ok[OF s(2) _ m] by simp_all
  have l: "live s2 0xffff80000010101a = Some 100" "live s2 0xffff800000101099 = Some 200"
    using kheap.alloc_ok[OF inv _ m2] l1 by simp_all
  have "client_step malloc kfree live s s1" "client_step malloc kfree live s1 s2"
    using client_step.take[of 100 malloc s, OF _ m] client_step.take[of 200 malloc s1, OF _ m2] by simp_all
  then have "(client_step malloc kfree live)\<^sup>*\<^sup>* s s2" by simp
  from heap_never_overlaps[OF sample_boot_wf s(1) this l] have
    "heap_block 0xffff80000010101a 100 \<inter> heap_block 0xffff800000101099 200 = {}" by simp
  with l show ?thesis by blast
qed

text \<open>A block has one byte of slack behind it, unless header and block fill whole pages: the byte
  at \<open>a + n\<close> belongs to no other live block and to no pool header. (The path code of the VFS writes a
  terminator there.)\<close>

theorem malloc_slack:
  assumes "heap_inv s" and "unat n < 2 ^ 62" and "malloc n s = Inr (a, s')"
    and "(unat n + 26) mod 4096 \<noteq> 0"
  shows "unat (a + n) = unat a + unat n \<and>
     (\<forall>b k. b \<noteq> a \<and> live s' b = Some k \<longrightarrow> a + n \<notin> heap_block (b - 26) (k + 26))"
proof -
  have d: "malloc_done s n a s'" by (rule malloc_Inr[OF assms(1-3)])
  then obtain ps where h: "heap_chain s' ps" "a - 26 \<in> set ps" and l: "live s' a = Some (unat n)"
    and sl: "unat n + 26 \<le> unat (pool_size (pools s' (a - 26)))"
    using assms(4) unfolding malloc_done_def by auto
  note A = live_block[OF h(1) l]
  have u: "unat (a + n) = unat a + unat n" using A(4) by (simp add: unat_add_u64)
  have ina: "a + n \<in> region (pools s') (a - 26)" using u A(2) sl by (simp add: region_def)
  have "a + n \<notin> heap_block (b - 26) (k + 26)" if b: "b \<noteq> a" "live s' b = Some k" for b k
  proof -
    note B = live_block[OF h(1) b(2)]
    have rq: "k = unat (required_size (pools s' (b - 26))) - 26"
      using b(2) unfolding live_eq[OF h(1)] by (auto split: if_splits)
    have "heap_block (b - 26) (k + 26) \<subseteq> region (pools s') (b - 26)"
      using heap_chainD(5)[OF h(1) B(1)] unfolding heap_block_def region_def pool_ok_def rq by auto
    moreover have "region (pools s') (a - 26) \<inter> region (pools s') (b - 26) = {}"
      using b(1) by (intro heap_chainD(6)[OF h(1) A(1) B(1)]) simp
    ultimately show ?thesis using ina by blast
  qed
  with u show ?thesis by blast
qed

theorem malloc_slack_witness:
  "\<exists>(s :: kheap_state) s'. malloc 100 s = Inr (0xffff80000010101a, s') \<and>
     unat ((0xffff80000010101a :: u64) + 100) = unat (0xffff80000010101a :: u64) + 100"
proof -
  obtain s :: kheap_state where s: "heap_inv s" "kheap_start s = 0xffff800000101000"
    "pools s 0xffff800000101000 = create_pool 8192 26 0 True" using sample_heap by blast
  obtain s' where m: "malloc 100 s = Inr (0xffff80000010101a, s')"
    using sample_malloc[OF s(2,3), of 100] by auto
  then show ?thesis using malloc_slack[OF s(1) _ m] by auto
qed

end
