(* ===== verification/KVector.thy ===== *)
theory KVector
  imports Kheap
begin

text \<open>
  The kernel's vectors (\<open>src/src/mem/vector.c\<close>): a header and a singly linked list of nodes, all on
  the kernel heap. \<open>vec_rep\<close> relates a vector to the list of its elements; the operations are shown
  to act on that list.
\<close>

section \<open>State\<close>

record VectorNode =
  vn_index :: u64
  next_node :: u64
  data_addr :: u64

record Vector =
  data_size :: u64
  vec_length :: u64
  first_node :: u64

record vec_state = kheap_state +
  vecs :: "u64 \<Rightarrow> Vector"
  vnodes :: "u64 \<Rightarrow> VectorNode"

definition sizeof_Vector :: u64 where
  "sizeof_Vector = 24"

definition sizeof_VectorNode :: u64 where
  "sizeof_VectorNode = 24"

text \<open>Reading through a pointer.\<close>

definition get_vec :: "u64 \<Rightarrow> 'a vec_state_scheme \<Rightarrow> Vector result" where
  "get_vec v s = (if v = 0 then Inl NullDeref else Inr (vecs s v))"

definition get_node :: "u64 \<Rightarrow> 'a vec_state_scheme \<Rightarrow> VectorNode result" where
  "get_node p s = (if p = 0 then Inl NullDeref else Inr (vnodes s p))"

section \<open>Operations\<close>

definition new_vector :: "u64 \<Rightarrow> 'a vec_state_scheme \<Rightarrow> (u64 \<times> 'a vec_state_scheme) result" where
  "new_vector element_size s =
     res_bind (malloc sizeof_Vector s) (\<lambda>(vec, s).
       Inr (vec, s\<lparr>vecs := (vecs s)(vec :=
          \<lparr>data_size = element_size, vec_length = 0, first_node = 0\<rparr>)\<rparr>))"

text \<open>The \<open>while (true)\<close> walk of \<open>vector_push\<close> to the last node.\<close>

fun last_node :: "nat \<Rightarrow> u64 \<Rightarrow> 'a vec_state_scheme \<Rightarrow> u64 result" where
  "last_node fuel this_node s =
     (if fuel = 0 then Inl Diverged
      else res_bind (get_node this_node s) (\<lambda>n.
        if next_node n \<noteq> 0 then last_node (fuel - 1) (next_node n) s else Inr this_node))"

declare last_node.simps [simp del]

definition vector_push :: "u64 \<Rightarrow> u64 \<Rightarrow> 'a vec_state_scheme \<Rightarrow> 'a vec_state_scheme result" where
  "vector_push vec val_addr s =
     res_bind (get_vec vec s) (\<lambda>v.
     if first_node v = 0 then
       res_bind (malloc sizeof_VectorNode s) (\<lambda>(a, s).
         Inr (s\<lparr>vnodes := (vnodes s)(a := \<lparr>vn_index = 0, next_node = 0, data_addr = val_addr\<rparr>),
                vecs := (vecs s)(vec := v\<lparr>first_node := a, vec_length := vec_length v + 1\<rparr>)\<rparr>))
     else
       res_bind (last_node walk_fuel (first_node v) s) (\<lambda>this_node.
       res_bind (malloc sizeof_VectorNode s) (\<lambda>(a, s).
         let st = (vnodes s)(this_node := (vnodes s this_node)\<lparr>next_node := a\<rparr>);
             st = st(a := \<lparr>vn_index = vn_index (st this_node), next_node = 0, data_addr = val_addr\<rparr>)
         in Inr (s\<lparr>vnodes := st,
                   vecs := (vecs s)(vec := v\<lparr>vec_length := vec_length v + 1\<rparr>)\<rparr>))))"

text \<open>The \<open>for\<close> loops that step \<open>idx\<close> times along the list.\<close>

fun walk_nodes :: "nat \<Rightarrow> u64 \<Rightarrow> 'a vec_state_scheme \<Rightarrow> u64 result" where
  "walk_nodes 0 this_node s = Inr this_node"
| "walk_nodes (Suc k) this_node s =
     res_bind (get_node this_node s) (\<lambda>n. walk_nodes k (next_node n) s)"

definition vector_set :: "u64 \<Rightarrow> u64 \<Rightarrow> u64 \<Rightarrow> 'a vec_state_scheme \<Rightarrow> 'a vec_state_scheme result" where
  "vector_set vec idx val s =
     res_bind (get_vec vec s) (\<lambda>v.
     if vec_length v \<le> idx then Inr s
     else
       res_bind (walk_nodes (unat idx) (first_node v) s) (\<lambda>this_node.
       res_bind (get_node this_node s) (\<lambda>n.
         Inr (s\<lparr>vnodes := (vnodes s)(this_node := n\<lparr>data_addr := val\<rparr>)\<rparr>))))"

definition vector_at :: "u64 \<Rightarrow> u64 \<Rightarrow> 'a vec_state_scheme \<Rightarrow> u64 result" where
  "vector_at vec idx s =
     res_bind (get_vec vec s) (\<lambda>v.
     if vec_length v \<le> idx then Inr 0
     else
       res_bind (walk_nodes (unat idx) (first_node v) s) (\<lambda>this_node.
       res_bind (get_node this_node s) (\<lambda>n. Inr (data_addr n))))"

definition vector_pop :: "u64 \<Rightarrow> u64 \<Rightarrow> 'a vec_state_scheme \<Rightarrow> 'a vec_state_scheme result" where
  "vector_pop vec idx s =
     res_bind (get_vec vec s) (\<lambda>v.
     if vec_length v = 0 then Inr s
     else if idx = 0 then
       res_bind (get_node (first_node v) s) (\<lambda>n.
         Inr (s\<lparr>vecs := (vecs s)(vec := v\<lparr>first_node := next_node n, vec_length := vec_length v - 1\<rparr>)\<rparr>))
     else
       res_bind (walk_nodes (unat idx) (first_node v) s) (\<lambda>this_node.
       res_bind (get_node this_node s) (\<lambda>n.
       res_bind (get_node (next_node n) s) (\<lambda>nn.
         Inr (s\<lparr>vnodes := (vnodes s)(this_node := n\<lparr>next_node := next_node nn\<rparr>),
                vecs := (vecs s)(vec := v\<lparr>vec_length := vec_length v - 1\<rparr>)\<rparr>)))))"

section \<open>A vector as a list\<close>

abbreviation node_next :: "'a vec_state_scheme \<Rightarrow> u64 \<Rightarrow> u64" where
  "node_next s \<equiv> (\<lambda>p. next_node (vnodes s p))"

definition vec_rep :: "'a vec_state_scheme \<Rightarrow> u64 \<Rightarrow> u64 list \<Rightarrow> u64 list \<Rightarrow> bool" where
  "vec_rep s v ns xs \<longleftrightarrow>
     v \<noteq> 0 \<and> chain (node_next s) (first_node (vecs s v)) ns \<and>
     (\<forall>n \<in> set ns. live s n = Some 24) \<and> live s v = Some 24 \<and>
     vec_length (vecs s v) = of_nat (length ns) \<and>
     xs = map (\<lambda>n. data_addr (vnodes s n)) ns"

lemma vec_repD:
  assumes "vec_rep s v ns xs"
  shows "v \<noteq> 0" "chain (node_next s) (first_node (vecs s v)) ns"
    "\<And>n. n \<in> set ns \<Longrightarrow> live s n = Some 24" "live s v = Some 24"
    "vec_length (vecs s v) = of_nat (length xs)" "length ns = length xs"
    "xs = map (\<lambda>n. data_addr (vnodes s n)) ns" "length xs < 2 ^ 64"
    "unat (vec_length (vecs s v)) = length xs"
    "first_node (vecs s v) = 0 \<longleftrightarrow> xs = []"
proof -
  show r: "v \<noteq> 0" "chain (node_next s) (first_node (vecs s v)) ns"
    "\<And>n. n \<in> set ns \<Longrightarrow> live s n = Some 24" "live s v = Some 24"
    "vec_length (vecs s v) = of_nat (length xs)" "length ns = length xs"
    "xs = map (\<lambda>n. data_addr (vnodes s n)) ns"
    using assms by (auto simp: vec_rep_def)
  show "length xs < 2 ^ 64" using chain_length_less[OF r(2)] r(6) by simp
  then show "unat (vec_length (vecs s v)) = length xs" using r(5) by (simp add: unat_of_nat_u64)
  show "first_node (vecs s v) = 0 \<longleftrightarrow> xs = []"
    using r(2,6) by (cases ns) auto
qed

lemma live_frames [frame_simps]:
  "live (s\<lparr>vecs := x\<rparr>) = live s" "live (s\<lparr>vnodes := y\<rparr>) = live s"
  "heap_inv (s\<lparr>vecs := x\<rparr>) = heap_inv s" "heap_inv (s\<lparr>vnodes := y\<rparr>) = heap_inv s"
  "roomy k (s\<lparr>vecs := x\<rparr>) = roomy k s" "roomy k (s\<lparr>vnodes := y\<rparr>) = roomy k s"
  by (rule heap_cong, simp add: kheap_state.defs)+

lemma last_node_chain:
  "chain (node_next s) p (ns @ [b]) \<Longrightarrow> length ns < fuel \<Longrightarrow> last_node fuel p s = Inr b"
proof (induction ns arbitrary: p fuel)
  case Nil
  then show ?case by (subst last_node.simps) (auto simp: get_node_def)
next
  case (Cons a ns)
  have "node_next s a \<noteq> 0" using Cons.prems(1) by (cases ns) auto
  then show ?case using Cons by (subst last_node.simps) (auto simp: get_node_def)
qed

lemma walk_nodes_chain:
  "chain (node_next s) p ns \<Longrightarrow> k < length ns \<Longrightarrow> walk_nodes k p s = Inr (ns ! k)"
proof (induction k arbitrary: p ns)
  case (Suc k)
  then show ?case by (cases ns) (auto simp: get_node_def)
next
  case 0
  then show ?case by (cases ns) auto
qed

lemma walk_nodes_past:
  "chain (node_next s) p ns \<Longrightarrow> length ns \<le> k \<Longrightarrow>
     walk_nodes k p s = (if k = length ns then Inr 0 else Inl NullDeref)"
proof (induction k arbitrary: p ns)
  case (Suc k)
  then show ?case by (cases ns) (auto simp: get_node_def)
qed auto

text \<open>The effect of a node or header allocation: a fresh block, the vectors untouched.\<close>

lemma malloc_vec_frame:
  assumes "heap_inv s" "unat n < 2 ^ 62" "malloc n s = Inr (a, s')"
  shows "vecs s' = vecs s" "vnodes s' = vnodes s" "heap_inv s'" "live s a = None"
    "live s' = (live s)(a \<mapsto> unat n)" "a \<noteq> 0"
proof -
  obtain m t st where "s' = s\<lparr>mem := m, total_memory_allocated := t, pools := st\<rparr>"
    by (rule malloc_frame[OF assms])
  then show "vecs s' = vecs s" "vnodes s' = vnodes s" by simp_all
  show h: "heap_inv s'" and "live s a = None" and l: "live s' = (live s)(a \<mapsto> unat n)"
    using kheap.alloc_ok[OF assms] by blast+
  then show "a \<noteq> 0" using live_nonnull[OF h, of a] by simp
qed

lemma vec_rep_cong:
  assumes "vec_rep s v ns xs" "vecs s' v = vecs s v" "\<And>n. n \<in> set ns \<Longrightarrow> vnodes s' n = vnodes s n"
    "\<And>n. n \<in> insert v (set ns) \<Longrightarrow> live s' n = live s n"
  shows "vec_rep s' v ns xs"
  using assms(1) assms(2-4) chain_cong[of ns "node_next s'" "node_next s" "first_node (vecs s v)"]
  by (auto simp: vec_rep_def)

text \<open>A push appends; a vector that shares no node with this one is untouched.\<close>

lemma vector_push_rep:
  assumes inv: "heap_inv s" and r: "vec_rep s v ns xs"
  shows "vector_push v x s = Inl Halted \<or>
    (\<exists>s' a. vector_push v x s = Inr s' \<and> heap_inv s' \<and> vec_rep s' v (ns @ [a]) (xs @ [x]) \<and>
       live s a = None \<and> live s' = (live s)(a \<mapsto> 24) \<and>
       (\<forall>w. w \<noteq> v \<longrightarrow> vecs s' w = vecs s w) \<and>
       (\<forall>n. n \<notin> insert a (set ns) \<longrightarrow> vnodes s' n = vnodes s n))"
proof (cases "malloc sizeof_VectorNode s")
  case (Inl e)
  then have e: "e = Halted" using kheap.alloc_error[OF inv _ Inl] by (simp add: sizeof_VectorNode_def)
  have "vector_push v x s = Inl Halted"
  proof (cases "ns = []")
    case True
    then show ?thesis using r Inl e by (simp add: vector_push_def get_vec_def vec_rep_def)
  next
    case False
    then obtain ms b where ns: "ns = ms @ [b]" by (metis rev_exhaust)
    have "length ms < walk_fuel"
      using chain_length_less[OF vec_repD(2)[OF r]] ns by (simp add: walk_fuel_def)
    then have "last_node walk_fuel (first_node (vecs s v)) s = Inr b"
      using vec_repD(2)[OF r] ns last_node_chain by blast
    then show ?thesis
      using r Inl e False vec_repD(1,6,10)[OF r] by (auto simp: vector_push_def get_vec_def)
  qed
  then show ?thesis ..
next
  case (Inr q)
  obtain a s1 where m: "malloc sizeof_VectorNode s = Inr (a, s1)" using Inr by (cases q) auto
  have "unat sizeof_VectorNode < 2 ^ 62" by (simp add: sizeof_VectorNode_def)
  note M = malloc_vec_frame[OF inv this m]
  have l1: "live s1 = (live s)(a \<mapsto> 24)" using M(5) by (simp add: sizeof_VectorNode_def)
  have an: "a \<notin> insert v (set ns)" using M(4) vec_repD(3,4)[OF r] by auto
  have len: "vec_length (vecs s v) + 1 = of_nat (Suc (length ns))"
    using vec_repD(5,6)[OF r] by simp
  show ?thesis
  proof (cases "ns = []")
    case True
    let ?s = "s1\<lparr>vnodes := (vnodes s)(a := \<lparr>vn_index = 0, next_node = 0, data_addr = x\<rparr>),
      vecs := (vecs s)(v := (vecs s v)\<lparr>first_node := a, vec_length := vec_length (vecs s v) + 1\<rparr>)\<rparr>"
    have "vector_push v x s = Inr ?s"
      using True r m M by (simp add: vector_push_def get_vec_def vec_rep_def)
    moreover have "vec_rep ?s v (ns @ [a]) (xs @ [x])"
      using True r M(6) l1 an len by (simp add: vec_rep_def frame_simps)
    ultimately show ?thesis using M l1 by (auto simp: frame_simps)
  next
    case False
    then obtain ms b where ns: "ns = ms @ [b]" by (metis rev_exhaust)
    have "length ms < walk_fuel"
      using chain_length_less[OF vec_repD(2)[OF r]] ns by (simp add: walk_fuel_def)
    then have b: "last_node walk_fuel (first_node (vecs s v)) s = Inr b"
      using vec_repD(2)[OF r] ns last_node_chain by blast
    have ab: "a \<noteq> b" using an ns by auto
    let ?st = "(vnodes s)(b := (vnodes s b)\<lparr>next_node := a\<rparr>,
        a := \<lparr>vn_index = vn_index (vnodes s b), next_node = 0, data_addr = x\<rparr>)"
    let ?s = "s1\<lparr>vnodes := ?st,
      vecs := (vecs s)(v := (vecs s v)\<lparr>vec_length := vec_length (vecs s v) + 1\<rparr>)\<rparr>"
    have p: "vector_push v x s = Inr ?s"
      using False vec_repD(1,6,10)[OF r] m M b ab by (auto simp: vector_push_def get_vec_def Let_def)
    have n0: "node_next s b = 0" using chain_next[of "node_next s" _ ms b "[]"] vec_repD(2)[OF r] ns by simp
    have "chain ((node_next s)(b := a, a := node_next s b)) (first_node (vecs s v)) (ms @ b # a # [])"
      using vec_repD(2)[OF r] ns M(6) an by (intro chain_insert_after) auto
    moreover have "node_next ?s = (node_next s)(b := a, a := node_next s b)"
      using ab n0 by auto
    ultimately have "chain (node_next ?s) (first_node (vecs s v)) (ns @ [a])" using ns by simp
    moreover have "map (\<lambda>n. data_addr (?st n)) ns = xs"
      using vec_repD(7)[OF r] an by auto
    ultimately have "vec_rep ?s v (ns @ [a]) (xs @ [x])"
      using r l1 an len by (simp add: vec_rep_def frame_simps del: fun_upd_apply) (auto)
    then show ?thesis using p M l1 ns by (auto simp: frame_simps)
  qed
qed

lemma chain_nth: "chain nxt p ps \<Longrightarrow> k < length ps \<Longrightarrow> ps ! k \<noteq> 0"
  using chain_0[of nxt p ps] nth_mem[of k ps] by force

lemma vector_at_rep:
  assumes r: "vec_rep s v ns xs"
  shows "vector_at v i s = Inr (if unat i < length xs then xs ! unat i else 0)"
proof (cases "unat i < length xs")
  case True
  then have "walk_nodes (unat i) (first_node (vecs s v)) s = Inr (ns ! unat i)"
    using vec_repD(6)[OF r] by (intro walk_nodes_chain[OF vec_repD(2)[OF r]]) simp
  moreover have "ns ! unat i \<noteq> 0"
    using chain_nth[OF vec_repD(2)[OF r]] True vec_repD(6)[OF r] by simp
  moreover have "\<not> vec_length (vecs s v) \<le> i" using True vec_repD(9)[OF r] by (simp add: word_le_nat_alt)
  moreover have "xs ! unat i = data_addr (vnodes s (ns ! unat i))"
  proof -
    have "unat i < length ns" using True vec_repD(6)[OF r] by simp
    then show ?thesis using vec_repD(7)[OF r] by simp
  qed
  ultimately show ?thesis
    using True vec_repD(1)[OF r] by (simp add: vector_at_def get_vec_def get_node_def)
next
  case False
  then have "vec_length (vecs s v) \<le> i" using vec_repD(9)[OF r] by (simp add: word_le_nat_alt)
  then show ?thesis using False vec_repD(1)[OF r] by (simp add: vector_at_def get_vec_def)
qed

lemma vector_set_rep:
  assumes r: "vec_rep s v ns xs"
  shows "\<exists>s' st. vector_set v i x s = Inr s' \<and> s' = s\<lparr>vnodes := st\<rparr> \<and>
    vec_rep s' v ns (if unat i < length xs then xs[unat i := x] else xs) \<and>
    (\<forall>n. n \<notin> set ns \<longrightarrow> st n = vnodes s n)"
proof (cases "unat i < length xs")
  case True
  let ?b = "ns ! unat i"
  have il: "unat i < length ns" using True vec_repD(6)[OF r] by simp
  have w: "walk_nodes (unat i) (first_node (vecs s v)) s = Inr ?b"
    using vec_repD(2)[OF r] il by (rule walk_nodes_chain)
  have b: "?b \<in> set ns" "?b \<noteq> 0" using il chain_nth[OF vec_repD(2)[OF r]] by simp_all
  let ?st = "(vnodes s)(?b := (vnodes s ?b)\<lparr>data_addr := x\<rparr>)"
  have "\<not> vec_length (vecs s v) \<le> i" using True vec_repD(9)[OF r] by (simp add: word_le_nat_alt)
  then have s': "vector_set v i x s = Inr (s\<lparr>vnodes := ?st\<rparr>)"
    using w b vec_repD(1)[OF r] by (simp add: vector_set_def get_vec_def get_node_def)
  have nn: "node_next (s\<lparr>vnodes := ?st\<rparr>) = node_next s" by auto
  have "xs[unat i := x] = map (\<lambda>n. data_addr (?st n)) ns"
    using il vec_repD(7)[OF r] chain_distinct[OF vec_repD(2)[OF r]]
    by (auto simp: list_eq_iff_nth_eq nth_list_update nth_eq_iff_index_eq)
  then have "vec_rep (s\<lparr>vnodes := ?st\<rparr>) v ns (xs[unat i := x])"
    using r unfolding vec_rep_def nn by (simp add: frame_simps del: fun_upd_apply)
  moreover have "\<forall>n. n \<notin> set ns \<longrightarrow> ?st n = vnodes s n" using b(1) by auto
  ultimately show ?thesis using s' True by auto
next
  case False
  then have "vec_length (vecs s v) \<le> i" using vec_repD(9)[OF r] by (simp add: word_le_nat_alt)
  then have "vector_set v i x s = Inr (s\<lparr>vnodes := vnodes s\<rparr>)"
    using vec_repD(1)[OF r] by (simp add: vector_set_def get_vec_def)
  then show ?thesis using False r by (intro exI[of _ s] exI[of _ "vnodes s"]) simp
qed

text \<open>A pop at index 0 removes the head. A pop at \<open>i > 0\<close> removes the element behind index \<open>i\<close>; at the
  last index, or past it, it dereferences the null pointer behind the last node.\<close>

lemma vector_pop_empty: "vec_rep s v ns [] \<Longrightarrow> vector_pop v i s = Inr s"
  by (simp add: vector_pop_def get_vec_def vec_rep_def)

lemma vector_pop_head:
  assumes r: "vec_rep s v (n # ns) (x # xs)"
  shows "\<exists>s' vt. vector_pop v 0 s = Inr s' \<and> s' = s\<lparr>vecs := vt\<rparr> \<and> vec_rep s' v ns xs \<and>
    (\<forall>w. w \<noteq> v \<longrightarrow> vt w = vecs s w)"
proof -
  have n: "n \<noteq> 0" "first_node (vecs s v) = n" using vec_repD(2)[OF r] by auto
  have "vec_length (vecs s v) \<noteq> 0" using vec_repD(9)[OF r] by auto
  then have "vector_pop v 0 s = Inr (s\<lparr>vecs := (vecs s)(v := (vecs s v)
      \<lparr>first_node := node_next s n, vec_length := vec_length (vecs s v) - 1\<rparr>)\<rparr>)"
    using n vec_repD(1)[OF r] by (simp add: vector_pop_def get_vec_def get_node_def)
  moreover have "vec_length (vecs s v) - 1 = of_nat (length ns)" using vec_repD(5,6)[OF r] by simp
  ultimately show ?thesis using r by (auto simp: vec_rep_def frame_simps)
qed

lemma vector_pop_middle:
  assumes r: "vec_rep s v ns xs" and i: "0 < unat i" "unat i + 1 < length xs"
  shows "\<exists>s' ns'. vector_pop v i s = Inr s' \<and> heap_inv s' = heap_inv s \<and> live s' = live s \<and>
    set ns' \<subseteq> set ns \<and>
    vec_rep s' v ns' (take (unat i + 1) xs @ drop (unat i + 2) xs) \<and>
    (\<forall>w. w \<noteq> v \<longrightarrow> vecs s' w = vecs s w) \<and> (\<forall>n. n \<notin> set ns \<longrightarrow> vnodes s' n = vnodes s n)"
proof -
  define k where "k = unat i"
  have kl: "k + 1 < length ns" using i(2) vec_repD(6)[OF r] by (simp add: k_def)
  let ?b = "ns ! k" and ?c = "ns ! (k + 1)" and ?pre = "take k ns" and ?post = "drop (k + 2) ns"
  have split: "ns = ?pre @ ?b # ?c # ?post" using kl by (simp add: Cons_nth_drop_Suc)
  note c = vec_repD(2)[OF r]
  have w: "walk_nodes k (first_node (vecs s v)) s = Inr ?b"
    using c kl by (intro walk_nodes_chain) auto
  have nz: "?b \<noteq> 0" "?c \<noteq> 0" using chain_nth[OF c] kl by simp_all
  have nx: "node_next s ?b = ?c"
    using chain_next[of "node_next s" "first_node (vecs s v)" ?pre ?b "?c # ?post"] c split by simp
  have ch: "chain ((node_next s)(?b := node_next s ?c)) (first_node (vecs s v)) (?pre @ ?b # ?post)"
    using c split by (intro chain_remove_after) simp
  let ?st = "(vnodes s)(?b := (vnodes s ?b)\<lparr>next_node := node_next s ?c\<rparr>)"
  let ?vt = "(vecs s)(v := (vecs s v)\<lparr>vec_length := vec_length (vecs s v) - 1\<rparr>)"
  let ?s = "s\<lparr>vnodes := ?st, vecs := ?vt\<rparr>" and ?ns = "?pre @ ?b # ?post"
  have "vec_length (vecs s v) \<noteq> 0" using vec_repD(9)[OF r] i by auto
  moreover have "i \<noteq> 0" using i(1) by auto
  ultimately have s': "vector_pop v i s = Inr ?s"
    using w nz nx vec_repD(1)[OF r] by (simp add: vector_pop_def get_vec_def get_node_def k_def)
  have "node_next ?s = (node_next s)(?b := node_next s ?c)" by auto
  moreover have "vec_length (vecs s v) - 1 = of_nat (length ?ns)"
    using vec_repD(5,6)[OF r] kl by (simp add: of_nat_diff)
  moreover have sub: "set ?ns \<subseteq> set ns" by (subst (4) split) auto
  moreover have "take (k + 1) xs @ drop (k + 2) xs = map (\<lambda>n. data_addr (?st n)) ?ns"
    using vec_repD(7)[OF r] kl by (simp add: take_map drop_map take_Suc_conv_app_nth)
  ultimately have "vec_rep ?s v ?ns (take (k + 1) xs @ drop (k + 2) xs)"
    using r ch unfolding vec_rep_def by (simp add: frame_simps del: fun_upd_apply) auto
  moreover have "heap_inv ?s = heap_inv s" "live ?s = live s" by (simp_all add: frame_simps)
  moreover have "?b \<in> set ns" using kl by simp
  ultimately show ?thesis using s' sub unfolding k_def[symmetric] by (intro exI[of _ ?s] exI[of _ ?ns]) auto
qed

lemma vector_pop_last:
  assumes r: "vec_rep s v ns xs" and i: "0 < unat i" "length xs \<le> unat i + 1" "xs \<noteq> []"
  shows "vector_pop v i s = Inl NullDeref"
proof -
  note c = vec_repD(2)[OF r]
  have ne: "vec_length (vecs s v) \<noteq> 0" using vec_repD(9)[OF r] i(3) by auto
  have i0: "i \<noteq> 0" using i(1) by auto
  show ?thesis
  proof (cases "unat i < length ns")
    case True
    let ?b = "ns ! unat i"
    have split: "ns = take (unat i) ns @ [?b]"
      using True i(2) vec_repD(6)[OF r] take_Suc_conv_app_nth[OF True] by simp
    then have "node_next s ?b = 0"
      using chain_next[of "node_next s" "first_node (vecs s v)" "take (unat i) ns" ?b "[]"] c by simp
    moreover have "walk_nodes (unat i) (first_node (vecs s v)) s = Inr ?b"
      using c True by (rule walk_nodes_chain)
    ultimately show ?thesis
      using ne i0 vec_repD(1)[OF r] by (simp add: vector_pop_def get_vec_def get_node_def)
  next
    case False
    then have "walk_nodes (unat i) (first_node (vecs s v)) s \<in> {Inr 0, Inl NullDeref}"
      using walk_nodes_past[OF c, of "unat i"] by (auto split: if_splits)
    then show ?thesis
      using ne i0 vec_repD(1)[OF r] by (auto simp: vector_pop_def get_vec_def get_node_def)
  qed
qed

lemma new_vector_rep:
  assumes inv: "heap_inv s"
  shows "new_vector k s = Inl Halted \<or>
    (\<exists>v s'. new_vector k s = Inr (v, s') \<and> heap_inv s' \<and> vec_rep s' v [] [] \<and>
       live s v = None \<and> live s' = (live s)(v \<mapsto> 24) \<and>
       vnodes s' = vnodes s \<and> (\<forall>w. w \<noteq> v \<longrightarrow> vecs s' w = vecs s w))"
proof (cases "malloc sizeof_Vector s")
  case (Inl e)
  then show ?thesis
    using kheap.alloc_error[OF inv _ Inl] by (simp add: new_vector_def sizeof_Vector_def)
next
  case (Inr q)
  obtain a s1 where m: "malloc sizeof_Vector s = Inr (a, s1)" using Inr by (cases q) auto
  have "unat sizeof_Vector < 2 ^ 62" by (simp add: sizeof_Vector_def)
  note M = malloc_vec_frame[OF inv this m]
  then show ?thesis
    using m by (auto simp: new_vector_def vec_rep_def frame_simps sizeof_Vector_def)
qed

text \<open>No vector operation touches what later components add to the state.\<close>

lemma malloc_more:
  assumes "heap_inv s" "unat n < 2 ^ 62" "malloc n s = Inr (a, s')"
  shows "vec_state.more s' = vec_state.more s"
  by (rule malloc_frame[OF assms]) simp

lemma new_vector_more:
  "heap_inv s \<Longrightarrow> new_vector k s = Inr (v, s') \<Longrightarrow> vec_state.more s' = vec_state.more s"
  by (auto simp: new_vector_def result_simps sizeof_Vector_def dest!: malloc_more)

lemma vector_push_more:
  assumes inv: "heap_inv s" and p: "vector_push v x s = Inr s'"
  shows "vec_state.more s' = vec_state.more s"
proof -
  obtain a s1 st vt where m: "malloc sizeof_VectorNode s = Inr (a, s1)" "s' = s1\<lparr>vnodes := st, vecs := vt\<rparr>"
    using p unfolding vector_push_def Let_def by (auto simp: res_bind_Inr_iff split: if_splits)
  then show ?thesis using malloc_more[OF inv _ m(1)] by (simp add: sizeof_VectorNode_def)
qed

lemma vector_push_vecs:
  assumes inv: "heap_inv s" and p: "vector_push v x s = Inr s'" and w: "w \<noteq> v"
  shows "vecs s' w = vecs s w"
proof -
  obtain a s1 st y where m: "malloc sizeof_VectorNode s = Inr (a, s1)"
    "s' = s1\<lparr>vnodes := st, vecs := (vecs s1)(v := y)\<rparr>"
    using p unfolding vector_push_def Let_def by (auto simp: res_bind_Inr_iff split: if_splits)
  then show ?thesis using malloc_vec_frame(1)[OF inv _ m(1)] w by (simp add: sizeof_VectorNode_def)
qed

lemma vector_set_more: "vector_set v i x s = Inr s' \<Longrightarrow> vec_state.more s' = vec_state.more s"
  by (auto simp: vector_set_def result_simps split: if_splits)

lemma vector_pop_more: "vector_pop v i s = Inr s' \<Longrightarrow> vec_state.more s' = vec_state.more s"
  by (auto simp: vector_pop_def result_simps split: if_splits)

text \<open>Reading a vector depends on the stores of vectors and nodes alone, its representation on the
  heap and these two.\<close>

lemma walk_nodes_cong: "vnodes s = vnodes s' \<Longrightarrow> walk_nodes k p s = walk_nodes k p s'"
  by (induction k arbitrary: p) (simp_all add: get_node_def)

lemma vector_at_cong: "vecs s = vecs s' \<Longrightarrow> vnodes s = vnodes s' \<Longrightarrow> vector_at v i s = vector_at v i s'"
  using walk_nodes_cong[of s s'] by (simp add: vector_at_def get_vec_def get_node_def cong: if_cong)

lemma vec_rep_eq:
  assumes "vec_state.truncate s = vec_state.truncate s'"
  shows "vec_rep s v ns xs = vec_rep s' v ns xs" "heap_inv s = heap_inv s'" "live s = live s'"
    "roomy k s = roomy k s'"
proof -
  have "kheap_state.truncate s = kheap_state.truncate s'" and v: "vecs s = vecs s'" "vnodes s = vnodes s'"
    using assms by (simp_all add: vec_state.defs kheap_state.defs)
  then show "heap_inv s = heap_inv s'" "live s = live s'" "roomy k s = roomy k s'" by (auto dest: heap_cong)
  then show "vec_rep s v ns xs = vec_rep s' v ns xs" using v by (simp add: vec_rep_def)
qed

section \<open>The contract of an indexed list\<close>

primrec push_all :: "(u64 \<Rightarrow> u64 \<Rightarrow> 's \<Rightarrow> 's result) \<Rightarrow> u64 \<Rightarrow> u64 list \<Rightarrow> 's \<Rightarrow> 's result" where
  "push_all push v [] s = Inr s"
| "push_all push v (x # xs) s = res_bind (push v x s) (push_all push v xs)"

locale indexed_list =
  fixes push :: "u64 \<Rightarrow> u64 \<Rightarrow> 's \<Rightarrow> 's result"
    and at :: "u64 \<Rightarrow> u64 \<Rightarrow> 's \<Rightarrow> u64 result"
    and put :: "u64 \<Rightarrow> u64 \<Rightarrow> u64 \<Rightarrow> 's \<Rightarrow> 's result"
    and holds :: "'s \<Rightarrow> u64 \<Rightarrow> u64 list \<Rightarrow> bool"
  assumes push_holds: "holds s v xs \<Longrightarrow> push v x s = Inr s' \<Longrightarrow> holds s' v (xs @ [x])"
    and push_error: "holds s v xs \<Longrightarrow> push v x s = Inl e \<Longrightarrow> e = Halted"
    and at_holds: "holds s v xs \<Longrightarrow> at v i s = Inr (if unat i < length xs then xs ! unat i else 0)"
    and put_holds: "holds s v xs \<Longrightarrow> \<exists>s'. put v i x s = Inr s' \<and> holds s' v (xs[unat i := x])"
begin

lemma push_all_holds: "holds s v xs \<Longrightarrow> push_all push v ys s = Inr s' \<Longrightarrow> holds s' v (xs @ ys)"
proof (induction ys arbitrary: s xs)
  case (Cons y ys)
  then obtain s1 where "push v y s = Inr s1" "push_all push v ys s1 = Inr s'"
    by (auto simp: result_simps)
  then show ?case using Cons push_holds by fastforce
qed simp

lemma push_all_at:
  assumes "holds s v xs" "push_all push v ys s = Inr s'"
  shows "at v i s' = Inr (if unat i < length xs + length ys then (xs @ ys) ! unat i else 0)"
  using at_holds[OF push_all_holds[OF assms], of i] by simp

lemma put_at:
  assumes "holds s v xs" "unat i < length xs"
  shows "\<exists>s'. put v i x s = Inr s' \<and> at v i s' = Inr x \<and> (\<forall>j. j \<noteq> i \<longrightarrow> at v j s' = at v j s)"
proof -
  obtain s' where s': "put v i x s = Inr s'" "holds s' v (xs[unat i := x])"
    using put_holds[OF assms(1)] by blast
  have "at v j s' = at v j s" if "j \<noteq> i" for j
  proof -
    have "unat j \<noteq> unat i" using that by (simp add: u64_eq_iff)
    then show ?thesis unfolding at_holds[OF s'(2)] at_holds[OF assms(1)] by simp
  qed
  moreover have "at v i s' = Inr x" using at_holds[OF s'(2), of i] assms(2) by simp
  ultimately show ?thesis using s'(1) by blast
qed

end

definition vec_holds :: "'a vec_state_scheme \<Rightarrow> u64 \<Rightarrow> u64 list \<Rightarrow> bool" where
  "vec_holds s v xs \<longleftrightarrow> heap_inv s \<and> (\<exists>ns. vec_rep s v ns xs)"

interpretation kvec: indexed_list vector_push vector_at vector_set vec_holds
proof unfold_locales
  fix s s' :: "'a vec_state_scheme" and v xs x
  assume "vec_holds s v xs" "vector_push v x s = Inr s'"
  then obtain ns where "heap_inv s" "vec_rep s v ns xs" "vector_push v x s = Inr s'"
    by (auto simp: vec_holds_def)
  then show "vec_holds s' v (xs @ [x])" unfolding vec_holds_def using vector_push_rep[of s v ns xs x] by auto
next
  fix s :: "'a vec_state_scheme" and v xs x e
  assume "vec_holds s v xs" "vector_push v x s = Inl e"
  then show "e = Halted" unfolding vec_holds_def using vector_push_rep[of s v _ xs x] by auto
next
  fix s :: "'a vec_state_scheme" and v xs i
  assume "vec_holds s v xs"
  then show "vector_at v i s = Inr (if unat i < length xs then xs ! unat i else 0)"
    unfolding vec_holds_def using vector_at_rep by blast
next
  fix s :: "'a vec_state_scheme" and v xs i x
  assume "vec_holds s v xs"
  then obtain ns where r: "heap_inv s" "vec_rep s v ns xs" by (auto simp: vec_holds_def)
  obtain s' st where "vector_set v i x s = Inr s'" "s' = s\<lparr>vnodes := st\<rparr>"
    "vec_rep s' v ns (if unat i < length xs then xs[unat i := x] else xs)"
    using vector_set_rep[OF r(2)] by blast
  moreover from this have "vec_rep s' v ns (xs[unat i := x])" by (auto split: if_splits simp: list_update_beyond)
  ultimately show "\<exists>s'. vector_set v i x s = Inr s' \<and> vec_holds s' v (xs[unat i := x])"
    using r(1) unfolding vec_holds_def by (auto simp: frame_simps)
qed

section \<open>Vectors on a heap with room\<close>

lemma roomy_inv: "roomy k s \<Longrightarrow> heap_inv s"
  by (auto simp: roomy_def heap_inv_def)

lemma roomy_mono: "roomy k s \<Longrightarrow> j \<le> k \<Longrightarrow> roomy j s"
  by (auto simp: roomy_def)

lemma new_vector_room:
  assumes "roomy (51 + k) s"
  shows "\<exists>v s'. new_vector e s = Inr (v, s') \<and> roomy k s' \<and> vec_holds s' v []"
proof -
  obtain a s1 where m: "malloc sizeof_Vector s = Inr (a, s1)" "roomy k s1"
    using malloc_room[of sizeof_Vector k s] assms by (auto simp: sizeof_Vector_def)
  then obtain s' where "new_vector e s = Inr (a, s')" "roomy k s'"
    by (simp add: new_vector_def frame_simps)
  then show ?thesis
    using new_vector_rep[OF roomy_inv[OF assms], of e] unfolding vec_holds_def by auto
qed

lemma vector_push_room:
  assumes h: "vec_holds s v xs" and m: "roomy (51 + k) s"
  shows "\<exists>s'. vector_push v x s = Inr s' \<and> roomy k s' \<and> vec_holds s' v (xs @ [x])"
proof -
  obtain a s1 where m: "malloc sizeof_VectorNode s = Inr (a, s1)" "roomy k s1"
    using malloc_room[of sizeof_VectorNode k s] m by (auto simp: sizeof_VectorNode_def)
  obtain ns where r: "heap_inv s" "vec_rep s v ns xs" using h by (auto simp: vec_holds_def)
  have "vector_push v x s \<noteq> Inl Halted \<and> (\<forall>s'. vector_push v x s = Inr s' \<longrightarrow> roomy k s')"
  proof (cases "ns = []")
    case True
    then show ?thesis
      using m r(2) by (auto simp: vector_push_def get_vec_def vec_rep_def frame_simps)
  next
    case False
    then obtain ms b where ns: "ns = ms @ [b]" by (metis rev_exhaust)
    have "length ms < walk_fuel"
      using chain_length_less[OF vec_repD(2)[OF r(2)]] ns by (simp add: walk_fuel_def)
    then have "last_node walk_fuel (first_node (vecs s v)) s = Inr b"
      using vec_repD(2)[OF r(2)] ns last_node_chain by blast
    then show ?thesis
      using m False vec_repD(1,6,10)[OF r(2)]
      by (auto simp: vector_push_def get_vec_def Let_def frame_simps)
  qed
  then show ?thesis using vector_push_rep[OF r, of x] unfolding vec_holds_def by auto
qed

definition sample_vecs :: "kheap_state \<Rightarrow> vec_state" where
  "sample_vecs s = kheap_state.extend s
     \<lparr>vecs = (\<lambda>_. \<lparr>data_size = 0, vec_length = 0, first_node = 0\<rparr>),
      vnodes = (\<lambda>_. \<lparr>vn_index = 0, next_node = 0, data_addr = 0\<rparr>)\<rparr>"

lemma sample_vector: "\<exists>(s :: vec_state) v. roomy 8000 s \<and> vec_holds s v []"
proof -
  obtain s :: kheap_state where s: "roomy 8165 s" using sample_heap by blast
  have "roomy 8165 (sample_vecs s) = roomy 8165 s"
    by (rule heap_cong) (simp add: sample_vecs_def kheap_state.defs)
  with s have r: "roomy 8165 (sample_vecs s)" by simp
  show ?thesis using new_vector_room[of 8000 "sample_vecs s" 8] roomy_mono[OF r, of 8051] by auto
qed

lemma sample_vector_pair:
  "\<exists>(s0 :: vec_state) s v. vec_holds s0 v [] \<and> push_all vector_push v [7, 8] s0 = Inr s \<and> vec_holds s v [7, 8]"
proof -
  obtain s0 :: vec_state and v where s0: "roomy 8000 s0" "vec_holds s0 v []" using sample_vector by blast
  obtain s1 where s1: "vector_push v 7 s0 = Inr s1" "roomy 7949 s1" "vec_holds s1 v [7]"
    using vector_push_room[OF s0(2), of 7949 7] s0(1) by auto
  obtain s2 where s2: "vector_push v 8 s1 = Inr s2" "vec_holds s2 v [7, 8]"
    using vector_push_room[OF s1(3), of 7898 8] s1(2) by auto
  have "push_all vector_push v [7, 8] s0 = Inr s2" using s1 s2 by simp
  with s0 s2 show ?thesis by blast
qed

section \<open>Properties\<close>

text \<open>C8. Values pushed onto a vector are read back by index in order, after what it held before; an
  index past the end reads as the null pointer.\<close>

theorem vector_push_at:
  assumes "vec_holds s v xs" and "push_all vector_push v ys s = Inr s'"
  shows "vec_holds s' v (xs @ ys) \<and>
     vector_at v i s' = Inr (if unat i < length xs + length ys then (xs @ ys) ! unat i else 0)"
  using kvec.push_all_at[OF assms] kvec.push_all_holds[OF assms] by blast

theorem vector_push_at_witness:
  "\<exists>(s0 :: vec_state) s v. push_all vector_push v [7, 8] s0 = Inr s \<and> vector_at v 1 s = Inr 8 \<and>
     vector_at v 2 s = Inr 0"
proof -
  obtain s0 s :: vec_state and v where r: "vec_holds s0 v []" "push_all vector_push v [7, 8] s0 = Inr s"
    using sample_vector_pair by blast
  show ?thesis using vector_push_at[OF r, of 1] vector_push_at[OF r, of 2] r(2) by auto
qed

text \<open>\<open>vector_set\<close> changes the element at its index and no other, and does nothing past the end.\<close>

theorem vector_set_at:
  assumes "vec_holds s v xs"
  shows "\<exists>s'. vector_set v i x s = Inr s' \<and>
     (\<forall>j. vector_at v j s' = (if j = i \<and> unat i < length xs then Inr x else vector_at v j s))"
proof (cases "unat i < length xs")
  case True
  then show ?thesis using kvec.put_at[OF assms True] by metis
next
  case False
  obtain s' where "vector_set v i x s = Inr s'" "vec_holds s' v (xs[unat i := x])"
    using kvec.put_holds[OF assms] by blast
  moreover have "xs[unat i := x] = xs" using False by (simp add: list_update_beyond)
  ultimately show ?thesis
    using False kvec.at_holds[of s' v xs] kvec.at_holds[OF assms] by (intro exI[of _ s']) auto
qed

theorem vector_set_at_witness:
  "\<exists>(s :: vec_state) s' v. vector_set v 1 9 s = Inr s' \<and> vector_at v 1 s' = Inr 9 \<and> vector_at v 0 s' = Inr 7"
proof -
  obtain s :: vec_state and v where h: "vec_holds s v [7, 8]" using sample_vector_pair by blast
  show ?thesis using vector_set_at[OF h, of 1 9] kvec.at_holds[OF h, of 0] by force
qed

text \<open>What \<open>vector_pop\<close> does at every index: nothing on an empty vector, at index 0 it removes the
  first element, at an inner index \<open>i\<close> it keeps element \<open>i\<close> and removes the one behind it, and at the
  last index (or past it) it dereferences a null pointer.\<close>

theorem vector_pop_spec:
  assumes "vec_holds s v xs"
  shows "case vector_pop v i s of
      Inl e \<Rightarrow> e = NullDeref \<and> 0 < unat i \<and> xs \<noteq> [] \<and> length xs \<le> unat i + 1
    | Inr s' \<Rightarrow> vec_holds s' v
        (if xs = [] then [] else if i = 0 then tl xs else take (unat i + 1) xs @ drop (unat i + 2) xs) \<and>
        (xs = [] \<or> i = 0 \<or> unat i + 1 < length xs)"
proof -
  obtain ns where r: "heap_inv s" "vec_rep s v ns xs" using assms by (auto simp: vec_holds_def)
  consider "xs = []" | "xs \<noteq> []" "i = 0" | "xs \<noteq> []" "0 < unat i" "unat i + 1 < length xs"
    | "xs \<noteq> []" "0 < unat i" "length xs \<le> unat i + 1"
    by (cases "i = 0"; cases "unat i + 1 < length xs") (auto simp: unat_gt_0 not_less)
  then show ?thesis
  proof cases
    case 1
    then show ?thesis using vector_pop_empty[of s v ns i] r assms by auto
  next
    case 2
    then obtain x xs' n ns' where "xs = x # xs'" "ns = n # ns'"
      using vec_repD(6)[OF r(2)] by (cases xs; cases ns) auto
    then show ?thesis using vector_pop_head[of s v n ns' x xs'] r 2 by (auto simp: vec_holds_def frame_simps)
  next
    case 3
    then have "i \<noteq> 0" by auto
    then show ?thesis using vector_pop_middle[OF r(2) 3(2,3)] r(1) 3 by (auto simp: vec_holds_def)
  next
    case 4
    then show ?thesis using vector_pop_last[OF r(2)] by auto
  qed
qed

theorem vector_pop_spec_witness:
  "\<exists>(s :: vec_state) s' v. vec_holds s v [7, 8] \<and> vector_pop v 0 s = Inr s' \<and> vec_holds s' v [8] \<and>
     vector_pop v 1 s = Inl NullDeref"
proof -
  obtain s :: vec_state and v where h: "vec_holds s v [7, 8]" using sample_vector_pair by blast
  show ?thesis
    using vector_pop_spec[OF h, of 0] vector_pop_spec[OF h, of 1] h by (auto split: sum.splits)
qed

end
