(* ===== verification/Events.thy ===== *)
theory Events
  imports KVector
begin

text \<open>
  Event queues of tasks (\<open>src/src/tasks/events.c\<close>): vectors of pointers to events on the heap. The
  contract of a queue is stated on the list of queued events, oldest first.
\<close>

section \<open>State\<close>

record Event =
  do_handle :: bool
  event_id :: u64
  event_data0 :: u64
  event_data1 :: u64

record EventQueue =
  queue :: u64

record events_state = vec_state +
  events :: "u64 \<Rightarrow> Event"

definition EVENT_TASK_EXITED :: u64 where
  "EVENT_TASK_EXITED = 1"

definition sizeof_Event :: u64 where
  "sizeof_Event = 32"

section \<open>Operations\<close>

definition new_event_queue :: "'a events_state_scheme \<Rightarrow> (EventQueue \<times> 'a events_state_scheme) result" where
  "new_event_queue s = res_bind (new_vector sizeof_Event s) (\<lambda>(l, s). Inr (\<lparr>queue = l\<rparr>, s))"

definition add_event ::
  "EventQueue \<Rightarrow> u64 \<Rightarrow> u64 \<Rightarrow> u64 \<Rightarrow> 'a events_state_scheme \<Rightarrow> 'a events_state_scheme result" where
  "add_event q event_type data0 data1 s =
     (let new_event = \<lparr>do_handle = True, event_id = event_type, event_data0 = data0, event_data1 = data1\<rparr> in
      res_bind (malloc sizeof_Event s) (\<lambda>(event_addr, s).
        let s = s\<lparr>events := (events s)(event_addr := new_event)\<rparr> in
        vector_push (queue q) event_addr s))"

text \<open>The event an empty queue answers with: \<open>(Event) \<lbrace>.do_handle = false\<rbrace>\<close>, the other fields 0.\<close>

definition no_event :: Event where
  "no_event = \<lparr>do_handle = False, event_id = 0, event_data0 = 0, event_data1 = 0\<rparr>"

definition poll :: "EventQueue \<Rightarrow> 'a events_state_scheme \<Rightarrow> (u64 \<times> 'a events_state_scheme) result" where
  "poll q s =
     res_bind (get_vec (queue q) s) (\<lambda>v.
     if vec_length v = 0 then
       res_bind (malloc sizeof_Event s) (\<lambda>(to_return, s).
         Inr (to_return, s\<lparr>events := (events s)(to_return := no_event)\<rparr>))
     else
       res_bind (vector_at (queue q) (vec_length v - 1) s) (\<lambda>this_event.
       res_bind (vector_pop (queue q) (vec_length v - 1) s) (\<lambda>s.
         Inr (this_event, s))))"

definition peek :: "EventQueue \<Rightarrow> 'a events_state_scheme \<Rightarrow> (u64 \<times> 'a events_state_scheme) result" where
  "peek q s =
     res_bind (get_vec (queue q) s) (\<lambda>v.
     if vec_length v = 0 then
       res_bind (malloc sizeof_Event s) (\<lambda>(to_return, s).
         Inr (to_return, s\<lparr>events := (events s)(to_return := no_event)\<rparr>))
     else
       res_bind (vector_at (queue q) (vec_length v - 1) s) (\<lambda>this_event.
         Inr (this_event, s)))"

definition cleanup_event :: "u64 \<Rightarrow> 'a events_state_scheme \<Rightarrow> 'a events_state_scheme result" where
  "cleanup_event event s = kfree event s"

section \<open>The queue as a list of events\<close>

definition queue_addrs :: "'a events_state_scheme \<Rightarrow> EventQueue \<Rightarrow> u64 list \<Rightarrow> bool" where
  "queue_addrs s q as \<longleftrightarrow> vec_holds s (queue q) as \<and> (\<forall>a \<in> set as. live s a = Some 32)"

definition queue_holds :: "'a events_state_scheme \<Rightarrow> EventQueue \<Rightarrow> Event list \<Rightarrow> bool" where
  "queue_holds s q evs \<longleftrightarrow> (\<exists>as. queue_addrs s q as \<and> evs = map (events s) as)"

lemma events_frames [frame_simps]:
  "live (s\<lparr>events := x\<rparr>) = live s" "heap_inv (s\<lparr>events := x\<rparr>) = heap_inv s"
  "roomy k (s\<lparr>events := x\<rparr>) = roomy k s" "vec_rep (s\<lparr>events := x\<rparr>) v ns xs = vec_rep s v ns xs"
  "vec_holds (s\<lparr>events := x\<rparr>) v xs = vec_holds s v xs"
proof -
  show f: "live (s\<lparr>events := x\<rparr>) = live s" "heap_inv (s\<lparr>events := x\<rparr>) = heap_inv s"
    "roomy k (s\<lparr>events := x\<rparr>) = roomy k s"
    by (rule heap_cong, simp add: kheap_state.defs)+
  show r: "vec_rep (s\<lparr>events := x\<rparr>) v ns xs = vec_rep s v ns xs" for ns
    by (simp add: vec_rep_def f)
  show "vec_holds (s\<lparr>events := x\<rparr>) v xs = vec_holds s v xs" by (simp add: vec_holds_def f r)
qed

text \<open>An allocation keeps every vector.\<close>

lemma malloc_vec_holds:
  assumes "vec_holds s v xs" "unat n < 2 ^ 62" "malloc n s = Inr (a, s')"
  shows "vec_holds s' v xs"
proof -
  obtain ns where r: "heap_inv s" "vec_rep s v ns xs" using assms(1) by (auto simp: vec_holds_def)
  note M = malloc_vec_frame[OF r(1) assms(2,3)]
  have "live s' x = live s x" if "x \<in> insert v (set ns)" for x
    using M(4,5) vec_repD(3,4)[OF r(2)] that by auto
  then have "vec_rep s' v ns xs"
    by (intro vec_rep_cong[OF r(2)]) (simp_all add: M(1,2))
  then show ?thesis using M(3) by (auto simp: vec_holds_def)
qed

lemma events_of_more: "vec_state.more s' = vec_state.more s \<Longrightarrow> events s' = events s"
  by (cases s, cases s') simp

lemma add_event_holds:
  assumes q: "queue_addrs s q as"
  shows "add_event q t d0 d1 s = Inl Halted \<or>
    (\<exists>s' a. add_event q t d0 d1 s = Inr s' \<and> queue_addrs s' q (as @ [a]) \<and> a \<notin> set as \<and>
       events s' = (events s)(a := \<lparr>do_handle = True, event_id = t, event_data0 = d0, event_data1 = d1\<rparr>))"
proof (cases "malloc sizeof_Event s")
  case (Inl e)
  then have "e = Halted" using q kheap.alloc_error[of s sizeof_Event e]
    by (auto simp: queue_addrs_def vec_holds_def sizeof_Event_def)
  then show ?thesis using Inl by (simp add: add_event_def Let_def)
next
  case (Inr r)
  obtain a s1 where m: "malloc sizeof_Event s = Inr (a, s1)" using Inr by (cases r) auto
  have inv: "heap_inv s" and n: "unat sizeof_Event < 2 ^ 62" and h: "vec_holds s (queue q) as"
    using q by (auto simp: queue_addrs_def vec_holds_def sizeof_Event_def)
  note M = malloc_vec_frame[OF inv n m]
  have l1: "live s1 = (live s)(a \<mapsto> 32)" using M(5) by (simp add: sizeof_Event_def)
  let ?E = "\<lparr>do_handle = True, event_id = t, event_data0 = d0, event_data1 = d1\<rparr>"
  define s2 where "s2 = s1\<lparr>events := (events s1)(a := ?E)\<rparr>"
  have add: "add_event q t d0 d1 s = vector_push (queue q) a s2"
    using m by (simp add: add_event_def Let_def s2_def)
  obtain ns where r: "heap_inv s2" "vec_rep s2 (queue q) ns as"
    using malloc_vec_holds[OF h n m] unfolding vec_holds_def s2_def by (auto simp: frame_simps)
  have an: "a \<notin> set as" using q M(4) by (auto simp: queue_addrs_def)
  from vector_push_rep[OF r, of a] show ?thesis
  proof (elim disjE exE conjE)
    assume "vector_push (queue q) a s2 = Inl Halted"
    then show ?thesis using add by simp
  next
    fix s' b
    assume s': "vector_push (queue q) a s2 = Inr s'" "heap_inv s'"
      "vec_rep s' (queue q) (ns @ [b]) (as @ [a])" "live s2 b = None" "live s' = (live s2)(b \<mapsto> 24)"
    have "live s' x = Some 32" if "x \<in> set (as @ [a])" for x
    proof -
      have "live s2 x = Some 32" using that q l1 by (auto simp: s2_def frame_simps queue_addrs_def)
      then show ?thesis using s'(4,5) by auto
    qed
    then have "queue_addrs s' q (as @ [a])"
      using s'(2,3) by (auto simp: queue_addrs_def vec_holds_def)
    moreover have "events s1 = events s" by (rule events_of_more[OF malloc_more[OF inv n m]])
    then have "events s' = (events s)(a := ?E)"
      using events_of_more[OF vector_push_more[OF r(1) s'(1)]] by (simp add: s2_def)
    ultimately show ?thesis using add s'(1) an by auto
  qed
qed

text \<open>What \<open>add_event\<close> leaves alone: every other vector header and the state of later components.\<close>

lemma add_event_frame:
  assumes inv: "heap_inv s" and a: "add_event q t d0 d1 s = Inr s'"
  shows "events_state.more s' = events_state.more s" "w \<noteq> queue q \<Longrightarrow> vecs s' w = vecs s w"
proof -
  obtain p s1 E where m: "malloc sizeof_Event s = Inr (p, s1)"
    and v: "vector_push (queue q) p (s1\<lparr>events := E\<rparr>) = Inr s'"
    using a unfolding add_event_def Let_def by (auto simp: res_bind_Inr_iff)
  have n: "unat sizeof_Event < 2 ^ 62" by (simp add: sizeof_Event_def)
  note M = malloc_vec_frame[OF inv n m]
  have h: "heap_inv (s1\<lparr>events := E\<rparr>)" using M(3) by (simp add: frame_simps)
  have "vec_state.more s1 = vec_state.more s" by (rule malloc_more[OF inv n m])
  then have "events_state.more s1 = events_state.more s" by (cases s, cases s1) simp
  moreover have "vec_state.more s' = vec_state.more (s1\<lparr>events := E\<rparr>)" by (rule vector_push_more[OF h v])
  then have "events_state.more s' = events_state.more s1" by (cases s', cases s1) simp
  ultimately show "events_state.more s' = events_state.more s" by simp
  show "vecs s' w = vecs s w" if "w \<noteq> queue q" using vector_push_vecs[OF h v that] M(1) by simp
qed

lemma queue_length:
  assumes "queue_addrs s q as"
  shows "get_vec (queue q) s = Inr (vecs s (queue q))" "vec_length (vecs s (queue q)) = of_nat (length as)"
    "length as < 2 ^ 64"
proof -
  obtain ns where r: "vec_rep s (queue q) ns as" using assms by (auto simp: queue_addrs_def vec_holds_def)
  then show "get_vec (queue q) s = Inr (vecs s (queue q))" "vec_length (vecs s (queue q)) = of_nat (length as)"
    "length as < 2 ^ 64"
    using vec_repD(1,5,8)[OF r] by (simp_all add: get_vec_def)
qed

lemma queue_last_index:
  assumes "queue_addrs s q as" "as \<noteq> []"
  shows "vec_length (vecs s (queue q)) \<noteq> 0" "unat (vec_length (vecs s (queue q)) - 1) = length as - 1"
    "vector_at (queue q) (vec_length (vecs s (queue q)) - 1) s = Inr (last as)"
proof -
  have u: "unat (vec_length (vecs s (queue q))) = length as"
    using queue_length[OF assms(1)] by (simp add: unat_of_nat_u64)
  then show n0: "vec_length (vecs s (queue q)) \<noteq> 0" using assms(2) by auto
  then have "1 \<le> vec_length (vecs s (queue q))" by (simp add: word_le_nat_alt unat_gt_0 Suc_le_eq)
  then show i: "unat (vec_length (vecs s (queue q)) - 1) = length as - 1"
    using u by (simp add: unat_sub word_le_nat_alt)
  show "vector_at (queue q) (vec_length (vecs s (queue q)) - 1) s = Inr (last as)"
    using assms i kvec.at_holds[of s "queue q" as "vec_length (vecs s (queue q)) - 1"]
    by (simp add: queue_addrs_def last_conv_nth)
qed

lemma fresh_event:
  assumes q: "queue_addrs s q as" and m: "malloc sizeof_Event s = Inr (a, s1)"
  shows "queue_addrs (s1\<lparr>events := (events s1)(a := E)\<rparr>) q as" "a \<notin> set as" "events s1 = events s"
proof -
  have inv: "heap_inv s" and n: "unat sizeof_Event < 2 ^ 62" and h: "vec_holds s (queue q) as"
    using q by (auto simp: queue_addrs_def vec_holds_def sizeof_Event_def)
  note M = malloc_vec_frame[OF inv n m]
  show "queue_addrs (s1\<lparr>events := (events s1)(a := E)\<rparr>) q as" "a \<notin> set as"
    using q M(4,5) malloc_vec_holds[OF h n m] by (auto simp: queue_addrs_def frame_simps)
  show "events s1 = events s" by (rule events_of_more[OF malloc_more[OF inv n m]])
qed

lemma poll_empty:
  assumes "queue_addrs s q []"
  shows "poll q s = peek q s" "poll q s = Inl Halted \<or>
    (\<exists>a s'. poll q s = Inr (a, s') \<and> queue_addrs s' q [] \<and> events s' a = no_event)"
proof -
  have l: "vec_length (vecs s (queue q)) = 0" "get_vec (queue q) s = Inr (vecs s (queue q))"
    using queue_length[OF assms] by simp_all
  then show "poll q s = peek q s" by (simp add: poll_def peek_def)
  show "poll q s = Inl Halted \<or>
    (\<exists>a s'. poll q s = Inr (a, s') \<and> queue_addrs s' q [] \<and> events s' a = no_event)"
  proof (cases "malloc sizeof_Event s")
    case (Inl e)
    then have "e = Halted" using assms kheap.alloc_error[of s sizeof_Event e]
      by (auto simp: queue_addrs_def vec_holds_def sizeof_Event_def)
    then show ?thesis using Inl l by (simp add: poll_def)
  next
    case (Inr r)
    then show ?thesis using l fresh_event[OF assms] by (cases r) (auto simp: poll_def)
  qed
qed

lemma peek_last:
  assumes "queue_addrs s q as" "as \<noteq> []"
  shows "peek q s = Inr (last as, s)"
  using queue_last_index[OF assms] queue_length[OF assms(1)] by (simp add: peek_def)

lemma poll_one:
  assumes q: "queue_addrs s q [a]"
  shows "\<exists>s' vt. poll q s = Inr (a, s') \<and> queue_addrs s' q [] \<and> events s' = events s \<and> s' = s\<lparr>vecs := vt\<rparr> \<and>
    (\<forall>w. w \<noteq> queue q \<longrightarrow> vt w = vecs s w)"
proof -
  have i: "vec_length (vecs s (queue q)) - 1 = 0" using queue_length(2)[OF q] by simp
  obtain ns where ns: "heap_inv s" "vec_rep s (queue q) ns [a]"
    using q by (auto simp: queue_addrs_def vec_holds_def)
  obtain n where r: "heap_inv s" "vec_rep s (queue q) [n] [a]"
    using ns vec_repD(6)[OF ns(2)] by (cases ns) auto
  obtain s' vt where s': "vector_pop (queue q) 0 s = Inr s'" "s' = s\<lparr>vecs := vt\<rparr>" "vec_rep s' (queue q) [] []"
    "\<forall>w. w \<noteq> queue q \<longrightarrow> vt w = vecs s w"
    using vector_pop_head[OF r(2)] by blast
  then have "queue_addrs s' q []" using r(1) by (auto simp: queue_addrs_def vec_holds_def frame_simps)
  moreover have "poll q s = Inr (a, s')"
    using queue_last_index[OF q] queue_length[OF q] s'(1) unfolding poll_def i by simp
  ultimately show ?thesis using s'(2,4) by auto
qed

lemma poll_many:
  assumes q: "queue_addrs s q as" and l: "2 \<le> length as"
  shows "poll q s = Inl NullDeref"
proof -
  have ne: "as \<noteq> []" using l by auto
  note I = queue_last_index[OF q ne]
  obtain ns where "vec_rep s (queue q) ns as" using q by (auto simp: queue_addrs_def vec_holds_def)
  then have "vector_pop (queue q) (vec_length (vecs s (queue q)) - 1) s = Inl NullDeref"
    using I l ne by (intro vector_pop_last) auto
  then show ?thesis using I queue_length[OF q] by (simp add: poll_def)
qed

section \<open>A concrete queue\<close>

lemma sample_queue: "\<exists>(s :: events_state) q. roomy 7000 s \<and> queue_addrs s q []"
proof -
  obtain s :: kheap_state where s: "roomy 8165 s" using sample_heap by blast
  define t :: events_state where
    "t = vec_state.extend (sample_vecs s) \<lparr>events = (\<lambda>_. no_event)\<rparr>"
  have "roomy 8165 t = roomy 8165 s"
    by (rule heap_cong) (simp add: t_def sample_vecs_def kheap_state.defs vec_state.defs)
  with s have r: "roomy 8165 t" by simp
  obtain v s' where "new_vector sizeof_Event t = Inr (v, s')" "roomy 7000 s'" "vec_holds s' v []"
    using new_vector_room[of 7000 t sizeof_Event] roomy_mono[OF r, of 7051] by auto
  then show ?thesis by (intro exI[of _ s'] exI[of _ "\<lparr>queue = v\<rparr>"]) (simp add: queue_addrs_def)
qed

lemma add_event_room:
  assumes q: "queue_addrs s q as" and r: "roomy (110 + k) s"
  shows "\<exists>s' a. add_event q t d0 d1 s = Inr s' \<and> roomy k s' \<and> queue_addrs s' q (as @ [a]) \<and> a \<notin> set as \<and>
       events s' = (events s)(a := \<lparr>do_handle = True, event_id = t, event_data0 = d0, event_data1 = d1\<rparr>)"
proof -
  obtain a s1 where m: "malloc sizeof_Event s = Inr (a, s1)" "roomy (51 + k) s1"
    using malloc_room[of sizeof_Event "51 + k" s] r by (auto simp: sizeof_Event_def)
  let ?E = "\<lparr>do_handle = True, event_id = t, event_data0 = d0, event_data1 = d1\<rparr>"
  have f: "queue_addrs (s1\<lparr>events := (events s1)(a := ?E)\<rparr>) q as"
    by (rule fresh_event[OF q m(1)])
  have "\<exists>s'. add_event q t d0 d1 s = Inr s' \<and> roomy k s'"
    using vector_push_room[of "s1\<lparr>events := (events s1)(a := ?E)\<rparr>" "queue q" as k a] m f
    by (auto simp: add_event_def Let_def frame_simps queue_addrs_def)
  then show ?thesis using add_event_holds[OF q, of t d0 d1] by auto
qed

section \<open>Properties\<close>

text \<open>An event added to an empty queue is the one \<open>poll\<close> returns, with its type and data and marked
  to be handled, and the queue is empty again; \<open>peek\<close> returns the same event and leaves it queued.\<close>

theorem add_event_poll:
  assumes "queue_holds s q []" and "add_event q t d0 d1 s = Inr s1"
  shows "\<exists>a s2. poll q s1 = Inr (a, s2) \<and> queue_holds s2 q [] \<and>
     events s2 a = \<lparr>do_handle = True, event_id = t, event_data0 = d0, event_data1 = d1\<rparr> \<and>
     peek q s1 = Inr (a, s1)"
proof -
  have q: "queue_addrs s q []" using assms(1) by (auto simp: queue_holds_def)
  obtain a where a: "queue_addrs s1 q [a]"
    "events s1 a = \<lparr>do_handle = True, event_id = t, event_data0 = d0, event_data1 = d1\<rparr>"
    using add_event_holds[OF q, of t d0 d1] assms(2) by auto
  then show ?thesis
    using poll_one[OF a(1)] peek_last[OF a(1)] by (auto simp: queue_holds_def)
qed

theorem add_event_poll_witness:
  "\<exists>(s :: events_state) q s1 a s2. add_event q EVENT_TASK_EXITED 3 0 s = Inr s1 \<and> poll q s1 = Inr (a, s2) \<and>
     event_data0 (events s2 a) = 3"
proof -
  obtain s :: events_state and q where s: "roomy 7000 s" "queue_addrs s q []" using sample_queue by blast
  obtain s1 where s1: "add_event q EVENT_TASK_EXITED 3 0 s = Inr s1"
    using add_event_room[OF s(2), of 6890 EVENT_TASK_EXITED 3 0] s(1) by auto
  have "queue_holds s q []" using s(2) by (auto simp: queue_holds_def)
  from add_event_poll[OF this s1] show ?thesis using s1 by (metis Event.select_convs(3))
qed

text \<open>On an empty queue \<open>poll\<close> and \<open>peek\<close> answer with a fresh event that is marked not to be handled,
  and the queue stays empty; the only other outcome is that memory has run out.\<close>

theorem poll_empty_queue:
  assumes "queue_holds s q []"
  shows "peek q s = poll q s \<and> (poll q s = Inl Halted \<or>
     (\<exists>a s'. poll q s = Inr (a, s') \<and> queue_holds s' q [] \<and> \<not> do_handle (events s' a)))"
proof -
  have "queue_addrs s q []" using assms by (auto simp: queue_holds_def)
  from poll_empty[OF this] show ?thesis by (auto simp: queue_holds_def no_event_def)
qed

theorem poll_empty_queue_witness:
  "\<exists>(s :: events_state) q. queue_holds s q [] \<and> peek q s = poll q s"
proof -
  obtain s :: events_state and q where s: "queue_addrs s q []" using sample_queue by blast
  then have "queue_holds s q []" by (auto simp: queue_holds_def)
  with poll_empty_queue[OF this] show ?thesis by blast
qed

text \<open>With two or more events queued, \<open>peek\<close> shows the event added last, not the oldest, and \<open>poll\<close>
  never returns: its \<open>vector_pop\<close> of the last index dereferences the null pointer behind the last
  node.\<close>

theorem poll_two_events:
  assumes "queue_holds s q evs" and "2 \<le> length evs"
  shows "poll q s = Inl NullDeref \<and> (\<exists>a. peek q s = Inr (a, s) \<and> events s a = last evs)"
proof -
  obtain as where as: "queue_addrs s q as" "evs = map (events s) as" using assms by (auto simp: queue_holds_def)
  then have "2 \<le> length as" "as \<noteq> []" using assms(2) by auto
  then show ?thesis using poll_many[OF as(1)] peek_last[OF as(1)] as(2) by (simp add: last_map)
qed

theorem poll_two_events_witness:
  "\<exists>(s :: events_state) q evs. queue_holds s q evs \<and> length evs = 2 \<and> poll q s = Inl NullDeref"
proof -
  obtain s :: events_state and q where s: "roomy 7000 s" "queue_addrs s q []" using sample_queue by blast
  obtain s1 :: events_state and a where s1: "roomy 6890 s1" "queue_addrs s1 q [a]"
    using add_event_room[OF s(2), of 6890 1 3 0] s(1) by auto
  obtain s2 :: events_state and b where s2: "queue_addrs s2 q [a, b]"
    using add_event_room[OF s1(2), of 6780 1 4 0] s1(1) by auto
  then have "queue_holds s2 q (map (events s2) [a, b])" by (auto simp: queue_holds_def)
  from poll_two_events[OF this] this show ?thesis by fastforce
qed

end
