(* ===== verification/Tasklist.thy ===== *)
theory Tasklist
  imports Events
begin

text \<open>
  Tasks and the scheduler (\<open>src/src/tasks/tasklist.c\<close>, \<open>switchutils.c\<close>, \<open>end_task.c\<close>): the task list
  and the current task of every core are kernel vectors; \<open>task_select\<close> picks the next task of a core.
  The spinlocks are flags of the state; taking a lock that is held spins forever, since the model
  follows one core and nobody else is there to release it (the interleaving of cores is in theory
  \<open>Spinlock\<close>). Strings of the kernel (\<open>char *\<close>) are kept in the store \<open>strs\<close>.
\<close>

section \<open>State\<close>

record Task =
  is_user :: bool
  event_queue :: EventQueue
  current_dir :: u64
  argc :: u64
  argv :: u64
  pml4_addr :: u64
  kernel_rsp :: u64
  current_rsp :: u64
  entry_point :: u64
  resources :: "u64 list"
  parent :: u64
  task_flags :: u8
  errno :: u64
  mmap_upto :: u64

datatype lock = Scheduler_lock | Get_current_task_lock | Current_cpu_lock

record tasks_state = events_state +
  tasks :: "u64 \<Rightarrow> Task"
  strs :: "u64 \<Rightarrow> string"
  tasklist_list :: u64
  current_tasks :: u64
  locks :: "lock \<Rightarrow> bool"
  cr3 :: u64
  cpu_count :: u64
  lapic_id :: u32
  can_task_switch :: bool
  all_tasks_ended_addr :: u64

definition TASK_PRESENT :: u8 where "TASK_PRESENT = 1"
definition TASK_FIRST_EXEC :: u8 where "TASK_FIRST_EXEC = 2"
definition TASK_RUNNING :: u8 where "TASK_RUNNING = 4"
definition NUM_RESOURCES :: nat where "NUM_RESOURCES = 20"
definition KERNEL_STACK_PTR :: u64 where "KERNEL_STACK_PTR = 0xFFFFFFFFFFFFF000"

definition sizeof_Task :: u64 where
  "sizeof_Task = 264"

text \<open>A structure all of whose members are zero, as C completes a partial initialiser.\<close>

definition zero_Task :: Task where
  "zero_Task = \<lparr>is_user = False, event_queue = \<lparr>queue = 0\<rparr>, current_dir = 0, argc = 0, argv = 0,
     pml4_addr = 0, kernel_rsp = 0, current_rsp = 0, entry_point = 0,
     resources = replicate NUM_RESOURCES 0, parent = 0, task_flags = 0, errno = 0, mmap_upto = 0\<rparr>"

definition get_Task :: "u64 \<Rightarrow> 'a tasks_state_scheme \<Rightarrow> Task result" where
  "get_Task p s = (if p = 0 then Inl NullDeref else Inr (tasks s p))"

definition set_Task :: "u64 \<Rightarrow> Task \<Rightarrow> 'a tasks_state_scheme \<Rightarrow> 'a tasks_state_scheme" where
  "set_Task p t s = s\<lparr>tasks := (tasks s)(p := t)\<rparr>"

section \<open>Spinlocks of one core\<close>

definition spinlock_aquire :: "lock \<Rightarrow> 'a tasks_state_scheme \<Rightarrow> 'a tasks_state_scheme result" where
  "spinlock_aquire l s =
     (if locks s l then Inl Diverged else Inr (s\<lparr>locks := (locks s)(l := True)\<rparr>))"

definition spinlock_release :: "lock \<Rightarrow> 'a tasks_state_scheme \<Rightarrow> 'a tasks_state_scheme" where
  "spinlock_release l s = s\<lparr>locks := (locks s)(l := False)\<rparr>"

text \<open>\<open>get_current_processor\<close> (\<open>src/src/drivers/apic.c\<close>): the top byte of the local APIC's ID register.\<close>

definition get_current_processor :: "'a tasks_state_scheme \<Rightarrow> (u64 \<times> 'a tasks_state_scheme) result" where
  "get_current_processor s =
     res_bind (spinlock_aquire Current_cpu_lock s) (\<lambda>s.
       let to_return = ucast (drop_bit 24 (lapic_id s)) in
       Inr (to_return, spinlock_release Current_cpu_lock s))"

section \<open>Operations\<close>

primrec push_zeroes :: "nat \<Rightarrow> u64 \<Rightarrow> 'a tasks_state_scheme \<Rightarrow> 'a tasks_state_scheme result" where
  "push_zeroes 0 v s = Inr s"
| "push_zeroes (Suc k) v s = res_bind (vector_push v 0 s) (push_zeroes k v)"

definition init_tasklist :: "'a tasks_state_scheme \<Rightarrow> 'a tasks_state_scheme result" where
  "init_tasklist s =
     res_bind (new_vector sizeof_Task s) (\<lambda>(l, s).
     let s = s\<lparr>tasklist_list := l\<rparr> in
     res_bind (malloc sizeof_Task s) (\<lambda>(first_task, s).
     res_bind (malloc 4 s) (\<lambda>(dir, s).
     let s = s\<lparr>strs := (strs s)(dir := ''R:/'')\<rparr> in
     res_bind (new_event_queue s) (\<lambda>(q, s).
     let s = set_Task first_task (zero_Task\<lparr>
          is_user := False, event_queue := q, current_dir := dir, pml4_addr := cr3 s,
          kernel_rsp := KERNEL_STACK_PTR, current_rsp := KERNEL_STACK_PTR,
          entry_point := all_tasks_ended_addr s, parent := first_task, task_flags := 0\<rparr>) s in
     res_bind (vector_push (tasklist_list s) first_task s) (\<lambda>s.
     res_bind (new_vector 8 s) (\<lambda>(c, s).
     let s = s\<lparr>current_tasks := c\<rparr> in
     push_zeroes (unat (cpu_count s)) (current_tasks s) s))))))"

definition get_task :: "u64 \<Rightarrow> 'a tasks_state_scheme \<Rightarrow> u64 result" where
  "get_task pid s = vector_at (tasklist_list s) pid s"

definition task_remove :: "u64 \<Rightarrow> 'a tasks_state_scheme \<Rightarrow> 'a tasks_state_scheme result" where
  "task_remove pid s = vector_pop (tasklist_list s) pid s"

definition get_current_task :: "'a tasks_state_scheme \<Rightarrow> (u64 \<times> 'a tasks_state_scheme) result" where
  "get_current_task s =
     res_bind (spinlock_aquire Get_current_task_lock s) (\<lambda>s.
     res_bind (get_current_processor s) (\<lambda>(cpu, s).
     res_bind (vector_at (current_tasks s) cpu s) (\<lambda>n.
     res_bind (get_task n s) (\<lambda>to_return.
       Inr (to_return, spinlock_release Get_current_task_lock s)))))"

definition create_task ::
  "u64 \<Rightarrow> u64 \<Rightarrow> u64 \<Rightarrow> u8 \<Rightarrow> 'a tasks_state_scheme \<Rightarrow> (u64 \<times> 'a tasks_state_scheme) result" where
  "create_task pml4 entry user_stack flags s =
     res_bind (malloc sizeof_Task s) (\<lambda>(new_task, s).
     let s = set_Task new_task (zero_Task\<lparr>is_user := True, pml4_addr := pml4,
          kernel_rsp := KERNEL_STACK_PTR, entry_point := entry, current_rsp := user_stack,
          task_flags := flags\<rparr>) s in
     res_bind (get_current_task s) (\<lambda>(cur, s).
     res_bind (get_Task cur s) (\<lambda>t.
     let dirname_len = of_nat (length (strs s (current_dir t))) in
     res_bind (malloc dirname_len s) (\<lambda>(dir, s).
     let s = set_Task new_task ((tasks s new_task)\<lparr>current_dir := dir + 1\<rparr>) s;
         s = s\<lparr>strs := (strs s)(dir + 1 := strs s (current_dir t))\<rparr> in
     res_bind (vector_push (tasklist_list s) new_task s) (\<lambda>s.
       Inr (new_task, s))))))"

text \<open>\<open>task_select\<close> calls itself when the task it picked cannot run.\<close>

definition runnable :: "Task \<Rightarrow> bool" where
  "runnable t \<longleftrightarrow> task_flags t AND TASK_PRESENT \<noteq> 0 \<and> task_flags t AND TASK_RUNNING = 0"

fun task_select_rec ::
  "nat \<Rightarrow> 'a tasks_state_scheme \<Rightarrow> (u64 \<times> 'a tasks_state_scheme) result" where
  "task_select_rec fuel s =
     (if fuel = 0 then Inl Diverged
      else
        res_bind (spinlock_aquire Scheduler_lock s) (\<lambda>s.
        res_bind (get_current_processor s) (\<lambda>(current_core_num, s).
        res_bind (vector_at (current_tasks s) current_core_num s) (\<lambda>current_task_num.
        res_bind (get_task current_task_num s) (\<lambda>current_task.
        res_bind (get_Task current_task s) (\<lambda>t.
        let s = set_Task current_task (t\<lparr>task_flags := task_flags t AND NOT TASK_RUNNING\<rparr>) s in
        res_bind (get_vec (tasklist_list s) s) (\<lambda>l.
        if vec_length l = 1 then
          res_bind (vector_set (current_tasks s) current_core_num 0 s) (\<lambda>s.
          res_bind (get_task 0 s) (\<lambda>t0. Inr (t0, s)))
        else
          res_bind (vector_set (current_tasks s) current_core_num (current_task_num + 1) s) (\<lambda>s.
          res_bind (get_vec (tasklist_list s) s) (\<lambda>l.
          res_bind
            (if vec_length l \<le> current_task_num
             then vector_set (current_tasks s) current_core_num 0 s else Inr s) (\<lambda>s.
          res_bind (get_current_task s) (\<lambda>(new_task, s).
          res_bind (get_Task new_task s) (\<lambda>n.
          if runnable n then
            let s = set_Task new_task (n\<lparr>task_flags := task_flags n OR TASK_RUNNING\<rparr>) s in
            Inr (new_task, spinlock_release Scheduler_lock s)
          else task_select_rec (fuel - 1) (spinlock_release Scheduler_lock s)))))))))))))"

declare task_select_rec.simps [simp del]

definition task_select :: "'a tasks_state_scheme \<Rightarrow> (u64 \<times> 'a tasks_state_scheme) result" where
  "task_select s = task_select_rec walk_fuel s"

section \<open>Accessors of the context switch\<close>

definition task_get_cr3 :: "u64 \<Rightarrow> 'a tasks_state_scheme \<Rightarrow> u64 result" where
  "task_get_cr3 task s = res_bind (get_Task task s) (\<lambda>t. Inr (pml4_addr t))"

definition task_get_entry_point :: "u64 \<Rightarrow> 'a tasks_state_scheme \<Rightarrow> u64 result" where
  "task_get_entry_point task s = res_bind (get_Task task s) (\<lambda>t. Inr (entry_point t))"

definition task_get_flags :: "u64 \<Rightarrow> 'a tasks_state_scheme \<Rightarrow> u64 result" where
  "task_get_flags task s = res_bind (get_Task task s) (\<lambda>t. Inr (ucast (task_flags t)))"

definition task_get_rsp :: "u64 \<Rightarrow> 'a tasks_state_scheme \<Rightarrow> u64 result" where
  "task_get_rsp task s = res_bind (get_Task task s) (\<lambda>t. Inr (current_rsp t))"

definition task_disable_first_exec :: "u64 \<Rightarrow> 'a tasks_state_scheme \<Rightarrow> 'a tasks_state_scheme result" where
  "task_disable_first_exec task s = res_bind (get_Task task s) (\<lambda>t.
     Inr (set_Task task (t\<lparr>task_flags := task_flags t AND NOT TASK_FIRST_EXEC\<rparr>) s))"

definition task_get_kernel_stack :: "u64 \<Rightarrow> 'a tasks_state_scheme \<Rightarrow> u64 result" where
  "task_get_kernel_stack task s = res_bind (get_Task task s) (\<lambda>t. Inr (kernel_rsp t))"

definition task_get_argc :: "u64 \<Rightarrow> 'a tasks_state_scheme \<Rightarrow> u64 result" where
  "task_get_argc task s = res_bind (get_Task task s) (\<lambda>t. Inr (argc t))"

definition task_get_argv :: "u64 \<Rightarrow> 'a tasks_state_scheme \<Rightarrow> u64 result" where
  "task_get_argv task s = res_bind (get_Task task s) (\<lambda>t. Inr (argv t))"

definition task_set_rsp :: "u64 \<Rightarrow> u64 \<Rightarrow> 'a tasks_state_scheme \<Rightarrow> 'a tasks_state_scheme result" where
  "task_set_rsp task rsp s = res_bind (get_Task task s) (\<lambda>t. Inr (set_Task task (t\<lparr>current_rsp := rsp\<rparr>) s))"

definition check_task_switch_allowed :: "'a tasks_state_scheme \<Rightarrow> bool" where
  "check_task_switch_allowed s = can_task_switch s"

section \<open>Ending a task\<close>

text \<open>How \<open>syscall_exit\<close> ends: it returns to the caller, or it waits in its empty loop for the timer to
  switch away, or it enters \<open>all_tasks_ended\<close>, which never returns.\<close>

datatype exit_outcome = Exit_returns | Exit_waits | Exit_all_ended

definition syscall_exit ::
  "u64 \<Rightarrow> 'a tasks_state_scheme \<Rightarrow> (exit_outcome \<times> 'a tasks_state_scheme) result" where
  "syscall_exit exit_code s =
     res_bind (get_current_processor s) (\<lambda>(current_core, s).
     res_bind (vector_at (current_tasks s) current_core s) (\<lambda>current_task_num.
     res_bind (get_current_task s) (\<lambda>(current_task, s).
     if current_task = 0 \<or> \<not> is_user (tasks s current_task) then Inr (Exit_returns, s)
     else
       res_bind (get_Task (parent (tasks s current_task)) s) (\<lambda>p.
       res_bind (add_event (event_queue p) EVENT_TASK_EXITED current_task_num exit_code s) (\<lambda>s.
       let t = tasks s current_task;
           s = set_Task current_task (t\<lparr>task_flags := task_flags t AND NOT TASK_PRESENT\<rparr>) s in
       res_bind (get_vec (tasklist_list s) s) (\<lambda>l.
         Inr (if vec_length l \<noteq> 1 then Exit_waits else Exit_all_ended, s)))))))"

section \<open>Invariant of the scheduler\<close>

definition cpu_of :: "'a tasks_state_scheme \<Rightarrow> u64" where
  "cpu_of s = ucast (drop_bit 24 (lapic_id s))"

text \<open>\<open>sched_rep s xs i\<close>: the task list holds the tasks \<open>xs\<close>, this core's current task is number \<open>i\<close>
  and the two vectors share no node.\<close>

definition sched_rep :: "'a tasks_state_scheme \<Rightarrow> u64 list \<Rightarrow> nat \<Rightarrow> bool" where
  "sched_rep s xs i \<longleftrightarrow>
     (\<exists>ns ms cs. vec_rep s (tasklist_list s) ns xs \<and> vec_rep s (current_tasks s) ms cs \<and>
        set ns \<inter> set ms = {} \<and> unat (cpu_of s) < length cs \<and> cs ! unat (cpu_of s) = of_nat i) \<and>
     i < length xs \<and> distinct xs \<and> 0 \<notin> set xs"

definition unlocked :: "'a tasks_state_scheme \<Rightarrow> bool" where
  "unlocked s \<longleftrightarrow> locks s = (\<lambda>_. False)"

lemma tasks_frames [frame_simps]:
  "vec_rep (s\<lparr>tasks := x\<rparr>) v ns xs = vec_rep s v ns xs"
  "vec_rep (s\<lparr>locks := l\<rparr>) v ns xs = vec_rep s v ns xs"
  "vec_rep (s\<lparr>strs := st\<rparr>) v ns xs = vec_rep s v ns xs"
  by (rule vec_rep_eq, simp add: vec_state.defs)+

lemma vector_at_frames [frame_simps]:
  "vector_at v i (s\<lparr>tasks := x\<rparr>) = vector_at v i s"
  "vector_at v i (s\<lparr>locks := l\<rparr>) = vector_at v i s"
  by (rule vector_at_cong; simp)+

lemma get_current_processor_free:
  assumes "\<not> locks s Current_cpu_lock"
  shows "get_current_processor s = Inr (cpu_of s, s)"
proof -
  have "s\<lparr>locks := (locks s)(Current_cpu_lock := False)\<rparr> = s" using assms by (simp add: fun_upd_idem)
  then show ?thesis
    using assms by (simp add: get_current_processor_def spinlock_aquire_def spinlock_release_def
        cpu_of_def Let_def)
qed

lemma get_current_task_free:
  assumes "\<not> locks s Current_cpu_lock" "\<not> locks s Get_current_task_lock"
  shows "get_current_task s =
    res_bind (vector_at (current_tasks s) (cpu_of s) s) (\<lambda>n. res_bind (get_task n s) (\<lambda>t. Inr (t, s)))"
proof -
  let ?s = "s\<lparr>locks := (locks s)(Get_current_task_lock := True)\<rparr>"
  have "get_current_processor ?s = Inr (cpu_of s, ?s)"
    using get_current_processor_free[of ?s] assms by (simp add: cpu_of_def)
  moreover have "s\<lparr>locks := (locks s)(Get_current_task_lock := False)\<rparr> = s"
    using assms by (simp add: fun_upd_idem)
  ultimately show ?thesis
    using assms by (simp add: get_current_task_def spinlock_aquire_def spinlock_release_def get_task_def
        frame_simps cong: res_bind_cong)
qed

text \<open>Clearing and setting the RUNNING bit.\<close>

definition stop_task :: "Task \<Rightarrow> Task" where
  "stop_task t = t\<lparr>task_flags := task_flags t AND NOT TASK_RUNNING\<rparr>"

definition run_task :: "Task \<Rightarrow> Task" where
  "run_task t = t\<lparr>task_flags := task_flags t OR TASK_RUNNING\<rparr>"

lemma sched_repE:
  assumes "sched_rep s xs i"
  obtains ns ms cs where "vec_rep s (tasklist_list s) ns xs" "vec_rep s (current_tasks s) ms cs"
    "set ns \<inter> set ms = {}" "unat (cpu_of s) < length cs" "cs ! unat (cpu_of s) = of_nat i"
    "i < length xs" "distinct xs" "0 \<notin> set xs" "length xs < 2 ^ 64"
    "tasklist_list s \<noteq> 0" "current_tasks s \<noteq> 0"
  using assms vec_repD(1,8) unfolding sched_rep_def by metis

lemma sched_rep_frames [frame_simps]:
  "sched_rep (s\<lparr>tasks := x\<rparr>) xs i = sched_rep s xs i"
  "sched_rep (s\<lparr>locks := l\<rparr>) xs i = sched_rep s xs i"
  by (simp_all add: sched_rep_def frame_simps cpu_of_def)

lemma sched_current:
  assumes "sched_rep s xs i"
  shows "vector_at (current_tasks s) (cpu_of s) s = Inr (of_nat i)" "get_task (of_nat i) s = Inr (xs ! i)"
    "xs ! i \<noteq> 0" "vec_length (vecs s (tasklist_list s)) = of_nat (length xs)"
    "get_vec (tasklist_list s) s = Inr (vecs s (tasklist_list s))"
    "get_task (of_nat (length xs)) s = Inr 0" "i < length xs" "length xs < 2 ^ 64"
proof -
  obtain ns ms cs where r: "vec_rep s (tasklist_list s) ns xs" "vec_rep s (current_tasks s) ms cs"
    "unat (cpu_of s) < length cs" "cs ! unat (cpu_of s) = of_nat i" "i < length xs" "0 \<notin> set xs"
    "length xs < 2 ^ 64" "tasklist_list s \<noteq> 0"
    by (rule sched_repE[OF assms])
  show "vector_at (current_tasks s) (cpu_of s) s = Inr (of_nat i)"
    using vector_at_rep[OF r(2), of "cpu_of s"] r(3,4) by simp
  show "get_task (of_nat i) s = Inr (xs ! i)"
    using vector_at_rep[OF r(1), of "of_nat i"] r(5,7) by (simp add: get_task_def unat_of_nat_u64)
  show "get_task (of_nat (length xs)) s = Inr 0"
    using vector_at_rep[OF r(1), of "of_nat (length xs)"] r(7) by (simp add: get_task_def unat_of_nat_u64)
  show "xs ! i \<noteq> 0" using r(5,6) nth_mem[of i xs] by force
  show "vec_length (vecs s (tasklist_list s)) = of_nat (length xs)" using vec_repD(5)[OF r(1)] .
  show "get_vec (tasklist_list s) s = Inr (vecs s (tasklist_list s))" using r(8) by (simp add: get_vec_def)
  show "i < length xs" "length xs < 2 ^ 64" by (rule r)+
qed

text \<open>Storing the number of the current task: only nodes of \<open>current_tasks\<close> change. Storing the length
  of the task list, one past its end, leaves no current task.\<close>

lemma sched_set_current:
  assumes ok: "sched_rep s xs i"
  shows "\<exists>st. vector_set (current_tasks s) (cpu_of s) (of_nat j) s = Inr (s\<lparr>vnodes := st\<rparr>) \<and>
    (j < length xs \<longrightarrow> sched_rep (s\<lparr>vnodes := st\<rparr>) xs j) \<and>
    vector_at (current_tasks s) (cpu_of s) (s\<lparr>vnodes := st\<rparr>) = Inr (of_nat j) \<and>
    get_task k (s\<lparr>vnodes := st\<rparr>) = get_task k s"
proof -
  obtain ns ms cs where r: "vec_rep s (tasklist_list s) ns xs" "vec_rep s (current_tasks s) ms cs"
    "set ns \<inter> set ms = {}" "unat (cpu_of s) < length cs" "i < length xs" "distinct xs" "0 \<notin> set xs"
    by (rule sched_repE[OF ok])
  define cs' where "cs' = cs[unat (cpu_of s) := of_nat j]"
  obtain s' st where s': "vector_set (current_tasks s) (cpu_of s) (of_nat j) s = Inr s'"
    "s' = s\<lparr>vnodes := st\<rparr>" "vec_rep s' (current_tasks s) ms cs'"
    "\<And>n. n \<notin> set ms \<Longrightarrow> st n = vnodes s n"
    using vector_set_rep[OF r(2), of "cpu_of s" "of_nat j"] r(4) by (auto simp: cs'_def)
  have l: "vec_rep s' (tasklist_list s) ns xs"
    using r(3) s'(2,4) by (intro vec_rep_cong[OF r(1)]) (auto simp: frame_simps)
  have f: "tasklist_list s' = tasklist_list s" "current_tasks s' = current_tasks s" "cpu_of s' = cpu_of s"
    using s'(2) by (simp_all add: cpu_of_def)
  have c: "unat (cpu_of s) < length cs'" "cs' ! unat (cpu_of s) = of_nat j" using r(4) by (simp_all add: cs'_def)
  have "sched_rep s' xs j" if "j < length xs"
    unfolding sched_rep_def f using l s'(3) r c that by blast
  moreover have "vector_at (current_tasks s) (cpu_of s) s' = Inr (of_nat j)"
    using vector_at_rep[OF s'(3), of "cpu_of s"] c by simp
  moreover have "get_task k s' = get_task k s"
    unfolding get_task_def f vector_at_rep[OF l] vector_at_rep[OF r(1)] ..
  ultimately show ?thesis using s' by blast
qed

text \<open>Advancing the current task by one, with the scheduler's lock held: the state \<open>task_select\<close> is in
  when it looks at the task it picked.\<close>

lemma advance_current:
  assumes ok: "sched_rep s xs i" and u: "\<not> locks s Current_cpu_lock" "\<not> locks s Get_current_task_lock"
  shows "\<exists>st. vector_set (current_tasks s) (cpu_of s) (of_nat i + 1) s = Inr (s\<lparr>vnodes := st\<rparr>) \<and>
    (Suc i < length xs \<longrightarrow> sched_rep (s\<lparr>vnodes := st\<rparr>) xs (Suc i)) \<and>
    get_current_task (s\<lparr>vnodes := st\<rparr>) =
      Inr (if Suc i < length xs then xs ! Suc i else 0, s\<lparr>vnodes := st\<rparr>)"
proof -
  obtain st where st: "vector_set (current_tasks s) (cpu_of s) (of_nat (Suc i)) s = Inr (s\<lparr>vnodes := st\<rparr>)"
    "Suc i < length xs \<Longrightarrow> sched_rep (s\<lparr>vnodes := st\<rparr>) xs (Suc i)"
    "vector_at (current_tasks s) (cpu_of s) (s\<lparr>vnodes := st\<rparr>) = Inr (of_nat (Suc i))"
    "get_task (of_nat (Suc i)) (s\<lparr>vnodes := st\<rparr>) = get_task (of_nat (Suc i)) s"
    using sched_set_current[OF ok, of "Suc i" "of_nat (Suc i)"] by blast
  have "get_task (of_nat (Suc i)) (s\<lparr>vnodes := st\<rparr>) = Inr (if Suc i < length xs then xs ! Suc i else 0)"
  proof (cases "Suc i < length xs")
    case True
    then show ?thesis using sched_current(2)[OF st(2)] by simp
  next
    case False
    then have "Suc i = length xs" using sched_current(7)[OF ok] by simp
    then show ?thesis using sched_current(6)[OF ok] st(4) by simp
  qed
  then have "get_current_task (s\<lparr>vnodes := st\<rparr>) =
      Inr (if Suc i < length xs then xs ! Suc i else 0, s\<lparr>vnodes := st\<rparr>)"
    using get_current_task_free[of "s\<lparr>vnodes := st\<rparr>"] u st(3) by (simp add: cpu_of_def)
  with st(1,2) show ?thesis by (auto simp: add.commute)
qed

lemma task_select_body:
  assumes ok: "sched_rep s xs i" and u: "unlocked s" and two: "2 \<le> length xs" and fuel: "0 < fuel"
  shows "\<exists>s'. tasks s' = (tasks s)(xs ! i := stop_task (tasks s (xs ! i))) \<and>
    locks s' = (locks s)(Scheduler_lock := True) \<and> (Suc i < length xs \<longrightarrow> sched_rep s' xs (Suc i)) \<and>
    task_select_rec fuel s =
      res_bind (get_Task (if Suc i < length xs then xs ! Suc i else 0) s') (\<lambda>n.
        if runnable n then Inr (xs ! Suc i, spinlock_release Scheduler_lock
          (set_Task (xs ! Suc i) (run_task n) s'))
        else task_select_rec (fuel - 1) (spinlock_release Scheduler_lock s'))"
proof -
  let ?t = "(tasks s)(xs ! i := stop_task (tasks s (xs ! i)))"
  let ?s0 = "s\<lparr>locks := (locks s)(Scheduler_lock := True)\<rparr>"
  define s1 where "s1 = ?s0\<lparr>tasks := ?t\<rparr>"
  have un: "\<not> locks s l" for l using u by (simp add: unlocked_def)
  note C = sched_current[OF ok]
  have ok1: "sched_rep s1 xs i" using ok by (simp add: s1_def frame_simps)
  have f1: "tasklist_list s1 = tasklist_list s" "current_tasks s1 = current_tasks s" "cpu_of s1 = cpu_of s"
    "vecs s1 = vecs s" "\<not> locks s1 Current_cpu_lock" "\<not> locks s1 Get_current_task_lock"
    using un by (simp_all add: s1_def cpu_of_def)
  obtain st where st: "vector_set (current_tasks s) (cpu_of s) (of_nat i + 1) s1 = Inr (s1\<lparr>vnodes := st\<rparr>)"
    "Suc i < length xs \<Longrightarrow> sched_rep (s1\<lparr>vnodes := st\<rparr>) xs (Suc i)"
    "get_current_task (s1\<lparr>vnodes := st\<rparr>) =
       Inr (if Suc i < length xs then xs ! Suc i else 0, s1\<lparr>vnodes := st\<rparr>)"
    using advance_current[OF ok1 f1(5,6)] f1(2,3) by auto
  define s2 where "s2 = s1\<lparr>vnodes := st\<rparr>"
  have len: "(of_nat (length xs) :: u64) \<noteq> 1" "\<not> (of_nat (length xs) :: u64) \<le> of_nat i"
    using two C(7,8) of_nat_inj_u64[of "length xs" 1] by (simp_all add: word_le_nat_alt unat_of_nat_u64)
  have p: "get_current_processor ?s0 = Inr (cpu_of s, ?s0)"
    using get_current_processor_free[of ?s0] un by (simp add: cpu_of_def)
  have g: "get_vec (tasklist_list s) s1 = Inr (vecs s (tasklist_list s))"
    "get_vec (tasklist_list s) s2 = Inr (vecs s (tasklist_list s))" "tasklist_list s2 = tasklist_list s"
    using C(5) by (simp_all add: get_vec_def s1_def s2_def split: if_splits)
  have gt: "get_task (of_nat i) ?s0 = Inr (xs ! i)" using C(2) by (simp add: get_task_def frame_simps)
  have s1': "set_Task (xs ! i) ((tasks s (xs ! i))\<lparr>task_flags :=
      task_flags (tasks s (xs ! i)) AND NOT TASK_RUNNING\<rparr>) ?s0 = s1"
    by (simp add: set_Task_def s1_def stop_task_def)
  have "task_select_rec fuel s =
      res_bind (get_Task (if Suc i < length xs then xs ! Suc i else 0) s2) (\<lambda>n.
        if runnable n then Inr (xs ! Suc i, spinlock_release Scheduler_lock
          (set_Task (xs ! Suc i) (run_task n) s2))
        else task_select_rec (fuel - 1) (spinlock_release Scheduler_lock s2))"
    using fuel un p C(1,3,4) gt g len st(1,3) f1
    by (subst task_select_rec.simps)
      (simp add: spinlock_aquire_def frame_simps get_Task_def s1' Let_def s2_def[symmetric] run_task_def
        cong: if_cong)
  moreover have "tasks s2 = ?t" "locks s2 = (locks s)(Scheduler_lock := True)"
    by (simp_all add: s2_def s1_def)
  ultimately show ?thesis using st(2) s2_def by blast
qed

lemma task_select_round:
  assumes ok: "sched_rep s xs i" and u: "unlocked s" and two: "2 \<le> length xs" and fuel: "0 < fuel"
  shows "Suc i = length xs \<Longrightarrow> task_select_rec fuel s = Inl NullDeref"
    "Suc i < length xs \<Longrightarrow> \<exists>s'. sched_rep s' xs (Suc i) \<and> unlocked s' \<and>
       tasks s' = (tasks s)(xs ! i := stop_task (tasks s (xs ! i))) \<and>
       task_select_rec fuel s =
         (if runnable (tasks s (xs ! Suc i))
          then Inr (xs ! Suc i, set_Task (xs ! Suc i) (run_task (tasks s (xs ! Suc i))) s')
          else task_select_rec (fuel - 1) s')"
proof -
  obtain s2 where s2: "tasks s2 = (tasks s)(xs ! i := stop_task (tasks s (xs ! i)))"
    "locks s2 = (locks s)(Scheduler_lock := True)" "Suc i < length xs \<Longrightarrow> sched_rep s2 xs (Suc i)"
    and body: "task_select_rec fuel s =
      res_bind (get_Task (if Suc i < length xs then xs ! Suc i else 0) s2) (\<lambda>n.
        if runnable n then Inr (xs ! Suc i, spinlock_release Scheduler_lock
          (set_Task (xs ! Suc i) (run_task n) s2))
        else task_select_rec (fuel - 1) (spinlock_release Scheduler_lock s2))"
    using task_select_body[OF assms] by blast
  show "task_select_rec fuel s = Inl NullDeref" if "Suc i = length xs"
    unfolding body using that by (simp add: get_Task_def)
  let ?s' = "spinlock_release Scheduler_lock s2"
  assume lt: "Suc i < length xs"
  have ok2: "sched_rep ?s' xs (Suc i)" using s2(3)[OF lt] by (simp add: spinlock_release_def frame_simps)
  have "unlocked ?s'" "tasks ?s' = tasks s2"
    using u s2(2) by (simp_all add: spinlock_release_def unlocked_def fun_upd_idem)
  moreover have "xs ! Suc i \<noteq> xs ! i"
    using ok lt unfolding sched_rep_def by (metis Suc_lessD n_not_Suc_n nth_eq_iff_index_eq)
  moreover have "spinlock_release Scheduler_lock (set_Task p x s2) = set_Task p x ?s'" for p x
    by (simp add: spinlock_release_def set_Task_def)
  ultimately show "\<exists>s'. sched_rep s' xs (Suc i) \<and> unlocked s' \<and>
       tasks s' = (tasks s)(xs ! i := stop_task (tasks s (xs ! i))) \<and>
       task_select_rec fuel s =
         (if runnable (tasks s (xs ! Suc i))
          then Inr (xs ! Suc i, set_Task (xs ! Suc i) (run_task (tasks s (xs ! Suc i))) s')
          else task_select_rec (fuel - 1) s')"
    unfolding body using s2(1) ok2 sched_current(3)[OF ok2] lt
    by (intro exI[of _ ?s']) (simp add: get_Task_def)
qed

text \<open>All rounds: \<open>task_select\<close> moves forward to the first task behind the current one that can run,
  clearing the RUNNING bit of every task it passes; there is no way back to the front of the list.\<close>

lemma task_select_rec_picks:
  assumes "sched_rep s xs i" "unlocked s" "2 \<le> length xs" "j - i \<le> fuel"
    and "i < j" "j < length xs" "runnable (tasks s (xs ! j))"
    and "\<And>k. i < k \<Longrightarrow> k < j \<Longrightarrow> \<not> runnable (tasks s (xs ! k))"
  shows "\<exists>s'. task_select_rec fuel s = Inr (xs ! j, s') \<and> sched_rep s' xs j \<and> unlocked s' \<and>
    (\<forall>k < length xs. tasks s' (xs ! k) =
       (if k = j then run_task (tasks s (xs ! k))
        else if i \<le> k \<and> k < j then stop_task (tasks s (xs ! k)) else tasks s (xs ! k)))"
  using assms
proof (induction "j - i" arbitrary: i s fuel)
  case (Suc d)
  have dist: "xs ! k = xs ! l \<longleftrightarrow> k = l" if "k < length xs" "l < length xs" for k l
    using Suc.prems(1) that by (simp add: sched_rep_def nth_eq_iff_index_eq)
  obtain s' where s': "sched_rep s' xs (Suc i)" "unlocked s'"
    "tasks s' = (tasks s)(xs ! i := stop_task (tasks s (xs ! i)))"
    "task_select_rec fuel s = (if runnable (tasks s (xs ! Suc i))
          then Inr (xs ! Suc i, set_Task (xs ! Suc i) (run_task (tasks s (xs ! Suc i))) s')
          else task_select_rec (fuel - 1) s')"
    using task_select_round(2)[OF Suc.prems(1-3), of fuel] Suc.prems(4-6) by fastforce
  have same: "tasks s' (xs ! k) = tasks s (xs ! k)" if "k < length xs" "k \<noteq> i" for k
    using s'(3) dist[of k i] that Suc.prems(5,6) by simp
  show ?case
  proof (cases "Suc i = j")
    case True
    let ?u = "set_Task (xs ! j) (run_task (tasks s (xs ! j))) s'"
    have "task_select_rec fuel s = Inr (xs ! j, ?u)" using s'(4) True Suc.prems(7) by simp
    moreover have "sched_rep ?u xs j" "unlocked ?u"
      using s'(1,2) True by (simp_all add: set_Task_def frame_simps unlocked_def)
    moreover have "tasks ?u (xs ! k) = (if k = j then run_task (tasks s (xs ! k))
        else if i \<le> k \<and> k < j then stop_task (tasks s (xs ! k)) else tasks s (xs ! k))"
      if "k < length xs" for k
      using that same[of k] dist[of k j] dist[of k i] s'(3) True Suc.prems(5,6)
      by (auto simp: set_Task_def)
    ultimately show ?thesis by blast
  next
    case False
    then have lt: "Suc i < j" using Suc.prems(5) by simp
    then have "\<not> runnable (tasks s (xs ! Suc i))" by (intro Suc.prems(8)) auto
    then have r: "task_select_rec fuel s = task_select_rec (fuel - 1) s'" using s'(4) by simp
    have "\<exists>s''. task_select_rec (fuel - 1) s' = Inr (xs ! j, s'') \<and> sched_rep s'' xs j \<and> unlocked s'' \<and>
      (\<forall>k < length xs. tasks s'' (xs ! k) = (if k = j then run_task (tasks s' (xs ! k))
        else if Suc i \<le> k \<and> k < j then stop_task (tasks s' (xs ! k)) else tasks s' (xs ! k)))"
      using Suc.hyps(2) Suc.prems lt same by (intro Suc.hyps(1)[OF _ s'(1,2)]) auto
    then obtain s'' where s'': "task_select_rec (fuel - 1) s' = Inr (xs ! j, s'')" "sched_rep s'' xs j" "unlocked s''"
      "\<And>k. k < length xs \<Longrightarrow> tasks s'' (xs ! k) = (if k = j then run_task (tasks s' (xs ! k))
        else if Suc i \<le> k \<and> k < j then stop_task (tasks s' (xs ! k)) else tasks s' (xs ! k))" by blast
    have "tasks s'' (xs ! k) = (if k = j then run_task (tasks s (xs ! k))
        else if i \<le> k \<and> k < j then stop_task (tasks s (xs ! k)) else tasks s (xs ! k))"
      if "k < length xs" for k
      using s''(4)[OF that] same[OF that] s'(3) lt by (cases "k = i") auto
    then show ?thesis using r s''(1-3) by auto
  qed
qed simp

lemma task_select_rec_none:
  assumes "sched_rep s xs i" "unlocked s" "2 \<le> length xs" "length xs - i \<le> fuel"
    and "\<And>k. i < k \<Longrightarrow> k < length xs \<Longrightarrow> \<not> runnable (tasks s (xs ! k))"
  shows "task_select_rec fuel s = Inl NullDeref"
  using assms
proof (induction "length xs - i" arbitrary: i s fuel)
  case (Suc d)
  have f: "0 < fuel" using Suc.hyps(2) Suc.prems(4) by simp
  show ?case
  proof (cases "Suc i = length xs")
    case True
    then show ?thesis using task_select_round(1)[OF Suc.prems(1-3) f] by simp
  next
    case False
    then have lt: "Suc i < length xs" using Suc.hyps(2) by simp
    obtain s' where s': "sched_rep s' xs (Suc i)" "unlocked s'"
      "tasks s' = (tasks s)(xs ! i := stop_task (tasks s (xs ! i)))"
      "task_select_rec fuel s = task_select_rec (fuel - 1) s'"
      using task_select_round(2)[OF Suc.prems(1-3) f lt] Suc.prems(5)[of "Suc i"] lt by auto
    have "\<not> runnable (tasks s' (xs ! k))" if "Suc i < k" "k < length xs" for k
    proof -
      have "xs ! k \<noteq> xs ! i" using Suc.prems(1) that by (simp add: sched_rep_def nth_eq_iff_index_eq)
      then show ?thesis using Suc.prems(5)[of k] that s'(3) by simp
    qed
    then show ?thesis
      using s'(4) Suc.hyps(2) Suc.prems(3,4) by (simp add: Suc.hyps(1)[OF _ s'(1,2)])
  qed
next
  case 0
  then show ?case using sched_current(7) by fastforce
qed

text \<open>The end of a task.\<close>

lemma tasks_of_more:
  assumes "events_state.more s' = events_state.more s"
  shows "tasks s' = tasks s" "tasklist_list s' = tasklist_list s" "strs s' = strs s" "locks s' = locks s"
    "current_tasks s' = current_tasks s"
  using assms by (cases s, cases s', simp)+

lemma queue_holds_tasks [frame_simps]: "queue_holds (s\<lparr>tasks := x\<rparr>) q evs = queue_holds s q evs"
proof -
  have "vec_holds (s\<lparr>tasks := x\<rparr>) v as = vec_holds s v as" "live (s\<lparr>tasks := x\<rparr>) = live s" for v as
    unfolding vec_holds_def using vec_rep_eq[of "s\<lparr>tasks := x\<rparr>" s] by (simp_all add: vec_state.defs)
  then show ?thesis by (simp add: queue_holds_def queue_addrs_def)
qed

definition exit_event :: "nat \<Rightarrow> u64 \<Rightarrow> Event" where
  "exit_event i code = \<lparr>do_handle = True, event_id = EVENT_TASK_EXITED, event_data0 = of_nat i, event_data1 = code\<rparr>"

definition end_flags :: "Task \<Rightarrow> Task" where
  "end_flags t = t\<lparr>task_flags := task_flags t AND NOT TASK_PRESENT\<rparr>"

lemma end_flags_absent: "task_flags (end_flags t) AND TASK_PRESENT = 0"
  by (simp add: end_flags_def and.assoc)

lemma syscall_exit_user:
  assumes ok: "sched_rep s xs i" "unlocked s" and two: "2 \<le> length xs" and inv: "heap_inv s"
    and user: "is_user (tasks s (xs ! i))" and p: "p = parent (tasks s (xs ! i))" "p \<noteq> 0"
    and q: "q = event_queue (tasks s p)" "queue_addrs s q as" "queue q \<noteq> tasklist_list s"
  shows "syscall_exit code s =
      (case add_event q EVENT_TASK_EXITED (of_nat i) code s of
         Inl e \<Rightarrow> Inl e
       | Inr s1 \<Rightarrow> Inr (Exit_waits, s1\<lparr>tasks := (tasks s)(xs ! i := end_flags (tasks s (xs ! i)))\<rparr>))"
proof -
  have un: "\<not> locks s l" for l using ok(2) by (simp add: unlocked_def)
  note C = sched_current[OF ok(1)]
  have cpu: "get_current_processor s = Inr (cpu_of s, s)" by (rule get_current_processor_free[OF un])
  have cur: "get_current_task s = Inr (xs ! i, s)" using get_current_task_free[OF un un] C(1,2) by simp
  have two': "(of_nat (length xs) :: u64) \<noteq> 1"
    using two C(8) of_nat_inj_u64[of "length xs" 1] by simp
  have pre: "syscall_exit code s =
      res_bind (add_event q EVENT_TASK_EXITED (of_nat i) code s) (\<lambda>s.
        let t = tasks s (xs ! i);
            s = set_Task (xs ! i) (t\<lparr>task_flags := task_flags t AND NOT TASK_PRESENT\<rparr>) s in
        res_bind (get_vec (tasklist_list s) s) (\<lambda>l.
          Inr (if vec_length l \<noteq> 1 then Exit_waits else Exit_all_ended, s)))"
    using cpu cur C(1,3) user p q(1) by (simp add: syscall_exit_def get_Task_def)
  show ?thesis
  proof (cases "add_event q EVENT_TASK_EXITED (of_nat i) code s")
    case (Inl e)
    then show ?thesis unfolding pre by simp
  next
    case (Inr s1)
    note F = add_event_frame[OF inv Inr]
    note T = tasks_of_more[OF F(1)]
    have "vecs s1 (tasklist_list s) = vecs s (tasklist_list s)" using F(2) q(3) by simp
    moreover have "tasklist_list s \<noteq> 0" using C(5) by (auto simp: get_vec_def split: if_splits)
    ultimately show ?thesis
      using Inr T C(4) two' unfolding pre by (auto simp: Let_def set_Task_def get_vec_def end_flags_def)
  qed
qed

text \<open>With room for an event and a node of the queue the exit goes through.\<close>

lemma syscall_exit_room:
  assumes "sched_rep s xs i" "unlocked s" "2 \<le> length xs" "roomy (110 + k) s"
    and "is_user (tasks s (xs ! i))" "p = parent (tasks s (xs ! i))" "p \<noteq> 0"
    and q: "q = event_queue (tasks s p)" "queue_addrs s q as" "queue q \<noteq> tasklist_list s"
  shows "\<exists>s1 a. syscall_exit code s = Inr (Exit_waits, s1\<lparr>tasks := (tasks s)(xs ! i := end_flags (tasks s (xs ! i)))\<rparr>) \<and>
      queue_addrs s1 q (as @ [a]) \<and> a \<notin> set as \<and> events s1 = (events s)(a := exit_event i code) \<and>
      events_state.more s1 = events_state.more s \<and> roomy k s1"
proof -
  note inv = roomy_inv[OF assms(4)]
  obtain s1 a where a: "add_event q EVENT_TASK_EXITED (of_nat i) code s = Inr s1" "roomy k s1"
    "queue_addrs s1 q (as @ [a])" "a \<notin> set as" "events s1 = (events s)(a := exit_event i code)"
    using add_event_room[OF q(2) assms(4), of EVENT_TASK_EXITED "of_nat i" code] by (auto simp: exit_event_def)
  then show ?thesis
    using syscall_exit_user[OF assms(1-3) inv assms(5-7) q, of code] add_event_frame(1)[OF inv a(1)] by auto
qed

lemma task_select_single:
  assumes ok: "sched_rep s [t] 0" and u: "unlocked s"
  shows "\<exists>s'. task_select s = Inr (t, s') \<and> locks s' Scheduler_lock"
proof -
  let ?s0 = "s\<lparr>locks := (locks s)(Scheduler_lock := True)\<rparr>"
  have un: "\<not> locks s l" for l using u by (simp add: unlocked_def)
  note C = sched_current[OF ok]
  define s1 where "s1 = set_Task t (stop_task (tasks s t)) ?s0"
  have ok1: "sched_rep s1 [t] 0" using ok by (simp add: s1_def set_Task_def frame_simps)
  have p: "get_current_processor ?s0 = Inr (cpu_of s, ?s0)"
    using get_current_processor_free[of ?s0] un by (simp add: cpu_of_def)
  obtain st where st: "vector_set (current_tasks s) (cpu_of s) 0 s1 = Inr (s1\<lparr>vnodes := st\<rparr>)"
    "get_task 0 (s1\<lparr>vnodes := st\<rparr>) = get_task 0 s1"
    using sched_set_current[OF ok1, of 0 0] by (auto simp: s1_def set_Task_def cpu_of_def)
  have g: "get_task 0 s1 = Inr t" "get_vec (tasklist_list s) s1 = Inr (vecs s (tasklist_list s))"
    "tasklist_list s1 = tasklist_list s" "current_tasks s1 = current_tasks s"
    "vec_length (vecs s (tasklist_list s)) = 1" "get_task 0 ?s0 = Inr t" "t \<noteq> 0"
    "vector_at (current_tasks s) (cpu_of s) s = Inr 0"
    using sched_current(2)[OF ok1] C
    by (simp_all add: s1_def set_Task_def get_vec_def get_task_def frame_simps split: if_splits)
  have "task_select s = Inr (t, s1\<lparr>vnodes := st\<rparr>)"
    unfolding task_select_def
    using p un g st
    by (subst task_select_rec.simps)
      (simp add: spinlock_aquire_def walk_fuel_def frame_simps get_Task_def Let_def stop_task_def[symmetric]
        s1_def[symmetric])
  then show ?thesis by (simp add: s1_def set_Task_def)
qed

lemma task_select_locked: "locks s Scheduler_lock \<Longrightarrow> task_select s = Inl Diverged"
  by (simp add: task_select_def task_select_rec.simps spinlock_aquire_def walk_fuel_def)

lemma queue_addrs_tasks [frame_simps]: "queue_addrs (s\<lparr>tasks := x\<rparr>) q as = queue_addrs s q as"
proof -
  have "vec_holds (s\<lparr>tasks := x\<rparr>) v as = vec_holds s v as" "live (s\<lparr>tasks := x\<rparr>) = live s" for v as
    unfolding vec_holds_def using vec_rep_eq[of "s\<lparr>tasks := x\<rparr>" s] by (simp_all add: vec_state.defs)
  then show ?thesis by (simp add: queue_addrs_def)
qed

lemma queue_appended:
  assumes "queue_addrs s1 q (as @ [a])" "a \<notin> set as" "events s1 = (events s)(a := E)"
  shows "queue_holds s1 q (map (events s) as @ [E])"
proof -
  have "map (events s) as @ [E] = map (events s1) (as @ [a])" using assms(2,3) by auto
  with assms(1) show ?thesis unfolding queue_holds_def by blast
qed

section \<open>A concrete scheduler\<close>

lemma malloc_many:
  assumes "roomy (51 * n + k) (s :: 'a kheap_state_scheme)"
  shows "\<exists>as (s' :: 'a kheap_state_scheme). roomy k s' \<and> length as = n \<and> distinct as \<and>
    (\<forall>a \<in> set as. live s' a = Some 24) \<and> memmap s' = memmap s \<and> hhdm s' = hhdm s"
  using assms
proof (induction n arbitrary: k)
  case 0
  then show ?case by (intro exI[of _ "[]"] exI[of _ s]) simp
next
  case (Suc n)
  then have "roomy (51 * n + (51 + k)) s" by (simp add: add.assoc[symmetric] add.commute)
  from Suc.IH[OF this] obtain as and s' :: "'a kheap_state_scheme" where s': "roomy (51 + k) s'" "length as = n"
    "distinct as" "\<And>a. a \<in> set as \<Longrightarrow> live s' a = Some 24" "memmap s' = memmap s" "hhdm s' = hhdm s" by blast
  obtain b s'' where b: "malloc 24 s' = Inr (b, s'')" "roomy k s''"
    using malloc_room[of 24 k s'] s'(1) by auto
  have "live s' b = None" "live s'' = (live s')(b \<mapsto> 24)"
    using kheap.alloc_ok[OF roomy_inv[OF s'(1)] _ b(1)] by simp_all
  moreover have "memmap s'' = memmap s" "hhdm s'' = hhdm s"
    by (rule malloc_frame[OF roomy_inv[OF s'(1)] _ b(1)]; simp add: s'(5,6))+
  ultimately show ?case using s' b(2) by (intro exI[of _ "b # as"] exI[of _ s'']) auto
qed

text \<open>Two tasks at the addresses 0x1000 (the kernel's own) and 0x2000, its child, both present.\<close>

definition sample_task :: "bool \<Rightarrow> u64 \<Rightarrow> u8 \<Rightarrow> Task" where
  "sample_task usr v f = zero_Task\<lparr>is_user := usr, event_queue := \<lparr>queue = v\<rparr>, parent := 0x1000, task_flags := f\<rparr>"

definition sample_tasks :: "kheap_state \<Rightarrow> tasks_state" where
  "sample_tasks s = events_state.extend (vec_state.extend (sample_vecs s) \<lparr>events = (\<lambda>_. no_event)\<rparr>)
     \<lparr>tasks = (\<lambda>_. zero_Task), strs = (\<lambda>_. []), tasklist_list = 0, current_tasks = 0,
      locks = (\<lambda>_. False), cr3 = 0, cpu_count = 1, lapic_id = 0, can_task_switch = True,
      all_tasks_ended_addr = 0\<rparr>"

lemmas sample_tasks_defs = sample_tasks_def sample_vecs_def kheap_state.defs vec_state.defs events_state.defs

lemma sample_blocks:
  "\<exists>(s :: tasks_state) l c q n1 n2 n3. roomy 90000 s \<and> distinct [l, c, q, n1, n2, n3, 0] \<and>
     (\<forall>a \<in> {l, c, q, n1, n2, n3}. live s a = Some 24) \<and> memmap s = sample_memmap \<and> hhdm s = 0xffff800000000000"
proof -
  obtain s0 :: kheap_state where s0: "roomy 100000 s0" and mm: "memmap s0 = sample_memmap" "hhdm s0 = 0xffff800000000000"
    using large_heap by blast
  let ?t = "sample_tasks s0"
  have "roomy (51 * 6 + 90000) ?t = roomy (51 * 6 + 90000) s0" by (rule heap_cong) (simp add: sample_tasks_defs)
  then have "roomy (51 * 6 + 90000) ?t" using roomy_mono[OF s0] by simp
  from malloc_many[OF this] obtain as and s :: tasks_state where s: "roomy 90000 s" "length as = 6"
    "distinct as" "\<forall>a \<in> set as. live s a = Some 24" "memmap s = memmap ?t" "hhdm s = hhdm ?t" by blast
  have m: "memmap s = sample_memmap" "hhdm s = 0xffff800000000000" using s(5,6) mm by (simp_all add: sample_tasks_defs)
  obtain l c q n1 n2 n3 where as: "as = [l, c, q, n1, n2, n3]"
    using s(2) by (auto simp: length_Suc_conv eval_nat_numeral)
  have nz: "a \<noteq> 0" if "a \<in> set as" for a using live_nonnull[OF roomy_inv[OF s(1)]] s(4) that by auto
  have "distinct (as @ [0])" using s(3) nz by auto
  then have "distinct [l, c, q, n1, n2, n3, 0]" unfolding as by simp
  moreover have "\<forall>a \<in> {l, c, q, n1, n2, n3}. live s a = Some 24" using s(4) unfolding as by simp
  ultimately show ?thesis using s(1) m by blast
qed

lemma sample_sched_list:
  assumes "ts = [t0] \<or> ts = [t0, t1]" "distinct (0 # ts)" "i < length ts"
  shows "\<exists>(s :: tasks_state) q. sched_rep s ts i \<and> unlocked s \<and> heap_inv s \<and> roomy 90000 s \<and>
     tasks s 0x1000 = sample_task False q 1 \<and> tasks s 0x2000 = sample_task True q 1 \<and>
     queue_holds s \<lparr>queue = q\<rparr> [] \<and> q \<noteq> tasklist_list s \<and> memmap s = sample_memmap \<and> hhdm s = 0xffff800000000000"
proof -
  obtain s :: tasks_state and l c q n1 n2 n3 where s: "roomy 90000 s" "distinct [l, c, q, n1, n2, n3, 0]"
     "\<forall>a \<in> {l, c, q, n1, n2, n3}. live s a = Some 24" "memmap s = sample_memmap" "hhdm s = 0xffff800000000000"
    using sample_blocks by blast
  define ns where "ns = take (length ts) [n1, n2]"
  define u :: tasks_state where "u = s\<lparr>
    vecs := (\<lambda>a. \<lparr>data_size = 8, vec_length = (if a = l then of_nat (length ts) else if a = c then 1 else 0),
      first_node = (if a = l then n1 else if a = c then n3 else 0)\<rparr>),
    vnodes := (\<lambda>a. \<lparr>vn_index = 0, next_node = (if a = n1 \<and> length ts = 2 then n2 else 0),
      data_addr = (if a = n1 then t0 else if a = n2 then t1 else of_nat i)\<rparr>),
    tasks := (\<lambda>a. sample_task (a = 0x2000) q 1), tasklist_list := l, current_tasks := c,
    locks := (\<lambda>_. False), lapic_id := 0\<rparr>"
  have h: "live u = live s" "heap_inv u = heap_inv s" "roomy 90000 u = roomy 90000 s"
    by (rule heap_cong, simp add: u_def kheap_state.defs)+
  have ne: "distinct (rev [l, c, q, n1, n2, n3, 0])" using s(2) by (simp only: distinct_rev)
  consider "ts = [t0]" "ns = [n1]" | "ts = [t0, t1]" "ns = [n1, n2]"
    using assms(1) by (auto simp: ns_def)
  then have r1: "vec_rep u l ns ts"
    using s(2,3) ne by cases (simp_all add: vec_rep_def h(1), simp_all add: u_def)
  have r: "vec_rep u c [n3] [of_nat i]" "vec_rep u q [] []"
    using s(2,3) ne by (simp_all add: vec_rep_def h(1)) (simp_all add: u_def)
  have f: "tasklist_list u = l" "current_tasks u = c" "cpu_of u = 0" "unlocked u"
    "tasks u 0x1000 = sample_task False q 1" "tasks u 0x2000 = sample_task True q 1"
    by (simp_all add: u_def cpu_of_def unlocked_def)
  have "sched_rep u ts i"
    unfolding sched_rep_def f using r1 r assms s(2)
    by (intro conjI exI[of _ ns] exI[of _ "[n3]"] exI[of _ "[of_nat i]"]) (auto simp: ns_def)
  moreover have "heap_inv u" using h(2) roomy_inv[OF s(1)] by simp
  moreover from this have "queue_holds u \<lparr>queue = q\<rparr> []"
    using r(2) by (auto simp: queue_holds_def queue_addrs_def vec_holds_def)
  moreover have "memmap u = sample_memmap" "hhdm u = 0xffff800000000000" using s(4,5) by (simp_all add: u_def)
  ultimately show ?thesis using h(3) s(1,2) f by (intro exI[of _ u] exI[of _ q]) auto
qed

lemmas sample_sched = sample_sched_list[of "[0x1000, 0x2000]" "0x1000" "0x2000", simplified]

section \<open>Properties\<close>

text \<open>C22. With at least two tasks, \<open>task_select\<close> switches to the first task behind the current one that is
  present and not running: it becomes the core's current task and is marked running, the tasks
  passed over lose their running mark, the others keep their flags, and every lock is free again.\<close>

theorem task_select_next:
  assumes "sched_rep s xs i" and "unlocked s" and "2 \<le> length xs" and "i < j" and "j < length xs"
    and "runnable (tasks s (xs ! j))" and "\<forall>k. i < k \<and> k < j \<longrightarrow> \<not> runnable (tasks s (xs ! k))"
  shows "\<exists>s'. task_select s = Inr (xs ! j, s') \<and> sched_rep s' xs j \<and> unlocked s' \<and>
    (\<forall>k < length xs. tasks s' (xs ! k) =
       (if k = j then run_task (tasks s (xs ! k))
        else if i \<le> k \<and> k < j then stop_task (tasks s (xs ! k)) else tasks s (xs ! k)))"
proof -
  have "j - i \<le> walk_fuel" using assms(5) sched_current(8)[OF assms(1)] by (simp add: walk_fuel_def)
  then show ?thesis unfolding task_select_def using assms by (intro task_select_rec_picks) auto
qed

theorem task_select_next_witness:
  "\<exists>(s :: tasks_state) s'. sched_rep s [0x1000, 0x2000] 0 \<and> task_select s = Inr (0x2000, s') \<and>
     task_flags (tasks s' 0x2000) = 5"
proof -
  obtain s :: tasks_state and q where s: "sched_rep s [0x1000, 0x2000] 0" "unlocked s"
    "tasks s 0x2000 = sample_task True q 1" using sample_sched[of 0] by auto
  have r: "runnable (tasks s ([0x1000, 0x2000] ! 1))"
    using s(3) by (simp add: runnable_def sample_task_def TASK_PRESENT_def TASK_RUNNING_def)
  have t: "task_flags (run_task (sample_task True q 1)) = 5"
    by (simp add: run_task_def sample_task_def TASK_RUNNING_def)
  have "\<exists>s'. task_select s = Inr ([0x1000, 0x2000] ! 1, s') \<and> tasks s' ([0x1000, 0x2000] ! 1) = run_task (tasks s ([0x1000, 0x2000] ! 1))"
    using task_select_next[OF s(1,2) _ _ _ r] by auto
  with s(1,3) t show ?thesis by auto
qed

text \<open>C23. When no task behind the current one can run, \<open>task_select\<close> does not start again at the front of
  the list: it steps to the number one past the last task and dereferences the null pointer that
  \<open>vector_at\<close> returns for it. So a core whose current task is the last one never survives the next
  switch.\<close>

theorem task_select_end_of_list:
  assumes "sched_rep s xs i" and "unlocked s" and "2 \<le> length xs"
    and "\<forall>k. i < k \<and> k < length xs \<longrightarrow> \<not> runnable (tasks s (xs ! k))"
  shows "task_select s = Inl NullDeref"
  unfolding task_select_def
  using assms sched_current(8)[OF assms(1)] by (intro task_select_rec_none) (auto simp: walk_fuel_def)

theorem task_select_end_of_list_witness:
  "\<exists>(s :: tasks_state) q. sched_rep s [0x1000, 0x2000] 1 \<and> runnable (tasks s 0x1000) \<and> task_select s = Inl NullDeref"
proof -
  obtain s :: tasks_state and q where s: "sched_rep s [0x1000, 0x2000] 1" "unlocked s"
    "tasks s 0x1000 = sample_task False q 1" using sample_sched[of 1] by auto
  have "\<forall>k. 1 < k \<and> k < length [0x1000, 0x2000 :: u64] \<longrightarrow> \<not> runnable (tasks s ([0x1000, 0x2000] ! k))" by auto
  then have "task_select s = Inl NullDeref" using task_select_end_of_list[OF s(1,2)] by simp
  then show ?thesis
    using s by (auto simp: runnable_def sample_task_def TASK_PRESENT_def TASK_RUNNING_def)
qed

text \<open>With a single task, \<open>task_select\<close> returns that task but keeps the scheduler's lock, so the next
  call, on any core, spins forever.\<close>

theorem task_select_keeps_lock:
  assumes "sched_rep s [t] 0" and "unlocked s"
  shows "\<exists>s'. task_select s = Inr (t, s') \<and> locks s' Scheduler_lock \<and> task_select s' = Inl Diverged"
  using task_select_single[OF assms] task_select_locked by blast

theorem task_select_keeps_lock_witness:
  "\<exists>(s :: tasks_state) s'. unlocked s \<and> task_select s = Inr (0x1000, s') \<and> task_select s' = Inl Diverged"
proof -
  obtain s :: tasks_state where s: "sched_rep s [0x1000] 0" "unlocked s"
    using sample_sched_list[of "[0x1000]" "0x1000" "0x2000" 0] by auto
  then show ?thesis using task_select_keeps_lock[OF s] by blast
qed

text \<open>C24. With at least two tasks and room on the heap for one event and its node (110 bytes in the
  last pool), a user task that exits tells its parent, whatever the parent's queue holds: the task
  comes to wait for the next switch, it is no longer present, no other task changes, and the parent's
  queue holds, behind the events it held, a task-exited event with the number of the task and its exit
  code. When the queue was empty the parent's next \<open>poll\<close> returns that event.\<close>

theorem syscall_exit_notifies_parent:
  assumes "sched_rep s xs i" and "unlocked s" and "2 \<le> length xs" and "roomy 110 s"
    and "is_user (tasks s (xs ! i))" and "p = parent (tasks s (xs ! i))" and "p \<noteq> 0"
    and "queue_holds s (event_queue (tasks s p)) evs" and "queue (event_queue (tasks s p)) \<noteq> tasklist_list s"
  shows "\<exists>s'. syscall_exit code s = Inr (Exit_waits, s') \<and>
       tasks s' = (tasks s)(xs ! i := end_flags (tasks s (xs ! i))) \<and>
       task_flags (tasks s' (xs ! i)) AND TASK_PRESENT = 0 \<and>
       queue_holds s' (event_queue (tasks s p)) (evs @ [exit_event i code]) \<and>
       (evs = [] \<longrightarrow> (\<exists>a s''. poll (event_queue (tasks s p)) s' = Inr (a, s'') \<and> events s'' a = exit_event i code))"
proof -
  let ?q = "event_queue (tasks s p)"
  obtain as where as: "queue_addrs s ?q as" "evs = map (events s) as" using assms(8) by (auto simp: queue_holds_def)
  have r: "roomy (110 + 0) s" using assms(4) by simp
  obtain s1 a where e: "syscall_exit code s = Inr (Exit_waits, s1\<lparr>tasks := (tasks s)(xs ! i := end_flags (tasks s (xs ! i)))\<rparr>)"
    (is "_ = Inr (_, ?s)") "queue_addrs s1 ?q (as @ [a])" "a \<notin> set as" "events s1 = (events s)(a := exit_event i code)"
    using syscall_exit_room[OF assms(1-3) r assms(5-7) refl as(1) assms(9), of code] by blast
  have p: "\<exists>b s''. poll ?q ?s = Inr (b, s'') \<and> events s'' b = exit_event i code" if "evs = []"
  proof -
    have "queue_addrs ?s ?q [a]" using e(2) as(2) that by (simp add: frame_simps)
    from poll_one[OF this] obtain s'' where "poll ?q ?s = Inr (a, s'')" "events s'' = events ?s" by blast
    then show ?thesis using e(4) by auto
  qed
  have "queue_holds ?s ?q (evs @ [exit_event i code])"
    using queue_appended[OF e(2-4)] as(2) by (simp add: frame_simps)
  then show ?thesis using e(1) p end_flags_absent by (intro exI[of _ ?s]) simp
qed

theorem syscall_exit_notifies_parent_witness:
  "\<exists>(s :: tasks_state) s' a s''. is_user (tasks s 0x2000) \<and> syscall_exit 7 s = Inr (Exit_waits, s') \<and>
        poll (event_queue (tasks s 0x1000)) s' = Inr (a, s'') \<and> event_data1 (events s'' a) = 7"
proof -
  obtain s :: tasks_state and q where s: "sched_rep s [0x1000, 0x2000] 1" "unlocked s" "roomy 90000 s"
    "tasks s 0x1000 = sample_task False q 1" "tasks s 0x2000 = sample_task True q 1"
    "queue_holds s \<lparr>queue = q\<rparr> []" "q \<noteq> tasklist_list s" using sample_sched[of 1] by auto
  have u: "is_user (tasks s 0x2000)" using s(5) by (simp add: sample_task_def)
  have r: "roomy 110 s" using roomy_mono[OF s(3)] by simp
  have p: "parent (tasks s 0x2000) = 0x1000" "event_queue (tasks s 0x1000) = \<lparr>queue = q\<rparr>"
    using s(4,5) by (simp_all add: sample_task_def)
  obtain s' a s'' where "syscall_exit 7 s = Inr (Exit_waits, s')" "poll \<lparr>queue = q\<rparr> s' = Inr (a, s'')"
    "events s'' a = exit_event 1 7"
    using syscall_exit_notifies_parent[OF s(1,2) _ r, of "0x1000" "[]" 7] s(6,7) u p by auto
  then show ?thesis using u p(2) by (intro exI[of _ s] exI[of _ s'] exI[of _ a] exI[of _ s'']) (simp add: exit_event_def)
qed

end
