(* ===== verification/Kstring.thy ===== *)
theory Kstring
  imports Prelude
begin

text \<open>
  The kernel's string routines (\<open>src/src/utils/string.c\<close>): C strings are character arrays with their
  bounds, ended by a null character. The conversions of numbers to text are shown to print the
  number in the right base, whatever the array held before.
\<close>

section \<open>C strings\<close>

abbreviation NUL :: char where
  "NUL \<equiv> CHR 0x00"

text \<open>The text in an array: everything before the first null character.\<close>

definition c_str :: "char list \<Rightarrow> string" where
  "c_str buf = takeWhile (\<lambda>c. c \<noteq> NUL) buf"

function strlen_from :: "nat \<Rightarrow> char list \<Rightarrow> nat result" where
  "strlen_from len str =
     (if len < length str then
        (if str ! len \<noteq> NUL then strlen_from (len + 1) str else Inr len)
      else Inl OutOfBounds)"
  by auto
termination by (relation "measure (\<lambda>(len, str). length str - len)") auto

declare strlen_from.simps [simp del]

definition ku_strlen :: "char list \<Rightarrow> nat result" where
  "ku_strlen str = strlen_from 0 str"

text \<open>\<open>ku_strcmp\<close>: true when equal; \<open>int\<close> lengths.\<close>

primrec strcmp_loop :: "nat \<Rightarrow> nat \<Rightarrow> char list \<Rightarrow> char list \<Rightarrow> bool result" where
  "strcmp_loop 0 c str1 str2 = Inr True"
| "strcmp_loop (Suc k) c str1 str2 =
     res_bind (arr_get str1 c) (\<lambda>a. res_bind (arr_get str2 c) (\<lambda>b.
       if a \<noteq> b then Inr False else strcmp_loop k (c + 1) str1 str2))"

definition ku_strcmp :: "char list \<Rightarrow> char list \<Rightarrow> bool result" where
  "ku_strcmp str1 str2 =
     res_bind (ku_strlen str1) (\<lambda>str1len. res_bind (ku_strlen str2) (\<lambda>str2len.
       if str1len \<noteq> str2len then Inr False else strcmp_loop str1len 0 str1 str2))"

definition ku_add_char_to_string :: "char list \<Rightarrow> char \<Rightarrow> char list result" where
  "ku_add_char_to_string str c =
     res_bind (strlen_from 0 str) (\<lambda>i.
     res_bind (arr_set str i c) (\<lambda>str. arr_set str (i + 1) NUL))"

fun removeLastChar_loop :: "nat \<Rightarrow> char list \<Rightarrow> char list result" where
  "removeLastChar_loop 0 str = Inr str"
| "removeLastChar_loop (Suc i) str =
     res_bind (arr_get str (Suc i)) (\<lambda>c.
       if c \<noteq> NUL then arr_set str (Suc i) NUL else removeLastChar_loop i str)"

definition ku_removeLastChar :: "char list \<Rightarrow> char list result" where
  "ku_removeLastChar str = res_bind (ku_strlen str) (\<lambda>i. removeLastChar_loop i str)"

text \<open>\<open>ku_strcpy\<close>, source and destination walked in step.\<close>

function strcpy_loop :: "nat \<Rightarrow> char list \<Rightarrow> char list \<Rightarrow> char list result" where
  "strcpy_loop i dest src =
     (if i < length src then
        (if src ! i \<noteq> NUL then res_bind (arr_set dest i (src ! i)) (\<lambda>dest. strcpy_loop (i + 1) dest src)
         else arr_set dest i NUL)
      else Inl OutOfBounds)"
  by auto
termination by (relation "measure (\<lambda>(i, dest, src). length src - i)") auto

declare strcpy_loop.simps [simp del]

definition ku_strcpy :: "char list \<Rightarrow> char list \<Rightarrow> char list result" where
  "ku_strcpy dest src = strcpy_loop 0 dest src"

text \<open>\<open>ku_char_to_str\<close> returns its static two-character array.\<close>

definition ku_char_to_str :: "char \<Rightarrow> char list" where
  "ku_char_to_str character = [character, NUL]"

section \<open>Reversing\<close>

function reverse_loop :: "int \<Rightarrow> int \<Rightarrow> char list \<Rightarrow> char list result" where
  "reverse_loop start end str =
     (if start < end then
        res_bind (arr_get str (nat start)) (\<lambda>temp.
        res_bind (arr_get str (nat end)) (\<lambda>e.
        res_bind (arr_set str (nat start) e) (\<lambda>str.
        res_bind (arr_set str (nat end) temp) (\<lambda>str.
          reverse_loop (start + 1) (end - 1) str))))
      else Inr str)"
  by auto
termination by (relation "measure (\<lambda>(start, end, str). nat (end - start))") auto

declare reverse_loop.simps [simp del]

definition ku_reverse :: "char list \<Rightarrow> int \<Rightarrow> char list result" where
  "ku_reverse str len = reverse_loop 0 (len - 1) str"

section \<open>Numbers to text\<close>

text \<open>\<open>'0' + digit\<close> and \<open>'A' + (digit - 10)\<close>.\<close>

definition digit_char :: "nat \<Rightarrow> char" where
  "digit_char d = (if d < 10 then char_of (48 + d) else char_of (65 + (d - 10)))"

lemma unat_shift: "unat (drop_bit k (x :: u64)) = unat x div 2 ^ k"
proof -
  have "unat (drop_bit k x) = drop_bit k (unat x)"
    using unat_u64_less[of x] by (simp only: unsigned_drop_bit_eq) (simp add: take_bit_nat_eq_self)
  then show ?thesis by (simp only: drop_bit_eq_div)
qed

lemma unat_low_bits: "unat ((x :: u64) AND 1) = unat x mod 2" "unat ((x :: u64) AND 0xF) = unat x mod 16"
proof -
  show "unat (x AND 1) = unat x mod 2" by (simp add: and_one_eq unat_mod)
  have "x AND 0xF = take_bit 4 x" by (simp add: take_bit_eq_mask mask_eq_exp_minus_1)
  then show "unat (x AND 0xF) = unat x mod 16"
    by (simp only: unsigned_take_bit_eq) (simp add: take_bit_eq_mod)
qed

function bin_loop :: "u64 \<Rightarrow> nat \<Rightarrow> char list \<Rightarrow> (nat \<times> char list) result" where
  "bin_loop num idx buffer =
     (if num > 0 then
        res_bind (arr_set buffer idx (if num AND 1 \<noteq> 0 then CHR ''1'' else CHR ''0'')) (\<lambda>buffer.
          bin_loop (drop_bit 1 num) (idx + 1) buffer)
      else Inr (idx, buffer))"
  by auto
termination by (relation "measure (\<lambda>(num, idx, buffer). unat num)")
  (auto simp: unat_shift unat_div word_less_nat_alt)

declare bin_loop.simps [simp del]

function dec_loop :: "u64 \<Rightarrow> nat \<Rightarrow> char list \<Rightarrow> (nat \<times> char list) result" where
  "dec_loop num idx buffer =
     (if num > 0 then
        res_bind (arr_set buffer idx (digit_char (unat (num mod 10)))) (\<lambda>buffer.
          dec_loop (num div 10) (idx + 1) buffer)
      else Inr (idx, buffer))"
  by auto
termination by (relation "measure (\<lambda>(num, idx, buffer). unat num)")
  (auto simp: unat_shift unat_div word_less_nat_alt)

declare dec_loop.simps [simp del]

function hex_loop :: "u64 \<Rightarrow> nat \<Rightarrow> char list \<Rightarrow> (nat \<times> char list) result" where
  "hex_loop num idx buffer =
     (if num > 0 then
        res_bind (arr_set buffer idx (digit_char (unat (num AND 0xF)))) (\<lambda>buffer.
          hex_loop (drop_bit 4 num) (idx + 1) buffer)
      else Inr (idx, buffer))"
  by auto
termination by (relation "measure (\<lambda>(num, idx, buffer). unat num)")
  (auto simp: unat_shift unat_div word_less_nat_alt)

declare hex_loop.simps [simp del]

text \<open>A local array: its contents are unspecified until written; the routines below only read what
  they wrote.\<close>

definition local_array :: "nat \<Rightarrow> char list" where
  "local_array n = replicate n (CHR 0xCC)"

primrec copy_loop :: "nat \<Rightarrow> nat \<Rightarrow> char list \<Rightarrow> char list \<Rightarrow> char list result" where
  "copy_loop 0 i dest src = Inr dest"
| "copy_loop (Suc k) i dest src =
     res_bind (arr_get src i) (\<lambda>c. res_bind (arr_set dest i c) (\<lambda>dest. copy_loop k (i + 1) dest src))"

definition ku_uint64_to_binary_string :: "u64 \<Rightarrow> char list \<Rightarrow> char list result" where
  "ku_uint64_to_binary_string num buf =
     (let buffer = local_array 65 in
      res_bind (if num = 0 then res_bind (arr_set buffer 0 (CHR ''0'')) (\<lambda>b. Inr (1, b))
                else bin_loop num 0 buffer) (\<lambda>(idx, buffer).
      res_bind (arr_set buffer idx NUL) (\<lambda>buffer.
      res_bind (ku_reverse buffer (int idx)) (\<lambda>buffer.
        copy_loop (idx + 1) 0 buf buffer))))"

definition ku_uint16_to_string :: "u16 \<Rightarrow> char list \<Rightarrow> char list result" where
  "ku_uint16_to_string num str =
     (let buffer = local_array 6 in
      res_bind (if num = 0 then res_bind (arr_set buffer 0 (CHR ''0'')) (\<lambda>b. Inr (1, b))
                else dec_loop (ucast num) 0 buffer) (\<lambda>(index, buffer).
      res_bind (arr_set buffer index NUL) (\<lambda>buffer.
      res_bind (ku_reverse buffer (int index)) (\<lambda>buffer.
        copy_loop (index + 1) 0 str buffer))))"

definition ku_uint32_to_hex_string :: "u32 \<Rightarrow> char list \<Rightarrow> char list result" where
  "ku_uint32_to_hex_string num str =
     (let buffer = local_array 9 in
      res_bind (if num = 0 then res_bind (arr_set buffer 0 (CHR ''0'')) (\<lambda>b. Inr (1, b))
                else hex_loop (ucast num) 0 buffer) (\<lambda>(index, buffer).
      res_bind (arr_set buffer index NUL) (\<lambda>buffer.
      res_bind (ku_reverse buffer (int index)) (\<lambda>buffer.
        copy_loop (index + 1) 0 str buffer))))"

function pad_loop :: "nat \<Rightarrow> char list \<Rightarrow> (nat \<times> char list) result" where
  "pad_loop index buffer =
     (if index < 16 then
        res_bind (arr_set buffer index (CHR ''0'')) (\<lambda>buffer. pad_loop (index + 1) buffer)
      else Inr (index, buffer))"
  by auto
termination by (relation "measure (\<lambda>(index, buffer). 16 - index)") auto

declare pad_loop.simps [simp del]

definition ku_uint64_to_hex_string :: "u64 \<Rightarrow> char list \<Rightarrow> char list result" where
  "ku_uint64_to_hex_string num str =
     (let buffer = local_array 17 in
      res_bind (if num = 0 then res_bind (arr_set buffer 0 (CHR ''0'')) (\<lambda>b. Inr (1, b))
                else hex_loop num 0 buffer) (\<lambda>(index, buffer).
      res_bind (pad_loop index buffer) (\<lambda>(index, buffer).
      res_bind (arr_set buffer index NUL) (\<lambda>buffer.
      res_bind (ku_reverse buffer (int index)) (\<lambda>buffer.
        copy_loop 17 0 str buffer)))))"

function get_num_length :: "u64 \<Rightarrow> nat" where
  "get_num_length num = 1 + (if num div 10 > 0 then get_num_length (num div 10) else 0)"
  by auto
termination
proof (relation "measure unat")
  fix num :: u64
  assume "0 < num div 10"
  then have "0 < unat num div 10" by (simp add: word_less_nat_alt unat_div)
  then show "(num div 10, num) \<in> measure unat" by (simp add: unat_div)
qed simp

declare get_num_length.simps [simp del]

text \<open>The \<open>do \<dots> while\<close> loop that writes digits from the end of the text to its start.\<close>

function dec_fill :: "u64 \<Rightarrow> int \<Rightarrow> char list \<Rightarrow> char list result" where
  "dec_fill num index str =
     (if index < 0 then Inl OutOfBounds
      else
        res_bind (arr_set str (nat index) (digit_char (unat (num mod 10)))) (\<lambda>str.
          if num div 10 > 0 then dec_fill (num div 10) (index - 1) str else Inr str))"
  by auto
termination
proof (relation "measure (\<lambda>(num, index, str). unat num)")
  fix num :: u64 and index x str
  assume "0 < num div 10"
  then have "0 < unat num div 10" by (simp add: word_less_nat_alt unat_div)
  then show "((num div 10, index - 1, x), num, index, str) \<in> measure (\<lambda>(num, index, str). unat num)"
    by (simp add: unat_div)
qed simp

declare dec_fill.simps [simp del]

definition ku_uint64_to_string :: "u64 \<Rightarrow> char list \<Rightarrow> char list result" where
  "ku_uint64_to_string num str =
     (let len = get_num_length num in
      res_bind (arr_set str len NUL) (\<lambda>str. dec_fill num (int len - 1) str))"

definition ku_uint32_to_string :: "u32 \<Rightarrow> char list \<Rightarrow> char list result" where
  "ku_uint32_to_string num str =
     (let len = get_num_length (ucast num) in
      res_bind (arr_set str len NUL) (\<lambda>str. dec_fill (ucast num) (int len - 1) str))"

definition ku_uint8_to_str :: "u8 \<Rightarrow> char list \<Rightarrow> char list result" where
  "ku_uint8_to_str num buffer =
     (if num = 0 then
        res_bind (arr_set buffer 0 (CHR ''0'')) (\<lambda>buffer. arr_set buffer 1 NUL)
      else
        res_bind (dec_loop (ucast num) 0 buffer) (\<lambda>(i, buffer).
        res_bind (arr_set buffer i NUL) (\<lambda>buffer. ku_reverse buffer (int i))))"

section \<open>Text to numbers\<close>

text \<open>\<open>oct2bin\<close> computes in \<open>int\<close>: 32 bits, signed; \<open>*c - '0'\<close> is the difference of two \<open>char\<close> values.\<close>

fun oct2bin_loop :: "nat \<Rightarrow> 32 word \<Rightarrow> char list \<Rightarrow> 32 word result" where
  "oct2bin_loop 0 n c = Inr n"
| "oct2bin_loop (Suc k) n [] = Inl OutOfBounds"
| "oct2bin_loop (Suc k) n (x # c) =
     oct2bin_loop k (n * 8 + (scast (of_char x :: 8 word) - 48)) c"

definition oct2bin :: "char list \<Rightarrow> nat \<Rightarrow> int result" where
  "oct2bin str sz = res_bind (oct2bin_loop sz 0 str) (\<lambda>n. Inr (sint n))"

section \<open>Digits\<close>

text \<open>The digits of a number, least significant first, and the number a text denotes.\<close>

fun digits :: "nat \<Rightarrow> nat \<Rightarrow> nat list" where
  "digits b n = (if n = 0 \<or> b < 2 then [] else n mod b # digits b (n div b))"

declare digits.simps [simp del]

lemma digits_0 [simp]: "digits b 0 = []"
  by (simp add: digits.simps)

definition num_digits :: "nat \<Rightarrow> nat \<Rightarrow> nat list" where
  "num_digits b n = (if n = 0 then [0] else digits b n)"

definition numeral_text :: "nat \<Rightarrow> nat \<Rightarrow> string" where
  "numeral_text b n = rev (map digit_char (num_digits b n))"

definition char_digit :: "char \<Rightarrow> nat" where
  "char_digit c = (if of_char c < (65 :: nat) then of_char c - 48 else of_char c - 55)"

definition text_value :: "nat \<Rightarrow> string \<Rightarrow> nat" where
  "text_value b cs = foldl (\<lambda>a c. a * b + char_digit c) 0 cs"

lemma digit_chars: "digit_char 0 = CHR ''0''" "digit_char 1 = CHR ''1''"
  by code_simp+

lemma char_digit_char: "d < 16 \<Longrightarrow> char_digit (digit_char d) = d"
  by (auto simp: char_digit_def digit_char_def)

lemma digit_char_nonnull: "d < 16 \<Longrightarrow> digit_char d \<noteq> NUL"
proof
  assume d: "d < 16" "digit_char d = NUL"
  then have "of_char (digit_char d) = (0 :: nat)" by simp
  with d(1) show False by (auto simp: digit_char_def split: if_splits)
qed

lemma digits_less: "2 \<le> b \<Longrightarrow> d \<in> set (digits b n) \<Longrightarrow> d < b"
proof (induction b n rule: digits.induct)
  case (1 b n)
  then show ?case by (subst (asm) digits.simps) (auto split: if_splits)
qed

lemma num_digits_less: "2 \<le> b \<Longrightarrow> d \<in> set (num_digits b n) \<Longrightarrow> d < b"
  by (auto simp: num_digits_def digits_less split: if_splits)

lemma digits_value: "2 \<le> b \<Longrightarrow> foldr (\<lambda>d a. a * b + d) (digits b n) 0 = n"
proof (induction b n rule: digits.induct)
  case (1 b n)
  show ?case
  proof (cases "n = 0")
    case True
    then show ?thesis by (simp add: digits.simps)
  next
    case False
    then show ?thesis using 1 by (subst digits.simps) simp
  qed
qed

lemma digits_length:
  "2 \<le> b \<Longrightarrow> n < b ^ k \<Longrightarrow> length (digits b n) \<le> k"
proof (induction k arbitrary: n)
  case 0
  then show ?case by (simp add: digits.simps)
next
  case (Suc k)
  then have "n div b < b ^ k" by (simp add: less_mult_imp_div_less mult.commute)
  with Suc show ?case by (subst digits.simps) simp
qed

lemma digits_length_lower:
  "2 \<le> b \<Longrightarrow> b ^ k \<le> n \<Longrightarrow> k < length (digits b n)"
proof (induction k arbitrary: n)
  case 0
  then show ?case by (subst digits.simps) simp
next
  case (Suc k)
  have "b ^ k \<le> n div b"
    using Suc.prems by (simp add: less_eq_div_iff_mult_less_eq mult.commute)
  moreover have "n \<noteq> 0" using Suc.prems by (metis le_zero_eq less_le_trans not_numeral_le_zero power_not_zero)
  ultimately show ?case using Suc by (subst digits.simps) simp
qed

lemma num_digits_length: "2 \<le> b \<Longrightarrow> n < b ^ k \<Longrightarrow> 0 < k \<Longrightarrow> length (num_digits b n) \<le> k"
  by (auto simp: num_digits_def digits_length)

lemma num_digits_pos: "0 < length (num_digits b n)" if "2 \<le> b"
  using that by (auto simp: num_digits_def digits.simps[of b n])

lemma numeral_text_value:
  assumes "2 \<le> b" "b \<le> 16"
  shows "text_value b (numeral_text b n) = n"
proof -
  have "text_value b (rev (map digit_char ds)) = foldr (\<lambda>d a. a * b + d) ds 0"
    if "\<forall>d \<in> set ds. d < 16" for ds
    using that by (induction ds) (simp_all add: text_value_def foldl_conv_foldr char_digit_char)
  moreover have "\<forall>d \<in> set (num_digits b n). d < 16" using num_digits_less[OF assms(1)] assms(2) by fastforce
  moreover have "foldr (\<lambda>d a. a * b + d) (num_digits b n) 0 = n"
    using digits_value[OF assms(1)] by (simp add: num_digits_def)
  ultimately show ?thesis by (simp add: numeral_text_def)
qed

lemma numeral_text_nonnull: "2 \<le> b \<Longrightarrow> b \<le> 16 \<Longrightarrow> NUL \<notin> set (numeral_text b n)"
proof -
  assume b: "2 \<le> b" "b \<le> 16"
  have "NUL \<noteq> digit_char d" if "d \<in> set (num_digits b n)" for d
    using num_digits_less[OF b(1) that] b(2) digit_char_nonnull[of d] by (metis order_less_le_trans)
  then show ?thesis by (auto simp: numeral_text_def)
qed

lemma c_str_text: "NUL \<notin> set xs \<Longrightarrow> c_str (xs @ NUL # ys) = xs"
  by (induction xs) (auto simp: c_str_def)

section \<open>The loops\<close>

lemma reverse_loop_spec:
  assumes "xs = pre @ mid @ post" "start = int (length pre)" "end = int (length pre + length mid) - 1"
  shows "reverse_loop start end xs = Inr (pre @ rev mid @ post)"
  using assms
proof (induction "length mid" arbitrary: pre mid post start "end" xs rule: less_induct)
  case less
  consider "mid = []" | a where "mid = [a]" | a m b where "mid = a # m @ [b]"
    by (metis append_butlast_last_id neq_Nil_conv rev_exhaust append_Cons append_Nil)
  then show ?case
  proof cases
    case 3
    let ?i = "length pre" and ?j = "length pre + length m + 1"
    have i: "nat start = ?i" "nat end = ?j" "start < end" using less.prems 3 by auto
    have x: "xs ! ?i = a" "xs ! ?j = b" "?j < length xs" "xs[?i := b, ?j := a] = (pre @ [b]) @ m @ (a # post)"
      using less.prems(1) 3 by (simp_all add: nth_append list_update_append)
    have "reverse_loop (start + 1) (end - 1) ((pre @ [b]) @ m @ (a # post)) = Inr ((pre @ [b]) @ rev m @ (a # post))"
      using less.prems 3 by (intro less.hyps) auto
    then show ?thesis
      using i x 3 by (subst reverse_loop.simps) (simp add: arr_get_def arr_set_def)
  qed (use less.prems in \<open>auto simp: reverse_loop.simps\<close>)
qed

lemma ku_reverse_spec:
  "n \<le> length xs \<Longrightarrow> ku_reverse xs (int n) = Inr (rev (take n xs) @ drop n xs)"
  unfolding ku_reverse_def by (rule reverse_loop_spec[where pre = "[]", simplified]) auto

lemma copy_loop_spec:
  "i + k \<le> length src \<Longrightarrow> i + k \<le> length dest \<Longrightarrow>
     copy_loop k i dest src = Inr (take i dest @ take k (drop i src) @ drop (i + k) dest)"
proof (induction k arbitrary: i dest)
  case (Suc k)
  let ?d = "dest[i := src ! i]"
  have t: "take (Suc i) ?d = take i dest @ [src ! i]"
    using Suc.prems by (simp add: take_Suc_conv_app_nth)
  have d: "take (Suc k) (drop i src) = src ! i # take k (drop (Suc i) src)"
    using Suc.prems by (simp add: Cons_nth_drop_Suc[symmetric])
  have "copy_loop k (Suc i) ?d src = Inr (take (Suc i) ?d @ take k (drop (Suc i) src) @ drop (Suc i + k) ?d)"
    using Suc.prems by (intro Suc.IH) auto
  then show ?case unfolding t using Suc.prems d by (simp add: arr_get_def arr_set_def)
qed simp

text \<open>The three loops that write digits share a contract: each round writes the last digit in the base
  and goes on with the rest.\<close>

locale digit_writer =
  fixes loop :: "u64 \<Rightarrow> nat \<Rightarrow> char list \<Rightarrow> (nat \<times> char list) result" and b :: nat
  assumes base: "2 \<le> b" "b \<le> 16"
    and stop: "loop 0 i buf = Inr (i, buf)"
    and round: "num \<noteq> 0 \<Longrightarrow> \<exists>num'. unat num' = unat num div b \<and>
      loop num i buf = res_bind (arr_set buf i (digit_char (unat num mod b))) (\<lambda>buf. loop num' (i + 1) buf)"
begin

lemma loop_writes:
  "i + length (digits b (unat num)) \<le> length buf \<Longrightarrow>
     loop num i buf = Inr (i + length (digits b (unat num)),
       take i buf @ map digit_char (digits b (unat num)) @ drop (i + length (digits b (unat num))) buf)"
proof (induction "unat num" arbitrary: num i buf rule: less_induct)
  case less
  show ?case
  proof (cases "num = 0")
    case True
    then show ?thesis by (simp add: stop digits.simps)
  next
    case False
    obtain num' where n: "unat num' = unat num div b"
      "loop num i buf = res_bind (arr_set buf i (digit_char (unat num mod b))) (\<lambda>buf. loop num' (i + 1) buf)"
      using round[OF False] by blast
    have u: "0 < unat num" using False by (simp add: unat_gt_0)
    have d: "digits b (unat num) = unat num mod b # digits b (unat num')"
      using u base by (subst digits.simps) (simp add: n(1))
    let ?buf = "buf[i := digit_char (unat num mod b)]"
    have "loop num' (i + 1) ?buf = Inr (i + 1 + length (digits b (unat num')), take (i + 1) ?buf @
        map digit_char (digits b (unat num')) @ drop (i + 1 + length (digits b (unat num'))) ?buf)"
      using less.prems u base(1) by (intro less.hyps) (auto simp: n(1) d)
    then show ?thesis
      using less.prems n(2) by (simp add: d arr_set_def take_Suc_conv_app_nth)
  qed
qed

text \<open>The common start of the conversions, zero included.\<close>

lemma start_writes:
  assumes "length (num_digits b (unat num)) \<le> length buf"
  shows "(if num = 0 then res_bind (arr_set buf 0 (CHR ''0'')) (\<lambda>b. Inr (1, b)) else loop num 0 buf) =
    Inr (length (num_digits b (unat num)),
      map digit_char (num_digits b (unat num)) @ drop (length (num_digits b (unat num))) buf)"
proof (cases "num = 0")
  case True
  then show ?thesis using assms by (cases buf) (auto simp: num_digits_def arr_set_def digit_chars)
next
  case False
  then have "0 < unat num" by (simp add: unat_gt_0)
  then have "num_digits b (unat num) = digits b (unat num)" by (simp add: num_digits_def)
  then show ?thesis using False assms loop_writes[of 0 num buf] by simp
qed

text \<open>The common end: terminate, reverse and copy to the destination.\<close>

lemma finish_writes:
  assumes "length ds < length buf" "length ds < length str"
  shows "res_bind (arr_set (map digit_char ds @ drop (length ds) buf) (length ds) NUL) (\<lambda>buffer.
    res_bind (ku_reverse buffer (int (length ds))) (\<lambda>buffer. copy_loop (length ds + 1) 0 str buffer)) =
    Inr (rev (map digit_char ds) @ NUL # drop (length ds + 1) str)"
  using assms copy_loop_spec[of 0 "length ds + 1"]
  by (simp add: arr_set_def list_update_append ku_reverse_spec del: copy_loop.simps)
    (simp add: Cons_nth_drop_Suc[symmetric] del: copy_loop.simps)

lemma converts:
  assumes "length (num_digits b (unat num)) < m" "length (num_digits b (unat num)) < length str"
  shows "res_bind (if num = 0 then res_bind (arr_set (local_array m) 0 (CHR ''0'')) (\<lambda>b. Inr (1, b))
      else loop num 0 (local_array m)) (\<lambda>(idx, buffer).
    res_bind (arr_set buffer idx NUL) (\<lambda>buffer.
    res_bind (ku_reverse buffer (int idx)) (\<lambda>buffer. copy_loop (idx + 1) 0 str buffer))) =
    Inr (numeral_text b (unat num) @ NUL # drop (length (num_digits b (unat num)) + 1) str)"
proof -
  have B: "length (local_array m) = m" by (simp add: local_array_def)
  then have "length (num_digits b (unat num)) \<le> length (local_array m)" using assms(1) by simp
  from start_writes[OF this] show ?thesis
    using finish_writes[of "num_digits b (unat num)" "local_array m" str] assms B
    by (simp only: res_bind_simps case_prod_conv numeral_text_def)
qed

end

interpretation binary: digit_writer bin_loop 2
proof unfold_locales
  fix num :: u64 and i buf
  assume n: "num \<noteq> 0"
  have "digit_char (unat num mod 2) = (if num AND 1 \<noteq> 0 then CHR ''1'' else CHR ''0'')"
    using unat_low_bits(1)[of num] digit_chars
    by (cases "unat num mod 2 = 0") (auto simp: word_unat_eq_iff not_mod_2_eq_0_eq_1)
  then show "\<exists>num'. unat num' = unat num div 2 \<and> bin_loop num i buf =
      res_bind (arr_set buf i (digit_char (unat num mod 2))) (\<lambda>buf. bin_loop num' (i + 1) buf)"
    using n by (intro exI[of _ "drop_bit 1 num"], subst bin_loop.simps)
      (simp add: unat_shift[of 1, simplified] word_gt_0 del: drop_bit_Suc)
qed (simp_all add: bin_loop.simps)

interpretation decimal: digit_writer dec_loop 10
proof unfold_locales
  fix num :: u64 and i buf
  assume "num \<noteq> 0"
  then show "\<exists>num'. unat num' = unat num div 10 \<and> dec_loop num i buf =
      res_bind (arr_set buf i (digit_char (unat num mod 10))) (\<lambda>buf. dec_loop num' (i + 1) buf)"
    by (intro exI[of _ "num div 10"], subst dec_loop.simps) (simp add: unat_div unat_mod word_gt_0)
qed (simp_all add: dec_loop.simps)

interpretation hexadecimal: digit_writer hex_loop 16
proof unfold_locales
  fix num :: u64 and i buf
  assume "num \<noteq> 0"
  then show "\<exists>num'. unat num' = unat num div 16 \<and> hex_loop num i buf =
      res_bind (arr_set buf i (digit_char (unat num mod 16))) (\<lambda>buf. hex_loop num' (i + 1) buf)"
    by (intro exI[of _ "drop_bit 4 num"], subst hex_loop.simps)
      (simp add: unat_shift[of 4, simplified] unat_low_bits(2) word_gt_0)
qed (simp_all add: hex_loop.simps)

section \<open>What the conversions print\<close>

lemma get_num_length_digits: "get_num_length num = length (num_digits 10 (unat num))"
proof (induction num rule: get_num_length.induct)
  case (1 num)
  have u: "unat (num div 10) = unat num div 10" by (simp add: unat_div)
  show ?case
  proof (cases "num div 10 > 0")
    case True
    then have "0 < unat num div 10" using u by (simp add: word_less_nat_alt)
    then show ?thesis
      using 1[OF True] True u by (subst get_num_length.simps) (simp add: num_digits_def digits.simps[of 10 "unat num"])
  next
    case False
    then have "unat num < 10" using u by (simp add: word_less_nat_alt)
    then show ?thesis
      using False by (subst get_num_length.simps) (simp add: num_digits_def digits.simps)
  qed
qed

lemma dec_fill_writes:
  "index = int (length pre + length (num_digits 10 (unat num))) - 1 \<Longrightarrow>
   length mid = length (num_digits 10 (unat num)) \<Longrightarrow>
   dec_fill num index (pre @ mid @ post) = Inr (pre @ numeral_text 10 (unat num) @ post)"
proof (induction num index "pre @ mid @ post" arbitrary: mid post rule: dec_fill.induct)
  case (1 num index)
  have u: "unat (num div 10) = unat num div 10" by (simp add: unat_div)
  have pos: "0 < length (num_digits 10 (unat num))" by (rule num_digits_pos) simp
  then obtain m c where mid: "mid = m @ [c]" using 1(3) by (metis length_0_conv nat_less_le rev_exhaust)
  let ?d = "digit_char (unat num mod 10)"
  have i: "\<not> index < 0" "nat index = length pre + length m" using 1(2,3) pos mid by auto
  have set: "arr_set (pre @ mid @ post) (nat index) ?d = Inr (pre @ m @ (?d # post))"
    using mid by (simp add: i arr_set_def list_update_append)
  show ?case
  proof (cases "num div 10 > 0")
    case True
    then have "0 < unat num div 10" using u by (simp add: word_less_nat_alt)
    then have d: "num_digits 10 (unat num) = unat num mod 10 # num_digits 10 (unat (num div 10))"
      using u by (simp add: num_digits_def digits.simps[of 10 "unat num"])
    have "dec_fill (num div 10) (index - 1) (pre @ m @ (?d # post)) =
        Inr (pre @ numeral_text 10 (unat (num div 10)) @ (?d # post))"
      using 1(2,3) d mid set i(1) True by (intro 1(1)) (auto simp: unat_mod)
    then show ?thesis
      using True i(1) set d by (subst dec_fill.simps) (simp add: unat_mod numeral_text_def)
  next
    case False
    then have "unat num < 10" using u by (simp add: word_less_nat_alt)
    then have d: "num_digits 10 (unat num) = [unat num mod 10]" by (simp add: num_digits_def digits.simps)
    then have "m = []" using 1(3) mid by simp
    then show ?thesis
      using False i(1) set d by (subst dec_fill.simps) (simp add: unat_mod numeral_text_def)
  qed
qed

lemma decimal_writes:
  assumes "length (num_digits 10 (unat num)) < length str"
  shows "ku_uint64_to_string num str =
    Inr (numeral_text 10 (unat num) @ NUL # drop (length (num_digits 10 (unat num)) + 1) str)"
proof -
  let ?n = "length (num_digits 10 (unat num))"
  have "str[?n := NUL] = [] @ take ?n str @ NUL # drop (?n + 1) str"
    using assms by (simp add: upd_conv_take_nth_drop)
  then show ?thesis
    using assms dec_fill_writes[of "int ?n - 1" "[]" num "take ?n str" "NUL # drop (?n + 1) str"]
    by (simp add: ku_uint64_to_string_def get_num_length_digits arr_set_def)
qed

lemma u64_digits_bounds:
  "length (num_digits 2 (unat (x :: u64))) \<le> 64" "length (num_digits 10 (unat (x :: u64))) \<le> 20"
  "length (num_digits 16 (unat (x :: u64))) \<le> 16"
  using unat_u64_less[of x]
  by (auto intro!: num_digits_length)

lemma binary_writes:
  assumes "length (num_digits 2 (unat num)) < length buf"
  shows "ku_uint64_to_binary_string num buf =
    Inr (numeral_text 2 (unat num) @ NUL # drop (length (num_digits 2 (unat num)) + 1) buf)"
  unfolding ku_uint64_to_binary_string_def Let_def
  using assms u64_digits_bounds(1)[of num] by (intro binary.converts) auto

lemma unat_ucast_u64: "LENGTH('a) \<le> 64 \<Longrightarrow> unat (ucast (x :: 'a :: len word) :: u64) = unat x"
proof -
  assume "LENGTH('a) \<le> 64"
  then have "(2 :: nat) ^ LENGTH('a) \<le> 2 ^ 64" by (rule power_increasing) simp
  then have "unat x < 2 ^ 64" using unsigned_less[of x, where 'a = nat] by (rule order_less_le_trans[rotated])
  then show ?thesis by (simp add: unsigned_ucast_eq take_bit_nat_eq_self)
qed

lemma uint16_writes:
  assumes "length (num_digits 10 (unat num)) < length str"
  shows "ku_uint16_to_string num str =
    Inr (numeral_text 10 (unat num) @ NUL # drop (length (num_digits 10 (unat num)) + 1) str)"
proof -
  have u: "unat (ucast num :: u64) = unat num" by (rule unat_ucast_u64) simp
  have z: "num = 0 \<longleftrightarrow> (ucast num :: u64) = 0" using u by (metis unat_eq_zero)
  have "unat num < 10 ^ 5" using unsigned_less[of num, where 'a = nat] by simp
  then have "length (num_digits 10 (unat num)) \<le> 5" by (intro num_digits_length) simp_all
  then show ?thesis
    unfolding ku_uint16_to_string_def Let_def z
    using assms by (intro decimal.converts[of "ucast num" 6 str, unfolded u]) auto
qed

lemma uint32_hex_writes:
  assumes "length (num_digits 16 (unat num)) < length str"
  shows "ku_uint32_to_hex_string num str =
    Inr (numeral_text 16 (unat num) @ NUL # drop (length (num_digits 16 (unat num)) + 1) str)"
proof -
  have u: "unat (ucast num :: u64) = unat num" by (rule unat_ucast_u64) simp
  have z: "num = 0 \<longleftrightarrow> (ucast num :: u64) = 0" using u by (metis unat_eq_zero)
  have "unat num < 16 ^ 8" using unsigned_less[of num, where 'a = nat] by simp
  then have "length (num_digits 16 (unat num)) \<le> 8" by (intro num_digits_length) simp_all
  then show ?thesis
    unfolding ku_uint32_to_hex_string_def Let_def z
    using assms by (intro hexadecimal.converts[of "ucast num" 9 str, unfolded u]) auto
qed

lemma pad_loop_spec:
  "i \<le> 16 \<Longrightarrow> 16 < length buf \<Longrightarrow>
     pad_loop i buf = Inr (16, take i buf @ replicate (16 - i) (CHR ''0'') @ drop 16 buf)"
proof (induction i buf rule: pad_loop.induct)
  case (1 i buf)
  show ?case
  proof (cases "i < 16")
    case True
    then have "16 - i = Suc (16 - Suc i)" by simp
    then show ?thesis
      using True 1 by (subst pad_loop.simps) (simp add: arr_set_def take_Suc_conv_app_nth)
  next
    case False
    then show ?thesis using 1 by (subst pad_loop.simps) (simp add: append_take_drop_id)
  qed
qed

text \<open>The hexadecimal conversion pads with zeroes to sixteen digits.\<close>

definition hex16 :: "nat \<Rightarrow> string" where
  "hex16 n = replicate (16 - length (num_digits 16 n)) (CHR ''0'') @ numeral_text 16 n"

lemma hex_writes:
  assumes "17 \<le> length str"
  shows "ku_uint64_to_hex_string num str = Inr (hex16 (unat num) @ NUL # drop 17 str)"
proof -
  let ?ds = "num_digits 16 (unat num)" and ?B = "local_array 17"
  let ?n = "length ?ds"
  have n: "?n \<le> 16" by (rule u64_digits_bounds)
  let ?b1 = "map digit_char ?ds @ drop ?n ?B"
  let ?b2 = "map digit_char ?ds @ replicate (16 - ?n) (CHR ''0'') @ drop 16 ?B"
  have B: "length ?B = 17" by (simp add: local_array_def)
  have s: "(if num = 0 then res_bind (arr_set ?B 0 (CHR ''0'')) (\<lambda>b. Inr (1, b)) else hex_loop num 0 ?B) = Inr (?n, ?b1)"
    using hexadecimal.start_writes[of num ?B] n B by simp
  have p: "pad_loop ?n ?b1 = Inr (16, ?b2)"
    using pad_loop_spec[of ?n ?b1] n B by (simp add: add.commute)
  have d: "drop 16 ?B = [CHR 0xCC]" by (simp add: local_array_def eval_nat_numeral)
  have "arr_set ?b2 16 NUL = Inr (map digit_char ?ds @ replicate (16 - ?n) (CHR ''0'') @ [NUL])"
    using n by (simp add: arr_set_def d list_update_append)
  moreover have "ku_reverse (map digit_char ?ds @ replicate (16 - ?n) (CHR ''0'') @ [NUL]) (int 16) =
      Inr (hex16 (unat num) @ [NUL])"
    using n by (subst ku_reverse_spec) (simp_all add: hex16_def numeral_text_def)
  moreover have "copy_loop 17 0 str (hex16 (unat num) @ [NUL]) = Inr (hex16 (unat num) @ NUL # drop 17 str)"
    using assms n by (subst copy_loop_spec) (simp_all add: hex16_def numeral_text_def)
  ultimately show ?thesis
    unfolding ku_uint64_to_hex_string_def Let_def s using p by simp
qed

section \<open>Lengths, comparison and copy\<close>

lemma strlen_from_spec:
  "i \<le> length str \<Longrightarrow> strlen_from i str =
     (if NUL \<in> set (drop i str) then Inr (i + length (c_str (drop i str))) else Inl OutOfBounds)"
proof (induction i str rule: strlen_from.induct)
  case (1 i str)
  show ?case
  proof (cases "i < length str")
    case True
    then have "drop i str = str ! i # drop (Suc i) str" by (simp add: Cons_nth_drop_Suc)
    then show ?thesis using True 1 by (subst strlen_from.simps) (auto simp: c_str_def)
  next
    case False
    then show ?thesis using 1 by (subst strlen_from.simps) auto
  qed
qed

lemma ku_strlen_spec:
  "ku_strlen str = (if NUL \<in> set str then Inr (length (c_str str)) else Inl OutOfBounds)"
  using strlen_from_spec[of 0 str] by (simp add: ku_strlen_def)

lemma c_str_take: "NUL \<in> set str \<Longrightarrow> c_str str = take (length (c_str str)) str \<and> length (c_str str) < length str"
  by (induction str) (auto simp: c_str_def)

lemma c_str_decomp: "NUL \<in> set str \<Longrightarrow> \<exists>rest. str = c_str str @ NUL # rest"
proof (induction str)
  case (Cons a str)
  then show ?case by (cases "a = NUL") (auto simp: c_str_def)
qed simp

lemma c_str_nonnull: "NUL \<notin> set (c_str str)"
  unfolding c_str_def by (metis (full_types) set_takeWhileD)

lemma strcmp_loop_spec:
  "c + k \<le> length a \<Longrightarrow> c + k \<le> length b \<Longrightarrow>
     strcmp_loop k c a b = Inr (take k (drop c a) = take k (drop c b))"
proof (induction k arbitrary: c)
  case (Suc k)
  then have "drop c a = a ! c # drop (Suc c) a" "drop c b = b ! c # drop (Suc c) b"
    by (simp_all add: Cons_nth_drop_Suc)
  then show ?case using Suc by (simp add: arr_get_def)
qed simp

lemma strcpy_loop_spec:
  "NUL \<in> set (drop i src) \<Longrightarrow> i + length (c_str (drop i src)) < length dest \<Longrightarrow>
     strcpy_loop i dest src =
       Inr (take i dest @ c_str (drop i src) @ NUL # drop (i + length (c_str (drop i src)) + 1) dest)"
proof (induction i dest src rule: strcpy_loop.induct)
  case (1 i dest src)
  have i: "i < length src" using 1(2) by (metis drop_all empty_iff leI list.set(1))
  then have d: "drop i src = src ! i # drop (Suc i) src" by (simp add: Cons_nth_drop_Suc)
  show ?case
  proof (cases "src ! i = NUL")
    case True
    then show ?thesis
      using 1(3) i d by (subst strcpy_loop.simps) (simp add: c_str_def arr_set_def upd_conv_take_nth_drop)
  next
    case False
    have c: "c_str (drop i src) = src ! i # c_str (drop (Suc i) src)" using d False by (simp add: c_str_def)
    have "strcpy_loop (i + 1) (dest[i := src ! i]) src = Inr (take (i + 1) (dest[i := src ! i]) @
        c_str (drop (i + 1) src) @ NUL # drop (i + 1 + length (c_str (drop (i + 1) src)) + 1) (dest[i := src ! i]))"
      using i False 1(2,3) c d by (intro 1(1)) (auto simp: arr_set_def)
    then show ?thesis
      using i False 1(3) c by (subst strcpy_loop.simps) (simp add: arr_set_def take_Suc_conv_app_nth)
  qed
qed

section \<open>Octal numbers\<close>

definition octal_digits :: "string \<Rightarrow> bool" where
  "octal_digits cs \<longleftrightarrow> (\<forall>c \<in> set cs. of_char c \<in> {48 ..< 56 :: nat})"

definition octal_value :: "string \<Rightarrow> nat" where
  "octal_value cs = foldl (\<lambda>a c. a * 8 + (of_char c - 48)) 0 cs"

lemma octal_char:
  assumes "of_char x \<in> {48 ..< 56 :: nat}"
  shows "(scast (of_char x :: 8 word) :: 32 word) - 48 = of_nat (of_char x - 48)"
proof -
  obtain d where d: "d < 8" "of_char x = 48 + (d :: nat)"
    using assms that[of "of_char x - 48"] by auto
  have "list_all (\<lambda>d. (scast (of_char (char_of (48 + d :: nat)) :: 8 word) :: 32 word) - 48 = of_nat d) [0 ..< 8]"
    by code_simp
  then have "(scast (of_char (char_of (48 + d)) :: 8 word) :: 32 word) - 48 = of_nat d"
    using d(1) by (simp add: list_all_iff)
  moreover have "x = char_of (48 + d)" using d(2) by (metis char_of_char)
  ultimately show ?thesis using d(2) by simp
qed

lemma sint_small: "v < 2 ^ 31 \<Longrightarrow> sint (of_nat v :: 32 word) = int v"
  by (simp add: signed_of_nat signed_take_bit_int_eq_self)

lemma oct2bin_loop_spec:
  "k \<le> length cs \<Longrightarrow> octal_digits (take k cs) \<Longrightarrow>
     oct2bin_loop k (of_nat n) cs = Inr (of_nat (foldl (\<lambda>a c. a * 8 + (of_char c - 48)) n (take k cs)))"
proof (induction k arbitrary: n cs)
  case (Suc k)
  then obtain x cs' where cs: "cs = x # cs'" by (cases cs) auto
  then have "(of_nat n :: 32 word) * 8 + (scast (of_char x :: 8 word) - 48) = of_nat (n * 8 + (of_char x - 48))"
    using Suc.prems(2) by (subst octal_char) (simp_all add: octal_digits_def)
  then show ?case
    using Suc.IH[of cs' "n * 8 + (of_char x - 48)"] Suc.prems cs by (simp add: octal_digits_def)
qed simp

section \<open>Properties\<close>

text \<open>Printing a 64-bit number and reading the text back gives the number: the decimal conversion into
  an array of at least 21 characters, the binary one into 65 and the hexadecimal one, which always
  prints sixteen digits, into 17 never leave their arrays and print the number in their base.\<close>

theorem number_text_roundtrip:
  assumes "65 \<le> length str"
  shows "(\<exists>out. ku_uint64_to_string num str = Inr out \<and> text_value 10 (c_str out) = unat num) \<and>
    (\<exists>out. ku_uint64_to_binary_string num str = Inr out \<and> text_value 2 (c_str out) = unat num) \<and>
    (\<exists>out. ku_uint64_to_hex_string num str = Inr out \<and> length (c_str out) = 16 \<and>
       text_value 16 (c_str out) = unat num)"
proof -
  have l: "length (num_digits 10 (unat num)) < length str" "length (num_digits 2 (unat num)) < length str"
    using assms u64_digits_bounds[of num] by linarith+
  have nn: "NUL \<notin> set (hex16 (unat num))"
    using numeral_text_nonnull[of 16 "unat num"] by (auto simp: hex16_def)
  have z: "text_value 16 (replicate k (CHR ''0'') @ cs) = text_value 16 cs" for k cs
    by (induction k) (simp_all add: text_value_def char_digit_def)
  have "length (hex16 (unat num)) = 16"
    using u64_digits_bounds(3)[of num] by (simp add: hex16_def numeral_text_def)
  then show ?thesis
    using decimal_writes[OF l(1)] binary_writes[OF l(2)] hex_writes[of str num] assms nn
      numeral_text_value[of 10 "unat num"] numeral_text_value[of 2 "unat num"] numeral_text_value[of 16 "unat num"]
      numeral_text_nonnull[of 10 "unat num"] numeral_text_nonnull[of 2 "unat num"] z
    by (simp add: c_str_text) (simp add: hex16_def)
qed

theorem number_text_roundtrip_witness:
  "\<exists>out. ku_uint64_to_string 18446744073709551615 (replicate 65 NUL) = Inr out \<and>
     text_value 10 (c_str out) = 18446744073709551615"
  using number_text_roundtrip[of "replicate 65 NUL" 18446744073709551615] by auto

text \<open>String comparison and copy on null-terminated arrays: \<open>ku_strcmp\<close> tells whether the two texts
  are equal, and \<open>ku_strcpy\<close> into a large enough array leaves the source's text there and nothing
  behind its terminator changed.\<close>

theorem string_compare_copy:
  assumes "NUL \<in> set a" and "NUL \<in> set b"
  shows "ku_strcmp a b = Inr (c_str a = c_str b) \<and>
    (length (c_str b) < length a \<longrightarrow> (\<exists>out. ku_strcpy a b = Inr out \<and> c_str out = c_str b \<and>
       length out = length a \<and> drop (length (c_str b) + 1) out = drop (length (c_str b) + 1) a))"
proof -
  note A = c_str_take[OF assms(1)] and B = c_str_take[OF assms(2)]
  have "ku_strcmp a b = Inr (c_str a = c_str b)"
  proof (cases "length (c_str a) = length (c_str b)")
    case True
    then show ?thesis
      using A B assms strcmp_loop_spec[of 0 "length (c_str a)" a b] by (simp add: ku_strcmp_def ku_strlen_spec)
  next
    case False
    then have "c_str a \<noteq> c_str b" by auto
    then show ?thesis using False assms by (simp add: ku_strcmp_def ku_strlen_spec)
  qed
  moreover have "\<exists>out. ku_strcpy a b = Inr out \<and> c_str out = c_str b \<and> length out = length a \<and>
      drop (length (c_str b) + 1) out = drop (length (c_str b) + 1) a" if "length (c_str b) < length a"
    using strcpy_loop_spec[of 0 b a] that assms c_str_nonnull[of b]
    by (simp add: ku_strcpy_def c_str_text)
  ultimately show ?thesis by blast
qed

theorem string_compare_copy_witness:
  "ku_strcmp (''ab'' @ [NUL, CHR ''x'']) (''ab'' @ [NUL]) = Inr True \<and>
   (\<exists>out. ku_strcpy (''ab'' @ [NUL, CHR ''x'']) (''ab'' @ [NUL]) = Inr out \<and> c_str out = ''ab'')"
  using string_compare_copy[of "''ab'' @ [NUL, CHR ''x'']" "''ab'' @ [NUL]"] by (auto simp: c_str_def)

text \<open>\<open>oct2bin\<close> reads a field of octal digits: as long as the number fits a signed 32-bit integer the
  result is its value.\<close>

theorem oct2bin_value:
  assumes "sz \<le> length str" and "octal_digits (take sz str)" and "octal_value (take sz str) < 2 ^ 31"
  shows "oct2bin str sz = Inr (int (octal_value (take sz str)))"
  using oct2bin_loop_spec[OF assms(1,2), of 0] sint_small[OF assms(3)]
  by (simp add: oct2bin_def octal_value_def)

theorem oct2bin_value_witness: "oct2bin ''00000001750'' 11 = Inr 1000"
proof -
  have "octal_digits (take 11 ''00000001750'')" "octal_value (take 11 ''00000001750'') = 1000"
    by (simp_all add: octal_digits_def octal_value_def)
  then show ?thesis using oct2bin_value[of 11 "''00000001750''"] by simp
qed

end
