(* ===== verification/Printf.thy ===== *)
theory Printf
  imports Kstring
begin

text \<open>
  Formatted output: the kernel's \<open>printf_template\<close> (\<open>src/src/utils/printf.c\<close>) and the C library's
  \<open>printf\<close> (\<open>src/libc/impl/printf.c\<close>). The specification \<open>render\<close> says what text a format and its
  arguments stand for; the two routines are shown to print it.
\<close>

section \<open>Console and arguments\<close>

text \<open>Text goes to the serial port and, once a font is loaded, to the screen.\<close>

record console =
  serial_out :: string
  screen_out :: string
  font_avaliable :: bool
  serial_lock :: bool

datatype va = VInt u64 | VStr "char list"

type_synonym va_list = "va list"

text \<open>Taking an argument that is not there, or not of the type asked for, reads outside the arguments.\<close>

definition va_int :: "va_list \<Rightarrow> (u64 \<times> va_list) result" where
  "va_int args = (case args of VInt n # r \<Rightarrow> Inr (n, r) | _ \<Rightarrow> Inl OutOfBounds)"

definition va_str :: "va_list \<Rightarrow> (char list \<times> va_list) result" where
  "va_str args = (case args of VStr t # r \<Rightarrow> Inr (t, r) | _ \<Rightarrow> Inl OutOfBounds)"

section \<open>The kernel's routines\<close>

definition put_text :: "string \<Rightarrow> console \<Rightarrow> console" where
  "put_text t c = c\<lparr>serial_out := serial_out c @ t,
     screen_out := (if font_avaliable c then screen_out c @ t else screen_out c)\<rparr>"

definition write_text :: "char list \<Rightarrow> console \<Rightarrow> console result" where
  "write_text txt c = res_bind (ku_strlen txt) (\<lambda>n. Inr (put_text (take n txt) c))"

definition write_character :: "char \<Rightarrow> console \<Rightarrow> console" where
  "write_character ch c = put_text [ch] c"

definition aquire_serial_lock :: "console \<Rightarrow> console result" where
  "aquire_serial_lock c = (if serial_lock c then Inl Diverged else Inr (c\<lparr>serial_lock := True\<rparr>))"

text \<open>The branch of the loop behind a percent sign.\<close>

definition printf_directive :: "char \<Rightarrow> va_list \<Rightarrow> console \<Rightarrow> (va_list \<times> console) result" where
  "printf_directive f args c =
     (let buffer = local_array 10 in
      if f = CHR ''d'' \<or> f = CHR ''i'' then
        res_bind (va_int args) (\<lambda>(n, args).
        res_bind (ku_uint64_to_string n buffer) (\<lambda>buffer.
        res_bind (arr_set buffer 9 NUL) (\<lambda>buffer.
        res_bind (write_text buffer c) (\<lambda>c. Inr (args, c)))))
      else if f = CHR ''c'' then
        res_bind (va_int args) (\<lambda>(n, args). Inr (args, write_character (char_of (unat n)) c))
      else if f = CHR ''x'' then
        res_bind (va_int args) (\<lambda>(n, args).
        res_bind (ku_uint64_to_hex_string n (local_array 20)) (\<lambda>bufferx.
        res_bind (arr_set bufferx 19 NUL) (\<lambda>bufferx.
        res_bind (write_text bufferx c) (\<lambda>c. Inr (args, c)))))
      else if f = CHR ''b'' then
        res_bind (va_int args) (\<lambda>(n, args).
        res_bind (ku_uint64_to_binary_string n (local_array 65)) (\<lambda>bufferb.
        res_bind (arr_set bufferb 64 NUL) (\<lambda>bufferb.
        res_bind (write_text bufferb c) (\<lambda>c. Inr (args, c)))))
      else if f = CHR ''s'' then
        res_bind (va_str args) (\<lambda>(t, args).
        res_bind (write_text t c) (\<lambda>c. Inr (args, c)))
      else Inr (args, c))"

function printf_loop :: "nat \<Rightarrow> nat \<Rightarrow> char list \<Rightarrow> va_list \<Rightarrow> console \<Rightarrow> console result" where
  "printf_loop i len format args c =
     (if i < len then
        res_bind (arr_get format i) (\<lambda>f.
        if f = CHR ''%'' then
          res_bind (arr_get format (i + 1)) (\<lambda>d.
          res_bind (printf_directive d args c) (\<lambda>(args, c).
            printf_loop (i + 2) len format args c))
        else printf_loop (i + 1) len format args (write_character f c))
      else Inr c)"
  by auto
termination by (relation "measure (\<lambda>(i, len, format, args, c). len - i)") auto

declare printf_loop.simps [simp del]

definition printf_template :: "char list \<Rightarrow> va_list \<Rightarrow> console \<Rightarrow> console result" where
  "printf_template format args c =
     res_bind (ku_strlen format) (\<lambda>len.
     res_bind (printf_loop 0 len format args c) (\<lambda>c.
       Inr (c\<lparr>serial_lock := False\<rparr>)))"

definition printf :: "char list \<Rightarrow> va_list \<Rightarrow> console \<Rightarrow> console result" where
  "printf format args c = res_bind (aquire_serial_lock c) (printf_template format args)"

definition kstatusf_helper :: "char list \<Rightarrow> va_list \<Rightarrow> console \<Rightarrow> console result" where
  "kstatusf_helper format args c = printf_template format args c"

text \<open>The macro \<open>kstatusf\<close> (and its sisters): a coloured prefix with the file's name, then the message.\<close>

definition kstatusf :: "char list \<Rightarrow> char list \<Rightarrow> va_list \<Rightarrow> console \<Rightarrow> console result" where
  "kstatusf prefix format args c =
     res_bind (aquire_serial_lock c) (\<lambda>c.
     res_bind (write_text prefix c) (\<lambda>c. kstatusf_helper format args c))"

definition k_ok_text :: "char list" where
  "k_ok_text = CHR 0x1B # ''[1;32m Ok!'' @ [CHR 0x0A, CHR 0x1B] @ ''[0;37m'' @ [NUL]"

definition k_ok :: "console \<Rightarrow> console result" where
  "k_ok c =
     res_bind (aquire_serial_lock c) (\<lambda>c.
     res_bind (write_text k_ok_text c) (\<lambda>c. Inr (c\<lparr>serial_lock := False\<rparr>)))"

section \<open>The C library's routine\<close>

text \<open>Its output is the sequence of characters handed to \<open>fputs\<close> on the standard output.\<close>

definition fputs_out :: "char list \<Rightarrow> string \<Rightarrow> string result" where
  "fputs_out str out = res_bind (ku_strlen str) (\<lambda>n. Inr (out @ take n str))"

definition libc_directive :: "char \<Rightarrow> va_list \<Rightarrow> string \<Rightarrow> (va_list \<times> string) result" where
  "libc_directive f args out =
     (let buffer = local_array 10 in
      if f = CHR ''d'' \<or> f = CHR ''i'' then
        res_bind (va_int args) (\<lambda>(n, args).
        res_bind (ku_uint64_to_string n buffer) (\<lambda>buffer.
        res_bind (arr_set buffer 9 NUL) (\<lambda>buffer.
        res_bind (fputs_out buffer out) (\<lambda>out. Inr (args, out)))))
      else if f = CHR ''c'' then
        res_bind (va_int args) (\<lambda>(n, args).
        res_bind (arr_set buffer 0 (char_of (unat n))) (\<lambda>buffer.
        res_bind (arr_set buffer 1 NUL) (\<lambda>buffer.
        res_bind (fputs_out buffer out) (\<lambda>out. Inr (args, out)))))
      else if f = CHR ''x'' then
        res_bind (va_int args) (\<lambda>(n, args).
        res_bind (ku_uint64_to_hex_string n (local_array 20)) (\<lambda>bufferx.
        res_bind (arr_set bufferx 19 NUL) (\<lambda>bufferx.
        res_bind (fputs_out bufferx out) (\<lambda>out. Inr (args, out)))))
      else if f = CHR ''s'' then
        res_bind (va_str args) (\<lambda>(t, args).
        res_bind (fputs_out t out) (\<lambda>out. Inr (args, out)))
      else Inr (args, out))"

function libc_printf_loop :: "nat \<Rightarrow> char list \<Rightarrow> va_list \<Rightarrow> string \<Rightarrow> string result" where
  "libc_printf_loop i format args out =
     (if i < length format then
        (if format ! i = NUL then Inr out
         else if format ! i = CHR ''%'' then
           res_bind (arr_get format (i + 1)) (\<lambda>d.
           res_bind (libc_directive d args out) (\<lambda>(args, out).
             libc_printf_loop (i + 2) format args out))
         else
           res_bind (fputs_out [format ! i, NUL] out) (\<lambda>out.
             libc_printf_loop (i + 1) format args out))
      else Inl OutOfBounds)"
  by auto
termination by (relation "measure (\<lambda>(i, format, args, out). length format - i)") auto

declare libc_printf_loop.simps [simp del]

definition libc_printf :: "char list \<Rightarrow> va_list \<Rightarrow> string result" where
  "libc_printf format args = libc_printf_loop 0 format args []"

text \<open>\<open>memcmp\<close> of the C library (\<open>src/libc/impl/string.c\<close>): on the first difference it returns the
  difference of the first bytes of the two blocks.\<close>

primrec libc_memcmp_loop :: "nat \<Rightarrow> nat \<Rightarrow> u8 list \<Rightarrow> u8 list \<Rightarrow> int result" where
  "libc_memcmp_loop 0 c str1 str2 = Inr 0"
| "libc_memcmp_loop (Suc k) c str1 str2 =
     res_bind (arr_get str1 c) (\<lambda>a. res_bind (arr_get str2 c) (\<lambda>b.
       if a \<noteq> b then
         res_bind (arr_get str1 0) (\<lambda>a0. res_bind (arr_get str2 0) (\<lambda>b0. Inr (uint a0 - uint b0)))
       else libc_memcmp_loop k (c + 1) str1 str2))"

definition libc_memcmp :: "u8 list \<Rightarrow> u8 list \<Rightarrow> nat \<Rightarrow> int result" where
  "libc_memcmp str1 str2 sz = libc_memcmp_loop sz 0 str1 str2"

section \<open>What a format stands for\<close>

text \<open>Decimal arguments must have at most nine digits; \<open>bin\<close> says whether the directive \<open>b\<close> exists.\<close>

definition render_directive :: "bool \<Rightarrow> char \<Rightarrow> va_list \<Rightarrow> (string \<times> va_list) option" where
  "render_directive bin f args =
     (if f = CHR ''d'' \<or> f = CHR ''i'' then
        (case args of VInt n # r \<Rightarrow> if unat n < 10 ^ 9 then Some (numeral_text 10 (unat n), r) else None
         | _ \<Rightarrow> None)
      else if f = CHR ''c'' then
        (case args of VInt n # r \<Rightarrow> if unat n mod 256 \<noteq> 0 then Some ([char_of (unat n)], r) else None
         | _ \<Rightarrow> None)
      else if f = CHR ''x'' then (case args of VInt n # r \<Rightarrow> Some (hex16 (unat n), r) | _ \<Rightarrow> None)
      else if f = CHR ''b'' \<and> bin then
        (case args of VInt n # r \<Rightarrow> Some (numeral_text 2 (unat n), r) | _ \<Rightarrow> None)
      else if f = CHR ''s'' then
        (case args of VStr t # r \<Rightarrow> if NUL \<in> set t then Some (c_str t, r) else None | _ \<Rightarrow> None)
      else Some ([], args))"

fun render :: "bool \<Rightarrow> string \<Rightarrow> va_list \<Rightarrow> string option" where
  "render bin [] args = Some []"
| "render bin [f] args = (if f = CHR ''%'' then None else Some [f])"
| "render bin (f # d # fs) args =
     (if f = CHR ''%'' then
        (case render_directive bin d args of None \<Rightarrow> None
         | Some (t, args) \<Rightarrow> map_option ((@) t) (render bin fs args))
      else map_option ((#) f) (render bin (d # fs) args))"

section \<open>The routines print what the format stands for\<close>

lemma put_text_simps [simp]: "put_text [] c = c" "put_text t (put_text u c) = put_text (u @ t) c"
  "serial_lock (put_text t c) = serial_lock c"
  by (simp_all add: put_text_def)

lemma strlen_text: "NUL \<notin> set xs \<Longrightarrow> ku_strlen (xs @ NUL # ys) = Inr (length xs)"
  by (simp add: ku_strlen_spec c_str_text)

text \<open>The extra terminator each directive writes at the end of its array is harmless.\<close>

lemma terminate_again:
  assumes "NUL \<notin> set xs" "length xs \<le> k" "k < length xs + 1 + length ys"
  shows "\<exists>zs. arr_set (xs @ NUL # ys) k NUL = Inr (xs @ NUL # zs)"
  using assms by (cases "k = length xs") (auto simp: arr_set_def list_update_append split: nat.splits)

lemma print_terminated:
  assumes "NUL \<notin> set xs" "length xs \<le> k" "k < length xs + 1 + length ys"
  shows "res_bind (arr_set (xs @ NUL # ys) k NUL) (\<lambda>b. res_bind (write_text b c) g) = g (put_text xs c)"
    "res_bind (arr_set (xs @ NUL # ys) k NUL) (\<lambda>b. res_bind (fputs_out b out) h) = h (out @ xs)"
proof -
  obtain zs where z: "arr_set (xs @ NUL # ys) k NUL = Inr (xs @ NUL # zs)" using terminate_again[OF assms] by blast
  show "res_bind (arr_set (xs @ NUL # ys) k NUL) (\<lambda>b. res_bind (write_text b c) g) = g (put_text xs c)"
    "res_bind (arr_set (xs @ NUL # ys) k NUL) (\<lambda>b. res_bind (fputs_out b out) h) = h (out @ xs)"
    unfolding z using assms(1) by (simp_all add: write_text_def fputs_out_def strlen_text)
qed

lemma decimal_short:
  assumes "unat n < 10 ^ 9"
  shows "\<exists>ys. ku_uint64_to_string n (local_array 10) = Inr (numeral_text 10 (unat n) @ NUL # ys) \<and>
    length (numeral_text 10 (unat n)) \<le> 9 \<and> length (numeral_text 10 (unat n)) + 1 + length ys = 10"
proof -
  have "length (num_digits 10 (unat n)) \<le> 9" using assms by (intro num_digits_length) simp_all
  then show ?thesis using decimal_writes[of n "local_array 10"] by (simp add: local_array_def numeral_text_def)
qed

lemma hex_short:
  "\<exists>ys. ku_uint64_to_hex_string n (local_array 20) = Inr (hex16 (unat n) @ NUL # ys) \<and>
    length (hex16 (unat n)) = 16 \<and> length ys = 3 \<and> NUL \<notin> set (hex16 (unat n))"
  using hex_writes[of "local_array 20" n] u64_digits_bounds(3)[of n] numeral_text_nonnull[of 16 "unat n"]
  by (auto simp: local_array_def hex16_def numeral_text_def)

lemma binary_short:
  "\<exists>ys. ku_uint64_to_binary_string n (local_array 65) = Inr (numeral_text 2 (unat n) @ NUL # ys) \<and>
    length (numeral_text 2 (unat n)) \<le> 64 \<and> length (numeral_text 2 (unat n)) + 1 + length ys = 65"
  using binary_writes[of n "local_array 65"] u64_digits_bounds(1)[of n]
  by (simp add: local_array_def numeral_text_def)

lemma write_string_text: "NUL \<in> set t \<Longrightarrow> write_text t c = Inr (put_text (c_str t) c)"
  "NUL \<in> set t \<Longrightarrow> fputs_out t out = Inr (out @ c_str t)"
  using c_str_take[of t] by (simp_all add: write_text_def fputs_out_def ku_strlen_spec)

lemma printf_directive_renders:
  assumes "render_directive True d args = Some (t, r)"
  shows "printf_directive d args c = Inr (r, put_text t c)"
proof -
  consider "d = CHR ''d'' \<or> d = CHR ''i''" | "d = CHR ''c''" | "d = CHR ''x''" | "d = CHR ''b''" | "d = CHR ''s''"
    | "d \<notin> {CHR ''d'', CHR ''i'', CHR ''c'', CHR ''x'', CHR ''b'', CHR ''s''}" by blast
  then show ?thesis
  proof cases
    case 1
    then obtain n where n: "args = VInt n # r" "unat n < 10 ^ 9" "t = numeral_text 10 (unat n)"
      using assms by (auto simp: render_directive_def split: list.splits va.splits if_splits)
    obtain ys where ys: "ku_uint64_to_string n (local_array 10) = Inr (t @ NUL # ys)"
      "length t \<le> 9" "length t + 1 + length ys = 10" using decimal_short[OF n(2)] n(3) by blast
    have "NUL \<notin> set t" using n(3) by (simp add: numeral_text_nonnull)
    then show ?thesis
      using 1 n(1) ys print_terminated(1)[of t 9 ys] by (auto simp: printf_directive_def va_int_def)
  next
    case 2
    then show ?thesis
      using assms by (auto simp: render_directive_def printf_directive_def va_int_def write_character_def
          split: list.splits va.splits if_splits)
  next
    case 3
    then obtain n where n: "args = VInt n # r" "t = hex16 (unat n)"
      using assms by (auto simp: render_directive_def split: list.splits va.splits)
    obtain ys where "ku_uint64_to_hex_string n (local_array 20) = Inr (t @ NUL # ys)"
      "length t = 16" "length ys = 3" "NUL \<notin> set t" using hex_short n(2) by blast
    then show ?thesis
      using 3 n(1) print_terminated(1)[of t 19 ys] by (auto simp: printf_directive_def va_int_def)
  next
    case 4
    then obtain n where n: "args = VInt n # r" "t = numeral_text 2 (unat n)"
      using assms by (auto simp: render_directive_def split: list.splits va.splits)
    obtain ys where ys: "ku_uint64_to_binary_string n (local_array 65) = Inr (t @ NUL # ys)"
      "length t \<le> 64" "length t + 1 + length ys = 65" using binary_short n(2) by blast
    have "NUL \<notin> set t" using n(2) by (simp add: numeral_text_nonnull)
    then show ?thesis
      using 4 n(1) ys print_terminated(1)[of t 64 ys] by (auto simp: printf_directive_def va_int_def)
  next
    case 5
    then show ?thesis
      using assms by (auto simp: render_directive_def printf_directive_def va_str_def write_string_text
          split: list.splits va.splits if_splits)
  next
    case 6
    then show ?thesis using assms by (auto simp: render_directive_def printf_directive_def)
  qed
qed

lemma printf_loop_renders:
  "format = pre @ fs @ NUL # post \<Longrightarrow> NUL \<notin> set fs \<Longrightarrow> render True fs args = Some t \<Longrightarrow>
     printf_loop (length pre) (length pre + length fs) format args c = Inr (put_text t c)"
proof (induction True fs args arbitrary: pre t c rule: render.induct)
  case (1 args)
  then show ?case by (simp add: printf_loop.simps)
next
  case (2 f args)
  then show ?case
    by (subst printf_loop.simps)
      (auto simp: arr_get_def nth_append write_character_def printf_loop.simps split: if_splits)
next
  case (3 f d fs args)
  have get: "arr_get format (length pre) = Inr f" "arr_get format (length pre + 1) = Inr d"
    using 3(3) by (simp_all add: arr_get_def nth_append)
  show ?case
  proof (cases "f = CHR ''%''")
    case True
    then obtain u r t' where u: "render_directive True d args = Some (u, r)" "render True fs r = Some t'" "t = u @ t'"
      using 3(5) by (auto split: option.splits)
    have "printf_loop (length (pre @ [f, d])) (length (pre @ [f, d]) + length fs) format r (put_text u c) =
        Inr (put_text t' (put_text u c))"
      using 3(3,4) u True by (intro 3(1)) auto
    then show ?thesis
      using get True u printf_directive_renders[OF u(1)] by (subst printf_loop.simps) simp
  next
    case False
    then obtain t' where t': "render True (d # fs) args = Some t'" "t = f # t'" using 3(5) by auto
    have "printf_loop (length (pre @ [f])) (length (pre @ [f]) + length (d # fs)) format args (put_text [f] c) =
        Inr (put_text t' (put_text [f] c))"
      using 3(3,4) t' False by (intro 3(2)) auto
    then show ?thesis
      using get False t' by (subst printf_loop.simps) (simp add: write_character_def)
  qed
qed

lemma libc_directive_renders:
  assumes "render_directive False d args = Some (t, r)"
  shows "libc_directive d args out = Inr (r, out @ t)"
proof -
  consider "d = CHR ''d'' \<or> d = CHR ''i''" | "d = CHR ''c''" | "d = CHR ''x''" | "d = CHR ''s''"
    | "d \<notin> {CHR ''d'', CHR ''i'', CHR ''c'', CHR ''x'', CHR ''s''}" by blast
  then show ?thesis
  proof cases
    case 1
    then obtain n where n: "args = VInt n # r" "unat n < 10 ^ 9" "t = numeral_text 10 (unat n)"
      using assms by (auto simp: render_directive_def split: list.splits va.splits if_splits)
    obtain ys where ys: "ku_uint64_to_string n (local_array 10) = Inr (t @ NUL # ys)"
      "length t \<le> 9" "length t + 1 + length ys = 10" using decimal_short[OF n(2)] n(3) by blast
    have "NUL \<notin> set t" using n(3) by (simp add: numeral_text_nonnull)
    then show ?thesis
      using 1 n(1) ys print_terminated(2)[of t 9 ys] by (auto simp: libc_directive_def va_int_def)
  next
    case 2
    then obtain n where n: "args = VInt n # r" "unat n mod 256 \<noteq> 0" "t = [char_of (unat n)]"
      using assms by (auto simp: render_directive_def split: list.splits va.splits if_splits)
    have "char_of (unat n) \<noteq> NUL"
    proof
      assume "char_of (unat n) = NUL"
      then have "of_char (char_of (unat n)) = (0 :: nat)" by simp
      with n(2) show False by simp
    qed
    moreover have "local_array 10 = CHR 0xCC # local_array 9" by (simp add: local_array_def eval_nat_numeral)
    ultimately show ?thesis
      using 2 n(1,3) print_terminated(2)[of "[char_of (unat n)]" 1 "local_array 8" out]
      by (simp add: libc_directive_def va_int_def arr_set_def fputs_out_def local_array_def ku_strlen_spec
          c_str_def eval_nat_numeral)
  next
    case 3
    then obtain n where n: "args = VInt n # r" "t = hex16 (unat n)"
      using assms by (auto simp: render_directive_def split: list.splits va.splits)
    obtain ys where "ku_uint64_to_hex_string n (local_array 20) = Inr (t @ NUL # ys)"
      "length t = 16" "length ys = 3" "NUL \<notin> set t" using hex_short n(2) by blast
    then show ?thesis
      using 3 n(1) print_terminated(2)[of t 19 ys] by (auto simp: libc_directive_def va_int_def)
  next
    case 4
    then show ?thesis
      using assms by (auto simp: render_directive_def libc_directive_def va_str_def write_string_text
          split: list.splits va.splits if_splits)
  next
    case 5
    then show ?thesis using assms by (auto simp: render_directive_def libc_directive_def)
  qed
qed

lemma libc_printf_loop_renders:
  "format = pre @ fs @ NUL # post \<Longrightarrow> NUL \<notin> set fs \<Longrightarrow> render False fs args = Some t \<Longrightarrow>
     libc_printf_loop (length pre) format args out = Inr (out @ t)"
proof (induction False fs args arbitrary: pre t out rule: render.induct)
  case (1 args)
  then show ?case by (simp add: libc_printf_loop.simps nth_append)
next
  case (2 f args)
  then have f: "format ! length pre = f" "format ! Suc (length pre) = NUL" "f \<noteq> NUL" "f \<noteq> CHR ''%''" "t = [f]"
    by (auto simp: nth_append split: if_splits)
  then show ?case
    using 2(1) by (subst libc_printf_loop.simps, simp add: fputs_out_def ku_strlen_spec c_str_def)
      (simp add: libc_printf_loop.simps f(2)[simplified] nth_append)
next
  case (3 f d fs args)
  have get: "format ! length pre = f" "arr_get format (length pre + 1) = Inr d" "length pre < length format" "f \<noteq> NUL"
    using 3(3,4) by (auto simp: arr_get_def nth_append)
  show ?case
  proof (cases "f = CHR ''%''")
    case True
    then obtain u r t' where u: "render_directive False d args = Some (u, r)" "render False fs r = Some t'" "t = u @ t'"
      using 3(5) by (auto split: option.splits)
    have "libc_printf_loop (length (pre @ [f, d])) format r (out @ u) = Inr ((out @ u) @ t')"
      using 3(3,4) u True by (intro 3(1)) auto
    then show ?thesis
      using get True u libc_directive_renders[OF u(1)] by (subst libc_printf_loop.simps) simp
  next
    case False
    then obtain t' where t': "render False (d # fs) args = Some t'" "t = f # t'" using 3(5) by auto
    have "libc_printf_loop (length (pre @ [f])) format args (out @ [f]) = Inr ((out @ [f]) @ t')"
      using 3(3,4) t' False by (intro 3(2)) auto
    then show ?thesis
      using get False t' by (subst libc_printf_loop.simps)
        (simp add: fputs_out_def ku_strlen_spec c_str_def)
  qed
qed

section \<open>Properties\<close>

lemma printf_prints:
  assumes "render True fs args = Some t" and "NUL \<notin> set fs" and "\<not> serial_lock c"
  shows "printf (fs @ [NUL]) args c = Inr (put_text t c)"
proof -
  have "printf_loop 0 (length fs) (fs @ [NUL]) args (c\<lparr>serial_lock := True\<rparr>) =
      Inr (put_text t (c\<lparr>serial_lock := True\<rparr>))"
    using printf_loop_renders[of "fs @ [NUL]" "[]" fs "[]" args t] assms by simp
  moreover have "c\<lparr>serial_lock := False\<rparr> = c" using assms(3) by (cases c) simp
  ultimately show ?thesis
    using assms by (simp add: printf_def aquire_serial_lock_def printf_template_def strlen_text put_text_def)
qed

text \<open>C27. When the output lock is free, the kernel's \<open>printf\<close> prints what its format stands for, on the serial
  port and on the screen when a font is loaded, and leaves the lock free. \<open>render\<close> gives a format its text
  when it does not end in a lone percent sign, its arguments are there and of the right kind, strings are
  terminated, a character is not NUL and a decimal is below ten to the ninth: a larger one overflows the
  code's buffer (\<open>printf_decimal_overflow\<close>).\<close>

theorem printf_renders:
  assumes "render True fs args = Some t" and "NUL \<notin> set fs" and "\<not> serial_lock c"
  shows "printf (fs @ [NUL]) args c = Inr (put_text t c)"
  using assms by (rule printf_prints)

theorem printf_renders_witness:
  "printf (''a=%d b=%s'' @ [NUL]) [VInt 42, VStr (''ok'' @ [NUL])]
     \<lparr>serial_out = [], screen_out = [], font_avaliable = False, serial_lock = False\<rparr> =
   Inr \<lparr>serial_out = ''a=42 b=ok'', screen_out = [], font_avaliable = False, serial_lock = False\<rparr>"
proof -
  have "render True ''a=%d b=%s'' [VInt 42, VStr (''ok'' @ [NUL])] = Some ''a=42 b=ok''"
  proof -
    have "numeral_text 10 42 = ''42''" by code_simp
    then show ?thesis by (simp add: render_directive_def c_str_def)
  qed
  from printf_renders[OF this, of "\<lparr>serial_out = [], screen_out = [], font_avaliable = False, serial_lock = False\<rparr>"]
  show ?thesis by (simp add: put_text_def)
qed

text \<open>A decimal argument of ten or more digits makes the kernel's \<open>printf\<close> write outside its array of
  ten characters: the terminator goes to the position after the last digit.\<close>

theorem printf_decimal_overflow:
  assumes "10 ^ 9 \<le> unat n" and "\<not> serial_lock c"
  shows "printf (''%d'' @ [NUL]) [VInt n] c = Inl OutOfBounds"
proof -
  have "9 < length (digits 10 (unat n))" using assms(1) by (intro digits_length_lower) simp_all
  moreover have "unat n \<noteq> 0" using assms(1) by (metis le_zero_eq zero_neq_numeral power_eq_0_iff)
  ultimately have "10 \<le> get_num_length n" by (simp add: get_num_length_digits num_digits_def)
  then have "ku_uint64_to_string n (local_array 10) = Inl OutOfBounds"
    by (simp add: ku_uint64_to_string_def arr_set_def local_array_def)
  then have "printf_directive (CHR ''d'') [VInt n] c' = Inl OutOfBounds" for c'
    by (simp add: printf_directive_def va_int_def)
  then show ?thesis
    using assms(2)
    by (simp add: printf_def aquire_serial_lock_def printf_template_def ku_strlen_spec c_str_def
        printf_loop.simps arr_get_def)
qed

theorem printf_decimal_overflow_witness:
  "printf (''%d'' @ [NUL]) [VInt 4294967296]
     \<lparr>serial_out = [], screen_out = [], font_avaliable = False, serial_lock = False\<rparr> = Inl OutOfBounds"
  by (rule printf_decimal_overflow) simp_all

text \<open>The C library's \<open>printf\<close> prints what its format stands for, the directive \<open>b\<close> excepted, which it
  does not have.\<close>

theorem libc_printf_renders:
  assumes "render False fs args = Some t" and "NUL \<notin> set fs"
  shows "libc_printf (fs @ [NUL]) args = Inr t"
  using libc_printf_loop_renders[of "fs @ [NUL]" "[]" fs "[]" args t "[]"] assms by (simp add: libc_printf_def)

theorem libc_printf_renders_witness:
  "libc_printf (''SH %s> '' @ [NUL]) [VStr (''R:/'' @ [NUL])] = Inr ''SH R:/> ''"
proof -
  have "render False ''SH %s> '' [VStr (''R:/'' @ [NUL])] = Some ''SH R:/> ''"
    by (simp add: render_directive_def c_str_def)
  from libc_printf_renders[OF this] show ?thesis by simp
qed

text \<open>The C library's \<open>memcmp\<close> takes two blocks that differ only behind their first byte for equal: it
  returns 0, the difference of the first bytes, instead of that of the bytes that differ.\<close>

theorem libc_memcmp_misses_difference:
  assumes "a0 = b0" and "length as = length bs"
  shows "libc_memcmp (a0 # as) (b0 # bs) (Suc (length as)) = Inr 0"
proof -
  have "libc_memcmp_loop k c (b0 # as) (b0 # bs) = Inr 0" if "c + k \<le> Suc (length as)" for k c
    using that
  proof (induction k arbitrary: c)
    case (Suc k)
    then show ?case using assms(2) by (simp add: arr_get_def)
  qed simp
  then show ?thesis using assms(1) by (simp add: libc_memcmp_def del: libc_memcmp_loop.simps)
qed

theorem libc_memcmp_misses_difference_witness: "libc_memcmp [1, 2] [1, 3] 2 = Inr 0"
  using libc_memcmp_misses_difference[of 1 1 "[2]" "[3]"] by (simp add: numeral_2_eq_2)

end
