(* ===== verification/Paging.thy ===== *)
theory Paging
  imports Kheap
begin

text \<open>
  The page tree (\<open>src/src/mem/paging.c\<close>, \<open>src/src/mem/map.c\<close>): four levels of tables of 512 entries, in
  byte memory behind the direct map, with pages for new tables from the page allocator.

  \<open>table_at\<close> reads the tree as a partial function from paths (lists of table indices) to tables; the
  invariant \<open>tree_ok\<close> says that distinct paths lead to disjoint tables, all in pages the allocator
  handed out. On it, mapping is shown to change the translation of exactly the pages it maps.
\<close>

section \<open>Constants\<close>

definition KERNEL_PFLAG_PRESENT :: u64 where "KERNEL_PFLAG_PRESENT = 1"
definition KERNEL_PFLAG_WRITE :: u64 where "KERNEL_PFLAG_WRITE = 2"
definition KERNEL_PFLAG_USER :: u64 where "KERNEL_PFLAG_USER = 4"
definition KERNEL_STACK_PAGES :: u64 where "KERNEL_STACK_PAGES = 2"
definition KERNEL_STACK_ADDR :: u64 where "KERNEL_STACK_ADDR = 0xFFFFFFFFFFFFF000 - KERNEL_STACK_PAGES * 4096"
definition TOPBITS :: u64 where "TOPBITS = 0xFFFF000000000000"

section \<open>Operations\<close>

text \<open>\<open>(virt_addr >> (12 + 9 * level)) & 511\<close>, the index into the table of a level (0 is the leaf).\<close>

definition pml_index :: "nat \<Rightarrow> u64 \<Rightarrow> u64" where
  "pml_index level virt_addr = drop_bit (12 + 9 * level) virt_addr AND 511"

definition entry_at :: "memory \<Rightarrow> u64 \<Rightarrow> u64 \<Rightarrow> u64" where
  "entry_at m table i = rd64 m (table + i * 8)"

definition set_entry :: "u64 \<Rightarrow> u64 \<Rightarrow> u64 \<Rightarrow> 'a pmm_state_scheme \<Rightarrow> 'a pmm_state_scheme" where
  "set_entry table i v s = s\<lparr>mem := wr64 (mem s) (table + i * 8) v\<rparr>"

text \<open>\<open>virt_to_phys\<close>: the body of the innermost of its three loops always returns, so each loop runs
  once at most.\<close>

definition virt_to_phys :: "u64 \<Rightarrow> u64 \<Rightarrow> 'a pmm_state_scheme \<Rightarrow> u64" where
  "virt_to_phys pml4_addr virt s =
     (let virt_addr = virt AND NOT TOPBITS;
          pml1 = pml_index 0 virt_addr; pml2 = pml_index 1 virt_addr;
          pml3 = pml_index 2 virt_addr; pml4 = pml_index 3 virt_addr in
      if entry_at (mem s) pml4_addr pml4 = 0 then 0xDEAD
      else
        (let pml3_addr = PAGE_ALIGN_DOWN (entry_at (mem s) pml4_addr pml4) + hhdm s in
         if entry_at (mem s) pml3_addr pml3 = 0 then 0xDEAD
         else
           (let pml2_addr = PAGE_ALIGN_DOWN (entry_at (mem s) pml3_addr pml3) + hhdm s in
            if entry_at (mem s) pml2_addr pml2 = 0 then 0xDEAD
            else
              (let pml1_addr = PAGE_ALIGN_DOWN (entry_at (mem s) pml2_addr pml2) + hhdm s in
               if entry_at (mem s) pml1_addr pml1 = 0 then 0xDEAD
               else PAGE_ALIGN_DOWN (entry_at (mem s) pml1_addr pml1) +
                    (virt_addr - PAGE_ALIGN_DOWN virt_addr)))))"

text \<open>The step that every level above the leaf repeats: follow the entry, or give it a fresh zeroed
  table.\<close>

definition ensure_table ::
  "u64 \<Rightarrow> u64 \<Rightarrow> u64 \<Rightarrow> 'a pmm_state_scheme \<Rightarrow> (u64 \<times> 'a pmm_state_scheme) result" where
  "ensure_table table i flags s =
     (if entry_at (mem s) table i = 0 then
        res_bind (kmalloc 1 s) (\<lambda>(a, s).
          let s = set_entry table i a s;
              next_addr = entry_at (mem s) table i + hhdm s;
              s = s\<lparr>mem := ku_memset next_addr 0 4096 (mem s)\<rparr>;
              s = set_entry table i (entry_at (mem s) table i OR
                    (flags OR KERNEL_PFLAG_PRESENT OR KERNEL_PFLAG_WRITE OR KERNEL_PFLAG_USER)) s
          in Inr (next_addr, s))
      else Inr (PAGE_ALIGN_DOWN (entry_at (mem s) table i) + hhdm s, s))"

text \<open>A loop either returns from the whole function or falls through with what is left to do.\<close>

datatype 's loop_exit = Returned 's | Fell u64 u64 's

function map_pml1 ::
  "u64 \<Rightarrow> u64 \<Rightarrow> u64 \<Rightarrow> u64 \<Rightarrow> u64 \<Rightarrow> 'a pmm_state_scheme \<Rightarrow> 'a pmm_state_scheme loop_exit result" where
  "map_pml1 flags pml1_addr pml1 phys_addr num_pages s =
     (if pml1 < 512 then
        (let s = set_entry pml1_addr pml1 (phys_addr OR flags) s;
             num_pages = num_pages - 1; phys_addr = phys_addr + 4096 in
         if num_pages = 0 then Inr (Returned s)
         else map_pml1 flags pml1_addr (pml1 + 1) phys_addr num_pages s)
      else Inr (Fell phys_addr num_pages s))"
  by pat_completeness auto
termination
proof (relation "measure (\<lambda>(flags, t, i, p, n, s). 512 - unat i)")
  fix i :: u64 and flags t p n s x y z
  assume "i < 512"
  then have "unat i < 512" by (simp add: word_less_nat_alt)
  then show "((flags, t, i + 1, z, y, x), flags, t, i, p, n, s) \<in> measure (\<lambda>(flags, t, i, p, n, s). 512 - unat i)"
    by (simp add: unat_add_u64)
qed simp

text \<open>The inner loop of \<open>alloc_pages\<close>: every page is a fresh one.\<close>

function alloc_pml1 ::
  "u64 \<Rightarrow> u64 \<Rightarrow> u64 \<Rightarrow> u64 \<Rightarrow> u64 \<Rightarrow> 'a pmm_state_scheme \<Rightarrow> 'a pmm_state_scheme loop_exit result" where
  "alloc_pml1 flags pml1_addr pml1 unused num_pages s =
     (if pml1 < 512 then
        res_bind (kmalloc 1 s) (\<lambda>(phys, s).
          let s = s\<lparr>mem := ku_memset (phys + hhdm s) 0 4096 (mem s)\<rparr>;
              s = set_entry pml1_addr pml1 (phys OR flags) s;
              num_pages = num_pages - 1 in
          if num_pages = 0 then Inr (Returned s)
          else alloc_pml1 flags pml1_addr (pml1 + 1) unused num_pages s)
      else Inr (Fell unused num_pages s))"
  by pat_completeness auto
termination
proof (relation "measure (\<lambda>(flags, t, i, p, n, s). 512 - unat i)")
  fix i :: u64 and flags t p n s x xa y z
  assume "i < 512"
  then have "unat i < 512" by (simp add: word_less_nat_alt)
  then show "((flags, t, i + 1, p, y, x), flags, t, i, p, n, s) \<in> measure (\<lambda>(flags, t, i, p, n, s). 512 - unat i)"
    by (simp add: unat_add_u64)
qed simp

text \<open>The loop of a level above the leaf, which \<open>map_pages\<close> and \<open>alloc_pages\<close> both nest three deep.
  \<open>inner\<close> is the loop inside it; the indices \<open>ixs\<close> of the levels below are those of the start address
  on the first round and 0 on the others.\<close>

type_synonym 's level_loop = "u64 \<Rightarrow> u64 list \<Rightarrow> u64 \<Rightarrow> u64 \<Rightarrow> 's \<Rightarrow> 's loop_exit result"

function outer_loop ::
  "u64 \<Rightarrow> 'a pmm_state_scheme level_loop \<Rightarrow> u64 \<Rightarrow> u64 \<Rightarrow> u64 list \<Rightarrow> u64 \<Rightarrow> u64 \<Rightarrow>
     'a pmm_state_scheme \<Rightarrow> 'a pmm_state_scheme loop_exit result" where
  "outer_loop flags inner table i ixs phys_addr num_pages s =
     (if i < 512 then
        res_bind (ensure_table table i flags s) (\<lambda>(next_addr, s).
        res_bind (inner next_addr ixs phys_addr num_pages s) (\<lambda>r.
          case r of
            Returned s \<Rightarrow> Inr (Returned s)
          | Fell phys_addr num_pages s \<Rightarrow>
              outer_loop flags inner table (i + 1) (map (\<lambda>_. 0) ixs) phys_addr num_pages s))
      else Inr (Fell phys_addr num_pages s))"
  by pat_completeness auto
termination
proof (relation "measure (\<lambda>(flags, inner, t, i, ixs, p, n, s). 512 - unat i)")
  fix i :: u64 and flags inner t ixs p n s x y xa ya r p' n' s'
  assume "i < 512"
  then have "unat i < 512" by (simp add: word_less_nat_alt)
  then show "((flags, inner, t, i + 1, map (\<lambda>_. 0) ixs, p', n', s'), flags, inner, t, i, ixs, p, n, s)
      \<in> measure (\<lambda>(flags, inner, t, i, ixs, p, n, s). 512 - unat i)"
    by (simp add: unat_add_u64)
qed simp

declare map_pml1.simps [simp del] alloc_pml1.simps [simp del] outer_loop.simps [simp del]

definition leaf_level ::
  "(u64 \<Rightarrow> u64 \<Rightarrow> u64 \<Rightarrow> u64 \<Rightarrow> 's \<Rightarrow> 's loop_exit result) \<Rightarrow> 's level_loop" where
  "leaf_level leaf table ixs phys_addr num_pages s =
     (case ixs of [i] \<Rightarrow> leaf table i phys_addr num_pages s | _ \<Rightarrow> Inl OutOfBounds)"

definition upper_level :: "u64 \<Rightarrow> 'a pmm_state_scheme level_loop \<Rightarrow> 'a pmm_state_scheme level_loop" where
  "upper_level flags inner table ixs phys_addr num_pages s =
     (case ixs of i # ixs \<Rightarrow> outer_loop flags inner table i ixs phys_addr num_pages s | [] \<Rightarrow> Inl OutOfBounds)"

text \<open>The indices of an address, top level first.\<close>

definition page_path :: "u64 \<Rightarrow> u64 list" where
  "page_path virt_addr = [pml_index 3 virt_addr, pml_index 2 virt_addr, pml_index 1 virt_addr, pml_index 0 virt_addr]"

definition page_loops ::
  "u64 \<Rightarrow> (u64 \<Rightarrow> u64 \<Rightarrow> u64 \<Rightarrow> u64 \<Rightarrow> 'a pmm_state_scheme \<Rightarrow> 'a pmm_state_scheme loop_exit result) \<Rightarrow>
   'a pmm_state_scheme level_loop" where
  "page_loops flags leaf = upper_level flags (upper_level flags (upper_level flags (leaf_level leaf)))"

definition map_pages ::
  "u64 \<Rightarrow> u64 \<Rightarrow> u64 \<Rightarrow> u64 \<Rightarrow> u64 \<Rightarrow> 'a pmm_state_scheme \<Rightarrow> 'a pmm_state_scheme result" where
  "map_pages pml4_addr virt_addr phys_addr num_pages flags s =
     res_bind (page_loops flags (map_pml1 flags) pml4_addr (page_path (virt_addr AND NOT TOPBITS))
                 phys_addr num_pages s) (\<lambda>r.
       case r of Returned s \<Rightarrow> Inr s | Fell _ _ s \<Rightarrow> Inl Halted)"

definition alloc_pages ::
  "u64 \<Rightarrow> u64 \<Rightarrow> u64 \<Rightarrow> u64 \<Rightarrow> 'a pmm_state_scheme \<Rightarrow> 'a pmm_state_scheme result" where
  "alloc_pages pml4_addr virt_addr num_pages flags s =
     res_bind (page_loops flags (alloc_pml1 flags) pml4_addr (page_path (virt_addr AND NOT TOPBITS))
                 0 num_pages s) (\<lambda>r.
       case r of Returned s \<Rightarrow> Inr s | Fell _ _ s \<Rightarrow> Inl Halted)"

function write_vmem ::
  "u64 \<Rightarrow> u64 \<Rightarrow> u64 \<Rightarrow> u64 \<Rightarrow> 'a pmm_state_scheme \<Rightarrow> 'a pmm_state_scheme result" where
  "write_vmem pml4_addr virt_addr data len s =
     (if len > 0 then
        (let kernel_addr = virt_to_phys pml4_addr virt_addr s in
         if kernel_addr = 0xDEAD then Inl Halted
         else
           (let kernel_addr = kernel_addr + hhdm s;
                bytes_to_copy = (if len < 4096 then len else 4096);
                s = s\<lparr>mem := ku_memcpy kernel_addr data bytes_to_copy (mem s)\<rparr>
            in write_vmem pml4_addr (virt_addr + bytes_to_copy) (data + bytes_to_copy) (len - bytes_to_copy) s))
      else Inr s)"
  by pat_completeness auto
termination
proof (relation "measure (\<lambda>(p, v, d, len, s). unat len)")
  fix len :: u64 and p v d s x xa xb xc
  assume l: "0 < len" and b: "xb = (if len < 4096 then len else 4096)"
  have "0 < unat len" "unat xb \<le> unat len" "0 < unat xb"
    using l b by (auto simp: word_less_nat_alt not_less)
  then show "((p, v + xb, d + xb, len - xb, xc), p, v, d, len, s) \<in> measure (\<lambda>(p, v, d, len, s). unat len)"
    by (simp add: unat_sub word_le_nat_alt)
qed simp

declare write_vmem.simps [simp del]

definition push_vmem ::
  "u64 \<Rightarrow> u64 \<Rightarrow> u64 \<Rightarrow> u64 \<Rightarrow> 'a pmm_state_scheme \<Rightarrow> 'a pmm_state_scheme result" where
  "push_vmem pml4_addr rsp data len s = (let rsp = rsp - len in write_vmem pml4_addr rsp data len s)"

section \<open>The kernel's own mappings\<close>

text \<open>Where the linker and the boot loader put the kernel: the symbols of \<open>linker.ld\<close> and the answer to
  the kernel address request.\<close>

record kernel_layout =
  kernel_start :: u64
  writeallowed_start :: u64
  kernel_end :: u64
  physical_base :: u64
  virtual_base :: u64

definition mapped_type :: "u64 \<Rightarrow> bool" where
  "mapped_type t \<longleftrightarrow> t = 0 \<or> t = 5 \<or> t = 7 \<or> t = 6 \<or> t = 3 \<or> t = 2"

primrec map_sections_loop ::
  "limine_memmap_entry list \<Rightarrow> u64 \<Rightarrow> 'a pmm_state_scheme \<Rightarrow> 'a pmm_state_scheme result" where
  "map_sections_loop [] pml4 s = Inr s"
| "map_sections_loop (e # es) pml4 s =
     res_bind
       (if mapped_type (me_type e)
        then map_pages pml4 (me_base e + hhdm s) (me_base e) (me_length e div 4096)
               (KERNEL_PFLAG_PRESENT OR KERNEL_PFLAG_WRITE) s
        else Inr s) (map_sections_loop es pml4)"

definition map_sections :: "u64 \<Rightarrow> 'a pmm_state_scheme \<Rightarrow> 'a pmm_state_scheme result" where
  "map_sections pml4 s = map_sections_loop (memmap s) pml4 s"

definition map_kernel :: "kernel_layout \<Rightarrow> u64 \<Rightarrow> 'a pmm_state_scheme \<Rightarrow> 'a pmm_state_scheme result" where
  "map_kernel L pml4 s =
     (let length_buffer = PAGE_ALIGN_UP (writeallowed_start L - kernel_start L);
          phys_buffer = physical_base L + (kernel_start L - virtual_base L) in
      res_bind (map_pages pml4 (PAGE_ALIGN_DOWN (kernel_start L)) phys_buffer (length_buffer div 4096)
                  KERNEL_PFLAG_PRESENT s) (\<lambda>s.
      let length_buffer = PAGE_ALIGN_UP (kernel_end L - writeallowed_start L);
          phys_buffer = physical_base L + (writeallowed_start L - virtual_base L) in
      res_bind (map_pages pml4 (PAGE_ALIGN_DOWN (writeallowed_start L)) phys_buffer (length_buffer div 4096)
                  (KERNEL_PFLAG_PRESENT OR KERNEL_PFLAG_WRITE) s) (\<lambda>s.
      alloc_pages pml4 KERNEL_STACK_ADDR KERNEL_STACK_PAGES (KERNEL_PFLAG_PRESENT OR KERNEL_PFLAG_WRITE) s)))"

definition map_all :: "kernel_layout \<Rightarrow> u64 \<Rightarrow> 'a pmm_state_scheme \<Rightarrow> 'a pmm_state_scheme result" where
  "map_all L pml4 s = res_bind (map_kernel L pml4 s) (map_sections pml4)"

definition init_paging_task ::
  "kernel_layout \<Rightarrow> 'a pmm_state_scheme \<Rightarrow> (u64 \<times> 'a pmm_state_scheme) result" where
  "init_paging_task L s =
     res_bind (kmalloc 1 s) (\<lambda>(a, s).
     let pml4_virt = a + hhdm s;
         s = s\<lparr>mem := ku_memset pml4_virt 0 4096 (mem s)\<rparr> in
     res_bind (map_all L pml4_virt s) (\<lambda>s. Inr (pml4_virt, s)))"

text \<open>\<open>init_paging\<close> stores the physical address of the tree in \<open>kernel.cr3\<close>: the result here.\<close>

definition init_paging :: "kernel_layout \<Rightarrow> 'a pmm_state_scheme \<Rightarrow> (u64 \<times> 'a pmm_state_scheme) result" where
  "init_paging L s =
     res_bind (kmalloc 1 s) (\<lambda>(a, s).
     let pml4_virt = a + hhdm s;
         s = s\<lparr>mem := ku_memset pml4_virt 0 4096 (mem s)\<rparr> in
     res_bind (map_all L pml4_virt s) (\<lambda>s. Inr (pml4_virt - hhdm s, s)))"

section \<open>Pages the allocator handed out\<close>

lemma owned_not_bitmap:
  assumes wf: "pmm_wf s" and y: "y \<in> owned_bytes s" and f: "f \<in> set (memmap s)" "usable f"
  shows "\<not> y - me_base f < 4096"
proof
  assume b: "y - me_base f < 4096"
  obtain e q where e: "e \<in> set (memmap s)" "usable e" "q < section_pages e"
    "y - (me_base e + (of_nat q * 4096 + 4096)) < 4096" using y by (auto simp: owned_bytes_def)
  have ok: "section_ok e" "section_ok f" using wf e f by (auto simp: pmm_wf_def memmap_ok_def)
  note off = page_offset[OF ok(1) e(3,4)]
  have "unat (y - me_base f) < 4096" using b by (simp add: word_less_nat_alt)
  with off(1) have ne: "e \<noteq> f" by auto
  have "in_section 0 f y"
    using b ok(2) by (simp add: in_section_def section_ok_def word_less_nat_alt)
  moreover obtain i j where "i < length (memmap s)" "j < length (memmap s)" "e = memmap s ! i" "f = memmap s ! j" "i \<noteq> j"
    using e(1) f(1) ne by (metis in_set_conv_nth)
  ultimately show False using wf off(2) e(2) f(2) unfolding pmm_wf_def memmap_ok_def by blast
qed

lemma owned_bytes_cong:
  assumes wf: "pmm_wf s"
    and m: "\<And>x f. f \<in> set (memmap s) \<Longrightarrow> usable f \<Longrightarrow> x - bitmap_at s f < 4096 \<Longrightarrow> m x = mem s x"
  shows "owned_bytes (s\<lparr>mem := m\<rparr>) = owned_bytes s"
proof -
  have "page_used (s\<lparr>mem := m\<rparr>) e p = page_used s e p" if e: "e \<in> set (memmap s)" "usable e" "p < section_pages e" for e p
  proof -
    have ok: "section_ok e" using wf e by (auto simp: pmm_wf_def memmap_ok_def)
    have "p div 8 < 4096" using e(3) section_pages_bound[OF ok] by linarith
    then have "(bitmap_at s e + of_nat (p div 8)) - bitmap_at s e < (4096 :: u64)"
      by (simp add: word_less_nat_alt unat_of_nat_u64)
    from m[OF e(1,2) this] show ?thesis by (simp add: page_used_def)
  qed
  then show ?thesis unfolding owned_bytes_def by auto
qed

lemma kmalloc_keeps_owned:
  assumes wf: "pmm_wf s" and res: "kmalloc n s = Inr (a, s')" and x: "x - hhdm s \<in> owned_bytes s"
  shows "mem s' x = mem s x"
proof -
  obtain i p e where e: "i < length (memmap s)" "e = memmap s ! i" "usable e"
    and out: "\<And>x. \<not> x - (a + hhdm s) < n * 4096 \<Longrightarrow> \<not> x - bitmap_at s e < 4096 \<Longrightarrow> mem s' x = mem s x"
    by (rule kmalloc_effect[OF wf res]) (rule that, assumption+)
  have "x - hhdm s \<notin> page_block a n" using kmalloc_fresh[OF wf res] x by blast
  then have "\<not> x - (a + hhdm s) < n * 4096" by (simp add: page_block_def algebra_simps)
  moreover have "\<not> x - bitmap_at s e < 4096"
    using owned_not_bitmap[OF wf x, of e] e by (simp add: algebra_simps)
  ultimately show ?thesis by (rule out)
qed

text \<open>The boot loader aligns usable sections to pages.\<close>

definition page_aligned :: "u64 \<Rightarrow> bool" where
  "page_aligned x \<longleftrightarrow> 4096 dvd unat x"

definition memmap_aligned :: "'a pmm_state_scheme \<Rightarrow> bool" where
  "memmap_aligned s \<longleftrightarrow> page_aligned (hhdm s) \<and> (\<forall>e \<in> set (memmap s). usable e \<longrightarrow> page_aligned (me_base e))"

lemma page_aligned_add: "page_aligned x \<Longrightarrow> page_aligned y \<Longrightarrow> page_aligned (x + y)"
proof -
  assume "page_aligned x" "page_aligned y"
  then have "(4096 :: nat) dvd unat x + unat y" by (simp add: page_aligned_def)
  moreover have "(4096 :: nat) dvd 2 ^ 64" by simp
  ultimately have "(4096 :: nat) dvd (unat x + unat y) mod 2 ^ 64" by (simp only: dvd_mod_iff)
  then show ?thesis by (simp add: page_aligned_def unat_word_ariths)
qed

lemma page_aligned_mult: "page_aligned (of_nat p * 4096)"
proof -
  have "(4096 :: nat) dvd (unat (of_nat p :: u64) * 4096) mod 2 ^ 64"
    by (subst dvd_mod_iff) simp_all
  then show ?thesis by (simp add: page_aligned_def unat_word_ariths)
qed

lemma kmalloc_aligned:
  assumes wf: "pmm_wf s" and al: "memmap_aligned s" and res: "kmalloc n s = Inr (a, s')"
  shows "page_aligned a"
proof -
  obtain i p e where e: "i < length (memmap s)" "e = memmap s ! i" "usable e"
    "a = me_base e + (of_nat p * 4096 + 4096)"
    by (rule kmalloc_effect[OF wf res]) (rule that, assumption+)
  have "of_nat p * 4096 + 4096 = (of_nat (Suc p) * 4096 :: u64)" by (simp add: algebra_simps)
  then have "page_aligned (of_nat p * 4096 + 4096)" using page_aligned_mult[of "Suc p"] by (simp only:)
  moreover have "page_aligned (me_base e)" using e al by (simp add: memmap_aligned_def)
  ultimately show ?thesis using e(4) by (auto intro: page_aligned_add)
qed

text \<open>An entry holds an aligned address and flags below the page size: rounding down recovers the
  address.\<close>

lemma page_align_down_flags:
  assumes a: "page_aligned a" and f: "f < 4096"
  shows "PAGE_ALIGN_DOWN (a OR f) = a"
proof -
  obtain k where k: "unat a = 4096 * k" using a by (auto simp: page_aligned_def)
  have fm: "unat f < 4096" using f by (simp add: word_less_nat_alt)
  have "unat (take_bit 12 a) = 0"
    using k by (simp only: unsigned_take_bit_eq) (simp add: take_bit_eq_mod)
  then have "take_bit 12 a = 0" by (simp add: word_unat_eq_iff)
  moreover have "unat (take_bit 12 f) = unat f"
    using fm by (simp only: unsigned_take_bit_eq) (simp add: take_bit_eq_mod)
  then have "take_bit 12 f = f" by (simp add: word_unat_eq_iff)
  ultimately have b: "\<not> bit (take_bit 12 a) n" "bit (take_bit 12 f) n = bit f n" for n by simp_all
  have d: "a AND f = 0"
  proof (rule bit_word_eqI)
    fix n
    show "bit (a AND f) n = bit (0 :: u64) n" using b[of n] by (auto simp: bit_and_iff bit_take_bit_iff)
  qed
  then have "a OR f = a + f" by (simp add: disjunctive_add_eq_or)
  moreover have "unat (a + f) = unat a + unat f"
  proof (rule unat_add_u64)
    have "4096 * k < 4096 * 2 ^ 52" using unat_u64_less[of a] k by simp
    then have "k < 2 ^ 52" by simp
    then show "unat a + unat f < 2 ^ 64" using k fm by simp
  qed
  ultimately have "unat ((a OR f) div 4096) = k" using k fm by (simp add: unat_div)
  then have "unat (PAGE_ALIGN_DOWN (a OR f)) = k * 4096"
    unfolding PAGE_ALIGN_DOWN_def using unat_u64_less[of a] k by (subst unat_mult_u64) simp_all
  then show ?thesis using k by (simp add: u64_eq_iff)
qed

section \<open>Tables and their entries\<close>

definition table_page :: "u64 \<Rightarrow> u64 set" where
  "table_page t = {x. x - t < 4096}"

lemma slot_offset: "i < 512 \<Longrightarrow> k < 8 \<Longrightarrow> unat (i * 8 + of_nat k :: u64) = unat i * 8 + k"
proof -
  assume "i < 512" "k < 8"
  then have i: "unat i < 512" by (simp add: word_less_nat_alt)
  then have "unat (i * 8) = unat i * 8" by (subst unat_mult_u64) simp_all
  then show ?thesis using i \<open>k < 8\<close> by (subst unat_add_u64) (simp_all add: unat_of_nat_u64)
qed

lemma slot_in_page: "i < 512 \<Longrightarrow> k < 8 \<Longrightarrow> t + i * 8 + of_nat k \<in> table_page t"
proof -
  assume a: "i < 512" "k < 8"
  then have "unat i < 512" by (simp add: word_less_nat_alt)
  moreover have "t + i * 8 + of_nat k - t = i * 8 + of_nat k" by simp
  ultimately show ?thesis
    unfolding table_page_def mem_Collect_eq using slot_offset[OF a] a(2) by (simp add: word_less_nat_alt)
qed

lemma entry_at_cong:
  "i < 512 \<Longrightarrow> (\<And>x. x \<in> table_page t \<Longrightarrow> m x = m' x) \<Longrightarrow> entry_at m t i = entry_at m' t i"
  unfolding entry_at_def by (intro rd64_cong) (auto simp: slot_in_page)

lemma entry_at_zero:
  "i < 512 \<Longrightarrow> (\<And>x. x \<in> table_page t \<Longrightarrow> m x = 0) \<Longrightarrow> entry_at m t i = 0"
proof -
  assume i: "i < 512" and z: "\<And>x. x \<in> table_page t \<Longrightarrow> m x = 0"
  have "entry_at m t i = entry_at (\<lambda>_. 0) t i" using z by (intro entry_at_cong[OF i]) auto
  moreover have "rd64 (\<lambda>_. 0) a = 0" for a unfolding rd64_def by (simp add: upt_conv_Cons)
  ultimately show ?thesis by (simp add: entry_at_def)
qed

lemma entry_set_same [simp]: "entry_at (mem (set_entry t i v s)) t i = v"
  by (simp add: entry_at_def set_entry_def)

lemma set_entry_outside:
  assumes "i < 512" "x \<notin> table_page t"
  shows "mem (set_entry t i v s) x = mem s x"
proof -
  have "\<not> x - (t + i * 8) < 8"
  proof
    assume "x - (t + i * 8) < 8"
    then have u: "unat (x - (t + i * 8)) < 8" by (simp add: word_less_nat_alt)
    have "x = t + i * 8 + of_nat (unat (x - (t + i * 8)))" by simp
    then show False using slot_in_page[OF assms(1) u, of t] assms(2) by metis
  qed
  then show ?thesis by (simp add: set_entry_def wr64_def)
qed

lemma entry_set_other:
  assumes "i < 512" "j < 512" "i \<noteq> j"
  shows "entry_at (mem (set_entry t i v s)) t j = entry_at (mem s) t j"
proof -
  have "unat i < 512" "unat j < 512" "unat i \<noteq> unat j"
    using assms by (simp_all add: word_less_nat_alt word_unat_eq_iff)
  moreover have "unat (i * 8) = unat i * 8" "unat (j * 8) = unat j * 8"
    using calculation by (simp_all add: unat_mult_u64)
  ultimately have "8 \<le> t + j * 8 - (t + i * 8)" "8 \<le> t + i * 8 - (t + j * 8)"
    by (auto simp: word_le_nat_alt unat_sub_if')
  then show ?thesis by (simp add: entry_at_def set_entry_def rd64_wr64_apart)
qed

section \<open>The tree\<close>

text \<open>The table a path of indices leads to.\<close>

primrec table_at :: "memory \<Rightarrow> u64 \<Rightarrow> u64 \<Rightarrow> u64 list \<Rightarrow> u64 option" where
  "table_at m h t [] = Some t"
| "table_at m h t (i # ixs) =
     (if entry_at m t i = 0 then None else table_at m h (PAGE_ALIGN_DOWN (entry_at m t i) + h) ixs)"

lemma table_at_snoc:
  "table_at m h t (p @ [i]) =
     (case table_at m h t p of None \<Rightarrow> None
      | Some u \<Rightarrow> if entry_at m u i = 0 then None else Some (PAGE_ALIGN_DOWN (entry_at m u i) + h))"
  by (induction p arbitrary: t) auto

definition ix_path :: "nat \<Rightarrow> u64 list \<Rightarrow> bool" where
  "ix_path k p \<longleftrightarrow> length p \<le> k \<and> (\<forall>i \<in> set p. i < 512)"

abbreviation table_of :: "'a pmm_state_scheme \<Rightarrow> u64 \<Rightarrow> u64 list \<Rightarrow> u64 option" where
  "table_of s \<equiv> table_at (mem s) (hhdm s)"

definition tree_ok :: "'a pmm_state_scheme \<Rightarrow> u64 \<Rightarrow> bool" where
  "tree_ok s root \<longleftrightarrow> pmm_wf s \<and> memmap_aligned s \<and>
     (\<forall>p t. ix_path 3 p \<and> table_of s root p = Some t \<longrightarrow>
        (\<forall>x \<in> table_page t. x - hhdm s \<in> owned_bytes s)) \<and>
     (\<forall>p q t u. ix_path 3 p \<and> ix_path 3 q \<and> table_of s root p = Some t \<and> table_of s root q = Some u \<and>
        p \<noteq> q \<longrightarrow> table_page t \<inter> table_page u = {})"

text \<open>The entry of a page: the leaf its full path leads to, 0 when there is no leaf.\<close>

definition leaf_entry :: "'a pmm_state_scheme \<Rightarrow> u64 \<Rightarrow> u64 list \<Rightarrow> u64" where
  "leaf_entry s root q = (case table_of s root (butlast q) of None \<Rightarrow> 0 | Some t \<Rightarrow> entry_at (mem s) t (last q))"

definition full_path :: "u64 list \<Rightarrow> bool" where
  "full_path q \<longleftrightarrow> length q = 4 \<and> (\<forall>i \<in> set q. i < 512)"

lemma full_path_split: "full_path q \<Longrightarrow> ix_path 3 (butlast q) \<and> last q < 512 \<and> q = butlast q @ [last q]"
  by (cases q rule: rev_cases) (auto simp: full_path_def ix_path_def)

lemma table_at_unchanged:
  assumes e: "\<And>q t j. ix_path 3 q \<Longrightarrow> table_at m h root q = Some t \<Longrightarrow> j < 512 \<Longrightarrow> (q, j) \<noteq> (p, i) \<Longrightarrow>
      entry_at m' t j = entry_at m t j"
  shows "ix_path 3 q \<Longrightarrow> \<not> (\<exists>r. q = p @ i # r) \<Longrightarrow> table_at m' h root q = table_at m h root q"
proof (induction q rule: rev_induct)
  case (snoc j q)
  have q: "ix_path 3 q" "j < 512" "\<not> (\<exists>r. q = p @ i # r)" "(q, j) \<noteq> (p, i)"
    using snoc.prems by (auto simp: ix_path_def)
  then have "table_at m' h root q = table_at m h root q" by (intro snoc.IH)
  then show ?case using e[OF q(1) _ q(2,4)] by (auto simp: table_at_snoc split: option.splits)
qed simp

lemma tree_okD:
  assumes "tree_ok s root"
  shows "pmm_wf s" "memmap_aligned s"
    "\<And>p t x. ix_path 3 p \<Longrightarrow> table_of s root p = Some t \<Longrightarrow> x \<in> table_page t \<Longrightarrow> x - hhdm s \<in> owned_bytes s"
    "\<And>p q t u. ix_path 3 p \<Longrightarrow> ix_path 3 q \<Longrightarrow> table_of s root p = Some t \<Longrightarrow> table_of s root q = Some u \<Longrightarrow>
      p \<noteq> q \<Longrightarrow> table_page t \<inter> table_page u = {}"
  using assms unfolding tree_ok_def by blast+

lemma mem_upd_frames [frame_simps]:
  "memmap_aligned (s\<lparr>mem := m\<rparr>) = memmap_aligned s"
  "memmap_aligned (s\<lparr>mem := m, total_memory_allocated := t\<rparr>) = memmap_aligned s"
  by (simp_all add: memmap_aligned_def)

text \<open>Changing one entry of one table changes no other entry of the tree.\<close>

lemma set_entry_tree:
  assumes ok: "tree_ok s root" and p: "ix_path 3 p" "table_of s root p = Some t" and i: "i < 512"
    and q: "ix_path 3 q" "table_of s root q = Some u" and j: "j < 512" and ne: "(q, j) \<noteq> (p, i)"
  shows "entry_at (mem (set_entry t i v s)) u j = entry_at (mem s) u j"
proof (cases "q = p")
  case True
  then show ?thesis using p(2) q(2) ne i j by (auto intro: entry_set_other)
next
  case False
  then have "table_page u \<inter> table_page t = {}" by (rule tree_okD(4)[OF ok q(1) p(1) q(2) p(2)])
  then show ?thesis using set_entry_outside[OF i] by (intro entry_at_cong[OF j]) blast
qed

lemma owned_set_entry:
  assumes ok: "tree_ok s root" and p: "ix_path 3 p" "table_of s root p = Some t" and i: "i < 512"
  shows "owned_bytes (set_entry t i v s) = owned_bytes s"
  unfolding set_entry_def
proof (rule owned_bytes_cong[OF tree_okD(1)[OF ok]])
  fix x f assume f: "f \<in> set (memmap s)" "usable f" "x - bitmap_at s f < 4096"
  have "x - hhdm s \<notin> owned_bytes s"
    using owned_not_bitmap[OF tree_okD(1)[OF ok] _ f(1,2), of "x - hhdm s"] f(3) by (auto simp: diff_diff_eq add.commute)
  then have "x \<notin> table_page t" using tree_okD(3)[OF ok p] by blast
  then show "wr64 (mem s) (t + i * 8) v x = mem s x"
    using set_entry_outside[OF i, of x t v s] by (simp add: set_entry_def)
qed

lemma tree_ok_same:
  assumes ok: "tree_ok s root" and s': "pmm_wf s'" "memmap_aligned s'" "hhdm s' = hhdm s"
    "owned_bytes s \<subseteq> owned_bytes s'"
    and w: "\<And>q. ix_path 3 q \<Longrightarrow> table_of s' root q = table_of s root q"
  shows "tree_ok s' root"
  unfolding tree_ok_def
proof (intro conjI allI impI ballI, goal_cases)
  case (3 p t x)
  then show ?case using tree_okD(3)[OF ok, of p t x] w[of p] s' by auto
next
  case (4 p q t u)
  then show ?case using tree_okD(4)[OF ok, of p q t u] w[of p] w[of q] by auto
qed (use s' in simp_all)

text \<open>Writing a leaf: the tables stay where they are and one page changes its entry.\<close>

lemma set_leaf:
  assumes ok: "tree_ok s root" and p: "ix_path 3 p" "length p = 3" "table_of s root p = Some t" and i: "i < 512"
  shows "tree_ok (set_entry t i v s) root"
    "ix_path 3 q \<Longrightarrow> table_of (set_entry t i v s) root q = table_of s root q"
    "full_path q \<Longrightarrow> leaf_entry (set_entry t i v s) root q = (if q = p @ [i] then v else leaf_entry s root q)"
proof -
  let ?s = "set_entry t i v s"
  have h: "hhdm ?s = hhdm s" "memmap_aligned ?s = memmap_aligned s" "pmm_wf ?s = pmm_wf s"
    by (simp_all add: set_entry_def frame_simps)
  note E = set_entry_tree[OF ok p(1,3) i]
  show w: "table_of ?s root q = table_of s root q" if "ix_path 3 q" for q
    unfolding h
  proof (rule table_at_unchanged[where p = p and i = i])
    show "\<not> (\<exists>r. q = p @ i # r)" using that p(2) by (auto simp: ix_path_def)
  qed (use that E in auto)
  show "tree_ok ?s root"
    by (rule tree_ok_same[OF ok _ _ h(1) _ w]) (use ok h owned_set_entry[OF ok p(1,3) i] in \<open>simp_all add: tree_ok_def\<close>)
  show "leaf_entry ?s root q = (if q = p @ [i] then v else leaf_entry s root q)" if q: "full_path q"
  proof -
    note Q = full_path_split[OF q]
    have "q = p @ [i] \<longleftrightarrow> butlast q = p \<and> last q = i" using Q by (metis butlast_snoc last_snoc)
    moreover have "entry_at (mem ?s) u (last q) = entry_at (mem s) u (last q)"
      if "table_of s root (butlast q) = Some u" "(butlast q, last q) \<noteq> (p, i)" for u
      using E[of "butlast q" u "last q"] Q that by blast
    ultimately show ?thesis
      using w[of "butlast q"] Q p(3) unfolding leaf_entry_def by (auto split: option.splits)
  qed
qed

lemma page_block_table: "x - hhdm s \<in> page_block a 1 \<longleftrightarrow> x \<in> table_page (a + hhdm s)"
  by (simp add: page_block_def table_page_def diff_diff_eq add.commute)

lemma kmalloc_cases_1:
  assumes "pmm_wf s"
  shows "kmalloc 1 s = Inl Halted \<or> (\<exists>a s'. kmalloc 1 s = Inr (a, s'))"
  using kmalloc_cases[OF assms, of 1] by (auto simp del: One_nat_def) 

text \<open>The bytes the allocator can still hand out.\<close>

definition allocatable :: "'a pmm_state_scheme \<Rightarrow> u64 set" where
  "allocatable s = {x. \<exists>e p. e \<in> set (memmap s) \<and> usable e \<and> p < section_pages e \<and>
     x - (me_base e + (of_nat p * 4096 + 4096)) < 4096}"

definition free_bytes :: "'a pmm_state_scheme \<Rightarrow> nat" where
  "free_bytes s = card (allocatable s - owned_bytes s)"

lemma free_bytes_same: "memmap s' = memmap s \<Longrightarrow> owned_bytes s' = owned_bytes s \<Longrightarrow> free_bytes s' = free_bytes s"
  by (simp add: free_bytes_def allocatable_def)

lemma card_page_block: "card (page_block a 1) \<le> 4096"
proof -
  have "page_block a 1 \<subseteq> (\<lambda>k. a + of_nat k) ` {..<4096}"
  proof
    fix x assume "x \<in> page_block a 1"
    then have "unat (x - a) < 4096" by (simp add: page_block_def word_less_nat_alt)
    moreover have "x = a + of_nat (unat (x - a))" by simp
    ultimately show "x \<in> (\<lambda>k. a + of_nat k) ` {..<4096}" by (intro image_eqI) auto
  qed
  then have "card (page_block a 1) \<le> card ((\<lambda>k. a + of_nat k) ` {..<4096 :: nat})" by (intro card_mono) simp_all
  also have "\<dots> \<le> card {..<4096 :: nat}" by (rule card_image_le) simp
  finally show ?thesis by simp
qed

lemma free_bytes_page:
  assumes "memmap s' = memmap s" "owned_bytes s' = owned_bytes s \<union> page_block a 1"
  shows "free_bytes s \<le> free_bytes s' + 4096"
proof -
  let ?A = "allocatable s - owned_bytes s" let ?B = "allocatable s' - owned_bytes s'"
  have "?A \<subseteq> ?B \<union> page_block a 1" using assms by (auto simp: allocatable_def)
  then have "card ?A \<le> card ?B + card (page_block a 1)"
    by (meson card_Un_le card_mono finite le_trans)
  then show ?thesis using card_page_block[of a] by (simp add: free_bytes_def)
qed

lemma kmalloc_none_free:
  assumes wf: "pmm_wf s" and k: "kmalloc 1 s = Inl Halted"
  shows "free_bytes s = 0"
proof -
  have "page_used s e p" if "e \<in> set (memmap s)" "usable e" "p < section_pages e" for e p
    using kmalloc_cases[OF wf, of 1] k that by (auto simp: run_free_def Suc_le_eq) (metis le_less_Suc_eq)
  then have "allocatable s - owned_bytes s = {}" by (auto simp: allocatable_def owned_bytes_def)
  then show ?thesis by (simp only: free_bytes_def card.empty)
qed

text \<open>The flags of a table entry.\<close>

definition table_flags :: "u64 \<Rightarrow> u64" where
  "table_flags flags = flags OR KERNEL_PFLAG_PRESENT OR KERNEL_PFLAG_WRITE OR KERNEL_PFLAG_USER"

lemma or_less_4096: "a < 4096 \<Longrightarrow> b < 4096 \<Longrightarrow> a OR b < (4096 :: u64)"
  using OR_upper[of "uint a" 12 "uint b"] by (simp add: word_less_def unsigned_or_eq)

lemma table_flags_bound: "flags < 4096 \<Longrightarrow> table_flags flags < 4096"
  unfolding table_flags_def KERNEL_PFLAG_PRESENT_def KERNEL_PFLAG_WRITE_def KERNEL_PFLAG_USER_def
  by (intro or_less_4096) simp_all

lemma or_odd_nonzero: "odd b \<Longrightarrow> a OR b \<noteq> (0 :: u64)"
  by (metis even_or_iff even_zero)

lemma table_flags_nonzero: "a OR table_flags flags \<noteq> 0"
  by (rule or_odd_nonzero) (simp add: table_flags_def KERNEL_PFLAG_PRESENT_def even_or_iff)

text \<open>What \<open>ensure_table\<close> does to memory.\<close>

lemma ensure_table_fresh:
  assumes ok: "tree_ok s root" and p: "ix_path 3 p" "table_of s root p = Some t" and i: "i < 512"
    and z: "entry_at (mem s) t i = 0" and k: "kmalloc 1 s = Inr (a, s1)"
  obtains s' where "ensure_table t i flags s = Inr (a + hhdm s, s')"
    "hhdm s' = hhdm s" "pmm_wf s'" "memmap_aligned s'" "memmap s' = memmap s" "page_aligned a"
    "entry_at (mem s') t i = a OR table_flags flags"
    "\<And>q u j. ix_path 3 q \<Longrightarrow> table_of s root q = Some u \<Longrightarrow> j < 512 \<Longrightarrow> (q, j) \<noteq> (p, i) \<Longrightarrow>
       entry_at (mem s') u j = entry_at (mem s) u j"
    "\<And>x. x \<in> table_page (a + hhdm s) \<Longrightarrow> mem s' x = 0"
    "\<And>x. x - hhdm s \<in> owned_bytes s \<Longrightarrow> x \<notin> table_page t \<Longrightarrow> mem s' x = mem s x"
    "owned_bytes s' = owned_bytes s \<union> page_block a 1" "page_block a 1 \<inter> owned_bytes s = {}"
proof -
  let ?n = "a + hhdm s"
  note wf = tree_okD(1)[OF ok]
  have own: "owned_bytes s1 = owned_bytes s \<union> page_block a 1" by (rule kmalloc_owned[OF wf k])
  have fresh: "page_block a 1 \<inter> owned_bytes s = {}" by (rule kmalloc_fresh[OF wf k])
  obtain m where s1: "s1 = s\<lparr>mem := m, total_memory_allocated := total_memory_allocated s + 1 * 4096\<rparr>"
    using kmalloc_frame[OF wf k] by auto
  have keep: "mem s1 x = mem s x" if "x - hhdm s \<in> owned_bytes s" for x
    by (rule kmalloc_keeps_owned[OF wf k that])
  have zero: "mem s1 x = 0" if "x \<in> table_page ?n" for x
    by (rule kmalloc_zeroes[OF wf k]) (use that in \<open>simp add: table_page_def\<close>)
  have apart: "table_page u \<inter> table_page ?n = {}" if "ix_path 3 q" "table_of s root q = Some u" for q u
    using tree_okD(3)[OF ok that] fresh page_block_table[of _ s a] by blast
  define s2 where "s2 = set_entry t i a s1"
  have e2: "entry_at (mem s2) t i = a" by (simp add: s2_def)
  define s3 where "s3 = s2\<lparr>mem := ku_memset ?n 0 4096 (mem s2)\<rparr>"
  have m3: "mem s3 x = (if x \<in> table_page ?n then 0 else mem s2 x)" for x
    by (simp add: s3_def ku_memset_def table_page_def)
  have e3: "entry_at (mem s3) t i = a"
    using apart[OF p] m3 e2 by (subst entry_at_cong[OF i, of t "mem s3" "mem s2"]) auto
  define s4 where "s4 = set_entry t i (a OR table_flags flags) s3"
  have out: "mem s4 x = mem s1 x" if "x \<notin> table_page t" for x
    using that m3[of x] zero[of x] set_entry_outside[OF i that, of a s1]
      set_entry_outside[OF i that, of "a OR table_flags flags" s3] by (simp add: s4_def s2_def)
  have fr: "hhdm s4 = hhdm s" "pmm_wf s4" "memmap_aligned s4" "memmap s4 = memmap s"
    using wf tree_okD(2)[OF ok]
    by (simp_all add: s4_def s3_def s2_def s1 set_entry_def pmm_wf_def memmap_ok_def memmap_aligned_def)
  have same: "entry_at (mem s4) t j = entry_at (mem s) t j" if j: "j < 512" "j \<noteq> i" for j
  proof -
    have "entry_at (mem s4) t j = entry_at (mem s3) t j" unfolding s4_def by (rule entry_set_other[OF i j(1)]) (use j in simp)
    also have "\<dots> = entry_at (mem s2) t j" using apart[OF p] m3 by (intro entry_at_cong[OF j(1)]) auto
    also have "\<dots> = entry_at (mem s1) t j" unfolding s2_def by (rule entry_set_other[OF i j(1)]) (use j in simp)
    also have "\<dots> = entry_at (mem s) t j" using keep tree_okD(3)[OF ok p] by (intro entry_at_cong[OF j(1)]) auto
    finally show ?thesis .
  qed
  show thesis
  proof (rule that[of s4])
    have "hhdm s2 = hhdm s" by (simp add: s2_def s1 set_entry_def)
    moreover from this have "s3 = s2\<lparr>mem := ku_memset (a + hhdm s2) 0 4096 (mem s2)\<rparr>" by (simp add: s3_def)
    ultimately show "ensure_table t i flags s = Inr (a + hhdm s, s4)"
      using z k e2 e3 by (simp add: ensure_table_def Let_def s2_def[symmetric] s4_def table_flags_def)
    show "page_aligned a" by (rule kmalloc_aligned[OF wf tree_okD(2)[OF ok] k])
    show "entry_at (mem s4) t i = a OR table_flags flags" by (simp add: s4_def)
    show "mem s4 x = 0" if "x \<in> table_page ?n" for x
      using out[of x] zero[OF that] that apart[OF p] by auto
    show o: "mem s4 x = mem s x" if "x - hhdm s \<in> owned_bytes s" "x \<notin> table_page t" for x
      using out[OF that(2)] keep[OF that(1)] by simp
    show "entry_at (mem s4) u j = entry_at (mem s) u j"
      if q: "ix_path 3 q" "table_of s root q = Some u" and j: "j < 512" "(q, j) \<noteq> (p, i)" for q u j
    proof (cases "q = p")
      case True
      then show ?thesis using same[OF j(1)] j(2) q(2) p(2) by auto
    next
      case False
      from tree_okD(4)[OF ok q(1) p(1) q(2) p(2) False] tree_okD(3)[OF ok q]
      show ?thesis by (intro entry_at_cong[OF j(1)] o) auto
    qed
    have "owned_bytes s4 = owned_bytes (s1\<lparr>mem := mem s4\<rparr>)"
      by (rule arg_cong[of _ _ owned_bytes]) (simp add: s4_def s3_def s2_def set_entry_def)
    also have "\<dots> = owned_bytes s1"
    proof (rule owned_bytes_cong)
      show "pmm_wf s1" by (rule pmm_wf_kmalloc[OF wf k])
      fix x f assume f: "f \<in> set (memmap s1)" "usable f" "x - bitmap_at s1 f < 4096"
      have "x - hhdm s \<notin> owned_bytes s"
        using owned_not_bitmap[OF wf _ _ f(2), of "x - hhdm s"] f(1,3) by (auto simp: s1 diff_diff_eq add.commute)
      then show "mem s4 x = mem s1 x" using tree_okD(3)[OF ok p, of x] by (intro out) blast
    qed
    finally show "owned_bytes s4 = owned_bytes s \<union> page_block a 1" using own by simp
  qed (use fr fresh in auto)
qed
lemma table_at_append:
  "table_at m h t (p @ q) = (case table_at m h t p of None \<Rightarrow> None | Some u \<Rightarrow> table_at m h u q)"
  by (induction p arbitrary: t) auto

lemma table_at_zero_page:
  assumes "\<And>x. x \<in> table_page t \<Longrightarrow> m x = 0" "ix_path 3 r"
  shows "table_at m h t r = (if r = [] then Some t else None)"
  using entry_at_zero[of "hd r" t m] assms by (cases r) (auto simp: ix_path_def)

text \<open>Ensuring a table: the tree gains at most the table below the entry, and no page changes.\<close>

definition outside_tables :: "'a pmm_state_scheme \<Rightarrow> u64 \<Rightarrow> u64 \<Rightarrow> bool" where
  "outside_tables s root x \<longleftrightarrow> (\<forall>p t. ix_path 3 p \<longrightarrow> table_of s root p = Some t \<longrightarrow> x \<notin> table_page t)"

text \<open>Tables stay, and the bytes in use outside the tables are neither changed nor taken for tables.\<close>

definition tables_kept :: "u64 \<Rightarrow> 'a pmm_state_scheme \<Rightarrow> 'a pmm_state_scheme \<Rightarrow> bool" where
  "tables_kept root s s' \<longleftrightarrow> hhdm s' = hhdm s \<and> memmap s' = memmap s \<and> owned_bytes s \<subseteq> owned_bytes s' \<and>
     (\<forall>q t. ix_path 3 q \<longrightarrow> table_of s root q = Some t \<longrightarrow> table_of s' root q = Some t) \<and>
     (\<forall>x. x - hhdm s \<in> owned_bytes s \<longrightarrow> outside_tables s root x \<longrightarrow> mem s' x = mem s x \<and> outside_tables s' root x)"

lemma tables_kept_refl: "tables_kept root s s"
  by (simp add: tables_kept_def)

lemma tables_kept_trans: "tables_kept root s s' \<Longrightarrow> tables_kept root s' s'' \<Longrightarrow> tables_kept root s s''"
  unfolding tables_kept_def by (auto simp: subset_iff)

lemma set_leaf_kept:
  assumes ok: "tree_ok s root" and p: "ix_path 3 p" "length p = 3" "table_of s root p = Some t" and i: "i < 512"
  shows "tables_kept root s (set_entry t i v s)"
proof -
  note S = set_leaf[OF ok p i, where v = v]
  have "mem (set_entry t i v s) x = mem s x" if "outside_tables s root x" for x
    using that p by (intro set_entry_outside[OF i]) (auto simp: outside_tables_def)
  then show ?thesis
    using S(2) owned_set_entry[OF ok p(1,3) i, of v] unfolding tables_kept_def outside_tables_def
    by (auto simp: set_entry_def)
qed

lemma ensure_table_fresh_tree:
  assumes ok: "tree_ok s root" and p: "ix_path 2 p" "table_of s root p = Some t" and i: "i < 512"
    and f: "flags < 4096" and z: "entry_at (mem s) t i = 0" and k: "kmalloc 1 s = Inr (a, s1)"
  obtains s' where "ensure_table t i flags s = Inr (a + hhdm s, s')" "tree_ok s' root"
    "table_of s' root (p @ [i]) = Some (a + hhdm s)" "tables_kept root s s'"
    "\<And>q. full_path q \<Longrightarrow> leaf_entry s' root q = leaf_entry s root q" "free_bytes s \<le> free_bytes s' + 4096"
proof -
  have p3: "ix_path 3 p" "ix_path 3 (p @ [i])" using p(1) i by (auto simp: ix_path_def)
  obtain s' where e: "ensure_table t i flags s = Inr (a + hhdm s, s')"
    and fr: "hhdm s' = hhdm s" "pmm_wf s'" "memmap_aligned s'" "memmap s' = memmap s" "page_aligned a"
    and new: "entry_at (mem s') t i = a OR table_flags flags"
    and old: "\<And>q u j. ix_path 3 q \<Longrightarrow> table_of s root q = Some u \<Longrightarrow> j < 512 \<Longrightarrow> (q, j) \<noteq> (p, i) \<Longrightarrow>
       entry_at (mem s') u j = entry_at (mem s) u j"
    and zero: "\<And>x. x \<in> table_page (a + hhdm s) \<Longrightarrow> mem s' x = 0"
    and keep: "\<And>x. x - hhdm s \<in> owned_bytes s \<Longrightarrow> x \<notin> table_page t \<Longrightarrow> mem s' x = mem s x"
    and own: "owned_bytes s' = owned_bytes s \<union> page_block a 1" "page_block a 1 \<inter> owned_bytes s = {}"
    by (rule ensure_table_fresh[OF ok p3(1) p(2) i z k, where flags = flags]) (rule that, assumption+)
  have same: "table_of s' root q = table_of s root q" if "ix_path 3 q" "\<nexists>r. q = p @ i # r" for q
    unfolding fr by (rule table_at_unchanged[OF old that]) (simp_all add: fr)
  have below: "table_of s' root (p @ i # r) = (if r = [] then Some (a + hhdm s) else None)" if "ix_path 3 r" for r
  proof -
    have "table_of s' root p = Some t" using same[OF p3(1)] p(2) by simp
    moreover have "PAGE_ALIGN_DOWN (a OR table_flags flags) = a"
      by (rule page_align_down_flags[OF fr(5) table_flags_bound[OF f]])
    ultimately show ?thesis
      using new table_flags_nonzero[of a flags] table_at_zero_page[OF zero that] fr(1)
      by (simp add: table_at_append)
  qed
  have none: "table_of s root (p @ i # r) = None" for r
    using p(2) z by (simp add: table_at_append)
  have cases: "table_of s' root q = Some u \<longleftrightarrow> table_of s root q = Some u \<or> q = p @ [i] \<and> u = a + hhdm s"
    if q: "ix_path 3 q" for q u
  proof (cases "\<exists>r. q = p @ i # r")
    case True
    then obtain r where r: "q = p @ i # r" by blast
    then have "ix_path 3 r" using q by (auto simp: ix_path_def)
    from below[OF this] none[of r] show ?thesis using r by auto
  next
    case False
    then show ?thesis using same[OF q] by auto
  qed
  have in_new: "x - hhdm s \<in> page_block a 1 \<longleftrightarrow> x \<in> table_page (a + hhdm s)" for x by (rule page_block_table)
  show thesis
  proof (rule that[OF e])
    show "table_of s' root (p @ [i]) = Some (a + hhdm s)" using cases[OF p3(2)] by simp
    have "outside_tables s' root x" if "x - hhdm s \<in> owned_bytes s" "outside_tables s root x" for x
      unfolding outside_tables_def using that cases in_new[of x] own(2)
      by (auto simp: outside_tables_def)
    then show "tables_kept root s s'" using cases own fr keep p p3
      unfolding tables_kept_def by (auto simp: outside_tables_def)
    show "free_bytes s \<le> free_bytes s' + 4096" by (rule free_bytes_page[OF fr(4) own(1)])
    show "tree_ok s' root"
      unfolding tree_ok_def fr
    proof (intro conjI allI impI ballI fr(2,3), goal_cases)
      case (1 q u x)
      then show ?case using cases[of q u] tree_okD(3)[OF ok, of q u x] in_new[of x] own(1) fr(1) by auto
    next
      case (2 q r u v)
      have d: "table_page w \<inter> table_page (a + hhdm s) = {}" if "ix_path 3 l" "table_of s root l = Some w" for l w
        using tree_okD(3)[OF ok that] in_new own(2) by blast
      from 2 have "table_of s root q = Some u \<or> q = p @ [i] \<and> u = a + hhdm s"
        "table_of s root r = Some v \<or> r = p @ [i] \<and> v = a + hhdm s" "q \<noteq> r"
        using cases[of q u] cases[of r v] fr(1) by auto
      then show ?case
        using 2 d[of q u] d[of r v] tree_okD(4)[OF ok, of q r u v] by (elim disjE) (auto simp: Int_commute)
    qed
    show "leaf_entry s' root q = leaf_entry s root q" if q: "full_path q" for q
    proof -
      note Q = full_path_split[OF q]
      have l: "length p \<noteq> length (butlast q)" using q p(1) by (auto simp: full_path_def ix_path_def)
      have "entry_at (mem s') u (last q) = entry_at (mem s) u (last q)" if "table_of s root (butlast q) = Some u" for u
        by (rule old) (use Q l that in auto)
      moreover have "entry_at (mem s') (a + hhdm s) (last q) = 0"
        using Q zero by (intro entry_at_zero) auto
      moreover have "(case table_of s root (butlast q) of Some u \<Rightarrow> table_of s' root (butlast q) = Some u
          | None \<Rightarrow> table_of s' root (butlast q) \<in> {None, Some (a + hhdm s)})"
        using cases[of "butlast q" "the (table_of s root (butlast q))"]
          cases[of "butlast q" "the (table_of s' root (butlast q))"] Q by (auto split: option.splits)
      ultimately show ?thesis by (auto simp: leaf_entry_def split: option.splits)
    qed
  qed
qed

lemma ensure_table_step:
  assumes ok: "tree_ok s root" and p: "ix_path 2 p" "table_of s root p = Some t" and i: "i < 512"
    and f: "flags < 4096"
  shows "ensure_table t i flags s = Inl Halted \<and> free_bytes s = 0 \<or>
    (\<exists>u s'. ensure_table t i flags s = Inr (u, s') \<and> tree_ok s' root \<and> table_of s' root (p @ [i]) = Some u \<and>
       tables_kept root s s' \<and> (\<forall>q. full_path q \<longrightarrow> leaf_entry s' root q = leaf_entry s root q) \<and>
       free_bytes s \<le> free_bytes s' + 4096)"
proof (cases "entry_at (mem s) t i = 0")
  case True
  from kmalloc_cases_1[OF tree_okD(1)[OF ok]] show ?thesis
  proof
    assume "\<exists>a s'. kmalloc 1 s = Inr (a, s')"
    then obtain a s1 where "kmalloc 1 s = Inr (a, s1)" by blast
    from ensure_table_fresh_tree[OF ok p i f True this] show ?thesis by metis
  qed (simp add: ensure_table_def True kmalloc_none_free[OF tree_okD(1)[OF ok]])
next
  case False
  then have "ensure_table t i flags s = Inr (PAGE_ALIGN_DOWN (entry_at (mem s) t i) + hhdm s, s)"
    "table_of s root (p @ [i]) = Some (PAGE_ALIGN_DOWN (entry_at (mem s) t i) + hhdm s)"
    using p(2) by (simp_all add: ensure_table_def table_at_snoc)
  then show ?thesis using ok tables_kept_refl by (metis le_add1)
qed

section \<open>Positions\<close>

text \<open>The page number a path stands for, and how many pages a count stands for: the loops test for zero
  after the decrement, so that a count of zero means \<open>2 ^ 64\<close> pages.\<close>

primrec path_val :: "u64 list \<Rightarrow> nat" where
  "path_val [] = 0"
| "path_val (i # p) = unat i * 512 ^ length p + path_val p"

lemma path_val_append: "path_val (p @ q) = path_val p * 512 ^ length q + path_val q"
  by (induction p) (simp_all add: power_add algebra_simps)

lemma path_val_zeros [simp]: "path_val (map (\<lambda>_. 0) p) = 0"
  by (induction p) simp_all

lemma path_val_bound: "\<forall>i \<in> set p. i < 512 \<Longrightarrow> path_val p < 512 ^ length p"
proof (induction p)
  case (Cons i p)
  then have "unat i + 1 \<le> 512" and p: "path_val p < 512 ^ length p" by (simp_all add: word_less_nat_alt)
  then have "(unat i + 1) * 512 ^ length p \<le> 512 * 512 ^ length p" by (intro mult_le_mono1)
  then have "unat i * 512 ^ length p + 512 ^ length p \<le> 512 * 512 ^ length p" by (simp only: distrib_right mult_1)
  then show ?case unfolding path_val.simps length_Cons power_Suc using p by linarith
qed simp

lemma path_val_inj:
  "length p = length q \<Longrightarrow> \<forall>i \<in> set p. i < 512 \<Longrightarrow> \<forall>i \<in> set q. i < 512 \<Longrightarrow>
    path_val p = path_val q \<longleftrightarrow> p = q"
proof (induction p q rule: list_induct2)
  case (Cons i p j q)
  have b: "path_val p < 512 ^ length p" "path_val q < 512 ^ length p"
    using path_val_bound[of p] path_val_bound[of q] Cons by simp_all
  have "path_val (i # p) div 512 ^ length p = unat i" "path_val (j # q) div 512 ^ length p = unat j"
    using b Cons.hyps by simp_all
  then have "path_val (i # p) = path_val (j # q) \<Longrightarrow> i = j" by (metis word_unat_eq_iff)
  then show ?case using Cons by auto
qed simp

definition page_count :: "u64 \<Rightarrow> nat" where
  "page_count n = (if n = 0 then 2 ^ 64 else unat n)"

lemma page_count_pos: "1 \<le> page_count n"
  by (simp add: page_count_def word_unat_eq_iff Suc_leI)

lemma page_count_sub:
  assumes "r < page_count n"
  shows "page_count (n - of_nat r) = page_count n - r"
proof (cases "n = 0")
  case True
  then have r: "r < 2 ^ 64" using assms by (simp add: page_count_def)
  have "unat (0 - of_nat r :: u64) = 2 ^ 64 - r" if "r \<noteq> 0"
    using r that by (simp only: unat_sub_if') (simp add: unat_of_nat_u64)
  moreover from this have "(0 - of_nat r :: u64) \<noteq> 0" if "r \<noteq> 0" using that r by (auto simp: word_unat_eq_iff)
  ultimately show ?thesis
    unfolding True by (cases "r = 0") (simp_all add: page_count_def)
next
  case False
  then have r: "r < unat n" using assms by (simp add: page_count_def)
  then have "unat (of_nat r :: u64) = r" using unat_u64_less[of n] by (intro unat_of_nat_u64) simp
  then have "unat (n - of_nat r) = unat n - r" using r by (subst unat_sub) (simp_all add: word_le_nat_alt)
  moreover from this have "n - of_nat r \<noteq> 0" using r by auto
  ultimately show ?thesis using False by (simp add: page_count_def)
qed

section \<open>The nested loops\<close>

text \<open>A walk over the pages from position \<open>P\<close> with room for \<open>room\<close> pages before its table ends: out of
  memory, or the effect on as many pages as there are, and either a return or what is left. Each page takes
  \<open>c\<close> fresh frames at most, for tables and the page itself.\<close>

definition walk_done ::
  "nat \<Rightarrow> (u64 \<Rightarrow> nat \<Rightarrow> nat \<Rightarrow> 'a pmm_state_scheme \<Rightarrow> 'a pmm_state_scheme \<Rightarrow> bool) \<Rightarrow> (u64 \<Rightarrow> nat \<Rightarrow> u64) \<Rightarrow>
     u64 \<Rightarrow> nat \<Rightarrow> nat \<Rightarrow> u64 \<Rightarrow> 'a pmm_state_scheme \<Rightarrow> 'a pmm_state_scheme loop_exit result \<Rightarrow> bool" where
  "walk_done c effect adv ph P room n s r \<longleftrightarrow>
     r = Inl Halted \<and> free_bytes s < 4096 * (c * min (page_count n) room) \<or>
     (\<exists>s'. effect ph P (min (page_count n) room) s s' \<and>
        free_bytes s \<le> free_bytes s' + 4096 * (c * min (page_count n) room) \<and>
        r = Inr (if page_count n \<le> room then Returned s' else Fell (adv ph room) (n - of_nat room) s'))"

locale page_walk =
  fixes leaf :: "u64 \<Rightarrow> u64 \<Rightarrow> u64 \<Rightarrow> u64 \<Rightarrow> u64 \<Rightarrow> 'a pmm_state_scheme \<Rightarrow> 'a pmm_state_scheme loop_exit result"
    and one :: "u64 \<Rightarrow> u64 \<Rightarrow> u64 \<Rightarrow> u64 \<Rightarrow> 'a pmm_state_scheme \<Rightarrow> 'a pmm_state_scheme result"
    and effect :: "u64 \<Rightarrow> u64 \<Rightarrow> u64 \<Rightarrow> nat \<Rightarrow> nat \<Rightarrow> 'a pmm_state_scheme \<Rightarrow> 'a pmm_state_scheme \<Rightarrow> bool"
    and adv :: "u64 \<Rightarrow> nat \<Rightarrow> u64"
    and c0 :: nat
  assumes ensure: "tree_ok s root \<Longrightarrow> ix_path 2 p \<Longrightarrow> table_of s root p = Some t \<Longrightarrow> i < 512 \<Longrightarrow> flags < 4096 \<Longrightarrow>
      ensure_table t i flags s = Inr (u, s') \<Longrightarrow> effect flags root ph P 0 s s'"
    and effect_refl: "tree_ok s root \<Longrightarrow> effect flags root ph P 0 s s"
    and effect_trans: "effect flags root ph P n s s' \<Longrightarrow> effect flags root (adv ph n) (P + n) n' s' s'' \<Longrightarrow>
      effect flags root ph P (n + n') s s''"
    and effect_tree: "effect flags root ph P n s s' \<Longrightarrow> tree_ok s' root \<and> tables_kept root s s'"
    and adv_add: "adv (adv ph n) n' = adv ph (n + n')"
    and adv_zero: "adv ph 0 = ph"
    and leaf_unfold: "leaf flags t i ph num s =
      (if i < 512 then res_bind (one flags t i ph s) (\<lambda>s.
         if num - 1 = 0 then Inr (Returned s) else leaf flags t (i + 1) (adv ph 1) (num - 1) s)
       else Inr (Fell ph num s))"
    and one_page: "tree_ok s root \<Longrightarrow> ix_path 3 p \<Longrightarrow> length p = 3 \<Longrightarrow> table_of s root p = Some t \<Longrightarrow> i < 512 \<Longrightarrow>
      flags < 4096 \<Longrightarrow> one flags t i ph s = Inl Halted \<and> free_bytes s < 4096 * c0 \<or>
        (\<exists>s'. one flags t i ph s = Inr s' \<and> effect flags root ph (path_val (p @ [i])) 1 s s' \<and>
           free_bytes s \<le> free_bytes s' + 4096 * c0)"
begin

definition level_ok :: "u64 \<Rightarrow> u64 \<Rightarrow> nat \<Rightarrow> 'a pmm_state_scheme level_loop \<Rightarrow> bool" where
  "level_ok flags root k loop \<longleftrightarrow> (\<forall>s p t ixs ph n. tree_ok s root \<and> ix_path 3 p \<and> length p + k = 4 \<and>
     table_of s root p = Some t \<and> length ixs = k \<and> (\<forall>i \<in> set ixs. i < 512) \<longrightarrow>
     walk_done (c0 + (k - 1)) (effect flags root) adv ph (path_val (p @ ixs)) (512 ^ k - path_val ixs) n s (loop t ixs ph n s))"

lemma walk_done_trans:
  assumes e: "effect flags root ph P r1 s s1" and n: "r1 < page_count n" and r1: "r1 \<le> room"
    and f: "free_bytes s \<le> free_bytes s1 + 4096 * (c * r1)"
    and w: "walk_done c (effect flags root) adv (adv ph r1) (P + r1) (room - r1) (n - of_nat r1) s1 r"
  shows "walk_done c (effect flags root) adv ph P room n s r"
proof -
  let ?m = "min (page_count n) room" let ?m1 = "min (page_count n - r1) (room - r1)"
  have c: "page_count (n - of_nat r1) = page_count n - r1" by (rule page_count_sub[OF n])
  have m: "r1 + ?m1 = ?m" using n r1 by auto
  have cost: "4096 * (c * r1) + 4096 * (c * ?m1) = 4096 * (c * ?m)"
    unfolding m[symmetric] by (simp only: distrib_left)
  have sub: "n - of_nat r1 - of_nat (room - r1) = n - of_nat room" using r1 by (simp add: of_nat_diff)
  have le: "page_count n - r1 \<le> room - r1 \<longleftrightarrow> page_count n \<le> room" using n r1 by auto
  have ad: "adv (adv ph r1) (room - r1) = adv ph room" using r1 by (simp add: adv_add)
  from w consider "r = Inl Halted" "free_bytes s1 < 4096 * (c * ?m1)"
    | s' where "effect flags root (adv ph r1) (P + r1) ?m1 s1 s'" "free_bytes s1 \<le> free_bytes s' + 4096 * (c * ?m1)"
      "r = Inr (if page_count n \<le> room then Returned s' else Fell (adv ph room) (n - of_nat room) s')"
    unfolding walk_done_def c le ad sub by blast
  then show ?thesis
  proof cases
    case 1
    then have "free_bytes s < 4096 * (c * ?m)" using f cost by linarith
    then show ?thesis using 1(1) by (simp add: walk_done_def)
  next
    case 2
    have "free_bytes s \<le> free_bytes s' + 4096 * (c * ?m)" using 2(2) f cost by linarith
    then show ?thesis using effect_trans[OF e 2(1)] 2(3) unfolding walk_done_def m by blast
  qed
qed

lemma leaf_walk:
  assumes f: "flags < 4096" and p: "ix_path 3 p" "length p = 3"
  shows "tree_ok s root \<Longrightarrow> table_of s root p = Some t \<Longrightarrow> i \<le> 512 \<Longrightarrow>
    walk_done c0 (effect flags root) adv ph (path_val (p @ [i])) (512 - unat i) num s (leaf flags t i ph num s)"
proof (induction "512 - unat i" arbitrary: s i ph num)
  case 0
  then have "\<not> i < 512" "unat i = 512" by (simp_all add: word_less_nat_alt word_le_nat_alt)
  then show ?case
    using effect_refl[OF 0(2)] page_count_pos[of num]
    by (subst leaf_unfold) (auto simp: walk_done_def adv_zero)
next
  case (Suc d)
  have i: "i < 512" "unat i < 512" "unat (i + 1) = unat i + 1"
    using Suc.hyps(2) by (simp_all add: word_less_nat_alt unat_add_u64)
  from one_page[OF Suc.prems(1) p Suc.prems(2) i(1) f, of ph] show ?case
  proof
    assume h: "one flags t i ph s = Inl Halted \<and> free_bytes s < 4096 * c0"
    have "c0 * 1 \<le> c0 * min (page_count num) (512 - unat i)"
      using i page_count_pos[of num] by (intro mult_le_mono2) simp
    then have "free_bytes s < 4096 * (c0 * min (page_count num) (512 - unat i))" using h by linarith
    then show ?thesis using i h by (subst leaf_unfold) (simp add: walk_done_def)
  next
    assume "\<exists>s'. one flags t i ph s = Inr s' \<and> effect flags root ph (path_val (p @ [i])) 1 s s' \<and>
      free_bytes s \<le> free_bytes s' + 4096 * c0"
    then obtain s1 where s1: "one flags t i ph s = Inr s1" "effect flags root ph (path_val (p @ [i])) 1 s s1"
      "free_bytes s \<le> free_bytes s1 + 4096 * (c0 * 1)" by auto
    show ?thesis
    proof (cases "num = 1")
      case True
      then have "page_count num = 1" by (simp add: page_count_def)
      then show ?thesis using s1 i True by (subst leaf_unfold) (simp add: walk_done_def min_def)
    next
      case False
      then have n: "1 < page_count num" "num - 1 \<noteq> 0"
        using page_count_pos[of num] word_unat_eq_iff[of num 1]
        by (auto simp: page_count_def le_less split: if_splits)
      have "walk_done c0 (effect flags root) adv (adv ph 1) (path_val (p @ [i + 1])) (512 - unat (i + 1)) (num - 1) s1
          (leaf flags t (i + 1) (adv ph 1) (num - 1) s1)"
        using effect_tree[OF s1(2)] Suc.hyps(2) Suc.prems p i
        by (intro Suc.hyps(1)) (auto simp: tables_kept_def word_le_nat_alt)
      then have "walk_done c0 (effect flags root) adv (adv ph 1) (path_val (p @ [i]) + 1) (512 - unat i - 1) (num - of_nat 1) s1
          (leaf flags t (i + 1) (adv ph 1) (num - 1) s1)"
        unfolding path_val_append path_val.simps i(3) by (simp add: add.assoc)
      from walk_done_trans[OF s1(2) n(1) _ s1(3) this] show ?thesis
        using i s1(1) n(2) by (subst leaf_unfold) simp
    qed
  qed
qed

lemma leaf_level_ok: "flags < 4096 \<Longrightarrow> level_ok flags root 1 (leaf_level (leaf flags))"
  unfolding level_ok_def using leaf_walk by (auto simp: leaf_level_def length_Suc_conv)

lemma outer_loop_ok:
  assumes inner: "level_ok flags root k inner" and f: "flags < 4096" and k: "length p + Suc k = 4" "1 \<le> k"
    and p: "ix_path 3 p"
  shows "tree_ok s root \<Longrightarrow> table_of s root p = Some t \<Longrightarrow> length ixs = k \<Longrightarrow>
    \<forall>j \<in> set ixs. j < 512 \<Longrightarrow> i \<le> 512 \<Longrightarrow> (i = 512 \<longrightarrow> path_val ixs = 0) \<Longrightarrow>
    walk_done (c0 + k) (effect flags root) adv ph (path_val (p @ i # ixs)) (512 ^ Suc k - path_val (i # ixs)) num s
      (outer_loop flags inner t i ixs ph num s)"
proof (induction "512 - unat i" arbitrary: s ixs i ph num)
  case 0
  then have "\<not> i < 512" "i = 512" by (simp_all add: word_less_nat_alt word_le_nat_alt word_unat_eq_iff)
  moreover have "path_val ixs = 0" "length ixs = k" using 0 \<open>i = 512\<close> by simp_all
  ultimately show ?case
    using effect_refl[OF 0(2)] page_count_pos[of num]
    by (subst outer_loop.simps) (auto simp: walk_done_def adv_zero)
next
  case (Suc d)
  let ?P = "path_val (p @ i # ixs)" let ?room = "512 ^ Suc k - path_val (i # ixs)"
  let ?W = "\<lambda>c. walk_done c (effect flags root) adv" let ?c = "c0 + (k - 1)"
  have i: "i < 512" "unat i < 512" using Suc.hyps(2) by (simp_all add: word_less_nat_alt)
  have p2: "ix_path 2 p" using p k by (simp add: ix_path_def)
  have p3: "ix_path 3 (p @ [i])" using p2 i by (simp add: ix_path_def)
  from ensure_table_step[OF Suc.prems(1) p2 Suc.prems(2) i(1) f]
  show ?case
  proof
    assume h: "ensure_table t i flags s = Inl Halted \<and> free_bytes s = 0"
    have "0 < min (page_count num) ?room" using path_val_bound[of "i # ixs"] i Suc.prems(3,4) page_count_pos[of num] by auto
    then show ?thesis using i h k by (subst outer_loop.simps) (simp add: walk_done_def)
  next
    assume "\<exists>u s'. ensure_table t i flags s = Inr (u, s') \<and> tree_ok s' root \<and> table_of s' root (p @ [i]) = Some u \<and>
       tables_kept root s s' \<and> (\<forall>q. full_path q \<longrightarrow> leaf_entry s' root q = leaf_entry s root q) \<and>
       free_bytes s \<le> free_bytes s' + 4096"
    then obtain u s1 where u: "ensure_table t i flags s = Inr (u, s1)" "tree_ok s1 root"
      "table_of s1 root (p @ [i]) = Some u" and fb: "free_bytes s \<le> free_bytes s1 + 4096" by blast
    have e0: "effect flags root ph ?P 0 s s1" by (rule ensure[OF Suc.prems(1) p2 Suc.prems(2) i(1) f u(1)])
    define r1 where "r1 = 512 ^ k - path_val ixs"
    have r1: "0 < r1" "path_val ixs < 512 ^ k" using path_val_bound[OF Suc.prems(4)] Suc.prems(3) by (simp_all add: r1_def)
    have rm: "?room = r1 + (511 - unat i) * 512 ^ k"
    proof -
      have "512 = unat i + (511 - unat i) + 1" using i by simp
      then have "512 ^ Suc k = (unat i + (511 - unat i) + 1) * 512 ^ k" by (metis power_Suc)
      then show ?thesis using r1 Suc.prems(3) by (simp add: r1_def algebra_simps)
    qed
    have "?W ?c ph (path_val ((p @ [i]) @ ixs)) r1 num s1 (inner u ixs ph num s1)"
      unfolding r1_def using u(2,3) p3 k Suc.prems(3,4)
      by (intro inner[unfolded level_ok_def, rule_format]) auto
    then have inn: "?W ?c ph ?P r1 num s1 (inner u ixs ph num s1)" by simp
    have eq: "outer_loop flags inner t i ixs ph num s = res_bind (inner u ixs ph num s1) (\<lambda>r.
          case r of Returned s \<Rightarrow> Inr (Returned s)
          | Fell ph num s \<Rightarrow> outer_loop flags inner t (i + 1) (map (\<lambda>_. 0) ixs) ph num s)"
      using i u by (subst outer_loop.simps) simp
    have cost: "4096 + 4096 * (?c * m) \<le> 4096 * ((c0 + k) * m')" if "0 < m" "m \<le> m'" for m m' :: nat
    proof -
      have "?c + 1 = c0 + k" using k by simp
      then have "m + ?c * m = (c0 + k) * m" by (metis add.commute distrib_right mult_1)
      moreover have "(c0 + k) * m \<le> (c0 + k) * m'" using that by (intro mult_le_mono2)
      ultimately show ?thesis using that by linarith
    qed
    from inn consider "inner u ixs ph num s1 = Inl Halted" "free_bytes s1 < 4096 * (?c * min (page_count num) r1)"
      | s2 where "page_count num \<le> r1" "effect flags root ph ?P (page_count num) s1 s2" "inner u ixs ph num s1 = Inr (Returned s2)"
          "free_bytes s1 \<le> free_bytes s2 + 4096 * (?c * page_count num)"
      | s2 where "r1 < page_count num" "effect flags root ph ?P r1 s1 s2"
          "inner u ixs ph num s1 = Inr (Fell (adv ph r1) (num - of_nat r1) s2)"
          "free_bytes s1 \<le> free_bytes s2 + 4096 * (?c * r1)"
      by (auto simp: walk_done_def min_def split: if_splits)
    then show ?thesis
    proof cases
      case 1
      have "free_bytes s < 4096 * ((c0 + k) * min (page_count num) ?room)"
        using 1(2) fb cost[of "min (page_count num) r1" "min (page_count num) ?room"] r1 page_count_pos[of num] rm by linarith
      then show ?thesis using 1(1) by (simp add: eq walk_done_def)
    next
      case 2
      from e0 2(2) have "effect flags root ph ?P (page_count num) s s2"
        using effect_trans[of flags root ph ?P 0 s s1 "page_count num" s2] by (simp add: adv_zero)
      moreover have "free_bytes s \<le> free_bytes s2 + 4096 * ((c0 + k) * page_count num)"
        using 2(4) fb cost[of "page_count num" "page_count num"] page_count_pos[of num] by linarith
      ultimately show ?thesis using 2 rm by (simp add: eq walk_done_def min_def)
    next
      case 3
      from e0 3(2) have e: "effect flags root ph ?P r1 s s2"
        using effect_trans[of flags root ph ?P 0 s s1 r1 s2] by (simp add: adv_zero)
      have fb2: "free_bytes s \<le> free_bytes s2 + 4096 * ((c0 + k) * r1)"
        using 3(4) fb cost[of r1 r1] r1 by linarith
      have i1: "unat (i + 1) = unat i + 1" using i by (simp add: unat_add_u64)
      have pos: "path_val (p @ (i + 1) # map (\<lambda>_. 0) ixs) = ?P + r1"
        using r1 Suc.prems(3) unfolding path_val_append path_val.simps length_Cons length_map i1 r1_def
        by (simp add: distrib_right)
      have "?W (c0 + k) (adv ph r1) (path_val (p @ (i + 1) # map (\<lambda>_. 0) ixs))
          (512 ^ Suc k - path_val ((i + 1) # map (\<lambda>_. 0) ixs)) (num - of_nat r1) s2
          (outer_loop flags inner t (i + 1) (map (\<lambda>_. 0) ixs) (adv ph r1) (num - of_nat r1) s2)"
        using effect_tree[OF e] Suc.prems Suc.hyps(2) i i1 p
        by (intro Suc.hyps(1)) (auto simp: tables_kept_def word_le_nat_alt)
      moreover have "512 ^ Suc k - path_val ((i + 1) # map (\<lambda>_. 0) ixs) = ?room - r1"
        using rm i Suc.prems(3) by (simp add: i1 diff_mult_distrib)
      ultimately have "?W (c0 + k) (adv ph r1) (?P + r1) (?room - r1) (num - of_nat r1) s2
          (outer_loop flags inner t (i + 1) (map (\<lambda>_. 0) ixs) (adv ph r1) (num - of_nat r1) s2)"
        by (simp only: pos)
      from walk_done_trans[OF e 3(1) _ fb2 this] show ?thesis using rm 3 by (simp add: eq)
    qed
  qed
qed

lemma upper_level_ok:
  assumes "level_ok flags root k inner" "flags < 4096" "1 \<le> k"
  shows "level_ok flags root (Suc k) (upper_level flags inner)"
  unfolding level_ok_def[of _ _ "Suc k"]
proof (intro allI impI, elim conjE)
  fix s :: "'a pmm_state_scheme" and p t ixs ph num
  assume a: "tree_ok s root" "ix_path 3 p" "length p + Suc k = 4" "table_of s root p = Some t"
    "length ixs = Suc k" "\<forall>i \<in> set ixs. i < (512 :: u64)"
  obtain i is' where i: "ixs = i # is'" using a(5) by (cases ixs) auto
  have "i < 512" "i \<le> 512" "i \<noteq> 512" using a(6) i by auto
  then show "walk_done (c0 + (Suc k - 1)) (effect flags root) adv ph (path_val (p @ ixs)) (512 ^ Suc k - path_val ixs) num s
      (upper_level flags inner t ixs ph num s)"
    unfolding i upper_level_def list.case diff_Suc_1 using a i by (intro outer_loop_ok assms) auto
qed

lemma page_loops_ok:
  assumes ok: "tree_ok s root" and f: "flags < 4096" and ixs: "length ixs = 4" "\<forall>i \<in> set ixs. i < 512"
  shows "walk_done (c0 + 3) (effect flags root) adv ph (path_val ixs) (512 ^ 4 - path_val ixs) num s
    (page_loops flags (leaf flags) root ixs ph num s)"
proof -
  have "level_ok flags root (Suc (Suc (Suc 1))) (page_loops flags (leaf flags))"
    unfolding page_loops_def by (intro upper_level_ok leaf_level_ok f) simp_all
  then have "level_ok flags root 4 (page_loops flags (leaf flags))" by (simp add: eval_nat_numeral)
  then have "walk_done (c0 + (4 - 1)) (effect flags root) adv ph (path_val ([] @ ixs)) (512 ^ 4 - path_val ixs) num s
    (page_loops flags (leaf flags) root ixs ph num s)"
    unfolding level_ok_def by (elim allE impE) (use ok ixs in \<open>auto simp only: ix_path_def table_at.simps list.size list.set\<close>)
  then show ?thesis by simp
qed

end

section \<open>Mapping\<close>

text \<open>The effect of mapping \<open>n\<close> pages from position \<open>P\<close>: their entries hold consecutive frames from
  \<open>ph\<close> on, and no other page changes.\<close>

definition mapped ::
  "u64 \<Rightarrow> u64 \<Rightarrow> u64 \<Rightarrow> nat \<Rightarrow> nat \<Rightarrow> 'a pmm_state_scheme \<Rightarrow> 'a pmm_state_scheme \<Rightarrow> bool" where
  "mapped flags root ph P n s s' \<longleftrightarrow> tree_ok s' root \<and> tables_kept root s s' \<and>
     (\<forall>q. full_path q \<longrightarrow> leaf_entry s' root q =
        (if P \<le> path_val q \<and> path_val q < P + n then (ph + of_nat (path_val q - P) * 4096) OR flags
         else leaf_entry s root q))"

definition next_frame :: "u64 \<Rightarrow> nat \<Rightarrow> u64" where
  "next_frame ph n = ph + of_nat n * 4096"

definition map_one :: "u64 \<Rightarrow> u64 \<Rightarrow> u64 \<Rightarrow> u64 \<Rightarrow> 'a pmm_state_scheme \<Rightarrow> 'a pmm_state_scheme result" where
  "map_one flags t i ph s = Inr (set_entry t i (ph OR flags) s)"

lemma mapped_trans:
  assumes "mapped flags root ph P n s s'" "mapped flags root (next_frame ph n) (P + n) n' s' s''"
  shows "mapped flags root ph P (n + n') s s''"
proof -
  have "leaf_entry s'' root q =
      (if P \<le> path_val q \<and> path_val q < P + (n + n') then (ph + of_nat (path_val q - P) * 4096) OR flags
       else leaf_entry s root q)" if q: "full_path q" for q
  proof (cases "P + n \<le> path_val q \<and> path_val q < P + n + n'")
    case True
    then have "next_frame ph n + of_nat (path_val q - (P + n)) * 4096 = ph + of_nat (path_val q - P) * 4096"
      by (simp add: next_frame_def of_nat_diff algebra_simps)
    then show ?thesis using assms q True unfolding mapped_def by (simp del: of_nat_diff)
  next
    case False
    then show ?thesis using assms q by (auto simp: mapped_def)
  qed
  then show ?thesis using assms tables_kept_trans by (auto simp: mapped_def)
qed

lemma full_path_val: "full_path q \<Longrightarrow> full_path r \<Longrightarrow> path_val q = path_val r \<longleftrightarrow> q = r"
  by (rule path_val_inj) (auto simp: full_path_def)

lemma map_one_mapped:
  assumes ok: "tree_ok s root" and p: "ix_path 3 p" "length p = 3" "table_of s root p = Some t" and i: "i < 512"
  shows "mapped flags root ph (path_val (p @ [i])) 1 s (set_entry t i (ph OR flags) s)"
proof -
  let ?s = "set_entry t i (ph OR flags) s"
  note S = set_leaf[OF ok p i, where v = "ph OR flags"]
  have "full_path (p @ [i])" using p i by (auto simp: full_path_def ix_path_def)
  then have "(path_val (p @ [i]) \<le> path_val q \<and> path_val q < path_val (p @ [i]) + 1) = (q = p @ [i])" if "full_path q" for q
    using full_path_val[OF that, of "p @ [i]"] by (simp add: le_less_Suc_eq del: path_val.simps) auto
  moreover have "tables_kept root s ?s"
    by (rule set_leaf_kept[OF ok p i])
  ultimately show ?thesis using S(1,3) by (auto simp: mapped_def)
qed

interpretation map_walk: page_walk map_pml1 map_one mapped next_frame 0
proof unfold_locales
  show "map_pml1 flags t i ph num s =
      (if i < 512 then res_bind (map_one flags t i ph s) (\<lambda>s.
         if num - 1 = 0 then Inr (Returned s) else map_pml1 flags t (i + 1) (next_frame ph 1) (num - 1) s)
       else Inr (Fell ph num s))" for flags t i ph num s
    by (subst map_pml1.simps) (simp add: map_one_def next_frame_def)
  fix s s' :: "'a pmm_state_scheme" and root p t i flags u ph P
  assume a: "tree_ok s root" "ix_path 2 p" "table_of s root p = Some t" "i < 512" "flags < 4096"
    "ensure_table t i flags s = Inr (u, s')"
  from ensure_table_step[OF a(1-5)] a(6) show "mapped flags root ph P 0 s s'"
    by (auto simp: mapped_def)
next
  fix s :: "'a pmm_state_scheme" and root t i flags ph :: u64 and p
  assume "tree_ok s root" "ix_path 3 p" "length p = 3" "table_of s root p = Some t" "i < 512" "flags < 4096"
  moreover from this have "free_bytes (set_entry t i (ph OR flags) s) = free_bytes s"
    by (intro free_bytes_same owned_set_entry) (simp_all add: set_entry_def)
  ultimately show "map_one flags t i ph s = Inl Halted \<and> free_bytes s < 4096 * 0 \<or>
      (\<exists>s'. map_one flags t i ph s = Inr s' \<and> mapped flags root ph (path_val (p @ [i])) 1 s s' \<and>
         free_bytes s \<le> free_bytes s' + 4096 * 0)"
    unfolding map_one_def using map_one_mapped by auto
next
  show "mapped flags root ph P (n + n') s s''"
    if "mapped flags root ph P n s s'" "mapped flags root (next_frame ph n) (P + n) n' s' s''"
    for flags root ph P n s s' n' s''
    by (rule mapped_trans[OF that])
qed (auto simp: mapped_def next_frame_def tables_kept_refl algebra_simps)

section \<open>Allocating\<close>

text \<open>The effect of allocating \<open>n\<close> pages from position \<open>P\<close>: each of them gets a frame of its own that
  was free before and reads zero, and no other page changes.\<close>

definition entry_frame :: "'a pmm_state_scheme \<Rightarrow> u64 \<Rightarrow> u64 list \<Rightarrow> u64" where
  "entry_frame s root q = PAGE_ALIGN_DOWN (leaf_entry s root q)"

definition new_frame :: "u64 \<Rightarrow> 'a pmm_state_scheme \<Rightarrow> 'a pmm_state_scheme \<Rightarrow> u64 \<Rightarrow> bool" where
  "new_frame root s s' a \<longleftrightarrow> page_block a 1 \<inter> owned_bytes s = {} \<and> page_block a 1 \<subseteq> owned_bytes s' \<and>
     (\<forall>x. x - hhdm s' \<in> page_block a 1 \<longrightarrow> mem s' x = 0 \<and> outside_tables s' root x)"

definition allocated ::
  "u64 \<Rightarrow> u64 \<Rightarrow> u64 \<Rightarrow> nat \<Rightarrow> nat \<Rightarrow> 'a pmm_state_scheme \<Rightarrow> 'a pmm_state_scheme \<Rightarrow> bool" where
  "allocated flags root unused P n s s' \<longleftrightarrow> tree_ok s' root \<and> tables_kept root s s' \<and>
     (\<forall>q. full_path q \<longrightarrow>
        (if P \<le> path_val q \<and> path_val q < P + n
         then leaf_entry s' root q = entry_frame s' root q OR flags \<and> new_frame root s s' (entry_frame s' root q)
         else leaf_entry s' root q = leaf_entry s root q)) \<and>
     (\<forall>q r. full_path q \<longrightarrow> full_path r \<longrightarrow> P \<le> path_val q \<longrightarrow> path_val q < path_val r \<longrightarrow> path_val r < P + n \<longrightarrow>
        page_block (entry_frame s' root q) 1 \<inter> page_block (entry_frame s' root r) 1 = {})"

definition alloc_one :: "u64 \<Rightarrow> u64 \<Rightarrow> u64 \<Rightarrow> u64 \<Rightarrow> 'a pmm_state_scheme \<Rightarrow> 'a pmm_state_scheme result" where
  "alloc_one flags t i unused s =
     res_bind (kmalloc 1 s) (\<lambda>(phys, s).
       Inr (set_entry t i (phys OR flags) (s\<lparr>mem := ku_memset (phys + hhdm s) 0 4096 (mem s)\<rparr>)))"

lemma allocated_trans:
  assumes a: "allocated flags root u P n s s'" and b: "allocated flags root u (P + n) n' s' s''"
  shows "allocated flags root u P (n + n') s s''"
proof -
  have k: "tables_kept root s s'" "tables_kept root s' s''" "tree_ok s'' root" using a b by (simp_all add: allocated_def)
  have first: "leaf_entry s'' root q = leaf_entry s' root q" "entry_frame s'' root q = entry_frame s' root q"
    "leaf_entry s'' root q = entry_frame s'' root q OR flags" "new_frame root s s' (entry_frame s'' root q)"
    "new_frame root s s'' (entry_frame s'' root q)"
    if "full_path q" "P \<le> path_val q" "path_val q < P + n" for q
  proof -
    show eq: "leaf_entry s'' root q = leaf_entry s' root q" using b that unfolding allocated_def by auto
    then show f: "entry_frame s'' root q = entry_frame s' root q" by (simp add: entry_frame_def)
    show "leaf_entry s'' root q = entry_frame s'' root q OR flags" "new_frame root s s' (entry_frame s'' root q)"
      using a that unfolding allocated_def eq f by auto
    then show "new_frame root s s'' (entry_frame s'' root q)"
      using k unfolding new_frame_def tables_kept_def by auto
  qed
  have second: "leaf_entry s'' root q = entry_frame s'' root q OR flags" "new_frame root s' s'' (entry_frame s'' root q)"
    "new_frame root s s'' (entry_frame s'' root q)"
    if "full_path q" "P + n \<le> path_val q" "path_val q < P + n + n'" for q
  proof -
    show "leaf_entry s'' root q = entry_frame s'' root q OR flags" "new_frame root s' s'' (entry_frame s'' root q)"
      using b that unfolding allocated_def by auto
    then show "new_frame root s s'' (entry_frame s'' root q)"
      using k(1) unfolding new_frame_def tables_kept_def by blast
  qed
  have other: "leaf_entry s'' root q = leaf_entry s root q"
    if "full_path q" "\<not> (P \<le> path_val q \<and> path_val q < P + (n + n'))" for q
    using a b that unfolding allocated_def by auto
  have "page_block (entry_frame s'' root q) 1 \<inter> page_block (entry_frame s'' root r) 1 = {}"
    if q: "full_path q" "full_path r" "P \<le> path_val q" "path_val q < path_val r" "path_val r < P + (n + n')" for q r
  proof -
    consider "path_val r < P + n" | "P + n \<le> path_val q" | "path_val q < P + n" "P + n \<le> path_val r" by linarith
    then show ?thesis
    proof cases
      case 1
      then show ?thesis using a q first(2)[of q] first(2)[of r] unfolding allocated_def by auto
    next
      case 2
      then show ?thesis using b q unfolding allocated_def by auto
    next
      case 3
      have "page_block (entry_frame s'' root q) 1 \<subseteq> owned_bytes s'"
        using first(4)[of q] q 3 by (simp add: new_frame_def)
      moreover have "page_block (entry_frame s'' root r) 1 \<inter> owned_bytes s' = {}"
        using second(2)[of r] q 3 by (simp add: new_frame_def)
      ultimately show ?thesis by blast
    qed
  qed
  moreover have "if P \<le> path_val q \<and> path_val q < P + (n + n')
      then leaf_entry s'' root q = entry_frame s'' root q OR flags \<and> new_frame root s s'' (entry_frame s'' root q)
      else leaf_entry s'' root q = leaf_entry s root q" if q: "full_path q" for q
  proof (cases "P \<le> path_val q \<and> path_val q < P + (n + n')")
    case True
    then have "leaf_entry s'' root q = entry_frame s'' root q OR flags \<and> new_frame root s s'' (entry_frame s'' root q)"
      using first(3,5)[OF q] second(1,3)[OF q] by (metis add.assoc not_less)
    then show ?thesis using True by (simp only: simp_thms if_True)
  next
    case False
    then show ?thesis using other[OF q False] by (simp only: if_False)
  qed
  ultimately show ?thesis
    unfolding allocated_def using k(3) tables_kept_trans[OF k(1,2)] by (intro conjI allI impI) blast+
qed

lemma kmalloc_tree:
  assumes ok: "tree_ok s root" and k: "kmalloc 1 s = Inr (a, s1)"
  shows "tree_ok s1 root" "tables_kept root s s1"
    "\<And>q. ix_path 3 q \<Longrightarrow> table_of s1 root q = table_of s root q"
    "\<And>q. full_path q \<Longrightarrow> leaf_entry s1 root q = leaf_entry s root q"
    "new_frame root s s1 a" "ku_memset (a + hhdm s1) 0 4096 (mem s1) = mem s1"
    "free_bytes s \<le> free_bytes s1 + 4096"
proof -
  note wf = tree_okD(1)[OF ok]
  have own: "owned_bytes s1 = owned_bytes s \<union> page_block a 1" by (rule kmalloc_owned[OF wf k])
  have fresh: "page_block a 1 \<inter> owned_bytes s = {}" by (rule kmalloc_fresh[OF wf k])
  obtain m where s1: "s1 = s\<lparr>mem := m, total_memory_allocated := total_memory_allocated s + 1 * 4096\<rparr>"
    using kmalloc_frame[OF wf k] by auto
  have fr: "hhdm s1 = hhdm s" "pmm_wf s1" "memmap_aligned s1" "memmap s1 = memmap s"
    using wf tree_okD(2)[OF ok] by (simp_all add: s1 pmm_wf_def memmap_ok_def memmap_aligned_def)
  have keep: "mem s1 x = mem s x" if "x - hhdm s \<in> owned_bytes s" for x
    by (rule kmalloc_keeps_owned[OF wf k that])
  have ent: "entry_at (mem s1) t j = entry_at (mem s) t j" if "ix_path 3 q" "table_of s root q = Some t" "j < 512" for q t j
    using tree_okD(3)[OF ok that(1,2)] keep by (intro entry_at_cong[OF that(3)]) auto
  have tab: "table_of s1 root q = table_of s root q" if "ix_path 3 q" for q
    unfolding fr using that ent by (rule_tac table_at_unchanged[where p = "[0,0,0,0]" and i = 0]) (auto simp: ix_path_def)
  show "\<And>q. ix_path 3 q \<Longrightarrow> table_of s1 root q = table_of s root q" by (rule tab)
  show "free_bytes s \<le> free_bytes s1 + 4096" by (rule free_bytes_page[OF fr(4) own])
  show "tree_ok s1 root" by (rule tree_ok_same[OF ok fr(2,3,1) _ tab]) (use own in auto)
  show "leaf_entry s1 root q = leaf_entry s root q" if "full_path q" for q
    using full_path_split[OF that] tab[of "butlast q"] ent[of "butlast q" _ "last q"]
    by (auto simp: leaf_entry_def split: option.splits)
  have out: "outside_tables s1 root x = outside_tables s root x" for x
    unfolding outside_tables_def by (simp add: tab cong: imp_cong)
  show "tables_kept root s s1" using fr own tab keep out by (auto simp: tables_kept_def)
  have "x \<in> table_page (a + hhdm s) \<Longrightarrow> mem s1 x = 0" for x
    using kmalloc_zeroes[OF wf k, of x] by (simp add: table_page_def)
  moreover have "x \<in> table_page (a + hhdm s) \<Longrightarrow> outside_tables s root x" for x
    unfolding outside_tables_def using tree_okD(3)[OF ok] page_block_table[of x s a] fresh by blast
  ultimately show "new_frame root s s1 a"
    using fresh own out fr page_block_table[of _ s1 a] by (auto simp: new_frame_def)
  show "ku_memset (a + hhdm s1) 0 4096 (mem s1) = mem s1"
    using kmalloc_zeroes[OF wf k] fr by (auto simp: ku_memset_def)
qed

lemma alloc_one_allocated:
  assumes ok: "tree_ok s root" and p: "ix_path 3 p" "length p = 3" "table_of s root p = Some t" and i: "i < 512"
    and f: "flags < 4096"
  shows "alloc_one flags t i u s = Inl Halted \<and> free_bytes s < 4096 * 1 \<or>
    (\<exists>s'. alloc_one flags t i u s = Inr s' \<and> allocated flags root u (path_val (p @ [i])) 1 s s' \<and>
       free_bytes s \<le> free_bytes s' + 4096 * 1)"
  using kmalloc_cases_1[OF tree_okD(1)[OF ok]]
proof
  assume "\<exists>a s'. kmalloc 1 s = Inr (a, s')"
  then obtain a s1 where k: "kmalloc 1 s = Inr (a, s1)" by blast
  note K = kmalloc_tree[OF ok k]
  have p1: "table_of s1 root p = Some t" using K(3)[OF p(1)] p(3) by simp
  let ?s = "set_entry t i (a OR flags) s1"
  note S = set_leaf[OF K(1) p(1,2) p1 i, where v = "a OR flags"]
  note T = set_leaf_kept[OF K(1) p(1,2) p1 i, of "a OR flags"]
  have al: "PAGE_ALIGN_DOWN (a OR flags) = a"
    by (rule page_align_down_flags[OF kmalloc_aligned[OF tree_okD(1,2)[OF ok] k] f])
  have "full_path (p @ [i])" using p i by (auto simp: full_path_def ix_path_def)
  then have in1: "(path_val (p @ [i]) \<le> path_val q \<and> path_val q < path_val (p @ [i]) + 1) = (q = p @ [i])" if "full_path q" for q
    using full_path_val[OF that, of "p @ [i]"] by (simp add: le_less_Suc_eq del: path_val.simps) auto
  have nf: "new_frame root s ?s a" using K(5) T unfolding new_frame_def tables_kept_def by auto
  have "allocated flags root u (path_val (p @ [i])) 1 s ?s"
    unfolding allocated_def
  proof (intro conjI allI impI, goal_cases)
    case (3 q)
    then show ?case
      using S(3)[OF 3] K(4)[OF 3] al nf unfolding in1[OF 3] entry_frame_def by (cases "q = p @ [i]") auto
  qed (use S(1) tables_kept_trans[OF K(2) T] in auto)
  moreover have "alloc_one flags t i u s = Inr ?s" using k K(6) by (simp add: alloc_one_def)
  moreover have "free_bytes ?s = free_bytes s1"
    by (intro free_bytes_same owned_set_entry[OF K(1) p(1) p1 i]) (simp add: set_entry_def)
  ultimately show ?thesis using K(7) by auto
qed (simp add: alloc_one_def kmalloc_none_free[OF tree_okD(1)[OF ok]])

interpretation alloc_walk: page_walk alloc_pml1 alloc_one allocated "\<lambda>ph n. ph" 1
proof unfold_locales
  show "alloc_pml1 flags t i ph num s =
      (if i < 512 then res_bind (alloc_one flags t i ph s) (\<lambda>s.
         if num - 1 = 0 then Inr (Returned s) else alloc_pml1 flags t (i + 1) ph (num - 1) s)
       else Inr (Fell ph num s))" for flags t i ph num s
    by (subst alloc_pml1.simps)
      (auto simp: alloc_one_def Let_def res_bind_def split: sum.splits)
  fix s s' :: "'a pmm_state_scheme" and root p t i flags u ph P
  assume a: "tree_ok s root" "ix_path 2 p" "table_of s root p = Some t" "i < 512" "flags < 4096"
    "ensure_table t i flags s = Inr (u, s')"
  from ensure_table_step[OF a(1-5)] a(6) show "allocated flags root ph P 0 s s'"
    by (auto simp: allocated_def)
next
  show "alloc_one flags t i ph s = Inl Halted \<and> free_bytes s < 4096 * 1 \<or>
      (\<exists>s'. alloc_one flags t i ph s = Inr s' \<and> allocated flags root ph (path_val (p @ [i])) 1 s s' \<and>
         free_bytes s \<le> free_bytes s' + 4096 * 1)"
    if "tree_ok s root" "ix_path 3 p" "length p = 3" "table_of s root p = Some t" "i < 512" "flags < 4096"
    for s root p t i flags ph
    by (rule alloc_one_allocated[OF that])
  show "allocated flags root ph P (n + n') s s''"
    if "allocated flags root ph P n s s'" "allocated flags root ph (P + n) n' s' s''"
    for flags root ph P n s s' n' s''
    by (rule allocated_trans[OF that])
qed (auto simp: allocated_def tables_kept_refl)

section \<open>Addresses and translation\<close>

text \<open>The page of a virtual address: bits 12 to 47.\<close>

definition page_number :: "u64 \<Rightarrow> nat" where
  "page_number v = path_val (page_path (v AND NOT TOPBITS))"

lemma unat_pml_index: "unat (pml_index k v) = unat v div 2 ^ (12 + 9 * k) mod 512"
proof -
  have "pml_index k v = take_bit 9 (drop_bit (12 + 9 * k) v)"
    unfolding pml_index_def by (subst take_bit_eq_mask) (simp add: mask_eq_exp_minus_1)
  moreover have "unat v mod 18446744073709551616 = unat v" using unat_u64_less[of v] by simp
  ultimately show ?thesis
    by (simp only: unsigned_take_bit_eq unsigned_drop_bit_eq) (simp add: take_bit_eq_mod drop_bit_eq_div)
qed

lemma virt_mask: "v AND NOT TOPBITS = take_bit 48 v"
proof -
  have "NOT TOPBITS = mask 48" by code_simp
  then show ?thesis by (simp only: take_bit_eq_mask)
qed

lemma unat_virt_mask: "unat (v AND NOT TOPBITS) = unat v mod 2 ^ 48"
  unfolding virt_mask by (simp only: unsigned_take_bit_eq) (simp add: take_bit_eq_mod)

lemma full_page_path: "full_path (page_path v)"
  by (auto simp: full_path_def page_path_def word_less_nat_alt unat_pml_index)

lemma page_number_eq: "page_number v = unat v div 4096 mod 2 ^ 36"
proof -
  define n where "n = unat v mod 2 ^ 48"
  define m where "m = n div 4096"
  have "n < 2 ^ 48" by (simp add: n_def)
  then have m: "m < 512 * 512 * 512 * 512" by (simp add: m_def less_mult_imp_div_less)
  have top: "m div 512 div 512 div 512 mod 512 = m div 512 div 512 div 512" using m by (simp add: less_mult_imp_div_less)
  have d: "n div 2 ^ 12 = m" "n div 2 ^ 21 = m div 512" "n div 2 ^ 30 = m div 512 div 512"
    "n div 2 ^ 39 = m div 512 div 512 div 512"
    by (simp_all add: m_def div_mult2_eq[symmetric])
  have "n div 2 ^ 39 mod 512 * 134217728 + (n div 2 ^ 30 mod 512 * 262144 + (n div 2 ^ 21 mod 512 * 512 + n div 2 ^ 12 mod 512)) = m"
    unfolding d top using div_mult_mod_eq[of m 512] div_mult_mod_eq[of "m div 512" 512] div_mult_mod_eq[of "m div 512 div 512" 512]
    by linarith
  moreover have "m = unat v div 4096 mod 2 ^ 36"
    using mod_mult2_eq[of "unat v" 4096 "2 ^ 36"] by (simp add: n_def m_def)
  ultimately show ?thesis
    unfolding page_number_def page_path_def path_val.simps unat_pml_index unat_virt_mask n_def[symmetric] by simp
qed

text \<open>\<open>virt_to_phys\<close> reads the leaf of the address's path.\<close>

lemma virt_to_phys_leaf:
  "virt_to_phys root v s =
     (let e = leaf_entry s root (page_path (v AND NOT TOPBITS)) in
      if e = 0 then 0xDEAD
      else PAGE_ALIGN_DOWN e + ((v AND NOT TOPBITS) - PAGE_ALIGN_DOWN (v AND NOT TOPBITS)))"
  by (simp add: virt_to_phys_def leaf_entry_def page_path_def Let_def)


text \<open>A new root, zeroed, is a tree that maps nothing.\<close>

lemma new_root_ok:
  assumes wf: "pmm_wf s" and al: "memmap_aligned s" and k: "kmalloc 1 s = Inr (a, s1)"
  shows "tree_ok s1 (a + hhdm s)" "virt_to_phys (a + hhdm s) v s1 = 0xDEAD"
    "ku_memset (a + hhdm s1) 0 4096 (mem s1) = mem s1" "hhdm s1 = hhdm s"
proof -
  obtain m where s1: "s1 = s\<lparr>mem := m, total_memory_allocated := total_memory_allocated s + 1 * 4096\<rparr>"
    using kmalloc_frame[OF wf k] by auto
  have fr: "hhdm s1 = hhdm s" "pmm_wf s1" "memmap_aligned s1"
    using wf al by (simp_all add: s1 pmm_wf_def memmap_ok_def memmap_aligned_def)
  show "hhdm s1 = hhdm s" by (rule fr)
  have z: "\<And>x. x \<in> table_page (a + hhdm s) \<Longrightarrow> mem s1 x = 0"
    using kmalloc_zeroes[OF wf k] by (simp add: table_page_def)
  note T = table_at_zero_page[OF z]
  show "tree_ok s1 (a + hhdm s)"
    unfolding tree_ok_def using fr T kmalloc_owned[OF wf k] page_block_table[of _ s a]
    by (auto split: if_splits)
  have "entry_at (mem s1) (a + hhdm s) (pml_index 3 (v AND NOT TOPBITS)) = 0"
    using z by (intro entry_at_zero) (auto simp: word_less_nat_alt unat_pml_index)
  then show "virt_to_phys (a + hhdm s) v s1 = 0xDEAD" by (simp add: virt_to_phys_def)
  show "ku_memset (a + hhdm s1) 0 4096 (mem s1) = mem s1"
    using kmalloc_zeroes[OF wf k] fr by (auto simp: ku_memset_def)
qed

lemma page_block_card: assumes "unat n * 4096 < 2 ^ 64" shows "card (page_block a n) = unat n * 4096"
proof -
  have u: "unat (n * 4096) = unat n * 4096" using assms by (subst unat_mult_u64) simp_all
  have "page_block a n = (\<lambda>k. a + of_nat k) ` {..<unat n * 4096}"
  proof (intro set_eqI iffI)
    fix x assume "x \<in> page_block a n"
    then have "unat (x - a) < unat n * 4096" using u by (simp add: page_block_def word_less_nat_alt)
    moreover have "x = a + of_nat (unat (x - a))" by simp
    ultimately show "x \<in> (\<lambda>k. a + of_nat k) ` {..<unat n * 4096}" by (intro image_eqI) auto
  next
    fix x assume "x \<in> (\<lambda>k. a + of_nat k) ` {..<unat n * 4096}"
    then obtain k where "x = a + of_nat k" "k < unat n * 4096" by auto
    then show "x \<in> page_block a n"
      using u assms by (simp add: page_block_def word_less_nat_alt unat_of_nat_u64)
  qed
  moreover have "inj_on (\<lambda>k. a + of_nat k) {..<unat n * 4096}"
  proof (rule inj_onI)
    fix x y :: nat assume "x \<in> {..<unat n * 4096}" "y \<in> {..<unat n * 4096}" "a + of_nat x = a + of_nat y"
    then have "unat (of_nat x :: u64) = unat (of_nat y :: u64)" "x < 2 ^ 64" "y < 2 ^ 64" using assms by auto
    then show "x = y" by (simp only: unat_of_nat_u64)
  qed
  ultimately show ?thesis by (simp add: card_image)
qed


section \<open>Properties\<close>

lemma map_pages_effect:
  assumes ok: "tree_ok s root" and f: "flags < 4096" and n: "1 \<le> n" "page_number virt + unat n \<le> 2 ^ 36"
    and free: "4096 * (3 * unat n) \<le> free_bytes s"
  obtains s' where "map_pages root virt phys n flags s = Inr s'" "mapped flags root phys (page_number virt) (unat n) s s'"
    "free_bytes s \<le> free_bytes s' + 4096 * (3 * unat n)"
proof -
  let ?v = "virt AND NOT TOPBITS"
  have c: "page_count n = unat n" using n(1) by (auto simp: page_count_def word_le_nat_alt)
  have p: "length (page_path ?v) = 4" "\<forall>i \<in> set (page_path ?v). i < 512"
    using full_page_path[of ?v] by (simp_all add: full_path_def)
  have r: "unat n \<le> 512 ^ 4 - path_val (page_path ?v)" using n(2) by (simp add: page_number_def)
  from map_walk.page_loops_ok[OF ok f p, of phys n] obtain s' where
    "page_loops flags (map_pml1 flags) root (page_path ?v) phys n s = Inr (Returned s')"
    "mapped flags root phys (page_number virt) (unat n) s s'" "free_bytes s \<le> free_bytes s' + 4096 * (3 * unat n)"
    unfolding walk_done_def c min_absorb1[OF r] using r free by (auto simp: page_number_def)
  then show thesis by (intro that) (simp_all add: map_pages_def)
qed

lemma alloc_pages_effect:
  assumes ok: "tree_ok s root" and f: "flags < 4096" and n: "1 \<le> n" "page_number virt + unat n \<le> 2 ^ 36"
    and free: "4096 * (4 * unat n) \<le> free_bytes s"
  obtains s' where "alloc_pages root virt n flags s = Inr s'" "allocated flags root 0 (page_number virt) (unat n) s s'"
    "free_bytes s \<le> free_bytes s' + 4096 * (4 * unat n)"
proof -
  let ?v = "virt AND NOT TOPBITS"
  have c: "page_count n = unat n" using n(1) by (auto simp: page_count_def word_le_nat_alt)
  have p: "length (page_path ?v) = 4" "\<forall>i \<in> set (page_path ?v). i < 512"
    using full_page_path[of ?v] by (simp_all add: full_path_def)
  have r: "unat n \<le> 512 ^ 4 - path_val (page_path ?v)" using n(2) by (simp add: page_number_def)
  from alloc_walk.page_loops_ok[OF ok f p, of 0 n] obtain s' where
    "page_loops flags (alloc_pml1 flags) root (page_path ?v) 0 n s = Inr (Returned s')"
    "allocated flags root 0 (page_number virt) (unat n) s s'" "free_bytes s \<le> free_bytes s' + 4096 * (4 * unat n)"
    unfolding walk_done_def c min_absorb1[OF r] using r free by (auto simp: page_number_def)
  then show thesis by (intro that) (simp_all add: alloc_pages_def)
qed

text \<open>The offset of an address in its page.\<close>

definition page_offset_of :: "u64 \<Rightarrow> u64" where
  "page_offset_of v = v mod 4096"

lemma virt_offset: "(v AND NOT TOPBITS) - PAGE_ALIGN_DOWN (v AND NOT TOPBITS) = page_offset_of v"
proof -
  let ?v = "v AND NOT TOPBITS"
  have "?v - PAGE_ALIGN_DOWN ?v = ?v mod 4096" unfolding PAGE_ALIGN_DOWN_def by (simp add: minus_div_mult_eq_mod)
  also have "\<dots> = v mod 4096"
  proof (rule word_unat_eq_iff[THEN iffD2])
    have "unat v mod 2 ^ 48 mod 4096 = unat v mod 4096" by (rule mod_mod_cancel) simp
    then show "unat (?v mod 4096) = unat (v mod 4096)" unfolding unat_mod unat_virt_mask by simp
  qed
  finally show ?thesis by (simp add: page_offset_of_def)
qed

text \<open>C32. Mapping is exact: on a well-formed page tree, with the pages inside the address space and three
  free frames for each, \<open>map_pages\<close> returns, keeps the tree well formed, and changes the
  translation of exactly the pages it was asked for: the k-th of them translates to the k-th frame from
  \<open>phys\<close> on, at the same offset, and every other address translates as before. No byte in use outside the tables
  changes.\<close>

theorem map_pages_translates:
  assumes "tree_ok s root" and "flags < 4096" and "odd flags" and "page_aligned phys"
    and "1 \<le> n" and "page_number virt + unat n \<le> 2 ^ 36" and "4096 * (3 * unat n) \<le> free_bytes s"
  shows "\<exists>s'. map_pages root virt phys n flags s = Inr s' \<and> tree_ok s' root \<and>
    (\<forall>x. x - hhdm s \<in> owned_bytes s \<and> outside_tables s root x \<longrightarrow> mem s' x = mem s x) \<and>
    (\<forall>v. virt_to_phys root v s' =
       (if page_number virt \<le> page_number v \<and> page_number v < page_number virt + unat n
        then phys + of_nat (page_number v - page_number virt) * 4096 + page_offset_of v
        else virt_to_phys root v s))"
proof -
  from map_pages_effect[OF assms(1,2,5,6,7), where phys = phys] obtain s' where
    s': "map_pages root virt phys n flags s = Inr s'" "mapped flags root phys (page_number virt) (unat n) s s'"
    by blast
  have leaf: "PAGE_ALIGN_DOWN ((phys + of_nat k * 4096) OR flags) = phys + of_nat k * 4096"
    "(phys + of_nat k * 4096) OR flags \<noteq> 0" for k
    using assms(2,3,4) by (auto intro!: page_align_down_flags page_aligned_add page_aligned_mult or_odd_nonzero)
  have "virt_to_phys root v s' =
       (if page_number virt \<le> page_number v \<and> page_number v < page_number virt + unat n
        then phys + of_nat (page_number v - page_number virt) * 4096 + page_offset_of v
        else virt_to_phys root v s)" for v
  proof -
    have "leaf_entry s' root (page_path (v AND NOT TOPBITS)) =
        (if page_number virt \<le> page_number v \<and> page_number v < page_number virt + unat n
         then (phys + of_nat (page_number v - page_number virt) * 4096) OR flags
         else leaf_entry s root (page_path (v AND NOT TOPBITS)))"
      using s'(2) full_page_path[of "v AND NOT TOPBITS"] by (simp only: mapped_def page_number_def[of v])
    then show ?thesis
      unfolding virt_to_phys_leaf virt_offset Let_def
      by (cases "page_number virt \<le> page_number v \<and> page_number v < page_number virt + unat n")
        (simp_all only: leaf if_True if_False simp_thms)
  qed
  then show ?thesis using s' by (auto simp: mapped_def tables_kept_def)
qed


text \<open>A page tree for a boot with one usable section of 32 pages.\<close>

lemma sample_free: "free_bytes sample_pmm = 32 * 4096"
proof -
  let ?e = "sample_memmap ! 1"
  have e: "?e \<in> set sample_memmap" "usable ?e" "section_pages ?e = 32" "me_base ?e = 0x100000" "section_ok ?e"
    by (simp_all add: sample_memmap_def usable_def LIMINE_MEMMAP_USABLE_def section_pages_def section_ok_def)
  have "owned_bytes sample_pmm = {}" by (auto simp: owned_bytes_def page_used_def sample_pmm_def)
  moreover have "allocatable sample_pmm = page_block 0x101000 32"
  proof (intro set_eqI iffI)
    fix x assume "x \<in> allocatable sample_pmm"
    then obtain p where p: "p < 32" "x - (0x100000 + (of_nat p * 4096 + 4096)) < 4096"
      by (auto simp: allocatable_def sample_pmm_def sample_memmap_def usable_def LIMINE_MEMMAP_USABLE_def section_pages_def)
    have "unat (x - me_base ?e) div 4096 = Suc p" by (rule page_offset) (use e p in simp_all)
    then show "x \<in> page_block 0x101000 32"
      using p page_block_offset[OF e(5), of 0 32 x] e by (simp del: One_nat_def)
  next
    fix x assume x: "x \<in> page_block 0x101000 32"
    let ?q = "unat (x - me_base ?e) div 4096 - 1"
    have q: "unat (x - me_base ?e) div 4096 = Suc ?q" "?q < 32"
      using x page_block_offset[OF e(5), of 0 32 x] e by (auto simp del: One_nat_def)
    then have "x \<in> page_block (me_base ?e + (of_nat ?q * 4096 + 4096)) 1"
      using page_block_offset[OF e(5), of ?q 1 x] e by simp
    then have "?e \<in> set (memmap sample_pmm) \<and> usable ?e \<and> ?q < section_pages ?e \<and>
        x - (me_base ?e + (of_nat ?q * 4096 + 4096)) < 4096"
      using e q by (simp add: page_block_def sample_pmm_def)
    then show "x \<in> allocatable sample_pmm" unfolding allocatable_def by blast
  qed
  ultimately show ?thesis by (simp add: free_bytes_def page_block_card)
qed

lemma sample_tree:
  obtains s :: pmm_state where "kmalloc 1 sample_pmm = Inr (0x101000, s)" "tree_ok s 0xffff800000101000"
    "31 * 4096 \<le> free_bytes s" "hhdm s = 0xffff800000000000"
    "\<And>v. virt_to_phys 0xffff800000101000 v s = 0xDEAD"
proof -
  have "map_sum id fst (kmalloc 1 sample_pmm) = Inr 0x101000" by code_simp
  then obtain s where k: "kmalloc 1 sample_pmm = Inr (0x101000, s)" by (cases "kmalloc 1 sample_pmm") auto
  have al: "memmap_aligned sample_pmm"
    by (simp add: memmap_aligned_def page_aligned_def sample_pmm_def sample_memmap_def usable_def LIMINE_MEMMAP_USABLE_def)
  have h: "hhdm sample_pmm = 0xffff800000000000" by (simp add: sample_pmm_def)
  note R = new_root_ok[OF sample_pmm_wf al k]
  have "free_bytes sample_pmm \<le> free_bytes s + 4096"
    using kmalloc_frame[OF sample_pmm_wf k] by (intro free_bytes_page[OF _ kmalloc_owned[OF sample_pmm_wf k]]) auto
  then show thesis using R k by (intro that) (simp_all add: h sample_free)
qed

theorem map_pages_translates_witness:
  "\<exists>s s'. tree_ok (s :: pmm_state) 0xffff800000101000 \<and>
     map_pages 0xffff800000101000 0x400000 0xB8000 2 3 s = Inr s' \<and>
     virt_to_phys 0xffff800000101000 0x401234 s' = 0xB9234 \<and> virt_to_phys 0xffff800000101000 0x402000 s' = 0xDEAD"
proof -
  obtain s :: pmm_state where s: "tree_ok s 0xffff800000101000" "31 * 4096 \<le> free_bytes s"
    "virt_to_phys 0xffff800000101000 0x402000 s = 0xDEAD" by (rule sample_tree) blast
  have "page_aligned 0xB8000" by (simp add: page_aligned_def)
  moreover have "page_number 0x400000 + unat (2 :: u64) \<le> 2 ^ 36" by (simp add: page_number_eq)
  moreover have "4096 * (3 * unat (2 :: u64)) \<le> free_bytes s" using s(2) by simp
  ultimately obtain s' where s': "map_pages 0xffff800000101000 0x400000 0xB8000 2 3 s = Inr s'"
    and t: "\<And>v. virt_to_phys 0xffff800000101000 v s' =
       (if page_number 0x400000 \<le> page_number v \<and> page_number v < page_number 0x400000 + unat (2 :: u64)
        then 0xB8000 + of_nat (page_number v - page_number 0x400000) * 4096 + page_offset_of v
        else virt_to_phys 0xffff800000101000 v s)"
    using map_pages_translates[OF s(1), of 3 "0xB8000" 2 "0x400000"] by auto
  have "virt_to_phys 0xffff800000101000 0x401234 s' = 0xB9234" "virt_to_phys 0xffff800000101000 0x402000 s' = 0xDEAD"
    unfolding t using s(3) by (simp_all add: page_number_eq page_offset_of_def)
  then show ?thesis using s(1) s' by blast
qed


text \<open>C33. Allocating is exact: \<open>alloc_pages\<close> returns, gives every page it was asked for a frame that no one
  owned before, that reads zero and that it shares with no other of these pages, under the flags asked
  for, leaves the translation of every other address, and changes no byte in use outside the tables.\<close>

theorem alloc_pages_fresh:
  assumes "tree_ok s root" and "flags < 4096" and "1 \<le> n" and "page_number virt + unat n \<le> 2 ^ 36"
    and "4096 * (4 * unat n) \<le> free_bytes s"
  shows "\<exists>s'. alloc_pages root virt n flags s = Inr s' \<and> tree_ok s' root \<and>
    (\<forall>x. x - hhdm s \<in> owned_bytes s \<and> outside_tables s root x \<longrightarrow> mem s' x = mem s x) \<and>
    (\<forall>v. if page_number virt \<le> page_number v \<and> page_number v < page_number virt + unat n
         then (let a = entry_frame s' root (page_path (v AND NOT TOPBITS)) in
               leaf_entry s' root (page_path (v AND NOT TOPBITS)) = a OR flags \<and>
               page_block a 1 \<inter> owned_bytes s = {} \<and> page_block a 1 \<subseteq> owned_bytes s' \<and>
               (\<forall>x. x - hhdm s' \<in> page_block a 1 \<longrightarrow> mem s' x = 0) \<and>
               (\<forall>w. page_number v < page_number w \<and> page_number w < page_number virt + unat n \<longrightarrow>
                  page_block a 1 \<inter> page_block (entry_frame s' root (page_path (w AND NOT TOPBITS))) 1 = {}))
         else virt_to_phys root v s' = virt_to_phys root v s)"
proof -
  from alloc_pages_effect[OF assms] obtain s' where
    s': "alloc_pages root virt n flags s = Inr s'" "allocated flags root 0 (page_number virt) (unat n) s s'" by blast
  have p: "full_path (page_path (v AND NOT TOPBITS))" "path_val (page_path (v AND NOT TOPBITS)) = page_number v" for v
    by (simp_all add: full_page_path page_number_def)
  let ?in = "\<lambda>v. page_number virt \<le> page_number v \<and> page_number v < page_number virt + unat n"
  let ?q = "\<lambda>v. page_path (v AND NOT TOPBITS)"
  have new: "leaf_entry s' root (?q v) = entry_frame s' root (?q v) OR flags"
    "new_frame root s s' (entry_frame s' root (?q v))" if "?in v" for v
    using s'(2) p[of v] that unfolding allocated_def by auto
  have old: "virt_to_phys root v s' = virt_to_phys root v s" if "\<not> ?in v" for v
    using s'(2) p[of v] that unfolding virt_to_phys_leaf allocated_def by auto
  have apart: "page_block (entry_frame s' root (?q v)) 1 \<inter> page_block (entry_frame s' root (?q w)) 1 = {}"
    if "page_number virt \<le> page_number v" "page_number v < page_number w" "page_number w < page_number virt + unat n" for v w
    using s'(2) p[of v] p[of w] that unfolding allocated_def by metis
  have "tree_ok s' root" "\<forall>x. x - hhdm s \<in> owned_bytes s \<and> outside_tables s root x \<longrightarrow> mem s' x = mem s x"
    using s'(2) by (auto simp: allocated_def tables_kept_def)
  then show ?thesis
    using s'(1) new(1) new(2)[unfolded new_frame_def] old apart by (intro exI[of _ s']) (simp add: Let_def)
qed

theorem alloc_pages_fresh_witness:
  "\<exists>s s' a. tree_ok (s :: pmm_state) 0xffff800000101000 \<and> alloc_pages 0xffff800000101000 0x7000 3 3 s = Inr s' \<and>
     leaf_entry s' 0xffff800000101000 (page_path 0x8000) = a OR 3 \<and> page_block a 1 \<inter> owned_bytes s = {}"
proof -
  obtain s :: pmm_state where s: "tree_ok s 0xffff800000101000" "31 * 4096 \<le> free_bytes s"
    by (rule sample_tree) blast
  have "page_number 0x7000 + unat (3 :: u64) \<le> 2 ^ 36" "4096 * (4 * unat (3 :: u64)) \<le> free_bytes s"
    using s(2) by (simp_all add: page_number_eq)
  with alloc_pages_fresh[OF s(1), of 3 3 "0x7000"] obtain s' where
    s': "alloc_pages 0xffff800000101000 0x7000 3 3 s = Inr s'"
    and f: "\<And>v. page_number 0x7000 \<le> page_number v \<and> page_number v < page_number 0x7000 + unat (3 :: u64) \<Longrightarrow>
      \<exists>a. leaf_entry s' 0xffff800000101000 (page_path (v AND NOT TOPBITS)) = a OR 3 \<and> page_block a 1 \<inter> owned_bytes s = {}"
    by (auto simp: Let_def) (metis (mono_tags, lifting))
  have "(0x8000 AND NOT TOPBITS) = 0x8000" by code_simp
  then show ?thesis using f[of "0x8000"] s(1) s' by (auto simp: page_number_eq)
qed

text \<open>A request for no pages never succeeds: \<open>map_pages\<close> tests its count only after decrementing it, so
  that a count of zero stands for \<open>2 ^ 64\<close> pages, which no address space holds; the call ends in the
  halt after the loops, or earlier when memory for tables runs out.\<close>

theorem map_pages_zero_halts:
  assumes "tree_ok s root" and "flags < 4096"
  shows "map_pages root virt phys 0 flags s = Inl Halted"
proof -
  let ?v = "virt AND NOT TOPBITS"
  have p: "length (page_path ?v) = 4" "\<forall>i \<in> set (page_path ?v). i < 512"
    using full_page_path[of ?v] by (simp_all add: full_path_def)
  have "\<not> page_count 0 \<le> 512 ^ 4 - path_val (page_path ?v)" by (simp add: page_count_def)
  then show ?thesis
    using map_walk.page_loops_ok[OF assms p, of phys 0] by (auto simp: walk_done_def map_pages_def)
qed

theorem map_pages_zero_halts_witness:
  "\<exists>s. tree_ok (s :: pmm_state) 0xffff800000101000 \<and> map_pages 0xffff800000101000 0x400000 0xB8000 0 3 s = Inl Halted"
proof -
  obtain s :: pmm_state where s: "tree_ok s 0xffff800000101000" by (rule sample_tree) blast
  from map_pages_zero_halts[OF this, of 3 "0x400000" "0xB8000"] s show ?thesis by auto
qed

text \<open>\<open>write_vmem\<close> translates an address once for every 4096 bytes: up to that many bytes go to
  consecutive physical bytes from the translation of the first one on, whatever the following page of
  the address space maps to. It is right for data that ends within the first page.\<close>

theorem write_vmem_contiguous:
  assumes "0 < len" and "len \<le> 4096" and "virt_to_phys root v s \<noteq> 0xDEAD"
    and "\<forall>j < unat len. \<forall>k < unat len. data + of_nat k \<noteq> virt_to_phys root v s + hhdm s + of_nat j"
  shows "\<exists>s'. write_vmem root v data len s = Inr s' \<and>
    (\<forall>k < unat len. mem s' (virt_to_phys root v s + hhdm s + of_nat k) = mem s (data + of_nat k)) \<and>
    (\<forall>x. (\<forall>k < unat len. x \<noteq> virt_to_phys root v s + hhdm s + of_nat k) \<longrightarrow> mem s' x = mem s x)"
proof -
  let ?d = "virt_to_phys root v s + hhdm s"
  let ?s = "s\<lparr>mem := ku_memcpy ?d data len (mem s)\<rparr>"
  have b: "(if len < 4096 then len else 4096) = len" using assms(2) by auto
  have "write_vmem root v' d 0 s' = Inr s'" for v' d s' by (subst write_vmem.simps) simp
  then have "write_vmem root v data len s = Inr ?s"
    using assms(1,3) by (subst write_vmem.simps) (simp add: b Let_def)
  moreover have l: "unat len \<le> 4096" using assms(2) by (simp add: word_le_nat_alt)
  have "mem ?s (?d + of_nat k) = mem s (data + of_nat k)" if "k < unat len" for k
    using movsb_inside[OF that, of ?d data "mem s"] l assms(4) by (simp add: ku_memcpy_def) metis
  moreover have "mem ?s x = mem s x" if "\<forall>k < unat len. x \<noteq> ?d + of_nat k" for x
    using movsb_outside[of "unat len" x ?d data "mem s"] that by (simp add: ku_memcpy_def)
  ultimately show ?thesis by (intro exI[of _ ?s]) blast
qed

theorem write_vmem_contiguous_witness:
  "\<exists>s s'. virt_to_phys 0xffff800000101000 0x401000 (s :: pmm_state) = 0x50000 \<and>
     write_vmem 0xffff800000101000 0x400ffe 0x1000 4 s = Inr s' \<and>
     mem s' (0xB9000 + 0xffff800000000000) = mem s 0x1002 \<and>
     mem s' (0x50000 + 0xffff800000000000) = mem s (0x50000 + 0xffff800000000000)"
proof -
  let ?r = "0xffff800000101000 :: u64"
  have four: "k < (4 :: nat) \<longleftrightarrow> k = 0 \<or> k = 1 \<or> k = 2 \<or> k = 3" for k by auto
  obtain s0 :: pmm_state where s0: "tree_ok s0 ?r" "31 * 4096 \<le> free_bytes s0" "hhdm s0 = 0xffff800000000000"
    by (rule sample_tree) blast
  have pa: "page_aligned 0xB8000" "page_aligned 0x50000" by (simp_all add: page_aligned_def)
  obtain s1 where s1: "mapped 3 ?r 0xB8000 (page_number 0x400000) (unat (1 :: u64)) s0 s1"
    "free_bytes s0 \<le> free_bytes s1 + 4096 * (3 * unat (1 :: u64))"
    by (rule map_pages_effect[OF s0(1), of 3 1 "0x400000" "0xB8000"]) (use s0(2) in \<open>simp_all add: page_number_eq\<close>)
  have t1: "tree_ok s1 ?r" using s1(1) by (simp add: mapped_def)
  obtain s2 where s2: "mapped 3 ?r 0x50000 (page_number 0x401000) (unat (1 :: u64)) s1 s2"
    by (rule map_pages_effect[OF t1, of 3 1 "0x401000" "0x50000"]) (use s0(2) s1(2) in \<open>simp_all add: page_number_eq\<close>)
  have h: "hhdm s2 = 0xffff800000000000" using s0(3) s1(1) s2 by (simp add: mapped_def tables_kept_def)
  have p: "path_val (page_path v) = unat v div 4096" "full_path (page_path v)" "v AND NOT TOPBITS = v" if "v \<in> {0x400ffe, 0x401000}" for v
  proof -
    have "(0x400ffe AND NOT TOPBITS) = 0x400ffe" "(0x401000 AND NOT TOPBITS) = 0x401000" by code_simp+
    then show "v AND NOT TOPBITS = v" using that by auto
    then show "path_val (page_path v) = unat v div 4096" using page_number_eq[of v] that by (auto simp: page_number_def)
  qed (rule full_page_path)
  have l: "leaf_entry s2 ?r (page_path 0x400ffe) = 0xB8003" "leaf_entry s2 ?r (page_path 0x401000) = 0x50003"
    using s1(1) s2 p[of "0x400ffe"] p[of "0x401000"] by (simp_all add: mapped_def page_number_eq)
  have v: "virt_to_phys ?r 0x400ffe s2 = 0xB8ffe" "virt_to_phys ?r 0x401000 s2 = 0x50000"
    using l p by (simp_all add: virt_to_phys_leaf PAGE_ALIGN_DOWN_def)
  have "\<forall>j < unat (4 :: u64). \<forall>k < unat (4 :: u64). 0x1000 + of_nat k \<noteq> virt_to_phys ?r 0x400ffe s2 + hhdm s2 + of_nat j"
    unfolding v h by (auto simp: four)
  from write_vmem_contiguous[OF _ _ _ this] v obtain s3 where s3: "write_vmem ?r 0x400ffe 0x1000 4 s2 = Inr s3"
    "\<forall>k < unat (4 :: u64). mem s3 (0xB8ffe + hhdm s2 + of_nat k) = mem s2 (0x1000 + of_nat k)"
    "\<forall>x. (\<forall>k < unat (4 :: u64). x \<noteq> 0xB8ffe + hhdm s2 + of_nat k) \<longrightarrow> mem s3 x = mem s2 x" by auto
  have "mem s3 (0xB9000 + 0xffff800000000000) = mem s2 0x1002" using s3(2) h by (auto dest: spec[of _ 2])
  moreover have "mem s3 (0x50000 + 0xffff800000000000) = mem s2 (0x50000 + 0xffff800000000000)"
    by (rule s3(3)[rule_format]) (auto simp: h four)
  ultimately show ?thesis using s3(1) v by blast
qed

end
