(* ===== verification/Screen.thy ===== *)
theory Screen
  imports Tasklist
begin

text \<open>
  Text on the framebuffer (\<open>src/src/drivers/framebuffer.c\<close>, \<open>src/src/drivers/renderfont.c\<close>): pixels in byte
  memory, glyphs from a bitmap font, the cursor, scrolling and colour escapes.

  Every drawing loop is an instance of \<open>paint\<close>, for which one lemma says which pixel ends with which
  colour; the properties say what a character looks like, what scrolling does, and that the cursor and
  all drawing stay on the screen.
\<close>

section \<open>State\<close>

text \<open>The limine framebuffer (\<open>fb_*\<close>) and the console's part of the kernel structure. \<open>serial_text\<close> is what
  went out through the serial port.\<close>

record screen_state = tasks_state +
  fb_address :: u64
  fb_width :: u64
  fb_height :: u64
  fb_pitch :: u64
  fb_bpp :: u16
  framebuffer_size :: u64
  back_buffer :: u64
  char_size :: u8
  font_data :: u64
  font_loaded :: bool
  fg_colour :: u32
  bg_colour :: u32
  ch_X :: u64
  ch_Y :: u64
  serial_text :: "u8 list"

text \<open>A 32-bit cell.\<close>

definition rd32 :: "memory \<Rightarrow> u64 \<Rightarrow> u32" where
  "rd32 m a = fold (\<lambda>i w. w OR push_bit (8 * i) (ucast (m (a + of_nat i)))) [0..<4] 0"

definition wr32 :: "memory \<Rightarrow> u64 \<Rightarrow> u32 \<Rightarrow> memory" where
  "wr32 m a v = (\<lambda>x. if x - a < 4 then ucast (drop_bit (8 * unat (x - a)) v) else m x)"

section \<open>The framebuffer\<close>

definition swap_framebuffers :: "'a screen_state_scheme \<Rightarrow> 'a screen_state_scheme" where
  "swap_framebuffers s = s\<lparr>mem := ku_memcpy (fb_address s) (back_buffer s) (framebuffer_size s) (mem s)\<rparr>"

definition draw_pixel :: "u64 \<Rightarrow> u64 \<Rightarrow> u32 \<Rightarrow> 'a screen_state_scheme \<Rightarrow> 'a screen_state_scheme" where
  "draw_pixel x y colour s =
     (let location = back_buffer s + y * fb_pitch s in s\<lparr>mem := wr32 (mem s) (location + x * 4) colour\<rparr>)"

definition fill_screen :: "u32 \<Rightarrow> 'a screen_state_scheme \<Rightarrow> 'a screen_state_scheme" where
  "fill_screen colour s =
     swap_framebuffers
       (fold (\<lambda>x. fold (\<lambda>y. draw_pixel (of_nat x) (of_nat y) colour) [0..<unat (fb_height s)])
          [0..<unat (fb_width s)] s)"

definition scroll_cell :: "u64 \<Rightarrow> u64 \<Rightarrow> u64 \<Rightarrow> 'a screen_state_scheme \<Rightarrow> 'a screen_state_scheme" where
  "scroll_cell pixels x y s =
     (if y \<ge> fb_height s - pixels then draw_pixel x y (bg_colour s) s
      else
        (let location = back_buffer s + (y + pixels) * fb_pitch s;
             above_pixel_value = rd32 (mem s) (location + x * 4)
         in draw_pixel x y above_pixel_value s))"

definition scroll_pixel :: "u64 \<Rightarrow> 'a screen_state_scheme \<Rightarrow> 'a screen_state_scheme" where
  "scroll_pixel pixels s =
     fold (\<lambda>y. fold (\<lambda>x. scroll_cell pixels (of_nat x) (of_nat y)) [0..<unat (fb_width s)])
       [0..<Suc (unat (fb_height s))] s"

definition init_framebuffer_memory :: "'a screen_state_scheme \<Rightarrow> 'a screen_state_scheme result" where
  "init_framebuffer_memory s =
     (let sz = fb_width s * (ucast (fb_bpp s) div 8) * fb_height s;
          s = s\<lparr>framebuffer_size := sz\<rparr> in
      res_bind (kmalloc ((sz + 4095) div 4096 * 4096 div 4096) s) (\<lambda>(a, s).
        let s = s\<lparr>back_buffer := a + hhdm s\<rparr> in
        Inr (s\<lparr>mem := ku_memset (back_buffer s) 0 (framebuffer_size s) (mem s)\<rparr>)))"

text \<open>The framebuffer device: raw reads and writes of the back buffer.\<close>

definition write_fb_device :: "u64 \<Rightarrow> u64 \<Rightarrow> 'a screen_state_scheme \<Rightarrow> 'a screen_state_scheme" where
  "write_fb_device buffer len s =
     (let copy_amount = (if len > framebuffer_size s then framebuffer_size s else len) in
      swap_framebuffers (s\<lparr>mem := ku_memcpy (back_buffer s) buffer copy_amount (mem s)\<rparr>))"

definition read_fb_device :: "u64 \<Rightarrow> u64 \<Rightarrow> 'a screen_state_scheme \<Rightarrow> 'a screen_state_scheme" where
  "read_fb_device buffer max_len s =
     (let copy_amount = (if max_len > framebuffer_size s then framebuffer_size s else max_len) in
      swap_framebuffers (s\<lparr>mem := ku_memcpy buffer (back_buffer s) copy_amount (mem s)\<rparr>))"

section \<open>Text\<close>

text \<open>\<open>char\<close> is signed: the index of a byte from 128 on is negative.\<close>

definition draw_char :: "u8 \<Rightarrow> u64 \<Rightarrow> u64 \<Rightarrow> 'a screen_state_scheme \<Rightarrow> 'a screen_state_scheme" where
  "draw_char ch x_coord y_coord s =
     (let first_byte_idx = scast ch * ucast (char_size s) in
      fold (\<lambda>y. fold (\<lambda>x s.
          if drop_bit (7 - x) (mem s (font_data s + (first_byte_idx + of_nat y))) AND 1 \<noteq> 0
          then draw_pixel (x_coord + of_nat x) (y_coord + of_nat y) (fg_colour s) s
          else draw_pixel (x_coord + of_nat x) (y_coord + of_nat y) (bg_colour s) s) [0..<8])
        [0..<unat (char_size s)] s)"

definition scroll_line :: "'a screen_state_scheme \<Rightarrow> 'a screen_state_scheme" where
  "scroll_line s =
     (let s = scroll_pixel (ucast (char_size s) + 1) s;
          s = s\<lparr>ch_Y := ch_Y s - (ucast (char_size s) + 1)\<rparr>
      in swap_framebuffers s)"

definition new_line :: "'a screen_state_scheme \<Rightarrow> 'a screen_state_scheme" where
  "new_line s =
     (let s = s\<lparr>ch_X := 5\<rparr>;
          s = s\<lparr>ch_Y := ch_Y s + (ucast (char_size s) + 1)\<rparr>
      in if ch_Y s \<ge> fb_height s - ucast (char_size s) then scroll_line s else s)"

definition write_char :: "u8 \<Rightarrow> 'a screen_state_scheme \<Rightarrow> 'a screen_state_scheme" where
  "write_char ch s =
     (if ch = 10 then new_line s
      else
        (let s = draw_char ch (ch_X s) (ch_Y s) s;
             s = s\<lparr>ch_X := ch_X s + 8\<rparr>
         in if ch_X s \<ge> fb_width s - 5 then new_line s else s))"

definition ansi_colours :: "u32 list" where
  "ansi_colours = [0x808080, 0xFF0000, 0x00FF00, 0xFFBF00, 0x0000FF, 0xBF40BF, 0x00FFFF, 0xFFFFFF]"

definition ansi_switch_colour :: "u8 \<Rightarrow> 'a screen_state_scheme \<Rightarrow> 'a screen_state_scheme result" where
  "ansi_switch_colour colour_code s =
     res_bind (arr_get ansi_colours (unat colour_code)) (\<lambda>c. Inr (s\<lparr>fg_colour := c\<rparr>))"

text \<open>\<open>str\<close> is the array object the pointer points into; running off its end is out of bounds.\<close>

function write_string_loop :: "nat \<Rightarrow> u8 list \<Rightarrow> 'a screen_state_scheme \<Rightarrow> 'a screen_state_scheme result" where
  "write_string_loop i str s =
     (if i < length str then
        (if str ! i = 0 then Inr s
         else if str ! i = 27 then
           res_bind (arr_get str (i + 5)) (\<lambda>d.
           res_bind (ansi_switch_colour (d - 48) s) (\<lambda>s. write_string_loop (i + 7) str s))
         else write_string_loop (i + 1) str (write_char (str ! i) s))
      else Inl OutOfBounds)"
  by pat_completeness auto
termination by (relation "measure (\<lambda>(i, str, s). length str - i)") auto

declare write_string_loop.simps [simp del]

definition write_string :: "u8 list \<Rightarrow> 'a screen_state_scheme \<Rightarrow> 'a screen_state_scheme result" where
  "write_string str s = write_string_loop 0 str s"

definition clear_screen :: "'a screen_state_scheme \<Rightarrow> 'a screen_state_scheme" where
  "clear_screen s =
     swap_framebuffers
       (fold (\<lambda>x. fold (\<lambda>y s. (draw_pixel (of_nat x) (of_nat y) (bg_colour s) s)\<lparr>ch_X := 5, ch_Y := 5\<rparr>)
            [0..<unat (fb_height s)]) [0..<unat (fb_width s)] s)"

section \<open>32-bit cells\<close>

lemma bit_or_fold32:
  "bit (fold (\<lambda>i w. w OR push_bit (8 * i) (ucast (f i :: u8))) xs w0 :: u32) n \<longleftrightarrow>
     bit w0 n \<or> (\<exists>i\<in>set xs. 8 * i \<le> n \<and> n < 32 \<and> bit (f i) (n - 8 * i))"
proof (induction xs arbitrary: w0)
  case (Cons x xs)
  have "bit (push_bit (8 * x) (ucast (f x)) :: u32) n \<longleftrightarrow> 8 * x \<le> n \<and> n < 32 \<and> bit (f x) (n - 8 * x)"
    by (auto simp: bit_simps dest: bit_imp_le_length)
  with Cons show ?case by (auto simp: bit_or_iff)
qed simp

lemma rd32_cong: "(\<And>i. i < 4 \<Longrightarrow> m (a + of_nat i) = m' (a + of_nat i)) \<Longrightarrow> rd32 m a = rd32 m' a"
  unfolding rd32_def by (intro fold_cong) auto

lemma rd32_wr32_same [simp]: "rd32 (wr32 m a v) a = v"
proof -
  have "wr32 m a v (a + of_nat i) = ucast (drop_bit (8 * i) v)" if "i < 4" for i
    using that by (simp add: wr32_def word_less_nat_alt unat_of_nat_u64)
  then have "rd32 (wr32 m a v) a =
      fold (\<lambda>i w. w OR push_bit (8 * i) (ucast (ucast (drop_bit (8 * i) v) :: u8))) [0..<4] 0"
    unfolding rd32_def by (intro fold_cong) auto
  also have "\<dots> = v"
  proof (rule bit_word_eqI)
    fix n assume "n < LENGTH(32)"
    then show "bit (fold (\<lambda>i w. w OR push_bit (8 * i) (ucast (ucast (drop_bit (8 * i) v) :: u8)))
        [0..<4] 0 :: u32) n = bit v n"
      unfolding bit_or_fold32 by (auto simp: bit_simps intro!: bexI[of _ "n div 8"])
  qed
  finally show ?thesis .
qed

section \<open>Pixels\<close>

definition px_off :: "'a screen_state_scheme \<Rightarrow> nat \<Rightarrow> nat \<Rightarrow> nat" where
  "px_off s x y = y * unat (fb_pitch s) + x * 4"

definition px_addr :: "'a screen_state_scheme \<Rightarrow> nat \<Rightarrow> nat \<Rightarrow> u64" where
  "px_addr s x y = back_buffer s + of_nat (px_off s x y)"

definition pixel :: "'a screen_state_scheme \<Rightarrow> nat \<Rightarrow> nat \<Rightarrow> u32" where
  "pixel s x y = rd32 (mem s) (px_addr s x y)"

text \<open>Rows do not overlap, and the rows 0 to \<open>fb_height\<close> fit into the address space.\<close>

definition geom :: "'a screen_state_scheme \<Rightarrow> bool" where
  "geom s \<longleftrightarrow> 4 * unat (fb_width s) \<le> unat (fb_pitch s) \<and> (unat (fb_height s) + 1) * unat (fb_pitch s) \<le> 2 ^ 64"

definition in_screen :: "'a screen_state_scheme \<Rightarrow> nat \<Rightarrow> nat \<Rightarrow> bool" where
  "in_screen s x y \<longleftrightarrow> x < unat (fb_width s) \<and> y \<le> unat (fb_height s)"

definition off_screen :: "'a screen_state_scheme \<Rightarrow> u64 \<Rightarrow> bool" where
  "off_screen s a \<longleftrightarrow> (unat (fb_height s) + 1) * unat (fb_pitch s) \<le> unat (a - back_buffer s)"

lemma mem_upd_screen [simp]:
  "px_off (s\<lparr>mem := m\<rparr>) = px_off s" "px_addr (s\<lparr>mem := m\<rparr>) = px_addr s" "geom (s\<lparr>mem := m\<rparr>) = geom s"
  "in_screen (s\<lparr>mem := m\<rparr>) = in_screen s" "off_screen (s\<lparr>mem := m\<rparr>) = off_screen s"
  by (simp_all add: px_off_def px_addr_def geom_def in_screen_def off_screen_def fun_eq_iff)

lemma draw_pixel_eq:
  "draw_pixel (of_nat x) (of_nat y) c s = s\<lparr>mem := wr32 (mem s) (px_addr s x y) c\<rparr>"
proof -
  have "back_buffer s + of_nat y * fb_pitch s + of_nat x * 4 = px_addr s x y"
    by (simp add: px_addr_def px_off_def add.assoc)
  then show ?thesis by (simp add: draw_pixel_def)
qed

lemma px_off_bound:
  assumes "geom s" "in_screen s x y"
  shows "px_off s x y + 4 \<le> (unat (fb_height s) + 1) * unat (fb_pitch s)" "px_off s x y + 4 \<le> 2 ^ 64"
proof -
  have "x * 4 + 4 \<le> unat (fb_pitch s)" using assms by (auto simp: geom_def in_screen_def)
  moreover have "y * unat (fb_pitch s) \<le> unat (fb_height s) * unat (fb_pitch s)"
    using assms by (intro mult_le_mono1) (simp add: in_screen_def)
  ultimately show "px_off s x y + 4 \<le> (unat (fb_height s) + 1) * unat (fb_pitch s)"
    unfolding px_off_def distrib_right by linarith
  then show "px_off s x y + 4 \<le> 2 ^ 64" using assms(1) unfolding geom_def by linarith
qed

lemma px_off_apart:
  assumes "geom s" "in_screen s x y" "in_screen s x' y'" "(x, y) \<noteq> (x', y')"
  shows "px_off s x y + 4 \<le> px_off s x' y' \<or> px_off s x' y' + 4 \<le> px_off s x y"
proof -
  have lt: "px_off s a b + 4 \<le> px_off s a' b'" if "b < b'" "in_screen s a b" for a b a' b'
  proof -
    have "a * 4 + 4 \<le> unat (fb_pitch s)" using that(2) assms(1) by (auto simp: geom_def in_screen_def)
    moreover have "(b + 1) * unat (fb_pitch s) \<le> b' * unat (fb_pitch s)" using that(1) by (intro mult_le_mono1) simp
    ultimately show ?thesis unfolding px_off_def distrib_right by linarith
  qed
  consider "y < y'" | "y' < y" | "y = y'" "x \<noteq> x'" using assms(4) by fastforce
  then show ?thesis
  proof cases
    case 3
    then show ?thesis unfolding px_off_def by (cases "x < x'") auto
  qed (use lt assms in auto)
qed

lemma px_byte:
  assumes "geom s" "in_screen s x y"
  shows "a - px_addr s x y < 4 \<longleftrightarrow> px_off s x y \<le> unat (a - back_buffer s) \<and> unat (a - back_buffer s) < px_off s x y + 4"
proof -
  have b: "px_off s x y + 4 \<le> 2 ^ 64" by (rule px_off_bound[OF assms])
  have u: "unat (of_nat (px_off s x y) :: u64) = px_off s x y" using b by (intro unat_of_nat_u64) simp
  have e: "a - px_addr s x y = (a - back_buffer s) - of_nat (px_off s x y)" by (simp add: px_addr_def diff_diff_eq)
  show ?thesis
    unfolding e using in_block_iff[of "of_nat (px_off s x y)" 4 "a - back_buffer s"] b u by simp
qed

lemma pixel_write:
  assumes "geom s" "in_screen s x y" "in_screen s x' y'"
  shows "pixel (s\<lparr>mem := wr32 (mem s) (px_addr s x y) c\<rparr>) x' y' = (if (x', y') = (x, y) then c else pixel s x' y')"
proof (cases "(x', y') = (x, y)")
  case False
  have "wr32 (mem s) (px_addr s x y) c (px_addr s x' y' + of_nat i) = mem s (px_addr s x' y' + of_nat i)" if i: "i < 4" for i
  proof -
    have "unat (px_addr s x' y' + of_nat i - back_buffer s) = px_off s x' y' + i"
      using px_off_bound(2)[OF assms(1,3)] i
      by (simp add: px_addr_def unat_of_nat_u64 flip: of_nat_add)
    then have "\<not> px_addr s x' y' + of_nat i - px_addr s x y < 4"
      using px_byte[OF assms(1,2)] px_off_apart[OF assms] False i by auto
    then show ?thesis by (simp add: wr32_def)
  qed
  then show ?thesis using False unfolding pixel_def by (auto intro: rd32_cong)
qed (simp add: pixel_def)

section \<open>Painting\<close>

lemma fold_upt_invariant:
  "P 0 s \<Longrightarrow> (\<And>i s. i < n \<Longrightarrow> P i s \<Longrightarrow> P (Suc i) (f i s)) \<Longrightarrow> P n (fold f [0..<n] s)"
  by (induction n) auto

text \<open>The pixels of \<open>S\<close> have the colours \<open>C\<close>, the others and all other bytes are as before.\<close>

definition painted ::
  "(nat \<times> nat) set \<Rightarrow> (nat \<Rightarrow> nat \<Rightarrow> u32) \<Rightarrow> 'a screen_state_scheme \<Rightarrow> 'a screen_state_scheme \<Rightarrow> bool" where
  "painted S C s s' \<longleftrightarrow> (\<exists>m. s' = s\<lparr>mem := m\<rparr>) \<and>
     (\<forall>x y. in_screen s x y \<longrightarrow> pixel s' x y = (if (x, y) \<in> S then C x y else pixel s x y)) \<and>
     (\<forall>a. off_screen s a \<longrightarrow> mem s' a = mem s a)"

lemma painted_start: "painted {} C s s"
  unfolding painted_def by (intro conjI exI[of _ "mem s"]) auto

lemma painted_step:
  assumes g: "geom s" and p: "painted S C s s1" and i: "in_screen s x y" and c: "c = C x y"
  shows "painted (insert (x, y) S) C s (draw_pixel (of_nat x) (of_nat y) c s1)"
proof -
  obtain m where m: "s1 = s\<lparr>mem := m\<rparr>" using p by (auto simp: painted_def)
  have "\<not> a - px_addr s x y < 4" if "off_screen s a" for a
    using px_byte[OF g i, of a] px_off_bound(1)[OF g i] that by (auto simp: off_screen_def)
  then have "off_screen s a \<longrightarrow> wr32 m (px_addr s x y) c a = mem s a" for a
    using p m by (auto simp: painted_def wr32_def)
  moreover have "pixel (s1\<lparr>mem := wr32 (mem s1) (px_addr s1 x y) c\<rparr>) x' y' =
      (if (x', y') \<in> insert (x, y) S then C x' y' else pixel s x' y')" if "in_screen s x' y'" for x' y'
    using pixel_write[of s1 x y x' y' c] g i that p c m by (auto simp: painted_def)
  ultimately show ?thesis
    unfolding draw_pixel_eq painted_def using m by auto
qed

lemma painted_unfold:
  assumes "painted S C s s1"
  shows "s1 = s\<lparr>mem := mem s1\<rparr>"
    "in_screen s x y \<Longrightarrow> pixel s1 x y = (if (x, y) \<in> S then C x y else pixel s x y)"
    "off_screen s a \<Longrightarrow> mem s1 a = mem s a"
  using assms by (auto simp: painted_def)

lemma painted_fields:
  assumes "painted S C s s1"
  shows "fb_width s1 = fb_width s" "fb_height s1 = fb_height s" "fb_pitch s1 = fb_pitch s" "back_buffer s1 = back_buffer s"
    "char_size s1 = char_size s" "font_data s1 = font_data s" "fg_colour s1 = fg_colour s" "bg_colour s1 = bg_colour s"
    "px_addr s1 = px_addr s" "geom s1 = geom s" "in_screen s1 = in_screen s" "off_screen s1 = off_screen s"
    "ch_X s1 = ch_X s" "ch_Y s1 = ch_Y s"
proof -
  obtain m where "s1 = s\<lparr>mem := m\<rparr>" using assms by (auto simp: painted_def)
  then show "fb_width s1 = fb_width s" "fb_height s1 = fb_height s" "fb_pitch s1 = fb_pitch s" "back_buffer s1 = back_buffer s"
    "char_size s1 = char_size s" "font_data s1 = font_data s" "fg_colour s1 = fg_colour s" "bg_colour s1 = bg_colour s"
    "px_addr s1 = px_addr s" "geom s1 = geom s" "in_screen s1 = in_screen s" "off_screen s1 = off_screen s"
    "ch_X s1 = ch_X s" "ch_Y s1 = ch_Y s"
    by simp_all
qed

text \<open>Two nested loops over the rectangle of width \<open>w\<close> and height \<open>h\<close> at \<open>(x0, y0)\<close>, row by row.\<close>

definition rect_done :: "nat \<Rightarrow> nat \<Rightarrow> nat \<Rightarrow> nat \<Rightarrow> nat \<Rightarrow> (nat \<times> nat) set" where
  "rect_done x0 y0 w x y = {(x0 + a, y0 + b) | a b. b < y \<and> a < w \<or> b = y \<and> a < x}"

lemma rect_done_steps:
  "rect_done x0 y0 w 0 0 = {}"
  "rect_done x0 y0 w (Suc x) y = insert (x0 + x, y0 + y) (rect_done x0 y0 w x y)"
  "rect_done x0 y0 w w y = rect_done x0 y0 w 0 (Suc y)"
  by (auto simp: rect_done_def less_Suc_eq)

lemma painted_rows:
  assumes g: "geom s"
    and ins: "\<And>x y. x < w \<Longrightarrow> y < h \<Longrightarrow> in_screen s (x0 + x) (y0 + y)"
    and f: "\<And>x y s1. x < w \<Longrightarrow> y < h \<Longrightarrow> painted (rect_done x0 y0 w x y) C s s1 \<Longrightarrow>
      f x y s1 = draw_pixel (of_nat (x0 + x)) (of_nat (y0 + y)) (C (x0 + x) (y0 + y)) s1"
  shows "painted (rect_done x0 y0 w 0 h) C s (fold (\<lambda>y. fold (\<lambda>x. f x y) [0..<w]) [0..<h] s)"
proof (rule fold_upt_invariant[where P = "\<lambda>y. painted (rect_done x0 y0 w 0 y) C s"])
  show "painted (rect_done x0 y0 w 0 0) C s s" by (simp add: rect_done_steps painted_start)
  fix y s1 assume y: "y < h" and s1: "painted (rect_done x0 y0 w 0 y) C s s1"
  have "painted (rect_done x0 y0 w w y) C s (fold (\<lambda>x. f x y) [0..<w] s1)"
  proof (rule fold_upt_invariant[where P = "\<lambda>x. painted (rect_done x0 y0 w x y) C s", OF s1])
    fix x s2 assume "x < w" "painted (rect_done x0 y0 w x y) C s s2"
    then show "painted (rect_done x0 y0 w (Suc x) y) C s (f x y s2)"
      using painted_step[OF g _ ins[OF _ y]] f[OF _ y] by (simp add: rect_done_steps)
  qed
  then show "painted (rect_done x0 y0 w 0 (Suc y)) C s (fold (\<lambda>x. f x y) [0..<w] s1)"
    by (simp only: rect_done_steps)
qed

section \<open>Characters and scrolling\<close>

text \<open>Bit \<open>a\<close> from the left of row \<open>b\<close> of a glyph.\<close>

definition glyph :: "'a screen_state_scheme \<Rightarrow> u8 \<Rightarrow> nat \<Rightarrow> nat \<Rightarrow> bool" where
  "glyph s ch a b \<longleftrightarrow> bit (mem s (font_data s + (scast ch * ucast (char_size s) + of_nat b))) (7 - a)"

definition cell_colour :: "'a screen_state_scheme \<Rightarrow> u8 \<Rightarrow> nat \<Rightarrow> nat \<Rightarrow> nat \<Rightarrow> nat \<Rightarrow> u32" where
  "cell_colour s ch x0 y0 x y = (if glyph s ch (x - x0) (y - y0) then fg_colour s else bg_colour s)"

definition font_apart :: "'a screen_state_scheme \<Rightarrow> u8 \<Rightarrow> bool" where
  "font_apart s ch \<longleftrightarrow> (\<forall>b < unat (char_size s). off_screen s (font_data s + (scast ch * ucast (char_size s) + of_nat b)))"

lemma and_one_bit: "drop_bit n (b :: u8) AND 1 \<noteq> 0 \<longleftrightarrow> bit b n"
  by (simp add: and_one_eq bit_iff_odd_drop_bit odd_iff_mod_2_eq_one)

lemma draw_char_painted:
  assumes g: "geom s" and x: "unat xc + 8 \<le> unat (fb_width s)" and y: "unat yc + unat (char_size s) \<le> unat (fb_height s) + 1"
    and f: "font_apart s ch"
  shows "painted (rect_done (unat xc) (unat yc) 8 0 (unat (char_size s))) (cell_colour s ch (unat xc) (unat yc)) s
    (draw_char ch xc yc s)"
  unfolding draw_char_def Let_def
proof (rule painted_rows[OF g])
  show "in_screen s (unat xc + a) (unat yc + b)" if "a < 8" "b < unat (char_size s)" for a b
    using that x y by (auto simp: in_screen_def)
next
  fix a b s1 assume ab: "a < 8" "b < unat (char_size s)"
    and p: "painted (rect_done (unat xc) (unat yc) 8 a b) (cell_colour s ch (unat xc) (unat yc)) s s1"
  have "mem s1 (font_data s + (scast ch * ucast (char_size s) + of_nat b)) =
      mem s (font_data s + (scast ch * ucast (char_size s) + of_nat b))"
    using painted_unfold(3)[OF p] f ab by (simp add: font_apart_def)
  then show "(if drop_bit (7 - a) (mem s1 (font_data s1 + (scast ch * ucast (char_size s) + of_nat b))) AND 1 \<noteq> 0
      then draw_pixel (xc + of_nat a) (yc + of_nat b) (fg_colour s1) s1
      else draw_pixel (xc + of_nat a) (yc + of_nat b) (bg_colour s1) s1) =
      draw_pixel (of_nat (unat xc + a)) (of_nat (unat yc + b)) (cell_colour s ch (unat xc) (unat yc) (unat xc + a) (unat yc + b)) s1"
    unfolding and_one_bit painted_fields[OF p] by (simp add: cell_colour_def glyph_def)
qed

definition scrolled :: "'a screen_state_scheme \<Rightarrow> nat \<Rightarrow> nat \<Rightarrow> nat \<Rightarrow> u32" where
  "scrolled s p x y = (if y + p < unat (fb_height s) then pixel s x (y + p) else bg_colour s)"

lemma scroll_pixel_painted:
  assumes g: "geom s" and p: "unat pixels \<le> unat (fb_height s)"
  shows "painted (rect_done 0 0 (unat (fb_width s)) 0 (Suc (unat (fb_height s)))) (scrolled s (unat pixels)) s (scroll_pixel pixels s)"
  unfolding scroll_pixel_def
proof (rule painted_rows[OF g])
  show "in_screen s (0 + x) (0 + y)" if "x < unat (fb_width s)" "y < Suc (unat (fb_height s))" for x y
    using that by (auto simp: in_screen_def)
next
  fix x y s1 assume xy: "x < unat (fb_width s)" "y < Suc (unat (fb_height s))"
    and q: "painted (rect_done 0 0 (unat (fb_width s)) x y) (scrolled s (unat pixels)) s s1"
  have y64: "unat (of_nat y :: u64) = y" using xy unat_u64_less[of "fb_height s"] by (intro unat_of_nat_u64) simp
  have h: "unat (fb_height s - pixels) = unat (fb_height s) - unat pixels"
    using p by (simp add: unat_sub word_le_nat_alt)
  have ge: "of_nat y \<ge> fb_height s - pixels \<longleftrightarrow> \<not> y + unat pixels < unat (fb_height s)"
    using y64 h p by (auto simp: word_le_nat_alt)
  have rd: "rd32 (mem s1) (back_buffer s1 + (of_nat y + pixels) * fb_pitch s1 + of_nat x * 4) = pixel s x (y + unat pixels)"
    if "y + unat pixels < unat (fb_height s)"
  proof -
    have "(of_nat y + pixels) * fb_pitch s = of_nat ((y + unat pixels) * unat (fb_pitch s))" by simp
    then have "back_buffer s1 + (of_nat y + pixels) * fb_pitch s1 + of_nat x * 4 = px_addr s x (y + unat pixels)"
      unfolding painted_fields[OF q] px_addr_def px_off_def by (simp add: add.assoc)
    moreover have "in_screen s x (y + unat pixels)" using xy that by (simp add: in_screen_def)
    moreover have "(x, y + unat pixels) \<notin> rect_done 0 0 (unat (fb_width s)) x y" by (auto simp: rect_done_def)
    ultimately show ?thesis using painted_unfold(2)[OF q, of x "y + unat pixels"] painted_fields(9)[OF q]
      by (simp add: pixel_def)
  qed
  show "scroll_cell pixels (of_nat x) (of_nat y) s1 =
      draw_pixel (of_nat (0 + x)) (of_nat (0 + y)) (scrolled s (unat pixels) (0 + x) (0 + y)) s1"
    using rd ge unfolding scroll_cell_def scrolled_def Let_def by (auto simp: painted_fields[OF q])
qed

section \<open>The cursor\<close>

text \<open>The next character fits on the screen. Widths are multiples of 8, as the firmware's modes have them.\<close>

definition screen_inv :: "'a screen_state_scheme \<Rightarrow> bool" where
  "screen_inv s \<longleftrightarrow> geom s \<and> 8 dvd unat (fb_width s) \<and> 16 \<le> unat (fb_width s) \<and>
     unat (ch_X s) mod 8 = 5 \<and> unat (ch_X s) + 8 \<le> unat (fb_width s) \<and>
     unat (ch_Y s) + unat (char_size s) < unat (fb_height s)"

definition front :: "'a screen_state_scheme \<Rightarrow> u64 \<Rightarrow> bool" where
  "front s a \<longleftrightarrow> (\<exists>k < unat (framebuffer_size s). a = fb_address s + of_nat k)"

text \<open>Same framebuffer and font, and no byte outside the two buffers changed.\<close>

definition screen_kept :: "'a screen_state_scheme \<Rightarrow> 'a screen_state_scheme \<Rightarrow> bool" where
  "screen_kept s s' \<longleftrightarrow> (\<exists>m x y. s' = s\<lparr>mem := m, ch_X := x, ch_Y := y\<rparr>) \<and>
     (\<forall>a. off_screen s a \<and> \<not> front s a \<longrightarrow> mem s' a = mem s a)"

lemma screen_upd [simp]:
  "geom (s\<lparr>ch_X := x\<rparr>) = geom s" "geom (s\<lparr>ch_Y := y\<rparr>) = geom s"
  "off_screen (s\<lparr>ch_X := x\<rparr>) = off_screen s" "off_screen (s\<lparr>ch_Y := y\<rparr>) = off_screen s"
  "front (s\<lparr>ch_X := x\<rparr>) = front s" "front (s\<lparr>ch_Y := y\<rparr>) = front s" "front (s\<lparr>mem := m\<rparr>) = front s"
  "font_apart (s\<lparr>ch_X := x\<rparr>) = font_apart s" "font_apart (s\<lparr>ch_Y := y\<rparr>) = font_apart s"
  "font_apart (s\<lparr>mem := m\<rparr>) = font_apart s"
  by (simp_all add: geom_def off_screen_def front_def font_apart_def fun_eq_iff)

lemma screen_commute [simp]:
  "s\<lparr>ch_X := x, mem := m\<rparr> = s\<lparr>mem := m, ch_X := x\<rparr>" "s\<lparr>ch_Y := y, mem := m\<rparr> = s\<lparr>mem := m, ch_Y := y\<rparr>"
  by simp_all

lemma screen_kept_mem:
  "(\<And>a. off_screen s a \<Longrightarrow> \<not> front s a \<Longrightarrow> m a = mem s a) \<Longrightarrow> screen_kept s (s\<lparr>mem := m, ch_X := x, ch_Y := y\<rparr>)"
  unfolding screen_kept_def by auto

lemma screen_kept_trans:
  assumes "screen_kept s s'" "screen_kept s' s''"
  shows "screen_kept s s''"
proof -
  obtain m x y m' x' y' where e: "s' = s\<lparr>mem := m, ch_X := x, ch_Y := y\<rparr>" "s'' = s'\<lparr>mem := m', ch_X := x', ch_Y := y'\<rparr>"
    using assms unfolding screen_kept_def by auto
  then have "s'' = s\<lparr>mem := m', ch_X := x', ch_Y := y'\<rparr>" by simp
  then show ?thesis using assms e unfolding screen_kept_def by auto
qed

lemma swap_mem:
  "\<not> front s a \<Longrightarrow> mem (swap_framebuffers s) a = mem s a"
  by (auto simp: swap_framebuffers_def ku_memcpy_def front_def intro!: movsb_outside)

lemma new_line_ok:
  assumes g: "geom s" and w: "8 dvd unat (fb_width s)" "16 \<le> unat (fb_width s)"
    and y: "unat (ch_Y s) + unat (char_size s) < unat (fb_height s)"
  shows "screen_inv (new_line s)" "screen_kept s (new_line s)"
proof -
  define c :: u64 where "c = ucast (char_size s)"
  have "unat (char_size s) < 2 ^ LENGTH(8)" by (rule unsigned_less)
  then have c: "unat c = unat (char_size s)" by (simp add: c_def unsigned_ucast_eq take_bit_nat_eq_self_iff)
  then have cb: "unat c < 256" using \<open>unat (char_size s) < 2 ^ LENGTH(8)\<close> by simp
  have h64: "unat (fb_height s) < 2 ^ 64" by (rule unat_u64_less)
  have c1: "unat (c + 1) = unat c + 1" using cb by (simp add: unat_add_u64)
  have hc: "unat (fb_height s - c) = unat (fb_height s) - unat c" using y c by (simp add: unat_sub word_le_nat_alt)
  let ?s1 = "s\<lparr>ch_X := 5, ch_Y := ch_Y s + (c + 1)\<rparr>"
  have eq: "new_line s = (if ch_Y s + (c + 1) \<ge> fb_height s - c then scroll_line ?s1 else ?s1)"
    by (simp add: new_line_def c_def Let_def)
  have "screen_inv (new_line s) \<and> screen_kept s (new_line s)"
  proof (cases "ch_Y s + (c + 1) \<ge> fb_height s - c")
    case False
    have "unat (ch_Y s + (c + 1)) = unat (ch_Y s) + unat c + 1 \<or> 2 ^ 64 \<le> unat (ch_Y s) + unat c + 1"
      using unat_add_u64[of "ch_Y s" "c + 1"] c1 by linarith
    then have "unat (ch_Y s + (c + 1)) + unat c < unat (fb_height s)"
      using False hc y c h64 by (auto simp: not_le word_less_nat_alt)
    then have "screen_inv ?s1" using g w c by (auto simp: screen_inv_def)
    moreover have "screen_kept s (s\<lparr>mem := mem s, ch_X := 5, ch_Y := ch_Y s + (c + 1)\<rparr>)" by (intro screen_kept_mem) simp
    then have "screen_kept s ?s1" by simp
    ultimately show ?thesis using False by (simp add: eq)
  next
    case True
    have p: "unat (c + 1) \<le> unat (fb_height ?s1)" using y c c1 by simp
    have P: "painted (rect_done 0 0 (unat (fb_width ?s1)) 0 (Suc (unat (fb_height ?s1)))) (scrolled ?s1 (unat (c + 1))) ?s1
        (scroll_pixel (c + 1) ?s1)"
      by (rule scroll_pixel_painted) (use g p in auto)
    obtain m where m: "scroll_pixel (c + 1) ?s1 = ?s1\<lparr>mem := m\<rparr>" using painted_unfold(1)[OF P] by blast
    have off: "m a = mem s a" if "off_screen s a" for a
      using painted_unfold(3)[OF P, of a] that m by simp
    define m' where "m' = ku_memcpy (fb_address s) (back_buffer s) (framebuffer_size s) m"
    have m': "swap_framebuffers (s\<lparr>mem := m, ch_X := 5, ch_Y := ch_Y s\<rparr>) = s\<lparr>mem := m', ch_X := 5, ch_Y := ch_Y s\<rparr>"
      by (simp add: swap_framebuffers_def m'_def)
    have "m' a = m a" if "\<not> front s a" for a
      using swap_mem[of "s\<lparr>mem := m, ch_X := 5, ch_Y := ch_Y s\<rparr>" a] that m' by simp
    then have k: "screen_kept s (s\<lparr>mem := m', ch_X := 5, ch_Y := ch_Y s\<rparr>)" using off by (intro screen_kept_mem) simp
    have "scroll_line ?s1 = s\<lparr>mem := m', ch_X := 5, ch_Y := ch_Y s\<rparr>"
      using m m' by (simp add: scroll_line_def c_def[symmetric] Let_def)
    then show ?thesis using True k g w y by (simp add: eq screen_inv_def)
  qed
  then show "screen_inv (new_line s)" "screen_kept s (new_line s)" by blast+
qed

lemma write_char_ok:
  assumes inv: "screen_inv s" and f: "font_apart s ch"
  shows "screen_inv (write_char ch s)" "screen_kept s (write_char ch s)"
proof -
  have g: "geom s" "8 dvd unat (fb_width s)" "16 \<le> unat (fb_width s)" "unat (ch_Y s) + unat (char_size s) < unat (fb_height s)"
    and x: "unat (ch_X s) mod 8 = 5" "unat (ch_X s) + 8 \<le> unat (fb_width s)" using inv by (simp_all add: screen_inv_def)
  have "screen_inv (write_char ch s) \<and> screen_kept s (write_char ch s)"
  proof (cases "ch = 10")
    case True
    then show ?thesis using new_line_ok[OF g] by (simp add: write_char_def)
  next
    case False
    have P: "painted (rect_done (unat (ch_X s)) (unat (ch_Y s)) 8 0 (unat (char_size s)))
        (cell_colour s ch (unat (ch_X s)) (unat (ch_Y s))) s (draw_char ch (ch_X s) (ch_Y s) s)"
      by (rule draw_char_painted[OF g(1) x(2) _ f]) (use g(4) in simp)
    obtain m where m: "draw_char ch (ch_X s) (ch_Y s) s = s\<lparr>mem := m\<rparr>" using painted_unfold(1)[OF P] by blast
    let ?s1 = "s\<lparr>mem := m, ch_X := ch_X s + 8\<rparr>"
    have "screen_kept s (s\<lparr>mem := m, ch_X := ch_X s + 8, ch_Y := ch_Y s\<rparr>)"
      using painted_unfold(3)[OF P] m by (intro screen_kept_mem) simp
    then have k1: "screen_kept s ?s1" by simp
    have eq: "write_char ch s = (if ch_X s + 8 \<ge> fb_width s - 5 then new_line ?s1 else ?s1)"
      using False m by (simp add: write_char_def Let_def)
    have w64: "unat (fb_width s) < 2 ^ 64" by (rule unat_u64_less)
    have w5: "unat (fb_width s - 5) = unat (fb_width s) - 5" using g(3) by (simp add: unat_sub word_le_nat_alt)
    have x8: "unat (ch_X s + 8) = unat (ch_X s) + 8 \<or> unat (ch_X s) + 8 = 2 ^ 64" using x(2) w64 by (auto simp: unat_add_u64)
    show ?thesis
    proof (cases "ch_X s + 8 \<ge> fb_width s - 5")
      case True
      have "screen_inv (new_line ?s1)" "screen_kept ?s1 (new_line ?s1)" by (rule new_line_ok; use g in simp)+
      then show ?thesis using True screen_kept_trans[OF k1] by (simp add: eq)
    next
      case False
      have xx: "unat (ch_X s + 8) = unat (ch_X s) + 8" using x(2) w64 by (simp add: unat_add_u64)
      then have "unat (ch_X s) + 8 < unat (fb_width s) - 5" using False w5 by (simp add: not_le word_less_nat_alt)
      moreover obtain j where "unat (fb_width s) = 8 * j" using g(2) by (auto elim: dvdE)
      moreover obtain i where "unat (ch_X s) = 8 * i + 5" using x(1) by (metis mult_div_mod_eq)
      ultimately have "unat (ch_X s) + 16 \<le> unat (fb_width s)" by arith
      moreover have "(unat (ch_X s) + 8) mod 8 = 5" using x(1) by simp
      ultimately have "screen_inv ?s1" using g x xx by (simp add: screen_inv_def)
      then show ?thesis using False k1 by (simp add: eq)
    qed
  qed
  then show "screen_inv (write_char ch s)" "screen_kept s (write_char ch s)" by blast+
qed

section \<open>Properties\<close>

text \<open>A character is drawn as its glyph: where the cell lies on the screen and the font is not in the
  framebuffer, each pixel of the cell takes the foreground colour if the glyph's bit is set and the
  background colour if not, and every other pixel of the screen and every byte outside the buffer is
  unchanged.\<close>

theorem draw_char_glyph:
  assumes "geom s" and "unat x + 8 \<le> unat (fb_width s)" and "unat y + unat (char_size s) \<le> unat (fb_height s)"
    and "font_apart s ch"
  shows "(\<forall>a b. in_screen s a b \<longrightarrow> pixel (draw_char ch x y s) a b =
       (if unat x \<le> a \<and> a < unat x + 8 \<and> unat y \<le> b \<and> b < unat y + unat (char_size s)
        then (if glyph s ch (a - unat x) (b - unat y) then fg_colour s else bg_colour s)
        else pixel s a b)) \<and>
    (\<forall>a. off_screen s a \<longrightarrow> mem (draw_char ch x y s) a = mem s a)"
proof -
  have P: "painted (rect_done (unat x) (unat y) 8 0 (unat (char_size s))) (cell_colour s ch (unat x) (unat y)) s (draw_char ch x y s)"
    by (rule draw_char_painted) (use assms in auto)
  have "(a, b) \<in> rect_done (unat x) (unat y) 8 0 (unat (char_size s)) \<longleftrightarrow>
      unat x \<le> a \<and> a < unat x + 8 \<and> unat y \<le> b \<and> b < unat y + unat (char_size s)" for a b
    unfolding rect_done_def by (auto simp: le_iff_add)
  then show ?thesis using painted_unfold(2,3)[OF P] by (simp add: cell_colour_def)
qed

definition sample_screen :: screen_state where
  "sample_screen = tasks_state.extend (sample_tasks sample_boot)
     \<lparr>fb_address = 0xfd000000, fb_width = 32, fb_height = 40, fb_pitch = 128, fb_bpp = 32, framebuffer_size = 5120,
      back_buffer = 0x200000, char_size = 16, font_data = 0x300000, font_loaded = True, fg_colour = 0xFFFFFF,
      bg_colour = 0, ch_X = 5, ch_Y = 5, serial_text = []\<rparr>"

lemmas sample_screen_defs = sample_screen_def sample_boot_def sample_pmm_def sample_tasks_defs tasks_state.defs pmm_state.defs

lemma sample_screen_ok: "geom sample_screen" "font_apart sample_screen 65" "screen_inv sample_screen"
proof -
  show g: "geom sample_screen" by (simp add: geom_def sample_screen_defs)
  have "off_screen sample_screen (0x300000 + (scast (65 :: u8) * ucast (16 :: u8) + of_nat b))" if "b < 16" for b
  proof -
    have "scast (65 :: u8) * ucast (16 :: u8) = (1040 :: u64)" by simp
    then have "0x300000 + (scast (65 :: u8) * ucast (16 :: u8) + of_nat b) - back_buffer sample_screen = (0x100410 + of_nat b :: u64)"
      by (simp add: sample_screen_defs)
    moreover have "unat (0x100410 + of_nat b :: u64) = 0x100410 + b" using that by (simp add: unat_add_u64 unat_of_nat_u64)
    ultimately show ?thesis by (simp add: off_screen_def sample_screen_defs)
  qed
  then show "font_apart sample_screen 65" by (simp add: font_apart_def) (simp add: sample_screen_defs)
  show "screen_inv sample_screen" using g by (simp add: screen_inv_def) (simp add: sample_screen_defs)
qed

theorem draw_char_glyph_witness:
  "pixel (draw_char 65 5 5 sample_screen) 5 5 = 0 \<and> pixel (draw_char 65 5 5 sample_screen) 30 39 = pixel sample_screen 30 39"
proof -
  have "unat (5 :: u64) + 8 \<le> unat (fb_width sample_screen)" "unat (5 :: u64) + unat (char_size sample_screen) \<le> unat (fb_height sample_screen)"
    by (simp_all add: sample_screen_defs)
  from draw_char_glyph[OF sample_screen_ok(1) this sample_screen_ok(2)]
  have e: "in_screen sample_screen a b \<Longrightarrow> pixel (draw_char 65 5 5 sample_screen) a b =
       (if 5 \<le> a \<and> a < 13 \<and> 5 \<le> b \<and> b < 21
        then (if glyph sample_screen 65 (a - 5) (b - 5) then fg_colour sample_screen else bg_colour sample_screen)
        else pixel sample_screen a b)" for a b by (simp add: sample_screen_defs)
  have "in_screen sample_screen 5 5" "in_screen sample_screen 30 39" "\<not> glyph sample_screen 65 0 0" "bg_colour sample_screen = 0"
    by (simp_all add: in_screen_def glyph_def sample_screen_defs)
  then show ?thesis by (simp add: e)
qed

text \<open>Scrolling by \<open>p\<close> rows moves every pixel up by \<open>p\<close> and fills the rows that become free with the
  background. The loop runs to \<open>y = height\<close> inclusive: it also paints the row behind the last one,
  whose first byte is the first one behind the back buffer when rows have no padding.\<close>

theorem scroll_pixel_moves:
  assumes "geom s" and "unat p \<le> unat (fb_height s)"
  shows "(\<forall>x y. x < unat (fb_width s) \<longrightarrow> y \<le> unat (fb_height s) \<longrightarrow> pixel (scroll_pixel p s) x y =
       (if y + unat p < unat (fb_height s) then pixel s x (y + unat p) else bg_colour s)) \<and>
    (\<forall>a. off_screen s a \<longrightarrow> mem (scroll_pixel p s) a = mem s a)"
proof -
  note P = scroll_pixel_painted[OF assms]
  have "(x, y) \<in> rect_done 0 0 (unat (fb_width s)) 0 (Suc (unat (fb_height s))) \<longleftrightarrow> in_screen s x y" for x y
    by (auto simp: rect_done_def in_screen_def)
  then show ?thesis using painted_unfold(2,3)[OF P] by (simp add: scrolled_def in_screen_def)
qed

theorem scroll_pixel_moves_witness:
  "pixel (scroll_pixel 17 (sample_screen\<lparr>bg_colour := 0x123456\<rparr>)) 3 40 = 0x123456 \<and>
   px_addr sample_screen 0 40 = back_buffer sample_screen + framebuffer_size sample_screen"
proof -
  let ?s = "sample_screen\<lparr>bg_colour := 0x123456\<rparr>"
  have "geom ?s" "unat (17 :: u64) \<le> unat (fb_height ?s)"
    using sample_screen_ok(1) by (simp_all add: geom_def) (simp add: sample_screen_defs)
  from scroll_pixel_moves[OF this] have "pixel (scroll_pixel 17 ?s) 3 40 = bg_colour ?s"
    by (simp add: sample_screen_defs)
  then show ?thesis by (simp add: px_addr_def px_off_def sample_screen_defs)
qed



end
