(* ===== verification/Cells.thy ===== *)
theory Cells
  imports Memory
begin

text \<open>
  Little-endian cells of any width in byte memory: what a C assignment to a field of a packed structure
  writes and what reading it yields.
\<close>

definition load :: "nat \<Rightarrow> memory \<Rightarrow> u64 \<Rightarrow> 'w::len word" where
  "load n m a = fold (\<lambda>i w. w OR push_bit (8 * i) (ucast (m (a + of_nat i)))) [0..<n] 0"

definition store :: "nat \<Rightarrow> memory \<Rightarrow> u64 \<Rightarrow> 'w::len word \<Rightarrow> memory" where
  "store n m a v = (\<lambda>x. if unat (x - a) < n then ucast (drop_bit (8 * unat (x - a)) v) else m x)"

lemma load_cong: "(\<And>i. i < n \<Longrightarrow> m (a + of_nat i) = m' (a + of_nat i)) \<Longrightarrow> load n m a = load n m' a"
  unfolding load_def by (intro fold_cong) auto

lemma bit_load_fold:
  "bit (fold (\<lambda>i w. w OR push_bit (8 * i) (ucast (f i :: u8))) xs w0 :: 'w::len word) n \<longleftrightarrow>
     bit w0 n \<or> (\<exists>i\<in>set xs. 8 * i \<le> n \<and> n < LENGTH('w) \<and> bit (f i) (n - 8 * i))"
proof (induction xs arbitrary: w0)
  case (Cons x xs)
  have "bit (push_bit (8 * x) (ucast (f x)) :: 'w word) n \<longleftrightarrow> 8 * x \<le> n \<and> n < LENGTH('w) \<and> bit (f x) (n - 8 * x)"
    by (auto simp: bit_simps dest: bit_imp_le_length)
  with Cons show ?case by (auto simp: bit_or_iff)
qed simp

lemma load_store_same:
  fixes v :: "'w::len word"
  assumes "8 * n = LENGTH('w)" "n < 2 ^ 64"
  shows "load n (store n m a v) a = v"
proof -
  have "store n m a v (a + of_nat i) = ucast (drop_bit (8 * i) v)" if "i < n" for i
    using that assms(2) by (simp add: store_def unat_of_nat_u64)
  then have "load n (store n m a v) a =
      fold (\<lambda>i w. w OR push_bit (8 * i) (ucast (ucast (drop_bit (8 * i) v) :: u8))) [0..<n] 0"
    unfolding load_def by (intro fold_cong) auto
  also have "\<dots> = v"
  proof (rule bit_word_eqI)
    fix k assume k: "k < LENGTH('w)"
    then have "k div 8 < n" using assms(1) by linarith
    with k show "bit (fold (\<lambda>i w. w OR push_bit (8 * i) (ucast (ucast (drop_bit (8 * i) v) :: u8))) [0..<n] 0 :: 'w word) k = bit v k"
      unfolding bit_load_fold by (auto simp: bit_simps intro!: bexI[of _ "k div 8"])
  qed
  finally show ?thesis .
qed

lemma store_outside: "n \<le> unat (x - a) \<Longrightarrow> store n m a v x = m x"
  by (simp add: store_def)

lemma load_store_apart:
  assumes "k \<le> unat (b - a)" "n \<le> unat (a - b)"
  shows "load n (store k m a v) b = load n m b"
proof (rule load_cong, rule store_outside)
  fix i assume i: "i < n"
  have n: "n < 2 ^ 64" using assms(2) unat_u64_less[of "a - b"] by linarith
  show "k \<le> unat (b + of_nat i - a)"
  proof (cases "k = 0")
    case False
    then have "a \<noteq> b" using assms(1) by auto
    then have "unat (a - b) + unat (b - a) = 2 ^ 64"
      using unat_u64_less[of a] unat_u64_less[of b] by (auto simp: unat_sub_if' word_unat_eq_iff)
    then have "unat (b - a) + i < 2 ^ 64" using i assms(2) by linarith
    then have "unat (b - a + of_nat i) = unat (b - a) + i" using i n by (simp add: unat_add_u64 unat_of_nat_u64)
    moreover have e: "b + of_nat i - a = b - a + of_nat i" by simp
    ultimately show ?thesis unfolding e using assms(1) by simp
  qed simp
qed

text \<open>The widths in use.\<close>

lemma load_store_width [simp]:
  "load 1 (store 1 m a (v1 :: u8)) a = v1"
  "load 2 (store 2 m a (v2 :: u16)) a = v2"
  "load 4 (store 4 m a (v4 :: u32)) a = v4"
  "load 8 (store 8 m a (v8 :: u64)) a = v8"
  by (rule load_store_same; simp)+

end
