(* ===== verification/Descriptors.thy ===== *)
theory Descriptors
  imports Cells PMM
begin

text \<open>
  The processor's descriptor tables (\<open>src/src/cpu/gdt.c\<close>, \<open>src/src/cpu/idt.c\<close>, \<open>src/src/cpu/tss.c\<close>): encoding of segment
  descriptors and interrupt gates, and the tables the kernel loads. The decoding functions read the
  fields where the processor does; the properties say that the tables hold what the code meant to
  put there.
\<close>

section \<open>State\<close>

text \<open>\<open>tss_at\<close> is \<open>&kernel.tss\<close>; \<open>rsp0\<close> the field of the task state segment the kernel sets.\<close>

record cpu_state = pmm_state +
  gdtr_size :: u16
  gdtr_offset :: u64
  idtr_size :: u16
  idtr_offset :: u64
  tss_at :: u64
  rsp0 :: u64

section \<open>Segment descriptors\<close>

definition create_gdt_entry :: "u64 \<Rightarrow> u64 \<Rightarrow> u64 \<Rightarrow> u64 \<Rightarrow> u64" where
  "create_gdt_entry base limit access flags =
     (let base1 = base AND 0xFFFF; base2 = drop_bit 16 base AND 0xFF; base3 = drop_bit 24 base AND 0xFF;
          limit1 = limit AND 0xFFFF; limit2 = drop_bit 16 limit;
          entry = 0;
          entry = entry OR limit1;
          entry = entry OR push_bit 48 limit2;
          entry = entry OR push_bit 16 base1;
          entry = entry OR push_bit 32 base2;
          entry = entry OR push_bit 56 base3;
          entry = entry OR push_bit 40 access;
          entry = entry OR push_bit 52 flags
      in entry)"

text \<open>The two words of a system segment descriptor.\<close>

definition system_segment_words :: "u64 \<Rightarrow> u64 \<Rightarrow> u64 \<Rightarrow> u64 \<Rightarrow> u64 \<times> u64" where
  "system_segment_words base limit access flags =
     (let limit1 = limit AND 0xFFFF; limit2 = drop_bit 16 limit AND 15;
          base1 = base AND 0xFFFF; base2 = drop_bit 16 base AND 0xFF; base3 = drop_bit 24 base AND 0xFF;
          base4 = drop_bit 32 base AND 0xFFFFFFFF;
          e = 0;
          e = e OR limit1;
          e = e OR push_bit 16 base1;
          e = e OR push_bit 32 base2;
          e = e OR push_bit 40 access;
          e = e OR push_bit 48 (limit2 AND 0xF);
          e = e OR push_bit 52 (flags AND 0xF);
          e = e OR push_bit 56 base3
      in (e, base4))"

definition create_system_segment_descriptor ::
  "u64 \<Rightarrow> u8 \<Rightarrow> u64 \<Rightarrow> u64 \<Rightarrow> u64 \<Rightarrow> u64 \<Rightarrow> memory \<Rightarrow> memory" where
  "create_system_segment_descriptor GDT idx base limit access flags m =
     (let (lo, hi) = system_segment_words base limit access flags;
          m = store 8 m (GDT + ucast idx * 8) lo
      in store 8 m (GDT + (ucast idx + 1) * 8) hi)"

definition sizeof_TSS :: u64 where "sizeof_TSS = 4 + 8 + 23 * 4"

definition init_GDT :: "'a cpu_state_scheme \<Rightarrow> 'a cpu_state_scheme result" where
  "init_GDT s =
     res_bind (kmalloc 1 s) (\<lambda>(a, s).
       let GDT = a + hhdm s; m = mem s;
           m = store 8 m (GDT + 0 * 8) (create_gdt_entry 0 0 0 0);
           m = store 8 m (GDT + 1 * 8) (create_gdt_entry 0 0 0x9A 0x2);
           m = store 8 m (GDT + 2 * 8) (create_gdt_entry 0 0 0x92 0);
           m = store 8 m (GDT + 3 * 8) (create_gdt_entry 0 0 0xFA 0x2);
           m = store 8 m (GDT + 4 * 8) (create_gdt_entry 0 0 0xF2 0);
           m = create_system_segment_descriptor GDT 5 (tss_at s) (sizeof_TSS - 1) 0x89 0 m
       in Inr (s\<lparr>mem := m, gdtr_size := 8 * 7 - 1, gdtr_offset := GDT\<rparr>))"

definition init_TSS :: "'a cpu_state_scheme \<Rightarrow> 'a cpu_state_scheme" where
  "init_TSS s = s\<lparr>rsp0 := 0xFFFFFFFFFFFFF000\<rparr>"

section \<open>Interrupt gates\<close>

text \<open>The packed structure \<open>IDTEntry\<close> is 16 bytes long, with \<open>offset1\<close> at byte 0, \<open>segment_selector\<close> at 2,
  \<open>flags\<close> at 5, \<open>offset2\<close> at 6 and \<open>offset3\<close> at 8.\<close>

definition set_IDT_entry :: "u32 \<Rightarrow> u64 \<Rightarrow> u8 \<Rightarrow> u64 \<Rightarrow> memory \<Rightarrow> memory" where
  "set_IDT_entry vector isr flags IDT m =
     (let e = IDT + ucast vector * 16;
          m = store 2 m e (ucast isr :: u16);
          m = store 2 m (e + 6) (ucast (drop_bit 16 isr) :: u16);
          m = store 4 m (e + 8) (ucast (drop_bit 32 isr) :: u32);
          m = store 1 m (e + 5) flags
      in store 2 m (e + 2) (0x08 :: u16))"

text \<open>The handlers \<open>init_IDT\<close> installs, with their vectors, in the order of the code; their addresses are the
  linker's.\<close>

datatype isr_name = spurious_irq | timer_isr | divideException | debugException | breakpointException
  | overflowException | boundRangeExceededException | invalidOpcodeException | deviceNotAvaliableException
  | doubleFaultException | coprocessorSegmentOverrunException | invalidTSSException
  | segmentNotPresentException | stackSegmentFaultException | generalProtectionFaultException
  | pageFaultException | floatingPointException | alignmentCheckException | machineCheckException
  | simdFloatingPointException | virtualisationException

definition idt_gates :: "(u32 \<times> isr_name) list" where
  "idt_gates =
     [(0xFF, spurious_irq), (40, timer_isr), (0, divideException), (1, debugException), (3, breakpointException),
      (4, overflowException), (5, boundRangeExceededException), (6, invalidOpcodeException),
      (7, deviceNotAvaliableException), (8, doubleFaultException), (9, coprocessorSegmentOverrunException),
      (10, invalidTSSException), (11, segmentNotPresentException), (12, stackSegmentFaultException),
      (13, generalProtectionFaultException), (14, pageFaultException), (16, floatingPointException),
      (17, alignmentCheckException), (18, machineCheckException), (19, simdFloatingPointException),
      (20, virtualisationException)]"

definition init_IDT :: "(isr_name \<Rightarrow> u64) \<Rightarrow> 'a cpu_state_scheme \<Rightarrow> 'a cpu_state_scheme result" where
  "init_IDT isr_addr s =
     res_bind (kmalloc 1 s) (\<lambda>(a, s).
       let IDT = a + hhdm s;
           m = fold (\<lambda>(v, n). set_IDT_entry v (isr_addr n) 0x8E IDT) idt_gates (mem s)
       in Inr (s\<lparr>mem := m, idtr_size := 16 * 256 - 1, idtr_offset := IDT\<rparr>))"

section \<open>What the processor reads\<close>

definition desc_base :: "u64 \<Rightarrow> u64" where
  "desc_base e = take_bit 24 (drop_bit 16 e) OR push_bit 24 (drop_bit 56 e)"

definition desc_limit :: "u64 \<Rightarrow> u64" where
  "desc_limit e = take_bit 16 e OR push_bit 16 (take_bit 4 (drop_bit 48 e))"

definition desc_access :: "u64 \<Rightarrow> u64" where
  "desc_access e = take_bit 8 (drop_bit 40 e)"

definition desc_flags :: "u64 \<Rightarrow> u64" where
  "desc_flags e = take_bit 4 (drop_bit 52 e)"

definition gate_handler :: "memory \<Rightarrow> u64 \<Rightarrow> u32 \<Rightarrow> u64" where
  "gate_handler m IDT v =
     (let e = IDT + ucast v * 16 in
      ucast (load 2 m e :: u16) OR push_bit 16 (ucast (load 2 m (e + 6) :: u16)) OR
      push_bit 32 (ucast (load 4 m (e + 8) :: u32)))"

definition gate_flags :: "memory \<Rightarrow> u64 \<Rightarrow> u32 \<Rightarrow> u8" where
  "gate_flags m IDT v = load 1 m (IDT + ucast v * 16 + 5)"

definition gate_selector :: "memory \<Rightarrow> u64 \<Rightarrow> u32 \<Rightarrow> u16" where
  "gate_selector m IDT v = load 2 m (IDT + ucast v * 16 + 2)"

section \<open>Lemmas\<close>

lemma bit_small: "(x :: u64) < 2 ^ n \<Longrightarrow> n < 64 \<Longrightarrow> bit x k \<Longrightarrow> k < n"
  by (metis bit_take_bit_iff less_mask_eq take_bit_eq_mask)


lemma and_masks:
  "(x :: u64) AND 0xFFFF = take_bit 16 x" "x AND 0xFF = take_bit 8 x" "x AND 0xF = take_bit 4 x"
  "x AND 0xFFFFFFFF = take_bit 32 x"
  by (simp_all add: take_bit_eq_mask mask_eq_exp_minus_1)

text \<open>The bits of a descriptor, field by field.\<close>

lemma gdt_entry_bits:
  assumes "base < 2 ^ 32" "limit < 2 ^ 20" "access < 2 ^ 8" "flags < 2 ^ 4"
  shows "n < 16 \<Longrightarrow> bit (create_gdt_entry base limit access flags) n = bit limit n"
    "16 \<le> n \<Longrightarrow> n < 40 \<Longrightarrow> bit (create_gdt_entry base limit access flags) n = bit base (n - 16)"
    "40 \<le> n \<Longrightarrow> n < 48 \<Longrightarrow> bit (create_gdt_entry base limit access flags) n = bit access (n - 40)"
    "48 \<le> n \<Longrightarrow> n < 52 \<Longrightarrow> bit (create_gdt_entry base limit access flags) n = bit limit (n - 32)"
    "52 \<le> n \<Longrightarrow> n < 56 \<Longrightarrow> bit (create_gdt_entry base limit access flags) n = bit flags (n - 52)"
    "56 \<le> n \<Longrightarrow> n < 64 \<Longrightarrow> bit (create_gdt_entry base limit access flags) n = bit base (n - 32)"
proof -
  have z: "\<not> bit base k" if "32 \<le> k" for k using bit_small[of base 32 k] assms(1) that by auto
  have z2: "\<not> bit limit k" if "20 \<le> k" for k using bit_small[of limit 20 k] assms(2) that by auto
  have z3: "\<not> bit access k" if "8 \<le> k" for k using bit_small[of access 8 k] assms(3) that by auto
  have z4: "\<not> bit flags k" if "4 \<le> k" for k using bit_small[of flags 4 k] assms(4) that by auto
  note D = create_gdt_entry_def Let_def and_masks bit_or_iff bit_push_bit_iff bit_take_bit_iff bit_drop_bit_eq comp_def bit_0_eq
  show "n < 16 \<Longrightarrow> bit (create_gdt_entry base limit access flags) n = bit limit n"
    unfolding D by auto
  show "16 \<le> n \<Longrightarrow> n < 40 \<Longrightarrow> bit (create_gdt_entry base limit access flags) n = bit base (n - 16)"
    unfolding D by (cases "n < 32") auto
  show "40 \<le> n \<Longrightarrow> n < 48 \<Longrightarrow> bit (create_gdt_entry base limit access flags) n = bit access (n - 40)"
    unfolding D by auto
  show "48 \<le> n \<Longrightarrow> n < 52 \<Longrightarrow> bit (create_gdt_entry base limit access flags) n = bit limit (n - 32)"
    unfolding D using z3[of "n - 40"] by auto
  show "52 \<le> n \<Longrightarrow> n < 56 \<Longrightarrow> bit (create_gdt_entry base limit access flags) n = bit flags (n - 52)"
    unfolding D using z3[of "n - 40"] z2[of "n - 32"] by auto
  show "56 \<le> n \<Longrightarrow> n < 64 \<Longrightarrow> bit (create_gdt_entry base limit access flags) n = bit base (n - 32)"
    unfolding D using z3[of "n - 40"] z2[of "n - 32"] z4[of "n - 52"] by auto
qed


lemma gdt_entry_fields:
  assumes "base < 2 ^ 32" and "limit < 2 ^ 20" and "access < 2 ^ 8" and "flags < 2 ^ 4"
  shows "desc_base (create_gdt_entry base limit access flags) = base \<and>
    desc_limit (create_gdt_entry base limit access flags) = limit \<and>
    desc_access (create_gdt_entry base limit access flags) = access \<and>
    desc_flags (create_gdt_entry base limit access flags) = flags"
proof (intro conjI; rule bit_word_eqI)
  let ?e = "create_gdt_entry base limit access flags"
  note B = gdt_entry_bits[OF assms]
  note D = bit_or_iff bit_push_bit_iff bit_take_bit_iff bit_drop_bit_eq comp_def
  have hi: "\<not> bit ?e k" if "64 \<le> k" for k using that bit_imp_le_length[of ?e k] by auto
  fix n assume n: "n < LENGTH(64)"
  consider "n < 24" | "24 \<le> n" "n < 32" | "32 \<le> n" by linarith
  then show "bit (desc_base ?e) n = bit base n"
    unfolding desc_base_def D using n B(2)[of "n + 16"] B(6)[of "n + 32"] hi[of "n + 32"] bit_small[OF assms(1), of n]
    by cases (auto simp: add.commute)
  consider "n < 16" | "16 \<le> n" "n < 20" | "20 \<le> n" by linarith
  then show "bit (desc_limit ?e) n = bit limit n"
    unfolding desc_limit_def D using n B(1)[of n] B(4)[of "n + 32"] bit_small[OF assms(2), of n]
    by cases (auto simp: add.commute)
  show "bit (desc_access ?e) n = bit access n"
    unfolding desc_access_def D using n B(3)[of "n + 40"] bit_small[OF assms(3), of n] by (auto simp: add.commute)
  show "bit (desc_flags ?e) n = bit flags n"
    unfolding desc_flags_def D using n B(5)[of "n + 52"] bit_small[OF assms(4), of n] by (auto simp: add.commute)
qed

text \<open>A segment descriptor says what it was made from: base, limit, access byte and flags read back as the
  processor reads them, for every 32-bit base, 20-bit limit, 8-bit access and 4-bit flags.\<close>

theorem gdt_entry_roundtrip:
  assumes "base < 2 ^ 32" and "limit < 2 ^ 20" and "access < 2 ^ 8" and "flags < 2 ^ 4"
  shows "desc_base (create_gdt_entry base limit access flags) = base \<and>
    desc_limit (create_gdt_entry base limit access flags) = limit \<and>
    desc_access (create_gdt_entry base limit access flags) = access \<and>
    desc_flags (create_gdt_entry base limit access flags) = flags"
  by (rule gdt_entry_fields[OF assms])

theorem gdt_entry_roundtrip_witness:
  "desc_access (create_gdt_entry 0x12345678 0xABCDE 0x9A 0xC) = 0x9A \<and> desc_base (create_gdt_entry 0x12345678 0xABCDE 0x9A 0xC) = 0x12345678"
  using gdt_entry_roundtrip[of "0x12345678" "0xABCDE" "0x9A" "0xC"] by simp


section \<open>The interrupt table\<close>

lemma set_gate_bytes:
  "16 \<le> unat (x - (IDT + ucast v * 16)) \<Longrightarrow> set_IDT_entry v isr flags IDT m x = m x"
proof -
  let ?e = "IDT + ucast v * 16"
  assume x: "16 \<le> unat (x - ?e)"
  have "k \<le> unat (x - (?e + of_nat j))" if "j + k \<le> 16" for j k
  proof -
    have e: "x - (?e + of_nat j) = (x - ?e) - of_nat j" by (simp add: diff_diff_eq)
    have "unat (of_nat j :: u64) = j" using that by (intro unat_of_nat_u64) simp
    then have "unat (x - ?e - of_nat j) = unat (x - ?e) - j" using x that by (subst unat_sub) (auto simp: word_le_nat_alt)
    then show ?thesis unfolding e using x that by simp
  qed
  from this[of 0 2] this[of 6 2] this[of 8 4] this[of 5 1] this[of 2 2] show ?thesis
    by (simp add: set_IDT_entry_def Let_def store_outside)
qed

lemma gate_apart:
  fixes IDT :: u64 and v w :: u32
  assumes "v < 256" "w < 256" "v \<noteq> w" "j < 16"
  shows "16 \<le> unat (IDT + ucast w * 16 + of_nat j - (IDT + ucast (v :: u32) * 16))"
proof -
  have u: "unat (ucast z :: u64) = unat z" "unat z < 256" if "z < 256" for z :: u32
    using that by (simp_all add: unsigned_ucast_eq word_less_nat_alt take_bit_nat_eq_self_iff)
  have m: "unat (ucast z * 16 + of_nat i :: u64) = unat z * 16 + i" if "z < 256" "i < 16" for z :: u32 and i
    using u[OF that(1)] that(2) by (subst unat_add_u64) (simp_all add: unat_mult_u64 unat_of_nat_u64)
  have ne: "unat v \<noteq> unat w" using assms(3) by (simp add: word_unat_eq_iff)
  have e: "IDT + ucast w * 16 + of_nat j - (IDT + ucast v * 16) = (ucast w * 16 + of_nat j) - ucast v * (16 :: u64)" by simp
  have "unat (ucast w * 16 + of_nat j :: u64) = unat w * 16 + j" "unat (ucast v * 16 :: u64) = unat v * 16"
    using m[OF assms(2,4)] m[OF assms(1), of 0] by simp_all
  then show ?thesis unfolding e unat_sub_if' using u(2)[OF assms(1)] u(2)[OF assms(2)] ne assms(4) by auto
qed

lemma gate_cong:
  assumes "\<And>j. j < 16 \<Longrightarrow> m (IDT + ucast v * 16 + of_nat j) = m' (IDT + ucast v * 16 + of_nat j)"
  shows "gate_handler m IDT v = gate_handler m' IDT v" "gate_flags m IDT v = gate_flags m' IDT v"
    "gate_selector m IDT v = gate_selector m' IDT v"
proof -
  have l: "load n m (IDT + ucast v * 16 + of_nat k) = load n m' (IDT + ucast v * 16 + of_nat k)" if "k + n \<le> 16" for n k
    using assms that by (intro load_cong) (simp add: add.assoc flip: of_nat_add)
  note L = l[of 0 2, simplified] l[of 6 2, simplified] l[of 8 4, simplified] l[of 5 1, simplified] l[of 2 2, simplified]
  show "gate_handler m IDT v = gate_handler m' IDT v" "gate_flags m IDT v = gate_flags m' IDT v"
    "gate_selector m IDT v = gate_selector m' IDT v"
    by (simp_all add: gate_handler_def gate_flags_def gate_selector_def Let_def L)
qed

lemma set_gate_same:
  "gate_handler (set_IDT_entry v isr flags IDT m) IDT v = isr"
  "gate_flags (set_IDT_entry v isr flags IDT m) IDT v = flags"
  "gate_selector (set_IDT_entry v isr flags IDT m) IDT v = 8"
proof -
  define e where "e = IDT + ucast v * 16"
  note D = e_def[symmetric] Let_def
  note L = load_store_apart diff_diff_eq
  have "unat (- 1 :: u64) = 2 ^ 64 - 1" using unat_sub_if'[of 0 "1 :: u64"] by simp
  then have f: "load 2 (store 1 m' (e + 5) flags) (e + 6) = (load 2 m' (e + 6) :: u16)" for m'
    by (intro load_store_apart) simp_all
  have r: "ucast (ucast isr :: u16) OR push_bit 16 (ucast (ucast (drop_bit 16 isr) :: u16)) OR
      push_bit 32 (ucast (ucast (drop_bit 32 isr) :: u32)) = isr"
  proof (rule bit_word_eqI)
    fix n assume n: "n < LENGTH(64)"
    consider "n < 16" | "16 \<le> n" "n < 32" | "32 \<le> n" by linarith
    then show "bit (ucast (ucast isr :: u16) OR push_bit 16 (ucast (ucast (drop_bit 16 isr) :: u16)) OR
      push_bit 32 (ucast (ucast (drop_bit 32 isr) :: u32)) :: u64) n = bit isr n"
      using n by cases (auto simp: bit_or_iff bit_push_bit_iff bit_unsigned_iff bit_drop_bit_eq)
  qed
  show "gate_handler (set_IDT_entry v isr flags IDT m) IDT v = isr"
    unfolding gate_handler_def set_IDT_entry_def D using r f by (simp add: L)
  show "gate_flags (set_IDT_entry v isr flags IDT m) IDT v = flags"
    unfolding gate_flags_def set_IDT_entry_def D by (simp add: L load_store_same)
  show "gate_selector (set_IDT_entry v isr flags IDT m) IDT v = 8"
    unfolding gate_selector_def set_IDT_entry_def D by (simp add: L)
qed


definition install :: "('n \<Rightarrow> u64) \<Rightarrow> u8 \<Rightarrow> u64 \<Rightarrow> (u32 \<times> 'n) list \<Rightarrow> memory \<Rightarrow> memory" where
  "install isr_addr fl IDT gs m = fold (\<lambda>(v, n). set_IDT_entry v (isr_addr n) fl IDT) gs m"

lemma install_simps [simp]:
  "install isr_addr fl IDT [] m = m"
  "install isr_addr fl IDT ((v, n) # gs) m = install isr_addr fl IDT gs (set_IDT_entry v (isr_addr n) fl IDT m)"
  by (simp_all add: install_def)

lemma install_other:
  "\<forall>v \<in> fst ` set gs. v < 256 \<Longrightarrow> w < 256 \<Longrightarrow> w \<notin> fst ` set gs \<Longrightarrow> j < 16 \<Longrightarrow>
     install isr_addr fl IDT gs m (IDT + ucast w * 16 + of_nat j) = m (IDT + ucast w * 16 + of_nat j)"
proof (induction gs arbitrary: m)
  case (Cons g gs)
  obtain v n where g: "g = (v, n)" by (cases g)
  have "set_IDT_entry v (isr_addr n) fl IDT m (IDT + ucast w * 16 + of_nat j) = m (IDT + ucast w * 16 + of_nat j)"
    using Cons.prems g by (intro set_gate_bytes gate_apart) auto
  then show ?case using Cons g by simp
qed simp

lemma install_gates:
  "distinct (map fst gs) \<Longrightarrow> \<forall>v \<in> fst ` set gs. v < 256 \<Longrightarrow> (v, n) \<in> set gs \<Longrightarrow>
     gate_handler (install isr_addr fl IDT gs m) IDT v = isr_addr n \<and>
     gate_flags (install isr_addr fl IDT gs m) IDT v = fl \<and> gate_selector (install isr_addr fl IDT gs m) IDT v = 8"
proof (induction gs arbitrary: m)
  case (Cons g gs)
  obtain v' n' where g: "g = (v', n')" by (cases g)
  let ?m = "set_IDT_entry v' (isr_addr n') fl IDT m"
  show ?case
  proof (cases "(v, n) \<in> set gs")
    case True
    then show ?thesis using Cons.IH[of ?m] Cons.prems g by simp
  next
    case False
    then have v: "v' = v" "n' = n" and out: "v < 256" "v \<notin> fst ` set gs" using Cons.prems g by auto
    have "install isr_addr fl IDT gs ?m (IDT + ucast v * 16 + of_nat j) = ?m (IDT + ucast v * 16 + of_nat j)" if "j < 16" for j
      using Cons.prems(2) out that by (intro install_other) auto
    note C = gate_cong[of "install isr_addr fl IDT gs ?m" IDT v ?m, OF this]
    show ?thesis using C set_gate_same[of v "isr_addr n" fl IDT m] g v by simp
  qed
qed simp

text \<open>The interrupt table holds the gates the code lists: after \<open>init_IDT\<close> each listed vector decodes to
  the full 64-bit address of its handler, with the kernel's code selector and the flags of an interrupt
  gate, and every other vector is marked not present.\<close>

theorem init_IDT_gates:
  assumes "pmm_wf s" and "init_IDT isr_addr s = Inr s'"
  shows "(\<forall>(v, n) \<in> set idt_gates. gate_handler (mem s') (idtr_offset s') v = isr_addr n \<and>
       gate_flags (mem s') (idtr_offset s') v = 0x8E \<and> gate_selector (mem s') (idtr_offset s') v = 8) \<and>
    (\<forall>v. v < 256 \<longrightarrow> v \<notin> fst ` set idt_gates \<longrightarrow> gate_flags (mem s') (idtr_offset s') v = 0) \<and>
    idtr_size s' = 4095"
proof -
  obtain a s1 where k: "kmalloc 1 s = Inr (a, s1)" using assms(2) by (auto simp: init_IDT_def result_simps)
  define IDT where "IDT = a + hhdm s1"
  have h: "hhdm s1 = hhdm s" using kmalloc_frame[OF assms(1) k] by auto
  have m: "mem s' = install isr_addr 0x8E IDT idt_gates (mem s1)"
    "idtr_offset s' = IDT" "idtr_size s' = 4095" using assms(2) k by (auto simp: init_IDT_def IDT_def Let_def install_def)
  have ok: "distinct (map fst idt_gates)" "\<forall>v \<in> fst ` set idt_gates. v < 256" by (simp_all add: idt_gates_def)
  have z: "mem s1 (IDT + ucast v * 16 + of_nat 5) = 0" if "v < 256" for v :: u32
  proof -
    have "unat (ucast v :: u64) = unat v" "unat v < 256"
      using that by (simp_all add: unsigned_ucast_eq word_less_nat_alt take_bit_nat_eq_self_iff)
    then have "unat (ucast v * 16 + of_nat 5 :: u64) < 4096" by (subst unat_add_u64) (simp_all add: unat_mult_u64)
    then have "IDT + ucast v * 16 + of_nat 5 - (a + hhdm s) < 1 * 4096" by (simp add: IDT_def h word_less_nat_alt)
    then show ?thesis by (intro kmalloc_zeroes[OF assms(1) k])
  qed
  have "gate_flags (mem s') IDT v = 0" if "v < 256" "v \<notin> fst ` set idt_gates" for v
    using install_other[OF ok(2) that, of 5 isr_addr "0x8E" IDT "mem s1"] z[OF that(1)] m(1)
    by (simp add: gate_flags_def load_def upt_conv_Cons)
  moreover have "\<forall>(v, n) \<in> set idt_gates. gate_handler (mem s') IDT v = isr_addr n \<and>
       gate_flags (mem s') IDT v = 0x8E \<and> gate_selector (mem s') IDT v = 8"
    unfolding m(1) using install_gates[OF ok, where isr_addr = isr_addr and fl = "0x8E" and IDT = IDT and m = "mem s1"] by auto
  ultimately show ?thesis unfolding m(2,3) by blast
qed


definition sample_cpu :: cpu_state where
  "sample_cpu = pmm_state.extend sample_pmm
     \<lparr>gdtr_size = 0, gdtr_offset = 0, idtr_size = 0, idtr_offset = 0, tss_at = 0xffffffff80012345, rsp0 = 0\<rparr>"

lemma sample_cpu_kmalloc:
  "pmm_wf sample_cpu" "\<exists>s1. kmalloc 1 sample_cpu = Inr (0x101000, s1)"
proof -
  show "pmm_wf sample_cpu"
    using sample_pmm_wf by (simp add: pmm_wf_def memmap_ok_def sample_cpu_def pmm_state.defs)
  have "map_sum id fst (kmalloc 1 sample_cpu) = Inr 0x101000" by code_simp
  then show "\<exists>s1. kmalloc 1 sample_cpu = Inr (0x101000, s1)" by (cases "kmalloc 1 sample_cpu") auto
qed

theorem init_IDT_gates_witness:
  "\<exists>s'. init_IDT (\<lambda>n. if n = pageFaultException then 0xffffffff80001234 else 0) sample_cpu = Inr s' \<and>
     gate_handler (mem s') (idtr_offset s') 14 = 0xffffffff80001234 \<and> gate_flags (mem s') (idtr_offset s') 15 = 0"
proof -
  let ?i = "\<lambda>n. if n = pageFaultException then 0xffffffff80001234 else (0 :: u64)"
  obtain s' where r: "init_IDT ?i sample_cpu = Inr s'"
    using sample_cpu_kmalloc(2) by (auto simp: init_IDT_def Let_def)
  note I = init_IDT_gates[OF sample_cpu_kmalloc(1) r]
  have "(14, pageFaultException) \<in> set idt_gates" "(15 :: u32) \<notin> fst ` set idt_gates" by (simp_all add: idt_gates_def)
  then have "gate_handler (mem s') (idtr_offset s') 14 = ?i pageFaultException" "gate_flags (mem s') (idtr_offset s') 15 = 0"
    using I by (fastforce, simp)
  then show ?thesis using r by simp
qed

section \<open>The segment table\<close>

lemma system_segment_bits:
  assumes "access < 2 ^ 8" "(lo, hi) = system_segment_words base limit access flags"
  shows "n < 16 \<Longrightarrow> bit lo n = bit limit n"
    "16 \<le> n \<Longrightarrow> n < 40 \<Longrightarrow> bit lo n = bit base (n - 16)"
    "40 \<le> n \<Longrightarrow> n < 48 \<Longrightarrow> bit lo n = bit access (n - 40)"
    "48 \<le> n \<Longrightarrow> n < 52 \<Longrightarrow> bit lo n = bit limit (n - 32)"
    "56 \<le> n \<Longrightarrow> n < 64 \<Longrightarrow> bit lo n = bit base (n - 32)"
    "hi = drop_bit 32 base"
proof -
  have z3: "\<not> bit access k" if "8 \<le> k" for k using bit_small[of access 8 k] assms(1) that by auto
  have lo: "lo = fst (system_segment_words base limit access flags)" "hi = snd (system_segment_words base limit access flags)"
    using assms(2) by (metis fst_conv snd_conv)+
  note D = lo system_segment_words_def Let_def and_masks fst_conv snd_conv
    bit_or_iff bit_push_bit_iff bit_take_bit_iff bit_drop_bit_eq comp_def bit_0_eq
  show "n < 16 \<Longrightarrow> bit lo n = bit limit n" unfolding D by auto
  show "16 \<le> n \<Longrightarrow> n < 40 \<Longrightarrow> bit lo n = bit base (n - 16)" unfolding D by (cases "n < 32") auto
  show "40 \<le> n \<Longrightarrow> n < 48 \<Longrightarrow> bit lo n = bit access (n - 40)" unfolding D by auto
  show "48 \<le> n \<Longrightarrow> n < 52 \<Longrightarrow> bit lo n = bit limit (n - 32)" unfolding D using z3[of "n - 40"] by auto
  show "56 \<le> n \<Longrightarrow> n < 64 \<Longrightarrow> bit lo n = bit base (n - 32)" unfolding D using z3[of "n - 40"] by auto
  show "hi = drop_bit 32 base" unfolding lo system_segment_words_def Let_def and_masks snd_conv
    by (rule bit_word_eqI) (auto simp: bit_simps dest: bit_imp_le_length)
qed

text \<open>The base the processor reads from a system segment descriptor.\<close>

definition system_base :: "u64 \<Rightarrow> u64 \<Rightarrow> u64" where
  "system_base lo hi = desc_base lo OR push_bit 32 hi"

lemma system_segment_roundtrip:
  assumes "access < 2 ^ 8" "limit < 2 ^ 20" "(lo, hi) = system_segment_words base limit access flags"
  shows "system_base lo hi = base" "desc_limit lo = limit" "desc_access lo = access"
proof -
  note B = system_segment_bits[OF assms(1,3)]
  note D = bit_or_iff bit_push_bit_iff bit_take_bit_iff bit_drop_bit_eq comp_def
  show "system_base lo hi = base"
  proof (rule bit_word_eqI)
    fix n assume n: "n < LENGTH(64)"
    have hi: "\<not> bit lo k" if "64 \<le> k" for k using that bit_imp_le_length[of lo k] by auto
    consider "n < 24" | "24 \<le> n" "n < 32" | "32 \<le> n" by linarith
    then show "bit (system_base lo hi) n = bit base n"
      unfolding system_base_def desc_base_def D B(6) using n B(2)[of "n + 16"] B(5)[of "n + 32"] hi[of "n + 32"]
      by cases (auto simp: add.commute)
  qed
  show "desc_limit lo = limit"
  proof (rule bit_word_eqI)
    fix n assume n: "n < LENGTH(64)"
    consider "n < 16" | "16 \<le> n" "n < 20" | "20 \<le> n" by linarith
    then show "bit (desc_limit lo) n = bit limit n"
      unfolding desc_limit_def D using n B(1)[of n] B(4)[of "n + 32"] bit_small[OF assms(2), of n]
      by cases (auto simp: add.commute)
  qed
  show "desc_access lo = access"
    by (rule bit_word_eqI) (use B(3) bit_small[OF assms(1)] in \<open>auto simp: desc_access_def D add.commute\<close>)
qed


text \<open>The segment table is the one the kernel's selectors assume: after \<open>init_GDT\<close> the descriptors at
  selectors 0x08 and 0x18 are 64-bit code segments for ring 0 and ring 3, those at 0x10 and 0x20 are the
  data segments, the one at 0x28 is an available task state segment with the address and the size of
  \<open>kernel.tss\<close>, and the table register covers exactly these seven words.\<close>

theorem init_GDT_table:
  assumes "init_GDT s = Inr s'"
  shows "let entry = \<lambda>sel. load 8 (mem s') (gdtr_offset s' + sel) :: u64 in
    entry 0 = 0 \<and>
    desc_access (entry 0x08) = 0x9A \<and> desc_flags (entry 0x08) = 2 \<and> desc_access (entry 0x10) = 0x92 \<and>
    desc_access (entry 0x18) = 0xFA \<and> desc_flags (entry 0x18) = 2 \<and> desc_access (entry 0x20) = 0xF2 \<and>
    desc_access (entry 0x28) = 0x89 \<and> system_base (entry 0x28) (entry 0x30) = tss_at s' \<and>
    desc_limit (entry 0x28) = 103 \<and> gdtr_size s' = 55"
proof -
  obtain a s1 where k: "kmalloc 1 s = Inr (a, s1)" using assms by (auto simp: init_GDT_def result_simps)
  define G where "G = a + hhdm s1"
  obtain lo hi where w: "(lo, hi) = system_segment_words (tss_at s1) (sizeof_TSS - 1) 0x89 0" by (metis surj_pair)
  note W = system_segment_roundtrip[OF _ _ w]
  have s': "gdtr_offset s' = G" "tss_at s' = tss_at s1" "gdtr_size s' = 55"
    "mem s' = store 8 (store 8 (store 8 (store 8 (store 8 (store 8 (store 8 (mem s1) G (create_gdt_entry 0 0 0 0))
       (G + 8) (create_gdt_entry 0 0 0x9A 0x2)) (G + 16) (create_gdt_entry 0 0 0x92 0))
       (G + 24) (create_gdt_entry 0 0 0xFA 0x2)) (G + 32) (create_gdt_entry 0 0 0xF2 0)) (G + 40) lo) (G + 48) hi"
    using assms k w[symmetric] by (auto simp: init_GDT_def create_system_segment_descriptor_def Let_def G_def add.assoc)
  have e: "load 8 (mem s') G = create_gdt_entry 0 0 0 0" "load 8 (mem s') (G + 8) = create_gdt_entry 0 0 0x9A 0x2"
    "load 8 (mem s') (G + 16) = create_gdt_entry 0 0 0x92 0" "load 8 (mem s') (G + 24) = create_gdt_entry 0 0 0xFA 0x2"
    "load 8 (mem s') (G + 32) = create_gdt_entry 0 0 0xF2 0" "load 8 (mem s') (G + 40) = lo" "load 8 (mem s') (G + 48) = hi"
    unfolding s'(4) by (simp_all add: load_store_apart)
  have d: "create_gdt_entry 0 0 0 0 = 0" by (simp add: create_gdt_entry_def)
  show ?thesis
    unfolding Let_def s'(1-3) add_0_right e
    using gdt_entry_fields[of 0 0 "0x9A" 2] gdt_entry_fields[of 0 0 "0x92" 0] gdt_entry_fields[of 0 0 "0xFA" 2]
      gdt_entry_fields[of 0 0 "0xF2" 0] W d by (simp add: sizeof_TSS_def)
qed

theorem init_GDT_table_witness:
  "\<exists>s'. init_GDT sample_cpu = Inr s' \<and> desc_access (load 8 (mem s') (gdtr_offset s' + 0x28)) = 0x89"
proof -
  obtain s' where "init_GDT sample_cpu = Inr s'" using sample_cpu_kmalloc(2) by (auto simp: init_GDT_def Let_def)
  with init_GDT_table[OF this] show ?thesis by (auto simp: Let_def)
qed

end
