(* ===== verification/TempFS.thy ===== *)
theory TempFS
  imports Screen
begin

text \<open>
  The in-memory file system (\<open>src/src/fs/tempfs.c\<close>): a directory is a linked list of entries, a file a
  linked list of nodes of 4088 bytes, all on the kernel heap. A C string stands for its text.

  \<open>dir_rep\<close> relates a directory to the list of its entries; \<open>tempfs_find\<close> is shown to search that list and
  \<open>tempfs_addentry\<close> to append to it, so a directory is an instance of the interface \<open>name_table\<close>. Calls
  through the function pointers of a device go to the parameter \<open>D\<close>.
\<close>

section \<open>State\<close>

record DeviceOps =
  op_read :: u64
  op_write :: u64
  op_open :: u64
  op_close :: u64

definition null_ops :: DeviceOps where
  "null_ops = \<lparr>op_read = 0, op_write = 0, op_open = 0, op_close = 0\<rparr>"

record DirEntryNode =
  de_is_dir :: bool
  de_inode :: u64
  de_next :: u64

text \<open>The union of \<open>file_first_node\<close> and \<open>dir_first_node\<close> is the one field \<open>i_first\<close>.\<close>

record Inode =
  filename :: string
  size_pages :: u64
  i_length :: u64
  i_is_dir :: bool
  i_type :: u8
  operations :: DeviceOps
  i_private :: u64
  i_first :: u64
  num_entries :: u64

text \<open>The data of a \<open>FileNode\<close> at address \<open>n\<close> are the bytes \<open>n\<close> to \<open>n + 4087\<close> of memory; \<open>fnode_next\<close> is its
  last member.\<close>

record fs_state = screen_state +
  inodes :: "u64 \<Rightarrow> Inode"
  dirnodes :: "u64 \<Rightarrow> DirEntryNode"
  fnode_next :: "u64 \<Rightarrow> u64"

record 's device_calls =
  call_rw :: "u64 \<Rightarrow> u64 \<Rightarrow> u64 \<Rightarrow> u64 \<Rightarrow> 's \<Rightarrow> (32 word \<times> 's) result"
  call_open :: "u64 \<Rightarrow> u64 \<Rightarrow> u8 \<Rightarrow> 's \<Rightarrow> 's result"
  call_close :: "u64 \<Rightarrow> u64 \<Rightarrow> 's \<Rightarrow> 's result"

definition FILENODE_DATA_SIZE :: u64 where "FILENODE_DATA_SIZE = 4088"
definition FILETYPE_DEVICE :: u8 where "FILETYPE_DEVICE = 1"
definition sizeof_Inode :: u64 where "sizeof_Inode = 104"
definition sizeof_DirEntryNode :: u64 where "sizeof_DirEntryNode = 24"
definition sizeof_FileNode :: u64 where "sizeof_FileNode = 4096"

definition zero_Inode :: Inode where
  "zero_Inode = \<lparr>filename = [], size_pages = 0, i_length = 0, i_is_dir = False, i_type = 0, operations = null_ops,
     i_private = 0, i_first = 0, num_entries = 0\<rparr>"

definition zero_DirEntryNode :: DirEntryNode where
  "zero_DirEntryNode = \<lparr>de_is_dir = False, de_inode = 0, de_next = 0\<rparr>"

definition upd_inode :: "u64 \<Rightarrow> (Inode \<Rightarrow> Inode) \<Rightarrow> 'a fs_state_scheme \<Rightarrow> 'a fs_state_scheme" where
  "upd_inode p f s = s\<lparr>inodes := (inodes s)(p := f (inodes s p))\<rparr>"

definition upd_dirnode :: "u64 \<Rightarrow> (DirEntryNode \<Rightarrow> DirEntryNode) \<Rightarrow> 'a fs_state_scheme \<Rightarrow> 'a fs_state_scheme" where
  "upd_dirnode p f s = s\<lparr>dirnodes := (dirnodes s)(p := f (dirnodes s p))\<rparr>"

definition get_inode :: "u64 \<Rightarrow> 'a fs_state_scheme \<Rightarrow> Inode result" where
  "get_inode p s = (if p = 0 then Inl NullDeref else Inr (inodes s p))"

definition get_dirnode :: "u64 \<Rightarrow> 'a fs_state_scheme \<Rightarrow> DirEntryNode result" where
  "get_dirnode p s = (if p = 0 then Inl NullDeref else Inr (dirnodes s p))"

section \<open>Directories\<close>

primrec walk_entries :: "nat \<Rightarrow> u64 \<Rightarrow> 'a fs_state_scheme \<Rightarrow> u64 result" where
  "walk_entries 0 this_entry s = Inr this_entry"
| "walk_entries (Suc k) this_entry s =
     res_bind (get_dirnode this_entry s) (\<lambda>n. walk_entries k (de_next n) s)"

text \<open>The name goes into an array of 20 characters; 20 or more leave no room for the terminator.\<close>

definition tempfs_addentry ::
  "u64 \<Rightarrow> string \<Rightarrow> bool \<Rightarrow> 'a fs_state_scheme \<Rightarrow> (u64 \<times> 'a fs_state_scheme) result" where
  "tempfs_addentry cur_dir dirname is_dir s =
     res_bind (get_inode cur_dir s) (\<lambda>dir.
     let this_entry = i_first dir in
     res_bind (malloc sizeof_Inode s) (\<lambda>(inode_new, s).
     res_bind (malloc sizeof_DirEntryNode s) (\<lambda>(new_entry, s).
     let s = upd_dirnode new_entry (\<lambda>_. zero_DirEntryNode) s;
         s = upd_inode inode_new (\<lambda>_. zero_Inode) s in
     res_bind
       (if this_entry \<noteq> 0 then
          res_bind (walk_entries (unat (num_entries (inodes s cur_dir))) this_entry s) (\<lambda>this_entry.
          if this_entry = 0 then Inl NullDeref
          else Inr (upd_dirnode this_entry (\<lambda>n. n\<lparr>de_next := new_entry\<rparr>) s))
        else Inr (upd_inode cur_dir (\<lambda>i. i\<lparr>i_first := new_entry\<rparr>) s)) (\<lambda>s.
     if length dirname \<ge> 20 then Inl OutOfBounds
     else
       (let s = upd_inode inode_new (\<lambda>i. i\<lparr>filename := dirname\<rparr>) s;
            s = upd_inode inode_new (\<lambda>i. i\<lparr>i_is_dir := is_dir\<rparr>) s;
            s = upd_dirnode new_entry (\<lambda>n. n\<lparr>de_inode := inode_new\<rparr>) s;
            s = upd_inode cur_dir (\<lambda>i. i\<lparr>num_entries := num_entries i + 1\<rparr>) s
        in Inr (de_inode (dirnodes s new_entry), s))))))"

definition tempfs_mkdir_nonlinear ::
  "u64 \<Rightarrow> string \<Rightarrow> u64 \<Rightarrow> 'a fs_state_scheme \<Rightarrow> 'a fs_state_scheme result" where
  "tempfs_mkdir_nonlinear cur_dir dirname first_dir_entry s =
     res_bind (tempfs_addentry cur_dir dirname True s) (\<lambda>(new_inode, s).
       Inr (upd_inode new_inode (\<lambda>i. i\<lparr>i_first := first_dir_entry\<rparr>) s))"

text \<open>\<open>tempfs_new\<close> does not clear what \<open>malloc\<close> returns: the root's \<open>num_entries\<close> is whatever was there.\<close>

definition tempfs_new :: "'a fs_state_scheme \<Rightarrow> (u64 \<times> 'a fs_state_scheme) result" where
  "tempfs_new s =
     res_bind (malloc sizeof_Inode s) (\<lambda>(root_inode, s).
     res_bind (malloc sizeof_DirEntryNode s) (\<lambda>(node, s).
     let s = upd_inode root_inode (\<lambda>i. i\<lparr>i_first := node\<rparr>) s in
     res_bind (malloc sizeof_Inode s) (\<lambda>(first_inode, s).
     let s = upd_dirnode node (\<lambda>n. n\<lparr>de_inode := first_inode\<rparr>) s;
         s = upd_dirnode node (\<lambda>n. n\<lparr>de_is_dir := True\<rparr>) s;
         s = upd_inode first_inode (\<lambda>i. i\<lparr>filename := ''.''\<rparr>) s;
         s = upd_inode first_inode (\<lambda>i. i\<lparr>i_is_dir := True\<rparr>) s;
         s = upd_inode first_inode (\<lambda>i. i\<lparr>i_first := node\<rparr>) s;
         s = upd_inode first_inode (\<lambda>i. i\<lparr>num_entries := 2\<rparr>) s in
     res_bind (tempfs_mkdir_nonlinear root_inode ''..'' (i_first (inodes s root_inode)) s) (\<lambda>s.
       Inr (root_inode, upd_inode root_inode (\<lambda>i. i\<lparr>i_is_dir := True\<rparr>) s)))))"

text \<open>\<open>tempfs_mkdir\<close>: the entry in the parent, then the new directory's own \<open>.\<close> and \<open>..\<close>.\<close>

definition mkdir_dots :: "u64 \<Rightarrow> u64 \<Rightarrow> 'a fs_state_scheme \<Rightarrow> 'a fs_state_scheme result" where
  "mkdir_dots cur_dir new_inode s =
     res_bind (malloc sizeof_DirEntryNode s) (\<lambda>(node, s).
     let s = upd_inode new_inode (\<lambda>i. i\<lparr>i_first := node\<rparr>) s in
     res_bind (malloc sizeof_Inode s) (\<lambda>(first_inode, s).
     let s = upd_dirnode node (\<lambda>n. n\<lparr>de_inode := first_inode\<rparr>) s;
         s = upd_inode first_inode (\<lambda>_. zero_Inode) s;
         s = upd_dirnode node (\<lambda>n. n\<lparr>de_is_dir := True\<rparr>) s;
         s = upd_inode first_inode (\<lambda>_. zero_Inode) s;
         s = upd_inode first_inode (\<lambda>i. i\<lparr>filename := ''.''\<rparr>) s;
         s = upd_inode first_inode (\<lambda>i. i\<lparr>i_is_dir := True\<rparr>) s;
         s = upd_inode first_inode (\<lambda>i. i\<lparr>i_first := node\<rparr>) s;
         s = upd_inode first_inode (\<lambda>i. i\<lparr>num_entries := 2\<rparr>) s in
     tempfs_mkdir_nonlinear new_inode ''..'' (i_first (inodes s cur_dir)) s))"

definition tempfs_mkdir :: "u64 \<Rightarrow> string \<Rightarrow> 'a fs_state_scheme \<Rightarrow> 'a fs_state_scheme result" where
  "tempfs_mkdir cur_dir dirname s =
     res_bind (tempfs_addentry cur_dir dirname True s) (\<lambda>(new_inode, s). mkdir_dots cur_dir new_inode s)"

definition tempfs_mkfile :: "u64 \<Rightarrow> string \<Rightarrow> 'a fs_state_scheme \<Rightarrow> 'a fs_state_scheme result" where
  "tempfs_mkfile cur_dir name s =
     res_bind (tempfs_addentry cur_dir name False s) (\<lambda>(_, s). Inr s)"

definition tempfs_create_device ::
  "u64 \<Rightarrow> string \<Rightarrow> DeviceOps \<Rightarrow> 'a fs_state_scheme \<Rightarrow> 'a fs_state_scheme result" where
  "tempfs_create_device cur_dir devname ops s =
     res_bind (tempfs_addentry cur_dir devname False s) (\<lambda>(new_device, s).
       Inr (upd_inode new_device (\<lambda>i. i\<lparr>i_type := FILETYPE_DEVICE, operations := ops\<rparr>) s))"

fun tempfs_find_loop :: "nat \<Rightarrow> u64 \<Rightarrow> string \<Rightarrow> 'a fs_state_scheme \<Rightarrow> u64 result" where
  "tempfs_find_loop fuel this_entry dirname s =
     (if this_entry = 0 then Inr 0
      else if fuel = 0 then Inl Diverged
      else
        (let n = dirnodes s this_entry in
         res_bind (get_inode (de_inode n) s) (\<lambda>this_inode.
         if filename this_inode = dirname then Inr (de_inode n)
         else tempfs_find_loop (fuel - 1) (de_next n) dirname s)))"

declare tempfs_find_loop.simps [simp del]

definition tempfs_find :: "u64 \<Rightarrow> string \<Rightarrow> 'a fs_state_scheme \<Rightarrow> u64 result" where
  "tempfs_find cur_dir dirname s =
     res_bind (get_inode cur_dir s) (\<lambda>dir.
     res_bind (get_dirnode (i_first dir) s) (\<lambda>_.
       tempfs_find_loop walk_fuel (i_first dir) dirname s))"

definition tempfs_find_root :: "u64 \<Rightarrow> u64" where
  "tempfs_find_root fs = fs"

definition tempfs_open_dir :: "u64 \<Rightarrow> 'a fs_state_scheme \<Rightarrow> u64 result" where
  "tempfs_open_dir dir s = res_bind (get_inode dir s) (\<lambda>i. Inr (if i_is_dir i then dir else 0))"

section \<open>Files\<close>

text \<open>A call through a null function pointer.\<close>

definition dev_rw :: "'s device_calls \<Rightarrow> u64 \<Rightarrow> u64 \<Rightarrow> u64 \<Rightarrow> u64 \<Rightarrow> 's \<Rightarrow> (32 word \<times> 's) result" where
  "dev_rw D f file buffer len s = (if f = 0 then Inl NullDeref else call_rw D f file buffer len s)"

definition tempfs_length :: "u64 \<Rightarrow> 'a fs_state_scheme \<Rightarrow> u64 result" where
  "tempfs_length file s = res_bind (get_inode file s) (\<lambda>i. Inr (i_length i))"

fun tempfs_write_loop ::
  "nat \<Rightarrow> u64 \<Rightarrow> u64 \<Rightarrow> u64 \<Rightarrow> u64 \<Rightarrow> u64 \<Rightarrow> 'a fs_state_scheme \<Rightarrow> 'a fs_state_scheme result" where
  "tempfs_write_loop fuel i len len_left this_fnode data s =
     (if i < len then
        if fuel = 0 then Inl Diverged
        else if this_fnode = 0 then Inl NullDeref
        else
          res_bind
            (if fnode_next s this_fnode = 0 then
               res_bind (malloc sizeof_FileNode s) (\<lambda>(a, s).
                 Inr (s\<lparr>fnode_next := (fnode_next s)(this_fnode := a, a := 0)\<rparr>))
             else Inr s) (\<lambda>s.
          let amount_to_copy = (if len_left > FILENODE_DATA_SIZE then FILENODE_DATA_SIZE else len_left);
              s = s\<lparr>mem := ku_memcpy this_fnode (data + i) amount_to_copy (mem s)\<rparr>
          in tempfs_write_loop (fuel - 1) (i + FILENODE_DATA_SIZE) len (len_left - FILENODE_DATA_SIZE)
               (fnode_next s this_fnode) data s)
      else Inr s)"

declare tempfs_write_loop.simps [simp del]

definition tempfs_write ::
  "'a fs_state_scheme device_calls \<Rightarrow> u64 \<Rightarrow> u64 \<Rightarrow> u64 \<Rightarrow> 'a fs_state_scheme \<Rightarrow> (32 word \<times> 'a fs_state_scheme) result" where
  "tempfs_write D file data len s =
     res_bind (get_inode file s) (\<lambda>i.
     if i_type i = FILETYPE_DEVICE then dev_rw D (op_write (operations i)) file data len s
     else
       (let s = upd_inode file (\<lambda>i. i\<lparr>i_length := len\<rparr>) s in
        res_bind
          (if i_first (inodes s file) = 0 then
             res_bind (malloc sizeof_FileNode s) (\<lambda>(a, s). Inr (upd_inode file (\<lambda>i. i\<lparr>i_first := a\<rparr>) s))
           else Inr s) (\<lambda>s.
        res_bind (tempfs_write_loop walk_fuel 0 len len (i_first (inodes s file)) data s) (\<lambda>s. Inr (0, s)))))"

fun tempfs_read_loop ::
  "nat \<Rightarrow> u64 \<Rightarrow> u64 \<Rightarrow> u64 \<Rightarrow> u64 \<Rightarrow> u64 \<Rightarrow> 'a fs_state_scheme \<Rightarrow> 'a fs_state_scheme result" where
  "tempfs_read_loop fuel i max_len len_left this_fnode buffer s =
     (if i < max_len \<and> this_fnode \<noteq> 0 then
        if fuel = 0 then Inl Diverged
        else
          (let amount_to_copy = (if len_left > FILENODE_DATA_SIZE then FILENODE_DATA_SIZE else len_left);
               s = s\<lparr>mem := ku_memcpy (buffer + i) this_fnode amount_to_copy (mem s)\<rparr>
           in tempfs_read_loop (fuel - 1) (i + FILENODE_DATA_SIZE) max_len (len_left - FILENODE_DATA_SIZE)
                (fnode_next s this_fnode) buffer s)
      else Inr s)"

declare tempfs_read_loop.simps [simp del]

definition tempfs_read ::
  "'a fs_state_scheme device_calls \<Rightarrow> u64 \<Rightarrow> u64 \<Rightarrow> u64 \<Rightarrow> 'a fs_state_scheme \<Rightarrow> (32 word \<times> 'a fs_state_scheme) result" where
  "tempfs_read D file buffer max_len s =
     res_bind (get_inode file s) (\<lambda>i.
     if i_type i = FILETYPE_DEVICE then dev_rw D (op_read (operations i)) file buffer max_len s
     else
       res_bind (tempfs_read_loop walk_fuel 0 max_len max_len (i_first i) buffer s) (\<lambda>s. Inr (0, s)))"

definition tempfs_open_file ::
  "'a fs_state_scheme device_calls \<Rightarrow> u64 \<Rightarrow> u8 \<Rightarrow> 'a fs_state_scheme \<Rightarrow> (u64 \<times> 'a fs_state_scheme) result" where
  "tempfs_open_file D file mode s =
     res_bind (get_inode file s) (\<lambda>i.
     if i_type i = FILETYPE_DEVICE then
       (if op_open (operations i) = 0 then Inl NullDeref
        else res_bind (call_open D (op_open (operations i)) file mode s) (\<lambda>s. Inr (file, s)))
     else Inr (if \<not> i_is_dir i then file else 0, s))"

definition tempfs_close ::
  "'a fs_state_scheme device_calls \<Rightarrow> u64 \<Rightarrow> 'a fs_state_scheme \<Rightarrow> 'a fs_state_scheme result" where
  "tempfs_close D inode s =
     res_bind (get_inode inode s) (\<lambda>i.
     if i_type i = FILETYPE_DEVICE then
       (if op_close (operations i) = 0 then Inl NullDeref else call_close D (op_close (operations i)) inode s)
     else Inr s)"

section \<open>A directory as a list of entries\<close>

lemma fs_frames [frame_simps]:
  "live (s\<lparr>inodes := x\<rparr>) = live s" "live (s\<lparr>dirnodes := y\<rparr>) = live s" "live (s\<lparr>fnode_next := z\<rparr>) = live s"
  "heap_inv (s\<lparr>inodes := x\<rparr>) = heap_inv s" "heap_inv (s\<lparr>dirnodes := y\<rparr>) = heap_inv s" "heap_inv (s\<lparr>fnode_next := z\<rparr>) = heap_inv s"
  "roomy k (s\<lparr>inodes := x\<rparr>) = roomy k s" "roomy k (s\<lparr>dirnodes := y\<rparr>) = roomy k s" "roomy k (s\<lparr>fnode_next := z\<rparr>) = roomy k s"
  by (rule heap_cong, simp add: kheap_state.defs)+

abbreviation entry_next :: "'a fs_state_scheme \<Rightarrow> u64 \<Rightarrow> u64" where
  "entry_next s \<equiv> (\<lambda>n. de_next (dirnodes s n))"

text \<open>\<open>dir_open\<close> leaves open what follows the last entry, as in a directory under construction.\<close>

definition dir_open :: "'a fs_state_scheme \<Rightarrow> u64 \<Rightarrow> u64 list \<Rightarrow> bool" where
  "dir_open s d ns \<longleftrightarrow> ns \<noteq> [] \<and> chain ((entry_next s)(last ns := 0)) (i_first (inodes s d)) ns \<and>
     unat (num_entries (inodes s d)) + 1 = length ns \<and> live s d = Some 104 \<and>
     (\<forall>n \<in> set ns. live s n = Some 24 \<and> live s (de_inode (dirnodes s n)) = Some 104)"

definition dir_rep :: "'a fs_state_scheme \<Rightarrow> u64 \<Rightarrow> u64 list \<Rightarrow> bool" where
  "dir_rep s d ns \<longleftrightarrow> dir_open s d ns \<and> entry_next s (last ns) = 0"

text \<open>The directory's meaning: which inode a name leads to.\<close>

definition entry_name :: "'a fs_state_scheme \<Rightarrow> u64 \<Rightarrow> string" where
  "entry_name s n = filename (inodes s (de_inode (dirnodes s n)))"

definition dir_lookup :: "'a fs_state_scheme \<Rightarrow> u64 list \<Rightarrow> string \<Rightarrow> u64 option" where
  "dir_lookup s ns name = map_option (\<lambda>n. de_inode (dirnodes s n)) (List.find (\<lambda>n. entry_name s n = name) ns)"

lemma dir_openD:
  assumes "dir_open s d ns"
  shows "ns \<noteq> []" "chain ((entry_next s)(last ns := 0)) (i_first (inodes s d)) ns" "unat (num_entries (inodes s d)) + 1 = length ns"
    "live s d = Some 104" "\<And>n. n \<in> set ns \<Longrightarrow> live s n = Some 24"
    "\<And>n. n \<in> set ns \<Longrightarrow> live s (de_inode (dirnodes s n)) = Some 104" "i_first (inodes s d) = hd ns" "hd ns \<noteq> 0"
proof -
  show r: "ns \<noteq> []" "chain ((entry_next s)(last ns := 0)) (i_first (inodes s d)) ns" "unat (num_entries (inodes s d)) + 1 = length ns"
    "live s d = Some 104" "\<And>n. n \<in> set ns \<Longrightarrow> live s n = Some 24"
    "\<And>n. n \<in> set ns \<Longrightarrow> live s (de_inode (dirnodes s n)) = Some 104" using assms by (auto simp: dir_open_def)
  show "i_first (inodes s d) = hd ns" "hd ns \<noteq> 0" using r(1,2) by (cases ns; simp)+
qed

lemma dir_repD:
  assumes "dir_rep s d ns"
  shows "dir_open s d ns" "chain (entry_next s) (i_first (inodes s d)) ns"
proof -
  show o: "dir_open s d ns" using assms by (simp add: dir_rep_def)
  have "(entry_next s)(last ns := 0) = entry_next s" using assms by (auto simp: dir_rep_def)
  with dir_openD(2)[OF o] show "chain (entry_next s) (i_first (inodes s d)) ns" by simp
qed

lemma walk_entries_chain:
  "chain ((entry_next s)(last ns := 0)) p ns \<Longrightarrow> k < length ns \<Longrightarrow> walk_entries k p s = Inr (ns ! k)"
proof (induction k arbitrary: p ns)
  case (Suc k)
  obtain a as where ns: "ns = a # as" "as \<noteq> []" using Suc.prems(2) by (cases ns) fastforce+
  with chain_distinct[OF Suc.prems(1)] have "last as \<noteq> a" by auto
  with Suc ns show ?case by (auto simp: get_dirnode_def)
next
  case 0
  then show ?case by (cases ns) auto
qed

lemma tempfs_find_loop_chain:
  assumes "heap_inv s"
  shows "chain (entry_next s) p ns \<Longrightarrow> length ns \<le> fuel \<Longrightarrow>
    \<forall>n \<in> set ns. live s (de_inode (dirnodes s n)) = Some 104 \<Longrightarrow>
    tempfs_find_loop fuel p name s = Inr (case dir_lookup s ns name of None \<Rightarrow> 0 | Some i \<Rightarrow> i)"
proof (induction ns arbitrary: p fuel)
  case Nil
  then show ?case by (subst tempfs_find_loop.simps) (simp add: dir_lookup_def)
next
  case (Cons n ns)
  have "de_inode (dirnodes s n) \<noteq> 0" using Cons.prems(3) live_nonnull[OF assms] by auto
  then show ?case
    using Cons by (subst tempfs_find_loop.simps) (auto simp: get_inode_def dir_lookup_def entry_name_def Let_def)
qed

text \<open>All that a lookup needs: the list and its inodes, whatever \<open>num_entries\<close> says.\<close>

definition dir_shows :: "'a fs_state_scheme \<Rightarrow> u64 \<Rightarrow> (string \<Rightarrow> u64 option) \<Rightarrow> bool" where
  "dir_shows s d M \<longleftrightarrow> (\<exists>ns. ns \<noteq> [] \<and> chain (entry_next s) (i_first (inodes s d)) ns \<and> live s d = Some 104 \<and>
     (\<forall>n \<in> set ns. live s (de_inode (dirnodes s n)) = Some 104) \<and> M = dir_lookup s ns)"

lemma tempfs_find_shows:
  assumes inv: "heap_inv s" and r: "dir_shows s d M"
  shows "tempfs_find d name s = Inr (case M name of None \<Rightarrow> 0 | Some i \<Rightarrow> i)" "M name \<noteq> Some 0"
proof -
  obtain ns where ns: "ns \<noteq> []" "chain (entry_next s) (i_first (inodes s d)) ns" "live s d = Some 104"
    "\<forall>n \<in> set ns. live s (de_inode (dirnodes s n)) = Some 104" "M = dir_lookup s ns" using r by (auto simp: dir_shows_def)
  have "length ns \<le> walk_fuel" using chain_length[OF ns(2)] by (simp add: walk_fuel_def)
  with tempfs_find_loop_chain[OF inv ns(2) this ns(4)]
  have "tempfs_find_loop walk_fuel (i_first (inodes s d)) name s = Inr (case M name of None \<Rightarrow> 0 | Some i \<Rightarrow> i)"
    using ns(5) by blast
  moreover have "i_first (inodes s d) \<noteq> 0" using ns(1,2) by (cases ns) auto
  ultimately show "tempfs_find d name s = Inr (case M name of None \<Rightarrow> 0 | Some i \<Rightarrow> i)"
    using live_nonnull[OF inv ns(3)] by (simp add: tempfs_find_def get_inode_def get_dirnode_def)
  show "M name \<noteq> Some 0" using ns(4,5) live_nonnull[OF inv, of 0] by (auto simp: dir_lookup_def find_Some_iff) (metis nth_mem)
qed

lemma dir_rep_shows: "dir_rep s d ns \<Longrightarrow> dir_shows s d (dir_lookup s ns)"
  unfolding dir_shows_def using dir_repD(2) dir_openD(1,4,6)[OF dir_repD(1)] by (intro exI[of _ ns]) blast

lemmas tempfs_find_rep = tempfs_find_shows(1)[OF _ dir_rep_shows]

lemma malloc_fs:
  assumes "heap_inv s" "unat n < 2 ^ 62" "malloc n s = Inr (a, s')"
  shows "inodes s' = inodes s" "dirnodes s' = dirnodes s" "fnode_next s' = fnode_next s" "heap_inv s'" "live s a = None"
    "live s' = (live s)(a \<mapsto> unat n)" "a \<noteq> 0" "\<exists>m t p. s' = s\<lparr>mem := m, total_memory_allocated := t, pools := p\<rparr>"
proof -
  obtain m t st where s': "s' = s\<lparr>mem := m, total_memory_allocated := t, pools := st\<rparr>" by (rule malloc_frame[OF assms])
  then show "inodes s' = inodes s" "dirnodes s' = dirnodes s" "fnode_next s' = fnode_next s"
    "\<exists>m t p. s' = s\<lparr>mem := m, total_memory_allocated := t, pools := p\<rparr>" by auto
  show "heap_inv s'" "live s a = None" "live s' = (live s)(a \<mapsto> unat n)" "a \<noteq> 0"
    using malloc_vec_frame(3-6)[OF assms] by blast+
qed

text \<open>Adding an entry appends to the list.\<close>

definition entry_added :: "u64 \<Rightarrow> string \<Rightarrow> bool \<Rightarrow> u64 list \<Rightarrow> u64 \<Rightarrow> u64 \<Rightarrow> 'a fs_state_scheme \<Rightarrow> 'a fs_state_scheme \<Rightarrow> bool" where
  "entry_added d name is_dir ns i e s s' \<longleftrightarrow>
     heap_inv s' \<and> live s i = None \<and> live s e = None \<and> i \<noteq> e \<and> live s' = (live s)(i \<mapsto> 104, e \<mapsto> 24) \<and>
     inodes s' = (inodes s)(i := zero_Inode\<lparr>filename := name, i_is_dir := is_dir\<rparr>,
        d := (inodes s d)\<lparr>num_entries := num_entries (inodes s d) + 1\<rparr>) \<and>
     dirnodes s' = (dirnodes s)(last ns := (dirnodes s (last ns))\<lparr>de_next := e\<rparr>,
        e := \<lparr>de_is_dir = False, de_inode = i, de_next = 0\<rparr>) \<and>
     (\<exists>m t p. s' = s\<lparr>mem := m, total_memory_allocated := t, pools := p, inodes := inodes s', dirnodes := dirnodes s'\<rparr>)"

lemma tempfs_addentry_rep:
  assumes inv: "heap_inv s" and r: "dir_open s d ns" and n: "length name < 20"
  shows "tempfs_addentry d name b s = Inl Halted \<or>
    (\<exists>i e s'. tempfs_addentry d name b s = Inr (i, s') \<and> entry_added d name b ns i e s s')"
    and "roomy (182 + k) s \<Longrightarrow> \<exists>i s'. tempfs_addentry d name b s = Inr (i, s') \<and> roomy k s'"
proof -
  have d: "d \<noteq> 0" by (rule live_nonnull[OF inv dir_openD(4)[OF r]])
  have u: "unat sizeof_Inode < 2 ^ 62" "unat sizeof_DirEntryNode < 2 ^ 62" "unat sizeof_Inode = 104" "unat sizeof_DirEntryNode = 24"
    by (simp_all add: sizeof_Inode_def sizeof_DirEntryNode_def)
  have core: "\<exists>s'. tempfs_addentry d name b s = Inr (i, s') \<and> entry_added d name b ns i e s s' \<and> (\<forall>k. roomy k s2 \<longrightarrow> roomy k s')"
    if m1: "malloc sizeof_Inode s = Inr (i, s1)" and m2: "malloc sizeof_DirEntryNode s1 = Inr (e, s2)" for i e s1 s2
  proof -
    note M1 = malloc_fs[OF inv u(1) m1]
    note M2 = malloc_fs[OF M1(4) u(2) m2]
    have fresh: "i \<noteq> d" "e \<noteq> d" "i \<noteq> e" "i \<notin> set ns" "e \<notin> set ns" "live s e = None"
      using M1(5,6) M2(5,6) dir_openD(4,5)[OF r] by (auto split: if_splits)
    let ?t = "upd_inode i (\<lambda>_. zero_Inode) (upd_dirnode e (\<lambda>_. zero_DirEntryNode) s2)"
    have "chain ((entry_next ?t)(last ns := 0)) (i_first (inodes s d)) ns"
      using dir_openD(2)[OF r] fresh M1 M2 by (subst chain_cong[where nxt' = "(entry_next s)(last ns := 0)"]) (auto simp: upd_inode_def upd_dirnode_def)
    then have "walk_entries (length ns - 1) (i_first (inodes s d)) ?t = Inr (ns ! (length ns - 1))"
      using dir_openD(1)[OF r] by (intro walk_entries_chain) auto
    moreover have "unat (num_entries (inodes s d)) = length ns - 1" using dir_openD(3)[OF r] by simp
    ultimately have "walk_entries (unat (num_entries (inodes s d))) (i_first (inodes s d)) ?t = Inr (ns ! (length ns - 1))"
      by simp
    then have w: "walk_entries (unat (num_entries (inodes s d))) (hd ns) ?t = Inr (last ns)"
      using dir_openD(1,7)[OF r] by (simp add: last_conv_nth)
    have l: "last ns \<in> set ns" "last ns \<noteq> 0" "last ns \<noteq> e" "num_entries (inodes ?t d) = num_entries (inodes s d)"
      using dir_openD(1)[OF r] chain_0[OF dir_openD(2)[OF r]] fresh M1 M2 by (auto simp: upd_inode_def upd_dirnode_def) (metis last_in_set)
    let ?s = "s2\<lparr>inodes := (inodes s)(i := zero_Inode\<lparr>filename := name, i_is_dir := b\<rparr>,
        d := (inodes s d)\<lparr>num_entries := num_entries (inodes s d) + 1\<rparr>),
        dirnodes := (dirnodes s)(last ns := (dirnodes s (last ns))\<lparr>de_next := e\<rparr>,
        e := \<lparr>de_is_dir = False, de_inode = i, de_next = 0\<rparr>)\<rparr>"
    have "tempfs_addentry d name b s = Inr (i, ?s)"
      using m1 m2 w l d n M1 M2 dir_openD(7,8)[OF r] fresh
      by (simp add: tempfs_addentry_def get_inode_def Let_def)
         (auto simp: upd_inode_def upd_dirnode_def zero_DirEntryNode_def fun_upd_twist)
    moreover have "\<exists>m t p. ?s = s\<lparr>mem := m, total_memory_allocated := t, pools := p, inodes := inodes ?s, dirnodes := dirnodes ?s\<rparr>"
      using M1(8) M2(8) by (elim exE) (simp, blast)
    then have "entry_added d name b ns i e s ?s"
      using M1 M2 fresh u by (auto simp: entry_added_def frame_simps)
    ultimately show ?thesis by (auto simp: frame_simps)
  qed
  show "tempfs_addentry d name b s = Inl Halted \<or>
    (\<exists>i e s'. tempfs_addentry d name b s = Inr (i, s') \<and> entry_added d name b ns i e s s')"
  proof (cases "malloc sizeof_Inode s")
    case (Inl x)
    then show ?thesis using kheap.alloc_error[OF inv u(1) Inl] d by (simp add: tempfs_addentry_def get_inode_def Let_def)
  next
    case (Inr p)
    then obtain i s1 where m1: "malloc sizeof_Inode s = Inr (i, s1)" by (cases p) auto
    show ?thesis
    proof (cases "malloc sizeof_DirEntryNode s1")
      case (Inl x)
      then show ?thesis using kheap.alloc_error[OF malloc_fs(4)[OF inv u(1) m1] u(2) Inl] m1 d
        by (simp add: tempfs_addentry_def get_inode_def Let_def)
    next
      case (Inr p)
      then obtain e s2 where "malloc sizeof_DirEntryNode s1 = Inr (e, s2)" by (cases p) auto
      from core[OF m1 this] show ?thesis by blast
    qed
  qed
  show "\<exists>i s'. tempfs_addentry d name b s = Inr (i, s') \<and> roomy k s'" if room: "roomy (182 + k) s"
  proof -
    obtain i s1 where m1: "malloc sizeof_Inode s = Inr (i, s1)" "roomy (51 + k) s1"
      using malloc_room[of sizeof_Inode "51 + k" s] room u by auto
    obtain e s2 where m2: "malloc sizeof_DirEntryNode s1 = Inr (e, s2)" "roomy k s2"
      using malloc_room[of sizeof_DirEntryNode k s1] m1 u by auto
    from core[OF m1(1) m2(1)] m2(2) show ?thesis by blast
  qed
qed

lemma tempfs_addentry_ok:
  assumes "roomy (182 + k) s" "dir_open s d ns" "length name < 20"
  obtains i s' e where "tempfs_addentry d name b s = Inr (i, s')" "roomy k s'" "entry_added d name b ns i e s s'"
  using tempfs_addentry_rep(1)[OF roomy_inv[OF assms(1)] assms(2,3), of b]
    tempfs_addentry_rep(2)[OF roomy_inv[OF assms(1)] assms(2,3,1), of b] by auto

lemma chain_append_last:
  assumes "chain nxt p ns" "ns \<noteq> []" "q \<noteq> 0" "q \<notin> set ns"
  shows "chain (nxt(last ns := q, q := 0)) p (ns @ [q])"
proof -
  have ns: "ns = butlast ns @ last ns # []" using assms(2) by simp
  then have "nxt (last ns) = 0" using chain_next[of nxt p "butlast ns" "last ns" "[]"] assms(1) by simp
  then show ?thesis using chain_insert_after[of nxt p "butlast ns" "last ns" "[]" q] assms ns
    by (metis append.assoc append_Cons append_Nil)
qed

lemma entry_addedD:
  assumes "entry_added d name b ns i e s s'"
  shows "heap_inv s'" "live s i = None" "live s e = None" "i \<noteq> e" "live s' = (live s)(i \<mapsto> 104, e \<mapsto> 24)"
    "inodes s' = (inodes s)(i := zero_Inode\<lparr>filename := name, i_is_dir := b\<rparr>,
        d := (inodes s d)\<lparr>num_entries := num_entries (inodes s d) + 1\<rparr>)"
    "dirnodes s' = (dirnodes s)(last ns := (dirnodes s (last ns))\<lparr>de_next := e\<rparr>,
        e := \<lparr>de_is_dir = False, de_inode = i, de_next = 0\<rparr>)"
    "\<exists>m t p. s' = s\<lparr>mem := m, total_memory_allocated := t, pools := p, inodes := inodes s', dirnodes := dirnodes s'\<rparr>"
    "i \<noteq> 0" "e \<noteq> 0"
proof -
  show h: "heap_inv s'" and "live s i = None" "live s e = None" "i \<noteq> e"
    and l: "live s' = (live s)(i \<mapsto> 104, e \<mapsto> 24)"
    and "inodes s' = (inodes s)(i := zero_Inode\<lparr>filename := name, i_is_dir := b\<rparr>,
        d := (inodes s d)\<lparr>num_entries := num_entries (inodes s d) + 1\<rparr>)"
    "dirnodes s' = (dirnodes s)(last ns := (dirnodes s (last ns))\<lparr>de_next := e\<rparr>,
        e := \<lparr>de_is_dir = False, de_inode = i, de_next = 0\<rparr>)"
    "\<exists>m t p. s' = s\<lparr>mem := m, total_memory_allocated := t, pools := p, inodes := inodes s', dirnodes := dirnodes s'\<rparr>"
    using assms unfolding entry_added_def by blast+
  show "i \<noteq> 0" "e \<noteq> 0" using live_nonnull[OF h, of i] live_nonnull[OF h, of e] l by auto
qed

lemma entry_added_dir_rep:
  assumes r: "dir_open s d ns" and a: "entry_added d name b ns i e s s'"
  shows "dir_rep s' d (ns @ [e])"
    and "dir_lookup s' (ns @ [e]) n' = (case dir_lookup s ns n' of None \<Rightarrow> if n' = name then Some i else None | Some j \<Rightarrow> Some j)"
proof -
  note A = entry_addedD[OF a]
  have ne: "e \<notin> set ns" "i \<notin> set ns" "i \<noteq> d" "e \<noteq> d"
    using A(2,3) dir_openD(4,5)[OF r] by auto
  have ino: "de_inode (dirnodes s' n) = de_inode (dirnodes s n)" "de_inode (dirnodes s n) \<noteq> i"
    "filename (inodes s' (de_inode (dirnodes s n))) = filename (inodes s (de_inode (dirnodes s n)))" if "n \<in> set ns" for n
    using that ne A(2) dir_openD(6)[OF r that] by (auto simp: A(6,7))
  have l: "last ns \<in> set ns" using dir_openD(1)[OF r] by simp
  have nxt: "entry_next s' = (entry_next s)(last ns := 0, last ns := e, e := 0)" by (simp add: A(7) fun_eq_iff)
  have first: "i_first (inodes s' d) = i_first (inodes s d)" using ne by (simp add: A(6))
  have c: "chain (entry_next s') (i_first (inodes s' d)) (ns @ [e])"
    unfolding nxt first by (rule chain_append_last[OF dir_openD(2,1)[OF r] A(10) ne(1)])
  have "unat (num_entries (inodes s' d)) + 1 = length (ns @ [e])"
    using chain_length_less[OF c] dir_openD(3)[OF r] by (simp add: A(6) unat_add_u64)
  moreover have "entry_next s' e = 0" by (simp add: A(7))
  moreover from this have "(entry_next s')(e := 0) = entry_next s'" by auto
  ultimately show "dir_rep s' d (ns @ [e])"
    unfolding dir_rep_def dir_open_def using c ino A(2,3,4) dir_openD(4-6)[OF r] ne by (auto simp: A(5)) (simp_all add: A(7))
  have "entry_name s' n = entry_name s n" if "n \<in> set ns" for n using ino[OF that] by (simp add: entry_name_def)
  moreover have "entry_name s' e = name" "de_inode (dirnodes s' e) = i" using ne by (simp_all add: entry_name_def A(6,7))
  moreover have "List.find P (ns @ [e]) = (case List.find P ns of None \<Rightarrow> if P e then Some e else None | Some j \<Rightarrow> Some j)" for P
    by (induction ns) auto
  moreover have "List.find (\<lambda>n. entry_name s' n = n') ns = List.find (\<lambda>n. entry_name s n = n') ns"
    using calculation(1) by (intro find_cong) auto
  moreover have "m \<in> set ns" if "List.find P ns = Some m" for P m using that by (auto simp: find_Some_iff)
  ultimately show "dir_lookup s' (ns @ [e]) n' = (case dir_lookup s ns n' of None \<Rightarrow> if n' = name then Some i else None | Some j \<Rightarrow> Some j)"
    using ino(1) by (cases "List.find (\<lambda>n. entry_name s n = n') ns") (simp_all add: dir_lookup_def)
qed

section \<open>The directory as a name table\<close>

text \<open>What the users of a directory rely on: looking up what was added, and nothing else changing.\<close>

locale name_table =
  fixes inv :: "'s \<Rightarrow> bool"
    and denotes :: "'s \<Rightarrow> u64 \<Rightarrow> (string \<Rightarrow> u64 option) \<Rightarrow> bool"
    and name_ok :: "string \<Rightarrow> bool"
    and find :: "u64 \<Rightarrow> string \<Rightarrow> 's \<Rightarrow> u64 result"
    and add :: "u64 \<Rightarrow> string \<Rightarrow> 's \<Rightarrow> (u64 \<times> 's) result"
  assumes find_denotes: "inv s \<Longrightarrow> denotes s d M \<Longrightarrow> find d n s = Inr (case M n of None \<Rightarrow> 0 | Some i \<Rightarrow> i)"
    and add_denotes: "inv s \<Longrightarrow> denotes s d M \<Longrightarrow> name_ok n \<Longrightarrow> add d n s = Inr (i, s') \<Longrightarrow>
      inv s' \<and> i \<noteq> 0 \<and> denotes s' d (\<lambda>m. case M m of None \<Rightarrow> if m = n then Some i else None | Some j \<Rightarrow> Some j)"
    and ran_nonnull: "inv s \<Longrightarrow> denotes s d M \<Longrightarrow> M n \<noteq> Some 0"
begin

lemma find_after_add:
  assumes "inv s" "denotes s d M" "name_ok n" "add d n s = Inr (i, s')"
  shows "find d m s' = (if m = n \<and> find d n s = Inr 0 then Inr i else find d m s)"
  using find_denotes[OF assms(1,2)] ran_nonnull[OF assms(1,2), of n] add_denotes[OF assms]
  by (auto simp: find_denotes split: option.splits)

primrec add_all :: "u64 \<Rightarrow> string list \<Rightarrow> 's \<Rightarrow> 's result" where
  "add_all d [] s = Inr s"
| "add_all d (n # ns) s = res_bind (add d n s) (\<lambda>(_, s). add_all d ns s)"

lemma add_all_found:
  "inv s \<Longrightarrow> denotes s d M \<Longrightarrow> \<forall>n \<in> set ns. name_ok n \<Longrightarrow> add_all d ns s = Inr s' \<Longrightarrow>
   inv s' \<and> (\<exists>M'. denotes s' d M' \<and> dom M' = dom M \<union> set ns \<and> (\<forall>n \<in> dom M. M' n = M n))"
proof (induction ns arbitrary: s M)
  case (Cons n ns)
  then obtain i s1 where a: "add d n s = Inr (i, s1)" "add_all d ns s1 = Inr s'" by (auto simp: result_simps)
  let ?M = "\<lambda>m. case M m of None \<Rightarrow> if m = n then Some i else None | Some j \<Rightarrow> Some j"
  have 1: "inv s1" "denotes s1 d ?M" using add_denotes[OF Cons.prems(1,2) _ a(1)] Cons.prems(3) by auto
  have "dom ?M = insert n (dom M)" "\<forall>n \<in> dom M. ?M n = M n" by (auto simp: dom_def split: option.splits)
  moreover obtain M' where "inv s'" "denotes s' d M'" "dom M' = dom ?M \<union> set ns" "\<forall>n \<in> dom ?M. M' n = ?M n"
    using Cons.IH[OF 1 _ a(2)] Cons.prems(3) by auto
  ultimately have "inv s' \<and> denotes s' d M' \<and> dom M' = dom M \<union> set (n # ns) \<and> (\<forall>n \<in> dom M. M' n = M n)" by auto
  then show ?case by blast
qed auto

end

definition dir_denotes :: "'a fs_state_scheme \<Rightarrow> u64 \<Rightarrow> (string \<Rightarrow> u64 option) \<Rightarrow> bool" where
  "dir_denotes s d M \<longleftrightarrow> (\<exists>ns. dir_rep s d ns \<and> M = dir_lookup s ns)"

interpretation tempdir: name_table heap_inv dir_denotes "\<lambda>n. length n < 20" tempfs_find "\<lambda>d n. tempfs_addentry d n b" for b
proof unfold_locales
  fix s :: "'a fs_state_scheme" and d :: u64 and M n i s'
  assume inv: "heap_inv s" and "dir_denotes s d M"
  then obtain ns where r: "dir_rep s d ns" and M: "M = dir_lookup s ns" by (auto simp: dir_denotes_def)
  show "tempfs_find d n s = Inr (case M n of None \<Rightarrow> 0 | Some i \<Rightarrow> i)" unfolding M by (rule tempfs_find_rep[OF inv r])
  show "M n \<noteq> Some 0" unfolding M by (rule tempfs_find_shows(2)[OF inv dir_rep_shows[OF r]])
  assume "length n < 20" "tempfs_addentry d n b s = Inr (i, s')"
  with tempfs_addentry_rep(1)[OF inv dir_repD(1)[OF r], of n b] obtain e where a: "entry_added d n b ns i e s s'" by auto
  from entry_added_dir_rep[OF dir_repD(1)[OF r] a] entry_addedD(1,9)[OF a]
  show "heap_inv s' \<and> i \<noteq> 0 \<and> dir_denotes s' d (\<lambda>m. case M m of None \<Rightarrow> if m = n then Some i else None | Some j \<Rightarrow> Some j)"
    unfolding dir_denotes_def M by (intro conjI exI[of _ "ns @ [e]"]) (auto simp: fun_eq_iff)
qed

section \<open>Making a directory\<close>

lemma dir_rep_cong:
  assumes r: "dir_rep s d ns" and "i_first (inodes s' d) = i_first (inodes s d)" "num_entries (inodes s' d) = num_entries (inodes s d)"
    and n: "\<And>n. n \<in> set ns \<Longrightarrow> dirnodes s' n = dirnodes s n" and l: "map_le (live s) (live s')"
  shows "dir_rep s' d ns"
proof -
  note R = dir_openD[OF dir_repD(1)[OF r]]
  have "last ns \<in> set ns" using R(1) by simp
  moreover have "chain ((entry_next s')(last ns := 0)) (i_first (inodes s d)) ns"
    using R(2) n by (subst chain_cong[where nxt' = "(entry_next s)(last ns := 0)"]) auto
  moreover have "live s' a = Some k" if "live s a = Some k" for a k using l that by (force simp: map_le_def)
  ultimately show ?thesis using r R(4-6) n assms(2,3) by (auto simp: dir_rep_def dir_open_def)
qed

lemma dir_lookup_cong:
  assumes "\<And>n. n \<in> set ns \<Longrightarrow> dirnodes s' n = dirnodes s n"
    "\<And>n. n \<in> set ns \<Longrightarrow> filename (inodes s' (de_inode (dirnodes s n))) = filename (inodes s (de_inode (dirnodes s n)))"
  shows "dir_lookup s' ns = dir_lookup s ns"
proof -
  have "List.find (\<lambda>n. entry_name s' n = m) ns = List.find (\<lambda>n. entry_name s n = m) ns" for m
    using assms by (intro find_cong) (auto simp: entry_name_def)
  moreover have "m \<in> set ns" if "List.find P ns = Some m" for P m using that by (auto simp: find_Some_iff)
  ultimately show ?thesis using assms(1) by (auto simp: dir_lookup_def fun_eq_iff split: option.splits intro!: map_option_cong)
qed

lemma tempfs_find_first: "d \<noteq> 0 \<Longrightarrow> d' \<noteq> 0 \<Longrightarrow> i_first (inodes s d) = i_first (inodes s d') \<Longrightarrow> tempfs_find d n s = tempfs_find d' n s"
  by (simp add: tempfs_find_def get_inode_def)

text \<open>The new directory \<open>i\<close>: an entry \<open>node\<close> for the inode \<open>dot\<close>, an entry \<open>e\<close> for the inode \<open>dd\<close>.\<close>

definition dots_made :: "u64 \<Rightarrow> u64 \<Rightarrow> 'a fs_state_scheme \<Rightarrow> 'a fs_state_scheme \<Rightarrow> bool" where
  "dots_made d i s s' \<longleftrightarrow> heap_inv s' \<and> map_le (live s) (live s') \<and>
     (\<forall>a. live s a \<noteq> None \<longrightarrow> dirnodes s' a = dirnodes s a \<and> (a \<noteq> i \<longrightarrow> inodes s' a = inodes s a)) \<and>
     filename (inodes s' i) = filename (inodes s i) \<and> i_is_dir (inodes s' i) = i_is_dir (inodes s i) \<and>
     (\<exists>node e dot dd. dir_rep s' i [node, e] \<and> dir_lookup s' [node, e] = [''.'' \<mapsto> dot, ''..'' \<mapsto> dd] \<and>
        dot \<noteq> 0 \<and> dd \<noteq> 0 \<and> i_first (inodes s' dot) = node \<and> i_first (inodes s' dd) = i_first (inodes s d))"

lemma mkdir_dots_core:
  assumes inv: "heap_inv s" and i: "live s i = Some 104" "num_entries (inodes s i) = 0" and d: "live s d = Some 104" "d \<noteq> i"
    and m1: "malloc sizeof_DirEntryNode s = Inr (node, s2)"
    and m2: "malloc sizeof_Inode (upd_inode i (\<lambda>x. x\<lparr>i_first := node\<rparr>) s2) = Inr (dot, s3)"
    and t: "t = s3\<lparr>dirnodes := (dirnodes s)(node := (dirnodes s node)\<lparr>de_inode := dot, de_is_dir := True\<rparr>),
        inodes := (inodes s)(i := (inodes s i)\<lparr>i_first := node\<rparr>,
          dot := zero_Inode\<lparr>filename := ''.'', i_is_dir := True, i_first := node, num_entries := 2\<rparr>)\<rparr>"
  shows "mkdir_dots d i s = tempfs_mkdir_nonlinear i ''..'' (i_first (inodes s d)) t"
    and "heap_inv t" and "dir_open t i [node]" and "live t = (live s)(node \<mapsto> 24, dot \<mapsto> 104)"
    and "live s node = None" "live s dot = None" "node \<noteq> dot" "\<And>k. roomy k s3 \<Longrightarrow> roomy k t"
proof -
  have u: "unat sizeof_Inode < 2 ^ 62" "unat sizeof_DirEntryNode < 2 ^ 62" "unat sizeof_Inode = 104" "unat sizeof_DirEntryNode = 24"
    by (simp_all add: sizeof_Inode_def sizeof_DirEntryNode_def)
  note M1 = malloc_fs[OF inv u(2) m1]
  have h2: "heap_inv (upd_inode i (\<lambda>x. x\<lparr>i_first := node\<rparr>) s2)" using M1(4) by (simp add: upd_inode_def frame_simps)
  note M2 = malloc_fs[OF h2 u(1) m2]
  show h: "heap_inv t" using M2(4) by (simp add: t frame_simps)
  show l: "live t = (live s)(node \<mapsto> 24, dot \<mapsto> 104)" using M1(6) M2(6) u by (simp add: t upd_inode_def frame_simps)
  show f: "live s node = None" "live s dot = None" "node \<noteq> dot"
    using M1(5,6) M2(5) by (auto simp: upd_inode_def frame_simps split: if_splits)
  have ne: "node \<noteq> i" "dot \<noteq> i" "dot \<noteq> d" using f i d by auto
  show "mkdir_dots d i s = tempfs_mkdir_nonlinear i ''..'' (i_first (inodes s d)) t"
    using m1 m2 M1 M2 ne d(2) by (simp add: mkdir_dots_def Let_def) (simp add: upd_inode_def upd_dirnode_def t)
  show "dir_open t i [node]" using l f ne i M1(7) by (auto simp: dir_open_def t)
  show "roomy k t" if "roomy k s3" for k using that by (simp add: t frame_simps)
qed

lemma dots_made_intro:
  assumes t: "dir_open t i [node]" "live t = (live s)(node \<mapsto> 24, dot \<mapsto> 104)"
    and f: "live s node = None" "live s dot = None" "node \<noteq> dot" and i: "live s i = Some 104" and d: "live s d = Some 104" "d \<noteq> i"
    and tn: "dirnodes t = (dirnodes s)(node := (dirnodes s node)\<lparr>de_inode := dot, de_is_dir := True\<rparr>)"
    and ti: "inodes t = (inodes s)(i := (inodes s i)\<lparr>i_first := node\<rparr>,
          dot := zero_Inode\<lparr>filename := ''.'', i_is_dir := True, i_first := node, num_entries := 2\<rparr>)"
    and a: "entry_added i ''..'' True [node] dd e t u"
    and s': "s' = upd_inode dd (\<lambda>x. x\<lparr>i_first := i_first (inodes s d)\<rparr>) u"
  shows "dots_made d i s s'"
proof -
  note A = entry_addedD[OF a]
  have ne: "dd \<noteq> i" "dd \<noteq> dot" "dd \<noteq> node" "e \<noteq> node" "e \<noteq> i" "e \<noteq> dot" "dot \<noteq> i" "node \<noteq> i" "dot \<noteq> d" "dd \<noteq> d"
    "live s dd = None" "live s e = None" "dot \<noteq> 0"
    using A(2,3) t f i d live_nonnull[OF A(1), of dot] by (auto simp: A(5) split: if_splits)
  have ui: "inodes s' = (inodes u)(dd := (inodes u dd)\<lparr>i_first := i_first (inodes s d)\<rparr>)" and un: "dirnodes s' = dirnodes u"
    and ul: "live s' = live u" and uh: "heap_inv s'"
    using A(1) by (simp_all add: s' upd_inode_def frame_simps)
  have r: "dir_rep s' i [node, e]"
    using entry_added_dir_rep(1)[OF t(1) a] ne by (auto intro!: dir_rep_cong[of u] simp: ui un ul)
  have "dir_lookup s' [node, e] = [''.'' \<mapsto> dot, ''..'' \<mapsto> dd]"
    using ne by (auto simp: fun_eq_iff dir_lookup_def entry_name_def un A(7) tn ui A(6) ti)
  moreover have "i_first (inodes s' dot) = node" "i_first (inodes s' dd) = i_first (inodes s d)"
    using ne by (simp_all add: ui A(6) ti)
  moreover have "map_le (live s) (live s')" using f ne by (auto simp: map_le_def ul A(5) t(2))
  moreover have "dirnodes s' a = dirnodes s a \<and> (a \<noteq> i \<longrightarrow> inodes s' a = inodes s a)" if "live s a \<noteq> None" for a
  proof -
    have "a \<noteq> dd" "a \<noteq> e" "a \<noteq> node" "a \<noteq> dot" using that f ne by auto
    then show ?thesis by (simp add: un A(7) tn ui A(6) ti)
  qed
  moreover have "filename (inodes s' i) = filename (inodes s i)" "i_is_dir (inodes s' i) = i_is_dir (inodes s i)"
    using ne by (simp_all add: ui A(6) ti)
  ultimately show ?thesis unfolding dots_made_def using uh r ne(13) A(9) by blast
qed

lemma mkdir_dots_made:
  assumes inv: "heap_inv s" and i: "live s i = Some 104" "num_entries (inodes s i) = 0" and d: "live s d = Some 104" "d \<noteq> i"
  shows "mkdir_dots d i s = Inl Halted \<or> (\<exists>s'. mkdir_dots d i s = Inr s' \<and> dots_made d i s s')"
    and "roomy (364 + k) s \<Longrightarrow> \<exists>s'. mkdir_dots d i s = Inr s' \<and> roomy k s'"
proof -
  have u: "unat sizeof_Inode < 2 ^ 62" "unat sizeof_DirEntryNode < 2 ^ 62" "unat sizeof_Inode = 104" "unat sizeof_DirEntryNode = 24"
    by (simp_all add: sizeof_Inode_def sizeof_DirEntryNode_def)
  let ?s2 = "\<lambda>node s2. upd_inode i (\<lambda>x. x\<lparr>i_first := node\<rparr>) s2"
  let ?t = "\<lambda>node dot s3. s3\<lparr>dirnodes := (dirnodes s)(node := (dirnodes s node)\<lparr>de_inode := dot, de_is_dir := True\<rparr>),
        inodes := (inodes s)(i := (inodes s i)\<lparr>i_first := node\<rparr>,
          dot := zero_Inode\<lparr>filename := ''.'', i_is_dir := True, i_first := node, num_entries := 2\<rparr>)\<rparr>"
  show "mkdir_dots d i s = Inl Halted \<or> (\<exists>s'. mkdir_dots d i s = Inr s' \<and> dots_made d i s s')"
  proof (cases "malloc sizeof_DirEntryNode s")
    case (Inl x)
    then show ?thesis using kheap.alloc_error[OF inv u(2) Inl] by (simp add: mkdir_dots_def)
  next
    case (Inr p)
    then obtain node s2 where m1: "malloc sizeof_DirEntryNode s = Inr (node, s2)" by (cases p) auto
    have h2: "heap_inv (?s2 node s2)" using malloc_fs(4)[OF inv u(2) m1] by (simp add: upd_inode_def frame_simps)
    show ?thesis
    proof (cases "malloc sizeof_Inode (?s2 node s2)")
      case (Inl x)
      then show ?thesis using kheap.alloc_error[OF h2 u(1) Inl] m1 by (simp add: mkdir_dots_def Let_def)
    next
      case (Inr p)
      then obtain dot s3 where m2: "malloc sizeof_Inode (?s2 node s2) = Inr (dot, s3)" by (cases p) auto
      note C = mkdir_dots_core[OF inv i d m1 m2 refl]
      from tempfs_addentry_rep(1)[OF C(2,3), of "''..''" True] consider
        "tempfs_addentry i ''..'' True (?t node dot s3) = Inl Halted"
        | dd e u where "tempfs_addentry i ''..'' True (?t node dot s3) = Inr (dd, u)" "entry_added i ''..'' True [node] dd e (?t node dot s3) u"
        by auto
      then show ?thesis
      proof cases
        case 1
        then show ?thesis using C(1) by (simp add: tempfs_mkdir_nonlinear_def)
      next
        case 2
        have "dots_made d i s (upd_inode dd (\<lambda>x. x\<lparr>i_first := i_first (inodes s d)\<rparr>) u)"
          by (rule dots_made_intro[OF C(3-7) i(1) d _ _ 2(2) refl]) simp_all
        then show ?thesis using C(1) 2 by (simp add: tempfs_mkdir_nonlinear_def)
      qed
    qed
  qed
  show "\<exists>s'. mkdir_dots d i s = Inr s' \<and> roomy k s'" if room: "roomy (364 + k) s"
  proof -
    obtain node s2 where m1: "malloc sizeof_DirEntryNode s = Inr (node, s2)" "roomy (313 + k) s2"
      using malloc_room[of sizeof_DirEntryNode "313 + k" s] room u by auto
    then obtain dot s3 where m2: "malloc sizeof_Inode (?s2 node s2) = Inr (dot, s3)" "roomy (182 + k) s3"
      using malloc_room[of sizeof_Inode "182 + k" "?s2 node s2"] u by (auto simp: upd_inode_def frame_simps)
    note C = mkdir_dots_core[OF inv i d m1(1) m2(1) refl]
    from tempfs_addentry_rep(2)[OF C(2,3) _ C(8)[OF m2(2)], of "''..''" True]
    show ?thesis using C(1) by (auto simp: tempfs_mkdir_nonlinear_def upd_inode_def frame_simps)
  qed
qed

text \<open>A new file system: the root directory with its two entries, provided the memory \<open>malloc\<close> returned for
  the root was zero where \<open>num_entries\<close> is.\<close>

lemma tempfs_new_core:
  assumes inv: "heap_inv s" and z: "\<And>a. num_entries (inodes s a) = 0"
    and m0: "malloc sizeof_Inode s = Inr (root, s1)" and m1: "malloc sizeof_DirEntryNode s1 = Inr (node, s2)"
    and m2: "malloc sizeof_Inode (upd_inode root (\<lambda>x. x\<lparr>i_first := node\<rparr>) s2) = Inr (dot, s3)"
    and t: "t = s3\<lparr>dirnodes := (dirnodes s)(node := (dirnodes s node)\<lparr>de_inode := dot, de_is_dir := True\<rparr>),
        inodes := (inodes s)(root := (inodes s root)\<lparr>i_first := node\<rparr>,
          dot := (inodes s dot)\<lparr>filename := ''.'', i_is_dir := True, i_first := node, num_entries := 2\<rparr>)\<rparr>"
  shows "tempfs_new s = res_bind (tempfs_mkdir_nonlinear root ''..'' node t)
      (\<lambda>s. Inr (root, upd_inode root (\<lambda>i. i\<lparr>i_is_dir := True\<rparr>) s))"
    and "heap_inv t" "dir_open t root [node]" "live t = (live s)(root \<mapsto> 104, node \<mapsto> 24, dot \<mapsto> 104)"
    and "root \<noteq> dot" "root \<noteq> node" "node \<noteq> dot" "\<And>k. roomy k s3 \<Longrightarrow> roomy k t"
    and "live s root = None" "live s node = None" "live s dot = None"
proof -
  have u: "unat sizeof_Inode < 2 ^ 62" "unat sizeof_DirEntryNode < 2 ^ 62" "unat sizeof_Inode = 104" "unat sizeof_DirEntryNode = 24"
    by (simp_all add: sizeof_Inode_def sizeof_DirEntryNode_def)
  note M0 = malloc_fs[OF inv u(1) m0]
  note M1 = malloc_fs[OF M0(4) u(2) m1]
  have h2: "heap_inv (upd_inode root (\<lambda>x. x\<lparr>i_first := node\<rparr>) s2)" using M1(4) by (simp add: upd_inode_def frame_simps)
  note M2 = malloc_fs[OF h2 u(1) m2]
  show "heap_inv t" using M2(4) by (simp add: t frame_simps)
  show l: "live t = (live s)(root \<mapsto> 104, node \<mapsto> 24, dot \<mapsto> 104)" using M0(6) M1(6) M2(6) u by (simp add: t upd_inode_def frame_simps)
  show f: "root \<noteq> dot" "root \<noteq> node" "node \<noteq> dot" "live s root = None" "live s node = None" "live s dot = None"
    using M0(5,6) M1(5,6) M2(5) by (auto simp: upd_inode_def frame_simps split: if_splits)
  show "tempfs_new s = res_bind (tempfs_mkdir_nonlinear root ''..'' node t)
      (\<lambda>s. Inr (root, upd_inode root (\<lambda>i. i\<lparr>i_is_dir := True\<rparr>) s))"
    using m0 m1 m2 M0 M1 M2 f by (simp add: tempfs_new_def Let_def) (simp add: upd_inode_def upd_dirnode_def t)
  show "dir_open t root [node]" using l f z M1(7) by (auto simp: dir_open_def t)
  show "roomy k t" if "roomy k s3" for k using that by (simp add: t frame_simps)
qed

lemma tempfs_new_root:
  assumes room: "roomy (495 + k) s" and z: "\<And>a. num_entries (inodes s a) = 0"
  shows "\<exists>root s' node e dot dd. tempfs_new s = Inr (root, s') \<and> roomy k s' \<and> dir_rep s' root [node, e] \<and> entry_name s' node = ''.'' \<and>
    dir_lookup s' [node, e] = [''.'' \<mapsto> dot, ''..'' \<mapsto> dd] \<and> i_is_dir (inodes s' root) \<and>
    dot \<noteq> 0 \<and> dd \<noteq> 0 \<and> i_first (inodes s' dot) = node \<and> i_first (inodes s' dd) = node \<and>
    num_entries (inodes s' dot) = 2 \<and> num_entries (inodes s' dd) = 0 \<and> live s' dot = Some 104 \<and> live s' dd = Some 104 \<and>
    map_le (live s) (live s')"
proof -
  have u: "unat sizeof_Inode < 2 ^ 62" "unat sizeof_DirEntryNode < 2 ^ 62" "unat sizeof_Inode = 104" "unat sizeof_DirEntryNode = 24"
    by (simp_all add: sizeof_Inode_def sizeof_DirEntryNode_def)
  have inv: "heap_inv s" by (rule roomy_inv[OF room])
  obtain root s1 where m0: "malloc sizeof_Inode s = Inr (root, s1)" "roomy (364 + k) s1"
    using malloc_room[of sizeof_Inode "364 + k" s] room u by auto
  obtain node s2 where m1: "malloc sizeof_DirEntryNode s1 = Inr (node, s2)" "roomy (313 + k) s2"
    using malloc_room[of sizeof_DirEntryNode "313 + k" s1] m0 u by auto
  then obtain dot s3 where m2: "malloc sizeof_Inode (upd_inode root (\<lambda>x. x\<lparr>i_first := node\<rparr>) s2) = Inr (dot, s3)" "roomy (182 + k) s3"
    using malloc_room[of sizeof_Inode "182 + k" "upd_inode root (\<lambda>x. x\<lparr>i_first := node\<rparr>) s2"] u by (auto simp: upd_inode_def frame_simps)
  note C = tempfs_new_core[OF inv z m0(1) m1(1) m2(1) refl]
  let ?t = "s3\<lparr>dirnodes := (dirnodes s)(node := (dirnodes s node)\<lparr>de_inode := dot, de_is_dir := True\<rparr>),
        inodes := (inodes s)(root := (inodes s root)\<lparr>i_first := node\<rparr>,
          dot := (inodes s dot)\<lparr>filename := ''.'', i_is_dir := True, i_first := node, num_entries := 2\<rparr>)\<rparr>"
  obtain dd u e where ad: "tempfs_addentry root ''..'' True ?t = Inr (dd, u)" "roomy k u" "entry_added root ''..'' True [node] dd e ?t u"
    using tempfs_addentry_rep(1)[OF C(2,3), of "''..''" True] tempfs_addentry_rep(2)[OF C(2,3) _ C(8)[OF m2(2)], of "''..''" True] by auto
  note A = entry_addedD[OF ad(3)]
  let ?s = "upd_inode root (\<lambda>i. i\<lparr>i_is_dir := True\<rparr>) (upd_inode dd (\<lambda>x. x\<lparr>i_first := node\<rparr>) u)"
  have new: "tempfs_new s = Inr (root, ?s)" using C(1) ad(1) by (simp add: tempfs_mkdir_nonlinear_def)
  have ne: "dd \<noteq> root" "dd \<noteq> dot" "dd \<noteq> node" "e \<noteq> node" "e \<noteq> root" "e \<noteq> dot" "live s dd = None" "live s e = None" "dot \<noteq> 0"
    using A(2,3) C(4,9-11) live_nonnull[OF A(1), of dot] by (auto simp: A(5) C(4) split: if_splits)
  have l: "live ?s = live u" "live u = (live s)(root \<mapsto> 104, node \<mapsto> 24, dot \<mapsto> 104, dd \<mapsto> 104, e \<mapsto> 24)"
    using C(4) by (simp_all add: upd_inode_def frame_simps A(5))
  have i: "inodes ?s = (inodes u)(dd := (inodes u dd)\<lparr>i_first := node\<rparr>, root := (inodes u root)\<lparr>i_is_dir := True\<rparr>)" "dirnodes ?s = dirnodes u"
    using ne by (simp_all add: upd_inode_def)
  have "dir_rep ?s root [node, e]"
    using entry_added_dir_rep(1)[OF C(3) ad(3)] ne by (auto intro!: dir_rep_cong[of u] simp: i l)
  moreover have "dir_lookup ?s [node, e] = [''.'' \<mapsto> dot, ''..'' \<mapsto> dd]" "entry_name ?s node = ''.''"
    using ne C(5-7) by (auto simp: fun_eq_iff dir_lookup_def entry_name_def A(7) i A(6))
  moreover have "i_first (inodes ?s dot) = node" "i_first (inodes ?s dd) = node" "num_entries (inodes ?s dot) = 2"
    "num_entries (inodes ?s dd) = 0" "i_is_dir (inodes ?s root)"
    using ne C(5-7) by (simp_all add: i A(6) zero_Inode_def)
  moreover have "live ?s dot = Some 104" "live ?s dd = Some 104" "map_le (live s) (live ?s)" "roomy k ?s"
    using ne A(4) C(5-7,9-11) ad(2) by (auto simp: l map_le_def) (simp add: upd_inode_def frame_simps)
  ultimately show ?thesis using new ne(9) A(9) by blast
qed

section \<open>Adding through \<open>.\<close> and \<open>..\<close>\<close>

lemma walk_entries_end: "chain (entry_next s) p ns \<Longrightarrow> walk_entries (length ns) p s = Inr 0"
  by (induction ns arbitrary: p) (auto simp: get_dirnode_def)

lemma tempfs_addentry_overrun:
  assumes room: "roomy 182 s" and c: "chain (entry_next s) p ns" "p \<noteq> 0" "\<And>n. n \<in> set ns \<Longrightarrow> live s n = Some 24"
    and d: "live s d = Some 104" "i_first (inodes s d) = p" "num_entries (inodes s d) = of_nat (length ns)"
  shows "tempfs_addentry d name b s = Inl NullDeref"
proof -
  have u: "unat sizeof_Inode < 2 ^ 62" "unat sizeof_DirEntryNode < 2 ^ 62" "unat sizeof_Inode = 104" "unat sizeof_DirEntryNode = 24"
    by (simp_all add: sizeof_Inode_def sizeof_DirEntryNode_def)
  have inv: "heap_inv s" by (rule roomy_inv[OF room])
  obtain i s1 where m1: "malloc sizeof_Inode s = Inr (i, s1)" "roomy 51 s1"
    using malloc_room[of sizeof_Inode 51 s] room u by auto
  obtain e s2 where m2: "malloc sizeof_DirEntryNode s1 = Inr (e, s2)"
    using malloc_room[of sizeof_DirEntryNode 0 s1] m1 u by auto
  note M1 = malloc_fs[OF inv u(1) m1(1)]
  note M2 = malloc_fs[OF M1(4) u(2) m2]
  have ne: "d \<noteq> 0" "i \<noteq> d" "e \<notin> set ns"
    using live_nonnull[OF inv d(1)] d(1) M1(5,6) M2(5) c(3) by (auto split: if_splits)
  let ?t = "upd_inode i (\<lambda>_. zero_Inode) (upd_dirnode e (\<lambda>_. zero_DirEntryNode) s2)"
  have "chain (entry_next ?t) p ns"
    using c(1) ne M1 M2 by (subst chain_cong[where nxt' = "entry_next s"]) (auto simp: upd_inode_def upd_dirnode_def)
  moreover have "unat (num_entries (inodes ?t d)) = length ns"
    using ne d(3) M1 M2 chain_length_less[OF c(1)] by (simp add: upd_inode_def upd_dirnode_def unat_of_nat_u64)
  ultimately have "walk_entries (unat (num_entries (inodes ?t d))) p ?t = Inr 0" using walk_entries_end[of ?t p ns] by simp
  then show ?thesis using m1(1) m2 c(2) d(2) ne(1) by (simp add: tempfs_addentry_def get_inode_def Let_def)
qed

lemma tempfs_addentry_first_only:
  assumes inv: "heap_inv s" and r: "dir_rep s d ns" and dd: "live s dd = Some 104" "i_first (inodes s dd) = i_first (inodes s d)"
    "num_entries (inodes s dd) = 0" and n: "length name < 20" and a: "tempfs_addentry dd name b s = Inr (i, s')"
  shows "tempfs_find d n s' = Inr (if n = entry_name s (hd ns) then de_inode (dirnodes s (hd ns)) else if n = name then i else 0)"
proof -
  note R = dir_openD[OF dir_repD(1)[OF r]]
  have o: "dir_open s dd [hd ns]" using R dd by (auto simp: dir_open_def)
  from tempfs_addentry_rep(1)[OF inv o n, of b] a obtain e where ad: "entry_added dd name b [hd ns] i e s s'" by auto
  note A = entry_addedD[OF ad]
  have "dir_lookup s [hd ns] n = (if n = entry_name s (hd ns) then Some (de_inode (dirnodes s (hd ns))) else None)"
    by (simp add: dir_lookup_def)
  then have "tempfs_find dd n s' = Inr (if n = entry_name s (hd ns) then de_inode (dirnodes s (hd ns)) else if n = name then i else 0)"
    unfolding tempfs_find_rep[OF A(1) entry_added_dir_rep(1)[OF o ad], of n] entry_added_dir_rep(2)[OF o ad, of n] by simp
  moreover have "i \<noteq> d" "i \<noteq> dd" using A(2) R(4) dd(1) by auto
  then have "i_first (inodes s' x) = i_first (inodes s x)" if "x \<in> {d, dd}" for x using that by (auto simp: A(6))
  then have "i_first (inodes s' d) = i_first (inodes s' dd)" using dd(2) by simp
  moreover have "d \<noteq> 0" "dd \<noteq> 0" using live_nonnull[OF inv] R(4) dd(1) by auto
  ultimately show ?thesis using tempfs_find_first[of d dd s' n] by simp
qed

section \<open>Properties of directories\<close>

text \<open>C21. A directory is a table of names: on a heap with room for the inode and its entry, adding an entry with
  a name of less than 20 characters to a well-formed directory (reached by its own inode, not through the
  inodes of \<open>.\<close> and \<open>..\<close>, whose entry counts differ) makes a name that was absent lead to the new inode; a
  name that was there still leads to the old one, the walk taking the first entry, and the result of no
  other lookup changes. The directory stays well formed.\<close>

theorem tempfs_addentry_updates_table:
  assumes "roomy (182 + k) s" "dir_rep s d ns" "length name < 20"
  shows "\<exists>i s' e. tempfs_addentry d name b s = Inr (i, s') \<and> roomy k s' \<and> dir_rep s' d (ns @ [e]) \<and>
    (\<forall>n. tempfs_find d n s' = (if n = name \<and> tempfs_find d name s = Inr 0 then Inr i else tempfs_find d n s)) \<and>
    filename (inodes s' i) = name \<and> i_is_dir (inodes s' i) = b"
proof -
  have inv: "heap_inv s" by (rule roomy_inv[OF assms(1)])
  note o = dir_repD(1)[OF assms(2)]
  obtain i s' e where a: "tempfs_addentry d name b s = Inr (i, s')" "roomy k s'" "entry_added d name b ns i e s s'"
    by (rule tempfs_addentry_ok[OF assms(1) o assms(3)])
  have "i \<noteq> d" using entry_addedD(2)[OF a(3)] dir_openD(4)[OF o] by auto
  then have "filename (inodes s' i) = name" "i_is_dir (inodes s' i) = b" by (simp_all add: entry_addedD(6)[OF a(3)])
  moreover have "dir_denotes s d (dir_lookup s ns)" using assms(2) by (auto simp: dir_denotes_def)
  note tempdir.find_after_add[OF inv this assms(3) a(1)]
  ultimately show ?thesis using a entry_added_dir_rep(1)[OF o a(3)] by blast
qed

definition sample_fs :: "kheap_state \<Rightarrow> fs_state" where
  "sample_fs s = screen_state.extend (tasks_state.extend (sample_tasks s)
     \<lparr>fb_address = 0xfd000000, fb_width = 32, fb_height = 40, fb_pitch = 128, fb_bpp = 32, framebuffer_size = 5120,
      back_buffer = 0x200000, char_size = 16, font_data = 0x300000, font_loaded = True, fg_colour = 0xFFFFFF,
      bg_colour = 0, ch_X = 5, ch_Y = 5, serial_text = []\<rparr>)
     \<lparr>inodes = (\<lambda>_. zero_Inode), dirnodes = (\<lambda>_. zero_DirEntryNode), fnode_next = (\<lambda>_. 0)\<rparr>"

lemma sample_fs_root:
  "\<exists>(s :: fs_state) root node e dot dd. roomy 7000 s \<and> dir_rep s root [node, e] \<and> entry_name s node = ''.'' \<and>
    dir_lookup s [node, e] = [''.'' \<mapsto> dot, ''..'' \<mapsto> dd] \<and> i_first (inodes s dot) = node \<and> i_first (inodes s dd) = node \<and>
    num_entries (inodes s dot) = 2 \<and> num_entries (inodes s dd) = 0 \<and> live s dot = Some 104 \<and> live s dd = Some 104"
proof -
  obtain s0 :: kheap_state where s0: "roomy 8165 s0" using sample_heap by blast
  have "roomy (495 + 7000) (sample_fs s0) = roomy (495 + 7000) s0"
    by (rule heap_cong) (simp add: sample_fs_def sample_tasks_defs tasks_state.defs screen_state.defs)
  then have "roomy (495 + 7000) (sample_fs s0)" using roomy_mono[OF s0] by simp
  moreover have "num_entries (inodes (sample_fs s0) a) = 0" for a by (simp add: sample_fs_def screen_state.defs zero_Inode_def)
  ultimately show ?thesis using tempfs_new_root[of 7000 "sample_fs s0"] by blast
qed

theorem tempfs_addentry_updates_table_witness:
  "\<exists>(s :: fs_state) root i s'. tempfs_addentry root ''motd'' False s = Inr (i, s') \<and> tempfs_find root ''motd'' s = Inr 0 \<and>
     tempfs_find root ''motd'' s' = Inr i"
proof -
  obtain s :: fs_state and root node e dot dd where s: "roomy 7000 s" "dir_rep s root [node, e]"
    "dir_lookup s [node, e] = [''.'' \<mapsto> dot, ''..'' \<mapsto> dd]" using sample_fs_root by blast
  then have "roomy (182 + 6818) s" "tempfs_find root ''motd'' s = Inr 0"
    using tempfs_find_rep[OF roomy_inv[OF s(1)] s(2), of "''motd''"] by simp_all
  then show ?thesis using tempfs_addentry_updates_table[OF _ s(2), of 6818 "''motd''" False] by force
qed

text \<open>\<open>tempfs_mkdir\<close>: the name now leads to a directory whose only entries are \<open>.\<close> and \<open>..\<close>; a lookup
  through \<open>.\<close> gives what the new directory gives and a lookup through \<open>..\<close> what the parent gives.\<close>

theorem tempfs_mkdir_makes_directory:
  assumes room: "roomy (546 + k) s" and r: "dir_rep s d ns" and n: "length name < 20" and new: "tempfs_find d name s = Inr 0"
  shows "\<exists>s' i dot dd. tempfs_mkdir d name s = Inr s' \<and> roomy k s' \<and>
    (\<forall>m. tempfs_find d m s' = (if m = name then Inr i else tempfs_find d m s)) \<and> tempfs_open_dir i s' = Inr i \<and>
    (\<forall>m. tempfs_find i m s' = Inr (if m = ''.'' then dot else if m = ''..'' then dd else 0)) \<and>
    (\<forall>m. tempfs_find dot m s' = tempfs_find i m s') \<and> (\<forall>m. tempfs_find dd m s' = tempfs_find d m s')"
proof -
  have inv: "heap_inv s" by (rule roomy_inv[OF room])
  note o = dir_repD(1)[OF r]
  obtain i s1 e where a: "tempfs_addentry d name True s = Inr (i, s1)" "roomy (364 + k) s1" "entry_added d name True ns i e s s1"
    using tempfs_addentry_ok[of "364 + k" s d ns name True] room o n by (simp add: add.assoc[symmetric]) blast
  note A = entry_addedD[OF a(3)]
  have r1: "dir_rep s1 d (ns @ [e])" by (rule entry_added_dir_rep(1)[OF o a(3)])
  have li: "live s1 i = Some 104" "live s1 d = Some 104" "d \<noteq> i" "num_entries (inodes s1 i) = 0" "i_is_dir (inodes s1 i)"
    using A(2,3,4) dir_openD(4)[OF o] by (auto simp: A(5) A(6) zero_Inode_def)
  obtain s' where m: "mkdir_dots d i s1 = Inr s'" "roomy k s'" "dots_made d i s1 s'"
    using mkdir_dots_made(1)[OF A(1) li(1,4,2,3)] mkdir_dots_made(2)[OF A(1) li(1,4,2,3) a(2)] by auto
  then obtain node e' dot dd where D: "heap_inv s'" "map_le (live s1) (live s')" "dir_rep s' i [node, e']"
    "dir_lookup s' [node, e'] = [''.'' \<mapsto> dot, ''..'' \<mapsto> dd]" "dot \<noteq> 0" "dd \<noteq> 0" "i_first (inodes s' dot) = node"
    "i_first (inodes s' dd) = i_first (inodes s1 d)" "filename (inodes s' i) = filename (inodes s1 i)" "i_is_dir (inodes s' i)"
    and K: "\<And>a. live s1 a \<noteq> None \<Longrightarrow> dirnodes s' a = dirnodes s1 a" "\<And>a. live s1 a \<noteq> None \<Longrightarrow> a \<noteq> i \<Longrightarrow> inodes s' a = inodes s1 a"
    using li(5) by (auto simp: dots_made_def)
  have fin: "tempfs_find d m s' = (if m = name then Inr i else tempfs_find d m s)" for m
  proof -
    note R1 = dir_openD[OF dir_repD(1)[OF r1]]
    have "dir_rep s' d (ns @ [e])" using R1(4,5) K li(3) D(2) by (intro dir_rep_cong[OF r1]) auto
    moreover have "filename (inodes s' a) = filename (inodes s1 a)" if "live s1 a = Some 104" for a
      using K(2)[of a] D(9) that by (cases "a = i") auto
    then have "dir_lookup s' (ns @ [e]) = dir_lookup s1 (ns @ [e])" using R1(5,6) K(1) by (intro dir_lookup_cong) auto
    ultimately have "tempfs_find d m s' = tempfs_find d m s1" using tempfs_find_rep[OF D(1)] tempfs_find_rep[OF A(1) r1] by simp
    moreover have "dir_denotes s d (dir_lookup s ns)" using r by (auto simp: dir_denotes_def)
    note tempdir.find_after_add[OF inv this n a(1), of m]
    ultimately show ?thesis using new by auto
  qed
  have ii: "tempfs_find i m s' = Inr (if m = ''.'' then dot else if m = ''..'' then dd else 0)" for m
    using tempfs_find_rep[OF D(1,3), of m] by (simp add: D(4))
  have nz: "i \<noteq> 0" "d \<noteq> 0" by (rule A(9), rule live_nonnull[OF A(1) li(2)])
  have "i_first (inodes s' i) = node" "i_first (inodes s' d) = i_first (inodes s1 d)"
    using dir_openD(7)[OF dir_repD(1)[OF D(3)]] K(2)[of d] li by auto
  then have "tempfs_find dot m s' = tempfs_find i m s'" "tempfs_find dd m s' = tempfs_find d m s'" for m
    using tempfs_find_first[of dot i s' m] tempfs_find_first[of dd d s' m] D nz by auto
  moreover have "tempfs_open_dir i s' = Inr i" using D(10) nz by (simp add: tempfs_open_dir_def get_inode_def)
  moreover have "tempfs_mkdir d name s = Inr s'" using a(1) m(1) by (simp add: tempfs_mkdir_def)
  ultimately show ?thesis using m(2) fin ii by blast
qed

theorem tempfs_mkdir_makes_directory_witness:
  "\<exists>(s :: fs_state) root s' i dd. tempfs_mkdir root ''exec'' s = Inr s' \<and> tempfs_find root ''exec'' s' = Inr i \<and>
     tempfs_find i ''..'' s' = Inr dd \<and> tempfs_find dd ''exec'' s' = Inr i"
proof -
  obtain s :: fs_state and root node e dot dd where s: "roomy 7000 s" "dir_rep s root [node, e]"
    "dir_lookup s [node, e] = [''.'' \<mapsto> dot, ''..'' \<mapsto> dd]" using sample_fs_root by blast
  then have "roomy (546 + 6454) s" "tempfs_find root ''exec'' s = Inr 0"
    using tempfs_find_rep[OF roomy_inv[OF s(1)] s(2), of "''exec''"] by simp_all
  from tempfs_mkdir_makes_directory[OF this(1) s(2) _ this(2)] show ?thesis by force
qed

text \<open>Entries cannot be added through \<open>.\<close> and \<open>..\<close>, whose inodes keep entry counts of their own (2 and 0):
  through \<open>.\<close> of a directory with two entries the walk runs off the list and writes through a null
  pointer; through \<open>..\<close> the new entry replaces all entries of the parent but the first.\<close>

theorem tempfs_addentry_through_dots:
  assumes "roomy 182 s" "dir_rep s d ns" "length name < 20"
  shows "(length ns = 2 \<and> live s dot = Some 104 \<and> i_first (inodes s dot) = i_first (inodes s d) \<and> num_entries (inodes s dot) = 2 \<longrightarrow>
      tempfs_addentry dot name b s = Inl NullDeref) \<and>
    (live s dd = Some 104 \<and> i_first (inodes s dd) = i_first (inodes s d) \<and> num_entries (inodes s dd) = 0 \<longrightarrow>
      (\<exists>i s'. tempfs_addentry dd name b s = Inr (i, s') \<and>
        (\<forall>n. n \<noteq> entry_name s (hd ns) \<longrightarrow> n \<noteq> name \<longrightarrow> tempfs_find d n s' = Inr 0)))"
proof (intro conjI impI)
  have inv: "heap_inv s" by (rule roomy_inv[OF assms(1)])
  note R = dir_openD[OF dir_repD(1)[OF assms(2)]]
  show "tempfs_addentry dot name b s = Inl NullDeref"
    if "length ns = 2 \<and> live s dot = Some 104 \<and> i_first (inodes s dot) = i_first (inodes s d) \<and> num_entries (inodes s dot) = 2"
    using tempfs_addentry_overrun[OF assms(1) dir_repD(2)[OF assms(2)] _ R(5), of dot name b] R(7,8) that by simp
  show "\<exists>i s'. tempfs_addentry dd name b s = Inr (i, s') \<and>
        (\<forall>n. n \<noteq> entry_name s (hd ns) \<longrightarrow> n \<noteq> name \<longrightarrow> tempfs_find d n s' = Inr 0)"
    if dd: "live s dd = Some 104 \<and> i_first (inodes s dd) = i_first (inodes s d) \<and> num_entries (inodes s dd) = 0"
  proof -
    have "dir_open s dd [hd ns]" using R dd by (auto simp: dir_open_def)
    then obtain i s' where a: "tempfs_addentry dd name b s = Inr (i, s')"
      using tempfs_addentry_ok[of 0 s dd "[hd ns]" name b] assms(1,3) by simp blast
    from tempfs_addentry_first_only[OF inv assms(2) _ _ _ assms(3) a] dd a show ?thesis by auto
  qed
qed

theorem tempfs_addentry_through_dots_witness:
  "\<exists>(s :: fs_state) root dot dd i s'. tempfs_find root ''.'' s = Inr dot \<and> tempfs_addentry dot ''a'' False s = Inl NullDeref \<and>
     tempfs_find root ''..'' s = Inr dd \<and> tempfs_addentry dd ''a'' False s = Inr (i, s') \<and> tempfs_find root ''..'' s' = Inr 0"
proof -
  obtain s :: fs_state and root node e dot dd where s: "roomy 7000 s" "dir_rep s root [node, e]"
    "dir_lookup s [node, e] = [''.'' \<mapsto> dot, ''..'' \<mapsto> dd]" "i_first (inodes s dot) = node" "i_first (inodes s dd) = node"
    "num_entries (inodes s dot) = 2" "num_entries (inodes s dd) = 0" "live s dot = Some 104" "live s dd = Some 104"
    "entry_name s node = ''.''" using sample_fs_root by blast
  have room: "roomy 182 s" using roomy_mono[OF s(1)] by simp
  have f: "i_first (inodes s root) = node" using dir_openD(7)[OF dir_repD(1)[OF s(2)]] by simp
  then obtain i s' where "tempfs_addentry dd ''a'' False s = Inr (i, s')" "tempfs_find root ''..'' s' = Inr 0"
    using tempfs_addentry_through_dots[OF room s(2), of "''a''" dot False dd] s by auto
  moreover have "tempfs_addentry dot ''a'' False s = Inl NullDeref"
    using tempfs_addentry_through_dots[OF room s(2), of "''a''" dot False dd] s f by simp
  moreover have "tempfs_find root ''.'' s = Inr dot" "tempfs_find root ''..'' s = Inr dd"
    using tempfs_find_rep[OF roomy_inv[OF s(1)] s(2)] by (simp_all add: s(3))
  ultimately show ?thesis by blast
qed

end
