(* ===== verification/VFS.thy ===== *)
theory VFS
  imports TempFS Printf
begin

text \<open>
  The virtual file system (\<open>src/src/fs/vfs.c\<close>) and the zero device (\<open>src/src/fs/devices.c\<close>): 26 drives, paths
  \<open>X:/dir/file\<close>, relative to the current directory of the running task otherwise, and open files.

  A path is its text. The loops over a path keep the part that is still to be read: the pointer
  \<open>new_path\<close> into the copy and the index \<open>i\<close> always stand at its start. Path copies that the code never
  frees stay allocated in the model too. A terminator written right behind a block lands in the byte
  that \<open>malloc\<close> leaves unused there.
\<close>

section \<open>State\<close>

text \<open>The function table of a drive is all zero or \<open>TempFS\<close>.\<close>

datatype FileSystem = Zero_FileSystem | TempFS_functions

definition fs_id :: "FileSystem \<Rightarrow> u8" where
  "fs_id fs = 0"

definition FS_TEMPFS :: u8 where "FS_TEMPFS = 0"

text \<open>\<open>mem_offset\<close> shares its place with \<open>disk\<close>.\<close>

record Drive =
  present :: bool
  fs :: FileSystem
  in_memory :: bool
  mem_offset :: u64
  partition :: u64

record File =
  f_present :: bool
  ftype :: u8
  f_length :: u64
  drive_char :: char
  f_mode :: u8
  f_private :: u64

record vfs_state = fs_state +
  filesystems :: "FileSystem list"
  drives :: "Drive list"
  files :: "u64 \<Rightarrow> File"
  serial_held :: bool

definition zero_Drive :: Drive where
  "zero_Drive = \<lparr>present = False, fs = Zero_FileSystem, in_memory = False, mem_offset = 0, partition = 0\<rparr>"

definition O_CREAT :: u32 where "O_CREAT = 1"
definition O_CREATALL :: u32 where "O_CREATALL = 2"
definition MODE_READONLY :: u8 where "MODE_READONLY = 1"
definition MODE_WRITEONLY :: u8 where "MODE_WRITEONLY = 2"
definition MODE_READWRITE :: u8 where "MODE_READWRITE = 3"
definition FTYPE_REGULAR :: u8 where "FTYPE_REGULAR = 1"
definition FTYPE_STDOUT :: u8 where "FTYPE_STDOUT = 2"
definition FTYPE_STDIN :: u8 where "FTYPE_STDIN = 3"
definition FTYPE_STDERR :: u8 where "FTYPE_STDERR = 4"
definition sizeof_File :: u64 where "sizeof_File = 32"

definition get_file :: "u64 \<Rightarrow> 'a vfs_state_scheme \<Rightarrow> File result" where
  "get_file f s = (if f = 0 then Inl NullDeref else Inr (files s f))"

text \<open>A call through the function table of a drive.\<close>

definition fs_call :: "FileSystem \<Rightarrow> 'r result \<Rightarrow> 'r result" where
  "fs_call t r = (case t of Zero_FileSystem \<Rightarrow> Inl NullDeref | TempFS_functions \<Rightarrow> r)"

text \<open>\<open>path[i]\<close> of a C string: its characters, the terminator, and nothing behind it.\<close>

definition str_at :: "string \<Rightarrow> nat \<Rightarrow> char result" where
  "str_at path i = arr_get (path @ [NUL]) i"

definition code :: "char \<Rightarrow> nat" where
  "code c = of_char c"

definition drive_letter :: "char \<Rightarrow> bool" where
  "drive_letter c \<longleftrightarrow> code CHR ''A'' \<le> code c \<and> code c \<le> code CHR ''Z''"

definition upper_case :: "char \<Rightarrow> char" where
  "upper_case c = (if code CHR ''a'' \<le> code c \<and> code c \<le> code CHR ''z'' then char_of (code c - 32) else c)"

text \<open>\<open>kernel.drives[drive - 'A']\<close>, the index as an 8-bit number.\<close>

definition drive_at :: "char \<Rightarrow> 'a vfs_state_scheme \<Rightarrow> Drive result" where
  "drive_at c s = arr_get (drives s) (unat (of_nat (code c) - 65 :: u8))"

section \<open>Drives\<close>

definition init_vfs :: "'a vfs_state_scheme \<Rightarrow> 'a vfs_state_scheme" where
  "init_vfs s = s\<lparr>drives := replicate 26 zero_Drive, filesystems := (filesystems s)[0 := TempFS_functions]\<rparr>"

definition mount ::
  "char \<Rightarrow> u16 \<Rightarrow> bool \<Rightarrow> u64 \<Rightarrow> u64 \<Rightarrow> u64 \<Rightarrow> 'a vfs_state_scheme \<Rightarrow> (u32 \<times> 'a vfs_state_scheme) result" where
  "mount drive filesystem memory_based offset disk part s =
     (let drive = upper_case drive in
      if \<not> drive_letter drive then Inr (1, s)
      else
        (let drive_num = code drive - code CHR ''A'' in
         res_bind (arr_get (filesystems s) (unat filesystem)) (\<lambda>f.
         let d = zero_Drive\<lparr>present := True, fs := f, in_memory := memory_based\<rparr>;
             d = (if memory_based then d\<lparr>mem_offset := offset\<rparr> else d\<lparr>mem_offset := disk, partition := part\<rparr>)
         in res_bind (arr_set (drives s) drive_num d) (\<lambda>ds. Inr (0, s\<lparr>drives := ds\<rparr>)))))"

definition unmount :: "char \<Rightarrow> 'a vfs_state_scheme \<Rightarrow> (u32 \<times> 'a vfs_state_scheme) result" where
  "unmount drive s =
     (let drive = upper_case drive in
      if \<not> drive_letter drive then Inr (1, s)
      else res_bind (arr_set (drives s) (code drive - code CHR ''A'') zero_Drive) (\<lambda>ds. Inr (0, s\<lparr>drives := ds\<rparr>)))"

section \<open>Paths\<close>

definition is_relative :: "string \<Rightarrow> bool result" where
  "is_relative path =
     res_bind (str_at path 1) (\<lambda>c1.
     if c1 \<noteq> CHR '':'' then Inr True
     else res_bind (str_at path 2) (\<lambda>c2. Inr (c2 \<noteq> CHR ''/'')))"

text \<open>The first lines of \<open>open\<close>, \<open>mkdir\<close> and \<open>create_device\<close>: the path with its drive.\<close>

definition resolve_path :: "string \<Rightarrow> 'a vfs_state_scheme \<Rightarrow> (string \<times> 'a vfs_state_scheme) result" where
  "resolve_path path s =
     res_bind (get_current_task s) (\<lambda>(current_task, s).
     res_bind (is_relative path) (\<lambda>rel.
     if \<not> rel then Inr (path, s)
     else
       res_bind (str_at path 0) (\<lambda>c0.
       if c0 = CHR ''/'' then
         res_bind (malloc (of_nat (length path) + 3) s) (\<lambda>(path_ext, s).
         res_bind (get_Task current_task s) (\<lambda>t.
         res_bind (str_at (strs s (current_dir t)) 0) (\<lambda>d.
           Inr (d # CHR '':'' # path, s))))
       else
         res_bind (get_Task current_task s) (\<lambda>t.
         let cd = strs s (current_dir t) in
         res_bind (malloc (of_nat (length cd) + of_nat (length path) + 1) s) (\<lambda>(path_ext, s).
           Inr (cd @ path, s))))))"

definition change_cd :: "string \<Rightarrow> 'a vfs_state_scheme \<Rightarrow> 'a vfs_state_scheme result" where
  "change_cd path s =
     res_bind (get_current_task s) (\<lambda>(current_task, s).
     res_bind (is_relative path) (\<lambda>rel.
     res_bind
       (if \<not> rel then Inr (path, s)
        else
          res_bind (str_at path 0) (\<lambda>c0.
          if c0 = CHR ''/'' then
            res_bind (malloc (of_nat (length path) + 4) s) (\<lambda>(path_ext, s).
            res_bind (get_Task current_task s) (\<lambda>t.
            res_bind (str_at (strs s (current_dir t)) 0) (\<lambda>d.
              Inr (d # CHR '':'' # path @ ''/'', s))))
          else
            res_bind (get_Task current_task s) (\<lambda>t.
            let cd = strs s (current_dir t) in
            res_bind (malloc (of_nat (length cd) + of_nat (length path) + 1) s) (\<lambda>(path_ext, s).
              Inr (cd @ path @ ''/'', s))))) (\<lambda>(path, s).
     res_bind (get_Task current_task s) (\<lambda>t.
     res_bind (kfree (current_dir t) s) (\<lambda>s.
     res_bind (malloc (of_nat (length path) + 1) s) (\<lambda>(dir, s).
     let s = set_Task current_task ((tasks s current_task)\<lparr>current_dir := dir\<rparr>) s in
       Inr (s\<lparr>strs := (strs s)(dir := path)\<rparr>)))))))"

section \<open>Opening files\<close>

lemma dropWhile_shorter: "xs \<noteq> [] \<Longrightarrow> length (dropWhile P xs) - Suc 0 < length xs"
  using length_dropWhile_le[of P xs] by (cases xs) (auto simp del: length_dropWhile_le)

text \<open>\<open>open\<close>'s loop over the components. The result is \<open>None\<close> where the code returns \<open>NULL\<close>, otherwise the
  object reached and the text \<open>new_path\<close> points to.\<close>

function open_loop ::
  "'a vfs_state_scheme device_calls \<Rightarrow> FileSystem \<Rightarrow> u32 \<Rightarrow> u8 \<Rightarrow> string \<Rightarrow> u64 \<Rightarrow> 'a vfs_state_scheme \<Rightarrow>
     ((u64 \<times> string) option \<times> 'a vfs_state_scheme) result" where
  "open_loop D t flags mode rest current_obj s =
     (if rest = [] then Inr (Some (current_obj, rest), s)
      else
        (let name = takeWhile (\<lambda>c. c \<noteq> CHR ''/'') rest; after = dropWhile (\<lambda>c. c \<noteq> CHR ''/'') rest in
         if after \<noteq> [] then
           res_bind (fs_call t (tempfs_find current_obj name s)) (\<lambda>this_dir.
           if this_dir = 0 \<and> flags AND O_CREATALL = 0 then Inr (None, s)
           else
             res_bind
               (if this_dir = 0 then
                  res_bind (fs_call t (tempfs_mkdir current_obj name s)) (\<lambda>s.
                  res_bind (fs_call t (tempfs_find current_obj name s)) (\<lambda>this_dir. Inr (this_dir, s)))
                else Inr (this_dir, s)) (\<lambda>(this_dir, s).
             res_bind (fs_call t (tempfs_open_dir this_dir s)) (\<lambda>current_obj.
               open_loop D t flags mode (tl after) current_obj s)))
         else
           res_bind (fs_call t (tempfs_find current_obj name s)) (\<lambda>this_file.
           if this_file = 0 \<and> \<not> (flags AND O_CREAT \<noteq> 0 \<or> flags AND O_CREATALL \<noteq> 0) then Inr (None, s)
           else
             res_bind
               (if this_file = 0 then
                  res_bind (fs_call t (tempfs_mkfile current_obj name s)) (\<lambda>s.
                  res_bind (fs_call t (tempfs_find current_obj name s)) (\<lambda>this_file. Inr (this_file, s)))
                else Inr (this_file, s)) (\<lambda>(this_file, s).
             res_bind (fs_call t (tempfs_open_file D this_file mode s)) (\<lambda>(current_obj, s).
               Inr (Some (current_obj, rest), s))))))"
  by pat_completeness auto
termination by (relation "measure (\<lambda>(D, t, flags, mode, rest, current_obj, s). length rest)") (auto intro: dropWhile_shorter)

declare open_loop.simps [simp del]

text \<open>\<open>check_file_type\<close> reads the name after the path copy was freed. When \<open>malloc\<close> has handed the same block
  out for the new \<open>File\<close>, the members already written cover the bytes 16 (drive), 17 (mode) and 24 to
  31 (private) of the copy; \<open>None\<close> is a byte behind it.\<close>

definition copy_byte :: "bool \<Rightarrow> char \<Rightarrow> u8 \<Rightarrow> u64 \<Rightarrow> string \<Rightarrow> nat \<Rightarrow> char option" where
  "copy_byte reused drive mode private path j =
     (if reused \<and> j = 16 then Some drive
      else if reused \<and> j = 17 then Some (char_of (unat mode))
      else if reused \<and> 24 \<le> j \<and> j < 32 then Some (char_of (unat (drop_bit (8 * (j - 24)) private) mod 256))
      else if j < length path then Some (path ! j)
      else if j = length path then Some NUL
      else None)"

text \<open>Comparing the C string at byte \<open>i\<close> with a literal; the outcome may hang on a byte behind the copy.\<close>

definition name_is :: "(nat \<Rightarrow> char option) \<Rightarrow> nat \<Rightarrow> string \<Rightarrow> bool result" where
  "name_is b i lit =
     (let bs = map (\<lambda>k. b (i + k)) [0..<Suc (length lit)] in
      if list_all2 (\<lambda>x y. x = None \<or> x = Some y) bs (lit @ [NUL])
      then (if None \<in> set bs then Inl OutOfBounds else Inr True)
      else Inr False)"

definition check_file_type :: "(nat \<Rightarrow> char option) \<Rightarrow> nat \<Rightarrow> u8 result" where
  "check_file_type b i =
     res_bind (name_is b i ''stdout'') (\<lambda>x.
     if x then Inr FTYPE_STDOUT
     else res_bind (name_is b i ''stdin'') (\<lambda>x.
     if x then Inr FTYPE_STDIN
     else res_bind (name_is b i ''stderr'') (\<lambda>x.
     if x then Inr FTYPE_STDERR else Inr FTYPE_REGULAR)))"

text \<open>\<open>open\<close> from the end of its loop on, and \<open>open\<close> itself.\<close>

definition open_finish ::
  "u64 \<Rightarrow> char \<Rightarrow> u8 \<Rightarrow> string \<Rightarrow> u64 \<Rightarrow> string \<Rightarrow> 'a vfs_state_scheme \<Rightarrow> (u64 \<times> 'a vfs_state_scheme) result" where
  "open_finish copy drive mode path current_obj rest s =
     res_bind (kfree copy s) (\<lambda>s.
     res_bind (malloc sizeof_File s) (\<lambda>(new_file, s).
     res_bind (check_file_type (copy_byte (new_file = copy) drive mode current_obj path) (length path - length rest)) (\<lambda>ty.
       Inr (new_file, s\<lparr>files := (files s)(new_file := (files s new_file)\<lparr>f_present := True, f_mode := mode,
          drive_char := drive, f_private := current_obj, ftype := ty\<rparr>)\<rparr>))))"

definition vfs_open ::
  "'a vfs_state_scheme device_calls \<Rightarrow> string \<Rightarrow> u32 \<Rightarrow> u8 \<Rightarrow> 'a vfs_state_scheme \<Rightarrow> (u64 \<times> 'a vfs_state_scheme) result" where
  "vfs_open D path flags mode s =
     res_bind (resolve_path path s) (\<lambda>(path, s).
     res_bind (str_at path 0) (\<lambda>drive.
     if \<not> drive_letter drive then Inr (0, s)
     else
       res_bind (malloc (of_nat (length path)) s) (\<lambda>(copy, s).
       res_bind (drive_at drive s) (\<lambda>dr.
       if \<not> present dr then res_bind (kfree copy s) (\<lambda>s. Inr (0, s))
       else
         res_bind (fs_call (fs dr) (Inr (tempfs_find_root (mem_offset dr)))) (\<lambda>root.
         res_bind (fs_call (fs dr) (tempfs_open_dir root s)) (\<lambda>current_obj.
         if length path < 3 then Inl OutOfBounds
         else
           res_bind (open_loop D (fs dr) flags mode (drop 3 path) current_obj s) (\<lambda>(r, s).
           case r of None \<Rightarrow> Inr (0, s)
           | Some (current_obj, rest) \<Rightarrow> open_finish copy drive mode path current_obj rest s)))))))"

section \<open>Directories and devices by path\<close>

text \<open>\<open>mkdir\<close>'s copy of the path has no terminator: the search for the end of a component that no slash
  ends leaves the copy.\<close>

function mkdir_loop ::
  "FileSystem \<Rightarrow> string \<Rightarrow> u64 \<Rightarrow> 'a vfs_state_scheme \<Rightarrow> 'a vfs_state_scheme result" where
  "mkdir_loop t rest current_obj s =
     (if rest = [] then Inr s
      else
        (let name = takeWhile (\<lambda>c. c \<noteq> CHR ''/'') rest; after = dropWhile (\<lambda>c. c \<noteq> CHR ''/'') rest in
         if after = [] then Inl OutOfBounds
         else if name = [] then Inr s
         else
           res_bind (fs_call t (tempfs_find current_obj name s)) (\<lambda>this_dir.
           res_bind
             (if this_dir = 0 then
                res_bind (fs_call t (tempfs_mkdir current_obj name s)) (\<lambda>s.
                res_bind (fs_call t (tempfs_find current_obj name s)) (\<lambda>this_dir. Inr (this_dir, s)))
              else Inr (this_dir, s)) (\<lambda>(this_dir, s).
           res_bind (fs_call t (tempfs_open_dir this_dir s)) (\<lambda>current_obj.
             mkdir_loop t (tl after) current_obj s)))))"
  by pat_completeness auto
termination by (relation "measure (\<lambda>(t, rest, current_obj, s). length rest)") (auto intro: dropWhile_shorter)

declare mkdir_loop.simps [simp del]

definition mkdir :: "string \<Rightarrow> 'a vfs_state_scheme \<Rightarrow> (u32 \<times> 'a vfs_state_scheme) result" where
  "mkdir path s =
     res_bind (resolve_path path s) (\<lambda>(path, s).
     res_bind (str_at path 0) (\<lambda>drive.
     let drive = upper_case drive in
     if \<not> drive_letter drive then Inr (1, s)
     else
       res_bind (is_relative path) (\<lambda>rel.
       if rel then Inr (2, s)
       else
         res_bind (malloc (of_nat (length path)) s) (\<lambda>(copy, s).
         res_bind (drive_at drive s) (\<lambda>dr.
         res_bind (fs_call (fs dr) (Inr (tempfs_find_root (mem_offset dr)))) (\<lambda>root.
         res_bind (fs_call (fs dr) (tempfs_open_dir root s)) (\<lambda>current_obj.
         res_bind (mkdir_loop (fs dr) (drop 3 path) current_obj s) (\<lambda>s.
         res_bind (kfree copy s) (\<lambda>s. Inr (0, s))))))))))"

text \<open>\<open>create_device\<close>'s loop: \<open>Inl\<close> a code to return, or the end of the loop.\<close>

function create_device_loop ::
  "FileSystem \<Rightarrow> DeviceOps \<Rightarrow> string \<Rightarrow> u64 \<Rightarrow> 'a vfs_state_scheme \<Rightarrow> (u32 option \<times> 'a vfs_state_scheme) result" where
  "create_device_loop t ops rest current_obj s =
     (if rest = [] then Inr (None, s)
      else
        (let name = takeWhile (\<lambda>c. c \<noteq> CHR ''/'') rest; after = dropWhile (\<lambda>c. c \<noteq> CHR ''/'') rest in
         if after \<noteq> [] then
           res_bind (fs_call t (tempfs_find current_obj name s)) (\<lambda>this_dir.
           if this_dir = 0 then Inr (Some 2, s)
           else
             res_bind (fs_call t (tempfs_open_dir this_dir s)) (\<lambda>current_obj.
               create_device_loop t ops (tl after) current_obj s))
         else
           res_bind (fs_call t (tempfs_find current_obj name s)) (\<lambda>this_file.
           if this_file = 0 then
             res_bind (fs_call t (tempfs_create_device current_obj name ops s)) (\<lambda>s.
             res_bind (fs_call t (tempfs_find current_obj name s)) (\<lambda>_. Inr (None, s)))
           else Inr (Some 1, s))))"
  by pat_completeness auto
termination by (relation "measure (\<lambda>(t, ops, rest, current_obj, s). length rest)") (auto intro: dropWhile_shorter)

declare create_device_loop.simps [simp del]

definition create_device :: "string \<Rightarrow> DeviceOps \<Rightarrow> 'a vfs_state_scheme \<Rightarrow> (u32 \<times> 'a vfs_state_scheme) result" where
  "create_device path ops s =
     res_bind (resolve_path path s) (\<lambda>(path, s).
     res_bind (str_at path 0) (\<lambda>drive.
     if \<not> drive_letter drive then Inr (4, s)
     else
       res_bind (malloc (of_nat (length path)) s) (\<lambda>(copy, s).
       res_bind (drive_at drive s) (\<lambda>dr.
       if fs_id (fs dr) \<noteq> FS_TEMPFS then Inr (5, s)
       else if \<not> present dr then res_bind (kfree copy s) (\<lambda>s. Inr (3, s))
       else
         res_bind (fs_call (fs dr) (Inr (tempfs_find_root (mem_offset dr)))) (\<lambda>root.
         res_bind (fs_call (fs dr) (tempfs_open_dir root s)) (\<lambda>current_obj.
         if length path < 3 then Inl OutOfBounds
         else
           res_bind (create_device_loop (fs dr) ops (drop 3 path) current_obj s) (\<lambda>(r, s).
           case r of Some c \<Rightarrow> Inr (c, s) | None \<Rightarrow> res_bind (kfree copy s) (\<lambda>s. Inr (0, s)))))))))"

section \<open>Open files\<close>

definition vfs_close :: "'a vfs_state_scheme device_calls \<Rightarrow> u64 \<Rightarrow> 'a vfs_state_scheme \<Rightarrow> 'a vfs_state_scheme result" where
  "vfs_close D f s =
     res_bind (get_file f s) (\<lambda>x.
     res_bind (drive_at (drive_char x) s) (\<lambda>dr. fs_call (fs dr) (tempfs_close D (f_private x) s)))"

definition mkfile :: "'a vfs_state_scheme device_calls \<Rightarrow> string \<Rightarrow> 'a vfs_state_scheme \<Rightarrow> (u32 \<times> 'a vfs_state_scheme) result" where
  "mkfile D path s =
     res_bind (vfs_open D path O_CREATALL MODE_WRITEONLY s) (\<lambda>(f, s).
     res_bind (vfs_close D f s) (\<lambda>s. Inr (0, s)))"

definition file_length :: "u64 \<Rightarrow> 'a vfs_state_scheme \<Rightarrow> u64 result" where
  "file_length f s =
     res_bind (get_file f s) (\<lambda>x.
     res_bind (drive_at (drive_char x) s) (\<lambda>dr. fs_call (fs dr) (tempfs_length (f_private x) s)))"

text \<open>A C string in byte memory; without a terminator anywhere the search for it never ends.\<close>

fun mem_string :: "nat \<Rightarrow> memory \<Rightarrow> u64 \<Rightarrow> string result" where
  "mem_string fuel m a =
     (if fuel = 0 then Inl Diverged
      else if m a = 0 then Inr []
      else res_bind (mem_string (fuel - 1) m (a + 1)) (\<lambda>cs. Inr (char_of (unat (m a)) # cs)))"

declare mem_string.simps [simp del]

text \<open>\<open>printf\<close> with a format that prints characters only: what \<open>printf\<close> hands out goes to the serial port and,
  once there is a font, to the screen.\<close>

definition console_printf :: "char list \<Rightarrow> va_list \<Rightarrow> 'a vfs_state_scheme \<Rightarrow> 'a vfs_state_scheme result" where
  "console_printf format args s =
     res_bind (printf format args
       \<lparr>serial_out = [], screen_out = [], font_avaliable = font_loaded s, serial_lock = serial_held s\<rparr>) (\<lambda>c.
     let s = s\<lparr>serial_text := serial_text s @ map of_char (serial_out c)\<rparr>;
         s = fold (\<lambda>ch. write_char (of_char ch)) (screen_out c) s;
         s = (if font_loaded s then swap_framebuffers s else s)
     in Inr (s\<lparr>serial_held := serial_lock c\<rparr>))"

definition vfs_write ::
  "'a vfs_state_scheme device_calls \<Rightarrow> u64 \<Rightarrow> u64 \<Rightarrow> u64 \<Rightarrow> 'a vfs_state_scheme \<Rightarrow> (u32 \<times> 'a vfs_state_scheme) result" where
  "vfs_write D f buffer sz s =
     res_bind (get_file f s) (\<lambda>x.
     if f_mode x = MODE_READONLY then Inr (1, s)
     else
       res_bind
         (if ftype x = FTYPE_STDOUT then
            res_bind (mem_string walk_fuel (mem s) buffer) (\<lambda>txt. console_printf (txt @ [NUL]) [] s)
          else Inr s) (\<lambda>s.
       res_bind (drive_at (drive_char x) s) (\<lambda>dr.
         fs_call (fs dr) (tempfs_write D (f_private x) buffer sz s))))"

definition vfs_read ::
  "'a vfs_state_scheme device_calls \<Rightarrow> u64 \<Rightarrow> u64 \<Rightarrow> u64 \<Rightarrow> 'a vfs_state_scheme \<Rightarrow> (u32 \<times> 'a vfs_state_scheme) result" where
  "vfs_read D f buffer max_len s =
     res_bind (get_file f s) (\<lambda>x.
     if f_mode x = MODE_WRITEONLY then Inr (1, s)
     else
       res_bind (drive_at (drive_char x) s) (\<lambda>dr.
         fs_call (fs dr) (tempfs_read D (f_private x) buffer max_len s)))"

section \<open>The zero device\<close>

text \<open>\<open>devzero_open\<close> only prints a message. \<open>devzero_read\<close> ends without a \<open>return\<close>: what its caller sees is
  whatever the return register held, here \<open>ret\<close>.\<close>

definition devzero_open :: "u64 \<Rightarrow> u8 \<Rightarrow> 'a vfs_state_scheme \<Rightarrow> 'a vfs_state_scheme result" where
  "devzero_open file mode s = Inr s"

definition devzero_close :: "u64 \<Rightarrow> 'a vfs_state_scheme \<Rightarrow> 'a vfs_state_scheme result" where
  "devzero_close file s = Inr s"

definition devzero_read :: "u32 \<Rightarrow> u64 \<Rightarrow> u64 \<Rightarrow> u64 \<Rightarrow> 'a vfs_state_scheme \<Rightarrow> (u32 \<times> 'a vfs_state_scheme) result" where
  "devzero_read ret file buffer maxlen s = Inr (ret, s\<lparr>mem := ku_memset buffer 0 maxlen (mem s)\<rparr>)"

text \<open>The arguments are the addresses of the three functions.\<close>

definition init_devices :: "u64 \<Rightarrow> u64 \<Rightarrow> u64 \<Rightarrow> 'a vfs_state_scheme \<Rightarrow> 'a vfs_state_scheme result" where
  "init_devices read_fn open_fn close_fn s =
     res_bind (tempfs_new s) (\<lambda>(devfs, s).
     res_bind (mount CHR ''D'' (ucast FS_TEMPFS) True devfs 0 0 s) (\<lambda>(_, s).
     res_bind (create_device ''D:/devzero''
         \<lparr>op_read = read_fn, op_write = 0, op_open = open_fn, op_close = close_fn\<rparr> s) (\<lambda>(_, s). Inr s)))"

section \<open>Heap and task list under the operations\<close>

lemma vfs_frames [frame_simps]:
  "live (s\<lparr>files := x\<rparr>) = live s" "heap_inv (s\<lparr>files := x\<rparr>) = heap_inv s" "roomy k (s\<lparr>files := x\<rparr>) = roomy k s"
  by (rule heap_cong, simp add: kheap_state.defs)+

lemma kfree_room:
  assumes "roomy k s" "live s a = Some n"
  shows "\<exists>s' p. kfree a s = Inr s' \<and> s' = s\<lparr>pools := p\<rparr> \<and> roomy k s' \<and> live s' = (live s)(a := None)"
proof -
  obtain s' p where f: "kfree a s = Inr s'" "s' = s\<lparr>pools := p\<rparr>" "live s' = (live s)(a := None)"
    using kfree_effect[OF roomy_inv[OF assms(1)] assms(2)] by blast
  obtain ps where h: "heap_chain s ps" "k \<le> heap_room s (last ps)" using assms(1) by (auto simp: roomy_def)
  let ?P = "(pools s (a - 26))\<lparr>pool_free := True, required_size := sizeof_Pool\<rparr>"
  have m: "a - 26 \<in> set ps" by (rule live_block(1)[OF h(1) assms(2)])
  have ok: "pool_ok (pools s) (a - 26)" by (rule heap_chainD(5)[OF h(1) m])
  then have s': "s' = s\<lparr>pools := (pools s)(a - 26 := ?P)\<rparr>"
    using f(1) by (simp add: kfree_def sizeof_Pool_def pool_ok_def Let_def)
  have "heap_chain s' ps" unfolding s'
    using ok by (intro heap_chain_block_upd[OF h(1) m]) (auto simp: pool_ok_def sizeof_Pool_def)
  moreover have "heap_room s (last ps) \<le> heap_room s' (last ps)"
    using ok by (auto simp: heap_room_def s' sizeof_Pool_def pool_ok_def)
  ultimately have "roomy k s'" using h(2) by (auto simp: roomy_def)
  with f show ?thesis by blast
qed

lemma get_current_task_cong:
  assumes "get_current_task s = Inr (t, s)" "vecs s' = vecs s" "vnodes s' = vnodes s" "tasklist_list s' = tasklist_list s"
    "current_tasks s' = current_tasks s" "locks s' = locks s" "lapic_id s' = lapic_id s"
    "\<not> locks s Current_cpu_lock" "\<not> locks s Get_current_task_lock"
  shows "get_current_task s' = Inr (t, s')"
proof -
  have "vector_at v i s' = vector_at v i s" for v i by (rule vector_at_cong) (use assms in simp_all)
  moreover obtain n where "vector_at (current_tasks s) (cpu_of s) s = Inr n" "get_task n s = Inr t"
    using assms(1) unfolding get_current_task_free[OF assms(8,9)] by (auto simp: result_simps)
  ultimately show ?thesis using get_current_task_free[of s'] assms by (simp add: get_task_def cpu_of_def)
qed

section \<open>Paths as lists of names\<close>

fun join_path :: "string list \<Rightarrow> string" where
  "join_path [] = []"
| "join_path [n] = n"
| "join_path (n # ns) = n @ CHR ''/'' # join_path ns"

definition names_ok :: "string list \<Rightarrow> bool" where
  "names_ok cs \<longleftrightarrow> cs \<noteq> [] \<and> last cs \<noteq> [] \<and> (\<forall>n \<in> set cs. CHR ''/'' \<notin> set n \<and> NUL \<notin> set n)"

lemma names_ok_Cons: "names_ok (n # m # cs) \<Longrightarrow> names_ok (m # cs)"
  by (auto simp: names_ok_def)

lemma join_path_nonempty: "names_ok cs \<Longrightarrow> join_path cs \<noteq> []"
  by (induction cs rule: join_path.induct) (auto simp: names_ok_def)

lemma split_name: "CHR ''/'' \<notin> set n \<Longrightarrow> takeWhile (\<lambda>c. c \<noteq> CHR ''/'') (n @ CHR ''/'' # r) = n \<and>
    dropWhile (\<lambda>c. c \<noteq> CHR ''/'') (n @ CHR ''/'' # r) = CHR ''/'' # r"
  by (induction n) auto

lemma split_last: "CHR ''/'' \<notin> set n \<Longrightarrow> takeWhile (\<lambda>c. c \<noteq> CHR ''/'') n = n \<and> dropWhile (\<lambda>c. c \<noteq> CHR ''/'') n = []"
  by (induction n) auto

lemma join_path_suffix: "names_ok cs \<Longrightarrow> \<exists>p. join_path cs = p @ last cs"
proof (induction cs rule: join_path.induct)
  case (3 n m cs)
  then obtain p where "join_path (m # cs) = p @ last (m # cs)" using names_ok_Cons by blast
  then show ?case by (intro exI[of _ "n @ CHR ''/'' # p"]) simp
qed (auto simp: names_ok_def)

lemma join_path_NUL: "names_ok cs \<Longrightarrow> NUL \<notin> set (join_path cs)"
  by (induction cs rule: join_path.induct) (auto simp: names_ok_def)

text \<open>The specification: a tree of directories, and the object a list of names leads to. A name that is
  missing leads nowhere; going on below something that is not a directory is a null dereference.\<close>

fun walk_path :: "(u64 \<Rightarrow> string \<Rightarrow> u64 option) \<Rightarrow> (u64 \<Rightarrow> bool) \<Rightarrow> u64 \<Rightarrow> string list \<Rightarrow> u64 option result" where
  "walk_path tree is_dir d [] = Inr (Some d)"
| "walk_path tree is_dir d [n] = Inr (tree d n)"
| "walk_path tree is_dir d (n # ns) =
     (case tree d n of None \<Rightarrow> Inr None
      | Some i \<Rightarrow> if is_dir i then walk_path tree is_dir i ns else Inl NullDeref)"

definition dir_tree :: "'a fs_state_scheme \<Rightarrow> u64 set \<Rightarrow> (u64 \<Rightarrow> string \<Rightarrow> u64 option) \<Rightarrow> bool" where
  "dir_tree s Dirs tree \<longleftrightarrow>
     (\<forall>d \<in> Dirs. dir_shows s d (tree d) \<and> i_is_dir (inodes s d) \<and>
        (\<forall>n i. tree d n = Some i \<longrightarrow> i_is_dir (inodes s i) \<longrightarrow> i \<in> Dirs))"

lemma dir_tree_cong:
  assumes "dir_tree s Dirs tree" "inodes s' = inodes s" "dirnodes s' = dirnodes s" "map_le (live s) (live s')"
  shows "dir_tree s' Dirs tree"
proof -
  have l: "live s' a = Some k" if "live s a = Some k" for a k using assms(4) that by (force simp: map_le_def)
  have "dir_shows s' d M" if "dir_shows s d M" for d M
    using that l unfolding dir_shows_def dir_lookup_def entry_name_def assms(2,3) by blast
  then show ?thesis using assms(1) unfolding dir_tree_def assms(2) by blast
qed

definition no_create :: "u32 \<Rightarrow> bool" where
  "no_create flags \<longleftrightarrow> flags AND O_CREAT = 0 \<and> flags AND O_CREATALL = 0"

lemma open_loop_walk:
  assumes inv: "heap_inv s" and t: "dir_tree s Dirs tree" and f: "no_create flags"
  shows "names_ok cs \<Longrightarrow> last cs = l \<Longrightarrow> d \<in> Dirs \<Longrightarrow>
    open_loop D TempFS_functions flags mode (join_path cs) d s =
     (case walk_path tree (\<lambda>i. i_is_dir (inodes s i)) d cs of
        Inl e \<Rightarrow> Inl e
      | Inr None \<Rightarrow> Inr (None, s)
      | Inr (Some i) \<Rightarrow> res_bind (tempfs_open_file D i mode s) (\<lambda>(obj, s). Inr (Some (obj, l), s)))"
proof (induction cs arbitrary: d rule: join_path.induct)
  case (2 n)
  then have n: "n \<noteq> []" "CHR ''/'' \<notin> set n" by (auto simp: names_ok_def)
  have sh: "dir_shows s d (tree d)" using t 2 by (auto simp: dir_tree_def)
  note F = tempfs_find_shows[OF inv sh, of n]
  show ?case
  proof (cases "tree d n")
    case None
    then show ?thesis using n(1) f F by (subst open_loop.simps) (simp add: split_last[OF n(2)] fs_call_def no_create_def Let_def)
  next
    case (Some i)
    then have "i \<noteq> 0" "l = n" using F 2(2) by auto
    then show ?thesis using Some n(1) f F by (subst open_loop.simps) (simp add: split_last[OF n(2)] fs_call_def no_create_def Let_def)
  qed
next
  case (3 n m cs)
  have n: "CHR ''/'' \<notin> set n" and ok: "names_ok (m # cs)" using 3(2) names_ok_Cons[OF 3(2)] by (auto simp: names_ok_def)
  have d: "dir_shows s d (tree d)" "\<And>i. tree d n = Some i \<Longrightarrow> i_is_dir (inodes s i) \<Longrightarrow> i \<in> Dirs"
    using t 3(4) unfolding dir_tree_def by blast+
  note F = tempfs_find_shows[OF inv d(1), of n]
  have null: "open_loop D TempFS_functions flags mode (join_path (m # cs)) 0 s = Inl NullDeref"
    using join_path_nonempty[OF ok] by (subst open_loop.simps) (simp add: fs_call_def Let_def tempfs_find_def get_inode_def)
  show ?case
  proof (cases "tree d n")
    case None
    then show ?thesis using F f by (subst open_loop.simps) (simp add: split_name[OF n] fs_call_def no_create_def Let_def)
  next
    case (Some i)
    then have i: "i \<noteq> 0" using F by auto
    then have o: "tempfs_open_dir i s = Inr (if i_is_dir (inodes s i) then i else 0)" by (simp add: tempfs_open_dir_def get_inode_def)
    have "last (m # cs) = l" using 3(3) by simp
    then show ?thesis
      using F f Some i o null 3(1)[OF ok _ d(2)[OF Some]]
      by (subst open_loop.simps) (simp add: split_name[OF n] fs_call_def no_create_def Let_def)
  qed
qed (simp add: names_ok_def)

section \<open>The type of a file\<close>

definition ftype_of :: "string \<Rightarrow> u8" where
  "ftype_of n = (if n = ''stdout'' then FTYPE_STDOUT else if n = ''stdin'' then FTYPE_STDIN
     else if n = ''stderr'' then FTYPE_STDERR else FTYPE_REGULAR)"

text \<open>As long as the copy is shorter than 24 bytes no comparison hangs on what lies behind it.\<close>

lemma name_is_known:
  assumes p: "length path < 24" "NUL \<notin> set path" "i \<le> length path" and d: "drive_letter drive" "unat mode < 4"
    and lit: "\<forall>c \<in> set lit. 97 \<le> code c"
  shows "\<exists>x. name_is (copy_byte r drive mode q path) i lit = Inr x \<and> (length path < 16 \<longrightarrow> (x \<longleftrightarrow> drop i path = lit))"
proof -
  let ?b = "copy_byte r drive mode q path"
  let ?bs = "map (\<lambda>k. ?b (i + k)) [0..<Suc (length lit)]"
  let ?ok = "list_all2 (\<lambda>x y. x = None \<or> x = Some y) ?bs (lit @ [NUL])"
  have dc: "code drive < 97" "code (char_of (unat mode)) < 97" "code NUL < 97"
    using d by (simp_all add: drive_letter_def code_def of_char_of)
  have at: "?b (i + k) = None \<or> ?b (i + k) = Some ((lit @ [NUL]) ! k)" if ?ok "k \<le> length lit" for k
    using that by (auto simp: list_all2_conv_all_nth nth_append simp del: upt_Suc)
  have end_known: "\<exists>c. ?b (length path) = Some c \<and> code c < 97" using dc p(1) by (auto simp: copy_byte_def)
  have len: "i + length lit \<le> length path" if ?ok
  proof (rule ccontr)
    assume "\<not> ?thesis"
    then have k: "length path - i < length lit" using p(3) by simp
    then have "code (lit ! (length path - i)) \<ge> 97" using lit by simp
    moreover have "?b (length path) = None \<or> ?b (length path) = Some (lit ! (length path - i))"
      using at[OF that, of "length path - i"] k p(3) by (simp add: nth_append)
    ultimately show False using end_known by auto
  qed
  have "None \<notin> set ?bs" if ?ok using len[OF that] by (auto simp: copy_byte_def)
  then have known: "name_is ?b i lit = Inr ?ok" by (auto simp: name_is_def Let_def)
  moreover have "?ok \<longleftrightarrow> drop i path = lit" if "length path < 16"
  proof
    assume o: ?ok
    have b: "?b j = (if j < length path then Some (path ! j) else Some NUL)" if "j \<le> length path" for j
      using that \<open>length path < 16\<close> by (simp add: copy_byte_def)
    have "path ! (i + k) = lit ! k" if "k < length lit" for k
      using at[OF o, of k] b[of "i + k"] len[OF o] that by (simp add: nth_append)
    moreover have "i + length lit = length path"
      using at[OF o, of "length lit"] b[of "i + length lit"] len[OF o] p(2) nth_mem[of "i + length lit" path]
      by (cases "i + length lit < length path") (auto simp: nth_append)
    ultimately show "drop i path = lit" using p(3) by (intro nth_equalityI) auto
  next
    assume "drop i path = lit"
    then show ?ok using that p(3) by (auto simp: list_all2_conv_all_nth nth_append copy_byte_def simp del: upt_Suc)
  qed
  ultimately show ?thesis by blast
qed

lemma check_file_type_known:
  assumes "length path < 24" "NUL \<notin> set path" "i \<le> length path" "drive_letter drive" "unat mode < 4"
  shows "\<exists>ty. check_file_type (copy_byte r drive mode q path) i = Inr ty \<and> (length path < 16 \<longrightarrow> ty = ftype_of (drop i path))"
proof -
  note K = name_is_known[OF assms, of _ r q]
  obtain x y z where "name_is (copy_byte r drive mode q path) i ''stdout'' = Inr x" "length path < 16 \<longrightarrow> (x \<longleftrightarrow> drop i path = ''stdout'')"
    "name_is (copy_byte r drive mode q path) i ''stdin'' = Inr y" "length path < 16 \<longrightarrow> (y \<longleftrightarrow> drop i path = ''stdin'')"
    "name_is (copy_byte r drive mode q path) i ''stderr'' = Inr z" "length path < 16 \<longrightarrow> (z \<longleftrightarrow> drop i path = ''stderr'')"
    using K[of "''stdout''"] K[of "''stdin''"] K[of "''stderr''"] by (auto simp: code_def)
  then show ?thesis by (auto simp: check_file_type_def ftype_of_def)
qed

section \<open>Opening an absolute path\<close>

definition tempfs_drive :: "'a vfs_state_scheme \<Rightarrow> char \<Rightarrow> u64 \<Rightarrow> bool" where
  "tempfs_drive s c root \<longleftrightarrow> drive_letter c \<and> length (drives s) = 26 \<and>
     (let d = drives s ! (code c - 65) in present d \<and> fs d = TempFS_functions \<and> mem_offset d = root)"

lemma drive_at_letter:
  assumes "drive_letter c" "length (drives s) = 26"
  shows "drive_at c s = Inr (drives s ! (code c - 65))" "code c - 65 < 26"
proof -
  have c: "65 \<le> code c" "code c \<le> 90" using assms(1) by (simp_all add: drive_letter_def code_def)
  then have "unat (of_nat (code c) - 65 :: u8) = code c - 65"
    by (simp add: unat_sub_if' unat_of_nat take_bit_eq_mod)
  then show "drive_at c s = Inr (drives s ! (code c - 65))" "code c - 65 < 26"
    using c assms(2) by (simp_all add: drive_at_def arr_get_def)
qed

definition abs_path :: "char \<Rightarrow> string list \<Rightarrow> string" where
  "abs_path c cs = c # CHR '':'' # CHR ''/'' # join_path cs"

lemma resolve_absolute:
  assumes "get_current_task s = Inr (t, s)"
  shows "resolve_path (abs_path c cs) s = Inr (abs_path c cs, s)"
  using assms by (simp add: resolve_path_def is_relative_def str_at_def arr_get_def abs_path_def)

text \<open>The file object an \<open>open\<close> of \<open>path\<close> ends with, and what it leaves alone.\<close>

definition file_opened :: "char \<Rightarrow> u8 \<Rightarrow> string \<Rightarrow> u64 \<Rightarrow> string \<Rightarrow> u64 \<Rightarrow> 'a vfs_state_scheme \<Rightarrow> 'a vfs_state_scheme \<Rightarrow> bool" where
  "file_opened drive mode path obj name f s s' \<longleftrightarrow> f \<noteq> 0 \<and>
     (\<exists>m t q x. s' = s\<lparr>mem := m, total_memory_allocated := t, pools := q, files := (files s)(f := x)\<rparr> \<and>
        f_present x \<and> f_mode x = mode \<and> drive_char x = drive \<and> f_private x = obj \<and>
        (length path < 16 \<longrightarrow> ftype x = ftype_of name))"

lemma open_finish_ok:
  assumes room: "roomy (59 + k) s" and l: "live s copy = Some n" and p: "length path < 24" "NUL \<notin> set path"
    and r: "path = pre @ rest" and d: "drive_letter drive" "unat mode < 4"
  shows "\<exists>f s'. open_finish copy drive mode path obj rest s = Inr (f, s') \<and> file_opened drive mode path obj rest f s s' \<and>
     roomy k s' \<and> live s' = (live s)(copy := None, f \<mapsto> 32) \<and> ((live s)(copy := None)) f = None"
proof -
  obtain s1 q1 where f: "kfree copy s = Inr s1" "s1 = s\<lparr>pools := q1\<rparr>" "roomy (59 + k) s1" "live s1 = (live s)(copy := None)"
    using kfree_room[OF room l] by blast
  have u: "unat sizeof_File = 32" "unat sizeof_File < 2 ^ 62" by (simp_all add: sizeof_File_def)
  then obtain g s2 where m: "malloc sizeof_File s1 = Inr (g, s2)" "roomy k s2"
    using malloc_room[of sizeof_File k s1] f(3) by auto
  note M = malloc_fs[OF roomy_inv[OF f(3)] u(2) m(1)]
  from M(8) obtain m' t' p' where s2: "s2 = s1\<lparr>mem := m', total_memory_allocated := t', pools := p'\<rparr>" by blast
  obtain ty where ty: "check_file_type (copy_byte (g = copy) drive mode obj path) (length path - length rest) = Inr ty"
    "length path < 16 \<longrightarrow> ty = ftype_of rest"
    using check_file_type_known[OF p _ d, of "length path - length rest" "g = copy" obj] r by auto
  let ?x = "(files s g)\<lparr>f_present := True, f_mode := mode, drive_char := drive, f_private := obj, ftype := ty\<rparr>"
  let ?s = "s2\<lparr>files := (files s)(g := ?x)\<rparr>"
  have "open_finish copy drive mode path obj rest s = Inr (g, ?s)"
    using f(1,2) m(1) ty(1) by (simp add: open_finish_def s2)
  moreover have "?s = s\<lparr>mem := m', total_memory_allocated := t', pools := p', files := (files s)(g := ?x)\<rparr>" by (simp add: s2 f(2))
  then have "file_opened drive mode path obj rest g s ?s"
    unfolding file_opened_def using M(7) ty(2) by (intro conjI exI[of _ ?x] exI) auto
  moreover have "roomy k ?s" "live ?s = (live s)(copy := None, g \<mapsto> 32)" "((live s)(copy := None)) g = None"
    using m(2) M(5,6) f(4) u by (simp_all add: frame_simps)
  ultimately show ?thesis by blast
qed

lemma vfs_open_absolute:
  assumes t: "get_current_task s = Inr (t, s)" and room: "roomy (length (abs_path c cs) + 27 + k) s"
    and p: "length (abs_path c cs) < 24" and dr: "tempfs_drive s c root" and root: "root \<noteq> 0" "i_is_dir (inodes s root)"
  shows "\<exists>copy s1 m t' q. vfs_open D (abs_path c cs) flags mode s =
      res_bind (open_loop D TempFS_functions flags mode (join_path cs) root s1) (\<lambda>(r, s).
        case r of None \<Rightarrow> Inr (0, s) | Some (obj, rest) \<Rightarrow> open_finish copy c mode (abs_path c cs) obj rest s) \<and>
     s1 = s\<lparr>mem := m, total_memory_allocated := t', pools := q\<rparr> \<and> roomy k s1 \<and> live s copy = None \<and>
     live s1 = (live s)(copy \<mapsto> length (abs_path c cs))"
proof -
  let ?n = "of_nat (length (abs_path c cs)) :: u64"
  have u: "unat ?n = length (abs_path c cs)" using p by (simp add: unat_of_nat_u64)
  then have u2: "unat ?n < 2 ^ 62" using p by simp
  obtain copy s1 where m: "malloc ?n s = Inr (copy, s1)" "roomy k s1" using malloc_room[OF _ u2, of k s] room u by auto
  note M = malloc_fs[OF roomy_inv[OF room] u2 m(1)]
  from M(8) obtain m' t' q where s1: "s1 = s\<lparr>mem := m', total_memory_allocated := t', pools := q\<rparr>" by blast
  have l: "drive_letter c" "length (drives s1) = 26" and d: "present (drives s1 ! (code c - 65))"
    "fs (drives s1 ! (code c - 65)) = TempFS_functions" "mem_offset (drives s1 ! (code c - 65)) = root"
    using dr by (auto simp: tempfs_drive_def Let_def s1)
  have path: "str_at (abs_path c cs) 0 = Inr c" "drop 3 (abs_path c cs) = join_path cs" "\<not> length (abs_path c cs) < 3"
    by (simp_all add: str_at_def arr_get_def abs_path_def)
  have root_dir: "tempfs_open_dir root s1 = Inr root" using root M(1) by (simp add: tempfs_open_dir_def get_inode_def)
  have "vfs_open D (abs_path c cs) flags mode s =
      res_bind (open_loop D TempFS_functions flags mode (join_path cs) root s1) (\<lambda>(r, s).
        case r of None \<Rightarrow> Inr (0, s) | Some (obj, rest) \<Rightarrow> open_finish copy c mode (abs_path c cs) obj rest s)"
    unfolding vfs_open_def resolve_absolute[OF t]
    using m(1) drive_at_letter(1)[OF l] d l(1) path root_dir by (simp add: fs_call_def tempfs_find_root_def)
  moreover have "live s1 = (live s)(copy \<mapsto> length (abs_path c cs))" using M(6) u by simp
  ultimately show ?thesis using s1 m(2) M(5) by blast
qed

lemma file_opened_heap:
  assumes "file_opened c mode path obj name f s1 s'" "s1 = s\<lparr>mem := m, total_memory_allocated := t, pools := q\<rparr>"
  shows "file_opened c mode path obj name f s s'"
  using assms unfolding file_opened_def by (elim conjE exE, intro conjI exI) auto

lemma dir_tree_nonnull: "heap_inv s \<Longrightarrow> dir_tree s Dirs tree \<Longrightarrow> d \<in> Dirs \<Longrightarrow> d \<noteq> 0"
  unfolding dir_tree_def dir_shows_def using live_nonnull by blast

lemma walk_path_nonnull:
  assumes "heap_inv s" "dir_tree s Dirs tree"
  shows "d \<in> Dirs \<Longrightarrow> walk_path tree (\<lambda>i. i_is_dir (inodes s i)) d cs = Inr (Some i) \<Longrightarrow> i \<noteq> 0"
proof (induction cs arbitrary: d rule: join_path.induct)
  case 1
  then show ?case using dir_tree_nonnull[OF assms] by auto
next
  case (2 n)
  then have "dir_shows s d (tree d)" using assms(2) unfolding dir_tree_def by blast
  then show ?case using tempfs_find_shows(2)[OF assms(1), of d "tree d" n] 2(2) by auto
next
  case (3 n m cs)
  then obtain j where "tree d n = Some j" "i_is_dir (inodes s j)" "walk_path tree (\<lambda>i. i_is_dir (inodes s i)) j (m # cs) = Inr (Some i)"
    by (auto split: option.splits if_splits)
  moreover from this have "j \<in> Dirs" using 3(2) assms(2) unfolding dir_tree_def by blast
  ultimately show ?case using 3(1) by blast
qed

section \<open>Properties\<close>

text \<open>C9. Opening an absolute path \<open>X:/name/.../name\<close> of at most 23 characters on a drive \<open>X\<close> with a TempFS,
  without a creating flag and with room on the heap for the copy of the path and the file object: the
  file object stands for the inode that looking up the names one after the other leads to (and for no
  inode when that is a directory), provided that inode is not a device's; a missing name gives \<open>NULL\<close>;
  a path that goes on below something that is not a directory ends in a null dereference. The file
  system itself is not changed. (A longer path is read after its copy was freed and may have been
  overwritten.)\<close>

theorem vfs_open_follows_path:
  assumes t: "get_current_task s = Inr (t, s)" and room: "roomy (length (abs_path c cs) + 27 + 59) s"
    and dr: "tempfs_drive s c root" and tree: "dir_tree s Dirs tree" "root \<in> Dirs" and cs: "names_ok cs"
    and p: "length (abs_path c cs) < 24" and f: "no_create flags" and mode: "unat mode < 4"
    and dev: "\<And>i. walk_path tree (\<lambda>i. i_is_dir (inodes s i)) root cs = Inr (Some i) \<Longrightarrow> i_type (inodes s i) \<noteq> FILETYPE_DEVICE"
  shows "case walk_path tree (\<lambda>i. i_is_dir (inodes s i)) root cs of
      Inl e \<Rightarrow> vfs_open D (abs_path c cs) flags mode s = Inl e
    | Inr None \<Rightarrow> \<exists>s'. vfs_open D (abs_path c cs) flags mode s = Inr (0, s') \<and> inodes s' = inodes s \<and>
        dirnodes s' = dirnodes s \<and> files s' = files s
    | Inr (Some i) \<Rightarrow> \<exists>g s'. vfs_open D (abs_path c cs) flags mode s = Inr (g, s') \<and> live s g = None \<and>
        file_opened c mode (abs_path c cs) (if i_is_dir (inodes s i) then 0 else i) (last cs) g s s'"
proof -
  have inv: "heap_inv s" by (rule roomy_inv[OF room])
  have root: "root \<noteq> 0" "i_is_dir (inodes s root)" using dir_tree_nonnull[OF inv tree] tree by (auto simp: dir_tree_def)
  obtain copy s1 m t' q where o: "vfs_open D (abs_path c cs) flags mode s =
      res_bind (open_loop D TempFS_functions flags mode (join_path cs) root s1) (\<lambda>(r, s).
        case r of None \<Rightarrow> Inr (0, s) | Some (obj, rest) \<Rightarrow> open_finish copy c mode (abs_path c cs) obj rest s)"
    and s1: "s1 = s\<lparr>mem := m, total_memory_allocated := t', pools := q\<rparr>" "roomy 59 s1" "live s copy = None"
      "live s1 = (live s)(copy \<mapsto> length (abs_path c cs))"
    using vfs_open_absolute[OF t room p dr root] by blast
  have same: "inodes s1 = inodes s" "dirnodes s1 = dirnodes s" "files s1 = files s" by (simp_all add: s1(1))
  have "dir_tree s1 Dirs tree" using s1(3) by (intro dir_tree_cong[OF tree(1) same(1,2)]) (auto simp: s1(4) map_le_def)
  note L = open_loop_walk[OF roomy_inv[OF s1(2)] this f cs refl tree(2), of D mode, unfolded same]
  have nul: "NUL \<notin> set (abs_path c cs)" using join_path_NUL[OF cs] dr by (auto simp: abs_path_def tempfs_drive_def drive_letter_def code_def)
  obtain pre where pre: "abs_path c cs = pre @ last cs" using join_path_suffix[OF cs] by (auto simp: abs_path_def)
  have letter: "drive_letter c" using dr by (simp add: tempfs_drive_def)
  show ?thesis
  proof (cases "walk_path tree (\<lambda>i. i_is_dir (inodes s i)) root cs")
    case (Inl e)
    then show ?thesis using o L by simp
  next
    case (Inr r)
    show ?thesis
    proof (cases r)
      case None
      then show ?thesis using o L Inr same by auto
    next
      case (Some i)
      let ?obj = "if i_is_dir (inodes s i) then 0 else i"
      have "i \<noteq> 0" using walk_path_nonnull[OF inv tree] Inr Some by blast
      then have "tempfs_open_file D i mode s1 = Inr (?obj, s1)" using dev[of i] same Inr Some by (simp add: tempfs_open_file_def get_inode_def)
      then have o': "vfs_open D (abs_path c cs) flags mode s = open_finish copy c mode (abs_path c cs) ?obj (last cs) s1"
        using o L Inr Some by simp
      have "roomy (59 + 0) s1" "live s1 copy = Some (length (abs_path c cs))" using s1(2) by (simp_all add: s1(4))
      from open_finish_ok[OF this p nul pre letter mode, of ?obj] obtain g s' where
        fin: "open_finish copy c mode (abs_path c cs) ?obj (last cs) s1 = Inr (g, s')"
        "file_opened c mode (abs_path c cs) ?obj (last cs) g s1 s'" "((live s1)(copy := None)) g = None" by blast
      have "live s g = None" using fin(3) s1(3) by (auto simp: s1(4) split: if_splits)
      moreover have "file_opened c mode (abs_path c cs) ?obj (last cs) g s s'" by (rule file_opened_heap[OF fin(2) s1(1)])
      ultimately have "\<exists>g s'. vfs_open D (abs_path c cs) flags mode s = Inr (g, s') \<and> live s g = None \<and>
        file_opened c mode (abs_path c cs) ?obj (last cs) g s s'" using o' fin(1) by auto
      then show ?thesis using Inr Some by auto
    qed
  qed
qed

section \<open>Creating a file\<close>

lemma tempfs_find_cong:
  assumes "inodes s' = inodes s" "dirnodes s' = dirnodes s"
  shows "tempfs_find d n s' = tempfs_find d n s"
proof -
  have "tempfs_find_loop fuel p n s' = tempfs_find_loop fuel p n s" for fuel p
  proof (induction fuel arbitrary: p)
    case 0
    then show ?case by (subst (1 2) tempfs_find_loop.simps) simp
  next
    case (Suc fuel)
    then show ?case by (subst (1 2) tempfs_find_loop.simps) (simp add: Let_def get_inode_def assms cong: res_bind_cong)
  qed
  then show ?thesis by (simp add: tempfs_find_def get_inode_def get_dirnode_def assms cong: res_bind_cong)
qed

lemma open_loop_found:
  assumes "n \<noteq> []" "CHR ''/'' \<notin> set n" "tempfs_find d n s = Inr i" "i \<noteq> 0" "i_type (inodes s i) \<noteq> FILETYPE_DEVICE" "\<not> i_is_dir (inodes s i)"
  shows "open_loop D TempFS_functions flags mode n d s = Inr (Some (i, n), s)"
  using assms by (subst open_loop.simps) (simp add: split_last[OF assms(2)] fs_call_def Let_def tempfs_open_file_def get_inode_def)

lemma open_loop_new:
  assumes "n \<noteq> []" "CHR ''/'' \<notin> set n" "tempfs_find d n s = Inr 0" "\<not> no_create flags" "tempfs_addentry d n False s = Inr (i, s')"
    "tempfs_find d n s' = Inr i" "i \<noteq> 0" "i_type (inodes s' i) \<noteq> FILETYPE_DEVICE" "\<not> i_is_dir (inodes s' i)"
  shows "open_loop D TempFS_functions flags mode n d s = Inr (Some (i, n), s')"
  using assms by (subst open_loop.simps)
    (auto simp: split_last[OF assms(2)] fs_call_def Let_def tempfs_open_file_def tempfs_mkfile_def get_inode_def no_create_def)

lemma single_name:
  assumes "names_ok [n]" "drive_letter c"
  shows "n \<noteq> []" "CHR ''/'' \<notin> set n" "NUL \<notin> set (abs_path c [n])" "abs_path c [n] = (c # '':/'') @ n"
  using assms by (auto simp: names_ok_def abs_path_def drive_letter_def code_def)

lemma vfs_open_new:
  assumes t: "get_current_task s = Inr (t, s)" and room: "roomy (length (abs_path c [n]) + 27 + (182 + (59 + k))) s"
    and dr: "tempfs_drive s c root" and dir: "dir_rep s root ns" "i_is_dir (inodes s root)" and n: "names_ok [n]"
    and p: "length (abs_path c [n]) < 23" and f: "\<not> no_create flags" and mode: "unat mode < 4" and new: "tempfs_find root n s = Inr 0"
  shows "\<exists>f s' i m u q x. vfs_open D (abs_path c [n]) flags mode s = Inr (f, s') \<and> roomy k s' \<and>
    (\<forall>a. tempfs_find root a s' = (if a = n then Inr i else tempfs_find root a s)) \<and> i \<noteq> 0 \<and> i \<noteq> root \<and>
    inodes s' = (inodes s)(i := zero_Inode\<lparr>filename := n\<rparr>, root := (inodes s root)\<lparr>num_entries := num_entries (inodes s root) + 1\<rparr>) \<and>
    s' = s\<lparr>mem := m, total_memory_allocated := u, pools := q, inodes := inodes s', dirnodes := dirnodes s', files := (files s)(f := x)\<rparr> \<and>
    f \<noteq> 0 \<and> f_private x = i \<and> f_mode x = mode \<and> f_present x \<and> drive_char x = c \<and>
    (length (abs_path c [n]) < 16 \<longrightarrow> ftype x = ftype_of n) \<and> map_le (live s) (live s')"
proof -
  have letter: "drive_letter c" using dr by (simp add: tempfs_drive_def)
  note N = single_name[OF n letter]
  have inv: "heap_inv s" by (rule roomy_inv[OF room])
  have root: "root \<noteq> 0" by (rule live_nonnull[OF inv dir_openD(4)[OF dir_repD(1)[OF dir(1)]]])
  have p24: "length (abs_path c [n]) < 24" "length n < 20" using p by (simp_all add: abs_path_def)
  obtain copy s1 m t' q where o: "vfs_open D (abs_path c [n]) flags mode s =
      res_bind (open_loop D TempFS_functions flags mode (join_path [n]) root s1) (\<lambda>(r, s).
        case r of None \<Rightarrow> Inr (0, s) | Some (obj, rest) \<Rightarrow> open_finish copy c mode (abs_path c [n]) obj rest s)"
    and s1: "s1 = s\<lparr>mem := m, total_memory_allocated := t', pools := q\<rparr>" "roomy (182 + (59 + k)) s1" "live s copy = None"
      "live s1 = (live s)(copy \<mapsto> length (abs_path c [n]))"
    using vfs_open_absolute[OF t room p24(1) dr root dir(2)] by blast
  have same: "inodes s1 = inodes s" "dirnodes s1 = dirnodes s" by (simp_all add: s1(1))
  have d1: "dir_rep s1 root ns" using s1(3) same by (intro dir_rep_cong[OF dir(1)]) (auto simp: s1(4) map_le_def)
  obtain i s2 e where a: "tempfs_addentry root n False s1 = Inr (i, s2)" "roomy (59 + k) s2" "entry_added root n False ns i e s1 s2"
    by (rule tempfs_addentry_ok[OF s1(2) dir_repD(1)[OF d1] p24(2)])
  note A = entry_addedD[OF a(3)]
  have d1': "dir_denotes s1 root (dir_lookup s1 ns)" using d1 by (auto simp: dir_denotes_def)
  have find2: "tempfs_find root b s2 = (if b = n then Inr i else tempfs_find root b s)" for b
    using tempdir.find_after_add[OF roomy_inv[OF s1(2)] d1' p24(2) a(1), of b] tempfs_find_cong[OF same] new by auto
  have ne: "i \<noteq> root" "i \<noteq> copy" "e \<noteq> copy" using A(2,3) dir_openD(4)[OF dir_repD(1)[OF d1]] by (auto simp: s1(4))
  have i2: "inodes s2 = (inodes s)(i := zero_Inode\<lparr>filename := n\<rparr>, root := (inodes s root)\<lparr>num_entries := num_entries (inodes s root) + 1\<rparr>)"
    by (simp add: A(6) same zero_Inode_def)
  have "open_loop D TempFS_functions flags mode n root s1 = Inr (Some (i, n), s2)"
    using open_loop_new[OF N(1,2) _ f a(1), of D mode] find2 tempfs_find_cong[OF same] new A(9) ne
    by (simp add: i2 zero_Inode_def FILETYPE_DEVICE_def)
  then have o2: "vfs_open D (abs_path c [n]) flags mode s = open_finish copy c mode (abs_path c [n]) i n s2" using o by simp
  have "live s2 copy = Some (length (abs_path c [n]))" using ne by (simp add: A(5) s1(4))
  from open_finish_ok[OF a(2) this p24(1) N(3,4) letter mode, of i] obtain f s' where
    fin: "open_finish copy c mode (abs_path c [n]) i n s2 = Inr (f, s')" "file_opened c mode (abs_path c [n]) i n f s2 s'" "roomy k s'"
    and l': "live s' = (live s2)(copy := None, f \<mapsto> 32)" "((live s2)(copy := None)) f = None" by blast
  then obtain m' u' q' x where x: "s' = s2\<lparr>mem := m', total_memory_allocated := u', pools := q', files := (files s2)(f := x)\<rparr>"
    "f \<noteq> 0" "f_private x = i" "f_mode x = mode" "f_present x" "drive_char x = c" "length (abs_path c [n]) < 16 \<longrightarrow> ftype x = ftype_of n"
    unfolding file_opened_def by blast
  have same': "inodes s' = inodes s2" "dirnodes s' = dirnodes s2" by (simp_all add: x(1))
  obtain m2 u2 q2 where s2: "s2 = s1\<lparr>mem := m2, total_memory_allocated := u2, pools := q2, inodes := inodes s2, dirnodes := dirnodes s2\<rparr>"
    using A(8) by blast
  have s': "s' = s\<lparr>mem := m', total_memory_allocated := u', pools := q', inodes := inodes s', dirnodes := dirnodes s', files := (files s)(f := x)\<rparr>"
    unfolding same' x(1) by (subst (1) s2, subst s2) (simp add: s1(1))
  have "live s' a = Some k" if "live s a = Some k" for a k
  proof -
    have "a \<noteq> copy" "a \<noteq> i" "a \<noteq> e" using that s1(3) A(2,3) by (auto simp: s1(4) split: if_splits)
    then show ?thesis using that l' by (auto simp: A(5) s1(4) split: if_splits)
  qed
  then have "map_le (live s) (live s')" by (auto simp: map_le_def dom_def)
  then show ?thesis
    using o2 fin(1,3) find2 tempfs_find_cong[OF same', of root] A(9) ne(1) i2 same' s' x(2-7) by (intro exI[of _ f] exI[of _ s'] exI[of _ i]) auto
qed

text \<open>A concrete system: two tasks, and a drive \<open>R\<close> whose root directory has one file.\<close>

definition sample_vfs :: "tasks_state \<Rightarrow> vfs_state" where
  "sample_vfs t = fs_state.extend (screen_state.extend (tasks_state.extend t
     \<lparr>fb_address = 0xfd000000, fb_width = 32, fb_height = 40, fb_pitch = 128, fb_bpp = 32, framebuffer_size = 5120,
      back_buffer = 0x200000, char_size = 16, font_data = 0x300000, font_loaded = True, fg_colour = 0xFFFFFF,
      bg_colour = 0, ch_X = 5, ch_Y = 5, serial_text = []\<rparr>)
     \<lparr>inodes = (\<lambda>_. zero_Inode), dirnodes = (\<lambda>_. zero_DirEntryNode), fnode_next = (\<lambda>_. 0)\<rparr>)
     \<lparr>filesystems = [TempFS_functions], drives = replicate 26 zero_Drive,
      files = (\<lambda>_. \<lparr>f_present = False, ftype = 0, f_length = 0, drive_char = NUL, f_mode = 0, f_private = 0\<rparr>), serial_held = False\<rparr>"

lemma sample_vfs_task:
  assumes "sched_rep t xs i" "unlocked t"
  shows "get_current_task (sample_vfs t) = Inr (xs ! i, sample_vfs t)"
proof -
  have eq: "vecs (sample_vfs t) = vecs t" "vnodes (sample_vfs t) = vnodes t" "tasklist_list (sample_vfs t) = tasklist_list t"
    "current_tasks (sample_vfs t) = current_tasks t" "locks (sample_vfs t) = locks t" "lapic_id (sample_vfs t) = lapic_id t"
    by (simp_all add: sample_vfs_def tasks_state.defs screen_state.defs fs_state.defs)
  have l: "\<not> locks t Current_cpu_lock" "\<not> locks t Get_current_task_lock" using assms(2) by (simp_all add: unlocked_def)
  have "vector_at v j (sample_vfs t) = vector_at v j t" for v j by (rule vector_at_cong) (simp_all add: eq)
  then show ?thesis
    using get_current_task_free[of "sample_vfs t"] l sched_current(1,2)[OF assms(1)] eq by (simp add: get_task_def cpu_of_def)
qed

lemma sample_drive:
  "\<exists>(s :: vfs_state) root node fl. get_current_task s = Inr (0x1000, s) \<and> locks s = (\<lambda>_. False) \<and> roomy 89687 s \<and>
    tempfs_drive s CHR ''R'' root \<and> dir_rep s root [node] \<and> dir_lookup s [node] = [''motd'' \<mapsto> fl] \<and> i_is_dir (inodes s root) \<and>
    \<not> i_is_dir (inodes s fl) \<and> (\<forall>i. i_type (inodes s i) \<noteq> FILETYPE_DEVICE) \<and> fl \<noteq> 0 \<and> drives s ! 23 = zero_Drive \<and>
    memmap s = sample_memmap \<and> hhdm s = 0xffff800000000000 \<and> fnode_next s = (\<lambda>_. 0) \<and> resources (tasks s 0x1000) = replicate NUM_RESOURCES 0"
proof -
  obtain t :: tasks_state and q where t: "sched_rep t [0x1000, 0x2000] 0" "unlocked t" "roomy 90000 t"
    "memmap t = sample_memmap" "hhdm t = 0xffff800000000000" "tasks t 0x1000 = sample_task False q 1"
    using sample_sched_list[of "[0x1000, 0x2000]" "0x1000" "0x2000" 0] by auto
  have "roomy 90000 (sample_vfs t) = roomy 90000 t"
    by (rule heap_cong) (simp add: sample_vfs_def kheap_state.defs tasks_state.defs screen_state.defs fs_state.defs)
  then have r0: "roomy 90000 (sample_vfs t)" using t(3) by simp
  obtain root s1 where m1: "malloc 104 (sample_vfs t) = Inr (root, s1)" "roomy 89869 s1" using malloc_room[of 104 89869 "sample_vfs t"] r0 by auto
  obtain node s2 where m2: "malloc 24 s1 = Inr (node, s2)" "roomy 89818 s2" using malloc_room[of 24 89818 s1] m1 by auto
  obtain fl s3 where m3: "malloc 104 s2 = Inr (fl, s3)" "roomy 89687 s3" using malloc_room[of 104 89687 s2] m2 by auto
  note M1 = malloc_fs[OF roomy_inv[OF r0] _ m1(1), simplified]
  note M2 = malloc_fs[OF M1(4) _ m2(1), simplified]
  note M3 = malloc_fs[OF M2(4) _ m3(1), simplified]
  let ?ds = "(replicate 26 zero_Drive)[17 := zero_Drive\<lparr>present := True, fs := TempFS_functions, in_memory := True, mem_offset := root\<rparr>]"
  let ?s = "s3\<lparr>inodes := (\<lambda>a. if a = root then zero_Inode\<lparr>i_is_dir := True, i_first := node\<rparr>
        else if a = fl then zero_Inode\<lparr>filename := ''motd''\<rparr> else zero_Inode),
      dirnodes := (\<lambda>_. \<lparr>de_is_dir = False, de_inode = fl, de_next = 0\<rparr>), drives := ?ds\<rparr>"
  have h: "live ?s = live s3" "roomy 89687 ?s = roomy 89687 s3" by (rule heap_cong, simp add: kheap_state.defs)+
  have l3: "live s3 = (live (sample_vfs t))(root \<mapsto> 104, node \<mapsto> 24, fl \<mapsto> 104)" using M1(6) M2(6) M3(6) by simp
  have ne: "root \<noteq> fl" "root \<noteq> node" "node \<noteq> fl" using M2(5) M3(5) by (auto simp: M1(6) M2(6) split: if_splits)
  have "dir_rep ?s root [node]" using M2(7) ne by (simp add: dir_rep_def dir_open_def h l3) (simp add: zero_Inode_def)
  moreover have "dir_lookup ?s [node] = [''motd'' \<mapsto> fl]" using ne by (auto simp: dir_lookup_def entry_name_def fun_eq_iff)
  moreover have "tempfs_drive ?s CHR ''R'' root" by (simp add: tempfs_drive_def drive_letter_def code_def zero_Drive_def Let_def)
  moreover have "i_is_dir (inodes ?s root)" "\<not> i_is_dir (inodes ?s fl)" "\<forall>i. i_type (inodes ?s i) \<noteq> FILETYPE_DEVICE"
    using ne by (simp_all add: zero_Inode_def FILETYPE_DEVICE_def)
  moreover have f: "vecs ?s = vecs (sample_vfs t)" "vnodes ?s = vnodes (sample_vfs t)" "tasklist_list ?s = tasklist_list (sample_vfs t)"
    "current_tasks ?s = current_tasks (sample_vfs t)" "locks ?s = locks (sample_vfs t)" "lapic_id ?s = lapic_id (sample_vfs t)"
    using M1(8) M2(8) M3(8) by auto
  have l: "locks (sample_vfs t) = (\<lambda>_. False)"
    using t(2) by (simp add: sample_vfs_def tasks_state.defs screen_state.defs fs_state.defs unlocked_def)
  then have "get_current_task ?s = Inr (0x1000, ?s)" "locks ?s = (\<lambda>_. False)"
    using get_current_task_cong[OF sample_vfs_task[OF t(1,2)] f] f(5) by simp_all
  moreover have "drives ?s ! 23 = zero_Drive" by simp
  moreover have "memmap ?s = memmap (sample_vfs t)" "hhdm ?s = hhdm (sample_vfs t)" "fnode_next ?s = fnode_next (sample_vfs t)"
    "tasks ?s = tasks (sample_vfs t)" using M1(8) M2(8) M3(8) by auto
  then have "memmap ?s = sample_memmap" "hhdm ?s = 0xffff800000000000" "fnode_next ?s = (\<lambda>_. 0)"
    "resources (tasks ?s 0x1000) = replicate NUM_RESOURCES 0"
    using t(4-6) by (simp_all add: sample_vfs_def tasks_state.defs screen_state.defs fs_state.defs sample_task_def zero_Task_def)
  ultimately show ?thesis using h m3(2) M3(7) by blast
qed

theorem vfs_open_follows_path_witness:
  "\<exists>(s :: vfs_state) root fl g s'. tempfs_find root ''motd'' s = Inr fl \<and>
     vfs_open \<lparr>call_rw = \<lambda>_ _ _ _ s. Inr (0, s), call_open = \<lambda>_ _ _ s. Inr s, call_close = \<lambda>_ _ s. Inr s\<rparr> ''R:/motd'' 0 MODE_READONLY s = Inr (g, s') \<and>
     f_private (files s' g) = fl"
proof -
  obtain s :: vfs_state and root node fl where s: "get_current_task s = Inr (0x1000, s)" "roomy 89687 s"
    "tempfs_drive s CHR ''R'' root" "dir_rep s root [node]" "dir_lookup s [node] = [''motd'' \<mapsto> fl]" "i_is_dir (inodes s root)"
    "\<not> i_is_dir (inodes s fl)" "\<forall>i. i_type (inodes s i) \<noteq> FILETYPE_DEVICE" using sample_drive by blast
  have p: "abs_path CHR ''R'' [''motd''] = ''R:/motd''" by (simp add: abs_path_def)
  have r: "roomy (length (abs_path CHR ''R'' [''motd'']) + 27 + 59) s" using roomy_mono[OF s(2)] by (simp add: p)
  have t: "dir_tree s {root} (\<lambda>_. [''motd'' \<mapsto> fl])" using dir_rep_shows[OF s(4)] s(5-7) by (auto simp: dir_tree_def split: if_splits)
  let ?D = "\<lparr>call_rw = \<lambda>_ _ _ _ s. Inr (0, s), call_open = \<lambda>_ _ _ s. Inr s, call_close = \<lambda>_ _ s. Inr s\<rparr>"
  have "\<exists>g s'. vfs_open ?D (abs_path CHR ''R'' [''motd'']) 0 MODE_READONLY s = Inr (g, s') \<and> live s g = None \<and>
        file_opened CHR ''R'' MODE_READONLY (abs_path CHR ''R'' [''motd'']) fl ''motd'' g s s'"
    using vfs_open_follows_path[OF s(1) r s(3) t, of 0 MODE_READONLY ?D] s(7,8)
    by (simp add: names_ok_def p no_create_def MODE_READONLY_def)
  moreover have "tempfs_find root ''motd'' s = Inr fl" using tempfs_find_rep[OF roomy_inv[OF s(2)] s(4), of "''motd''"] by (simp add: s(5))
  ultimately show ?thesis unfolding file_opened_def p by fastforce
qed

text \<open>C10. Opening \<open>X:/name\<close>, a path of at most 22 characters with one name in the root directory of a
  TempFS drive that has no such name, with a creating flag and room on the heap for the new entry and
  both opens, makes an empty file and opens it: the name leads to its inode, no other name is affected,
  and the next \<open>open\<close> of the path, with whatever flags, gives a file object for the same inode and
  changes no inode.\<close>

theorem vfs_open_creates_file:
  assumes "get_current_task s = Inr (t, s)" "locks s = (\<lambda>_. False)" "tempfs_drive s c root" "dir_rep s root ns" "i_is_dir (inodes s root)"
    "roomy (length (abs_path c [n]) + 27 + (182 + (59 + (length (abs_path c [n]) + 27 + 59)))) s" "names_ok [n]"
    "length (abs_path c [n]) < 23" "\<not> no_create flags" "unat mode < 4" "tempfs_find root n s = Inr 0"
  shows "\<exists>f s' i. vfs_open D (abs_path c [n]) flags mode s = Inr (f, s') \<and> f_private (files s' f) = i \<and> tempfs_length i s' = Inr 0 \<and>
    (\<forall>a. tempfs_find root a s' = (if a = n then Inr i else tempfs_find root a s)) \<and>
    (\<forall>flags' mode'. unat mode' < 4 \<longrightarrow> (\<exists>g s''. vfs_open D (abs_path c [n]) flags' mode' s' = Inr (g, s'') \<and>
       f_private (files s'' g) = i \<and> f_mode (files s'' g) = mode' \<and> inodes s'' = inodes s'))"
proof -
  obtain f s' i m u q x where o: "vfs_open D (abs_path c [n]) flags mode s = Inr (f, s')" "roomy (length (abs_path c [n]) + 27 + 59) s'"
    "\<forall>a. tempfs_find root a s' = (if a = n then Inr i else tempfs_find root a s)" "i \<noteq> 0" "i \<noteq> root"
    and i: "inodes s' = (inodes s)(i := zero_Inode\<lparr>filename := n\<rparr>, root := (inodes s root)\<lparr>num_entries := num_entries (inodes s root) + 1\<rparr>)"
    and s': "s' = s\<lparr>mem := m, total_memory_allocated := u, pools := q, inodes := inodes s', dirnodes := dirnodes s', files := (files s)(f := x)\<rparr>"
    and x: "f_private x = i"
    using vfs_open_new[OF assms(1,6,3,4,5,7-11), where D = D] by (elim exE conjE) (rule that, assumption+)
  have letter: "drive_letter c" using assms(3) by (simp add: tempfs_drive_def)
  note N = single_name[OF assms(7) letter]
  have p24: "length (abs_path c [n]) < 24" using assms(8) by simp
  have f': "vecs s' = vecs s" "vnodes s' = vnodes s" "tasklist_list s' = tasklist_list s" "current_tasks s' = current_tasks s"
    "locks s' = locks s" "lapic_id s' = lapic_id s" "drives s' = drives s"
    by (subst s', simp)+
  have t': "get_current_task s' = Inr (t, s')" by (rule get_current_task_cong[OF assms(1) f'(1-6)]) (simp_all add: assms(2))
  have dr': "tempfs_drive s' c root" using assms(3) by (simp add: tempfs_drive_def f')
  have root: "root \<noteq> 0" "i_is_dir (inodes s' root)"
    using live_nonnull[OF roomy_inv[OF assms(6)] dir_openD(4)[OF dir_repD(1)[OF assms(4)]]] assms(5) by (simp_all add: i)
  have "\<exists>g s''. vfs_open D (abs_path c [n]) flags' mode' s' = Inr (g, s'') \<and> f_private (files s'' g) = i \<and>
      f_mode (files s'' g) = mode' \<and> inodes s'' = inodes s'" if md: "unat mode' < 4" for flags' mode'
  proof -
    obtain copy s1 m1 t1 q1 where o1: "vfs_open D (abs_path c [n]) flags' mode' s' =
      res_bind (open_loop D TempFS_functions flags' mode' (join_path [n]) root s1) (\<lambda>(r, s).
        case r of None \<Rightarrow> Inr (0, s) | Some (obj, rest) \<Rightarrow> open_finish copy c mode' (abs_path c [n]) obj rest s)"
      and s1: "s1 = s'\<lparr>mem := m1, total_memory_allocated := t1, pools := q1\<rparr>" "roomy 59 s1"
        "live s1 = (live s')(copy \<mapsto> length (abs_path c [n]))"
      using vfs_open_absolute[OF t' o(2) p24 dr' root] by blast
    have same: "inodes s1 = inodes s'" "dirnodes s1 = dirnodes s'" by (simp_all add: s1(1))
    have "tempfs_find root n s1 = Inr i" using tempfs_find_cong[OF same, of root n] o(3) by simp
    from open_loop_found[OF N(1,2) this o(4), of D flags' mode'] o(5)
    have l: "open_loop D TempFS_functions flags' mode' n root s1 = Inr (Some (i, n), s1)"
      by (simp add: same i zero_Inode_def FILETYPE_DEVICE_def)
    have "roomy (59 + 0) s1" "live s1 copy = Some (length (abs_path c [n]))" using s1(2) by (simp_all add: s1(3))
    from open_finish_ok[OF this p24 N(3,4) letter md, of i] obtain g s'' where
      "open_finish copy c mode' (abs_path c [n]) i n s1 = Inr (g, s'')" "file_opened c mode' (abs_path c [n]) i n g s1 s''" by blast
    then show ?thesis using o1 l same unfolding file_opened_def by fastforce
  qed
  moreover have "f_private (files s' f) = i" by (subst s') (simp add: x)
  moreover have "tempfs_length i s' = Inr 0" using o(4,5) by (simp add: tempfs_length_def get_inode_def i zero_Inode_def)
  ultimately show ?thesis using o(1,3) by blast
qed

theorem vfs_open_creates_file_witness:
  "\<exists>(s :: vfs_state) root f s' i. tempfs_find root ''log'' s = Inr 0 \<and>
     vfs_open \<lparr>call_rw = \<lambda>_ _ _ _ s. Inr (0, s), call_open = \<lambda>_ _ _ s. Inr s, call_close = \<lambda>_ _ s. Inr s\<rparr> ''R:/log'' O_CREAT MODE_READWRITE s = Inr (f, s') \<and>
     f_private (files s' f) = i \<and> tempfs_find root ''log'' s' = Inr i"
proof -
  obtain s :: vfs_state and root node fl where s: "get_current_task s = Inr (0x1000, s)" "locks s = (\<lambda>_. False)" "roomy 89687 s"
    "tempfs_drive s CHR ''R'' root" "dir_rep s root [node]" "dir_lookup s [node] = [''motd'' \<mapsto> fl]" "i_is_dir (inodes s root)"
    using sample_drive by blast
  let ?D = "\<lparr>call_rw = \<lambda>_ _ _ _ s. Inr (0, s), call_open = \<lambda>_ _ _ s. Inr s, call_close = \<lambda>_ _ s. Inr s\<rparr>"
  have p: "abs_path CHR ''R'' [''log''] = ''R:/log''" by (simp add: abs_path_def)
  have new: "tempfs_find root ''log'' s = Inr 0" using tempfs_find_rep[OF roomy_inv[OF s(3)] s(5), of "''log''"] by (simp add: s(6))
  have "roomy (length (abs_path CHR ''R'' [''log'']) + 27 + (182 + (59 + (length (abs_path CHR ''R'' [''log'']) + 27 + 59)))) s"
    using roomy_mono[OF s(3)] by (simp add: p)
  note c = vfs_open_creates_file[OF s(1,2,4,5,7) this _ _ _ _ new, of O_CREAT MODE_READWRITE ?D]
  obtain f s' where "vfs_open ?D ''R:/log'' O_CREAT MODE_READWRITE s = Inr (f, s')" "tempfs_find root ''log'' s' = Inr (f_private (files s' f))"
    using c by (auto simp: p names_ok_def no_create_def O_CREAT_def MODE_READWRITE_def)
  then show ?thesis using new by blast
qed

lemma mkdir_absolute:
  assumes t: "get_current_task s = Inr (t, s)" and room: "roomy (length (abs_path c cs) + 27 + k) s"
    and p: "length (abs_path c cs) < 2 ^ 60" and l: "drive_letter c" "length (drives s) = 26"
  shows "\<exists>copy s1 m t' q. malloc (of_nat (length (abs_path c cs))) s = Inr (copy, s1) \<and> roomy k s1 \<and>
     live s1 = (live s)(copy \<mapsto> length (abs_path c cs)) \<and>
     s1 = s\<lparr>mem := m, total_memory_allocated := t', pools := q\<rparr> \<and> drive_at c s1 = Inr (drives s ! (code c - 65)) \<and>
     mkdir (abs_path c cs) s =
       (let dr = drives s ! (code c - 65) in
        res_bind (fs_call (fs dr) (Inr (mem_offset dr))) (\<lambda>root.
        res_bind (fs_call (fs dr) (tempfs_open_dir root s1)) (\<lambda>obj.
        res_bind (mkdir_loop (fs dr) (join_path cs) obj s1) (\<lambda>s.
        res_bind (kfree copy s) (\<lambda>s. Inr (0, s))))))"
proof -
  let ?n = "of_nat (length (abs_path c cs)) :: u64"
  have u: "unat ?n = length (abs_path c cs)" using p by (simp add: unat_of_nat_u64)
  then have u2: "unat ?n < 2 ^ 62" using p by simp
  obtain copy s1 where m: "malloc ?n s = Inr (copy, s1)" "roomy k s1" using malloc_room[OF _ u2, of k s] room u by auto
  note M = malloc_fs[OF roomy_inv[OF room] u2 m(1)]
  from M(8) obtain m' t' q where s1: "s1 = s\<lparr>mem := m', total_memory_allocated := t', pools := q\<rparr>" by blast
  have c: "upper_case c = c" using l(1) by (simp add: upper_case_def drive_letter_def code_def)
  have path: "str_at (abs_path c cs) 0 = Inr c" "drop 3 (abs_path c cs) = join_path cs" "is_relative (abs_path c cs) = Inr False"
    by (simp_all add: str_at_def arr_get_def abs_path_def is_relative_def)
  have d: "drive_at c s1 = Inr (drives s ! (code c - 65))" using drive_at_letter(1)[OF l(1), of s1] l(2) by (simp add: s1)
  then have "mkdir (abs_path c cs) s =
       (let dr = drives s ! (code c - 65) in
        res_bind (fs_call (fs dr) (Inr (mem_offset dr))) (\<lambda>root.
        res_bind (fs_call (fs dr) (tempfs_open_dir root s1)) (\<lambda>obj.
        res_bind (mkdir_loop (fs dr) (join_path cs) obj s1) (\<lambda>s.
        res_bind (kfree copy s) (\<lambda>s. Inr (0, s))))))"
    unfolding mkdir_def resolve_absolute[OF t] using m(1) l(1) path c by (simp add: Let_def tempfs_find_root_def)
  moreover have "live s1 = (live s)(copy \<mapsto> length (abs_path c cs))" using M(6) u by simp
  ultimately show ?thesis using m s1 d by blast
qed

text \<open>\<open>mkdir\<close> lacks two checks. On a drive that is not mounted it calls through a null pointer, where
  \<open>open\<close> returns \<open>NULL\<close> and \<open>create_device\<close> an error code. On a mounted drive, a path that does not end in a
  slash makes it read behind its copy of the path.\<close>

theorem mkdir_missing_checks:
  assumes t: "get_current_task s = Inr (t, s)" and room: "roomy (length (abs_path c [n]) + 27 + 0) s"
    and p: "length (abs_path c [n]) < 2 ^ 60" and l: "drive_letter c" "length (drives s) = 26"
  shows "(drives s ! (code c - 65) = zero_Drive \<longrightarrow>
      mkdir (abs_path c [n]) s = Inl NullDeref \<and> (\<exists>s'. vfs_open D (abs_path c [n]) flags mode s = Inr (0, s')) \<and>
      (\<exists>s'. create_device (abs_path c [n]) ops s = Inr (3, s'))) \<and>
    (tempfs_drive s c root \<and> root \<noteq> 0 \<and> i_is_dir (inodes s root) \<and> names_ok [n] \<longrightarrow> mkdir (abs_path c [n]) s = Inl OutOfBounds)"
proof (intro conjI[of "_ \<longrightarrow> _"] impI)
  obtain copy s1 m t' q where M: "malloc (of_nat (length (abs_path c [n]))) s = Inr (copy, s1)" "roomy 0 s1"
     "live s1 = (live s)(copy \<mapsto> length (abs_path c [n]))"
     "s1 = s\<lparr>mem := m, total_memory_allocated := t', pools := q\<rparr>" "drive_at c s1 = Inr (drives s ! (code c - 65))"
    and mk: "mkdir (abs_path c [n]) s =
       (let dr = drives s ! (code c - 65) in
        res_bind (fs_call (fs dr) (Inr (mem_offset dr))) (\<lambda>root.
        res_bind (fs_call (fs dr) (tempfs_open_dir root s1)) (\<lambda>obj.
        res_bind (mkdir_loop (fs dr) (join_path [n]) obj s1) (\<lambda>s.
        res_bind (kfree copy s) (\<lambda>s. Inr (0, s))))))"
    using mkdir_absolute[OF t room p l] by blast
  have path: "str_at (abs_path c [n]) 0 = Inr c" by (simp add: str_at_def arr_get_def abs_path_def)
  show "mkdir (abs_path c [n]) s = Inl NullDeref \<and> (\<exists>s'. vfs_open D (abs_path c [n]) flags mode s = Inr (0, s')) \<and>
      (\<exists>s'. create_device (abs_path c [n]) ops s = Inr (3, s'))" if z: "drives s ! (code c - 65) = zero_Drive"
  proof (intro conjI)
    show "mkdir (abs_path c [n]) s = Inl NullDeref" using mk z by (simp add: Let_def zero_Drive_def fs_call_def)
    obtain s2 where "kfree copy s1 = Inr s2" using kfree_room[OF M(2), of copy] by (auto simp: M(3))
    then show "\<exists>s'. vfs_open D (abs_path c [n]) flags mode s = Inr (0, s')" "\<exists>s'. create_device (abs_path c [n]) ops s = Inr (3, s')"
      unfolding vfs_open_def create_device_def resolve_absolute[OF t]
      using M(1,5) l(1) path z by (simp_all add: zero_Drive_def fs_id_def FS_TEMPFS_def)
  qed
  show "mkdir (abs_path c [n]) s = Inl OutOfBounds" if r: "tempfs_drive s c root \<and> root \<noteq> 0 \<and> i_is_dir (inodes s root) \<and> names_ok [n]"
  proof -
    have "tempfs_open_dir root s1 = Inr root" using r by (simp add: tempfs_open_dir_def get_inode_def M(4))
    moreover have "n \<noteq> []" "CHR ''/'' \<notin> set n" using r by (auto simp: names_ok_def)
    then have "mkdir_loop TempFS_functions n root s1 = Inl OutOfBounds" by (subst mkdir_loop.simps) (simp add: split_last Let_def)
    ultimately show ?thesis using mk r by (simp add: tempfs_drive_def Let_def fs_call_def)
  qed
qed

theorem mkdir_missing_checks_witness:
  "\<exists>s :: vfs_state. mkdir ''R:/exec'' s = Inl OutOfBounds \<and> mkdir ''X:/exec'' s = Inl NullDeref"
proof -
  obtain s :: vfs_state and root node fl where s: "get_current_task s = Inr (0x1000, s)" "roomy 89687 s"
    "tempfs_drive s CHR ''R'' root" "dir_rep s root [node]" "i_is_dir (inodes s root)" "drives s ! 23 = zero_Drive"
    using sample_drive by blast
  have p: "abs_path c [''exec''] = c # '':/exec''" for c by (simp add: abs_path_def)
  have room: "roomy (length (abs_path c [''exec'']) + 27 + 0) s" for c using roomy_mono[OF s(2)] by (simp add: p)
  have ds: "length (drives s) = 26" using s(3) by (simp add: tempfs_drive_def)
  have root: "root \<noteq> 0" by (rule live_nonnull[OF roomy_inv[OF s(2)] dir_openD(4)[OF dir_repD(1)[OF s(4)]]])
  have l: "drive_letter CHR ''R''" "drive_letter CHR ''X''" "code CHR ''X'' - 65 = 23" by (simp_all add: drive_letter_def code_def)
  have "mkdir (abs_path CHR ''R'' [''exec'']) s = Inl OutOfBounds"
    using mkdir_missing_checks[OF s(1) room _ l(1) ds, where root = root] s(3,5) root by (simp add: p names_ok_def)
  moreover have "mkdir (abs_path CHR ''X'' [''exec'']) s = Inl NullDeref"
    using mkdir_missing_checks[OF s(1) room _ l(2) ds] s(6) by (simp add: p l(3))
  ultimately show ?thesis by (auto simp: p)
qed

end
