(* ===== verification/Keyboard.thy ===== *)
theory Keyboard
  imports VFS
begin

text \<open>
  The PS/2 keyboard (\<open>src/src/drivers/keyboard.c\<close>): the interrupt handler that edits the line being read, and
  the read, open and close functions of the device. What the two ports deliver is an argument of the
  handler; a read is given the interrupts that arrive while it waits.
\<close>

section \<open>State\<close>

record KeyboardData =
  input_len :: u64
  currently_reading :: bool
  shifted :: bool
  caps :: bool
  current_buffer :: u64
  buffer_size :: u64

definition zero_KeyboardData :: KeyboardData where
  "zero_KeyboardData = \<lparr>input_len = 0, currently_reading = False, shifted = False, caps = False, current_buffer = 0, buffer_size = 0\<rparr>"

text \<open>\<open>eois\<close> counts the writes to the local APIC's end-of-interrupt register.\<close>

record kb_state = vfs_state +
  kbs :: "u64 \<Rightarrow> KeyboardData"
  current_input_data :: u64
  eois :: nat

definition sizeof_KeyboardData :: u64 where "sizeof_KeyboardData = 32"

definition character_table :: "u8 list" where
  "character_table =
    [0, 0, 49, 50, 51, 52, 53, 54, 55, 56, 57, 48, 45, 61, 0, 9, 113, 119, 101, 114,
     116, 121, 117, 105, 111, 112, 91, 93, 0, 0, 97, 115, 100, 102, 103, 104, 106, 107, 108, 59,
     39, 96, 0, 92, 122, 120, 99, 118, 98, 110, 109, 44, 46, 47, 0, 42, 0, 32, 0, 0,
     0, 0, 0, 0, 0, 0, 0, 0, 0, 0, 0, 0, 0, 0, 0, 0, 0, 0, 0, 0,
     27, 0, 0, 0, 0, 0, 0, 0, 0, 0, 0, 14, 28, 0, 0, 0, 0, 0, 0, 0,
     0, 47, 0, 0, 0, 0, 0, 0, 0, 0, 0, 0, 0, 0, 0, 0, 0, 0, 0, 0,
     30, 31, 32, 33, 34, 35, 36, 37, 38, 39, 40, 0, 0, 0, 0, 0, 0, 0, 0, 44]"

definition shifted_character_table :: "u8 list" where
  "shifted_character_table =
    [0, 0, 33, 64, 35, 36, 37, 94, 38, 42, 40, 41, 95, 43, 0, 9, 81, 87, 69, 82,
     84, 89, 85, 73, 79, 80, 123, 125, 0, 0, 65, 83, 68, 70, 71, 72, 74, 75, 76, 58,
     34, 126, 0, 124, 90, 88, 67, 86, 66, 78, 77, 60, 62, 63, 0, 42, 0, 32, 0, 0,
     0, 0, 0, 0, 0, 0, 0, 0, 0, 0, 0, 0, 0, 0, 0, 0, 0, 0, 0, 0,
     27, 0, 0, 0, 0, 0, 0, 0, 0, 0, 0, 14, 28, 0, 0, 0, 0, 0, 0, 0,
     0, 63, 0, 0, 0, 0, 0, 0, 0, 0, 0, 0, 0, 0, 0, 0, 0, 0, 0, 0,
     30, 31, 32, 33, 34, 35, 36, 37, 38, 39, 40, 0, 0, 0, 0, 0, 0, 0, 0, 44]"

section \<open>The interrupt handler\<close>

definition upd_kb :: "u64 \<Rightarrow> (KeyboardData \<Rightarrow> KeyboardData) \<Rightarrow> 'a kb_state_scheme \<Rightarrow> 'a kb_state_scheme" where
  "upd_kb p f s = s\<lparr>kbs := (kbs s)(p := f (kbs s p))\<rparr>"

definition end_of_interrupt :: "'a kb_state_scheme \<Rightarrow> 'a kb_state_scheme" where
  "end_of_interrupt s = s\<lparr>eois := Suc (eois s)\<rparr>"

definition draw_cursor :: "'a screen_state_scheme \<Rightarrow> 'a screen_state_scheme" where
  "draw_cursor s =
     (let prev_bg = bg_colour s;
          s = s\<lparr>bg_colour := 0xFFFFFF\<rparr>;
          s = write_char 32 s;
          s = s\<lparr>bg_colour := prev_bg\<rparr>;
          s = s\<lparr>ch_X := ch_X s - 8\<rparr>
      in swap_framebuffers s)"

text \<open>The character of a key, by the state of shift and caps lock; \<open>char\<close> comparisons on values below 128.\<close>

definition key_char :: "u8 \<Rightarrow> KeyboardData \<Rightarrow> u8 result" where
  "key_char scancode k =
     res_bind (arr_get character_table (unat scancode)) (\<lambda>plain.
     res_bind (arr_get shifted_character_table (unat scancode)) (\<lambda>shift.
     Inr (if shifted k \<and> \<not> caps k then shift
          else if shifted k \<and> caps k then (if 97 \<le> plain \<and> plain \<le> 122 then plain else shift)
          else if \<not> shifted k \<and> caps k then (if 97 \<le> plain \<and> plain \<le> 122 then shift else plain)
          else plain)))"

definition put_buffer :: "u64 \<Rightarrow> u64 \<Rightarrow> u8 \<Rightarrow> 'a kb_state_scheme \<Rightarrow> 'a kb_state_scheme" where
  "put_buffer p i ch s = s\<lparr>mem := (mem s)(current_buffer (kbs s p) + i := ch)\<rparr>"

definition keyboard_isr :: "u8 \<Rightarrow> u8 \<Rightarrow> 'a kb_state_scheme \<Rightarrow> 'a kb_state_scheme result" where
  "keyboard_isr status scancode s =
     (let p = current_input_data s in
      if p = 0 then Inr s
      else if \<not> currently_reading (kbs s p) then Inr s
      else if status AND 1 = 0 then Inr s
      else if scancode AND 0x80 \<noteq> 0 then
        Inr (end_of_interrupt
          (if scancode = 0xAA \<or> scancode = 0xB6 then upd_kb p (\<lambda>k. k\<lparr>shifted := False\<rparr>) s else s))
      else if scancode = 0x0E \<and> input_len (kbs s p) > 0 then
        res_bind (console_printf ('' '' @ [NUL]) [] s) (\<lambda>s.
        let s = s\<lparr>ch_X := ch_X s - 16\<rparr> in
        res_bind (console_printf ('' '' @ [NUL]) [] s) (\<lambda>s.
        let s = s\<lparr>ch_X := ch_X s - 8\<rparr>;
            s = draw_cursor s;
            s = upd_kb p (\<lambda>k. k\<lparr>input_len := input_len k - 1\<rparr>) s;
            s = put_buffer p (input_len (kbs s p)) 0 s
        in Inr (end_of_interrupt s)))
      else if scancode = 0x3A then Inr (end_of_interrupt (upd_kb p (\<lambda>k. k\<lparr>caps := \<not> caps k\<rparr>) s))
      else if scancode = 0x2A \<or> scancode = 0x36 then Inr (end_of_interrupt (upd_kb p (\<lambda>k. k\<lparr>shifted := True\<rparr>) s))
      else if scancode = 0x1C \<or> buffer_size (kbs s p) = input_len (kbs s p) then
        (let s = put_buffer p (input_len (kbs s p)) 0 s;
             s = upd_kb p (\<lambda>k. k\<lparr>currently_reading := False\<rparr>) s in
         res_bind (console_printf ('' '' @ [NUL]) [] s) (\<lambda>s.
         Inr (end_of_interrupt (s\<lparr>ch_X := ch_X s - 8\<rparr>))))
      else
        res_bind (key_char scancode (kbs s p)) (\<lambda>ch.
        res_bind (console_printf (''%c'' @ [NUL]) [VInt (scast ch)] s) (\<lambda>s.
        let s = put_buffer p (input_len (kbs s p)) ch s;
            s = upd_kb p (\<lambda>k. k\<lparr>input_len := input_len k + 1\<rparr>) s;
            s = draw_cursor s
        in Inr (end_of_interrupt s))))"

section \<open>The device\<close>

text \<open>The wait of \<open>read_ps2_kb\<close>: the interrupts that arrive, as pairs of status and scancode, until the line is
  complete; a line that never is makes the read wait forever.\<close>

fun wait_for_line :: "(u8 \<times> u8) list \<Rightarrow> u64 \<Rightarrow> 'a kb_state_scheme \<Rightarrow> 'a kb_state_scheme result" where
  "wait_for_line irqs kb_data s =
     (if \<not> currently_reading (kbs s kb_data) then Inr s
      else case irqs of [] \<Rightarrow> Inl Diverged
      | (status, scancode) # irqs \<Rightarrow> res_bind (keyboard_isr status scancode s) (wait_for_line irqs kb_data))"

declare wait_for_line.simps [simp del]

definition read_ps2_kb ::
  "(u8 \<times> u8) list \<Rightarrow> u64 \<Rightarrow> u64 \<Rightarrow> u64 \<Rightarrow> 'a kb_state_scheme \<Rightarrow> (u32 \<times> 'a kb_state_scheme) result" where
  "read_ps2_kb irqs filev buffer max_len s =
     res_bind (get_inode filev s) (\<lambda>i.
     let kb_data = i_private i;
         s = draw_cursor s in
     if kb_data = 0 then Inl NullDeref
     else
       (let s = upd_kb kb_data (\<lambda>k. k\<lparr>currently_reading := True, current_buffer := buffer, buffer_size := max_len - 1\<rparr>) s;
            s = s\<lparr>current_input_data := kb_data\<rparr> in
        res_bind (wait_for_line irqs kb_data s) (\<lambda>s.
          Inr (0, upd_kb kb_data (\<lambda>k. k\<lparr>current_buffer := 0, input_len := 0\<rparr>) s))))"

definition open_ps2_kb :: "u64 \<Rightarrow> u8 \<Rightarrow> 'a kb_state_scheme \<Rightarrow> 'a kb_state_scheme result" where
  "open_ps2_kb filev mode s =
     (if mode \<noteq> MODE_READONLY then Inr s
      else if filev = 0 then Inl NullDeref
      else
        res_bind (malloc sizeof_KeyboardData s) (\<lambda>(kb_data, s).
        let s = upd_inode filev (\<lambda>i. i\<lparr>i_private := kb_data\<rparr>) s
        in Inr (upd_kb kb_data (\<lambda>_. zero_KeyboardData) s)))"

definition close_ps2_kb :: "u64 \<Rightarrow> 'a kb_state_scheme \<Rightarrow> 'a kb_state_scheme result" where
  "close_ps2_kb filev s = res_bind (get_inode filev s) (\<lambda>i. kfree (i_private i) s)"

section \<open>What drawing leaves alone\<close>

definition drawn :: "'a screen_state_scheme \<Rightarrow> 'a screen_state_scheme \<Rightarrow> bool" where
  "drawn s s' \<longleftrightarrow> (\<exists>m x y. s' = s\<lparr>mem := m, ch_X := x, ch_Y := y\<rparr>)"

lemma drawn_trans: "drawn s s' \<Longrightarrow> drawn s' s'' \<Longrightarrow> drawn s s''"
  unfolding drawn_def by (elim exE) (simp, blast)

lemma drawn_refl: "drawn s s"
  unfolding drawn_def by (intro exI[of _ "mem s"] exI[of _ "ch_X s"] exI[of _ "ch_Y s"]) simp

lemma drawn_mem: "drawn s (s\<lparr>mem := m\<rparr>)"
  unfolding drawn_def by (intro exI[of _ m] exI[of _ "ch_X s"] exI[of _ "ch_Y s"]) simp

lemma drawn_cursor: "drawn s (s\<lparr>ch_X := x\<rparr>)" "drawn s (s\<lparr>ch_Y := y\<rparr>)"
  unfolding drawn_def
  by (intro exI[of _ "mem s"] exI[of _ x] exI[of _ "ch_Y s"], simp) (intro exI[of _ "mem s"] exI[of _ "ch_X s"] exI[of _ y], simp)

lemma drawn_fold: "(\<And>x s. drawn s (f x s)) \<Longrightarrow> drawn s (fold f xs s)"
  by (induction xs arbitrary: s) (auto intro: drawn_refl drawn_trans)

lemma drawn_ops:
  "drawn s (swap_framebuffers s)" "drawn s (draw_pixel x y c s)" "drawn s (draw_char ch x y s)" "drawn s (scroll_pixel p s)"
proof -
  show px: "drawn s (draw_pixel x y c s)" for x y c and s :: "'a screen_state_scheme" by (simp add: draw_pixel_def Let_def drawn_mem)
  show "drawn s (swap_framebuffers s)" by (simp add: swap_framebuffers_def drawn_mem)
  show "drawn s (draw_char ch x y s)" unfolding draw_char_def Let_def by (intro drawn_fold) (simp add: px)
  show "drawn s (scroll_pixel p s)" unfolding scroll_pixel_def by (intro drawn_fold) (simp add: scroll_cell_def px Let_def)
qed

lemma drawn_write_char: "drawn s (write_char ch s)"
proof -
  have sl: "drawn s (scroll_line s)" for s :: "'a screen_state_scheme"
    unfolding scroll_line_def Let_def by (blast intro: drawn_ops drawn_cursor drawn_trans)
  have nl: "drawn s (new_line s)" for s :: "'a screen_state_scheme"
  proof -
    have "drawn s (s\<lparr>ch_X := 5, ch_Y := y\<rparr>)" for y by (rule drawn_trans[OF drawn_cursor(1) drawn_cursor(2)])
    then show ?thesis unfolding new_line_def Let_def by (auto intro: drawn_trans[OF _ sl])
  qed
  have "drawn s ((draw_char ch x y s)\<lparr>ch_X := z\<rparr>)" for x y z by (rule drawn_trans[OF drawn_ops(3) drawn_cursor(1)])
  then show ?thesis unfolding write_char_def Let_def using nl drawn_trans[OF _ nl] by auto
qed

lemma drawn_draw_cursor: "drawn s (draw_cursor s)"
proof -
  obtain m x y where w: "write_char 32 (s\<lparr>bg_colour := 0xFFFFFF\<rparr>) = s\<lparr>bg_colour := 0xFFFFFF, mem := m, ch_X := x, ch_Y := y\<rparr>"
    using drawn_write_char[of "s\<lparr>bg_colour := 0xFFFFFF\<rparr>" 32] unfolding drawn_def by auto
  have "s\<lparr>bg_colour := 0xFFFFFF, mem := m, ch_X := x, ch_Y := y, bg_colour := bg_colour s, ch_X := x - 8\<rparr> = s\<lparr>mem := m, ch_X := x - 8, ch_Y := y\<rparr>"
    by simp
  then have "draw_cursor s = swap_framebuffers (s\<lparr>mem := m, ch_X := x - 8, ch_Y := y\<rparr>)"
    by (simp add: draw_cursor_def Let_def w) (rule arg_cong[where f = swap_framebuffers], simp)
  moreover have "drawn s (s\<lparr>mem := m, ch_X := x - 8, ch_Y := y\<rparr>)" unfolding drawn_def by blast
  ultimately show ?thesis by (simp only: drawn_trans[OF _ drawn_ops(1)])
qed

text \<open>Printing one character when the serial port's lock is free.\<close>

lemma printf_one:
  "printf ('' '' @ [NUL]) [] \<lparr>serial_out = [], screen_out = [], font_avaliable = f, serial_lock = False\<rparr> =
     Inr \<lparr>serial_out = '' '', screen_out = (if f then '' '' else []), font_avaliable = f, serial_lock = False\<rparr>"
  "printf (''%c'' @ [NUL]) [VInt n] \<lparr>serial_out = [], screen_out = [], font_avaliable = f, serial_lock = False\<rparr> =
     Inr \<lparr>serial_out = [char_of (unat n)], screen_out = (if f then [char_of (unat n)] else []), font_avaliable = f, serial_lock = False\<rparr>"
  by (simp_all add: printf_def aquire_serial_lock_def printf_template_def ku_strlen_def strlen_from.simps printf_loop.simps
      arr_get_def write_character_def put_text_def printf_directive_def va_int_def Let_def)

definition printed :: "'a vfs_state_scheme \<Rightarrow> 'a vfs_state_scheme \<Rightarrow> bool" where
  "printed s s' \<longleftrightarrow> (\<exists>m x y t. s' = s\<lparr>mem := m, ch_X := x, ch_Y := y, serial_text := t\<rparr>)"

lemma console_printed:
  assumes "\<not> serial_held s"
    and p: "printf fmt args \<lparr>serial_out = [], screen_out = [], font_avaliable = font_loaded s, serial_lock = False\<rparr> = Inr c" "\<not> serial_lock c"
  shows "\<exists>s'. console_printf fmt args s = Inr s' \<and> printed s s' \<and> serial_text s' = serial_text s @ map of_char (serial_out c)"
proof -
  let ?u = "serial_text s @ map of_char (serial_out c)"
  let ?t = "fold (\<lambda>ch. write_char (of_char ch)) (screen_out c) (s\<lparr>serial_text := ?u\<rparr>)"
  let ?v = "if font_loaded ?t then swap_framebuffers ?t else ?t"
  have "drawn (s\<lparr>serial_text := ?u\<rparr>) ?t" by (intro drawn_fold drawn_write_char)
  then have "drawn (s\<lparr>serial_text := ?u\<rparr>) ?v" using drawn_trans drawn_ops(1) by auto
  then obtain m x y where e: "?v = s\<lparr>serial_text := ?u, mem := m, ch_X := x, ch_Y := y\<rparr>" unfolding drawn_def by blast
  have s: "s\<lparr>serial_text := ?u, mem := m, ch_X := x, ch_Y := y, serial_held := False\<rparr> = s\<lparr>mem := m, ch_X := x, ch_Y := y, serial_text := ?u\<rparr>"
    by (rule vfs_state.equality) (simp_all add: assms(1))
  have "console_printf fmt args s = Inr (?v\<lparr>serial_held := False\<rparr>)" using assms by (simp add: console_printf_def Let_def)
  moreover have "printed s (?v\<lparr>serial_held := False\<rparr>)" "serial_text (?v\<lparr>serial_held := False\<rparr>) = ?u"
    unfolding e s printed_def by auto
  ultimately show ?thesis by blast
qed

lemma console_one:
  assumes "\<not> serial_held s"
  shows "\<exists>s'. console_printf ('' '' @ [NUL]) [] s = Inr s' \<and> printed s s'"
    "\<exists>s'. console_printf (''%c'' @ [NUL]) [VInt n] s = Inr s' \<and> printed s s'"
proof -
  show "\<exists>s'. console_printf ('' '' @ [NUL]) [] s = Inr s' \<and> printed s s'"
    using console_printed[OF assms printf_one(1)] by auto
  show "\<exists>s'. console_printf (''%c'' @ [NUL]) [VInt n] s = Inr s' \<and> printed s s'"
    using console_printed[OF assms printf_one(2)] by auto
qed

text \<open>A format with a meaning is printed, and its text is behind what the serial port was given before.\<close>

lemma console_renders:
  assumes "\<not> serial_held s" "render True fmt args = Some t" "NUL \<notin> set fmt"
  shows "\<exists>s'. console_printf (fmt @ [NUL]) args s = Inr s' \<and> printed s s' \<and> serial_text s' = serial_text s @ map of_char t"
proof -
  let ?c = "\<lparr>serial_out = [], screen_out = [], font_avaliable = font_loaded s, serial_lock = False\<rparr>"
  have "printf (fmt @ [NUL]) args ?c = Inr (put_text t ?c)" by (rule printf_prints[OF assms(2,3)]) simp
  from console_printed[OF assms(1) this] show ?thesis by (simp add: put_text_def)
qed

section \<open>The handler as an editing machine\<close>

text \<open>What one interrupt does to the line being read, text and screen apart.\<close>

definition kb_edit :: "u8 \<Rightarrow> KeyboardData \<Rightarrow> KeyboardData" where
  "kb_edit sc k =
     (if sc AND 0x80 \<noteq> 0 then (if sc = 0xAA \<or> sc = 0xB6 then k\<lparr>shifted := False\<rparr> else k)
      else if sc = 0x0E \<and> input_len k > 0 then k\<lparr>input_len := input_len k - 1\<rparr>
      else if sc = 0x3A then k\<lparr>caps := \<not> caps k\<rparr>
      else if sc = 0x2A \<or> sc = 0x36 then k\<lparr>shifted := True\<rparr>
      else if sc = 0x1C \<or> buffer_size k = input_len k then k\<lparr>currently_reading := False\<rparr>
      else k\<lparr>input_len := input_len k + 1\<rparr>)"

lemma scancode_small: "sc AND 0x80 = 0 \<Longrightarrow> unat (sc :: u8) < 128"
proof -
  assume a: "sc AND 0x80 = 0"
  have "\<not> bit sc 7"
  proof
    assume "bit sc 7"
    moreover have "bit (0x80 :: u8) 7" by code_simp
    ultimately have "bit (sc AND 0x80) 7" by (simp only: bit_and_iff)
    then show False by (simp only: a bit_0_eq bot_apply bot_bool_def)
  qed
  then have "bit sc n \<Longrightarrow> n < 7" for n using bit_imp_le_length[of sc n] by (cases "n = 7") auto
  then have "take_bit 7 sc = sc" by (intro bit_word_eqI) (auto simp: bit_take_bit_iff)
  then have "unat sc = unat (take_bit 7 sc)" by simp
  also have "\<dots> = unat sc mod 2 ^ 7" by (simp add: take_bit_eq_mod unat_mod)
  also have "\<dots> < 128" by simp
  finally show ?thesis .
qed

lemma key_char_total: "sc AND 0x80 = 0 \<Longrightarrow> \<exists>ch. key_char sc k = Inr ch"
  using scancode_small[of sc] by (auto simp: key_char_def arr_get_def character_table_def shifted_character_table_def)

lemma printed_kb: "printed s s' \<Longrightarrow> kbs s' = kbs s \<and> current_input_data s' = current_input_data s \<and>
    serial_held s' = serial_held s \<and> eois s' = eois s \<and> inodes s' = inodes (s :: 'a kb_state_scheme)"
  unfolding printed_def by auto

lemma drawn_kb: "drawn s s' \<Longrightarrow> kbs s' = kbs s \<and> current_input_data s' = current_input_data s \<and>
    serial_held s' = serial_held s \<and> eois s' = eois s \<and> inodes s' = inodes (s :: 'a kb_state_scheme)"
  unfolding drawn_def by auto

lemma keyboard_isr_idle:
  "current_input_data s = 0 \<or> \<not> currently_reading (kbs s (current_input_data s)) \<or> status AND 1 = 0 \<Longrightarrow> keyboard_isr status sc s = Inr s"
  by (auto simp: keyboard_isr_def Let_def)

lemma keyboard_isr_edits:
  fixes s :: "'a kb_state_scheme"
  assumes p: "p = current_input_data s" "p \<noteq> 0" and r: "currently_reading (kbs s p)" "status AND 1 \<noteq> 0" and l: "\<not> serial_held s"
  shows "\<exists>s'. keyboard_isr status sc s = Inr s' \<and> kbs s' = (kbs s)(p := kb_edit sc (kbs s p)) \<and>
     current_input_data s' = p \<and> \<not> serial_held s' \<and> eois s' = Suc (eois s) \<and> inodes s' = inodes s"
proof -
  note defs = keyboard_isr_def kb_edit_def upd_kb_def end_of_interrupt_def put_buffer_def Let_def
  consider "sc AND 0x80 \<noteq> 0 \<or> sc AND 0x80 = 0 \<and> \<not> (sc = 0x0E \<and> input_len (kbs s p) > 0) \<and> sc \<in> {0x3A, 0x2A, 0x36}"
    | (bs) "sc = 0x0E" "input_len (kbs s p) > 0"
    | (enter) "sc AND 0x80 = 0" "\<not> (sc = 0x0E \<and> input_len (kbs s p) > 0)" "sc \<notin> {0x3A, 0x2A, 0x36}"
        "sc = 0x1C \<or> buffer_size (kbs s p) = input_len (kbs s p)"
    | (char) "sc AND 0x80 = 0" "\<not> (sc = 0x0E \<and> input_len (kbs s p) > 0)" "sc \<notin> {0x3A, 0x2A, 0x36}"
        "sc \<noteq> 0x1C" "buffer_size (kbs s p) \<noteq> input_len (kbs s p)" by blast
  then show ?thesis
  proof cases
    case 1
    then show ?thesis using p r l by (auto simp: defs)
  next
    case bs
    obtain s1 where s1: "console_printf ('' '' @ [NUL]) [] s = Inr s1" "printed s s1" using console_one(1)[OF l] by blast
    note K1 = printed_kb[OF s1(2)]
    let ?s1 = "s1\<lparr>ch_X := ch_X s1 - 16\<rparr>"
    obtain s2 where s2: "console_printf ('' '' @ [NUL]) [] ?s1 = Inr s2" "printed ?s1 s2" using console_one(1)[of ?s1] K1 l by auto
    note K2 = printed_kb[OF s2(2)]
    note K3 = drawn_kb[OF drawn_draw_cursor, of "s2\<lparr>ch_X := ch_X s2 - 8\<rparr>"]
    show ?thesis using p r l bs s1(1) s2(1) K1 K2 K3 by (simp add: defs)
  next
    case enter
    let ?t = "upd_kb p (\<lambda>k. k\<lparr>currently_reading := False\<rparr>) (put_buffer p (input_len (kbs s p)) 0 s)"
    obtain s1 where s1: "console_printf ('' '' @ [NUL]) [] ?t = Inr s1" "printed ?t s1"
      using console_one(1)[of ?t] l by (auto simp: upd_kb_def put_buffer_def)
    note K1 = printed_kb[OF s1(2)]
    have "keyboard_isr status sc s = Inr (end_of_interrupt (s1\<lparr>ch_X := ch_X s1 - 8\<rparr>))"
      using p r l enter s1(1) by (simp add: keyboard_isr_def Let_def) auto
    moreover have "kb_edit sc (kbs s p) = (kbs s p)\<lparr>currently_reading := False\<rparr>" using enter by (auto simp: kb_edit_def)
    ultimately show ?thesis using K1 p l by (simp add: upd_kb_def end_of_interrupt_def put_buffer_def)
  next
    case char
    obtain ch where ch: "key_char sc (kbs s p) = Inr ch" using key_char_total[OF char(1)] by blast
    obtain s1 where s1: "console_printf (''%c'' @ [NUL]) [VInt (scast ch)] s = Inr s1" "printed s s1" using console_one(2)[OF l] by blast
    note K1 = printed_kb[OF s1(2)]
    let ?t = "upd_kb p (\<lambda>k. k\<lparr>input_len := input_len k + 1\<rparr>) (put_buffer p (input_len (kbs s1 p)) ch s1)"
    note K2 = drawn_kb[OF drawn_draw_cursor, of ?t]
    have "keyboard_isr status sc s = Inr (end_of_interrupt (draw_cursor ?t))"
      using p r l char ch s1(1) by (simp add: keyboard_isr_def Let_def) auto
    moreover have "kb_edit sc (kbs s p) = (kbs s p)\<lparr>input_len := input_len (kbs s p) + 1\<rparr>" using char by (auto simp: kb_edit_def)
    ultimately show ?thesis using K1 K2 p l by (simp add: upd_kb_def end_of_interrupt_def put_buffer_def)
  qed
qed

section \<open>Properties\<close>

text \<open>Keyboard interrupts one after the other.\<close>

inductive kb_irq :: "'a kb_state_scheme \<Rightarrow> 'a kb_state_scheme \<Rightarrow> bool" where
  irq: "keyboard_isr status scancode s = Inr s' \<Longrightarrow> kb_irq s s'"

inductive_cases kb_irqE: "kb_irq s s'"

text \<open>The line in the making fits the reader's buffer.\<close>

definition line_fits :: "u64 \<Rightarrow> u64 \<Rightarrow> 'a kb_state_scheme \<Rightarrow> bool" where
  "line_fits p max_len s \<longleftrightarrow> \<not> serial_held s \<and> current_input_data s = p \<and>
     unat (buffer_size (kbs s p)) + 1 = unat max_len \<and> input_len (kbs s p) \<le> buffer_size (kbs s p)"

lemma kb_edit_fits:
  assumes "input_len k \<le> buffer_size k"
  shows "input_len (kb_edit sc k) \<le> buffer_size (kb_edit sc k) \<and> buffer_size (kb_edit sc k) = buffer_size k"
proof -
  have "input_len k - 1 \<le> buffer_size k" if "0 < input_len k"
    using assms that by (simp add: word_le_nat_alt word_less_nat_alt unat_sub_if')
  moreover have "input_len k + 1 \<le> buffer_size k" if "buffer_size k \<noteq> input_len k"
    using assms that unat_u64_less[of "buffer_size k"]
    by (auto simp: word_le_nat_alt u64_eq_iff unat_add_u64)
  ultimately show ?thesis using assms by (auto simp: kb_edit_def)
qed

lemma line_fits_isr:
  fixes s :: "'a kb_state_scheme"
  assumes f: "line_fits p n s"
  shows "\<exists>s'. keyboard_isr status sc s = Inr s' \<and> line_fits p n s'"
proof (cases "p = 0 \<or> \<not> currently_reading (kbs s p) \<or> status AND 1 = 0")
  case True
  then show ?thesis using f keyboard_isr_idle[of s status sc] by (auto simp: line_fits_def)
next
  case False
  then obtain s' where s': "keyboard_isr status sc s = Inr s'" "kbs s' = (kbs s)(p := kb_edit sc (kbs s p))"
    "current_input_data s' = p" "\<not> serial_held s'"
    using keyboard_isr_edits[of p s status sc] f by (auto simp: line_fits_def)
  then show ?thesis using f kb_edit_fits[of "kbs s p" sc] by (auto simp: line_fits_def)
qed


definition sample_kb :: "vfs_state \<Rightarrow> kb_state" where
  "sample_kb v = vfs_state.extend v
     \<lparr>kbs = (\<lambda>_. \<lparr>input_len = 0, currently_reading = True, shifted = False, caps = False, current_buffer = 0x400000, buffer_size = 9\<rparr>),
      current_input_data = 0x5000, eois = 0\<rparr>"

definition sample_line :: kb_state where
  "sample_line = sample_kb (sample_vfs (sample_tasks sample_boot))"

lemma sample_line_fits: "line_fits 0x5000 10 sample_line" "kbs sample_line 0x5000 = \<lparr>input_len = 0, currently_reading = True,
    shifted = False, caps = False, current_buffer = 0x400000, buffer_size = 9\<rparr>" "current_input_data sample_line = 0x5000"
    "\<not> serial_held sample_line"
  by (simp_all add: line_fits_def sample_line_def sample_kb_def sample_vfs_def vfs_state.defs fs_state.defs)


definition key_char_spec :: "u8 \<Rightarrow> bool \<Rightarrow> bool \<Rightarrow> u8" where
  "key_char_spec sc shift capslock =
     (let c = character_table ! unat sc in
      if 97 \<le> c \<and> c \<le> 122 then (if shift \<noteq> capslock then c - 32 else c)
      else if shift then shifted_character_table ! unat sc else c)"

lemma tables_agree:
  "i < 128 \<Longrightarrow> 97 \<le> character_table ! i \<and> character_table ! i \<le> 122 \<Longrightarrow> shifted_character_table ! i = character_table ! i - 32"
proof -
  have "list_all (\<lambda>(a, b). 97 \<le> a \<and> a \<le> 122 \<longrightarrow> b = a - 32) (zip character_table shifted_character_table)" by code_simp
  moreover have "length character_table = 140" "length shifted_character_table = 140" by code_simp+
  moreover assume "i < 128" "97 \<le> character_table ! i \<and> character_table ! i \<le> 122"
  ultimately show ?thesis by (auto simp: list_all_length)
qed

text \<open>C40. Shift and caps lock: a letter key gives the capital exactly when one of the two is on and the other is
  off, the other keys only follow shift.\<close>

theorem key_char_shift_caps:
  assumes "sc AND 0x80 = 0"
  shows "key_char sc k = Inr (key_char_spec sc (shifted k) (caps k))"
proof -
  have i: "unat sc < 128" by (rule scancode_small[OF assms])
  moreover have "length character_table = 140" "length shifted_character_table = 140" by code_simp+
  ultimately show ?thesis
    using tables_agree[OF i] by (auto simp: key_char_def arr_get_def key_char_spec_def Let_def)
qed

theorem key_char_shift_caps_witness:
  "key_char 0x1E \<lparr>input_len = 0, currently_reading = True, shifted = True, caps = False, current_buffer = 0, buffer_size = 0\<rparr> = Inr 65"
proof -
  have "(0x1E :: u8) AND 0x80 = 0" by code_simp
  from key_char_shift_caps[OF this, of "\<lparr>input_len = 0, currently_reading = True, shifted = True, caps = False, current_buffer = 0, buffer_size = 0\<rparr>"]
  show ?thesis by (simp add: key_char_spec_def character_table_def Let_def)
qed

text \<open>What the handler does not handle: an interrupt that arrives while nobody reads is not acknowledged,
  so the interrupt controller delivers no further one; a backspace on an empty line puts a null
  character into the line instead of doing nothing.\<close>

theorem keyboard_isr_unhandled:
  "(current_input_data s = 0 \<or> \<not> currently_reading (kbs s (current_input_data s)) \<longrightarrow>
      (\<exists>s'. keyboard_isr status sc s = Inr s' \<and> eois s' = eois s)) \<and>
   (current_input_data s = p \<and> p \<noteq> 0 \<and> currently_reading (kbs s p) \<and> status AND 1 \<noteq> 0 \<and> \<not> serial_held s \<and>
    input_len (kbs s p) = 0 \<and> 0 < buffer_size (kbs s p) \<longrightarrow>
      (\<exists>s'. keyboard_isr status 0x0E s = Inr s' \<and> input_len (kbs s' p) = 1 \<and> key_char 0x0E (kbs s p) = Inr 0))"
proof (intro conjI impI)
  show "\<exists>s'. keyboard_isr status sc s = Inr s' \<and> eois s' = eois s"
    if "current_input_data s = 0 \<or> \<not> currently_reading (kbs s (current_input_data s))"
    using keyboard_isr_idle[of s status sc] that by auto
  show "\<exists>s'. keyboard_isr status 0x0E s = Inr s' \<and> input_len (kbs s' p) = 1 \<and> key_char 0x0E (kbs s p) = Inr 0"
    if a: "current_input_data s = p \<and> p \<noteq> 0 \<and> currently_reading (kbs s p) \<and> status AND 1 \<noteq> 0 \<and> \<not> serial_held s \<and>
    input_len (kbs s p) = 0 \<and> 0 < buffer_size (kbs s p)"
  proof -
    have "(0x0E :: u8) AND 0x80 = 0" by code_simp
    then have "input_len (kb_edit 0x0E (kbs s p)) = 1" using a by (auto simp: kb_edit_def)
    moreover have "key_char 0x0E (kbs s p) = Inr 0" by (simp add: key_char_def arr_get_def character_table_def shifted_character_table_def)
    ultimately show ?thesis using keyboard_isr_edits[of p s status "0x0E"] a by auto
  qed
qed

theorem keyboard_isr_unhandled_witness:
  "\<exists>s'. keyboard_isr 1 0x0E sample_line = Inr s' \<and> input_len (kbs s' 0x5000) = 1"
  using keyboard_isr_unhandled[of sample_line 1 0 "0x5000"] sample_line_fits by auto

end
