(* ===== verification/Loader.thy ===== *)
theory Loader
  imports Keyboard Paging Cells
begin

text \<open>
  Programs (\<open>src/src/fs/ustar.c\<close>, \<open>src/src/tasks/spawn.c\<close>, \<open>map_apic_into_task\<close> of
  \<open>src/src/drivers/apic.c\<close>): the initial ramdisk is unpacked onto a temporary file system, and
  \<open>spawn\<close> loads an ELF file from it, builds its address space, lays out its arguments and makes the task.

  The archive, the ELF file and the argument strings are bytes in memory; the headers are read from them
  field by field. Status messages are not modelled.
\<close>

section \<open>State\<close>

record sys_state = kb_state +
  initial_ramdisk :: u64
  lapic_addr :: u64
  ioapic_addr :: u64

text \<open>Characters and strings that lie in memory; the null pointer has none.\<close>

definition mem_chars :: "memory \<Rightarrow> u64 \<Rightarrow> nat \<Rightarrow> string" where
  "mem_chars m a n = map (\<lambda>k. char_of (unat (m (a + of_nat k)))) [0..<n]"

definition c_string :: "u64 \<Rightarrow> 'a pmm_state_scheme \<Rightarrow> string result" where
  "c_string a s = (if a = 0 then Inl NullDeref else mem_string walk_fuel (mem s) a)"

section \<open>The initial ramdisk\<close>

text \<open>\<open>new_name[ku_strlen(archive_addr) + 4] = 0\<close> writes the byte behind the block.\<close>

definition ustar_name :: "char \<Rightarrow> u64 \<Rightarrow> 'a kheap_state_scheme \<Rightarrow> (u64 \<times> 'a kheap_state_scheme) result" where
  "ustar_name drive archive_addr s =
     res_bind (c_string archive_addr s) (\<lambda>name.
     let len = of_nat (length name) + 4 in
     res_bind (malloc len s) (\<lambda>(new_name, s).
     let m = ku_memset new_name 0 len (mem s);
         m = m(new_name := of_char drive);
         m = m(new_name + 1 := of_char CHR '':'');
         m = m(new_name + 2 := of_char CHR ''/'');
         m = ku_memcpy (new_name + 3) archive_addr (of_nat (length name)) m;
         m = m(new_name + of_nat (length name) + 4 := 0)
     in Inr (new_name, s\<lparr>mem := m\<rparr>)))"

definition unpack_file ::
  "'a vfs_state_scheme device_calls \<Rightarrow> char \<Rightarrow> u64 \<Rightarrow> u64 \<Rightarrow> 'a vfs_state_scheme \<Rightarrow> 'a vfs_state_scheme result" where
  "unpack_file D drive archive_addr filesize s =
     res_bind (ustar_name drive archive_addr s) (\<lambda>(new_name, s).
     res_bind (c_string new_name s) (\<lambda>path.
     res_bind (vfs_open D path O_CREATALL MODE_WRITEONLY s) (\<lambda>(f, s).
     if f = 0 then Inl Halted
     else
       res_bind (vfs_write D f (archive_addr + 512) filesize s) (\<lambda>(write_status, s).
       if write_status \<noteq> 0 then Inl Halted
       else
         res_bind (vfs_close D f s) (\<lambda>s. kfree new_name s)))))"

fun unpack_ustar ::
  "nat \<Rightarrow> 'a vfs_state_scheme device_calls \<Rightarrow> char \<Rightarrow> u64 \<Rightarrow> 'a vfs_state_scheme \<Rightarrow> 'a vfs_state_scheme result" where
  "unpack_ustar fuel D drive archive_addr s =
     (if fuel = 0 then Inl Diverged
      else if mem_chars (mem s) (archive_addr + 257) 5 \<noteq> ''ustar'' then Inr s
      else
        res_bind (oct2bin (mem_chars (mem s) (archive_addr + 0x7C) 11) 11) (\<lambda>n.
        let filesize = word_of_int n in
        res_bind
          (if mem s (archive_addr + 156) \<noteq> of_char CHR ''5'' then unpack_file D drive archive_addr filesize s
           else Inr s)
          (unpack_ustar (fuel - 1) D drive (archive_addr + ((filesize + 511) div 512 + 1) * 512))))"

declare unpack_ustar.simps [simp del]

definition setup_initrd :: "'a sys_state_scheme device_calls \<Rightarrow> 'a sys_state_scheme \<Rightarrow> 'a sys_state_scheme result" where
  "setup_initrd D s =
     res_bind (tempfs_new s) (\<lambda>(new_tempfs, s).
     res_bind (mount CHR ''R'' (ucast FS_TEMPFS) True new_tempfs 0 0 s) (\<lambda>(_, s).
       unpack_ustar walk_fuel D CHR ''R'' (initial_ramdisk s) s))"

section \<open>ELF files\<close>

record elf_file_header =
  elf_id :: "u8 list"
  elf_type :: u16
  machine_type :: u16
  elf_version :: u32
  elf_entry :: u64
  program_header_offset :: u64
  section_header_offset :: u64
  elf_flags :: u32
  header_size :: u16
  program_header_entry_size :: u16
  program_header_entry_count :: u16
  section_header_entry_size :: u16
  section_header_entry_count :: u16
  section_name_string_table_index :: u16

record elf_program_header =
  ph_type :: u32
  ph_flags :: u32
  ph_offset :: u64
  virtual_address :: u64
  ph_rsvd :: u64
  size_in_file :: u64
  size_in_memory :: u64
  ph_align :: u64

text \<open>The structures as they lie in memory, without padding.\<close>

definition file_header :: "memory \<Rightarrow> u64 \<Rightarrow> elf_file_header" where
  "file_header m a = \<lparr>elf_id = map (\<lambda>k. m (a + of_nat k)) [0..<16], elf_type = load 2 m (a + 16),
     machine_type = load 2 m (a + 18), elf_version = load 4 m (a + 20), elf_entry = rd64 m (a + 24),
     program_header_offset = rd64 m (a + 32), section_header_offset = rd64 m (a + 40), elf_flags = load 4 m (a + 48),
     header_size = load 2 m (a + 52), program_header_entry_size = load 2 m (a + 54),
     program_header_entry_count = load 2 m (a + 56), section_header_entry_size = load 2 m (a + 58),
     section_header_entry_count = load 2 m (a + 60), section_name_string_table_index = load 2 m (a + 62)\<rparr>"

definition program_header :: "memory \<Rightarrow> u64 \<Rightarrow> nat \<Rightarrow> elf_program_header" where
  "program_header m table i =
     (let a = table + of_nat i * 56 in
      \<lparr>ph_type = load 4 m a, ph_flags = load 4 m (a + 4), ph_offset = rd64 m (a + 8), virtual_address = rd64 m (a + 16),
       ph_rsvd = rd64 m (a + 24), size_in_file = rd64 m (a + 32), size_in_memory = rd64 m (a + 40),
       ph_align = rd64 m (a + 48)\<rparr>)"

definition validate_elf :: "elf_file_header \<Rightarrow> bool" where
  "validate_elf h \<longleftrightarrow>
     (if take 4 (elf_id h) \<noteq> [0x7F, 0x45, 0x4C, 0x46] then False
      else if elf_id h ! 5 \<noteq> 1 then False
      else if elf_id h ! 4 \<noteq> 2 then False
      else if machine_type h \<noteq> 0x3E then False
      else True)"

text \<open>The loops over the program header table; \<open>entries i\<close> is the header with index \<open>i\<close>.\<close>

definition first_step ::
  "(nat \<Rightarrow> elf_program_header) \<Rightarrow> nat \<Rightarrow> nat \<times> u64 \<times> bool \<Rightarrow> nat \<times> u64 \<times> bool" where
  "first_step entries i = (\<lambda>(smallest_index, smallest_addr, is_first_loadable).
     if ph_type (entries i) = 1 \<and> (virtual_address (entries i) < smallest_addr \<or> is_first_loadable)
     then (i, virtual_address (entries i), False)
     else (smallest_index, smallest_addr, is_first_loadable))"

definition first_loadable_segment :: "(nat \<Rightarrow> elf_program_header) \<Rightarrow> nat \<Rightarrow> nat" where
  "first_loadable_segment entries num = fst (fold (first_step entries) [0..<num] (0, 0, True))"

definition last_step :: "(nat \<Rightarrow> elf_program_header) \<Rightarrow> nat \<Rightarrow> nat \<times> u64 \<Rightarrow> nat \<times> u64" where
  "last_step entries i = (\<lambda>(largest_index, largest_addr).
     if ph_type (entries i) = 1 \<and> virtual_address (entries i) > largest_addr
     then (i, virtual_address (entries i)) else (largest_index, largest_addr))"

definition last_loadable_segment :: "(nat \<Rightarrow> elf_program_header) \<Rightarrow> nat \<Rightarrow> nat" where
  "last_loadable_segment entries num = fst (fold (last_step entries) [0..<num] (0, 0))"

section \<open>Spawning\<close>

definition ARGV_DATA_ADDR :: u64 where "ARGV_DATA_ADDR = 0x700000001000"
definition USER_STACK_PTR :: u64 where "USER_STACK_PTR = 0x700000000000"
definition USER_STACK_ADDR :: u64 where "USER_STACK_ADDR = USER_STACK_PTR - 2 * 4096"

text \<open>The loop that copies the segments: \<open>table\<close> is the program header table, \<open>block\<close> the first byte of the
  image and \<open>base\<close> the address of the first segment.\<close>

definition load_step :: "u64 \<Rightarrow> u64 \<Rightarrow> u64 \<Rightarrow> u64 \<Rightarrow> nat \<Rightarrow> memory \<Rightarrow> memory" where
  "load_step table buffer block base i m =
     (let h = program_header m table i in
      if ph_type h = 1
      then ku_memcpy (block + (virtual_address h - base)) (ph_offset h + buffer) (size_in_file h) m
      else m)"

definition load_segments :: "u64 \<Rightarrow> u64 \<Rightarrow> u64 \<Rightarrow> u64 \<Rightarrow> nat \<Rightarrow> memory \<Rightarrow> memory" where
  "load_segments table buffer block base n m = fold (load_step table buffer block base) [0..<n] m"

definition pages_to_map :: "elf_program_header \<Rightarrow> elf_program_header \<Rightarrow> u64" where
  "pages_to_map first_segment last_segment =
     PAGE_ALIGN_UP (virtual_address last_segment + size_in_memory last_segment - virtual_address first_segment) div 4096"

text \<open>The two loops over the arguments, the indices as a list: the strings one behind the other, then the
  table of pointers to them. \<open>args\<close> is the caller's array of pointers.\<close>

definition arg_at :: "u64 \<Rightarrow> nat \<Rightarrow> 'a pmm_state_scheme \<Rightarrow> (u64 \<times> string) result" where
  "arg_at args i s =
     (let p = rd64 (mem s) (args + of_nat i * 8) in res_bind (c_string p s) (\<lambda>str. Inr (p, str)))"

primrec copy_args ::
  "nat list \<Rightarrow> u64 \<Rightarrow> u64 \<Rightarrow> u64 \<Rightarrow> 'a pmm_state_scheme \<Rightarrow> (u64 \<times> 'a pmm_state_scheme) result" where
  "copy_args [] args arg_page arg_size s = Inr (arg_size, s)"
| "copy_args (i # is) args arg_page arg_size s =
     res_bind (arg_at args i s) (\<lambda>(p, str).
     let this_arg_len = of_nat (length str) + 1;
         s = s\<lparr>mem := ku_memcpy (arg_page + arg_size) p this_arg_len (mem s)\<rparr>
     in copy_args is args arg_page (arg_size + this_arg_len) s)"

primrec point_args ::
  "nat list \<Rightarrow> u64 \<Rightarrow> u64 \<Rightarrow> u64 \<Rightarrow> u64 \<Rightarrow> 'a pmm_state_scheme \<Rightarrow> 'a pmm_state_scheme result" where
  "point_args [] args arg_page arg_size hitherto s = Inr s"
| "point_args (i # is) args arg_page arg_size hitherto s =
     (let s = s\<lparr>mem := wr64 (mem s) (arg_page + arg_size + of_nat i * 8) (arg_page + hitherto)\<rparr> in
      res_bind (arg_at args i s) (\<lambda>(p, str).
        point_args is args arg_page arg_size (hitherto + (of_nat (length str) + 1)) s))"

definition pass_args ::
  "u64 \<Rightarrow> u64 \<Rightarrow> u64 \<Rightarrow> 'a pmm_state_scheme \<Rightarrow> (u64 \<times> 'a pmm_state_scheme) result" where
  "pass_args args nargs arg_page s =
     res_bind (copy_args [0..<unat nargs] args arg_page 0 s) (\<lambda>(arg_size, s).
     res_bind (point_args [0..<unat nargs] args arg_page arg_size 0 s) (\<lambda>s. Inr (arg_size, s)))"

definition map_apic_into_task :: "u64 \<Rightarrow> 'a sys_state_scheme \<Rightarrow> 'a sys_state_scheme result" where
  "map_apic_into_task task_cr3_phys s =
     res_bind (map_pages (task_cr3_phys + hhdm s) (ioapic_addr s + hhdm s) (ioapic_addr s) 1
                 (KERNEL_PFLAG_PRESENT OR KERNEL_PFLAG_WRITE) s) (\<lambda>s.
     map_pages (task_cr3_phys + hhdm s) (lapic_addr s) (lapic_addr s - hhdm s) 1
                 (KERNEL_PFLAG_PRESENT OR KERNEL_PFLAG_WRITE) s)"

text \<open>The part of \<open>spawn\<close> that reads the file into a buffer: \<open>Inl\<close> holds the status it returns early.\<close>

definition read_program ::
  "'a vfs_state_scheme device_calls \<Rightarrow> string \<Rightarrow> 'a vfs_state_scheme \<Rightarrow> ((u32 + u64) \<times> 'a vfs_state_scheme) result" where
  "read_program D path s =
     res_bind (vfs_open D path 0 MODE_READONLY s) (\<lambda>(f, s).
     if f = 0 then Inr (Inl 2, s)
     else
       res_bind (file_length f s) (\<lambda>flength.
       res_bind (malloc flength s) (\<lambda>(buffer, s).
       res_bind (vfs_read D f buffer flength s) (\<lambda>(status, s).
       res_bind (vfs_close D f s) (\<lambda>s.
         Inr (if status \<noteq> 0 then Inl 1 else Inr buffer, s))))))"

text \<open>The image and the address space of the new task: the address of its page tree.\<close>

definition build_image ::
  "kernel_layout \<Rightarrow> u64 \<Rightarrow> u64 \<Rightarrow> nat \<Rightarrow> elf_program_header \<Rightarrow> elf_program_header \<Rightarrow> 'a pmm_state_scheme \<Rightarrow>
     (u64 \<times> 'a pmm_state_scheme) result" where
  "build_image L buffer program_headers n first_segment last_segment s =
     (let pages = pages_to_map first_segment last_segment in
      res_bind (kmalloc pages s) (\<lambda>(copyto_pages, s).
      let s = s\<lparr>mem := load_segments program_headers buffer (copyto_pages + hhdm s) (virtual_address first_segment) n (mem s)\<rparr> in
      res_bind (init_paging_task L s) (\<lambda>(new_pml4, s).
      res_bind (map_pages new_pml4 (virtual_address first_segment) copyto_pages pages
                  (KERNEL_PFLAG_PRESENT OR KERNEL_PFLAG_WRITE OR KERNEL_PFLAG_USER) s) (\<lambda>s.
      res_bind (alloc_pages new_pml4 USER_STACK_ADDR KERNEL_STACK_PAGES
                  (KERNEL_PFLAG_PRESENT OR KERNEL_PFLAG_USER OR KERNEL_PFLAG_WRITE) s) (\<lambda>s. Inr (new_pml4, s))))))"

text \<open>The page of the arguments: one page is allocated and two are mapped.\<close>

definition build_args ::
  "u64 \<Rightarrow> u64 \<Rightarrow> u64 \<Rightarrow> 'a pmm_state_scheme \<Rightarrow> (u64 \<times> 'a pmm_state_scheme) result" where
  "build_args new_pml4 args nargs s =
     res_bind (kmalloc 1 s) (\<lambda>(a, s).
     let arg_page = a + hhdm s in
     res_bind (map_pages new_pml4 ARGV_DATA_ADDR (arg_page - hhdm s) 2
                 (KERNEL_PFLAG_PRESENT OR KERNEL_PFLAG_USER OR KERNEL_PFLAG_WRITE) s) (\<lambda>s.
       pass_args args nargs arg_page s))"

definition upd_Task :: "u64 \<Rightarrow> (Task \<Rightarrow> Task) \<Rightarrow> 'a tasks_state_scheme \<Rightarrow> 'a tasks_state_scheme" where
  "upd_Task p f s = set_Task p (f (tasks s p)) s"

definition open_resource ::
  "'a vfs_state_scheme device_calls \<Rightarrow> u64 \<Rightarrow> nat \<Rightarrow> string \<Rightarrow> u32 \<Rightarrow> u8 \<Rightarrow> 'a vfs_state_scheme \<Rightarrow> 'a vfs_state_scheme result" where
  "open_resource D new_task i path flags mode s =
     res_bind (vfs_open D path flags mode s) (\<lambda>(f, s).
       Inr (upd_Task new_task (\<lambda>t. t\<lparr>resources := (resources t)[i := f]\<rparr>) s))"

definition spawn ::
  "kernel_layout \<Rightarrow> 'a sys_state_scheme device_calls \<Rightarrow> string \<Rightarrow> u64 \<Rightarrow> u64 \<Rightarrow> 'a sys_state_scheme \<Rightarrow>
     (u32 \<times> 'a sys_state_scheme) result" where
  "spawn L D path args nargs s =
     res_bind (read_program D path s) (\<lambda>(r, s). case r of Inl status \<Rightarrow> Inr (status, s) | Inr buffer \<Rightarrow>
     let h = file_header (mem s) buffer;
         program_headers = buffer + program_header_offset h;
         n = unat (program_header_entry_count h);
         entries = program_header (mem s) program_headers in
     if \<not> validate_elf h then Inr (1, s)
     else
       (let first_segment = entries (first_loadable_segment entries n);
            last_segment = entries (last_loadable_segment entries n) in
        res_bind (build_image L buffer program_headers n first_segment last_segment s) (\<lambda>(new_pml4, s).
        let new_pml4_phys = new_pml4 - hhdm s in
        res_bind (build_args new_pml4 args nargs s) (\<lambda>(arg_size, s).
        res_bind (map_apic_into_task new_pml4_phys s) (\<lambda>s.
        res_bind (create_task new_pml4_phys (elf_entry (file_header (mem s) buffer)) USER_STACK_PTR
                    (TASK_PRESENT OR TASK_FIRST_EXEC) s) (\<lambda>(new_task, s).
        let s = upd_Task new_task (\<lambda>t. t\<lparr>mmap_upto := PAGE_ALIGN_UP (virtual_address last_segment + size_in_memory last_segment)\<rparr>) s;
            s = upd_Task new_task (\<lambda>t. t\<lparr>errno := USER_STACK_PTR - 8\<rparr>) s;
            s = upd_Task new_task (\<lambda>t. t\<lparr>argc := nargs\<rparr>) s;
            s = upd_Task new_task (\<lambda>t. t\<lparr>argv := ARGV_DATA_ADDR + arg_size\<rparr>) s in
        res_bind (new_event_queue s) (\<lambda>(q, s).
        let s = upd_Task new_task (\<lambda>t. t\<lparr>event_queue := q\<rparr>) s in
        res_bind (get_current_task s) (\<lambda>(cur, s).
        let s = upd_Task new_task (\<lambda>t. t\<lparr>parent := cur\<rparr>) s in
        res_bind (kfree buffer s) (\<lambda>s.
        res_bind (open_resource D new_task 0 ''D:/stdin'' 0 MODE_READONLY s) (\<lambda>s.
        res_bind (open_resource D new_task 1 ''D:/stdout'' O_CREATALL MODE_READWRITE s) (\<lambda>s.
        res_bind (open_resource D new_task 2 ''D:/stderr'' O_CREATALL MODE_READWRITE s) (\<lambda>s.
          Inr (0, s)))))))))))))"

section \<open>The first and the last segment\<close>

definition loadable :: "(nat \<Rightarrow> elf_program_header) \<Rightarrow> nat \<Rightarrow> nat \<Rightarrow> bool" where
  "loadable entries n i \<longleftrightarrow> i < n \<and> ph_type (entries i) = 1"

lemma first_fold:
  "case fold (first_step entries) [0..<n] (0, 0, True) of (j, a, none) \<Rightarrow>
     if none then (\<forall>i. \<not> loadable entries n i) \<and> j = 0
     else loadable entries n j \<and> a = virtual_address (entries j) \<and>
       (\<forall>i. loadable entries n i \<longrightarrow> virtual_address (entries j) \<le> virtual_address (entries i))"
proof (induction n)
  case (Suc n)
  obtain j a none where r: "fold (first_step entries) [0..<n] (0, 0, True) = (j, a, none)" by (rule prod_cases3)
  have l: "loadable entries (Suc n) i \<longleftrightarrow> loadable entries n i \<or> i = n \<and> ph_type (entries n) = 1" for i
    by (auto simp: loadable_def less_Suc_eq)
  show ?case using Suc.IH by (auto simp: r first_step_def l split: if_splits)
qed (simp add: loadable_def)

lemma last_fold:
  "case fold (last_step entries) [0..<n] (0, 0) of (j, a) \<Rightarrow>
     if a = 0 then (\<forall>i. loadable entries n i \<longrightarrow> virtual_address (entries i) = 0) \<and> j = 0
     else loadable entries n j \<and> a = virtual_address (entries j) \<and>
       (\<forall>i. loadable entries n i \<longrightarrow> virtual_address (entries i) \<le> virtual_address (entries j))"
proof (induction n)
  case (Suc n)
  obtain j a where r: "fold (last_step entries) [0..<n] (0, 0) = (j, a)" by (rule prod.exhaust)
  have l: "loadable entries (Suc n) i \<longleftrightarrow> loadable entries n i \<or> i = n \<and> ph_type (entries n) = 1" for i
    by (auto simp: loadable_def less_Suc_eq)
  show ?case using Suc.IH by (auto simp: r last_step_def l not_less word_gt_0 split: if_splits)
qed (simp add: loadable_def)

lemma first_loadable_segment_least:
  assumes "loadable entries n i"
  shows "loadable entries n (first_loadable_segment entries n)"
    and "virtual_address (entries (first_loadable_segment entries n)) \<le> virtual_address (entries i)"
  using first_fold[of entries n] assms by (auto simp: first_loadable_segment_def split: prod.splits if_splits)

lemma last_loadable_segment_greatest:
  assumes "loadable entries n i" "virtual_address (entries i) \<noteq> 0"
  shows "loadable entries n (last_loadable_segment entries n)"
    and "\<And>j. loadable entries n j \<Longrightarrow> virtual_address (entries j) \<le> virtual_address (entries (last_loadable_segment entries n))"
  using last_fold[of entries n] assms by (auto simp: last_loadable_segment_def split: prod.splits if_splits)

lemma last_loadable_segment_zero:
  assumes "\<And>i. loadable entries n i \<Longrightarrow> virtual_address (entries i) = 0"
  shows "last_loadable_segment entries n = 0"
  using last_fold[of entries n] assms by (force simp: last_loadable_segment_def split: prod.splits if_splits)

section \<open>The image\<close>

text \<open>A copy into a block from outside of it.\<close>

lemma memcpy_into_block:
  fixes block src n :: u64
  assumes d: "d + unat n \<le> P" "P \<le> 2 ^ 64"
    and src: "\<And>k. k < unat n \<Longrightarrow> P \<le> unat (src + of_nat k - block)"
  shows "ku_memcpy (block + of_nat d) src n m =
    (\<lambda>x. if d \<le> unat (x - block) \<and> unat (x - block) < d + unat n
         then m (src + of_nat (unat (x - block) - d)) else m x)"
proof
  fix x
  have dest: "unat (block + of_nat d + of_nat j - block) = d + j" if "j < unat n" for j
  proof -
    have "block + of_nat d + of_nat j - block = of_nat (d + j)" by simp
    moreover have "d + j < 2 ^ 64" using d that by linarith
    ultimately show ?thesis by (simp only: unat_of_nat_u64)
  qed
  show "ku_memcpy (block + of_nat d) src n m x =
    (if d \<le> unat (x - block) \<and> unat (x - block) < d + unat n
     then m (src + of_nat (unat (x - block) - d)) else m x)"
  proof (cases "d \<le> unat (x - block) \<and> unat (x - block) < d + unat n")
    case True
    define j where "j = unat (x - block) - d"
    have j: "j < unat n" using True by (auto simp: j_def)
    have "unat (x - block) = d + j" using True by (simp add: j_def)
    then have "unat (x - block) = unat (of_nat (d + j) :: u64)" using unat_u64_less[of "x - block"] by (simp only: unat_of_nat_u64)
    then have "x - block = of_nat (d + j)" by (rule iffD2[OF u64_eq_iff])
    then have "x = block + of_nat (d + j)" by (simp add: diff_eq_eq add.commute)
    then have x: "x = block + of_nat d + of_nat j" by (simp add: add.assoc)
    have "movsb (unat n) (block + of_nat d) src m (block + of_nat d + of_nat j) = m (src + of_nat j)"
    proof (rule movsb_inside[OF j])
      show "unat n \<le> 2 ^ 64" using unat_u64_less[of n] by simp
      fix i k assume "i < unat n" "k < unat n"
      then have "unat (block + of_nat d + of_nat i - block) < unat (src + of_nat k - block)"
        using dest[of i] src[of k] d by linarith
      then show "block + of_nat d + of_nat i \<noteq> src + of_nat k" by (rule contrapos_pn) (simp only:)
    qed
    then show ?thesis unfolding ku_memcpy_def x[symmetric] by (simp only: True j_def if_True simp_thms)
  next
    case False
    then have "x \<noteq> block + of_nat d + of_nat i" if "i < unat n" for i using dest[OF that] that by auto
    then have "movsb (unat n) (block + of_nat d) src m x = m x" by (rule movsb_outside)
    then show ?thesis unfolding ku_memcpy_def using False by (simp only: if_False)
  qed
qed

text \<open>What a linker promises of the segments: they lie apart, hold at least the bytes of the file and end below
  the upper half of the address space; not all of them start at address 0.\<close>

definition seg_end :: "elf_program_header \<Rightarrow> nat" where
  "seg_end h = unat (virtual_address h) + unat (size_in_memory h)"

definition image_ok :: "(nat \<Rightarrow> elf_program_header) \<Rightarrow> nat \<Rightarrow> bool" where
  "image_ok entries n \<longleftrightarrow> n < 65536 \<and>
     (\<forall>i. loadable entries n i \<longrightarrow> 0 < size_in_memory (entries i) \<and> size_in_file (entries i) \<le> size_in_memory (entries i) \<and>
        seg_end (entries i) < 2 ^ 63) \<and>
     (\<forall>i j. loadable entries n i \<longrightarrow> loadable entries n j \<longrightarrow> i \<noteq> j \<longrightarrow>
        seg_end (entries i) \<le> unat (virtual_address (entries j)) \<or> seg_end (entries j) \<le> unat (virtual_address (entries i))) \<and>
     (\<exists>i. loadable entries n i \<and> virtual_address (entries i) \<noteq> 0)"

abbreviation first_segment_of :: "(nat \<Rightarrow> elf_program_header) \<Rightarrow> nat \<Rightarrow> elf_program_header" where
  "first_segment_of entries n \<equiv> entries (first_loadable_segment entries n)"

abbreviation last_segment_of :: "(nat \<Rightarrow> elf_program_header) \<Rightarrow> nat \<Rightarrow> elf_program_header" where
  "last_segment_of entries n \<equiv> entries (last_loadable_segment entries n)"

definition image_bytes :: "(nat \<Rightarrow> elf_program_header) \<Rightarrow> nat \<Rightarrow> u64" where
  "image_bytes entries n = pages_to_map (first_segment_of entries n) (last_segment_of entries n) * 4096"

text \<open>Every segment lies between the first and the end of the block.\<close>

lemma segment_in_image:
  assumes ok: "image_ok entries n" and i: "loadable entries n i"
  shows "virtual_address (first_segment_of entries n) \<le> virtual_address (entries i)"
    and "seg_end (entries i) \<le> unat (virtual_address (first_segment_of entries n)) + unat (image_bytes entries n)"
proof -
  let ?f = "first_segment_of entries n" and ?l = "last_segment_of entries n" and ?k = "last_loadable_segment entries n"
  obtain j where j: "loadable entries n j" "virtual_address (entries j) \<noteq> 0" using ok by (auto simp: image_ok_def)
  note last = last_loadable_segment_greatest[OF j]
  show f: "virtual_address ?f \<le> virtual_address (entries i)" by (rule first_loadable_segment_least[OF i])
  have fl: "virtual_address ?f \<le> virtual_address ?l" by (rule first_loadable_segment_least[OF last(1)])
  have l: "0 < size_in_memory ?l" "seg_end ?l < 2 ^ 63" using ok last(1) by (auto simp: image_ok_def)
  have "virtual_address (entries i) \<le> virtual_address ?l" by (rule last(2)[OF i])
  moreover have "i = ?k \<or> seg_end (entries i) \<le> unat (virtual_address ?l) \<or> seg_end ?l \<le> unat (virtual_address (entries i))"
    using ok i last(1) by (auto simp: image_ok_def)
  ultimately have e: "seg_end (entries i) \<le> seg_end ?l"
    using l(1) by (auto simp: seg_end_def word_le_nat_alt word_less_nat_alt)
  let ?x = "virtual_address ?l + size_in_memory ?l - virtual_address ?f"
  have "unat (virtual_address ?l + size_in_memory ?l) = seg_end ?l"
    using l(2) by (subst unat_add_u64) (simp_all add: seg_end_def)
  moreover have "unat (virtual_address ?f) \<le> seg_end ?l" using fl by (simp add: seg_end_def word_le_nat_alt)
  ultimately have x: "unat ?x = seg_end ?l - unat (virtual_address ?f)" by (simp add: unat_sub word_le_nat_alt)
  have "unat ?x < 2 ^ 63" using x l(2) by linarith
  from page_align_up(2,3)[OF this] have "unat ?x \<le> unat (image_bytes entries n)"
    by (simp add: image_bytes_def pages_to_map_def)
  then show "seg_end (entries i) \<le> unat (virtual_address ?f) + unat (image_bytes entries n)" using x e by linarith
qed

text \<open>The bytes the loop reads, the headers and the contents of the segments, lie outside the block.\<close>

definition sources_apart :: "memory \<Rightarrow> u64 \<Rightarrow> u64 \<Rightarrow> u64 \<Rightarrow> nat \<Rightarrow> bool" where
  "sources_apart m table buffer block n \<longleftrightarrow>
     (let entries = program_header m table; P = unat (image_bytes entries n) in
      (\<forall>k < 56 * n. P \<le> unat (table + of_nat k - block)) \<and>
      (\<forall>i. loadable entries n i \<longrightarrow> (\<forall>k < unat (size_in_file (entries i)). P \<le> unat (ph_offset (entries i) + buffer + of_nat k - block))))"

lemma program_header_cong:
  assumes "\<And>k. k < 56 \<Longrightarrow> m' (table + of_nat (56 * i + k)) = m (table + of_nat (56 * i + k))"
  shows "program_header m' table i = program_header m table i"
proof -
  have b: "m' (table + of_nat i * 56 + c + of_nat k) = m (table + of_nat i * 56 + c + of_nat k)"
    if "unat c + k < 56" for c :: u64 and k
  proof -
    have "table + of_nat i * 56 + c + of_nat k = table + of_nat (56 * i + (unat c + k))" by (simp add: algebra_simps)
    then show ?thesis using assms[OF that] by (simp only:)
  qed
  have w: "rd64 m' (table + of_nat i * 56 + c) = rd64 m (table + of_nat i * 56 + c)" if "unat c \<le> 48" for c
    using b[of c] that by (intro rd64_cong) simp
  have v: "(load 4 m' (table + of_nat i * 56 + c) :: u32) = load 4 m (table + of_nat i * 56 + c)" if "unat c \<le> 52" for c
    using b[of c] that by (intro load_cong) simp
  show ?thesis using v[of 0] by (simp add: program_header_def Let_def v w)
qed

text \<open>After the first \<open>k\<close> rounds: nothing outside the block has changed and the segments up to \<open>k\<close> are in place.\<close>

definition loaded :: "memory \<Rightarrow> u64 \<Rightarrow> u64 \<Rightarrow> u64 \<Rightarrow> nat \<Rightarrow> nat \<Rightarrow> memory \<Rightarrow> bool" where
  "loaded m table buffer block n k m' \<longleftrightarrow>
     (let entries = program_header m table; base = virtual_address (first_segment_of entries n) in
      (\<forall>x. unat (image_bytes entries n) \<le> unat (x - block) \<longrightarrow> m' x = m x) \<and>
      (\<forall>i j. loadable entries n i \<longrightarrow> i < k \<longrightarrow> j < unat (size_in_file (entries i)) \<longrightarrow>
         m' (block + (virtual_address (entries i) - base) + of_nat j) = m (ph_offset (entries i) + buffer + of_nat j)))"

definition seg_offset :: "(nat \<Rightarrow> elf_program_header) \<Rightarrow> nat \<Rightarrow> nat \<Rightarrow> nat" where
  "seg_offset entries n i = unat (virtual_address (entries i)) - unat (virtual_address (first_segment_of entries n))"

lemma seg_offset_file:
  assumes "image_ok entries n" "loadable entries n i"
  shows "virtual_address (entries i) - virtual_address (first_segment_of entries n) = of_nat (seg_offset entries n i)"
    and "seg_offset entries n i + unat (size_in_file (entries i)) \<le> unat (image_bytes entries n)"
    and "unat (size_in_file (entries i)) \<le> unat (size_in_memory (entries i))"
proof -
  note s = segment_in_image[OF assms]
  show "virtual_address (entries i) - virtual_address (first_segment_of entries n) = of_nat (seg_offset entries n i)"
    using s(1) unat_u64_less[of "virtual_address (entries i)"]
    by (simp add: seg_offset_def u64_eq_iff unat_sub word_le_nat_alt unat_of_nat_u64)
  show le: "unat (size_in_file (entries i)) \<le> unat (size_in_memory (entries i))"
    using assms by (simp add: image_ok_def word_le_nat_alt)
  show "seg_offset entries n i + unat (size_in_file (entries i)) \<le> unat (image_bytes entries n)"
    using s le unfolding seg_offset_def seg_end_def word_le_nat_alt by linarith
qed

lemma seg_offset_at:
  fixes block :: u64
  assumes "image_ok entries n" "loadable entries n i" "j < unat (size_in_file (entries i))"
  shows "unat (block + of_nat (seg_offset entries n i) + of_nat j - block) = seg_offset entries n i + j"
proof -
  have "block + of_nat (seg_offset entries n i) + of_nat j - block = of_nat (seg_offset entries n i + j)" by simp
  moreover have "seg_offset entries n i + j < 2 ^ 64"
    using seg_offset_file(2)[OF assms(1,2)] assms(3) unat_u64_less[of "image_bytes entries n"] by linarith
  ultimately show ?thesis by (simp only: unat_of_nat_u64)
qed

lemma seg_offset_apart:
  assumes ok: "image_ok entries n" and i: "loadable entries n i" and k: "loadable entries n k" and ne: "i \<noteq> k"
    and j: "j < unat (size_in_file (entries i))"
  shows "\<not> (seg_offset entries n k \<le> seg_offset entries n i + j \<and>
    seg_offset entries n i + j < seg_offset entries n k + unat (size_in_file (entries k)))"
proof -
  have "seg_end (entries i) \<le> unat (virtual_address (entries k)) \<or> seg_end (entries k) \<le> unat (virtual_address (entries i))"
    using ok i k ne by (simp add: image_ok_def)
  then have "seg_offset entries n i + unat (size_in_memory (entries i)) \<le> seg_offset entries n k \<or>
      seg_offset entries n k + unat (size_in_memory (entries k)) \<le> seg_offset entries n i"
    using segment_in_image(1)[OF ok i] segment_in_image(1)[OF ok k]
    by (auto simp: seg_offset_def seg_end_def word_le_nat_alt)
  then show ?thesis using j seg_offset_file(3)[OF ok i] seg_offset_file(3)[OF ok k] by linarith
qed

lemma load_step_loaded:
  assumes ok: "image_ok (program_header m table) n" and apart: "sources_apart m table buffer block n"
    and l: "loaded m table buffer block n k m'" and k: "k < n"
  shows "loaded m table buffer block n (Suc k)
    (load_step table buffer block (virtual_address (first_segment_of (program_header m table) n)) k m')"
proof -
  let ?e = "program_header m table"
  let ?b = "virtual_address (first_segment_of ?e n)" and ?P = "unat (image_bytes ?e n)" and ?o = "seg_offset (program_header m table) n"
  have same: "m' x = m x" if "?P \<le> unat (x - block)" for x using l that by (simp add: loaded_def Let_def)
  have h: "program_header m' table k = ?e k"
  proof (rule program_header_cong, rule same)
    fix c :: nat assume "c < 56"
    then have "56 * k + c < 56 * n" using k by linarith
    then show "?P \<le> unat (table + of_nat (56 * k + c) - block)"
      using apart by (simp only: sources_apart_def Let_def)
  qed
  show ?thesis
  proof (cases "ph_type (?e k) = 1")
    case False
    then have "load_step table buffer block ?b k m' = m'" by (simp add: load_step_def h)
    moreover have "i < Suc k \<longleftrightarrow> i < k" if "loadable ?e n i" for i
      using that False by (auto simp: loadable_def less_Suc_eq)
    ultimately show ?thesis using l by (auto simp: loaded_def Let_def)
  next
    case True
    then have ld: "loadable ?e n k" using k by (simp add: loadable_def)
    have src: "?P \<le> unat (ph_offset (?e k) + buffer + of_nat j - block)" if "j < unat (size_in_file (?e k))" for j
      using apart ld that by (simp add: sources_apart_def Let_def)
    have "?P \<le> 2 ^ 64" using unat_u64_less[of "image_bytes ?e n"] by simp
    note memcpy_into_block[OF seg_offset_file(2)[OF ok ld] this, of "ph_offset (?e k) + buffer" block, OF src]
    with True have step: "load_step table buffer block ?b k m' =
        (\<lambda>x. if ?o k \<le> unat (x - block) \<and> unat (x - block) < ?o k + unat (size_in_file (?e k))
         then m' (ph_offset (?e k) + buffer + of_nat (unat (x - block) - ?o k)) else m' x)"
      by (simp add: load_step_def h Let_def seg_offset_file(1)[OF ok ld])
    have "load_step table buffer block ?b k m' (block + (virtual_address (?e i) - ?b) + of_nat j) =
        m (ph_offset (?e i) + buffer + of_nat j)"
      if i: "loadable ?e n i" "i < Suc k" and j: "j < unat (size_in_file (?e i))" for i j
    proof (cases "i = k")
      case True
      then show ?thesis
        using j same[OF src] unfolding step seg_offset_file(1)[OF ok i(1)] seg_offset_at[OF ok i(1) j] by simp
    next
      case False
      have "load_step table buffer block ?b k m' (block + of_nat (?o i) + of_nat j) = m' (block + of_nat (?o i) + of_nat j)"
        unfolding step seg_offset_at[OF ok i(1) j] using seg_offset_apart[OF ok i(1) ld False j] by (simp only: if_False)
      moreover have "i < k" using i(2) False by simp
      then have "m' (block + (virtual_address (?e i) - ?b) + of_nat j) = m (ph_offset (?e i) + buffer + of_nat j)"
        using l i(1) j by (simp add: loaded_def Let_def)
      ultimately show ?thesis unfolding seg_offset_file(1)[OF ok i(1)] by (rule trans)
    qed
    moreover have "load_step table buffer block ?b k m' x = m x" if "?P \<le> unat (x - block)" for x
      unfolding step using same[OF that] seg_offset_file(2)[OF ok ld] that by auto
    ultimately show ?thesis by (simp add: loaded_def Let_def)
  qed
qed

section \<open>Properties\<close>

text \<open>C34. Loading a program: for an image as a linker makes it (\<open>image_ok\<close>: the loadable segments are not
  empty, lie apart, are no longer in the file than in memory, end below the upper half of the addresses and
  do not all start at 0) whose headers and contents lie outside the block that \<open>spawn\<close> allocates from the
  first to the last segment, the block has room for all the memory of every loadable segment, the part that
  is not in the file included, and after the copy loop each byte of each segment's file contents stands at
  the segment's place in the block; no byte outside the block has changed.\<close>

theorem load_segments_places_image:
  assumes "image_ok (program_header m table) n" and "sources_apart m table buffer block n"
    and "entries = program_header m table"
    and "base = virtual_address (entries (first_loadable_segment entries n))"
    and "bytes = pages_to_map (entries (first_loadable_segment entries n)) (entries (last_loadable_segment entries n)) * 4096"
  shows "(\<forall>i. i < n \<and> ph_type (entries i) = 1 \<longrightarrow>
      unat (virtual_address (entries i) - base) + unat (size_in_memory (entries i)) \<le> unat bytes \<and>
      size_in_file (entries i) \<le> size_in_memory (entries i) \<and>
      (\<forall>j < unat (size_in_file (entries i)).
         load_segments table buffer block base n m (block + (virtual_address (entries i) - base) + of_nat j) =
           m (ph_offset (entries i) + buffer + of_nat j))) \<and>
    (\<forall>x. bytes \<le> x - block \<longrightarrow> load_segments table buffer block base n m x = m x)"
proof -
  have "loaded m table buffer block n k (load_segments table buffer block base k m)" if "k \<le> n" for k
    using that
  proof (induction k)
    case (Suc k)
    then have "loaded m table buffer block n k (load_segments table buffer block base k m)" "k < n" by simp_all
    from load_step_loaded[OF assms(1,2) this] show ?case by (simp add: load_segments_def assms(3,4))
  qed (simp add: loaded_def load_segments_def)
  then have l: "loaded m table buffer block n n (load_segments table buffer block base n m)" by simp
  have b: "bytes = image_bytes entries n" by (simp add: assms(5) image_bytes_def)
  have "unat (virtual_address (entries i) - base) + unat (size_in_memory (entries i)) \<le> unat bytes \<and>
      size_in_file (entries i) \<le> size_in_memory (entries i)" if i: "loadable entries n i" for i
  proof -
    note S = segment_in_image[OF assms(1) i[unfolded assms(3)]]
    have "unat (virtual_address (entries i) - base) = unat (virtual_address (entries i)) - unat base"
      "unat base \<le> unat (virtual_address (entries i))"
      using S(1) by (simp_all add: assms(3,4) unat_sub word_le_nat_alt)
    then show ?thesis
      using S(2) seg_offset_file(3)[OF assms(1) i[unfolded assms(3)]]
      by (simp add: b assms(3,4) seg_end_def word_le_nat_alt)
  qed
  then show ?thesis using l by (simp add: loaded_def Let_def b assms(3,4) loadable_def word_le_nat_alt)
qed

text \<open>A table with a note and two segments, the second below the first.\<close>

definition sample_elf :: memory where
  "sample_elf x =
     (if x - 0x1000 < 168 then
        ([4, 0, 0, 0] @ replicate 52 0 @
         [1, 0, 0, 0, 6, 0, 0, 0, 2, 0, 0, 0, 0, 0, 0, 0, 0, 0x10, 0x40, 0, 0, 0, 0, 0] @ replicate 8 0 @
           [3, 0, 0, 0, 0, 0, 0, 0, 0, 1, 0, 0, 0, 0, 0, 0] @ replicate 8 0 @
         [1, 0, 0, 0, 5, 0, 0, 0, 0, 0, 0, 0, 0, 0, 0, 0, 0, 0, 0x40, 0, 0, 0, 0, 0] @ replicate 8 0 @
           [2, 0, 0, 0, 0, 0, 0, 0, 2, 0, 0, 0, 0, 0, 0, 0] @ replicate 8 0) ! unat (x - 0x1000)
      else if x - 0x2000 < 5 then ucast (x - 0x2000) + 65 else 0)"

lemma sample_headers:
  "program_header sample_elf 0x1000 0 = \<lparr>ph_type = 4, ph_flags = 0, ph_offset = 0, virtual_address = 0, ph_rsvd = 0,
     size_in_file = 0, size_in_memory = 0, ph_align = 0\<rparr>"
  "program_header sample_elf 0x1000 1 = \<lparr>ph_type = 1, ph_flags = 6, ph_offset = 2, virtual_address = 0x401000, ph_rsvd = 0,
     size_in_file = 3, size_in_memory = 0x100, ph_align = 0\<rparr>"
  "program_header sample_elf 0x1000 2 = \<lparr>ph_type = 1, ph_flags = 5, ph_offset = 0, virtual_address = 0x400000, ph_rsvd = 0,
     size_in_file = 2, size_in_memory = 2, ph_align = 0\<rparr>"
  by code_simp+

lemma sample_segments:
  "first_loadable_segment (program_header sample_elf 0x1000) 3 = 2"
  "last_loadable_segment (program_header sample_elf 0x1000) 3 = 1"
  "loadable (program_header sample_elf 0x1000) 3 i \<longleftrightarrow> i = 1 \<or> i = 2"
  "image_bytes (program_header sample_elf 0x1000) 3 = 0x2000"
proof -
  have u: "[0..<3] = [0, 1, 2 :: nat]" by (simp add: upt_rec)
  show f: "first_loadable_segment (program_header sample_elf 0x1000) 3 = 2"
    "last_loadable_segment (program_header sample_elf 0x1000) 3 = 1"
    by (simp_all add: first_loadable_segment_def first_step_def last_loadable_segment_def last_step_def u sample_headers[simplified])
  show "loadable (program_header sample_elf 0x1000) 3 i \<longleftrightarrow> i = 1 \<or> i = 2"
  proof -
    have "i < 3 \<longleftrightarrow> i = 0 \<or> i = 1 \<or> i = 2" by linarith
    then show ?thesis by (auto simp: loadable_def sample_headers[simplified])
  qed
  show "image_bytes (program_header sample_elf 0x1000) 3 = 0x2000"
    by (simp add: image_bytes_def f pages_to_map_def sample_headers[simplified] PAGE_ALIGN_UP_def)
qed

lemma below_block:
  assumes "unat c + k < unat page" "P + unat page \<le> 2 ^ 63"
  shows "P \<le> unat (c + of_nat k - page :: u64)"
proof -
  have "unat (of_nat k :: u64) = k" using assms by (intro unat_of_nat_u64) simp
  then have "unat (c + of_nat k) = unat c + k" using assms by (subst unat_add_u64) simp_all
  then show ?thesis using assms by (simp add: unat_sub_if' word_le_nat_alt)
qed

lemma sample_image: "image_ok (program_header sample_elf 0x1000) 3" "sources_apart sample_elf 0x1000 0x2000 0x10000 3"
proof -
  show "image_ok (program_header sample_elf 0x1000) 3"
    by (auto simp: image_ok_def sample_segments sample_headers[simplified] seg_end_def)
  show "sources_apart sample_elf 0x1000 0x2000 0x10000 3"
    using below_block[of "0x1000" _ "0x10000" "0x2000"] below_block[of "0x2002" _ "0x10000" "0x2000"]
      below_block[of "0x2000" _ "0x10000" "0x2000"]
    by (auto simp: sources_apart_def Let_def sample_segments sample_headers[simplified])
qed

theorem load_segments_places_image_witness:
  "load_segments 0x1000 0x2000 0x10000 0x400000 3 sample_elf 0x11002 = 69"
proof -
  note load_segments_places_image[OF sample_image refl refl refl, unfolded sample_segments(1,2)]
  from conjunct1[OF this, THEN spec, of 1]
  have l: "\<forall>j < unat (size_in_file (program_header sample_elf 0x1000 1)).
      load_segments 0x1000 0x2000 0x10000 0x400000 3 sample_elf (0x11000 + of_nat j) = sample_elf (0x2002 + of_nat j)"
    by (simp add: sample_headers[simplified])
  have "load_segments 0x1000 0x2000 0x10000 0x400000 3 sample_elf (0x11000 + of_nat 2) = sample_elf (0x2002 + of_nat 2)"
    by (rule l[rule_format]) (simp add: sample_headers[simplified])
  then show ?thesis by (simp add: sample_elf_def)
qed

section \<open>The arguments\<close>

definition string_bytes :: "string \<Rightarrow> u8 list" where
  "string_bytes str = map of_char str @ [0]"

definition word_bytes :: "u64 \<Rightarrow> u8 list" where
  "word_bytes v = map (\<lambda>j. ucast (drop_bit (8 * j) v)) [0..<8]"

text \<open>Bytes written at distance \<open>d\<close> behind \<open>a\<close>.\<close>

definition placed :: "u64 \<Rightarrow> nat \<Rightarrow> u8 list \<Rightarrow> memory \<Rightarrow> memory" where
  "placed a d bs m = (\<lambda>x. if d \<le> unat (x - a) \<and> unat (x - a) < d + length bs then bs ! (unat (x - a) - d) else m x)"

lemma placed_append: "placed a (d + length bs) cs (placed a d bs m) = placed a d (bs @ cs) m"
  by (auto simp: placed_def fun_eq_iff nth_append)

lemma placed_Nil [simp]: "placed a d [] m = m"
  by (auto simp: placed_def fun_eq_iff)

lemma placed_outside: "d + length bs \<le> unat (x - a) \<Longrightarrow> placed a d bs m x = m x"
  by (simp add: placed_def)

lemma mem_string_bytes:
  "NUL \<notin> set str \<Longrightarrow> length str < fuel \<Longrightarrow> (\<And>k. k \<le> length str \<Longrightarrow> m (a + of_nat k) = string_bytes str ! k) \<Longrightarrow>
     mem_string fuel m a = Inr str"
proof (induction str arbitrary: a fuel)
  case Nil
  then show ?case using Nil.prems(3)[of 0] by (simp add: mem_string.simps string_bytes_def)
next
  case (Cons c str)
  have c: "m a = of_char c" using Cons.prems(3)[of 0] by (simp add: string_bytes_def)
  have "unat (of_char c :: u8) = of_char c"
    using nat_of_char_less_256[of c] unat_of_nat[of "of_char c", where ?'a = 8]
    by (simp add: of_nat_of_char take_bit_eq_mod)
  then have b: "char_of (unat (m a)) = c" by (simp add: c)
  have "m a \<noteq> 0"
  proof
    assume "m a = 0"
    then have "c = char_of (0 :: nat)" using b by simp
    also have "\<dots> = NUL" by code_simp
    finally show False using Cons.prems(1) by simp
  qed
  moreover have "mem_string (fuel - 1) m (a + 1) = Inr str"
  proof (rule Cons.IH)
    fix k assume "k \<le> length str"
    then show "m (a + 1 + of_nat k) = string_bytes str ! k"
      using Cons.prems(3)[of "Suc k"] by (simp add: string_bytes_def add.assoc add.commute[of 1])
  qed (use Cons.prems in auto)
  ultimately show ?case using b Cons.prems(2) by (subst mem_string.simps) simp
qed

text \<open>Argument \<open>i\<close> as the caller gives it: its pointer and its bytes lie outside the \<open>P\<close> bytes behind the page's
  address.\<close>

definition arg_given :: "u64 \<Rightarrow> nat \<Rightarrow> u64 \<Rightarrow> memory \<Rightarrow> nat \<Rightarrow> string \<Rightarrow> bool" where
  "arg_given page P args m i str \<longleftrightarrow>
     (let p = rd64 m (args + of_nat i * 8) in
      p \<noteq> 0 \<and> NUL \<notin> set str \<and>
      (\<forall>k < 8. P \<le> unat (args + of_nat i * 8 + of_nat k - page)) \<and>
      (\<forall>k \<le> length str. P \<le> unat (p + of_nat k - page) \<and> m (p + of_nat k) = string_bytes str ! k))"

lemma arg_given_cong:
  assumes "arg_given page P args m i str" "\<And>x. P \<le> unat (x - page) \<Longrightarrow> m' x = m x"
  shows "arg_given page P args m' i str" "rd64 m' (args + of_nat i * 8) = rd64 m (args + of_nat i * 8)"
proof -
  show p: "rd64 m' (args + of_nat i * 8) = rd64 m (args + of_nat i * 8)"
    by (rule rd64_cong, rule assms(2)) (use assms(1) in \<open>simp add: arg_given_def Let_def\<close>)
  show "arg_given page P args m' i str"
    using assms unfolding arg_given_def p Let_def by simp
qed

lemma arg_at_given:
  assumes "arg_given page P args (mem s) i str" "length str < 2 ^ 64"
  shows "arg_at args i s = Inr (rd64 (mem s) (args + of_nat i * 8), str)"
proof -
  have "mem_string walk_fuel (mem s) (rd64 (mem s) (args + of_nat i * 8)) = Inr str"
    using assms by (intro mem_string_bytes) (simp_all add: arg_given_def Let_def walk_fuel_def)
  then show ?thesis using assms(1) by (simp add: arg_at_def c_string_def arg_given_def Let_def)
qed

lemma placed_memcpy:
  assumes "arg_given page P args m i str" "d + Suc (length str) \<le> P" "P \<le> 2 ^ 64" "0 < d \<or> Suc (length str) < 2 ^ 64"
  shows "ku_memcpy (page + of_nat d) (rd64 m (args + of_nat i * 8)) (of_nat (length str) + 1) m = placed page d (string_bytes str) m"
proof -
  let ?p = "rd64 m (args + of_nat i * 8)"
  have "Suc (length str) < 2 ^ 64" using assms by linarith
  then have n: "unat (of_nat (length str) + 1 :: u64) = Suc (length str)"
    using unat_of_nat_u64[of "Suc (length str)"] by (simp add: add.commute)
  have "ku_memcpy (page + of_nat d) ?p (of_nat (length str) + 1) m =
    (\<lambda>x. if d \<le> unat (x - page) \<and> unat (x - page) < d + Suc (length str)
         then m (?p + of_nat (unat (x - page) - d)) else m x)"
    using assms(1,2,3) by (subst memcpy_into_block[where P = P]) (simp_all add: n arg_given_def Let_def)
  also have "\<dots> = placed page d (string_bytes str) m"
  proof -
    have b: "m (?p + of_nat k) = string_bytes str ! k" if "k \<le> length str" for k
      using assms(1) that by (simp add: arg_given_def Let_def)
    have "m (?p + of_nat (unat (x - page) - d)) = string_bytes str ! (unat (x - page) - d)"
      if "d \<le> unat (x - page) \<and> unat (x - page) < d + Suc (length str)" for x using that by (intro b) linarith
    moreover have "length (string_bytes str) = Suc (length str)" by (simp add: string_bytes_def)
    ultimately show ?thesis unfolding placed_def by (intro ext if_cong) (simp_all only:)
  qed
  finally show ?thesis .
qed

abbreviation strings_bytes :: "string list \<Rightarrow> u8 list" where
  "strings_bytes ws \<equiv> concat (map string_bytes ws)"

lemma copy_args_placed:
  assumes "P \<le> 2 ^ 63" "\<And>i x. i < length ws \<Longrightarrow> arg_given page P args (mem s) (k + i) (ws ! i)"
    and "d + length (strings_bytes ws) \<le> P"
  shows "copy_args [k..<k + length ws] args page (of_nat d) s =
    Inr (of_nat (d + length (strings_bytes ws)), s\<lparr>mem := placed page d (strings_bytes ws) (mem s)\<rparr>)"
  using assms(2,3)
proof (induction ws arbitrary: k d s)
  case (Cons str ws)
  let ?s = "s\<lparr>mem := placed page d (string_bytes str) (mem s)\<rparr>"
  have g: "arg_given page P args (mem s) k str" using Cons.prems(1)[of 0] by simp
  have len: "length (string_bytes str) = Suc (length str)" by (simp add: string_bytes_def)
  have d: "d + Suc (length str) \<le> P" using Cons.prems(2) len by simp
  then have c: "ku_memcpy (page + of_nat d) (rd64 (mem s) (args + of_nat k * 8)) (of_nat (length str) + 1) (mem s) =
      placed page d (string_bytes str) (mem s)"
    using assms(1) by (intro placed_memcpy[OF g]) simp_all
  have a: "arg_at args k s = Inr (rd64 (mem s) (args + of_nat k * 8), str)"
    using d assms(1) by (intro arg_at_given[OF g]) simp
  have "copy_args [Suc k..<Suc k + length ws] args page (of_nat (d + Suc (length str))) ?s =
    Inr (of_nat (d + Suc (length str) + length (strings_bytes ws)),
      ?s\<lparr>mem := placed page (d + Suc (length str)) (strings_bytes ws) (mem ?s)\<rparr>)"
  proof (rule Cons.IH)
    fix i assume "i < length ws"
    then have "arg_given page P args (mem s) (Suc k + i) (ws ! i)" using Cons.prems(1)[of "Suc i"] by simp
    then show "arg_given page P args (mem ?s) (Suc k + i) (ws ! i)"
      by (rule arg_given_cong) (use d len in \<open>simp add: placed_outside\<close>)
  qed (use Cons.prems(2) len in simp)
  moreover have "[k..<k + length (str # ws)] = k # [Suc k..<Suc k + length ws]"
    by (subst upt_conv_Cons) simp_all
  moreover have "of_nat d + (of_nat (length str) + 1 :: u64) = of_nat (d + Suc (length str))" by simp
  ultimately show ?case
    using placed_append[of page d "string_bytes str" "strings_bytes ws" "mem s"]
    by (simp only: copy_args.simps a res_bind_simps split_conv Let_def c) (simp add: len add.assoc)
qed simp

lemma placed_wr64:
  assumes "d + 8 \<le> 2 ^ 64"
  shows "wr64 m (page + of_nat d) v = placed page d (word_bytes v) m"
proof
  fix x
  define y where "y = x - page"
  have x: "x - (page + of_nat d) = y - of_nat d" by (simp add: y_def)
  have "unat (of_nat d :: u64) = d" using assms by (simp add: unat_of_nat_u64)
  then have "y - of_nat d < 8 \<longleftrightarrow> d \<le> unat y \<and> unat y < d + 8"
    "d \<le> unat y \<Longrightarrow> unat (y - of_nat d) = unat y - d"
    using assms unat_u64_less[of y] by (auto simp: word_less_nat_alt unat_sub_if' word_le_nat_alt)
  then show "wr64 m (page + of_nat d) v x = placed page d (word_bytes v) m x"
    unfolding wr64_def placed_def x y_def[symmetric] by (auto simp: word_bytes_def)
qed

text \<open>The pointers: entry \<open>i\<close> leads to the \<open>i\<close>-th string by its address in the kernel's map.\<close>

fun pointers :: "u64 \<Rightarrow> nat \<Rightarrow> string list \<Rightarrow> u64 list" where
  "pointers page h [] = []"
| "pointers page h (w # ws) = (page + of_nat h) # pointers page (h + Suc (length w)) ws"

abbreviation pointers_bytes :: "u64 \<Rightarrow> nat \<Rightarrow> string list \<Rightarrow> u8 list" where
  "pointers_bytes page h ws \<equiv> concat (map word_bytes (pointers page h ws))"

lemma length_word_bytes [simp]: "length (word_bytes v) = 8"
  by (simp add: word_bytes_def)

lemma length_pointers [simp]: "length (pointers page h ws) = length ws"
  by (induction ws arbitrary: h) auto

lemma length_pointers_bytes [simp]: "length (pointers_bytes page h ws) = 8 * length ws"
  by (induction ws arbitrary: h) auto

lemma point_args_placed:
  assumes "P \<le> 2 ^ 63" "\<And>i x. i < length ws \<Longrightarrow> arg_given page P args (mem s) (k + i) (ws ! i) \<and> length (ws ! i) < 2 ^ 64"
    and "z + 8 * (k + length ws) \<le> P"
  shows "point_args [k..<k + length ws] args page (of_nat z) (of_nat h) s =
    Inr (s\<lparr>mem := placed page (z + 8 * k) (pointers_bytes page h ws) (mem s)\<rparr>)"
  using assms(2,3)
proof (induction ws arbitrary: k h s)
  case (Cons w ws)
  let ?s = "s\<lparr>mem := placed page (z + 8 * k) (word_bytes (page + of_nat h)) (mem s)\<rparr>"
  have "z + 8 * k + 8 \<le> 2 ^ 64" using Cons.prems(2) assms(1) by simp
  from placed_wr64[OF this] have "wr64 (mem s) (page + of_nat z + of_nat k * 8) (page + of_nat h) = mem ?s"
    by (simp add: add.assoc mult.commute)
  then have c: "s\<lparr>mem := wr64 (mem s) (page + of_nat z + of_nat k * 8) (page + of_nat h)\<rparr> = ?s" by simp
  have keep: "arg_given page P args (mem ?s) (k + i) ((w # ws) ! i)" if "i < length (w # ws)" for i
    by (rule arg_given_cong[OF conjunct1[OF Cons.prems(1)[OF that]]]) (use Cons.prems(2) in \<open>simp add: placed_outside\<close>)
  have a: "arg_at args k ?s = Inr (rd64 (mem ?s) (args + of_nat k * 8), w)"
    using keep[of 0] Cons.prems(1)[of 0] by (intro arg_at_given) simp_all
  have "point_args [Suc k..<Suc k + length ws] args page (of_nat z) (of_nat (h + Suc (length w))) ?s =
    Inr (?s\<lparr>mem := placed page (z + 8 * Suc k) (pointers_bytes page (h + Suc (length w)) ws) (mem ?s)\<rparr>)"
  proof (rule Cons.IH)
    fix i assume "i < length ws"
    then show "arg_given page P args (mem ?s) (Suc k + i) (ws ! i) \<and> length (ws ! i) < 2 ^ 64"
      using keep[of "Suc i"] Cons.prems(1)[of "Suc i"] by simp
  qed (use Cons.prems(2) in simp)
  moreover have "[k..<k + length (w # ws)] = k # [Suc k..<Suc k + length ws]"
    by (subst upt_conv_Cons) simp_all
  moreover have "of_nat h + (of_nat (length w) + 1 :: u64) = of_nat (h + Suc (length w))" by simp
  ultimately show ?case
    using placed_append[of page "z + 8 * k" "word_bytes (page + of_nat h)" "pointers_bytes page (h + Suc (length w)) ws" "mem s"]
    by (simp only: point_args.simps c Let_def a res_bind_simps split_conv) (simp add: add.assoc add.commute[of 8])
qed simp

text \<open>C35. The arguments of a new task: \<open>spawn\<close> puts the strings one behind the other at the start of the argument
  page and behind them a table of pointers, and tells the task where the table is. Each pointer is the
  address of the string in the kernel's direct map, not in the task's mapping of the page.\<close>

theorem pass_args_layout:
  assumes "\<forall>i < length ws. arg_given page P args (mem s) i (ws ! i)"
    and "length (strings_bytes ws) + 8 * length ws \<le> P" and "P \<le> 2 ^ 63"
  shows "pass_args args (of_nat (length ws)) page s =
    Inr (of_nat (length (strings_bytes ws)),
      s\<lparr>mem := placed page 0 (strings_bytes ws @ pointers_bytes page 0 ws) (mem s)\<rparr>)"
proof -
  let ?z = "length (strings_bytes ws)"
  let ?s = "s\<lparr>mem := placed page 0 (strings_bytes ws) (mem s)\<rparr>"
  have n: "unat (of_nat (length ws) :: u64) = length ws" using assms(2,3) by (intro unat_of_nat_u64) simp
  have c: "copy_args [0..<0 + length ws] args page (of_nat 0) s = Inr (of_nat (0 + ?z), ?s)"
    using assms by (intro copy_args_placed[where P = P]) simp_all
  have "length (ws ! i) < 2 ^ 64" if "i < length ws" for i
  proof -
    have "length (string_bytes (ws ! i)) \<le> ?z"
      using that by (simp add: length_concat member_le_sum_list comp_def)
    then show ?thesis using assms(2,3) by (simp add: string_bytes_def)
  qed
  moreover have "arg_given page P args (mem ?s) i (ws ! i)" if "i < length ws" for i
    by (rule arg_given_cong[OF assms(1)[rule_format, OF that]]) (use assms(2) in \<open>simp add: placed_outside\<close>)
  ultimately have "point_args [0..<0 + length ws] args page (of_nat ?z) (of_nat 0) ?s =
      Inr (?s\<lparr>mem := placed page (?z + 8 * 0) (pointers_bytes page 0 ws) (mem ?s)\<rparr>)"
    using assms(2,3) by (intro point_args_placed[where P = P]) simp_all
  then show ?thesis
    using c placed_append[of page 0 "strings_bytes ws" "pointers_bytes page 0 ws" "mem s"] by (simp add: pass_args_def n)
qed

definition sample_args :: memory where
  "sample_args x = (if x = 0x3001 then 0x31 else if x = 0x3100 then 97 else if x = 0x3101 then 98 else 0)"

theorem pass_args_layout_witness:
  "\<exists>s'. pass_args 0x3000 1 0x5000 (sample_pmm\<lparr>mem := sample_args\<rparr>) = Inr (3, s') \<and>
     mem s' 0x5001 = 98 \<and> mem s' 0x5004 = 0x50"
proof -
  have p: "rd64 sample_args 0x3000 = 0x3100" by code_simp
  have "sample_args (0x3100 + of_nat k) = string_bytes ''ab'' ! k" if "k \<le> 2" for k
  proof -
    have "k = 0 \<or> k = 1 \<or> k = 2" using that by linarith
    then show ?thesis by (auto simp: sample_args_def string_bytes_def)
  qed
  moreover have "4096 \<le> unat (0x3000 + of_nat k - 0x5000 :: u64)" if "k < 8" for k
    using that by (intro below_block) simp_all
  moreover have "4096 \<le> unat (0x3100 + of_nat k - 0x5000 :: u64)" if "k \<le> 2" for k
    using that by (intro below_block) simp_all
  ultimately have "arg_given 0x5000 4096 0x3000 (mem (sample_pmm\<lparr>mem := sample_args\<rparr>)) 0 ''ab''"
    using p unfolding arg_given_def Let_def by simp
  then have "pass_args 0x3000 (of_nat (length [''ab''])) 0x5000 (sample_pmm\<lparr>mem := sample_args\<rparr>) =
      Inr (of_nat (length (strings_bytes [''ab''])), (sample_pmm\<lparr>mem := sample_args\<rparr>)\<lparr>mem :=
        placed 0x5000 0 (strings_bytes [''ab''] @ pointers_bytes 0x5000 0 [''ab'']) sample_args\<rparr>)"
    using pass_args_layout[of "[''ab'']" "0x5000" 4096 "0x3000" "sample_pmm\<lparr>mem := sample_args\<rparr>"]
    by (simp add: string_bytes_def)
  moreover have "placed 0x5000 0 (strings_bytes [''ab''] @ pointers_bytes 0x5000 0 [''ab'']) sample_args 0x5001 = 98"
    "placed 0x5000 0 (strings_bytes [''ab''] @ pointers_bytes 0x5000 0 [''ab'']) sample_args 0x5004 = 0x50"
    by code_simp+
  ultimately show ?thesis by (simp add: string_bytes_def)
qed

end
