(* ===== verification/FileData.thy ===== *)
theory FileData
  imports Loader
begin

text \<open>
  The contents of files: what \<open>tempfs_write\<close> puts into the nodes of a file (\<open>src/src/fs/tempfs.c\<close>, theory
  \<open>TempFS\<close>) is what \<open>tempfs_read\<close> finds there. The buffers of the two calls are memory of a program:
  addresses outside the direct map of the usable sections, where the kernel keeps its heap, its bitmaps and
  its page tables.
\<close>

section \<open>Memory the kernel does not use\<close>

definition kernel_byte :: "'a pmm_state_scheme \<Rightarrow> u64 \<Rightarrow> bool" where
  "kernel_byte s x \<longleftrightarrow> (\<exists>e \<in> set (memmap s). usable e \<and> in_section (hhdm s) e x)"

definition user_bytes :: "'a pmm_state_scheme \<Rightarrow> u64 \<Rightarrow> nat \<Rightarrow> bool" where
  "user_bytes s a n \<longleftrightarrow> (\<forall>k < n. \<not> kernel_byte s (a + of_nat k))"

lemma owned_kernel_byte:
  assumes "pmm_wf s" "x - hhdm s \<in> owned_bytes s"
  shows "kernel_byte s x"
proof -
  obtain e q where e: "e \<in> set (memmap s)" "usable e" "q < section_pages e"
    "x - hhdm s - (me_base e + (of_nat q * 4096 + 4096)) < 4096" using assms(2) by (auto simp: owned_bytes_def)
  have "section_ok e" using assms(1) e by (auto simp: pmm_wf_def memmap_ok_def)
  then have "in_section (hhdm s) e x" using page_offset(2)[OF _ e(3,4)] by (simp add: in_section_shift[of "hhdm s"])
  then show ?thesis using e by (auto simp: kernel_byte_def)
qed

lemma bitmap_kernel_byte:
  assumes "pmm_wf s" "e \<in> set (memmap s)" "usable e" "x - bitmap_at s e < 4096"
  shows "kernel_byte s x"
  using assms bitmap_in_section[of e x "hhdm s"] by (auto simp: kernel_byte_def pmm_wf_def memmap_ok_def)

text \<open>Writing outside the bitmaps keeps the heap.\<close>

lemma heap_mem:
  assumes wf: "pmm_wf s"
    and m: "\<And>x e. e \<in> set (memmap s) \<Longrightarrow> usable e \<Longrightarrow> x - bitmap_at s e < 4096 \<Longrightarrow> m x = mem s x"
  shows "live (s\<lparr>mem := m\<rparr>) = live s" "heap_inv (s\<lparr>mem := m\<rparr>) = heap_inv s" "roomy k (s\<lparr>mem := m\<rparr>) = roomy k s"
proof -
  have o: "owned_bytes (s\<lparr>mem := m\<rparr>) = owned_bytes s" by (rule owned_bytes_cong[OF wf m])
  have c: "heap_chain (s\<lparr>mem := m\<rparr>) ps = heap_chain s ps" for ps
    by (simp add: heap_chain_def o pmm_wf_upd hhdm_ok_def)
  show "live (s\<lparr>mem := m\<rparr>) = live s" by (rule ext) (simp add: live_def Let_def)
  show "heap_inv (s\<lparr>mem := m\<rparr>) = heap_inv s" by (simp add: heap_inv_def c)
  show "roomy k (s\<lparr>mem := m\<rparr>) = roomy k s" by (simp add: roomy_def c heap_room_def)
qed

lemma heap_inv_wf: "heap_inv s \<Longrightarrow> pmm_wf s"
  by (auto simp: heap_inv_def heap_chain_def)

lemma heap_mem_user:
  assumes "heap_inv s" "\<And>x. kernel_byte s x \<Longrightarrow> m x = mem s x"
  shows "live (s\<lparr>mem := m\<rparr>) = live s" "heap_inv (s\<lparr>mem := m\<rparr>)" "roomy k (s\<lparr>mem := m\<rparr>) = roomy k s"
proof -
  have wf: "pmm_wf s" by (rule heap_inv_wf[OF assms(1)])
  have "m x = mem s x" if "e \<in> set (memmap s)" "usable e" "x - bitmap_at s e < 4096" for e x
    by (rule assms(2)[OF bitmap_kernel_byte[OF wf that]])
  from heap_mem[OF wf this] show "live (s\<lparr>mem := m\<rparr>) = live s" "heap_inv (s\<lparr>mem := m\<rparr>)" "roomy k (s\<lparr>mem := m\<rparr>) = roomy k s"
    using assms(1) by simp_all
qed

text \<open>\<open>malloc\<close> changes memory only by taking pages.\<close>

lemma malloc_loop_mem:
  "malloc_loop fuel n p s = Inr (a, s') \<Longrightarrow> mem s' = mem s \<or> (\<exists>k b t. kmalloc k s = Inr (b, t) \<and> mem s' = mem t)"
proof (induction fuel n p s rule: malloc_loop.induct)
  case (1 fuel n p s)
  show ?case
    using "1.prems" "1.IH"[OF _ _ refl]
    by (subst (asm) malloc_loop.simps)
      (auto simp: Let_def split_pool_def result_simps split: if_splits, blast+)
qed

lemma malloc_keeps:
  assumes inv: "heap_inv s" and m: "malloc n s = Inr (a, s')"
  shows "\<not> kernel_byte s x \<Longrightarrow> mem s' x = mem s x" "x - hhdm s \<in> owned_bytes s \<Longrightarrow> mem s' x = mem s x"
proof -
  have wf: "pmm_wf s" by (rule heap_inv_wf[OF inv])
  from malloc_loop_mem[OF m[unfolded malloc_def]]
  have "mem s' x = mem s x" if "\<And>k b t. kmalloc k s = Inr (b, t) \<Longrightarrow> mem t x = mem s x" using that by auto
  moreover have "mem t x = mem s x" if nk: "\<not> kernel_byte s x" and km: "kmalloc k s = Inr (b, t)" for k b t
  proof -
    obtain i p e where e: "i < length (memmap s)" "e = memmap s ! i" "usable e"
      and out: "\<And>x. \<not> x - (b + hhdm s) < k * 4096 \<Longrightarrow> \<not> x - bitmap_at s e < 4096 \<Longrightarrow> mem t x = mem s x"
      by (rule kmalloc_effect[OF wf km]) (rule that, assumption+)
    have "\<not> x - bitmap_at s e < 4096" using bitmap_kernel_byte[OF wf _ e(3)] e(1,2) nk by auto
    moreover have "\<not> x - (b + hhdm s) < k * 4096"
    proof
      assume "x - (b + hhdm s) < k * 4096"
      then have "x - hhdm s \<in> page_block b k" by (simp add: page_block_def algebra_simps)
      then have "x - hhdm t \<in> owned_bytes t" "kernel_byte t x = kernel_byte s x" "pmm_wf t"
        using kmalloc_owned[OF wf km] kmalloc_frame[OF wf km] wf by (auto simp: kernel_byte_def frame_simps)
      then show False using owned_kernel_byte[of t x] nk by simp
    qed
    ultimately show ?thesis using out by blast
  qed
  ultimately show "\<not> kernel_byte s x \<Longrightarrow> mem s' x = mem s x" "x - hhdm s \<in> owned_bytes s \<Longrightarrow> mem s' x = mem s x"
    using kmalloc_keeps_owned[OF wf] by blast+
qed

section \<open>One node\<close>

lemma block_bytes:
  assumes "heap_inv s" "live s b = Some n"
  shows "unat (x - b) < n \<longleftrightarrow> x \<in> heap_block b n"
proof -
  obtain ps where h: "heap_chain s ps" using assms(1) by (auto simp: heap_inv_def)
  have b: "unat b + n < 2 ^ 64" by (rule live_block(4)[OF h assms(2)])
  show ?thesis
    unfolding heap_block_def using b unat_u64_less[of x] by (auto simp: unat_sub_if' word_le_nat_alt)
qed

lemma block_byte_owned:
  assumes "heap_inv s" "live s b = Some n" "unat (x - b) < n"
  shows "x - hhdm s \<in> owned_bytes s" "kernel_byte s x"
  using live_block_owned[OF assms(1,2)] block_bytes[OF assms(1,2)] assms(3) owned_kernel_byte[OF heap_inv_wf[OF assms(1)]]
  by blast+

lemma blocks_apart:
  assumes "heap_inv s" "live s a = Some m" "live s b = Some n" "a \<noteq> b" "unat (x - a) < m"
  shows "\<not> unat (x - b) < n"
  using live_blocks_disjoint[OF assms(1-4)] block_bytes[OF assms(1,2)] block_bytes[OF assms(1,3)] assms(5) by blast

lemma copy_to_node:
  assumes inv: "heap_inv s" and p: "live s p = Some 4096" and n: "unat n \<le> 4088" and u: "user_bytes s src (unat n)"
  shows "ku_memcpy p src n (mem s) = (\<lambda>x. if unat (x - p) < unat n then mem s (src + of_nat (unat (x - p))) else mem s x)"
    and "heap_inv (s\<lparr>mem := ku_memcpy p src n (mem s)\<rparr>)" "live (s\<lparr>mem := ku_memcpy p src n (mem s)\<rparr>) = live s"
    and "roomy k (s\<lparr>mem := ku_memcpy p src n (mem s)\<rparr>) = roomy k s"
proof -
  have "4096 \<le> unat (src + of_nat k - p)" if "k < unat n" for k
    using block_byte_owned(2)[OF inv p, of "src + of_nat k"] u that unfolding user_bytes_def by (meson not_less)
  from memcpy_into_block[of 0 n 4096 src p, OF _ _ this] n
  show m: "ku_memcpy p src n (mem s) = (\<lambda>x. if unat (x - p) < unat n then mem s (src + of_nat (unat (x - p))) else mem s x)"
    by (simp cong: if_cong)
  have wf: "pmm_wf s" by (rule heap_inv_wf[OF inv])
  have "ku_memcpy p src n (mem s) x = mem s x" if "e \<in> set (memmap s)" "usable e" "x - bitmap_at s e < 4096" for e x
  proof -
    have "\<not> unat (x - p) < 4096"
      using block_byte_owned(1)[OF inv p, of x] owned_not_bitmap[OF wf _ that(1,2), of "x - hhdm s"] that(3)
      by (auto simp: diff_diff_eq add.commute)
    then show ?thesis using n by (simp add: m)
  qed
  then show "heap_inv (s\<lparr>mem := ku_memcpy p src n (mem s)\<rparr>)" "live (s\<lparr>mem := ku_memcpy p src n (mem s)\<rparr>) = live s"
    "roomy k (s\<lparr>mem := ku_memcpy p src n (mem s)\<rparr>) = roomy k s"
    using heap_mem[OF wf] inv by blast+
qed

section \<open>Writing\<close>

text \<open>What holds after \<open>L\<close> bytes from \<open>src\<close> have been written to the nodes from \<open>p\<close> on, which were \<open>ns\<close> and now
  are \<open>ns'\<close>: blocks that are none of these nodes, and memory that is not the kernel's, are as before.\<close>

definition kept :: "u64 set \<Rightarrow> 'a fs_state_scheme \<Rightarrow> 'a fs_state_scheme \<Rightarrow> bool" where
  "kept N s s' \<longleftrightarrow> heap_inv s' \<and> map_le (live s) (live s') \<and>
     (\<exists>m t q f. s' = s\<lparr>mem := m, total_memory_allocated := t, pools := q, fnode_next := f\<rparr>) \<and>
     (\<forall>x. \<not> kernel_byte s x \<longrightarrow> mem s' x = mem s x) \<and>
     (\<forall>b n. live s b = Some n \<and> b \<notin> N \<longrightarrow> fnode_next s' b = fnode_next s b \<and> (\<forall>x. unat (x - b) < n \<longrightarrow> mem s' x = mem s x))"

definition node_list :: "'a fs_state_scheme \<Rightarrow> u64 \<Rightarrow> u64 list \<Rightarrow> bool" where
  "node_list s p ns \<longleftrightarrow> chain (fnode_next s) p ns \<and> (\<forall>n \<in> set ns. live s n = Some 4096)"

definition contents :: "'a fs_state_scheme \<Rightarrow> u64 list \<Rightarrow> nat \<Rightarrow> u8" where
  "contents s ns k = mem s (ns ! (k div 4088) + of_nat (k mod 4088))"

lemma kernel_byte_cong: "memmap s' = memmap s \<Longrightarrow> hhdm s' = hhdm s \<Longrightarrow> kernel_byte s' = kernel_byte s"
  by (simp add: kernel_byte_def fun_eq_iff)

lemma kept_kernel: "kept N s s' \<Longrightarrow> kernel_byte s' = kernel_byte s"
  by (rule kernel_byte_cong) (auto simp: kept_def)

lemma kept_trans:
  assumes "kept N s s'" "kept N' s' s''" "\<And>b n. live s b = Some n \<Longrightarrow> b \<in> N' \<Longrightarrow> b \<in> N"
  shows "kept N s s''"
proof -
  have k: "kernel_byte s' = kernel_byte s" by (rule kept_kernel[OF assms(1)])
  have l: "live s' b = Some n" if "live s b = Some n" for b n
    using assms(1) that by (auto simp: kept_def map_le_def dom_def)
  have "map_le (live s) (live s'')" using assms(1,2) by (auto simp: kept_def intro: map_le_trans)
  moreover have "\<exists>m t q f. s'' = s\<lparr>mem := m, total_memory_allocated := t, pools := q, fnode_next := f\<rparr>"
    using assms(1,2) unfolding kept_def by (elim conjE exE, intro exI) simp
  moreover have "fnode_next s'' b = fnode_next s b" "unat (x - b) < n \<Longrightarrow> mem s'' x = mem s x"
    if b: "live s b = Some n" "b \<notin> N" for b n x
  proof -
    have "b \<notin> N'" using assms(3) b by blast
    then show "fnode_next s'' b = fnode_next s b" "unat (x - b) < n \<Longrightarrow> mem s'' x = mem s x"
      using assms(1,2) b l[OF b(1)] unfolding kept_def by simp_all
  qed
  moreover have "\<not> kernel_byte s x \<Longrightarrow> mem s'' x = mem s x" for x using assms(1,2) k by (simp add: kept_def)
  moreover have "heap_inv s''" using assms(2) by (simp add: kept_def)
  ultimately show ?thesis unfolding kept_def by blast
qed

lemma kept_refl:
  assumes "heap_inv s"
  shows "kept N s s"
proof -
  have "s = s\<lparr>mem := mem s, total_memory_allocated := total_memory_allocated s, pools := pools s, fnode_next := fnode_next s\<rparr>" by simp
  then have "\<exists>m t q f. s = s\<lparr>mem := m, total_memory_allocated := t, pools := q, fnode_next := f\<rparr>" by blast
  then show ?thesis using assms by (simp add: kept_def)
qed

text \<open>The heap room that writing \<open>L\<close> bytes to a file of \<open>m\<close> nodes takes: the loop keeps a node in reserve, and a
  node takes its 4096 bytes, the header of its block and one byte.\<close>

definition write_room :: "nat \<Rightarrow> nat \<Rightarrow> nat" where
  "write_room L m = 4123 * ((L + 4087) div 4088 + 1 - m)"

lemma write_room_step:
  assumes "0 < L"
  shows "write_room L (Suc m) = (if m = 0 then 4123 else 0) + write_room (L - 4088) (Suc (m - 1))"
proof -
  have "(L + 4087) div 4088 = Suc ((L - 4088 + 4087) div 4088)"
  proof (cases "4088 \<le> L")
    case True
    then have "L + 4087 = (L - 4088 + 4087) + 4088" by linarith
    then show ?thesis by simp
  next
    case False
    then have "(L + 4087) div 4088 = 1" using assms by (intro div_nat_eqI) simp_all
    then show ?thesis using False by simp
  qed
  then show ?thesis by (cases m) (simp_all add: write_room_def)
qed

text \<open>The node behind \<open>p\<close>, which the loop allocates when there is none.\<close>

lemma write_prepare:
  assumes inv: "heap_inv s" and n: "node_list s p (p # rest)"
  shows "(if fnode_next s p = 0 then
       res_bind (malloc sizeof_FileNode s) (\<lambda>(a, s). Inr (s\<lparr>fnode_next := (fnode_next s)(p := a, a := 0)\<rparr>))
     else Inr s) = Inl Halted \<and> rest = [] \<and> \<not> roomy 4123 s \<or>
    (\<exists>s1 q rest1. (if fnode_next s p = 0 then
       res_bind (malloc sizeof_FileNode s) (\<lambda>(a, s). Inr (s\<lparr>fnode_next := (fnode_next s)(p := a, a := 0)\<rparr>))
     else Inr s) = Inr s1 \<and> node_list s1 p (p # q # rest1) \<and> kept {p} s s1 \<and> (\<forall>x. unat (x - p) < 4096 \<longrightarrow> mem s1 x = mem s x) \<and>
     (\<forall>b n. live s b = Some n \<and> b \<in> set (q # rest1) \<longrightarrow> b \<in> set rest) \<and>
     length rest1 = length rest - 1 \<and> (\<forall>k. roomy ((if rest = [] then 4123 else 0) + k) s \<longrightarrow> roomy k s1))"
proof (cases "fnode_next s p = 0")
  case False
  then obtain q rest1 where r: "rest = q # rest1" using n by (cases rest) (auto simp: node_list_def)
  show ?thesis using n False kept_refl[OF inv] unfolding r by auto
next
  case True
  have r: "rest = []" and p: "p \<noteq> 0" "live s p = Some 4096" using n True by (auto simp: node_list_def)
  have z: "unat sizeof_FileNode = 4096" "unat sizeof_FileNode < 2 ^ 62" by (simp_all add: sizeof_FileNode_def)
  show ?thesis
  proof (cases "malloc sizeof_FileNode s")
    case (Inl e)
    then have "e = Halted" by (rule kheap.alloc_error[OF inv z(2)])
    moreover have "\<not> roomy 4123 s" using malloc_room[of sizeof_FileNode 0 s] Inl z by auto
    ultimately show ?thesis using Inl True r by simp
  next
    case (Inr r')
    then obtain a t where m: "malloc sizeof_FileNode s = Inr (a, t)" by (cases r') auto
    note M = malloc_fs[OF inv z(2) m]
    define s1 where "s1 = t\<lparr>fnode_next := (fnode_next t)(p := a, a := 0)\<rparr>"
    have ap: "a \<noteq> p" using M(5) p(2) by auto
    have l: "live s1 = (live s)(a \<mapsto> 4096)" "heap_inv s1" using M(4,6) z by (simp_all add: s1_def frame_simps)
    have f: "fnode_next s1 = (fnode_next s)(p := a, a := 0)" "mem s1 = mem t" by (simp_all add: s1_def M(3))
    have keep: "mem s1 x = mem s x" if "live s b = Some n" "unat (x - b) < n" for b n x
      using malloc_keeps(2)[OF inv m block_byte_owned(1)[OF inv that]] by (simp add: f)
    have "node_list s1 p [p, a]" using p ap M(7) by (simp add: node_list_def f l)
    moreover have "kept {p} s s1"
      unfolding kept_def
    proof (intro conjI allI impI)
      show "map_le (live s) (live s1)" using M(5) by (auto simp: l map_le_def)
      show "\<exists>m t q f. s1 = s\<lparr>mem := m, total_memory_allocated := t, pools := q, fnode_next := f\<rparr>" using M(8) by (auto simp: s1_def)
      show "mem s1 x = mem s x" if "\<not> kernel_byte s x" for x using malloc_keeps(1)[OF inv m that] by (simp add: f)
      show "fnode_next s1 b = fnode_next s b" if "live s b = Some n \<and> b \<notin> {p}" for b n using that M(5) by (auto simp: f)
    qed (use l keep in auto)
    moreover have "\<forall>b n. live s b = Some n \<and> b \<in> set [a] \<longrightarrow> b \<in> set rest" using M(5) by auto
    moreover have "roomy k s1" if "roomy (4123 + k) s" for k
      using malloc_room[of sizeof_FileNode k s] that m z by (auto simp: s1_def frame_simps)
    moreover have "(if fnode_next s p = 0 then
       res_bind (malloc sizeof_FileNode s) (\<lambda>(a, s). Inr (s\<lparr>fnode_next := (fnode_next s)(p := a, a := 0)\<rparr>))
     else Inr s) = Inr s1" using True m by (simp add: s1_def)
    ultimately show ?thesis using keep[OF p(2)] r by (intro disjI2 exI[of _ s1] exI[of _ a] exI[of _ "[]"]) simp
  qed
qed

text \<open>One round of the loop: \<open>n\<close> bytes go into the node \<open>p\<close>.\<close>

lemma write_round:
  assumes inv: "heap_inv s" and nl: "node_list s p (p # q # rest)" and n: "unat n \<le> 4088" and u: "user_bytes s src (unat n)"
  defines "s' \<equiv> s\<lparr>mem := ku_memcpy p src n (mem s)\<rparr>"
  shows "kept {p} s s'" "node_list s' q (q # rest)" "fnode_next s' p = q" "live s' = live s" "p \<notin> set (q # rest)"
    "roomy j s' = roomy j s" "\<And>k. k < unat n \<Longrightarrow> mem s' (p + of_nat k) = mem s (src + of_nat k)"
proof -
  have p: "live s p = Some 4096" "p \<noteq> 0" "fnode_next s p = q" using nl by (auto simp: node_list_def)
  note C = copy_to_node[OF inv p(1) n u]
  have "distinct (p # q # rest)" using nl unfolding node_list_def by (intro chain_distinct) (rule conjunct1)
  then show "p \<notin> set (q # rest)" by simp
  show l: "live s' = live s" "roomy j s' = roomy j s" using C(3,4) by (simp_all add: s'_def)
  show "fnode_next s' p = q" "node_list s' q (q # rest)" using nl p by (simp_all add: s'_def node_list_def C(3))
  have m: "mem s' x = mem s x" if "\<not> unat (x - p) < 4096" for x using that n by (simp add: s'_def C(1))
  show "kept {p} s s'"
    unfolding kept_def
  proof (intro conjI allI impI)
    show "heap_inv s'" "map_le (live s) (live s')" using C(2,3) by (simp_all add: s'_def)
    have "s' = s\<lparr>mem := mem s', total_memory_allocated := total_memory_allocated s, pools := pools s, fnode_next := fnode_next s\<rparr>"
      by (simp add: s'_def)
    then show "\<exists>m t q f. s' = s\<lparr>mem := m, total_memory_allocated := t, pools := q, fnode_next := f\<rparr>" by blast
    show "mem s' x = mem s x" if "\<not> kernel_byte s x" for x using m block_byte_owned(2)[OF inv p(1)] that by blast
    show "fnode_next s' b = fnode_next s b" for b by (simp add: s'_def)
    show "mem s' x = mem s x" if "live s b = Some k \<and> b \<notin> {p}" "unat (x - b) < k" for b k x
      using m blocks_apart[OF inv _ p(1), of b k x] that by blast
  qed
  show "mem s' (p + of_nat k) = mem s (src + of_nat k)" if "k < unat n" for k
  proof -
    have "unat (p + of_nat k - p) = k" using that n by (simp add: unat_of_nat_u64)
    then show ?thesis using that unfolding s'_def C(1) by (simp add: C(1))
  qed
qed

definition stored :: "u64 \<Rightarrow> nat \<Rightarrow> u64 \<Rightarrow> u64 list \<Rightarrow> 'a fs_state_scheme \<Rightarrow> 'a fs_state_scheme \<Rightarrow> bool" where
  "stored src L p ns s s' \<longleftrightarrow> kept (set ns) s s' \<and>
     (\<exists>ns'. node_list s' p ns' \<and> L < 4088 * length ns' \<and> (\<forall>k < L. contents s' ns' k = mem s (src + of_nat k)))"

lemma kept_byte: "kept N s s' \<Longrightarrow> \<not> kernel_byte s x \<Longrightarrow> mem s' x = mem s x"
  by (simp add: kept_def)

lemma stored_Cons:
  assumes nl: "node_list s p (p # rest)" "node_list s1 p (p # q # rest1)" "kept {p} s s1"
    and r: "\<And>b n. live s b = Some n \<Longrightarrow> b \<in> set (q # rest1) \<Longrightarrow> b \<in> set rest"
    and n: "unat n \<le> 4088" "unat n = min L 4088" and u: "user_bytes s src L"
    and s2: "s2 = s1\<lparr>mem := ku_memcpy p src n (mem s1)\<rparr>"
    and st: "stored (src + 4088) (L - 4088) q (q # rest1) s2 s3"
  shows "stored src L p (p # rest) s s3"
proof -
  have inv1: "heap_inv s1" using nl(3) by (simp add: kept_def)
  have kb: "kernel_byte s1 = kernel_byte s" by (rule kept_kernel[OF nl(3)])
  have "user_bytes s1 src (unat n)" using u n(2) by (auto simp: user_bytes_def kb)
  note W = write_round[OF inv1 nl(2) n(1) this, folded s2]
  have k12: "kept {p} s s2" by (rule kept_trans[OF nl(3) W(1)])
  obtain ns' where ns': "node_list s3 q ns'" "L - 4088 < 4088 * length ns'"
    "\<And>k. k < L - 4088 \<Longrightarrow> contents s3 ns' k = mem s2 (src + 4088 + of_nat k)" and k23: "kept (set (q # rest1)) s2 s3"
    using st by (auto simp: stored_def)
  have p: "live s2 p = Some 4096" "p \<noteq> 0" using nl(2) W(4) by (auto simp: node_list_def)
  have pf: "fnode_next s3 p = q" "\<And>x. unat (x - p) < 4096 \<Longrightarrow> mem s3 x = mem s2 x" "live s3 p = Some 4096"
    using k23 p W(3,5) unfolding kept_def by (auto simp: map_le_def dom_def)
  have nl3: "node_list s3 p (p # ns')" using ns'(1) pf p by (simp add: node_list_def)
  have src: "mem s1 (src + of_nat k) = mem s (src + of_nat k)" "mem s2 (src + of_nat k) = mem s (src + of_nat k)" if "k < L" for k
    using kept_byte[OF nl(3)] kept_byte[OF k12] u that by (simp_all add: user_bytes_def)
  have "contents s3 (p # ns') k = mem s (src + of_nat k)" if k: "k < L" for k
  proof (cases "k < 4088")
    case True
    have "unat (p + of_nat k - p) = k" using True by (simp add: unat_of_nat_u64)
    then have "mem s3 (p + of_nat k) = mem s2 (p + of_nat k)" using True by (intro pf(2)) simp
    then show ?thesis using True W(7)[of k] k n(2) src(1) by (simp add: contents_def)
  next
    case False
    have "k div 4088 = Suc ((k - 4088) div 4088)" "k mod 4088 = (k - 4088) mod 4088"
      using False by (simp_all add: le_div_geq le_mod_geq)
    then have "contents s3 (p # ns') k = contents s3 ns' (k - 4088)" by (simp add: contents_def)
    also have "\<dots> = mem s2 (src + 4088 + of_nat (k - 4088))" using False k by (intro ns'(3)) simp
    also have "src + 4088 + of_nat (k - 4088) = src + of_nat k" using False by (simp add: of_nat_diff)
    finally show ?thesis using src(2)[OF k] by simp
  qed
  moreover have "kept (set (p # rest)) s s2" using k12 unfolding kept_def by auto
  then have "kept (set (p # rest)) s s3" by (rule kept_trans[OF _ k23]) (use r in auto)
  moreover have "L < 4088 * length (p # ns')" using ns'(2) by simp
  ultimately show ?thesis using nl3 unfolding stored_def by blast
qed

lemma write_loop_end:
  assumes "heap_inv s" "node_list s p ns" "p \<noteq> 0" "\<not> i < len"
  shows "\<exists>s'. tempfs_write_loop fuel i len left p data s = Inr s' \<and> stored (data + i) (unat len - unat i) p ns s s' \<and> s' = s"
proof -
  have "tempfs_write_loop fuel i len left p data s = Inr s" "unat len - unat i = 0"
    using assms(4) by (simp_all add: tempfs_write_loop.simps word_less_nat_alt)
  moreover have "ns \<noteq> []" using assms(2,3) by (auto simp: node_list_def)
  then have "stored (data + i) 0 p ns s s"
    using kept_refl[OF assms(1)] assms(2) unfolding stored_def by auto
  ultimately show ?thesis by simp
qed

lemma write_loop_stored:
  assumes "heap_inv s" "node_list s p ns" "p \<noteq> 0" "unat len < 2 ^ 62" "unat i < 2 ^ 62 + 4088" "left = len - i"
    "user_bytes s (data + i) (unat len - unat i)" "unat len - unat i \<le> 4088 * fuel"
  shows "tempfs_write_loop fuel i len left p data s = Inl Halted \<and> \<not> roomy (write_room (unat len - unat i) (length ns)) s \<or>
    (\<exists>s'. tempfs_write_loop fuel i len left p data s = Inr s' \<and> stored (data + i) (unat len - unat i) p ns s s' \<and>
       (\<forall>k. roomy (write_room (unat len - unat i) (length ns) + k) s \<longrightarrow> roomy k s'))"
  using assms
proof (induction fuel arbitrary: i left p ns s)
  case 0
  then have "\<not> i < len" by (simp add: word_less_nat_alt)
  then show ?case using write_loop_end[OF 0(1-3)] roomy_mono by (meson le_add2)
next
  case (Suc fuel)
  obtain rest where ns: "ns = p # rest" using Suc.prems(2,3) by (cases ns) (auto simp: node_list_def)
  show ?case
  proof (cases "i < len")
    case False
    then show ?thesis using write_loop_end[OF Suc.prems(1-3)] roomy_mono by (meson le_add2)
  next
    case True
    define L where "L = unat len - unat i"
    define n where "n = (if left > FILENODE_DATA_SIZE then FILENODE_DATA_SIZE else left)"
    have left: "unat left = L" "0 < L" "L < 2 ^ 62"
      using True Suc.prems(4,6) by (auto simp: L_def word_less_nat_alt unat_sub word_le_nat_alt)
    have n: "unat n = min L 4088" using left(1) by (auto simp: n_def FILENODE_DATA_SIZE_def word_less_nat_alt)
    have nl: "node_list s p (p # rest)" using Suc.prems(2) ns by simp
    have u: "user_bytes s (data + i) L" using Suc.prems(7) by (simp add: L_def)
    let ?prep = "if fnode_next s p = 0 then
       res_bind (malloc sizeof_FileNode s) (\<lambda>(a, s). Inr (s\<lparr>fnode_next := (fnode_next s)(p := a, a := 0)\<rparr>)) else Inr s"
    have step: "tempfs_write_loop (Suc fuel) i len left p data s =
        res_bind ?prep (\<lambda>s. let s = s\<lparr>mem := ku_memcpy p (data + i) n (mem s)\<rparr> in
          tempfs_write_loop fuel (i + 4088) len (left - 4088) (fnode_next s p) data s)"
      using True Suc.prems(3) by (subst tempfs_write_loop.simps) (simp add: n_def FILENODE_DATA_SIZE_def Let_def)
    from write_prepare[OF Suc.prems(1) nl] show ?thesis
    proof (elim disjE exE conjE)
      assume h: "?prep = Inl Halted" "rest = []" "\<not> roomy 4123 s"
      have "4123 \<le> write_room L (length ns)" using write_room_step[OF left(2), of 0] by (simp add: ns h(2))
      then have "\<not> roomy (write_room L (length ns)) s" using h(3) roomy_mono by blast
      then show ?thesis using h(1) unfolding step L_def by simp
    next
      fix s1 q rest1
      assume pr: "?prep = Inr s1" and nl1: "node_list s1 p (p # q # rest1)" and k: "kept {p} s s1"
        and r: "\<forall>b n. live s b = Some n \<and> b \<in> set (q # rest1) \<longrightarrow> b \<in> set rest"
        and rm: "length rest1 = length rest - 1" "\<forall>k. roomy ((if rest = [] then 4123 else 0) + k) s \<longrightarrow> roomy k s1"
      define s2 where "s2 = s1\<lparr>mem := ku_memcpy p (data + i) n (mem s1)\<rparr>"
      have inv1: "heap_inv s1" using k by (simp add: kept_def)
      have u1: "user_bytes s1 (data + i) (unat n)" using u n by (auto simp: user_bytes_def kept_kernel[OF k])
      have n4: "unat n \<le> 4088" using n by simp
      note W = write_round[OF inv1 nl1 n4 u1, folded s2_def]
      have i': "unat (i + 4088) = unat i + 4088"
        using Suc.prems(4) True by (subst unat_add_u64) (simp_all add: word_less_nat_alt)
      have L': "unat len - unat (i + 4088) = L - 4088" by (simp add: i' L_def)
      let ?w = "write_room (unat len - unat (i + 4088)) (length (q # rest1))"
      have "tempfs_write_loop fuel (i + 4088) len (left - 4088) q data s2 = Inl Halted \<and> \<not> roomy ?w s2 \<or>
        (\<exists>s'. tempfs_write_loop fuel (i + 4088) len (left - 4088) q data s2 = Inr s' \<and>
          stored (data + (i + 4088)) (unat len - unat (i + 4088)) q (q # rest1) s2 s' \<and>
          (\<forall>k. roomy (?w + k) s2 \<longrightarrow> roomy k s'))"
      proof (rule Suc.IH)
        show "heap_inv s2" "node_list s2 q (q # rest1)" using W(1,2) by (simp_all add: kept_def)
        show "q \<noteq> 0" using nl1 by (simp add: node_list_def)
        show "unat (i + 4088) < 2 ^ 62 + 4088" using True Suc.prems(4) unfolding i' by (simp add: word_less_nat_alt)
        show "left - 4088 = len - (i + 4088)" using Suc.prems(6) by simp
        have "user_bytes s2 (data + i) L" using u by (simp add: user_bytes_def kept_kernel[OF k] kept_kernel[OF W(1)])
        then show "user_bytes s2 (data + (i + 4088)) (unat len - unat (i + 4088))"
          unfolding L' user_bytes_def
        proof (intro allI impI)
          fix j assume a: "\<forall>k<L. \<not> kernel_byte s2 (data + i + word_of_nat k)" and j: "j < L - 4088"
          then have "\<not> kernel_byte s2 (data + i + of_nat (4088 + j))" by (intro a[rule_format]) linarith
          then show "\<not> kernel_byte s2 (data + (i + 4088) + of_nat j)" by (simp add: add.assoc)
        qed
        show "unat len - unat (i + 4088) \<le> 4088 * fuel" using Suc.prems(8) by (simp add: i')
      qed (use Suc.prems in simp)
      moreover have "tempfs_write_loop (Suc fuel) i len left p data s = tempfs_write_loop fuel (i + 4088) len (left - 4088) q data s2"
        unfolding step pr using W(3) by (simp add: Let_def s2_def)
      moreover have "stored (data + i) L p ns s s'" if "stored (data + (i + 4088)) (L - 4088) q (q # rest1) s2 s'" for s'
        unfolding ns by (rule stored_Cons[OF nl nl1 k _ n4 n u s2_def]) (use r that in \<open>auto simp: add.assoc\<close>)
      moreover have w: "roomy (?w + k) s2" if "roomy (write_room L (length ns) + k) s" for k
      proof -
        have "write_room L (length ns) = (if rest = [] then 4123 else 0) + ?w"
          using write_room_step[OF left(2), of "length rest"] by (simp add: ns rm(1) L')
        then show ?thesis using that rm(2) by (simp add: W(6) add.assoc)
      qed
      ultimately show ?thesis unfolding L' L_def[symmetric] using w[unfolded L'] w[of 0, unfolded L'] by fastforce
    qed
  qed
qed

section \<open>Reading\<close>

definition nodes_kernel :: "'a fs_state_scheme \<Rightarrow> u64 list \<Rightarrow> bool" where
  "nodes_kernel s ns \<longleftrightarrow> (\<forall>n \<in> set ns. \<forall>x. unat (x - n) < 4096 \<longrightarrow> kernel_byte s x)"

lemma node_list_kernel: "heap_inv s \<Longrightarrow> node_list s p ns \<Longrightarrow> nodes_kernel s ns"
  unfolding nodes_kernel_def node_list_def using block_byte_owned(2) by blast

lemma user_bytes_apart:
  assumes "user_bytes s a M" "kernel_byte s x"
  shows "M \<le> unat (x - a)"
proof (rule ccontr)
  assume "\<not> M \<le> unat (x - a)"
  then have "\<not> kernel_byte s (a + of_nat (unat (x - a)))" by (intro assms(1)[unfolded user_bytes_def, rule_format]) simp
  then show False using assms(2) by simp
qed

text \<open>The file from its node \<open>p\<close> on, copied to the bytes from \<open>d\<close> to \<open>M\<close> of the buffer.\<close>

definition read_into :: "u64 \<Rightarrow> nat \<Rightarrow> nat \<Rightarrow> u64 list \<Rightarrow> 'a fs_state_scheme \<Rightarrow> memory" where
  "read_into buffer d M ns s = (\<lambda>x. if d \<le> unat (x - buffer) \<and> unat (x - buffer) < M
     then contents s ns (unat (x - buffer) - d) else mem s x)"

lemma contents_cong:
  assumes "nodes_kernel s ns" "\<And>x. kernel_byte s x \<Longrightarrow> mem s' x = mem s x" "k < 4088 * length ns"
  shows "contents s' ns k = contents s ns k"
proof -
  have "k div 4088 < length ns" using assms(3) by (simp add: less_mult_imp_div_less mult.commute)
  moreover have "unat (ns ! (k div 4088) + of_nat (k mod 4088) - ns ! (k div 4088)) < 4096"
    using mod_less_divisor[of 4088 k] by (simp add: unat_of_nat_u64)
  ultimately have "kernel_byte s (ns ! (k div 4088) + of_nat (k mod 4088))"
    using assms(1) nth_mem unfolding nodes_kernel_def by blast
  then show ?thesis using assms(2) by (simp add: contents_def)
qed

lemma read_round:
  assumes k: "nodes_kernel s (p # ns)" and u: "user_bytes s buffer M" and M: "M < 2 ^ 62" "unat i < M" "M - unat i \<le> 4088 * Suc (length ns)"
    and n: "unat n = min (M - unat i) 4088"
  defines "s' \<equiv> s\<lparr>mem := ku_memcpy (buffer + i) p n (mem s)\<rparr>"
  shows "read_into buffer (unat i + 4088) M ns s' = read_into buffer (unat i) M (p # ns) s" "kernel_byte s' = kernel_byte s"
proof -
  show kb: "kernel_byte s' = kernel_byte s" by (rule kernel_byte_cong) (simp_all add: s'_def)
  have "M \<le> unat (p + of_nat j - buffer)" if "j < unat n" for j
  proof (rule user_bytes_apart[OF u])
    have "unat (p + of_nat j - p) = j" using that n by (simp add: unat_of_nat_u64)
    then show "kernel_byte s (p + of_nat j)" using k that n by (auto simp: nodes_kernel_def)
  qed
  then have m: "mem s' = (\<lambda>x. if unat i \<le> unat (x - buffer) \<and> unat (x - buffer) < unat i + unat n
       then mem s (p + of_nat (unat (x - buffer) - unat i)) else mem s x)"
    using memcpy_into_block[of "unat i" n M p buffer "mem s"] n M by (simp add: s'_def)
  have keep: "mem s' x = mem s x" if "kernel_byte s x" for x
    using user_bytes_apart[OF u that] n by (auto simp: m)
  have kn: "nodes_kernel s ns" using k by (simp add: nodes_kernel_def)
  show "read_into buffer (unat i + 4088) M ns s' = read_into buffer (unat i) M (p # ns) s"
  proof
    fix x
    define y where "y = unat (x - buffer)"
    show "read_into buffer (unat i + 4088) M ns s' x = read_into buffer (unat i) M (p # ns) s x"
    proof (cases "unat i + 4088 \<le> y \<and> y < M")
      case True
      define j where "j = y - unat i"
      have j: "4088 \<le> j" "j - 4088 < 4088 * length ns" "y - (unat i + 4088) = j - 4088" using True M(3) by (auto simp: j_def)
      have "contents s' ns (j - 4088) = contents s ns (j - 4088)" by (rule contents_cong[OF kn keep j(2)])
      also have "\<dots> = contents s (p # ns) j"
        using j(1) by (simp add: contents_def le_div_geq le_mod_geq)
      finally have "contents s' ns (y - (unat i + 4088)) = contents s (p # ns) (y - unat i)" unfolding j(3) j_def .
      moreover have "unat i \<le> y \<and> y < M" using True by linarith
      ultimately show ?thesis using True unfolding read_into_def y_def[symmetric] by (simp only: if_True simp_thms)
    next
      case False
      have r: "read_into buffer (unat i + 4088) M ns s' x = mem s' x" using False by (simp only: read_into_def y_def if_False)
      show ?thesis
      proof (cases "unat i \<le> y \<and> y < M")
        case True
        then have "y - unat i < 4088" "y < unat i + unat n" using False n by auto
        then show ?thesis using True unfolding r unfolding m read_into_def y_def[symmetric] by (simp add: contents_def del: of_nat_diff)
      next
        case F: False
        then have "\<not> (unat i \<le> y \<and> y < unat i + unat n)" using n by auto
        then show ?thesis using F unfolding r unfolding m read_into_def y_def[symmetric] by (simp only: if_False)
      qed
    qed
  qed
qed

lemma read_loop_copies:
  assumes "chain (fnode_next s) p ns" "nodes_kernel s ns" "user_bytes s buffer (unat len)" "unat len < 2 ^ 62" "unat i < 2 ^ 62 + 4088"
    "left = len - i" "unat len - unat i \<le> 4088 * length ns" "length ns \<le> fuel"
  shows "tempfs_read_loop fuel i len left p buffer s = Inr (s\<lparr>mem := read_into buffer (unat i) (unat len) ns s\<rparr>)"
  using assms
proof (induction ns arbitrary: fuel i left p s)
  case Nil
  then have "\<not> i < len" by (simp add: word_less_nat_alt)
  moreover have "read_into buffer (unat i) (unat len) [] s = mem s" using Nil(7) by (auto simp: read_into_def fun_eq_iff)
  ultimately show ?case by (subst tempfs_read_loop.simps) simp
next
  case (Cons q ns)
  have p: "p = q" "p \<noteq> 0" "chain (fnode_next s) (fnode_next s p) ns" using Cons.prems(1) by auto
  obtain fuel' where f: "fuel = Suc fuel'" "length ns \<le> fuel'" using Cons.prems(8) by (cases fuel) auto
  show ?case
  proof (cases "i < len")
    case False
    then have "read_into buffer (unat i) (unat len) (q # ns) s = mem s" by (auto simp: read_into_def fun_eq_iff word_less_nat_alt)
    then show ?thesis using False by (subst tempfs_read_loop.simps) simp
  next
    case True
    define n where "n = (if left > FILENODE_DATA_SIZE then FILENODE_DATA_SIZE else left)"
    have i: "unat i < unat len" "unat left = unat len - unat i"
      using True Cons.prems(6) by (simp_all add: word_less_nat_alt unat_sub word_le_nat_alt)
    have n: "unat n = min (unat len - unat i) 4088" using i(2) by (auto simp: n_def FILENODE_DATA_SIZE_def word_less_nat_alt)
    have i': "unat (i + 4088) = unat i + 4088" using Cons.prems(4) i(1) by (subst unat_add_u64) simp_all
    let ?s = "s\<lparr>mem := ku_memcpy (buffer + i) p n (mem s)\<rparr>"
    have "unat len - unat i \<le> 4088 * Suc (length ns)" using Cons.prems(7) by simp
    note R = read_round[OF Cons.prems(2)[folded p(1)] Cons.prems(3,4) i(1) this n]
    have "tempfs_read_loop fuel' (i + 4088) len (left - 4088) (fnode_next s p) buffer ?s =
        Inr (?s\<lparr>mem := read_into buffer (unat (i + 4088)) (unat len) ns ?s\<rparr>)"
    proof (rule Cons.IH)
      show "nodes_kernel ?s ns" using Cons.prems(2) by (simp add: nodes_kernel_def R(2))
      show "user_bytes ?s buffer (unat len)" using Cons.prems(3) by (simp add: user_bytes_def R(2))
    qed (use p f Cons.prems i in \<open>simp_all add: i'\<close>)
    moreover have "tempfs_read_loop fuel i len left p buffer s =
        tempfs_read_loop fuel' (i + 4088) len (left - 4088) (fnode_next s p) buffer ?s"
      using True p(2) f(1) by (subst tempfs_read_loop.simps) (simp add: n_def FILENODE_DATA_SIZE_def Let_def)
    ultimately show ?thesis using R(1) by (simp add: i' p(1))
  qed
qed

section \<open>Files\<close>

text \<open>A file with its nodes; \<open>file_bytes\<close> are the bytes its length says it has.\<close>

definition file_nodes :: "'a fs_state_scheme \<Rightarrow> u64 \<Rightarrow> u64 list \<Rightarrow> bool" where
  "file_nodes s i ns \<longleftrightarrow> i \<noteq> 0 \<and> i_type (inodes s i) \<noteq> FILETYPE_DEVICE \<and> node_list s (i_first (inodes s i)) ns"

definition file_holds :: "'a fs_state_scheme \<Rightarrow> u64 \<Rightarrow> u8 list \<Rightarrow> bool" where
  "file_holds s i bs \<longleftrightarrow> heap_inv s \<and> i_length (inodes s i) = of_nat (length bs) \<and>
     (\<exists>ns. file_nodes s i ns \<and> length bs \<le> 4088 * length ns \<and> (\<forall>k < length bs. contents s ns k = bs ! k))"

definition mem_bytes :: "memory \<Rightarrow> u64 \<Rightarrow> nat \<Rightarrow> u8 list" where
  "mem_bytes m a n = map (\<lambda>k. m (a + of_nat k)) [0..<n]"

text \<open>Blocks that are not in use have no next node: the pages of the heap come zeroed, and the kernel never frees a
  node.\<close>

definition fresh_zero :: "'a fs_state_scheme \<Rightarrow> bool" where
  "fresh_zero s \<longleftrightarrow> (\<forall>a. live s a = None \<longrightarrow> fnode_next s a = 0)"

lemma write_first:
  assumes inv: "heap_inv s" and n: "node_list s p ns" and z: "p = 0 \<Longrightarrow> fresh_zero s" and i: "i_first (inodes s i) = p"
  shows "(if p = 0 then res_bind (malloc sizeof_FileNode s) (\<lambda>(a, s). Inr (upd_inode i (\<lambda>i. i\<lparr>i_first := a\<rparr>) s)) else Inr s) = Inl Halted \<and> p = 0 \<and> \<not> roomy 4123 s \<or>
    (\<exists>s1 q t. (if p = 0 then res_bind (malloc sizeof_FileNode s) (\<lambda>(a, s). Inr (upd_inode i (\<lambda>i. i\<lparr>i_first := a\<rparr>) s)) else Inr s) = Inr s1 \<and>
      s1 = t\<lparr>inodes := (inodes s)(i := (inodes s i)\<lparr>i_first := q\<rparr>)\<rparr> \<and> kept {} s t \<and> q \<noteq> 0 \<and>
      node_list s1 q (if p = 0 then [q] else ns) \<and> (p = 0 \<longrightarrow> live s q = None) \<and>
      (\<forall>k. roomy ((if p = 0 then 4123 else 0) + k) s \<longrightarrow> roomy k s1))"
proof (cases "p = 0")
  case False
  have "s = s\<lparr>inodes := (inodes s)(i := (inodes s i)\<lparr>i_first := p\<rparr>)\<rparr>" using i by (cases "inodes s i") (auto simp: fun_upd_idem)
  then show ?thesis using False n kept_refl[OF inv, of "{}"]
    by (intro disjI2 exI[of _ s] exI[of _ p]) simp
next
  case True
  have z2: "unat sizeof_FileNode = 4096" "unat sizeof_FileNode < 2 ^ 62" by (simp_all add: sizeof_FileNode_def)
  show ?thesis
  proof (cases "malloc sizeof_FileNode s")
    case (Inl e)
    then have "e = Halted" by (rule kheap.alloc_error[OF inv z2(2)])
    moreover have "\<not> roomy 4123 s" using malloc_room[of sizeof_FileNode 0 s] Inl z2 by auto
    ultimately show ?thesis using Inl True by simp
  next
    case (Inr r)
    then obtain a t where m: "malloc sizeof_FileNode s = Inr (a, t)" by (cases r) auto
    note M = malloc_fs[OF inv z2(2) m]
    have next0: "fnode_next t a = 0" using z[OF True] M(3,5) by (simp add: fresh_zero_def)
    have "kept {} s t"
      unfolding kept_def
    proof (intro conjI allI impI)
      show "map_le (live s) (live t)" using M(5,6) by (auto simp: map_le_def)
      obtain m u q where "t = s\<lparr>mem := m, total_memory_allocated := u, pools := q\<rparr>" using M(8) by blast
      then have "t = s\<lparr>mem := m, total_memory_allocated := u, pools := q, fnode_next := fnode_next s\<rparr>" by simp
      then show "\<exists>m u q f. t = s\<lparr>mem := m, total_memory_allocated := u, pools := q, fnode_next := f\<rparr>" by blast
      show "mem t x = mem s x" if "\<not> kernel_byte s x" for x by (rule malloc_keeps(1)[OF inv m that])
      show "mem t x = mem s x" if "live s b = Some n \<and> b \<notin> {}" "unat (x - b) < n" for b n x
        using malloc_keeps(2)[OF inv m block_byte_owned(1)[OF inv _ that(2)]] that by simp
    qed (use M in auto)
    moreover have "node_list (upd_inode i (\<lambda>i. i\<lparr>i_first := a\<rparr>) t) a [a]"
      using M(6,7) z2 next0 by (simp add: node_list_def upd_inode_def frame_simps)
    moreover have "upd_inode i (\<lambda>i. i\<lparr>i_first := a\<rparr>) t = t\<lparr>inodes := (inodes s)(i := (inodes s i)\<lparr>i_first := a\<rparr>)\<rparr>"
      by (simp add: upd_inode_def M(1))
    moreover have "roomy k (upd_inode i (\<lambda>i. i\<lparr>i_first := a\<rparr>) t)" if "roomy (4123 + k) s" for k
      using malloc_room[of sizeof_FileNode k s] that m z2 by (auto simp: upd_inode_def frame_simps)
    ultimately show ?thesis using True m M(5,7) by (intro disjI2 exI[of _ "upd_inode i (\<lambda>i. i\<lparr>i_first := a\<rparr>) t"] exI[of _ a] exI[of _ t]) simp
  qed
qed

lemma kernel_byte_upd [frame_simps]: "kernel_byte (s\<lparr>inodes := x\<rparr>) = kernel_byte s"
  by (rule kernel_byte_cong) simp_all

text \<open>What a write leaves behind: the bytes in the nodes of the file, which are nodes it had or fresh ones.\<close>

definition written :: "u64 \<Rightarrow> u64 \<Rightarrow> u64 \<Rightarrow> u64 list \<Rightarrow> 'a fs_state_scheme \<Rightarrow> 'a fs_state_scheme \<Rightarrow> bool" where
  "written i data len ns s s' \<longleftrightarrow> heap_inv s' \<and>
     (\<exists>ns'. node_list s' (i_first (inodes s' i)) ns' \<and> unat len < 4088 * length ns' \<and>
        (\<forall>k < unat len. contents s' ns' k = mem s (data + of_nat k))) \<and>
     (\<exists>m t q f p. s' = s\<lparr>mem := m, total_memory_allocated := t, pools := q, fnode_next := f,
        inodes := (inodes s)(i := (inodes s i)\<lparr>i_length := len, i_first := p\<rparr>)\<rparr>) \<and>
     (\<forall>x. \<not> kernel_byte s x \<longrightarrow> mem s' x = mem s x) \<and>
     (\<forall>b n. live s b = Some n \<and> b \<notin> set ns \<longrightarrow> live s' b = Some n \<and> fnode_next s' b = fnode_next s b \<and>
        (\<forall>x. unat (x - b) < n \<longrightarrow> mem s' x = mem s x))"

lemma stored_written:
  assumes u: "user_bytes s data (unat len)" and s0: "s0 = upd_inode i (\<lambda>i. i\<lparr>i_length := len\<rparr>) s" and k: "kept {} s0 t"
    and s1: "s1 = t\<lparr>inodes := (inodes s0)(i := (inodes s0 i)\<lparr>i_first := q\<rparr>)\<rparr>"
    and ns1: "\<And>b n. live s b = Some n \<Longrightarrow> b \<in> set ns1 \<Longrightarrow> b \<in> set ns" and st: "stored data (unat len) q ns1 s1 s'"
  shows "written i data len ns s s'"
proof -
  have fr: "live s0 = live s" "fnode_next s0 = fnode_next s" "mem s0 = mem s" "kernel_byte s0 = kernel_byte s"
    by (simp_all add: s0 upd_inode_def frame_simps)
  have e: "live s1 = live t" "fnode_next s1 = fnode_next t" "mem s1 = mem t" "kernel_byte s1 = kernel_byte s"
    using kept_kernel[OF k] by (simp_all add: s1 frame_simps fr)
  have k': "kept (set ns1) s1 s'" using st by (simp add: stored_def)
  obtain ns' where ns': "node_list s' q ns'" "unat len < 4088 * length ns'" "\<forall>k < unat len. contents s' ns' k = mem s1 (data + of_nat k)"
    using st by (auto simp: stored_def)
  obtain m1 t1 q1 f1 where t: "t = s0\<lparr>mem := m1, total_memory_allocated := t1, pools := q1, fnode_next := f1\<rparr>"
    using k unfolding kept_def by (elim conjE exE) (rule that)
  obtain m2 t2 q2 f2 where s': "s' = s1\<lparr>mem := m2, total_memory_allocated := t2, pools := q2, fnode_next := f2\<rparr>"
    using k' unfolding kept_def by (elim conjE exE) (rule that)
  have ino: "inodes s' = (inodes s)(i := (inodes s i)\<lparr>i_length := len, i_first := q\<rparr>)"
    by (simp add: s' s1 s0 upd_inode_def)
  have "s' = s\<lparr>mem := m2, total_memory_allocated := t2, pools := q2, fnode_next := f2,
      inodes := (inodes s)(i := (inodes s i)\<lparr>i_length := len, i_first := q\<rparr>)\<rparr>"
    by (simp add: s' s1 t s0 upd_inode_def)
  moreover have um: "mem s' x = mem s x" if "\<not> kernel_byte s x" for x
    using kept_byte[OF k'] kept_byte[OF k] that by (simp add: e fr)
  moreover have "\<forall>k < unat len. contents s' ns' k = mem s (data + of_nat k)"
    using ns'(3) u kept_byte[OF k] by (simp add: user_bytes_def e fr)
  moreover have "live s' b = Some n \<and> fnode_next s' b = fnode_next s b \<and> (\<forall>x. unat (x - b) < n \<longrightarrow> mem s' x = mem s x)"
    if b: "live s b = Some n" "b \<notin> set ns" for b n
  proof -
    have nb: "b \<notin> set ns1" using b ns1 by blast
    have l: "live t b = Some n" using k b(1) by (auto simp: kept_def fr map_le_def dom_def)
    then have "live s' b = Some n" using k' by (auto simp: kept_def e map_le_def dom_def)
    moreover have "fnode_next s' b = fnode_next t b" "\<forall>x. unat (x - b) < n \<longrightarrow> mem s' x = mem t x"
      using k' nb l unfolding kept_def e by blast+
    moreover have "fnode_next t b = fnode_next s b" "\<forall>x. unat (x - b) < n \<longrightarrow> mem t x = mem s x"
      using k b(1) unfolding kept_def fr by simp_all
    ultimately show ?thesis by simp
  qed
  moreover have "heap_inv s'" using k' by (simp add: kept_def)
  moreover have "node_list s' (i_first (inodes s' i)) ns'" using ns'(1) by (simp add: ino)
  ultimately show ?thesis using ns'(2) unfolding written_def by (intro conjI allI impI exI) (assumption | blast)+
qed

lemma tempfs_write_written:
  assumes inv: "heap_inv s" and f: "file_nodes s i ns" and z: "ns = [] \<Longrightarrow> fresh_zero s"
    and len: "unat len < 2 ^ 62" and u: "user_bytes s data (unat len)"
  shows "tempfs_write D i data len s = Inl Halted \<and> \<not> roomy (write_room (unat len) (length ns)) s \<or>
    (\<exists>s'. tempfs_write D i data len s = Inr (0, s') \<and> written i data len ns s s' \<and>
       (\<forall>k. roomy (write_room (unat len) (length ns) + k) s \<longrightarrow> roomy k s'))"
proof -
  define p where "p = i_first (inodes s i)"
  define s0 where "s0 = upd_inode i (\<lambda>i. i\<lparr>i_length := len\<rparr>) s"
  have i: "i \<noteq> 0" "i_type (inodes s i) \<noteq> FILETYPE_DEVICE" "node_list s p ns" using f by (auto simp: file_nodes_def p_def)
  have fr: "heap_inv s0" "live s0 = live s" "fnode_next s0 = fnode_next s" "mem s0 = mem s" "kernel_byte s0 = kernel_byte s"
    "i_first (inodes s0 i) = p" using inv by (simp_all add: s0_def upd_inode_def frame_simps p_def)
  have n0: "node_list s0 p ns" using i(3) by (simp add: node_list_def fr)
  have z0: "fresh_zero s0" if "p = 0" using z i(3) that by (simp add: fresh_zero_def fr node_list_def)
  let ?first = "if p = 0 then res_bind (malloc sizeof_FileNode s0) (\<lambda>(a, s). Inr (upd_inode i (\<lambda>i. i\<lparr>i_first := a\<rparr>) s)) else Inr s0"
  have w: "tempfs_write D i data len s =
      res_bind ?first (\<lambda>s. res_bind (tempfs_write_loop walk_fuel 0 len len (i_first (inodes s i)) data s) (\<lambda>s. Inr (0, s)))"
    using i fr(6) by (simp add: tempfs_write_def get_inode_def s0_def[symmetric] Let_def)
  have r0: "roomy k s0 = roomy k s" for k by (simp add: s0_def upd_inode_def frame_simps)
  let ?ns = "\<lambda>q. if p = 0 then [q] else ns"
  have pm: "ns = [] \<longleftrightarrow> p = 0" using i(3) by (cases ns) (auto simp: node_list_def)
  have wr: "write_room (unat len) (length ns) = (if p = 0 then 4123 else 0) + write_room (unat len) (length (?ns q))" for q
    using pm by (auto simp: write_room_def)
  have "?first = Inl Halted \<and> p = 0 \<and> \<not> roomy 4123 s0 \<or>
    (\<exists>s1 q t. ?first = Inr s1 \<and> s1 = t\<lparr>inodes := (inodes s0)(i := (inodes s0 i)\<lparr>i_first := q\<rparr>)\<rparr> \<and> kept {} s0 t \<and> q \<noteq> 0 \<and>
      node_list s1 q (if p = 0 then [q] else ns) \<and> (p = 0 \<longrightarrow> live s0 q = None) \<and>
      (\<forall>k. roomy ((if p = 0 then 4123 else 0) + k) s0 \<longrightarrow> roomy k s1))" using write_first[OF fr(1) n0 _ fr(6)] z0 by blast
  then show ?thesis
  proof (elim disjE exE conjE)
    assume h: "?first = Inl Halted" "p = 0" "\<not> roomy 4123 s0"
    then have "\<not> roomy (write_room (unat len) (length ns)) s" using roomy_mono[of "write_room (unat len) (length ns)" s 4123] wr[of 0] by (simp add: r0) blast
    then show ?thesis using h(1) unfolding w by simp
  next
    fix s1 q t
    assume s1: "?first = Inr s1" "s1 = t\<lparr>inodes := (inodes s0)(i := (inodes s0 i)\<lparr>i_first := q\<rparr>)\<rparr>" and k: "kept {} s0 t"
      and q: "q \<noteq> 0" "node_list s1 q (if p = 0 then [q] else ns)" "p = 0 \<longrightarrow> live s0 q = None"
      and rm: "\<forall>k. roomy ((if p = 0 then 4123 else 0) + k) s0 \<longrightarrow> roomy k s1"
    let ?m = "write_room (unat len) (length (?ns q))"
    have e: "heap_inv s1" "live s1 = live t" "fnode_next s1 = fnode_next t" "mem s1 = mem t" "kernel_byte s1 = kernel_byte s"
      using k kept_kernel[OF k] by (simp_all add: s1(2) frame_simps kept_def fr(5))
    have u1: "user_bytes s1 (data + 0) (unat len - unat (0 :: u64))" using u by (simp add: user_bytes_def e)
    have "tempfs_write D i data len s = res_bind (tempfs_write_loop walk_fuel 0 len len q data s1) (\<lambda>s. Inr (0, s))"
      unfolding w s1(1) by (simp add: s1(2))
    moreover have "unat len - unat (0 :: u64) \<le> 4088 * walk_fuel" using len by (simp add: walk_fuel_def)
    from write_loop_stored[OF e(1) q(2,1) len _ _ u1 this, of len]
    have "tempfs_write_loop walk_fuel 0 len len q data s1 = Inl Halted \<and> \<not> roomy ?m s1 \<or>
      (\<exists>s'. tempfs_write_loop walk_fuel 0 len len q data s1 = Inr s' \<and> stored data (unat len) q (?ns q) s1 s' \<and>
         (\<forall>k. roomy (?m + k) s1 \<longrightarrow> roomy k s'))"
      by (simp only: add_0_right unsigned_0 diff_zero diff_0_right split: if_split)
    moreover have "roomy (?m + k) s1" if "roomy (write_room (unat len) (length ns) + k) s" for k
      using rm[rule_format, of "?m + k"] that wr[of q] by (simp only: r0 add.assoc)
    note this this[of 0]
    moreover have "written i data len ns s s'" if "stored data (unat len) q (?ns q) s1 s'" for s'
      by (rule stored_written[OF u s0_def k s1(2) _ that]) (use q(3) fr(2) in \<open>auto split: if_splits\<close>)
    ultimately show ?thesis by fastforce
  qed
qed

lemma written_others:
  assumes w: "written i data len ns s s'" and j: "file_nodes s j ms" "j \<noteq> i" "set ms \<inter> set ns = {}"
  shows "inodes s' j = inodes s j \<and> file_nodes s' j ms \<and> (\<forall>k < 4088 * length ms. contents s' ms k = contents s ms k)"
proof -
  have ino: "inodes s' j = inodes s j" using w j(2) unfolding written_def by auto
  have b: "live s' b = Some 4096" "fnode_next s' b = fnode_next s b" "\<And>x. unat (x - b) < 4096 \<Longrightarrow> mem s' x = mem s x"
    if "b \<in> set ms" for b
  proof -
    have "live s b = Some 4096" "b \<notin> set ns" using j(1,3) that by (auto simp: file_nodes_def node_list_def)
    then show "live s' b = Some 4096" "fnode_next s' b = fnode_next s b" "\<And>x. unat (x - b) < 4096 \<Longrightarrow> mem s' x = mem s x"
      using w unfolding written_def by blast+
  qed
  have "chain (fnode_next s') (i_first (inodes s j)) ms = chain (fnode_next s) (i_first (inodes s j)) ms"
    by (rule chain_cong) (rule b(2))
  then have "file_nodes s' j ms" using j(1) b(1) by (simp add: file_nodes_def node_list_def ino)
  moreover have "contents s' ms k = contents s ms k" if "k < 4088 * length ms" for k
  proof -
    have "k div 4088 < length ms" using that by (simp add: less_mult_imp_div_less mult.commute)
    moreover have "unat (ms ! (k div 4088) + of_nat (k mod 4088) - ms ! (k div 4088)) < 4096"
      using mod_less_divisor[of 4088 k] by (simp add: unat_of_nat_u64)
    ultimately show ?thesis unfolding contents_def using b(3) nth_mem by blast
  qed
  ultimately show ?thesis using ino by blast
qed

lemma tempfs_read_file:
  assumes inv: "heap_inv s" and f: "file_nodes s i ns" and n: "unat n \<le> 4088 * length ns" "unat n < 2 ^ 62" and u: "user_bytes s buffer (unat n)"
  shows "tempfs_read D i buffer n s = Inr (0, s\<lparr>mem := read_into buffer 0 (unat n) ns s\<rparr>)"
proof -
  have c: "chain (fnode_next s) (i_first (inodes s i)) ns" "nodes_kernel s ns"
    using f node_list_kernel[OF inv] by (auto simp: file_nodes_def node_list_def)
  have "length ns \<le> walk_fuel" using chain_length[OF c(1)] by (simp add: walk_fuel_def)
  from read_loop_copies[OF c u n(2) _ _ _ this, of 0 n] n(1)
  show ?thesis using f by (simp add: tempfs_read_def get_inode_def file_nodes_def)
qed

lemma mem_bytes_read:
  assumes "n < 2 ^ 64"
  shows "mem_bytes (read_into buffer 0 n ns s) buffer n = map (contents s ns) [0..<n]"
  using assms by (auto simp: mem_bytes_def read_into_def unat_of_nat_u64)

lemma written_reads:
  assumes w: "written i data len ns s s'" and f0: "file_nodes s i ns" and len: "unat len < 2 ^ 62"
    and n: "n \<le> len" "user_bytes s buffer (unat n)"
  shows "\<exists>m. tempfs_read D i buffer n s' = Inr (0, s'\<lparr>mem := m\<rparr>) \<and>
          mem_bytes m buffer (unat n) = mem_bytes (mem s) data (unat n) \<and> (\<forall>x. n \<le> x - buffer \<longrightarrow> m x = mem s' x)"
proof -
  have n': "unat n \<le> unat len" using n(1) by (simp add: word_le_nat_alt)
  obtain ns' where ns': "node_list s' (i_first (inodes s' i)) ns'" "unat len < 4088 * length ns'"
    "\<And>k. k < unat len \<Longrightarrow> contents s' ns' k = mem s (data + of_nat k)" and inv: "heap_inv s'"
    using w unfolding written_def by blast
  have "kernel_byte s' = kernel_byte s" "i_type (inodes s' i) = i_type (inodes s i)"
    using w unfolding written_def by (auto intro!: kernel_byte_cong)
  then have f: "file_nodes s' i ns'" and u: "user_bytes s' buffer (unat n)"
    using f0 ns'(1) n(2) by (simp_all add: file_nodes_def user_bytes_def)
  have l: "unat n \<le> 4088 * length ns'" "unat n < 2 ^ 62" using n' ns'(2) len by linarith+
  have "mem_bytes (read_into buffer 0 (unat n) ns' s') buffer (unat n) = mem_bytes (mem s) data (unat n)"
    using mem_bytes_read[of "unat n" buffer ns' s'] l(2) ns'(3) n' by (simp add: mem_bytes_def)
  moreover have "read_into buffer 0 (unat n) ns' s' x = mem s' x" if "n \<le> x - buffer" for x
    using that by (simp add: read_into_def word_le_nat_alt)
  ultimately show ?thesis using tempfs_read_file[OF inv f l u, of D] by blast
qed

section \<open>Properties\<close>

text \<open>C20. What is written to a file is what is read back: with room on the heap for the nodes the write adds
  (\<open>write_room\<close>), and a \<open>next\<close> field of zero in the blocks not in use when the file has no node yet (the code
  does not clear it), \<open>tempfs_write\<close> returns and stores the buffer of a program, of less than \<open>2 ^ 62\<close> bytes,
  however many nodes that takes; then the file has that length, reading any number of its bytes into any
  buffer of a program gives them and touches nothing else, and the nodes and bytes of every other file that
  shares no node with it are as before.\<close>

theorem tempfs_write_read:
  assumes "roomy (write_room (unat len) (length ns)) s" and "file_nodes s i ns" and "ns = [] \<longrightarrow> fresh_zero s"
    and "unat len < 2 ^ 62" and "user_bytes s data (unat len)"
  shows "\<exists>s'. tempfs_write D i data len s = Inr (0, s') \<and> tempfs_length i s' = Inr len \<and>
      (\<forall>buffer n. n \<le> len \<and> user_bytes s buffer (unat n) \<longrightarrow>
        (\<exists>m. tempfs_read D i buffer n s' = Inr (0, s'\<lparr>mem := m\<rparr>) \<and>
          mem_bytes m buffer (unat n) = mem_bytes (mem s) data (unat n) \<and> (\<forall>x. n \<le> x - buffer \<longrightarrow> m x = mem s' x))) \<and>
      (\<forall>j ms. file_nodes s j ms \<and> j \<noteq> i \<and> set ms \<inter> set ns = {} \<longrightarrow> inodes s' j = inodes s j \<and> file_nodes s' j ms \<and>
        (\<forall>k < 4088 * length ms. contents s' ms k = contents s ms k))"
proof -
  have inv: "heap_inv s" by (rule roomy_inv[OF assms(1)])
  have z: "ns = [] \<Longrightarrow> fresh_zero s" using assms(3) by blast
  obtain s' where s': "tempfs_write D i data len s = Inr (0, s')" and w: "written i data len ns s s'"
    using tempfs_write_written[OF inv assms(2) z assms(4,5), of D] assms(1) by blast
  have "\<exists>m. tempfs_read D i buffer n s' = Inr (0, s'\<lparr>mem := m\<rparr>) \<and>
          mem_bytes m buffer (unat n) = mem_bytes (mem s) data (unat n) \<and> (\<forall>x. n \<le> x - buffer \<longrightarrow> m x = mem s' x)"
    if "n \<le> len" "user_bytes s buffer (unat n)" for buffer n
    by (rule written_reads[OF w assms(2,4) that])
  moreover have "tempfs_length i s' = Inr len"
    using w assms(2) unfolding written_def by (auto simp: tempfs_length_def get_inode_def file_nodes_def)
  moreover have "inodes s' j = inodes s j \<and> file_nodes s' j ms \<and> (\<forall>k < 4088 * length ms. contents s' ms k = contents s ms k)"
    if j: "file_nodes s j ms" "j \<noteq> i" "set ms \<inter> set ns = {}" for j ms
    by (rule written_others[OF w j])
  ultimately show ?thesis using s' by blast
qed

section \<open>A concrete file\<close>

definition sample_data :: "u64 \<Rightarrow> kheap_state \<Rightarrow> fs_state" where
  "sample_data n s = (sample_fs s)\<lparr>mem := (mem s)(0x400000 := 104, 0x400001 := 105),
     inodes := (\<lambda>_. zero_Inode\<lparr>i_first := n\<rparr>)\<rparr>"

lemma sample_user: "memmap s = sample_memmap \<Longrightarrow> hhdm s = 0xffff800000000000 \<Longrightarrow> a < 0x100000000 \<Longrightarrow> n < 0x1000 \<Longrightarrow> user_bytes s a n"
proof -
  assume m: "memmap s = sample_memmap" "hhdm s = 0xffff800000000000" and a: "a < 0x100000000" "n < 0x1000"
  have "\<not> kernel_byte s (a + of_nat k)" if "k < n" for k
  proof -
    have "unat a < 0x100000000" using a(1) by (simp add: word_less_nat_alt)
    moreover have k: "unat (of_nat k :: u64) = k" "k < 0x1000" using that a(2) by (simp_all add: unat_of_nat_u64)
    ultimately have u: "unat (a + of_nat k) < 0x100001000" by (subst unat_add_u64) simp_all
    have "\<not> a + of_nat k - 0xffff800000100000 < 0x28000"
      using u by (simp add: word_less_nat_alt unat_sub_if' word_le_nat_alt)
    then show ?thesis by (simp add: kernel_byte_def m sample_memmap_def usable_def LIMINE_MEMMAP_USABLE_def in_section_def)
  qed
  then show ?thesis by (simp add: user_bytes_def)
qed

lemma sample_file:
  "\<exists>(s :: fs_state) n. roomy 90000 s \<and> file_nodes s 0x9000 [n] \<and> memmap s = sample_memmap \<and> hhdm s = 0xffff800000000000 \<and>
     mem s 0x400000 = 104 \<and> mem s 0x400001 = 105"
proof -
  obtain s :: kheap_state where s: "roomy 100000 s" "memmap s = sample_memmap" "hhdm s = 0xffff800000000000"
    using large_heap by blast
  have inv: "heap_inv s" by (rule roomy_inv[OF s(1)])
  have "roomy (unat (4096 :: u64) + 27 + 90000) s" using roomy_mono[OF s(1)] by simp
  then obtain n t where m: "malloc 4096 s = Inr (n, t)" "roomy 90000 t" using malloc_room[of 4096 90000 s] by auto
  have t: "live t n = Some 4096" "heap_inv t" using kheap.alloc_ok[OF inv _ m(1)] by simp_all
  have n0: "n \<noteq> 0" by (rule live_nonnull[OF t(2,1)])
  have mm: "memmap t = sample_memmap" "hhdm t = 0xffff800000000000"
    by (rule malloc_frame[OF inv _ m(1)]; use s in simp)+
  let ?d = "sample_data n t"
  let ?u = "(sample_fs t)\<lparr>inodes := (\<lambda>_. zero_Inode\<lparr>i_first := n\<rparr>)\<rparr>"
  have tr: "kheap_state.truncate ?u = kheap_state.truncate t"
    by (simp add: sample_fs_def sample_tasks_defs tasks_state.defs screen_state.defs)
  then have u: "heap_inv ?u" "live ?u = live t" "roomy 90000 ?u" using t(2) m(2) by (simp_all add: heap_cong[OF tr])
  have eq: "memmap ?u = sample_memmap" "hhdm ?u = 0xffff800000000000" "mem ?u = mem t" "fnode_next ?u = (\<lambda>_. 0)"
    using mm by (simp_all add: sample_fs_def sample_tasks_defs tasks_state.defs screen_state.defs)
  have nk: "\<not> kernel_byte ?u 0x400000" "\<not> kernel_byte ?u 0x400001"
    using sample_user[OF eq(1,2), of "0x400000" 1] sample_user[OF eq(1,2), of "0x400001" 1] by (simp_all add: user_bytes_def)
  have d: "?d = ?u\<lparr>mem := (mem ?u)(0x400000 := 104, 0x400001 := 105)\<rparr>" unfolding eq(3) by (simp add: sample_data_def)
  have keep: "((mem ?u)(0x400000 := 104, 0x400001 := 105)) x = mem ?u x" if "kernel_byte ?u x" for x
    using nk that by auto
  have hd: "roomy 90000 ?d" "live ?d = live t" unfolding d
    using heap_mem_user(1,3)[OF u(1) keep] u(2,3) by (simp_all only:)
  have f: "fnode_next ?d = (\<lambda>_. 0)" "memmap ?d = sample_memmap" "hhdm ?d = 0xffff800000000000" "inodes ?d = (\<lambda>_. zero_Inode\<lparr>i_first := n\<rparr>)"
    using eq by (simp_all add: d)
  have "file_nodes ?d 0x9000 [n]"
    using t(1) n0 by (simp add: file_nodes_def node_list_def f hd(2) zero_Inode_def FILETYPE_DEVICE_def)
  moreover have "mem ?d 0x400000 = 104" "mem ?d 0x400001 = 105" by (simp_all add: sample_data_def)
  ultimately show ?thesis using hd(1) f by blast
qed

theorem tempfs_write_read_witness:
  "\<exists>(s :: fs_state) s' m. tempfs_write \<lparr>call_rw = \<lambda>_ _ _ _ s. Inr (0, s), call_open = \<lambda>_ _ _ s. Inr s, call_close = \<lambda>_ _ s. Inr s\<rparr>
       0x9000 0x400000 2 s = Inr (0, s') \<and>
     tempfs_read \<lparr>call_rw = \<lambda>_ _ _ _ s. Inr (0, s), call_open = \<lambda>_ _ _ s. Inr s, call_close = \<lambda>_ _ s. Inr s\<rparr>
       0x9000 0x500000 2 s' = Inr (0, s'\<lparr>mem := m\<rparr>) \<and> mem_bytes m 0x500000 2 = [104, 105]"
proof -
  let ?D = "\<lparr>call_rw = \<lambda>_ _ _ _ s. Inr (0, s), call_open = \<lambda>_ _ _ s. Inr s, call_close = \<lambda>_ _ s. Inr s\<rparr> :: fs_state device_calls"
  obtain s :: fs_state and n where s: "roomy 90000 s" "file_nodes s 0x9000 [n]" "memmap s = sample_memmap" "hhdm s = 0xffff800000000000"
     "mem s 0x400000 = 104" "mem s 0x400001 = 105" using sample_file by blast
  have u: "user_bytes s 0x400000 (unat (2 :: u64))" "user_bytes s 0x500000 (unat (2 :: u64))"
    by (rule sample_user[OF s(3,4)]; simp)+
  have r: "roomy (write_room (unat (2 :: u64)) (length [n])) s" using roomy_mono[OF s(1)] by (simp add: write_room_def)
  obtain s' where s': "tempfs_write ?D 0x9000 0x400000 2 s = Inr (0, s')"
    "\<And>buffer n. n \<le> 2 \<and> user_bytes s buffer (unat n) \<longrightarrow> (\<exists>m. tempfs_read ?D 0x9000 buffer n s' = Inr (0, s'\<lparr>mem := m\<rparr>) \<and>
       mem_bytes m buffer (unat n) = mem_bytes (mem s) 0x400000 (unat n) \<and> (\<forall>x. n \<le> x - buffer \<longrightarrow> m x = mem s' x))"
    using tempfs_write_read[OF r s(2) _ _ u(1), of ?D] by auto
  then obtain m where "tempfs_read ?D 0x9000 0x500000 2 s' = Inr (0, s'\<lparr>mem := m\<rparr>)"
    "mem_bytes m 0x500000 (unat (2 :: u64)) = mem_bytes (mem s) 0x400000 (unat (2 :: u64))"
    using s'(2)[of 2 "0x500000"] u(2) by auto
  moreover have "mem_bytes (mem s) 0x400000 (unat (2 :: u64)) = [104, 105]"
    using s(5,6) by (simp add: mem_bytes_def upt_rec)
  ultimately show ?thesis using s'(1) by auto
qed

end
