(* ===== verification/Syscalls.thy ===== *)
theory Syscalls
  imports FileData Descriptors
begin

text \<open>
  The system calls (\<open>src/src/tasks/syscalls.c\<close>, \<open>src/src/tasks/mmap.c\<close>): what a program reaches through
  interrupt \<open>0x80\<close>. The arguments are the registers; addresses of the program are addresses of the memory
  as the processor sees it while the program's page tree is loaded. \<open>syscall_exit\<close> is in theory
  \<open>Tasklist\<close>; the entry code that saves the registers is assembly.
\<close>

section \<open>Operations\<close>

record call_state = sys_state +
  syscall_handler_lock :: bool

definition lock_syscall_handler :: "'a call_state_scheme \<Rightarrow> 'a call_state_scheme result" where
  "lock_syscall_handler s = (if syscall_handler_lock s then Inl Diverged else Inr (s\<lparr>syscall_handler_lock := True\<rparr>))"

definition unlock_syscall_handler :: "'a call_state_scheme \<Rightarrow> 'a call_state_scheme" where
  "unlock_syscall_handler s = s\<lparr>syscall_handler_lock := False\<rparr>"

text \<open>\<open>current_task->resources[fd]\<close>.\<close>

definition resource_of :: "u64 \<Rightarrow> u64 \<Rightarrow> 'a tasks_state_scheme \<Rightarrow> u64 result" where
  "resource_of task fd s = res_bind (get_Task task s) (\<lambda>t. arr_get (resources t) (unat fd))"

definition syscall_write ::
  "'a vfs_state_scheme device_calls \<Rightarrow> u64 \<Rightarrow> u64 \<Rightarrow> u64 \<Rightarrow> 'a vfs_state_scheme \<Rightarrow> (u32 \<times> 'a vfs_state_scheme) result" where
  "syscall_write D rdi rsi rdx s =
     res_bind (get_current_task s) (\<lambda>(current_task, s).
     res_bind (resource_of current_task rdi s) (\<lambda>f.
     res_bind (get_file f s) (\<lambda>x.
     if \<not> f_present x then
       res_bind (console_printf (''File could not be written to, has not been opened.'' @ [CHR 0x0A, NUL]) [] s) (\<lambda>s. Inr (1, s))
     else
       res_bind (vfs_write D f rsi rdx s) (\<lambda>(write_status, s).
       if write_status \<noteq> 0 then Inr (write_status, s) else Inr (0, s)))))"

definition syscall_read ::
  "'a vfs_state_scheme device_calls \<Rightarrow> u64 \<Rightarrow> u64 \<Rightarrow> u64 \<Rightarrow> 'a vfs_state_scheme \<Rightarrow> (u32 \<times> 'a vfs_state_scheme) result" where
  "syscall_read D rdi rsi rdx s =
     res_bind (get_current_task s) (\<lambda>(current_task, s).
     res_bind (resource_of current_task rdi s) (\<lambda>f.
     res_bind (get_file f s) (\<lambda>x.
     if \<not> f_present x then
       res_bind (console_printf (''File could not be read from, has not been opened.'' @ [CHR 0x0A, NUL]) [] s) (\<lambda>s. Inr (1, s))
     else
       res_bind (vfs_read D f rsi rdx s) (\<lambda>(read_status, s).
       if read_status \<noteq> 0 then Inr (read_status, s) else Inr (0, s)))))"

definition syscall_get_cwd :: "u64 \<Rightarrow> u64 \<Rightarrow> 'a tasks_state_scheme \<Rightarrow> 'a tasks_state_scheme result" where
  "syscall_get_cwd rdi rsi s =
     res_bind (get_current_task s) (\<lambda>(current_task, s).
     res_bind (get_Task current_task s) (\<lambda>t.
     let cd = strs s (current_dir t);
         cd_len = of_nat (length cd);
         copy_len = (if rsi > cd_len then cd_len else rsi)
     in Inr (s\<lparr>mem := placed rdi 0 (take (unat copy_len) (map of_char cd)) (mem s)\<rparr>)))"

text \<open>\<open>*((Event*) rdi) = *this_event\<close>: the members; what the assignment does to the padding is not specified.\<close>

definition put_event :: "u64 \<Rightarrow> Event \<Rightarrow> 'a pmm_state_scheme \<Rightarrow> 'a pmm_state_scheme" where
  "put_event a e s =
     (let m = store 1 (mem s) a (if do_handle e then 1 else 0 :: u8);
          m = wr64 m (a + 8) (event_id e);
          m = wr64 m (a + 16) (event_data0 e);
          m = wr64 m (a + 24) (event_data1 e)
      in s\<lparr>mem := m\<rparr>)"

definition syscall_poll :: "u64 \<Rightarrow> 'a tasks_state_scheme \<Rightarrow> 'a tasks_state_scheme result" where
  "syscall_poll rdi s =
     res_bind (get_current_task s) (\<lambda>(current_task, s).
     res_bind (get_Task current_task s) (\<lambda>t.
     res_bind (poll (event_queue t) s) (\<lambda>(this_event, s).
     if this_event = 0 then Inl NullDeref
     else kfree this_event (put_event rdi (events s this_event) s))))"

definition syscall_peek :: "u64 \<Rightarrow> 'a tasks_state_scheme \<Rightarrow> 'a tasks_state_scheme result" where
  "syscall_peek rdi s =
     res_bind (get_current_task s) (\<lambda>(current_task, s).
     res_bind (get_Task current_task s) (\<lambda>t.
     res_bind (peek (event_queue t) s) (\<lambda>(this_event, s).
     if this_event = 0 then Inl NullDeref
     else kfree this_event (put_event rdi (events s this_event) s))))"

text \<open>The loop over the descriptors stops at the first free one.\<close>

definition free_descriptor :: "u64 list \<Rightarrow> nat" where
  "free_descriptor rs = length (takeWhile (\<lambda>f. f \<noteq> 0) rs)"

definition syscall_open ::
  "'a vfs_state_scheme device_calls \<Rightarrow> u64 \<Rightarrow> u64 \<Rightarrow> u64 \<Rightarrow> 'a vfs_state_scheme \<Rightarrow> (u32 \<times> 'a vfs_state_scheme) result" where
  "syscall_open D rdi rsi rdx s =
     res_bind (get_current_task s) (\<lambda>(current_task, s).
     res_bind (get_Task current_task s) (\<lambda>t.
     let file_descriptor = free_descriptor (resources t) in
     if file_descriptor < NUM_RESOURCES then
       res_bind (c_string rdi s) (\<lambda>path.
       res_bind (vfs_open D path (ucast rsi) (ucast rdx) s) (\<lambda>(f, s).
         Inr (of_nat file_descriptor, upd_Task current_task (\<lambda>t. t\<lparr>resources := (resources t)[file_descriptor := f]\<rparr>) s)))
     else Inr (- 1, s)))"

definition syscall_close ::
  "'a vfs_state_scheme device_calls \<Rightarrow> u64 \<Rightarrow> 'a vfs_state_scheme \<Rightarrow> 'a vfs_state_scheme result" where
  "syscall_close D rdi s =
     res_bind (get_current_task s) (\<lambda>(current_task, s).
     res_bind (resource_of current_task rdi s) (\<lambda>f.
     res_bind (vfs_close D f s) (\<lambda>s.
       Inr (upd_Task current_task (\<lambda>t. t\<lparr>resources := (resources t)[unat rdi := 0]\<rparr>) s))))"

definition syscall_spawn ::
  "kernel_layout \<Rightarrow> 'a sys_state_scheme device_calls \<Rightarrow> u64 \<Rightarrow> u64 \<Rightarrow> u64 \<Rightarrow> 'a sys_state_scheme \<Rightarrow>
     (u32 \<times> 'a sys_state_scheme) result" where
  "syscall_spawn L D rdi rsi rdx s = res_bind (c_string rdi s) (\<lambda>path. spawn L D path rsi rdx s)"

definition syscall_get_errno :: "'a tasks_state_scheme \<Rightarrow> (u64 \<times> 'a tasks_state_scheme) result" where
  "syscall_get_errno s =
     res_bind (get_current_task s) (\<lambda>(current_task, s).
     res_bind (get_Task current_task s) (\<lambda>t. Inr (errno t, s)))"

definition syscall_invalid :: "'a vfs_state_scheme \<Rightarrow> 'a vfs_state_scheme result" where
  "syscall_invalid s = console_printf (''Hey that syscall doesn'' @ [CHR 0x27] @ ''t exist! (Invalid syscall!)'' @ [CHR 0x0A, NUL]) [] s"

definition init_syscalls :: "u64 \<Rightarrow> 'a cpu_state_scheme \<Rightarrow> 'a cpu_state_scheme" where
  "init_syscalls syscall_isr s = s\<lparr>mem := set_IDT_entry 0x80 syscall_isr 0xEF (idtr_offset s) (mem s)\<rparr>"

section \<open>Memory for programs\<close>

definition MAP_ANONYMOUS :: u32 where "MAP_ANONYMOUS = 0x20"
definition PROT_WRITE :: u32 where "PROT_WRITE = 2"

definition syscall_mmap ::
  "'a vfs_state_scheme device_calls \<Rightarrow> u64 \<Rightarrow> u64 \<Rightarrow> u32 \<Rightarrow> u32 \<Rightarrow> u32 \<Rightarrow> u64 \<Rightarrow> 'a vfs_state_scheme \<Rightarrow>
     (u64 \<times> 'a vfs_state_scheme) result" where
  "syscall_mmap D addr len prot flags fd offset s =
     res_bind (get_current_task s) (\<lambda>(current_task, s).
     res_bind (get_Task current_task s) (\<lambda>t.
     if len \<le> 0 then
       (if errno t = 0 then Inl NullDeref else Inr (0, s\<lparr>mem := wr64 (mem s) (errno t) 3\<rparr>))
     else
       (let (addr, s) =
          (if addr = 0
           then (mmap_upto t, upd_Task current_task (\<lambda>t. t\<lparr>mmap_upto := PAGE_ALIGN_UP (mmap_upto t + len)\<rparr>) s)
           else (addr, s));
          map_flags = KERNEL_PFLAG_PRESENT OR KERNEL_PFLAG_USER;
          map_flags = (if flags AND PROT_WRITE \<noteq> 0 then map_flags OR KERNEL_PFLAG_WRITE else map_flags) in
        res_bind (kmalloc (PAGE_ALIGN_UP len div 4096) s) (\<lambda>(a, s).
        let buf = a + hhdm s in
        res_bind (map_pages (pml4_addr t + hhdm s) addr (buf - hhdm s) len map_flags s) (\<lambda>s.
        if flags AND MAP_ANONYMOUS \<noteq> 0 then Inr (addr, s)
        else if sint fd < 0 then Inl OutOfBounds
        else
          res_bind (resource_of current_task (ucast fd) s) (\<lambda>src.
          res_bind (vfs_read D src buf len s) (\<lambda>(_, s). Inr (addr, s))))))))"

section \<open>Descriptors\<close>

lemma free_descriptor_least:
  assumes "free_descriptor rs < length rs"
  shows "rs ! free_descriptor rs = 0" "\<And>j. j < free_descriptor rs \<Longrightarrow> rs ! j \<noteq> 0"
proof -
  show "rs ! free_descriptor rs = 0" using nth_length_takeWhile[of "\<lambda>f. f \<noteq> 0" rs] assms by (simp add: free_descriptor_def)
  fix j assume "j < free_descriptor rs"
  then have j: "j < length (takeWhile (\<lambda>f. f \<noteq> 0) rs)" by (simp add: free_descriptor_def)
  then have "rs ! j \<in> set (takeWhile (\<lambda>f. f \<noteq> 0) rs)" using nth_mem[OF j] takeWhile_nth[OF j] by simp
  then show "rs ! j \<noteq> 0" using set_takeWhileD[of "rs ! j" "\<lambda>f. f \<noteq> 0" rs] by simp
qed

lemma upd_Task_fields:
  "vecs (upd_Task t f s) = vecs s" "vnodes (upd_Task t f s) = vnodes s" "tasklist_list (upd_Task t f s) = tasklist_list s"
  "current_tasks (upd_Task t f s) = current_tasks s" "locks (upd_Task t f s) = locks s" "lapic_id (upd_Task t f s) = lapic_id s"
  by (simp_all add: upd_Task_def set_Task_def)

lemma upd_Task_heap:
  "heap_inv (upd_Task t f s) = heap_inv s" "live (upd_Task t f s) = live s" "roomy k (upd_Task t f s) = roomy k s"
  by (rule heap_cong, simp add: upd_Task_def set_Task_def kheap_state.defs)+

text \<open>A descriptor of the current task that leads to an ordinary file on a drive with a temporary file system.\<close>

definition fd_open :: "'a vfs_state_scheme \<Rightarrow> u64 \<Rightarrow> u64 \<Rightarrow> bool" where
  "fd_open s fd i \<longleftrightarrow> (\<exists>t f root. get_current_task s = Inr (t, s) \<and> resource_of t fd s = Inr f \<and> f \<noteq> 0 \<and>
     (let x = files s f in f_present x \<and> f_mode x = MODE_READWRITE \<and> ftype x \<noteq> FTYPE_STDOUT \<and> f_private x = i \<and>
        tempfs_drive s (drive_char x) root)) \<and> locks s = (\<lambda>_. False)"

lemma syscall_write_file:
  assumes "fd_open s fd i"
  shows "syscall_write D fd data len s =
    res_bind (tempfs_write D i data len s) (\<lambda>(st, s). if st \<noteq> 0 then Inr (st, s) else Inr (0, s))"
proof -
  obtain t f root where o: "get_current_task s = Inr (t, s)" "resource_of t fd s = Inr f" "f \<noteq> 0"
    "f_present (files s f)" "f_mode (files s f) = MODE_READWRITE" "ftype (files s f) \<noteq> FTYPE_STDOUT" "f_private (files s f) = i"
    and d: "tempfs_drive s (drive_char (files s f)) root"
    using assms by (auto simp: fd_open_def Let_def)
  have "drive_at (drive_char (files s f)) s = Inr (drives s ! (code (drive_char (files s f)) - 65))"
    using d by (intro drive_at_letter) (simp_all add: tempfs_drive_def)
  then have "vfs_write D f data len s = tempfs_write D i data len s"
    using o d by (simp add: vfs_write_def get_file_def MODE_READWRITE_def MODE_READONLY_def fs_call_def tempfs_drive_def Let_def)
  then show ?thesis using o by (simp add: syscall_write_def get_file_def cong: res_bind_cong)
qed

lemma syscall_read_file:
  assumes "fd_open s fd i"
  shows "syscall_read D fd buffer n s =
    res_bind (tempfs_read D i buffer n s) (\<lambda>(st, s). if st \<noteq> 0 then Inr (st, s) else Inr (0, s))"
proof -
  obtain t f root where o: "get_current_task s = Inr (t, s)" "resource_of t fd s = Inr f" "f \<noteq> 0"
    "f_present (files s f)" "f_mode (files s f) = MODE_READWRITE" "f_private (files s f) = i"
    and d: "tempfs_drive s (drive_char (files s f)) root"
    using assms by (auto simp: fd_open_def Let_def)
  have "drive_at (drive_char (files s f)) s = Inr (drives s ! (code (drive_char (files s f)) - 65))"
    using d by (intro drive_at_letter) (simp_all add: tempfs_drive_def)
  then have "vfs_read D f buffer n s = tempfs_read D i buffer n s"
    using o d by (simp add: vfs_read_def get_file_def MODE_READWRITE_def MODE_WRITEONLY_def fs_call_def tempfs_drive_def Let_def)
  then show ?thesis using o by (simp add: syscall_read_def get_file_def cong: res_bind_cong)
qed

lemma fd_open_written:
  assumes "fd_open s fd i" "written i data len ns s s'"
  shows "fd_open s' fd i"
proof -
  obtain m t q f p where s': "s' = s\<lparr>mem := m, total_memory_allocated := t, pools := q, fnode_next := f,
        inodes := (inodes s)(i := (inodes s i)\<lparr>i_length := len, i_first := p\<rparr>)\<rparr>"
    using assms(2) unfolding written_def by (elim conjE exE) (rule that)
  have "get_current_task s' = Inr (c, s')" if "get_current_task s = Inr (c, s)" for c
    by (rule get_current_task_cong[OF that]) (use assms(1) in \<open>simp_all add: s' fd_open_def\<close>)
  moreover have "resource_of c fd s' = resource_of c fd s" for c by (simp add: resource_of_def get_Task_def s')
  moreover have "tempfs_drive s' = tempfs_drive s" "files s' = files s" "locks s' = locks s" by (simp_all add: fun_eq_iff tempfs_drive_def s')
  ultimately show ?thesis using assms(1) unfolding fd_open_def Let_def by metis
qed

lemma syscall_open_file:
  assumes t: "get_current_task s = Inr (t, s)" "t \<noteq> 0" "locks s = (\<lambda>_. False)" "length (resources (tasks s t)) = NUM_RESOURCES"
    and d: "free_descriptor (resources (tasks s t)) = d" "d < NUM_RESOURCES"
    and path: "c_string rdi s = Inr (abs_path c [n])" "names_ok [n]" "length (abs_path c [n]) < 16" "n \<noteq> ''stdout''"
    and fl: "\<not> no_create (ucast rsi)" "ucast rdx = MODE_READWRITE"
    and dr: "tempfs_drive s c root" "dir_rep s root ns" "i_is_dir (inodes s root)" "tempfs_find root n s = Inr 0"
    and room: "roomy (length (abs_path c [n]) + 27 + (182 + (59 + k))) s" and z: "fresh_zero s"
  shows "\<exists>s1 i. syscall_open D rdi rsi rdx s = Inr (of_nat d, s1) \<and> fd_open s1 (of_nat d) i \<and> file_nodes s1 i [] \<and>
     roomy k s1 \<and> fresh_zero s1 \<and> kernel_byte s1 = kernel_byte s"
proof -
  have p23: "length (abs_path c [n]) < 23" "unat MODE_READWRITE < 4" using path(3) by (simp_all add: MODE_READWRITE_def)
  obtain f s' i m u q x where o: "vfs_open D (abs_path c [n]) (ucast rsi) MODE_READWRITE s = Inr (f, s')" "roomy k s'"
    and i: "i \<noteq> 0" "i \<noteq> root" "inodes s' = (inodes s)(i := zero_Inode\<lparr>filename := n\<rparr>, root := (inodes s root)\<lparr>num_entries := num_entries (inodes s root) + 1\<rparr>)"
    and s': "s' = s\<lparr>mem := m, total_memory_allocated := u, pools := q, inodes := inodes s', dirnodes := dirnodes s', files := (files s)(f := x)\<rparr>"
    and x: "f \<noteq> 0" "f_private x = i" "f_mode x = MODE_READWRITE" "f_present x" "drive_char x = c" "length (abs_path c [n]) < 16 \<longrightarrow> ftype x = ftype_of n"
    and l: "map_le (live s) (live s')"
    using vfs_open_new[OF t(1) room dr(1-3) path(2) p23(1) fl(1) p23(2) dr(4), where D = D] by (elim exE conjE) (rule that, assumption+)
  define s1 where "s1 = upd_Task t (\<lambda>t. t\<lparr>resources := (resources t)[d := f]\<rparr>) s'"
  have e: "vecs s' = vecs s" "vnodes s' = vnodes s" "tasklist_list s' = tasklist_list s" "current_tasks s' = current_tasks s"
    "locks s' = locks s" "lapic_id s' = lapic_id s" "drives s' = drives s" "files s' = (files s)(f := x)" "tasks s' = tasks s"
    "fnode_next s' = fnode_next s" "memmap s' = memmap s" "hhdm s' = hhdm s"
    by (subst s', simp)+
  have "syscall_open D rdi rsi rdx s = Inr (of_nat d, s1)"
    using t(1,2) d path(1) o(1) fl(2) by (simp add: syscall_open_def get_Task_def Let_def s1_def)
  moreover have "get_current_task s1 = Inr (t, s1)"
    by (rule get_current_task_cong[OF t(1)]) (simp_all add: s1_def upd_Task_fields e t(3))
  moreover have "resource_of t (of_nat d) s1 = Inr f"
  proof -
    have "unat (of_nat d :: u64) = d" using d(2) by (intro unat_of_nat_u64) (simp add: NUM_RESOURCES_def)
    then show ?thesis
      using t(2,4) d(2) by (simp add: resource_of_def get_Task_def s1_def upd_Task_def set_Task_def e(9) arr_get_def)
  qed
  moreover have "ftype x \<noteq> FTYPE_STDOUT" using x(6) path(3,4)
    by (simp add: ftype_of_def FTYPE_STDOUT_def FTYPE_STDIN_def FTYPE_STDERR_def FTYPE_REGULAR_def)
  moreover have f1: "files s1 f = x" "drives s1 = drives s" "locks s1 = locks s" "inodes s1 = inodes s'" "fnode_next s1 = fnode_next s"
    by (simp_all add: s1_def upd_Task_def set_Task_def e)
  moreover have "tempfs_drive s1 c root" using dr(1) by (simp add: tempfs_drive_def f1(2))
  ultimately have "fd_open s1 (of_nat d) i" using x t(3) unfolding fd_open_def Let_def by auto
  moreover have "file_nodes s1 i []" using i by (simp add: file_nodes_def node_list_def f1 zero_Inode_def FILETYPE_DEVICE_def)
  moreover have "roomy k s1" using o(2) by (simp add: s1_def upd_Task_heap)
  moreover have "fresh_zero s1"
    unfolding fresh_zero_def f1(5)
  proof (intro allI impI)
    fix a assume "live s1 a = None"
    then have "live s a = None" using l by (cases "live s a") (auto simp: s1_def upd_Task_heap map_le_def dom_def)
    then show "fnode_next s a = 0" using z by (simp add: fresh_zero_def)
  qed
  moreover have "kernel_byte s1 = kernel_byte s" by (rule kernel_byte_cong) (simp_all add: s1_def upd_Task_def set_Task_def e)
  ultimately show ?thesis using \<open>syscall_open D rdi rsi rdx s = Inr (of_nat d, s1)\<close> by blast
qed

section \<open>Properties\<close>

text \<open>C11. A program's view of a file: opening an absolute path of less than 16 characters, a new name in the root
  of a TempFS drive, for reading and writing with a creating flag gives the lowest free descriptor, and
  bytes written through it are the bytes that are read back through it into any other buffer of the program.
  Heap room is needed for the open and for the nodes of the file, and the blocks not in use must have a \<open>next\<close>
  field of zero: the code does not clear the first node of a file.\<close>

theorem syscall_file_roundtrip:
  assumes "get_current_task s = Inr (t, s)" "t \<noteq> 0" "locks s = (\<lambda>_. False)" "length (resources (tasks s t)) = NUM_RESOURCES"
    and "free_descriptor (resources (tasks s t)) = d" "d < NUM_RESOURCES"
    and "c_string rdi s = Inr (abs_path c [n])" "names_ok [n]" "length (abs_path c [n]) < 16" "n \<noteq> ''stdout''"
    and "\<not> no_create (ucast rsi)" "ucast rdx = MODE_READWRITE"
    and "tempfs_drive s c root" "dir_rep s root ns" "i_is_dir (inodes s root)" "tempfs_find root n s = Inr 0"
    and "roomy (length (abs_path c [n]) + 27 + (182 + (59 + k))) s" "fresh_zero s"
  shows "resources (tasks s t) ! d = 0 \<and> (\<forall>j < d. resources (tasks s t) ! j \<noteq> 0) \<and>
    (\<exists>s1. syscall_open D rdi rsi rdx s = Inr (of_nat d, s1) \<and>
      (\<forall>data len. unat len < 2 ^ 62 \<and> write_room (unat len) 0 \<le> k \<and> user_bytes s data (unat len) \<longrightarrow>
        (\<exists>s2. syscall_write D (of_nat d) data len s1 = Inr (0, s2) \<and>
          (\<forall>buffer k. k \<le> len \<and> user_bytes s buffer (unat k) \<longrightarrow>
            (\<exists>m. syscall_read D (of_nat d) buffer k s2 = Inr (0, s2\<lparr>mem := m\<rparr>) \<and>
               mem_bytes m buffer (unat k) = mem_bytes (mem s1) data (unat k))))))"
proof -
  obtain s1 i where o: "syscall_open D rdi rsi rdx s = Inr (of_nat d, s1)" "fd_open s1 (of_nat d) i" "file_nodes s1 i []"
     "roomy k s1" "fresh_zero s1" "kernel_byte s1 = kernel_byte s"
    using syscall_open_file[OF assms, of D] by blast
  have "\<exists>s2. syscall_write D (of_nat d) data len s1 = Inr (0, s2) \<and>
          (\<forall>buffer k. k \<le> len \<and> user_bytes s buffer (unat k) \<longrightarrow>
            (\<exists>m. syscall_read D (of_nat d) buffer k s2 = Inr (0, s2\<lparr>mem := m\<rparr>) \<and>
               mem_bytes m buffer (unat k) = mem_bytes (mem s1) data (unat k)))"
    if len: "unat len < 2 ^ 62" and room: "write_room (unat len) 0 \<le> k" and u: "user_bytes s data (unat len)" for data len
  proof -
    have ub: "user_bytes s1 = user_bytes s" by (simp add: fun_eq_iff user_bytes_def o(6))
    have "\<exists>m. syscall_read D (of_nat d) buffer k s2 = Inr (0, s2\<lparr>mem := m\<rparr>) \<and>
               mem_bytes m buffer (unat k) = mem_bytes (mem s1) data (unat k)"
      if w: "written i data len [] s1 s2" and k: "k \<le> len" "user_bytes s buffer (unat k)" for s2 buffer k
      using written_reads[OF w o(3) len k(1), of buffer D] k(2) syscall_read_file[OF fd_open_written[OF o(2) w], of D buffer k]
      by (auto simp: ub)
    moreover have "roomy (write_room (unat len) (length [])) s1" using roomy_mono[OF o(4) room] by simp
    ultimately show ?thesis
      using tempfs_write_written[OF roomy_inv[OF o(4)] o(3,5) len, of data D] u syscall_write_file[OF o(2), of D data len]
      by (auto simp: ub)
  qed
  then show ?thesis using o(1) free_descriptor_least[of "resources (tasks s t)"] assms(4-6) by auto
qed

text \<open>The system of theory \<open>VFS\<close> with a path in the memory of the program.\<close>

lemma sample_calls:
  "\<exists>(s :: vfs_state) root node. get_current_task s = Inr (0x1000, s) \<and> locks s = (\<lambda>_. False) \<and> roomy 89687 s \<and> heap_inv s \<and>
    tempfs_drive s CHR ''R'' root \<and> dir_rep s root [node] \<and> i_is_dir (inodes s root) \<and> tempfs_find root ''log'' s = Inr 0 \<and>
    memmap s = sample_memmap \<and> hhdm s = 0xffff800000000000 \<and> fresh_zero s \<and> resources (tasks s 0x1000) = replicate NUM_RESOURCES 0 \<and>
    c_string 0x400000 s = Inr ''R:/log''"
proof -
  obtain s0 :: vfs_state and root node fl where s0: "get_current_task s0 = Inr (0x1000, s0)" "locks s0 = (\<lambda>_. False)" "roomy 89687 s0"
    "tempfs_drive s0 CHR ''R'' root" "dir_rep s0 root [node]" "dir_lookup s0 [node] = [''motd'' \<mapsto> fl]" "i_is_dir (inodes s0 root)"
    and mm: "memmap s0 = sample_memmap" "hhdm s0 = 0xffff800000000000" "fnode_next s0 = (\<lambda>_. 0)"
    "resources (tasks s0 0x1000) = replicate NUM_RESOURCES 0" using sample_drive by blast
  let ?b = "string_bytes ''R:/log''"
  define s where "s = s0\<lparr>mem := placed 0x400000 0 ?b (mem s0)\<rparr>"
  have inv: "heap_inv s0" by (rule roomy_inv[OF s0(3)])
  have ub: "user_bytes s0 0x400000 (0 + length ?b)" by (rule sample_user[OF mm(1,2)]) (simp_all add: string_bytes_def)
  have "placed 0x400000 0 ?b (mem s0) x = mem s0 x" if "kernel_byte s0 x" for x
    by (rule placed_outside, rule user_bytes_apart[OF ub that])
  note H = heap_mem_user[OF inv this, folded s_def]
  have e: "inodes s = inodes s0" "dirnodes s = dirnodes s0" "locks s = locks s0" "memmap s = memmap s0" "hhdm s = hhdm s0"
    "fnode_next s = fnode_next s0" "tasks s = tasks s0" "drives s = drives s0" by (simp_all add: s_def)
  have "get_current_task s = Inr (0x1000, s)" by (rule get_current_task_cong[OF s0(1)]) (simp_all add: s_def s0(2))
  moreover have "dir_rep s root [node]" by (rule dir_rep_cong[OF s0(5)]) (simp_all add: e H(1))
  moreover have "tempfs_find root ''log'' s = Inr 0"
    using tempfs_find_rep[OF inv s0(5), of "''log''"] tempfs_find_cong[OF e(1,2)] by (simp add: s0(6))
  moreover have "c_string 0x400000 s = Inr ''R:/log''"
  proof -
    have "mem s (0x400000 + of_nat k) = ?b ! k" if "k \<le> 6" for k
    proof -
      have "unat (0x400000 + of_nat k - 0x400000 :: u64) = k" using that by (simp add: unat_of_nat_u64)
      then show ?thesis using that unfolding s_def by (simp add: placed_def string_bytes_def)
    qed
    then have "mem_string walk_fuel (mem s) 0x400000 = Inr ''R:/log''"
      by (intro mem_string_bytes) (simp_all add: walk_fuel_def)
    then show ?thesis by (simp add: c_string_def)
  qed
  ultimately show ?thesis
    using s0 mm H e by (intro exI[of _ s] exI[of _ root] exI[of _ node]) (simp add: tempfs_drive_def fresh_zero_def)
qed

theorem syscall_file_roundtrip_witness:
  "\<exists>(D :: vfs_state device_calls) s s1 s2 m. syscall_open D 0x400000 1 3 s = Inr (0, s1) \<and>
     syscall_write D 0 0x500000 2 s1 = Inr (0, s2) \<and> syscall_read D 0 0x600000 2 s2 = Inr (0, s2\<lparr>mem := m\<rparr>) \<and>
     mem_bytes m 0x600000 2 = mem_bytes (mem s1) 0x500000 2"
proof -
  obtain s :: vfs_state and root node where s: "get_current_task s = Inr (0x1000, s)" "locks s = (\<lambda>_. False)" "roomy 89687 s"
    "tempfs_drive s CHR ''R'' root" "dir_rep s root [node]" "i_is_dir (inodes s root)" "tempfs_find root ''log'' s = Inr 0"
    "memmap s = sample_memmap" "hhdm s = 0xffff800000000000" "fresh_zero s" "resources (tasks s 0x1000) = replicate NUM_RESOURCES 0"
    "c_string 0x400000 s = Inr ''R:/log''" using sample_calls by blast
  define D :: "vfs_state device_calls" where "D = \<lparr>call_rw = \<lambda>_ _ _ _ s. Inr (0, s), call_open = \<lambda>_ _ _ s. Inr s, call_close = \<lambda>_ _ s. Inr s\<rparr>"
  have p: "abs_path CHR ''R'' [''log''] = ''R:/log''" by (simp add: abs_path_def)
  have u: "user_bytes s 0x500000 (unat (2 :: u64))" "user_bytes s 0x600000 (unat (2 :: u64))" by (rule sample_user[OF s(8,9)]; simp)+
  have room: "roomy (length (abs_path CHR ''R'' [''log'']) + 27 + (182 + (59 + 8246))) s" using roomy_mono[OF s(3)] by (simp add: p)
  have len: "length (resources (tasks s 0x1000)) = NUM_RESOURCES" "free_descriptor (resources (tasks s 0x1000)) = 0" "0 < NUM_RESOURCES"
    by (simp_all add: s(11) free_descriptor_def NUM_RESOURCES_def)
  have path: "c_string 0x400000 s = Inr (abs_path CHR ''R'' [''log''])" "names_ok [''log'']" "length (abs_path CHR ''R'' [''log'']) < 16"
    "''log'' \<noteq> ''stdout''" by (simp_all add: p s(12) names_ok_def)
  have t0: "(0x1000 :: u64) \<noteq> 0" by simp
  have fl: "\<not> no_create (ucast (1 :: u64))" "ucast (3 :: u64) = MODE_READWRITE" by (simp_all add: no_create_def O_CREAT_def MODE_READWRITE_def)
  obtain s1 where s1: "syscall_open D 0x400000 1 3 s = Inr (of_nat 0, s1)"
    and rt: "\<forall>data len. unat len < 2 ^ 62 \<and> write_room (unat len) 0 \<le> 8246 \<and> user_bytes s data (unat len) \<longrightarrow>
        (\<exists>s2. syscall_write D (of_nat 0) data len s1 = Inr (0, s2) \<and>
          (\<forall>buffer k. k \<le> len \<and> user_bytes s buffer (unat k) \<longrightarrow>
            (\<exists>m. syscall_read D (of_nat 0) buffer k s2 = Inr (0, s2\<lparr>mem := m\<rparr>) \<and>
               mem_bytes m buffer (unat k) = mem_bytes (mem s1) data (unat k))))"
    using syscall_file_roundtrip[OF s(1) t0 s(2) len path fl s(4-7) room s(10), of D] by (elim conjE exE) (rule that)
  have "unat (2 :: u64) < 2 ^ 62 \<and> write_room (unat (2 :: u64)) 0 \<le> 8246 \<and> user_bytes s 0x500000 (unat (2 :: u64))"
    using u(1) by (simp add: write_room_def)
  from rt[rule_format, OF this] obtain s2 where w: "syscall_write D (of_nat 0) 0x500000 2 s1 = Inr (0, s2)"
      and r: "\<forall>buffer k. k \<le> 2 \<and> user_bytes s buffer (unat k) \<longrightarrow> (\<exists>m. syscall_read D (of_nat 0) buffer k s2 = Inr (0, s2\<lparr>mem := m\<rparr>) \<and>
               mem_bytes m buffer (unat k) = mem_bytes (mem s1) 0x500000 (unat k))" by (elim exE conjE)
  have "(2 :: u64) \<le> 2 \<and> user_bytes s 0x600000 (unat (2 :: u64))" using u(2) by simp
  from r[rule_format, OF this] show ?thesis
    using s1 w by (elim exE conjE) (intro exI[of _ D] exI[of _ s] exI[of _ s1] exI[of _ s2], simp, blast)
qed

end
