(* ===== verification/Apic.thy ===== *)
theory Apic
  imports Syscalls
begin

text \<open>
  Interrupt controllers and timers (\<open>src/src/drivers/acpi.c\<close>, \<open>src/src/drivers/apic.c\<close>, \<open>src/src/drivers/pit.c\<close>,
  \<open>src/src/utils/io.c\<close>): the firmware's tables that say where the controllers are, the local APIC and the
  I/O APIC through their memory-mapped registers, and the programmable interval timer.

  The hardware is a parameter: a \<open>machine\<close> says what a register access or an instruction does to the
  hardware's state. What the code relies on is stated as a contract (\<open>ioapic_at\<close>, \<open>lapic_at\<close>) and is a
  hypothesis of the properties. Status messages are not modelled.
\<close>

section \<open>The machine and the state\<close>

text \<open>\<open>ticks\<close> gives the number of timer interrupts that arrive before the next instruction that can be
  interrupted: the handler in \<open>src/src/tasks/switch.asm\<close> calls \<open>pit_decrement_counter\<close> for each.\<close>

record 'h machine =
  mmio_read :: "u64 \<Rightarrow> 'h \<Rightarrow> u32 \<times> 'h"
  mmio_write :: "u64 \<Rightarrow> u32 \<Rightarrow> 'h \<Rightarrow> 'h"
  port_in :: "u16 \<Rightarrow> 'h \<Rightarrow> u8 \<times> 'h"
  port_out :: "u16 \<Rightarrow> u8 \<Rightarrow> 'h \<Rightarrow> 'h"
  set_interrupts :: "bool \<Rightarrow> 'h \<Rightarrow> 'h"
  ticks :: "'h \<Rightarrow> nat \<times> 'h"
  cpuid_edx :: "u32 \<Rightarrow> u32"

record IOApic =
  entry_type :: u8
  record_length :: u8
  ioapic_id :: u8
  ioapic_rsvd :: u8
  ioapic_base :: u32
  global_system_interrupt_base :: u32

text \<open>\<open>cpu_regs\<close> holds the part of the kernel's data that theory \<open>Descriptors\<close> works on.\<close>

record 'h apic_state = call_state +
  hw :: 'h
  rsdp_table :: u64
  rsdt :: u64
  ioapic_device :: IOApic
  pit_counter :: u64
  cpu_regs :: "unit cpu_state_ext"

definition cpu_view :: "('h, 'a) apic_state_scheme \<Rightarrow> cpu_state" where
  "cpu_view s = pmm_state.extend (pmm_state.truncate s) (cpu_regs s)"

definition put_cpu :: "cpu_state \<Rightarrow> ('h, 'a) apic_state_scheme \<Rightarrow> ('h, 'a) apic_state_scheme" where
  "put_cpu t s = s\<lparr>mem := mem t, last_freed_page := last_freed_page t, last_freed_section := last_freed_section t,
     last_freed_num_pages := last_freed_num_pages t, total_memory_allocated := total_memory_allocated t,
     cpu_regs := pmm_state.more t\<rparr>"

definition on_hw :: "('h \<Rightarrow> 'h) \<Rightarrow> ('h, 'a) apic_state_scheme \<Rightarrow> ('h, 'a) apic_state_scheme" where
  "on_hw f s = s\<lparr>hw := f (hw s)\<rparr>"

definition outb :: "'h machine \<Rightarrow> u16 \<Rightarrow> u8 \<Rightarrow> ('h, 'a) apic_state_scheme \<Rightarrow> ('h, 'a) apic_state_scheme" where
  "outb M port val s = on_hw (port_out M port val) s"

definition inb :: "'h machine \<Rightarrow> u16 \<Rightarrow> ('h, 'a) apic_state_scheme \<Rightarrow> u8 \<times> ('h, 'a) apic_state_scheme" where
  "inb M port s = (let (v, h) = port_in M port (hw s) in (v, s\<lparr>hw := h\<rparr>))"

definition enable_interrupts :: "'h machine \<Rightarrow> ('h, 'a) apic_state_scheme \<Rightarrow> ('h, 'a) apic_state_scheme" where
  "enable_interrupts M s = on_hw (set_interrupts M True) s"

definition disable_interrupts :: "'h machine \<Rightarrow> ('h, 'a) apic_state_scheme \<Rightarrow> ('h, 'a) apic_state_scheme" where
  "disable_interrupts M s = on_hw (set_interrupts M False) s"

section \<open>Registers of the controllers\<close>

definition LAPIC_ID_REGISTER :: u64 where "LAPIC_ID_REGISTER = 0x020"
definition LAPIC_SPURIOUS_INTERRUPT_VECTOR_REGISTER :: u64 where "LAPIC_SPURIOUS_INTERRUPT_VECTOR_REGISTER = 0x0f0"
definition LAPIC_DESTINATION_FORMAT_REGISTER :: u64 where "LAPIC_DESTINATION_FORMAT_REGISTER = 0x0e0"
definition LAPIC_TASK_PRIORITY_REGISTER :: u64 where "LAPIC_TASK_PRIORITY_REGISTER = 0x080"
definition LAPIC_END_OF_INTERRUPT_REGISTER :: u64 where "LAPIC_END_OF_INTERRUPT_REGISTER = 0x0b0"
definition LAPIC_TIMER_DIVIDER_REGISTER :: u64 where "LAPIC_TIMER_DIVIDER_REGISTER = 0x3e0"
definition LAPIC_TIMER_INITIAL_COUNT_REGISTER :: u64 where "LAPIC_TIMER_INITIAL_COUNT_REGISTER = 0x380"
definition LAPIC_TIMER_CURRENT_COUNT_REGISTER :: u64 where "LAPIC_TIMER_CURRENT_COUNT_REGISTER = 0x390"
definition LAPIC_TIMER_LVT_REGISTER :: u64 where "LAPIC_TIMER_LVT_REGISTER = 0x320"
definition LAPIC_ERROR_STATUS_REGISTER :: u64 where "LAPIC_ERROR_STATUS_REGISTER = 0x280"

definition read_lapic :: "'h machine \<Rightarrow> u64 \<Rightarrow> u64 \<Rightarrow> 'h \<Rightarrow> u32 \<times> 'h" where
  "read_lapic M lapic reg_offset h = mmio_read M (lapic + reg_offset) h"

definition write_lapic :: "'h machine \<Rightarrow> u64 \<Rightarrow> u64 \<Rightarrow> u32 \<Rightarrow> 'h \<Rightarrow> 'h" where
  "write_lapic M lapic reg_offset val h = mmio_write M (lapic + reg_offset) val h"

definition read_ioapic :: "'h machine \<Rightarrow> u64 \<Rightarrow> u32 \<Rightarrow> 'h \<Rightarrow> u32 \<times> 'h" where
  "read_ioapic M ioapic reg h = mmio_read M (ioapic + 4 * 4) (mmio_write M ioapic (reg AND 0xff) h)"

definition write_ioapic :: "'h machine \<Rightarrow> u64 \<Rightarrow> u32 \<Rightarrow> u32 \<Rightarrow> 'h \<Rightarrow> 'h" where
  "write_ioapic M ioapic reg value h = mmio_write M (ioapic + 4 * 4) value (mmio_write M ioapic (reg AND 0xff) h)"

definition ioapic_vaddr :: "('h, 'a) apic_state_scheme \<Rightarrow> u64" where
  "ioapic_vaddr s = ucast (ioapic_base (ioapic_device s)) + hhdm s"

text \<open>The words \<open>map_ioapic\<close> puts into the two halves of a redirection entry.\<close>

definition redirection_low :: "u8 \<Rightarrow> bool \<Rightarrow> bool \<Rightarrow> u32 \<Rightarrow> u32" where
  "redirection_low vec polarity trigger e =
     (let e = (e AND NOT 0xFF) OR ucast vec;
          e = e AND NOT 0x700;
          e = e AND NOT 0x800;
          e = (if polarity then e OR 0x2000 else e AND NOT 0x2000);
          e = (if trigger then e OR 0x8000 else e AND NOT 0x8000)
      in e AND NOT 0x10000)"

definition redirection_high :: "u32 \<Rightarrow> u32" where
  "redirection_high lapic = push_bit 28 (lapic AND 0xF)"

definition map_ioapic ::
  "'h machine \<Rightarrow> u8 \<Rightarrow> u32 \<Rightarrow> u32 \<Rightarrow> bool \<Rightarrow> bool \<Rightarrow> ('h, 'a) apic_state_scheme \<Rightarrow> ('h, 'a) apic_state_scheme" where
  "map_ioapic M vec irq lapic polarity trigger s =
     (let ioapic = ioapic_vaddr s;
          gsi_base = global_system_interrupt_base (ioapic_device s);
          entry_num = gsi_base + irq * 2;
          reg0 = 0x10 + entry_num; reg1 = 0x11 + entry_num;
          (e0, h) = read_ioapic M ioapic reg0 (hw s);
          (e1, h) = read_ioapic M ioapic reg1 h;
          e0 = redirection_low vec polarity trigger e0;
          e1 = redirection_high lapic;
          h = write_ioapic M ioapic reg0 e0 h;
          h = write_ioapic M ioapic reg1 e1 h
      in s\<lparr>hw := h\<rparr>)"

definition mask_ioapic :: "'h machine \<Rightarrow> u8 \<Rightarrow> u32 \<Rightarrow> ('h, 'a) apic_state_scheme \<Rightarrow> ('h, 'a) apic_state_scheme" where
  "mask_ioapic M irq lapic s =
     (let reg_num = 0x10 + (global_system_interrupt_base (ioapic_device s) + ucast irq * 2);
          (e, h) = read_ioapic M (ioapic_vaddr s) reg_num (hw s)
      in s\<lparr>hw := write_ioapic M (ioapic_vaddr s) reg_num (e OR 0x10000) h\<rparr>)"

definition unmask_ioapic :: "'h machine \<Rightarrow> u8 \<Rightarrow> u32 \<Rightarrow> ('h, 'a) apic_state_scheme \<Rightarrow> ('h, 'a) apic_state_scheme" where
  "unmask_ioapic M irq lapic s =
     (let reg_num = 0x10 + (global_system_interrupt_base (ioapic_device s) + ucast irq * 2);
          (e, h) = read_ioapic M (ioapic_vaddr s) reg_num (hw s)
      in s\<lparr>hw := write_ioapic M (ioapic_vaddr s) reg_num (e AND NOT 0x10000) h\<rparr>)"

definition init_local_apic :: "'h machine \<Rightarrow> u64 \<Rightarrow> ('h, 'a) apic_state_scheme \<Rightarrow> ('h, 'a) apic_state_scheme" where
  "init_local_apic M lapic s =
     on_hw (\<lambda>h. write_lapic M lapic LAPIC_SPURIOUS_INTERRUPT_VECTOR_REGISTER (0xFF OR 0x100)
                 (write_lapic M lapic LAPIC_DESTINATION_FORMAT_REGISTER 0xF0000000
                   (write_lapic M lapic LAPIC_TASK_PRIORITY_REGISTER 0 h))) s"

definition update_lvt :: "'h machine \<Rightarrow> (u32 \<Rightarrow> u32) \<Rightarrow> ('h, 'a) apic_state_scheme \<Rightarrow> ('h, 'a) apic_state_scheme" where
  "update_lvt M f s =
     (let (v, h) = read_lapic M (lapic_addr s) LAPIC_TIMER_LVT_REGISTER (hw s)
      in s\<lparr>hw := write_lapic M (lapic_addr s) LAPIC_TIMER_LVT_REGISTER (f v) h\<rparr>)"

definition lock_lapic_timer :: "'h machine \<Rightarrow> ('h, 'a) apic_state_scheme \<Rightarrow> ('h, 'a) apic_state_scheme" where
  "lock_lapic_timer M s = update_lvt M (\<lambda>v. v AND NOT 0x20000) s"

definition unlock_lapic_timer :: "'h machine \<Rightarrow> ('h, 'a) apic_state_scheme \<Rightarrow> ('h, 'a) apic_state_scheme" where
  "unlock_lapic_timer M s = update_lvt M (\<lambda>v. v OR 0x20000) s"

section \<open>The interval timer\<close>

definition HERTZ_DIVIDER :: u32 where "HERTZ_DIVIDER = 1190"

definition unlock_pit :: "'h machine \<Rightarrow> ('h, 'a) apic_state_scheme \<Rightarrow> ('h, 'a) apic_state_scheme" where
  "unlock_pit M s = unmask_ioapic M 2 0 s"

definition lock_pit :: "'h machine \<Rightarrow> ('h, 'a) apic_state_scheme \<Rightarrow> ('h, 'a) apic_state_scheme" where
  "lock_pit M s = mask_ioapic M 2 0 s"

definition init_PIT :: "'h machine \<Rightarrow> (isr_name \<Rightarrow> u64) \<Rightarrow> ('h, 'a) apic_state_scheme \<Rightarrow> ('h, 'a) apic_state_scheme" where
  "init_PIT M isr_addr s =
     (let s = outb M 0x43 0b110100 s;
          s = outb M 0x40 (ucast (HERTZ_DIVIDER AND 0xFF)) s;
          s = outb M 0x40 (ucast (drop_bit 8 HERTZ_DIVIDER AND 0xFF)) s;
          s = s\<lparr>mem := set_IDT_entry 32 (isr_addr timer_isr) 0x8F (idtr_offset (cpu_view s)) (mem s)\<rparr>;
          s = map_ioapic M 32 2 0 False False s
      in lock_pit M s)"

definition pit_decrement_counter :: "('h, 'a) apic_state_scheme \<Rightarrow> ('h, 'a) apic_state_scheme" where
  "pit_decrement_counter s = s\<lparr>pit_counter := pit_counter s - 1\<rparr>"

definition take_ticks :: "'h machine \<Rightarrow> ('h, 'a) apic_state_scheme \<Rightarrow> ('h, 'a) apic_state_scheme" where
  "take_ticks M s = (let (k, h) = ticks M (hw s) in (pit_decrement_counter ^^ k) (s\<lparr>hw := h\<rparr>))"

text \<open>The waiting loop; the interrupts that arrive between two tests of the counter are taken before the
  second one.\<close>

fun pit_loop :: "nat \<Rightarrow> 'h machine \<Rightarrow> u64 \<Rightarrow> ('h, 'a) apic_state_scheme \<Rightarrow> ('h, 'a) apic_state_scheme result" where
  "pit_loop fuel M ms s =
     (if fuel = 0 then Inl Diverged
      else
        (let s = take_ticks M s in
         if pit_counter s > 0 \<and> pit_counter s \<le> ms then pit_loop (fuel - 1) M ms (outb M 0x80 0 s)
         else Inr s))"

declare pit_loop.simps [simp del]

definition pit_wait :: "'h machine \<Rightarrow> u64 \<Rightarrow> ('h, 'a) apic_state_scheme \<Rightarrow> ('h, 'a) apic_state_scheme result" where
  "pit_wait M ms s =
     (let s = s\<lparr>pit_counter := ms\<rparr>;
          s = unlock_pit M s;
          s = enable_interrupts M s
      in res_bind (pit_loop walk_fuel M ms s) (\<lambda>s.
         let s = disable_interrupts M s in Inr (lock_pit M s)))"

text \<open>The registers that are read for a debugging message are read here too.\<close>

definition init_lapic_timer :: "'h machine \<Rightarrow> ('h, 'a) apic_state_scheme \<Rightarrow> ('h, 'a) apic_state_scheme result" where
  "init_lapic_timer M s =
     (let lapic = lapic_addr s;
          s = on_hw (write_lapic M lapic LAPIC_TIMER_INITIAL_COUNT_REGISTER 0) s;
          s = on_hw (write_lapic M lapic LAPIC_TIMER_DIVIDER_REGISTER 3) s;
          s = on_hw (write_lapic M lapic LAPIC_TIMER_INITIAL_COUNT_REGISTER 0xFFFFFFFF) s
      in res_bind (pit_wait M 10 s) (\<lambda>s.
      let (current_count, h) = read_lapic M lapic LAPIC_TIMER_CURRENT_COUNT_REGISTER (hw s);
          h = write_lapic M lapic LAPIC_TIMER_INITIAL_COUNT_REGISTER 0 h;
          num_ticks = 0xFFFFFFFF - current_count;
          h = snd (read_lapic M lapic LAPIC_TIMER_LVT_REGISTER h);
          h = write_lapic M lapic LAPIC_TIMER_LVT_REGISTER (40 OR 0x20000) h;
          h = snd (read_lapic M lapic LAPIC_TIMER_LVT_REGISTER h);
          h = snd (read_lapic M lapic LAPIC_ERROR_STATUS_REGISTER h);
          h = write_lapic M lapic LAPIC_TIMER_DIVIDER_REGISTER 3 h;
          h = write_lapic M lapic LAPIC_TIMER_INITIAL_COUNT_REGISTER num_ticks h;
          h = snd (read_lapic M lapic LAPIC_TIMER_LVT_REGISTER h)
      in Inr (s\<lparr>hw := h\<rparr>)))"

section \<open>The firmware's tables\<close>

text \<open>The packed structures: \<open>revision\<close> and \<open>rsdt_address\<close> of \<open>RSDP\<close>, \<open>length\<close> of \<open>ISDTHeader\<close> (36 bytes),
  \<open>local_apic_addr\<close> of \<open>MADT\<close> (44 bytes).\<close>

definition rsdp_revision :: "memory \<Rightarrow> u64 \<Rightarrow> u8" where "rsdp_revision m a = m (a + 15)"
definition rsdp_rsdt_address :: "memory \<Rightarrow> u64 \<Rightarrow> u32" where "rsdp_rsdt_address m a = load 4 m (a + 16)"
definition isdt_length :: "memory \<Rightarrow> u64 \<Rightarrow> u32" where "isdt_length m a = load 4 m (a + 4)"
definition madt_local_apic_addr :: "memory \<Rightarrow> u64 \<Rightarrow> u32" where "madt_local_apic_addr m a = load 4 m (a + 36)"
definition sizeof_ISDTHeader :: u64 where "sizeof_ISDTHeader = 36"
definition sizeof_MADT :: u64 where "sizeof_MADT = 44"

definition kernel_map :: "u64 \<Rightarrow> u64 \<Rightarrow> u64 \<Rightarrow> 'a tasks_state_scheme \<Rightarrow> 'a tasks_state_scheme result" where
  "kernel_map virt phys flags s = map_pages (cr3 s + hhdm s) virt phys 1 flags s"

definition init_acpi :: "('h, 'a) apic_state_scheme \<Rightarrow> ('h, 'a) apic_state_scheme result" where
  "init_acpi s =
     res_bind (kernel_map (rsdp_table s) (rsdp_table s - hhdm s) KERNEL_PFLAG_PRESENT s) (\<lambda>s.
     if rsdp_revision (mem s) (rsdp_table s) \<noteq> 0 then Inl Halted
     else
       (let a = ucast (rsdp_rsdt_address (mem s) (rsdp_table s)) in
        res_bind (kernel_map (a + hhdm s) a KERNEL_PFLAG_PRESENT s) (\<lambda>s.
          Inr (s\<lparr>rsdt := ucast (rsdp_rsdt_address (mem s) (rsdp_table s)) + hhdm s\<rparr>))))"

definition rsdt_num_entries :: "memory \<Rightarrow> u64 \<Rightarrow> u64" where
  "rsdt_num_entries m root = (ucast (isdt_length m root) - sizeof_ISDTHeader) div 4"

definition rsdt_entry :: "u64 \<Rightarrow> memory \<Rightarrow> u64 \<Rightarrow> nat \<Rightarrow> u64" where
  "rsdt_entry offset m root i = ucast (load 4 m (root + sizeof_ISDTHeader + of_nat i * 4) :: u32) + offset"

primrec find_MADT_loop :: "nat list \<Rightarrow> u64 \<Rightarrow> u64 \<Rightarrow> memory \<Rightarrow> u64 \<Rightarrow> u64" where
  "find_MADT_loop [] ret offset m root = ret"
| "find_MADT_loop (i # is) ret offset m root =
     (let this_header = rsdt_entry offset m root i in
      if mem_chars m this_header 4 = ''APIC'' then this_header else find_MADT_loop is ret offset m root)"

text \<open>Without a match the function ends without a \<open>return\<close>: its caller sees what the return register held, \<open>ret\<close>.\<close>

definition find_MADT :: "u64 \<Rightarrow> u64 \<Rightarrow> memory \<Rightarrow> u64 \<Rightarrow> u64" where
  "find_MADT ret offset m root = find_MADT_loop [0..<unat (rsdt_num_entries m root)] ret offset m root"

section \<open>Setting up the controllers\<close>

definition verify_apic :: "'h machine \<Rightarrow> bool" where
  "verify_apic M \<longleftrightarrow> cpuid_edx M 1 AND push_bit 9 1 \<noteq> 0"

definition IOAPIC :: u8 where "IOAPIC = 1"

definition load_IOApic :: "memory \<Rightarrow> u64 \<Rightarrow> IOApic" where
  "load_IOApic m a = \<lparr>entry_type = m a, record_length = m (a + 1), ioapic_id = m (a + 2), ioapic_rsvd = m (a + 3),
     ioapic_base = load 4 m (a + 4), global_system_interrupt_base = load 4 m (a + 8)\<rparr>"

text \<open>What the loop does at one entry; the entry of a processor is only printed.\<close>

definition madt_entry :: "u64 \<Rightarrow> ('h, 'a) apic_state_scheme \<Rightarrow> ('h, 'a) apic_state_scheme result" where
  "madt_entry entry s =
     (if mem s entry = IOAPIC then
        (let a = ucast (ioapic_base (load_IOApic (mem s) entry)) in
         res_bind (kernel_map (a + hhdm s) a (KERNEL_PFLAG_PRESENT OR KERNEL_PFLAG_WRITE) s) (\<lambda>s.
           let s = s\<lparr>ioapic_device := load_IOApic (mem s) entry\<rparr> in
           Inr (s\<lparr>ioapic_addr := ucast (ioapic_base (load_IOApic (mem s) entry))\<rparr>)))
      else Inr s)"

text \<open>The pointer moves by the length of the entry it leaves, the count by the length of the entry it reaches.\<close>

fun madt_loop :: "nat \<Rightarrow> u64 \<Rightarrow> u64 \<Rightarrow> u64 \<Rightarrow> ('h, 'a) apic_state_scheme \<Rightarrow> ('h, 'a) apic_state_scheme result" where
  "madt_loop fuel madt entry incremented s =
     (if incremented < ucast (isdt_length (mem s) madt) then
        if fuel = 0 then Inl Diverged
        else
          res_bind (madt_entry entry s) (\<lambda>s.
          let entry = entry + ucast (mem s (entry + 1));
              incremented = incremented + ucast (mem s (entry + 1))
          in madt_loop (fuel - 1) madt entry incremented s)
      else Inr s)"

declare madt_loop.simps [simp del]

definition init_apic :: "'h machine \<Rightarrow> u64 \<Rightarrow> ('h, 'a) apic_state_scheme \<Rightarrow> ('h, 'a) apic_state_scheme result" where
  "init_apic M ret s =
     (if \<not> verify_apic M then Inl Halted
      else
        (let s = outb M 0x21 0xff s;
             s = outb M 0xA1 0xff s;
             madt = find_MADT ret (hhdm s) (mem s) (rsdt s);
             a = ucast (madt_local_apic_addr (mem s) madt)
         in res_bind (kernel_map (a + hhdm s) a (KERNEL_PFLAG_PRESENT OR KERNEL_PFLAG_WRITE) s) (\<lambda>s.
         let lapic_registers_virt = ucast (madt_local_apic_addr (mem s) madt) + hhdm s;
             s = s\<lparr>lapic_addr := lapic_registers_virt\<rparr>;
             s = init_local_apic M lapic_registers_virt s
         in madt_loop walk_fuel madt (madt + sizeof_MADT) sizeof_MADT s)))"

section \<open>The I/O APIC\<close>

text \<open>What the data sheet says of the registers behind the select and window registers: the window gives the
  selected register, and a write to it changes the register's writable bits.\<close>

definition ioapic_at :: "'h machine \<Rightarrow> u64 \<Rightarrow> ('h \<Rightarrow> u32 \<Rightarrow> u32) \<Rightarrow> (u32 \<Rightarrow> u32) \<Rightarrow> bool" where
  "ioapic_at M base regs writable \<longleftrightarrow>
     (\<forall>h r. r \<le> 0xFF \<longrightarrow>
        fst (mmio_read M (base + 16) (mmio_write M base r h)) = regs h r \<and>
        regs (snd (mmio_read M (base + 16) (mmio_write M base r h))) = regs h \<and>
        (\<forall>v. regs (mmio_write M (base + 16) v (mmio_write M base r h)) =
           (regs h)(r := (regs h r AND NOT (writable r)) OR (v AND writable r))))"

lemma and_byte_le: "(x :: u32) AND 0xFF \<le> 0xFF"
  by (rule word_and_le1)

lemma read_ioapic_at:
  assumes "ioapic_at M base regs w"
  shows "fst (read_ioapic M base r h) = regs h (r AND 0xFF)" "regs (snd (read_ioapic M base r h)) = regs h"
  using assms and_byte_le[of r] by (simp_all add: ioapic_at_def read_ioapic_def)

lemma write_ioapic_at:
  assumes "ioapic_at M base regs w"
  shows "regs (write_ioapic M base r v h) =
    (regs h)(r AND 0xFF := (regs h (r AND 0xFF) AND NOT (w (r AND 0xFF))) OR (v AND w (r AND 0xFF)))"
  using assms and_byte_le[of r] by (simp add: ioapic_at_def write_ioapic_def)

text \<open>A redirection entry as the controller reads it.\<close>

record redirection =
  r_vector :: u8
  r_delivery_mode :: u32
  r_logical :: bool
  r_active_low :: bool
  r_level :: bool
  r_masked :: bool
  r_destination :: u8

definition redirection_of :: "u32 \<Rightarrow> u32 \<Rightarrow> redirection" where
  "redirection_of low high = \<lparr>r_vector = ucast low, r_delivery_mode = drop_bit 8 low AND 7, r_logical = bit low 11,
     r_active_low = bit low 13, r_level = bit low 15, r_masked = bit low 16, r_destination = ucast (drop_bit 24 high)\<rparr>"

text \<open>The bits of the masks.\<close>

lemma one_bit:
  "bit (0x800 :: int) n \<longleftrightarrow> n = 11" "bit (0x2000 :: int) n \<longleftrightarrow> n = 13" "bit (0x8000 :: int) n \<longleftrightarrow> n = 15"
  "bit (0x10000 :: int) n \<longleftrightarrow> n = 16" "bit (0x20000 :: int) n \<longleftrightarrow> n = 17"
  using bit_exp_iff[where 'a = int, of 11 n] bit_exp_iff[where 'a = int, of 13 n] bit_exp_iff[where 'a = int, of 15 n]
    bit_exp_iff[where 'a = int, of 16 n] bit_exp_iff[where 'a = int, of 17 n] by auto

lemma some_bits:
  "bit (0xFF :: int) n \<longleftrightarrow> n < 8" "bit (0x700 :: int) n \<longleftrightarrow> 8 \<le> n \<and> n < 11" "bit (0x5000 :: int) n \<longleftrightarrow> n = 12 \<or> n = 14"
  using bit_mask_iff[where 'a = int, of 8 n] bit_push_bit_iff[where 'a = int, of 8 "mask 3" n]
    bit_or_iff[where 'a = int, of "2 ^ 12" "2 ^ 14" n] bit_exp_iff[where 'a = int, of 12 n] bit_exp_iff[where 'a = int, of 14 n]
  by (auto simp: mask_eq_exp_minus_1 bit_mask_iff[where 'a = int, of 3 "n - 8", unfolded mask_eq_exp_minus_1, simplified])

lemma nibble_bits: "bit (0xF :: int) n \<longleftrightarrow> n < 4" "bit (0xF0 :: int) n \<longleftrightarrow> 4 \<le> n \<and> n < 8"
  using bit_mask_iff[where 'a = int, of 4 n] bit_push_bit_iff[where 'a = int, of 4 "mask 4" n]
  by (auto simp: mask_eq_exp_minus_1 bit_mask_iff[where 'a = int, of 4 "n - 4", unfolded mask_eq_exp_minus_1, simplified])

lemma below_three: "(n :: nat) < 3 \<Longrightarrow> n = 0 \<or> n = 1 \<or> n = 2" by presburger

lemma redirection_low_bit:
  assumes "n < 32"
  shows "bit (redirection_low vec polarity trigger e) n \<longleftrightarrow>
    (if n < 8 then bit vec n else if n \<in> {8, 9, 10, 11, 16} then False
     else if n = 13 then polarity else if n = 15 then trigger else bit e n)"
  using assms by (cases polarity; cases trigger) (auto simp: redirection_low_def Let_def bit_simps one_bit some_bits dest: bit_imp_le_length)

lemma redirection_low_fields:
  assumes "low = (old AND NOT (NOT 0x5000)) OR (redirection_low vec polarity trigger e AND NOT 0x5000)"
  shows "ucast low = vec" "drop_bit 8 low AND 7 = 0" "\<not> bit low 11" "bit low 13 = polarity" "bit low 15 = trigger" "\<not> bit low 16"
proof -
  have b: "bit low n = bit (redirection_low vec polarity trigger e) n" if "n < 32" "n \<noteq> 12" "n \<noteq> 14" for n
    using that by (simp add: assms bit_simps some_bits)
  show "ucast low = vec" by (rule bit_word_eqI) (simp add: bit_simps b redirection_low_bit)
  show "drop_bit 8 low AND 7 = 0"
  proof (rule bit_word_eqI)
    fix n assume "n < LENGTH(32)"
    have "\<not> bit low (8 + n)" if "n < 3" using that below_three[OF that] by (auto simp: b redirection_low_bit)
    moreover have "drop_bit 8 low AND 7 = take_bit 3 (drop_bit 8 low)" by (simp add: take_bit_eq_mask mask_eq_exp_minus_1)
    ultimately show "bit (drop_bit 8 low AND 7) n = bit (0 :: u32) n" by (auto simp: bit_simps)
  qed
  show "\<not> bit low 11" "bit low 13 = polarity" "bit low 15 = trigger" "\<not> bit low 16"
    by (simp_all add: b redirection_low_bit)
qed

lemma redirection_high_field: "ucast (drop_bit 24 ((old AND NOT w) OR (redirection_high lapic AND w))) = (push_bit 4 (ucast (lapic AND 0xF)) :: u8)"
  if "w AND 0xFF000000 = (0xFF000000 :: u32)"
proof (rule bit_word_eqI)
  fix n assume "n < LENGTH(8)"
  then have n: "n < 8" by simp
  have "(0xFF000000 :: u32) = push_bit 24 (mask 8)" by (simp add: mask_eq_exp_minus_1)
  then have "bit (w AND push_bit 24 (mask 8)) (24 + n) = bit (push_bit 24 (mask 8) :: u32) (24 + n)" using that by simp
  then have "bit w (24 + n)" using n by (simp add: bit_simps)
  then show "bit (ucast (drop_bit 24 ((old AND NOT w) OR (redirection_high lapic AND w))) :: u8) n =
      bit (push_bit 4 (ucast (lapic AND 0xF)) :: u8) n"
    using n by (auto simp: bit_simps redirection_high_def nibble_bits)
qed

section \<open>Properties\<close>

text \<open>C36. Routing an interrupt: \<open>map_ioapic\<close> leaves the redirection entry of the interrupt with the vector, polarity
  and trigger asked for, fixed delivery to a physical destination, and not masked; no other register of the
  controller changes. The destination is sixteen times the number given, which is the number itself for
  processor 0 only.\<close>

theorem map_ioapic_routes:
  assumes "ioapic_at M (ioapic_vaddr s) regs w"
    and "lo = (0x10 + (global_system_interrupt_base (ioapic_device s) + irq * 2)) AND 0xFF"
    and "hi = (0x11 + (global_system_interrupt_base (ioapic_device s) + irq * 2)) AND 0xFF"
    and "w lo = NOT 0x5000" and "w hi AND 0xFF000000 = 0xFF000000"
  shows "(let new = regs (hw (map_ioapic M vec irq lapic polarity trigger s)) in
    redirection_of (new lo) (new hi) =
      \<lparr>r_vector = vec, r_delivery_mode = 0, r_logical = False, r_active_low = polarity, r_level = trigger,
       r_masked = False, r_destination = push_bit 4 (ucast (lapic AND 0xF))\<rparr> \<and>
    (\<forall>r. r \<noteq> lo \<and> r \<noteq> hi \<longrightarrow> new r = regs (hw s) r))"
proof -
  note at = read_ioapic_at[OF assms(1)] write_ioapic_at[OF assms(1)]
  have ne: "lo \<noteq> hi"
  proof
    assume "lo = hi"
    then have "bit lo 0 = bit hi 0" by simp
    then show False unfolding assms(2,3) by (simp add: bit_0 even_and_iff)
  qed
  obtain e0 h0 e1 h1 where r: "read_ioapic M (ioapic_vaddr s) (0x10 + (global_system_interrupt_base (ioapic_device s) + irq * 2)) (hw s) = (e0, h0)"
    "read_ioapic M (ioapic_vaddr s) (0x11 + (global_system_interrupt_base (ioapic_device s) + irq * 2)) h0 = (e1, h1)"
    by fastforce
  then have h1: "regs h1 = regs (hw s)"
    using at(2)[of _ "hw s"] at(2)[of _ h0] by (metis snd_conv)
  define low high where "low = (regs (hw s) lo AND NOT (w lo)) OR (redirection_low vec polarity trigger e0 AND w lo)"
    and "high = (regs (hw s) hi AND NOT (w hi)) OR (redirection_high lapic AND w hi)"
  have new: "regs (hw (map_ioapic M vec irq lapic polarity trigger s)) = (regs (hw s))(lo := low, hi := high)"
    using r ne by (simp add: map_ioapic_def Let_def at(3) h1 assms(2,3)[symmetric] low_def high_def)
  have "redirection_of low high = \<lparr>r_vector = vec, r_delivery_mode = 0, r_logical = False, r_active_low = polarity,
      r_level = trigger, r_masked = False, r_destination = push_bit 4 (ucast (lapic AND 0xF))\<rparr>"
    using redirection_low_fields[OF low_def[unfolded assms(4)]] redirection_high_field[OF assms(5)]
    by (simp add: redirection_of_def high_def)
  then show ?thesis using ne by (simp add: new Let_def)
qed

section \<open>Waiting for the timer\<close>

text \<open>The hardware after one round of the waiting loop, and the interrupts taken up to and including test \<open>n\<close>.\<close>

definition pit_round :: "'h machine \<Rightarrow> 'h \<Rightarrow> 'h" where
  "pit_round M h = port_out M 0x80 0 (snd (ticks M h))"

definition ticks_upto :: "'h machine \<Rightarrow> nat \<Rightarrow> 'h \<Rightarrow> nat" where
  "ticks_upto M n h = (\<Sum>i \<le> n. fst (ticks M ((pit_round M ^^ i) h)))"

lemma ticks_upto_simps:
  "ticks_upto M 0 h = fst (ticks M h)" "ticks_upto M (Suc n) h = fst (ticks M h) + ticks_upto M n (pit_round M h)"
  by (simp_all add: ticks_upto_def sum.atMost_Suc_shift funpow_swap1 del: sum.atMost_Suc)

lemma pit_decrements: "(pit_decrement_counter ^^ k) s = s\<lparr>pit_counter := pit_counter s - of_nat k\<rparr>"
  by (induction k) (simp_all add: pit_decrement_counter_def algebra_simps)

lemma take_ticks_eq:
  "take_ticks M s = s\<lparr>hw := snd (ticks M (hw s)), pit_counter := pit_counter s - of_nat (fst (ticks M (hw s)))\<rparr>"
  by (simp add: take_ticks_def pit_decrements split: prod.split)

text \<open>The test the loop makes, on the number of interrupts so far.\<close>

lemma pit_test:
  assumes "k < 2 ^ 64"
  shows "(0 < ms - of_nat k \<and> ms - of_nat k \<le> (ms :: u64)) \<longleftrightarrow> k < unat ms"
proof -
  have k: "unat (of_nat k :: u64) = k" using assms by (intro unat_of_nat_u64)
  show ?thesis
    using k assms unsigned_less[of ms] unfolding word_less_nat_alt word_le_nat_alt unat_sub_if' by auto
qed

lemma pit_loop_waits:
  assumes "pit_counter s = ms - of_nat k" and "k + ticks_upto M n (hw s) < 2 ^ 64" and "unat ms \<le> k + ticks_upto M n (hw s)"
    and "n < fuel"
  shows "\<exists>i \<le> n. unat ms \<le> k + ticks_upto M i (hw s) \<and> (\<forall>j < i. k + ticks_upto M j (hw s) < unat ms) \<and>
    pit_loop fuel M ms s = Inr (s\<lparr>hw := snd (ticks M ((pit_round M ^^ i) (hw s))), pit_counter := ms - of_nat (k + ticks_upto M i (hw s))\<rparr>)"
  using assms
proof (induction n arbitrary: fuel s k)
  case 0
  have c: "pit_counter (take_ticks M s) = ms - of_nat (k + ticks_upto M 0 (hw s))"
    using 0(1) by (simp add: take_ticks_eq ticks_upto_simps algebra_simps)
  have "\<not> (pit_counter (take_ticks M s) > 0 \<and> pit_counter (take_ticks M s) \<le> ms)"
    unfolding c using pit_test[OF 0(2)] 0(3) by simp
  then have "pit_loop fuel M ms s = Inr (take_ticks M s)" using 0(4) by (subst pit_loop.simps) (auto simp: Let_def)
  then show ?case using 0 c by (auto simp: take_ticks_eq)
next
  case (Suc n)
  let ?t = "take_ticks M s" and ?u = "outb M 0x80 0 (take_ticks M s)" and ?k = "k + fst (ticks M (hw s))"
  have c: "pit_counter ?t = ms - of_nat ?k" using Suc(2) by (simp add: take_ticks_eq algebra_simps)
  have u: "pit_counter ?u = ms - of_nat ?k" "hw ?u = pit_round M (hw s)"
    using c by (simp_all add: outb_def on_hw_def take_ticks_eq pit_round_def)
  have sz: "?k < 2 ^ 64" using Suc(3) by (simp add: ticks_upto_simps)
  show ?case
  proof (cases "?k < unat ms")
    case True
    have l: "pit_loop fuel M ms s = pit_loop (fuel - 1) M ms ?u"
      using Suc(5) pit_test[OF sz] True c by (subst pit_loop.simps) (simp add: Let_def)
    have "?k + ticks_upto M n (hw ?u) < 2 ^ 64" "unat ms \<le> ?k + ticks_upto M n (hw ?u)" "n < fuel - 1"
      using Suc(3,4,5) unfolding u(2) ticks_upto_simps by simp_all
    from Suc(1)[OF u(1) this] obtain i where i: "i \<le> n" "unat ms \<le> ?k + ticks_upto M i (hw ?u)"
      "\<forall>j < i. ?k + ticks_upto M j (hw ?u) < unat ms"
      "pit_loop (fuel - 1) M ms ?u = Inr (?u\<lparr>hw := snd (ticks M ((pit_round M ^^ i) (hw ?u))),
         pit_counter := ms - of_nat (?k + ticks_upto M i (hw ?u))\<rparr>)" by blast
    have "\<forall>j < Suc i. k + ticks_upto M j (hw s) < unat ms"
      using i(3) True unfolding u(2) by (auto simp: less_Suc_eq_0_disj ticks_upto_simps add.assoc)
    moreover have "pit_loop fuel M ms s = Inr (s\<lparr>hw := snd (ticks M ((pit_round M ^^ Suc i) (hw s))),
         pit_counter := ms - of_nat (k + ticks_upto M (Suc i) (hw s))\<rparr>)"
      unfolding l i(4) u(2) by (simp add: ticks_upto_simps funpow_swap1 outb_def on_hw_def take_ticks_eq add.assoc)
    ultimately show ?thesis using i(1,2) unfolding u(2) by (intro exI[of _ "Suc i"]) (simp add: ticks_upto_simps add.assoc)
  next
    case False
    then have "pit_loop fuel M ms s = Inr ?t" using Suc(5) pit_test[OF sz] c by (subst pit_loop.simps) (auto simp: Let_def)
    then show ?thesis using False c Suc(2) by (intro exI[of _ 0]) (simp add: ticks_upto_simps take_ticks_eq add.assoc)
  qed
qed

lemma pit_frames:
  "unmask_ioapic M i l s = s\<lparr>hw := hw (unmask_ioapic M i l s)\<rparr>" "mask_ioapic M i l s = s\<lparr>hw := hw (mask_ioapic M i l s)\<rparr>"
  by (simp_all add: unmask_ioapic_def mask_ioapic_def Let_def split: prod.split)

lemma pit_started:
  "pit_counter (enable_interrupts M (unlock_pit M (s\<lparr>pit_counter := ms\<rparr>))) = ms"
  "enable_interrupts M (unlock_pit M (s\<lparr>pit_counter := ms\<rparr>)) = s\<lparr>hw := hw (enable_interrupts M (unlock_pit M s)), pit_counter := ms\<rparr>"
  by (simp_all add: enable_interrupts_def on_hw_def unlock_pit_def unmask_ioapic_def ioapic_vaddr_def Let_def split: prod.split)

text \<open>C37. Waiting for the timer: \<open>pit_wait\<close> returns at the first test at which at least as many timer interrupts as
  the milliseconds asked for have been taken, whatever the number that arrives between two tests, also when
  the counter has gone below zero and wrapped; then interrupts are off and the timer is locked.\<close>

theorem pit_wait_ends:
  assumes "h = hw (enable_interrupts M (unlock_pit M s))" and "unat ms \<le> ticks_upto M n h" and "ticks_upto M n h < 2 ^ 64"
    and "n < walk_fuel"
  shows "\<exists>i \<le> n. unat ms \<le> ticks_upto M i h \<and> (\<forall>j < i. ticks_upto M j h < unat ms) \<and>
    pit_wait M ms s = Inr (lock_pit M (disable_interrupts M
      (s\<lparr>hw := snd (ticks M ((pit_round M ^^ i) h)), pit_counter := ms - of_nat (ticks_upto M i h)\<rparr>)))"
proof -
  let ?s = "s\<lparr>hw := h, pit_counter := ms\<rparr>"
  obtain i where i: "i \<le> n" "unat ms \<le> ticks_upto M i h" "\<forall>j < i. ticks_upto M j h < unat ms"
    "pit_loop walk_fuel M ms ?s = Inr (?s\<lparr>hw := snd (ticks M ((pit_round M ^^ i) h)), pit_counter := ms - of_nat (ticks_upto M i h)\<rparr>)"
    using pit_loop_waits[of ?s ms 0 M n walk_fuel] assms by auto
  have "pit_wait M ms s = res_bind (pit_loop walk_fuel M ms ?s) (\<lambda>s. Inr (lock_pit M (disable_interrupts M s)))"
    unfolding pit_wait_def Let_def pit_started(2) assms(1) ..
  then show ?thesis using i by auto
qed

section \<open>The table of the controllers\<close>

text \<open>Entry \<open>i\<close> of a table whose entries have the lengths \<open>ls\<close>, and the effects of a list of entries.\<close>

definition madt_at :: "u64 \<Rightarrow> nat list \<Rightarrow> nat \<Rightarrow> u64" where
  "madt_at madt ls i = madt + sizeof_MADT + of_nat (sum_list (take i ls))"

fun madt_visit :: "u64 list \<Rightarrow> ('h, 'a) apic_state_scheme \<Rightarrow> ('h, 'a) apic_state_scheme result" where
  "madt_visit [] s = Inr s"
| "madt_visit (e # es) s = res_bind (madt_entry e s) (madt_visit es)"

lemma madt_visit_snoc: "madt_visit (es @ [e]) s = res_bind (madt_visit es s) (madt_entry e)"
proof (induction es arbitrary: s)
  case Nil
  show ?case by (cases "madt_entry e s") simp_all
next
  case (Cons a es)
  then show ?case by (cases "madt_entry a s") simp_all
qed

text \<open>The memory of the table up to the length byte behind its last entry.\<close>

definition madt_same :: "u64 \<Rightarrow> nat list \<Rightarrow> ('h, 'a) apic_state_scheme \<Rightarrow> ('h, 'a) apic_state_scheme \<Rightarrow> bool" where
  "madt_same madt ls s t \<longleftrightarrow> (\<forall>x. x - madt < of_nat (sum_list ls + 46) \<longrightarrow> mem t x = mem s x)"

lemma sum_take_le: "sum_list (take i ls) \<le> sum_list (ls :: nat list)"
  by (induction ls arbitrary: i) (auto simp: take_Cons' )

lemma of_nat_less_u64: "i < j \<Longrightarrow> j < 2 ^ 64 \<Longrightarrow> of_nat i < (of_nat j :: u64)"
  by (simp add: word_less_nat_alt unat_of_nat_u64)

lemma madt_same_at:
  assumes "madt_same madt ls s t" and "44 + sum_list ls < 2 ^ 32"
  shows "mem t (madt_at madt ls i) = mem s (madt_at madt ls i)"
    "mem t (madt_at madt ls i + 1) = mem s (madt_at madt ls i + 1)" "isdt_length (mem t) madt = isdt_length (mem s) madt"
proof -
  have le: "sum_list (take i ls) \<le> sum_list ls" by (rule sum_take_le)
  have w: "mem t (madt + of_nat k) = mem s (madt + of_nat k)" if "k < sum_list ls + 46" for k
  proof -
    have "of_nat k < (of_nat (sum_list ls + 46) :: u64)" using that assms(2) by (intro of_nat_less_u64) simp_all
    then show ?thesis using assms(1) by (simp add: madt_same_def)
  qed
  have at: "madt_at madt ls i = madt + of_nat (44 + sum_list (take i ls))" "madt_at madt ls i + 1 = madt + of_nat (45 + sum_list (take i ls))"
    by (simp_all add: madt_at_def sizeof_MADT_def)
  show "mem t (madt_at madt ls i) = mem s (madt_at madt ls i)" "mem t (madt_at madt ls i + 1) = mem s (madt_at madt ls i + 1)"
    using w[of "44 + sum_list (take i ls)"] w[of "45 + sum_list (take i ls)"] le unfolding at(2) at(1) by (simp_all add: ac_simps)
  have "mem t (madt + 4 + of_nat j) = mem s (madt + 4 + of_nat j)" if "j < 4" for j
    using w[of "4 + j"] that by (simp add: add.assoc)
  then show "isdt_length (mem t) madt = isdt_length (mem s) madt"
    unfolding isdt_length_def by (intro load_cong) simp
qed

lemma madt_at_next:
  "i < length ls \<Longrightarrow> madt_at madt ls i + of_nat (ls ! i) = madt_at madt ls (Suc i)"
  by (simp add: madt_at_def take_Suc_conv_app_nth algebra_simps)

text \<open>The count before entry \<open>k\<close> is visited: the length of the first entry is never added.\<close>

definition madt_count :: "nat list \<Rightarrow> nat \<Rightarrow> nat" where
  "madt_count ls k = 44 + sum_list (take k (tl ls))"

lemma madt_count_less: "ls \<noteq> [] \<Longrightarrow> madt_count ls k + hd ls \<le> 44 + sum_list ls"
  using sum_take_le[of k "tl ls"] by (cases ls) (simp_all add: madt_count_def)

lemma madt_count_next: "Suc k < length ls \<Longrightarrow> madt_count ls (Suc k) = madt_count ls k + ls ! Suc k"
  by (simp add: madt_count_def take_Suc_conv_app_nth nth_tl)

text \<open>A table in memory, every entry of which is visited without a change to it.\<close>

definition madt_ok :: "u64 \<Rightarrow> nat list \<Rightarrow> ('h, 'a) apic_state_scheme \<Rightarrow> bool" where
  "madt_ok madt ls s \<longleftrightarrow> ls \<noteq> [] \<and> 0 < hd ls \<and> 44 + sum_list ls < 2 ^ 32 \<and>
     isdt_length (mem s) madt = of_nat (44 + sum_list ls) \<and>
     (\<forall>i < length ls. unat (mem s (madt_at madt ls i + 1)) = ls ! i) \<and>
     (\<forall>k \<le> length ls. \<exists>t. madt_visit (map (madt_at madt ls) [0..<k]) s = Inr t \<and> madt_same madt ls s t)"

lemma madt_less:
  assumes "44 + sum_list ls < 2 ^ 32" and "isdt_length m madt = of_nat (44 + sum_list ls)" and "c < 2 ^ 33"
  shows "of_nat c < (ucast (isdt_length m madt) :: u64) \<longleftrightarrow> c < 44 + sum_list ls"
proof -
  have "unat (ucast (isdt_length m madt) :: u64) = 44 + sum_list ls"
    unfolding assms(2) using assms(1)
    by (simp add: unsigned_ucast_eq unsigned_of_nat take_bit_nat_eq_self del: of_nat_add)
  moreover have "unat (of_nat c :: u64) = c" using assms(3) by (intro unat_of_nat_u64) simp
  ultimately show ?thesis by (simp only: word_less_nat_alt)
qed

lemma byte_word: "unat (b :: u8) = n \<Longrightarrow> (ucast b :: u64) = of_nat n"
  by (metis of_nat_unat)

lemma madt_loop_prefix:
  assumes ok: "madt_ok madt ls s" and k: "k < length ls" and f: "k \<le> fuel"
    and t: "madt_visit (map (madt_at madt ls) [0..<k]) s = Inr t"
  shows "madt_loop fuel madt (madt_at madt ls 0) (of_nat (madt_count ls 0)) s =
    madt_loop (fuel - k) madt (madt_at madt ls k) (of_nat (madt_count ls k)) t"
  using k f t
proof (induction k arbitrary: t)
  case 0
  then show ?case by simp
next
  case (Suc k)
  obtain u where u: "madt_visit (map (madt_at madt ls) [0..<k]) s = Inr u" "madt_same madt ls s u"
    using ok Suc(2) unfolding madt_ok_def by (metis Suc_lessD less_imp_le)
  have e: "madt_entry (madt_at madt ls k) u = Inr t" using Suc(4) u(1) by (simp add: madt_visit_snoc)
  have st: "madt_same madt ls s t"
    using ok Suc(2,4) unfolding madt_ok_def by (metis less_imp_le sum.inject(2))
  have sm: "44 + sum_list ls < 2 ^ 32" "ls \<noteq> []" "isdt_length (mem s) madt = of_nat (44 + sum_list ls)" "0 < hd ls"
    and en: "\<And>i. i < length ls \<Longrightarrow> unat (mem s (madt_at madt ls i + 1)) = ls ! i"
    using ok by (simp_all add: madt_ok_def)
  have c: "madt_count ls k < 44 + sum_list ls" using madt_count_less[OF sm(2), of k] sm(4) by simp
  have "of_nat (madt_count ls k) < (ucast (isdt_length (mem u) madt) :: u64)"
    using madt_less[OF sm(1), of "mem u" madt "madt_count ls k"] c sm(1) madt_same_at(3)[OF u(2) sm(1)] sm(3) by simp
  moreover have "ucast (mem t (madt_at madt ls k + 1)) = (of_nat (ls ! k) :: u64)"
    using Suc(2) by (intro byte_word) (simp add: madt_same_at(2)[OF st sm(1)] en)
  moreover have "ucast (mem t (madt_at madt ls (Suc k) + 1)) = (of_nat (ls ! Suc k) :: u64)"
    using Suc(2) by (intro byte_word) (simp add: madt_same_at(2)[OF st sm(1)] en)
  moreover have "fuel - k \<noteq> 0" "fuel - k - 1 = fuel - Suc k" using Suc(3) by simp_all
  ultimately have "madt_loop (fuel - k) madt (madt_at madt ls k) (of_nat (madt_count ls k)) u =
      madt_loop (fuel - Suc k) madt (madt_at madt ls (Suc k)) (of_nat (madt_count ls (Suc k))) t"
    using Suc(2) e by (subst madt_loop.simps) (simp add: Let_def madt_at_next madt_count_next)
  then show ?case using Suc(1)[OF _ _ u(1)] Suc(2,3) by simp
qed

lemma madt_loop_stuck:
  assumes "incremented < ucast (isdt_length (mem s) madt)" and "mem s (entry + 1) = 0" and "mem s entry \<noteq> IOAPIC"
  shows "madt_loop fuel madt entry incremented s = Inl Diverged"
proof (induction fuel)
  case 0
  show ?case using assms(1) by (subst madt_loop.simps) simp
next
  case (Suc f)
  then show ?case using assms by (subst madt_loop.simps) (simp add: madt_entry_def Let_def)
qed

text \<open>Enumerating the controllers: the loop of \<open>init_apic\<close> visits every entry of the table in order. Its count leaves
  out the first entry and takes in the length byte behind the table's end: when that byte is at least the
  first entry's length the loop ends there, and when it is zero the loop never ends.\<close>

theorem madt_loop_visits:
  assumes "madt_ok madt ls s" and "length ls < walk_fuel"
  shows "(hd ls \<le> unat (mem s (madt_at madt ls (length ls) + 1)) \<longrightarrow>
      madt_loop walk_fuel madt (madt + sizeof_MADT) sizeof_MADT s = madt_visit (map (madt_at madt ls) [0..<length ls]) s) \<and>
    (mem s (madt_at madt ls (length ls) + 1) = 0 \<and> mem s (madt_at madt ls (length ls)) \<noteq> IOAPIC \<longrightarrow>
      madt_loop walk_fuel madt (madt + sizeof_MADT) sizeof_MADT s = Inl Diverged)"
proof -
  define n where "n = length ls - 1"
  have sm: "44 + sum_list ls < 2 ^ 32" "ls \<noteq> []" "isdt_length (mem s) madt = of_nat (44 + sum_list ls)" "0 < hd ls"
    and en: "\<And>i. i < length ls \<Longrightarrow> unat (mem s (madt_at madt ls i + 1)) = ls ! i"
    and vis: "\<And>k. k \<le> length ls \<Longrightarrow> \<exists>t. madt_visit (map (madt_at madt ls) [0..<k]) s = Inr t \<and> madt_same madt ls s t"
    using assms(1) by (simp_all add: madt_ok_def)
  have n: "length ls = Suc n" using sm(2) by (cases ls) (simp_all add: n_def)
  obtain u where u: "madt_visit (map (madt_at madt ls) [0..<n]) s = Inr u" "madt_same madt ls s u" using vis[of n] n by auto
  obtain t where t: "madt_visit (map (madt_at madt ls) [0..<Suc n]) s = Inr t" "madt_same madt ls s t" using vis[of "Suc n"] n by auto
  have e: "madt_entry (madt_at madt ls n) u = Inr t" using t(1) u(1) by (simp add: madt_visit_snoc)
  note same = madt_same_at[OF t(2) sm(1)]
  let ?x = "mem s (madt_at madt ls (Suc n) + 1)"
  have c: "madt_count ls n + hd ls = 44 + sum_list ls" using n by (cases ls) (simp_all add: madt_count_def)
  have lt: "of_nat (madt_count ls n) < (ucast (isdt_length (mem u) madt) :: u64)"
    using madt_less[OF sm(1), of "mem u" madt "madt_count ls n"] c sm(1,3,4) madt_same_at(3)[OF u(2) sm(1)] by simp
  have b: "ucast (mem t (madt_at madt ls n + 1)) = (of_nat (ls ! n) :: u64)"
    using n by (intro byte_word) (simp add: same en)
  have x: "ucast (mem t (madt_at madt ls (Suc n) + 1)) = (of_nat (unat ?x) :: u64)" by (rule byte_word) (simp add: same)
  have 0: "madt_loop walk_fuel madt (madt + sizeof_MADT) sizeof_MADT s =
      madt_loop (walk_fuel - n) madt (madt_at madt ls n) (of_nat (madt_count ls n)) u"
    using madt_loop_prefix[OF assms(1) _ _ u(1), of walk_fuel] assms(2) n
    by (simp add: madt_at_def madt_count_def sizeof_MADT_def)
  have "madt_at madt ls n + of_nat (ls ! n) = madt_at madt ls (Suc n)" using n by (intro madt_at_next) simp
  moreover have "walk_fuel - n \<noteq> 0" "walk_fuel - n - 1 = walk_fuel - Suc n" using assms(2) n by simp_all
  ultimately have 1: "madt_loop walk_fuel madt (madt + sizeof_MADT) sizeof_MADT s =
      madt_loop (walk_fuel - Suc n) madt (madt_at madt ls (Suc n)) (of_nat (madt_count ls n + unat ?x)) t"
    unfolding 0 using lt e by (subst madt_loop.simps) (simp add: Let_def b x)
  have less: "of_nat (madt_count ls n + unat ?x) < (ucast (isdt_length (mem t) madt) :: u64) \<longleftrightarrow> unat ?x < hd ls"
  proof -
    have "unat ?x < 2 ^ 8" using unsigned_less[of ?x, where 'a = nat] by simp
    then have "madt_count ls n + unat ?x < 2 ^ 33" using c sm(1) by simp
    from madt_less[OF sm(1) _ this, of "mem t" madt] same(3) sm(3) c show ?thesis by (simp only:) auto
  qed
  show ?thesis unfolding n
  proof (intro conjI impI)
    assume "hd ls \<le> unat ?x"
    then show "madt_loop walk_fuel madt (madt + sizeof_MADT) sizeof_MADT s = madt_visit (map (madt_at madt ls) [0..<Suc n]) s"
      unfolding 1 t(1) using less by (subst madt_loop.simps) simp
  next
    assume z: "?x = 0 \<and> mem s (madt_at madt ls (Suc n)) \<noteq> IOAPIC"
    show "madt_loop walk_fuel madt (madt + sizeof_MADT) sizeof_MADT s = Inl Diverged"
      unfolding 1 using z less sm(4) by (intro madt_loop_stuck) (simp_all add: same)
  qed
qed

lemma find_MADT_first:
  "find_MADT ret offset m root =
     (case find (\<lambda>a. mem_chars m a 4 = ''APIC'') (map (rsdt_entry offset m root) [0..<unat (rsdt_num_entries m root)]) of
        Some a \<Rightarrow> a | None \<Rightarrow> ret)"
proof -
  have "find_MADT_loop is ret offset m root =
      (case find (\<lambda>a. mem_chars m a 4 = ''APIC'') (map (rsdt_entry offset m root) is) of Some a \<Rightarrow> a | None \<Rightarrow> ret)" for "is"
    by (induction "is") (simp_all add: Let_def)
  then show ?thesis by (simp add: find_MADT_def)
qed

section \<open>A concrete machine\<close>

text \<open>A machine with one I/O APIC at \<open>io\<close> whose registers have the writable bits \<open>w\<close>, other registers that hold
  what is written to them, and timer interrupts as listed.\<close>

record pc =
  io_select :: u32
  io_regs :: "u32 \<Rightarrow> u32"
  other_regs :: "u64 \<Rightarrow> u32"
  due :: "nat list"

definition pc_machine :: "u64 \<Rightarrow> (u32 \<Rightarrow> u32) \<Rightarrow> pc machine" where
  "pc_machine io w =
     \<lparr>mmio_read = (\<lambda>a h. (if a = io + 16 then io_regs h (io_select h) else other_regs h a, h)),
      mmio_write = (\<lambda>a v h.
        if a = io then h\<lparr>io_select := v\<rparr>
        else if a = io + 16
        then h\<lparr>io_regs := (io_regs h)(io_select h := (io_regs h (io_select h) AND NOT (w (io_select h))) OR (v AND w (io_select h)))\<rparr>
        else h\<lparr>other_regs := (other_regs h)(a := v)\<rparr>),
      port_in = (\<lambda>_ h. (0, h)), port_out = (\<lambda>_ _ h. h), set_interrupts = (\<lambda>_ h. h),
      ticks = (\<lambda>h. case due h of [] \<Rightarrow> (0, h) | k # ks \<Rightarrow> (k, h\<lparr>due := ks\<rparr>)),
      cpuid_edx = (\<lambda>_. push_bit 9 1)\<rparr>"

lemma pc_ioapic: "ioapic_at (pc_machine io w) io io_regs w"
  by (simp add: ioapic_at_def pc_machine_def)

definition sample_apic :: "call_state \<Rightarrow> pc \<Rightarrow> pc apic_state" where
  "sample_apic t h = call_state.extend t
     \<lparr>hw = h, rsdp_table = 0, rsdt = 0,
      ioapic_device = \<lparr>entry_type = 1, record_length = 12, ioapic_id = 0, ioapic_rsvd = 0, ioapic_base = 0xFEC00000,
        global_system_interrupt_base = 0\<rparr>,
      pit_counter = 0, cpu_regs = pmm_state.more sample_cpu\<rparr>"

lemma sample_apic_simps [simp]:
  "hw (sample_apic t h) = h" "hhdm (sample_apic t h) = hhdm t" "ioapic_base (ioapic_device (sample_apic t h)) = 0xFEC00000"
  "global_system_interrupt_base (ioapic_device (sample_apic t h)) = 0"
  by (simp_all add: sample_apic_def call_state.defs)

theorem map_ioapic_routes_witness:
  "\<forall>t :: call_state. \<forall>h.
     (let M = pc_machine (0xFEC00000 + hhdm t) (\<lambda>r. NOT 0x5000);
          s = map_ioapic M 33 1 3 False True (sample_apic t h)
      in redirection_of (io_regs (hw s) 18) (io_regs (hw s) 19) =
           \<lparr>r_vector = 33, r_delivery_mode = 0, r_logical = False, r_active_low = False, r_level = True,
            r_masked = False, r_destination = 48\<rparr> \<and> io_regs (hw s) 16 = io_regs h 16)"
proof (intro allI)
  fix t :: call_state and h
  let ?M = "pc_machine (0xFEC00000 + hhdm t) (\<lambda>r. NOT 0x5000)" and ?s = "sample_apic t h"
  have v: "ioapic_vaddr ?s = 0xFEC00000 + hhdm t" by (simp add: ioapic_vaddr_def)
  have at: "ioapic_at ?M (ioapic_vaddr ?s) io_regs (\<lambda>r. NOT 0x5000)" unfolding v by (rule pc_ioapic)
  have "(NOT 0x5000 :: u32) AND 0xFF000000 = 0xFF000000" by code_simp
  then show "let M = ?M; s = map_ioapic M 33 1 3 False True ?s
      in redirection_of (io_regs (hw s) 18) (io_regs (hw s) 19) =
           \<lparr>r_vector = 33, r_delivery_mode = 0, r_logical = False, r_active_low = False, r_level = True,
            r_masked = False, r_destination = 48\<rparr> \<and> io_regs (hw s) 16 = io_regs h 16"
    using map_ioapic_routes[OF at, of 18 1 19 33 3 False True] by (simp add: Let_def)
qed

lemma pc_ticks:
  "ticks (pc_machine io w) h = (case due h of [] \<Rightarrow> (0, h) | k # ks \<Rightarrow> (k, h\<lparr>due := ks\<rparr>))"
  "pit_round (pc_machine io w) h = h\<lparr>due := tl (due h)\<rparr>"
  by (simp_all add: pit_round_def pc_machine_def split: list.split)

lemma pc_locking:
  "due (hw (unlock_pit (pc_machine io w) s)) = due (hw s)" "due (hw (lock_pit (pc_machine io w) s)) = due (hw s)"
  "due (hw (enable_interrupts (pc_machine io w) s)) = due (hw s)" "due (hw (disable_interrupts (pc_machine io w) s)) = due (hw s)"
  "pit_counter (lock_pit M s') = pit_counter s'" "pit_counter (disable_interrupts M s') = pit_counter s'"
  by (simp_all add: enable_interrupts_def disable_interrupts_def on_hw_def unlock_pit_def lock_pit_def unmask_ioapic_def
      mask_ioapic_def read_ioapic_def write_ioapic_def Let_def pc_machine_def split: prod.split)

theorem pit_wait_ends_witness:
  "\<forall>t :: call_state. \<forall>h.
     (\<exists>s. pit_wait (pc_machine 0 (\<lambda>_. - 1)) 5 (sample_apic t (h\<lparr>due := [2, 0, 7, 3]\<rparr>)) = Inr s \<and> due (hw s) = [3] \<and> pit_counter s = - 4)"
proof (intro allI)
  fix t :: call_state and h :: pc
  let ?M = "pc_machine 0 (\<lambda>_. - 1)" and ?s = "sample_apic t (h\<lparr>due := [2, 0, 7, 3]\<rparr>)"
  define g where "g = hw (enable_interrupts ?M (unlock_pit ?M ?s))"
  have g: "due g = [2, 0, 7, 3]" by (simp add: g_def pc_locking)
  have tu: "ticks_upto ?M 0 g = 2" "ticks_upto ?M 1 g = 2" "ticks_upto ?M 2 g = 9"
    by (simp_all add: ticks_upto_simps pc_ticks g numeral_2_eq_2)
  from pit_wait_ends[OF g_def, of 5 2] tu obtain i where i: "i \<le> 2" "5 \<le> ticks_upto ?M i g"
    "pit_wait ?M 5 ?s = Inr (lock_pit ?M (disable_interrupts ?M
      (?s\<lparr>hw := snd (ticks ?M ((pit_round ?M ^^ i) g)), pit_counter := 5 - of_nat (ticks_upto ?M i g)\<rparr>)))"
    by (auto simp: walk_fuel_def)
  have "i = 2" using i(1,2) tu by (auto simp: le_Suc_eq numeral_2_eq_2)
  then show "\<exists>s. pit_wait ?M 5 ?s = Inr s \<and> due (hw s) = [3] \<and> pit_counter s = - 4"
    using i(3) tu(3) by (simp add: pc_locking pc_ticks g numeral_2_eq_2)
qed

definition sample_madt :: "u8 \<Rightarrow> memory" where
  "sample_madt behind = (\<lambda>x. if x = 0x1004 then 52 else if x = 0x102D then 8 else if x = 0x1035 then behind else 0)"

theorem madt_loop_visits_witness:
  "\<forall>t :: call_state. \<forall>h.
     madt_loop walk_fuel 0x1000 (0x1000 + sizeof_MADT) sizeof_MADT (sample_apic t h\<lparr>mem := sample_madt 80\<rparr>) =
       Inr (sample_apic t h\<lparr>mem := sample_madt 80\<rparr>) \<and>
     madt_loop walk_fuel 0x1000 (0x1000 + sizeof_MADT) sizeof_MADT (sample_apic t h\<lparr>mem := sample_madt 0\<rparr>) = Inl Diverged"
proof -
  have len: "isdt_length (sample_madt b) 0x1000 = 52" for b
  proof -
    have "[0..<4] = [0, 1, 2, 3 :: nat]" by (simp add: upt_rec)
    then show ?thesis by (simp add: isdt_length_def load_def sample_madt_def)
  qed
  have ok: "madt_ok 0x1000 [8] (s\<lparr>mem := sample_madt b\<rparr>)" for s :: "pc apic_state" and b
    using len[of b]
    by (auto simp: madt_ok_def madt_at_def sizeof_MADT_def sample_madt_def le_Suc_eq madt_entry_def IOAPIC_def madt_same_def)
  have at: "madt_at 0x1000 [8] 0 = 0x102C" "madt_at 0x1000 [8] (length [8 :: nat]) = 0x1034"
    by (simp_all add: madt_at_def sizeof_MADT_def)
  show ?thesis
    using madt_loop_visits[OF ok] at by (auto simp: walk_fuel_def sample_madt_def madt_entry_def IOAPIC_def)
qed

section \<open>Masking\<close>

lemma masking_effect:
  assumes "ioapic_at M (ioapic_vaddr s) regs w" and "lo = (0x10 + (global_system_interrupt_base (ioapic_device s) + ucast irq * 2)) AND 0xFF"
  shows "regs (hw (mask_ioapic M irq l s)) = (regs (hw s))(lo := (regs (hw s) lo AND NOT (w lo)) OR ((regs (hw s) lo OR 0x10000) AND w lo))"
    "regs (hw (unmask_ioapic M irq l s)) = (regs (hw s))(lo := (regs (hw s) lo AND NOT (w lo)) OR ((regs (hw s) lo AND NOT 0x10000) AND w lo))"
proof -
  note at = read_ioapic_at[OF assms(1)] write_ioapic_at[OF assms(1)]
  obtain e h where r: "read_ioapic M (ioapic_vaddr s) (0x10 + (global_system_interrupt_base (ioapic_device s) + ucast irq * 2)) (hw s) = (e, h)"
    by fastforce
  then have "e = regs (hw s) lo" "regs h = regs (hw s)" using at(1,2)[of _ "hw s"] assms(2) by (metis fst_conv, metis snd_conv)
  then show "regs (hw (mask_ioapic M irq l s)) = (regs (hw s))(lo := (regs (hw s) lo AND NOT (w lo)) OR ((regs (hw s) lo OR 0x10000) AND w lo))"
    "regs (hw (unmask_ioapic M irq l s)) = (regs (hw s))(lo := (regs (hw s) lo AND NOT (w lo)) OR ((regs (hw s) lo AND NOT 0x10000) AND w lo))"
    using r by (simp_all add: mask_ioapic_def unmask_ioapic_def Let_def at(3) assms(2)[symmetric])
qed

text \<open>Masking an interrupt and unmasking it again leaves its entry as it was but unmasked, and no other register
  changes: \<open>lock_pit\<close> and \<open>unlock_pit\<close> are inverse to each other on an unmasked timer.\<close>

lemma mask_unmask:
  assumes at: "ioapic_at M (ioapic_vaddr s) regs w" and lo: "lo = (0x10 + (global_system_interrupt_base (ioapic_device s) + ucast irq * 2)) AND 0xFF"
    and w: "bit (w lo) 16"
  shows "bit (regs (hw (mask_ioapic M irq l s)) lo) 16"
    "regs (hw (unmask_ioapic M irq l (mask_ioapic M irq l s))) = (regs (hw s))(lo := regs (hw s) lo AND NOT 0x10000)"
proof -
  let ?t = "mask_ioapic M irq l s"
  have t: "ioapic_vaddr ?t = ioapic_vaddr s" "ioapic_device ?t = ioapic_device s"
    by (simp_all add: mask_ioapic_def Let_def ioapic_vaddr_def split: prod.split)
  show "bit (regs (hw ?t) lo) 16" using w by (simp add: masking_effect(1)[OF at lo] bit_simps one_bit)
  have v: "(v AND NOT (w lo)) OR ((v AND NOT 0x10000) AND w lo) = regs (hw s) lo AND NOT 0x10000"
    if "v = (regs (hw s) lo AND NOT (w lo)) OR ((regs (hw s) lo OR 0x10000) AND w lo)" for v
    unfolding that using w by (intro bit_word_eqI) (auto simp: bit_simps one_bit)
  show "regs (hw (unmask_ioapic M irq l ?t)) = (regs (hw s))(lo := regs (hw s) lo AND NOT 0x10000)"
    unfolding masking_effect(2)[of M ?t regs w lo irq l, unfolded t, OF at lo] masking_effect(1)[OF at lo]
    by (simp only: fun_upd_same fun_upd_upd v)
qed

end
