(* ===== verification/Spinlock.thy ===== *)
theory Spinlock
  imports Prelude
begin

text \<open>
  Spinlocks between cores (\<open>src/src/processors/spinlock.c\<close>): any number of cores take the same lock around their
  critical sections, and their steps interleave in any order. One step of a core is one atomic
  operation: \<open>atomic_flag_test_and_set\<close>, \<open>atomic_flag_clear\<close>, or one update of the data the lock protects.
  The other theories follow one core; this one shows that the sections of the cores behave as if they ran
  one after the other.
\<close>

section \<open>Cores and their steps\<close>

text \<open>A core is outside, in the loop of \<open>spinlock_aquire\<close>, or inside with the updates it still has to make before
  it calls \<open>spinlock_release\<close>.\<close>

datatype 's core = Outside | Spinning | Inside "('s \<Rightarrow> 's) list"

record 's world =
  lock_flag :: bool
  cores :: "nat \<Rightarrow> 's core"
  shared :: 's

definition test_and_set :: "'s world \<Rightarrow> bool \<times> 's world" where
  "test_and_set w = (lock_flag w, w\<lparr>lock_flag := True\<rparr>)"

definition flag_clear :: "'s world \<Rightarrow> 's world" where
  "flag_clear w = w\<lparr>lock_flag := False\<rparr>"

definition set_core :: "nat \<Rightarrow> 's core \<Rightarrow> 's world \<Rightarrow> 's world" where
  "set_core c p w = w\<lparr>cores := (cores w)(c := p)\<rparr>"

text \<open>The steps of the cores; \<open>B\<close> is the set of critical sections the lock is used for.\<close>

inductive spin_step :: "('s \<Rightarrow> 's) list set \<Rightarrow> 's world \<Rightarrow> 's world \<Rightarrow> bool" for B where
  spin_enter: "cores w c = Outside \<Longrightarrow> spin_step B w (set_core c Spinning w)"
| spin_wait: "cores w c = Spinning \<Longrightarrow> test_and_set w = (True, w') \<Longrightarrow> spin_step B w w'"
| spin_take: "cores w c = Spinning \<Longrightarrow> test_and_set w = (False, w') \<Longrightarrow> b \<in> B \<Longrightarrow> spin_step B w (set_core c (Inside b) w')"
| spin_work: "cores w c = Inside (f # fs) \<Longrightarrow> spin_step B w (set_core c (Inside fs) (w\<lparr>shared := f (shared w)\<rparr>))"
| spin_release: "cores w c = Inside [] \<Longrightarrow> spin_step B w (set_core c Outside (flag_clear w))"

definition run_section :: "('s \<Rightarrow> 's) list \<Rightarrow> 's \<Rightarrow> 's" where
  "run_section b s = fold (\<lambda>f s. f s) b s"

lemma run_section_simps [simp]:
  "run_section [] s = s" "run_section (b @ [f]) s = f (run_section b s)"
  by (simp_all add: run_section_def)

text \<open>All cores outside and the lock free.\<close>

definition at_rest :: "'s world \<Rightarrow> bool" where
  "at_rest w \<longleftrightarrow> \<not> lock_flag w \<and> (\<forall>c. cores w c = Outside)"

section \<open>Mutual exclusion\<close>

text \<open>The lock is free and the data is what the complete sections \<open>bs\<close> made of it, or one core holds the lock and
  has made the first part of its section after them.\<close>

definition serial :: "('s \<Rightarrow> 's) list set \<Rightarrow> 's \<Rightarrow> 's world \<Rightarrow> bool" where
  "serial B s0 w \<longleftrightarrow> (\<exists>bs. set bs \<subseteq> B \<and>
     (if lock_flag w
      then \<exists>c pre fs. cores w c = Inside fs \<and> (\<forall>d fs. cores w d = Inside fs \<longrightarrow> d = c) \<and> pre @ fs \<in> B \<and>
             shared w = run_section pre (fold run_section bs s0)
      else (\<forall>d fs. cores w d \<noteq> Inside fs) \<and> shared w = fold run_section bs s0))"

lemma serial_heldI:
  assumes "set bs \<subseteq> B" "lock_flag w" "cores w c = Inside fs" "\<And>d fs. cores w d = Inside fs \<Longrightarrow> d = c" "pre @ fs \<in> B"
    "shared w = run_section pre (fold run_section bs s0)"
  shows "serial B s0 w"
  unfolding serial_def using assms by (intro exI[of _ bs]) (simp, blast)

lemma serial_freeI:
  assumes "set bs \<subseteq> B" "\<not> lock_flag w" "\<And>d fs. cores w d \<noteq> Inside fs" "shared w = fold run_section bs s0"
  shows "serial B s0 w"
  unfolding serial_def using assms by (intro exI[of _ bs]) simp

lemma serial_insideE:
  assumes "serial B s0 w" and "cores w c = Inside fs"
  obtains bs pre where "set bs \<subseteq> B" "lock_flag w" "\<And>d fs. cores w d = Inside fs \<Longrightarrow> d = c" "pre @ fs \<in> B"
    "shared w = run_section pre (fold run_section bs s0)"
proof -
  obtain bs where bs: "set bs \<subseteq> B" "if lock_flag w
      then \<exists>c pre fs. cores w c = Inside fs \<and> (\<forall>d fs. cores w d = Inside fs \<longrightarrow> d = c) \<and> pre @ fs \<in> B \<and>
             shared w = run_section pre (fold run_section bs s0)
      else (\<forall>d fs. cores w d \<noteq> Inside fs) \<and> shared w = fold run_section bs s0"
    using assms(1) unfolding serial_def by blast
  then have l: "lock_flag w" using assms(2) by (auto split: if_splits)
  then obtain c' pre fs' where h: "cores w c' = Inside fs'" "\<forall>d fs. cores w d = Inside fs \<longrightarrow> d = c'" "pre @ fs' \<in> B"
    "shared w = run_section pre (fold run_section bs s0)" using bs(2) by auto
  have "c' = c" "fs' = fs" using h(1,2) assms(2) by auto
  then show thesis using that bs(1) l h by blast
qed

lemma serial_step:
  assumes "spin_step B w w'" and "serial B s0 w"
  shows "serial B s0 w'"
  using assms(1)
proof (cases rule: spin_step.cases)
  case (spin_enter c)
  have i: "cores w' d = Inside fs \<longleftrightarrow> cores w d = Inside fs" for d fs using spin_enter by (simp add: set_core_def)
  have "lock_flag w' = lock_flag w" "shared w' = shared w" using spin_enter by (simp_all add: set_core_def)
  then show ?thesis using assms(2) by (simp only: serial_def i)
next
  case (spin_wait c)
  then have "w' = w" by (auto simp: test_and_set_def)
  then show ?thesis using assms(2) by simp
next
  case (spin_take c v b)
  then have v: "v = w\<lparr>lock_flag := True\<rparr>" "\<not> lock_flag w" by (auto simp: test_and_set_def)
  obtain bs where bs: "set bs \<subseteq> B" "\<forall>d fs. cores w d \<noteq> Inside fs" "shared w = fold run_section bs s0"
    using assms(2) v(2) unfolding serial_def by auto
  show ?thesis unfolding spin_take(1) v(1)
    by (rule serial_heldI[OF bs(1), of _ c b "[]"]) (simp_all add: set_core_def bs(2,3) spin_take(4) split: if_splits)
next
  case (spin_work c f fs)
  from assms(2) spin_work(2) show ?thesis
  proof (rule serial_insideE)
    fix bs pre assume bs: "set bs \<subseteq> B" "lock_flag w" "\<And>d fs. cores w d = Inside fs \<Longrightarrow> d = c" "pre @ f # fs \<in> B"
      "shared w = run_section pre (fold run_section bs s0)"
    show ?thesis unfolding spin_work(1)
    proof (rule serial_heldI[OF bs(1), of _ c fs "pre @ [f]"])
      show "d = c" if "cores (set_core c (Inside fs) (w\<lparr>shared := f (shared w)\<rparr>)) d = Inside gs" for d gs
        using that bs(3)[of d gs] by (simp add: set_core_def split: if_splits)
    qed (simp_all add: set_core_def bs(2,4,5))
  qed
next
  case (spin_release c)
  from assms(2) spin_release(2) show ?thesis
  proof (rule serial_insideE)
    fix bs pre assume bs: "set bs \<subseteq> B" "\<And>d fs. cores w d = Inside fs \<Longrightarrow> d = c" "pre @ [] \<in> B"
      "shared w = run_section pre (fold run_section bs s0)"
    show ?thesis unfolding spin_release(1)
    proof (rule serial_freeI[of "bs @ [pre]"])
      show "cores (set_core c Outside (flag_clear w)) d \<noteq> Inside gs" for d gs
        using bs(2)[of d gs] by (auto simp: set_core_def flag_clear_def)
    qed (use bs(1,3) in \<open>simp_all add: set_core_def flag_clear_def bs(4)\<close>)
  qed
qed

lemma serial_run:
  assumes "(spin_step B)\<^sup>*\<^sup>* w w'" and "at_rest w"
  shows "serial B (shared w) w'"
  using assms(1)
proof (induction rule: rtranclp_induct)
  case base
  show ?case using assms(2) by (intro serial_freeI[of "[]"]) (simp_all add: at_rest_def)
next
  case (step y z)
  show ?case using serial_step[OF step(2,3)] .
qed

section \<open>Properties\<close>

text \<open>C25. A spinlock makes critical sections atomic: however the steps of any number of cores interleave, at most one
  core is inside at a time and the lock is held exactly then, and whenever the lock is free the data is
  what some sequence of complete sections, one after the other, makes of it.\<close>

theorem spinlock_serialises:
  assumes "at_rest w" and "(spin_step B)\<^sup>*\<^sup>* w w'"
  shows "(\<forall>c d fs gs. cores w' c = Inside fs \<and> cores w' d = Inside gs \<longrightarrow> c = d) \<and>
    (lock_flag w' \<longleftrightarrow> (\<exists>c fs. cores w' c = Inside fs)) \<and>
    (\<not> lock_flag w' \<longrightarrow> (\<exists>bs. set bs \<subseteq> B \<and> shared w' = fold run_section bs (shared w)))"
proof -
  have ser: "serial B (shared w) w'" by (rule serial_run[OF assms(2,1)])
  have "c = d" if "cores w' c = Inside fs" "cores w' d = Inside gs" for c d fs gs
    using serial_insideE[OF ser that(2)] that(1) by metis
  moreover have "lock_flag w'" if "cores w' c = Inside fs" for c fs
    using serial_insideE[OF ser that] by metis
  ultimately show ?thesis using ser unfolding serial_def by (auto split: if_splits)
qed

theorem spinlock_serialises_witness:
  "\<exists>w w' :: nat world. at_rest w \<and> (spin_step {[Suc]})\<^sup>*\<^sup>* w w' \<and> shared w' = 1 \<and> \<not> lock_flag w' \<and> cores w' 1 = Spinning \<and>
     (\<exists>bs. set bs \<subseteq> {[Suc]} \<and> shared w' = fold run_section bs 0)"
proof -
  let ?w = "\<lparr>lock_flag = False, cores = (\<lambda>_. Outside), shared = 0 :: nat\<rparr>"
  let ?B = "{[Suc]}"
  define w1 w2 w3 w4 w5 w6 where "w1 = set_core 0 Spinning ?w" and "w2 = set_core 1 Spinning w1"
    and "w3 = set_core 0 (Inside [Suc]) (w2\<lparr>lock_flag := True\<rparr>)" and "w4 = snd (test_and_set w3)"
    and "w5 = set_core 0 (Inside []) (w4\<lparr>shared := Suc (shared w4)\<rparr>)" and "w6 = set_core 0 Outside (flag_clear w5)"
  note d = w1_def w2_def w3_def w4_def w5_def w6_def set_core_def test_and_set_def flag_clear_def
  have "spin_step ?B ?w w1" "spin_step ?B w1 w2"
    unfolding w1_def w2_def by (rule spin_enter, simp add: d)+
  moreover have "spin_step ?B w2 w3" unfolding w3_def by (rule spin_take) (simp_all add: d)
  moreover have "spin_step ?B w3 w4" unfolding w4_def by (rule spin_wait[of _ 1]) (simp_all add: d)
  moreover have "spin_step ?B w4 w5" unfolding w5_def by (rule spin_work) (simp add: d)
  moreover have "spin_step ?B w5 w6" unfolding w6_def by (rule spin_release) (simp add: d)
  ultimately have run: "(spin_step ?B)\<^sup>*\<^sup>* ?w w6" by (meson converse_rtranclp_into_rtranclp rtranclp.rtrancl_refl)
  have rest: "at_rest ?w" by (simp add: at_rest_def)
  have e: "shared w6 = 1" "\<not> lock_flag w6" "cores w6 1 = Spinning" by (simp_all add: d)
  have "\<exists>bs. set bs \<subseteq> ?B \<and> shared w6 = fold run_section bs 0"
    using spinlock_serialises[OF rest run] e(2) by (simp del: One_nat_def)
  then show ?thesis using e rest run by blast
qed

text \<open>The messages of cores that print at the same time: the section of \<open>printf\<close> appends its characters one by one
  while it holds \<open>serial_lock\<close>. Whenever the lock is free the output is made of whole messages.\<close>

definition put_chars :: "string \<Rightarrow> (string \<Rightarrow> string) list" where
  "put_chars t = map (\<lambda>ch out. out @ [ch]) t"

lemma run_put_chars: "run_section (put_chars t) out = out @ t"
  by (induction t arbitrary: out) (simp_all add: put_chars_def run_section_def)

lemma messages_whole:
  assumes "at_rest w" and "(spin_step (range put_chars))\<^sup>*\<^sup>* w w'" and "\<not> lock_flag w'"
  shows "\<exists>ts. shared w' = shared w @ concat ts"
proof -
  obtain bs where bs: "set bs \<subseteq> range put_chars" "shared w' = fold run_section bs (shared w)"
    using serial_run[OF assms(2,1)] assms(3) by (auto simp: serial_def)
  have "\<exists>ts. fold run_section bs out = out @ concat ts" if "set bs \<subseteq> range put_chars" for bs out
    using that
  proof (induction bs arbitrary: out)
    case Nil
    show ?case by (intro exI[of _ "[]"]) simp
  next
    case (Cons b bs)
    obtain t where t: "b = put_chars t" using Cons.prems by auto
    obtain ts where "fold run_section bs (out @ t) = (out @ t) @ concat ts" using Cons.IH[of "out @ t"] Cons.prems by auto
    then show ?case by (intro exI[of _ "t # ts"]) (simp add: t run_put_chars)
  qed
  then show ?thesis using bs by auto
qed

end
