(* ===== verification/Smp.thy ===== *)
theory Smp
  imports Apic Spinlock
begin

text \<open>
  Starting the processors (\<open>src/src/processors/smp.c\<close>): what \<open>ap_entry\<close> does on each of them, and the hand-over of
  \<open>init_lock\<close> by which \<open>init_smp\<close> starts one processor after the other and waits for the last. The boot
  loader starts a processor when its \<open>goto_address\<close> is written; the instructions that load segment registers,
  descriptor tables and the stack pointer have no effect on the model's state.
\<close>

section \<open>One processor\<close>

definition ap_stack_addr :: "u32 \<Rightarrow> u64" where
  "ap_stack_addr processor_id = KERNEL_STACK_ADDR - 4096 * KERNEL_STACK_PAGES * ucast processor_id"

definition ap_stack_ptr :: "u32 \<Rightarrow> u64" where
  "ap_stack_ptr processor_id = KERNEL_STACK_PTR - 4096 * KERNEL_STACK_PAGES * ucast processor_id"

text \<open>Up to the release of \<open>init_lock\<close>; the processor's number is read for a message.\<close>

definition ap_entry :: "'h machine \<Rightarrow> u32 \<Rightarrow> ('h, 'a) apic_state_scheme \<Rightarrow> ('h, 'a) apic_state_scheme result" where
  "ap_entry M processor_id s =
     (let s = disable_interrupts M s;
          v = cpu_view s;
          s = s\<lparr>mem := create_system_segment_descriptor (gdtr_offset v) 5 (tss_at v) (sizeof_TSS - 1) 0x89 0 (mem s)\<rparr>
      in res_bind (alloc_pages (cr3 s + hhdm s) (ap_stack_addr processor_id) KERNEL_STACK_PAGES
                     (KERNEL_PFLAG_PRESENT OR KERNEL_PFLAG_WRITE) s) (\<lambda>s.
      let s = init_local_apic M (lapic_addr s) s in
      res_bind (init_lapic_timer M s) (\<lambda>s.
      res_bind (get_current_processor s) (\<lambda>(_, s). Inr s))))"

section \<open>The hand-over\<close>

text \<open>Where \<open>init_smp\<close> is: at \<open>spinlock_aquire\<close> in round \<open>i\<close>, past it and about to write \<open>goto_address\<close>, at the last
  \<open>spinlock_aquire\<close>, or past that. A processor waits for its address, runs \<open>ap_entry\<close> up to the allocation of its
  stack, which halts it when there is no memory, waits for the timer's interrupts in \<open>init_lapic_timer\<close>, or
  has released the lock and halted. The write to \<open>(*cpus)[i]\<close> starts processor \<open>i\<close>: the structures of the
  processors are taken to lie one behind the other, with the boot processor's first.\<close>

datatype bsp_pc = Acquire nat | Start nat | Last_acquire | Returned

datatype ap_pc = Parked | Booting | Waiting | Out_of_memory | Ap_halted

record smp_world =
  init_lock :: bool
  bsp :: bsp_pc
  aps :: "nat \<Rightarrow> ap_pc"

text \<open>The head of the loop for \<open>n\<close> processors.\<close>

definition round_of :: "nat \<Rightarrow> nat \<Rightarrow> bsp_pc" where
  "round_of n i = (if i < n then Acquire i else Last_acquire)"

definition init_smp_start :: "nat \<Rightarrow> smp_world" where
  "init_smp_start n = \<lparr>init_lock = False, bsp = round_of n 1, aps = (\<lambda>_. Parked)\<rparr>"

text \<open>One step of \<open>init_smp\<close>: a turn of a waiting loop, or the write of an address.\<close>

fun bsp_step :: "nat \<Rightarrow> smp_world \<Rightarrow> smp_world" where
  "bsp_step n w =
     (case bsp w of
        Acquire i \<Rightarrow> if init_lock w then w else w\<lparr>init_lock := True, bsp := Start i\<rparr>
      | Start i \<Rightarrow> w\<lparr>aps := (aps w)(i := Booting), bsp := round_of n (Suc i)\<rparr>
      | Last_acquire \<Rightarrow> if init_lock w then w else w\<lparr>init_lock := True, bsp := Returned\<rparr>
      | Returned \<Rightarrow> w)"

text \<open>What a processor does: its stack is allocated or the allocator halts it, it takes a turn of the wait, it
  releases the lock at the end of \<open>ap_entry\<close>.\<close>

definition ap_move :: "ap_pc \<Rightarrow> nat \<Rightarrow> smp_world \<Rightarrow> smp_world" where
  "ap_move p i w = w\<lparr>aps := (aps w)(i := p)\<rparr>"

definition ap_release :: "nat \<Rightarrow> smp_world \<Rightarrow> smp_world" where
  "ap_release i w = w\<lparr>init_lock := False, aps := (aps w)(i := Ap_halted)\<rparr>"

inductive smp_step :: "nat \<Rightarrow> smp_world \<Rightarrow> smp_world \<Rightarrow> bool" for n where
  smp_bsp: "smp_step n w (bsp_step n w)"
| smp_alloc: "aps w i = Booting \<Longrightarrow> smp_step n w (ap_move Waiting i w)"
| smp_no_memory: "aps w i = Booting \<Longrightarrow> smp_step n w (ap_move Out_of_memory i w)"
| smp_wait: "aps w i = Waiting \<Longrightarrow> smp_step n w w"
| smp_release: "aps w i = Waiting \<Longrightarrow> smp_step n w (ap_release i w)"

section \<open>The invariant\<close>

text \<open>Processors before \<open>i\<close> are done, later ones are parked; \<open>ok\<close> is what the one started last may be doing.\<close>

definition started :: "nat \<Rightarrow> ap_pc set \<Rightarrow> smp_world \<Rightarrow> bool" where
  "started i ok w \<longleftrightarrow> (\<forall>j. if j = 0 \<or> i \<le> j then aps w j = Parked
     else if Suc j = i then aps w j \<in> ok else aps w j = Ap_halted)"

abbreviation busy :: "ap_pc set" where
  "busy \<equiv> {Booting, Waiting, Out_of_memory}"

definition smp_inv :: "nat \<Rightarrow> smp_world \<Rightarrow> bool" where
  "smp_inv n w \<longleftrightarrow>
     (case bsp w of
        Acquire i \<Rightarrow> 1 \<le> i \<and> i < n \<and> started i (insert Ap_halted busy) w \<and> (init_lock w \<longleftrightarrow> 1 < i \<and> aps w (i - 1) \<in> busy)
      | Start i \<Rightarrow> 1 \<le> i \<and> i < n \<and> started i {Ap_halted} w \<and> init_lock w
      | Last_acquire \<Rightarrow> started (max n 1) (insert Ap_halted busy) w \<and> (init_lock w \<longleftrightarrow> 1 < n \<and> aps w (n - 1) \<in> busy)
      | Returned \<Rightarrow> started (max n 1) {Ap_halted} w \<and> init_lock w)"

lemma smp_inv_start: "smp_inv n (init_smp_start n)"
  by (auto simp: smp_inv_def init_smp_start_def round_of_def started_def)

lemma started_last:
  assumes "started i (insert Ap_halted busy) w" and "\<not> (1 < i \<and> aps w (i - 1) \<in> busy)"
  shows "started i {Ap_halted} w"
  unfolding started_def
proof
  fix j
  have "j = i - 1 \<and> 1 < i" if "Suc j = i" "j \<noteq> 0" using that by simp
  then show "if j = 0 \<or> i \<le> j then aps w j = Parked else if Suc j = i then aps w j \<in> {Ap_halted} else aps w j = Ap_halted"
    using assms(1)[unfolded started_def, rule_format, of j] assms(2) by (auto split: if_splits)
qed

lemma started_next:
  assumes "started i {Ap_halted} w" and "1 \<le> i"
  shows "started (Suc i) (insert Ap_halted busy) (w\<lparr>aps := (aps w)(i := Booting), bsp := b\<rparr>)"
  unfolding started_def
proof
  fix j
  show "if j = 0 \<or> Suc i \<le> j then aps (w\<lparr>aps := (aps w)(i := Booting), bsp := b\<rparr>) j = Parked
    else if Suc j = Suc i then aps (w\<lparr>aps := (aps w)(i := Booting), bsp := b\<rparr>) j \<in> insert Ap_halted busy
    else aps (w\<lparr>aps := (aps w)(i := Booting), bsp := b\<rparr>) j = Ap_halted"
    using assms(1)[unfolded started_def, rule_format, of j] assms(2) by (auto split: if_splits)
qed

lemma started_frames [simp]:
  "started i ok (w\<lparr>init_lock := b\<rparr>) = started i ok w" "started i ok (w\<lparr>bsp := p\<rparr>) = started i ok w"
  "started i ok (w\<lparr>init_lock := b, bsp := p\<rparr>) = started i ok w"
  by (simp_all add: started_def)

lemma bsp_step_inv:
  assumes "smp_inv n w"
  shows "smp_inv n (bsp_step n w)"
proof (cases "bsp w")
  case (Acquire i)
  then show ?thesis using assms started_last[of i w] by (auto simp: smp_inv_def)
next
  case (Start i)
  then have h: "1 \<le> i" "i < n" "started i {Ap_halted} w" "init_lock w" using assms by (simp_all add: smp_inv_def)
  have "Suc i < n \<or> n = Suc i" using h(2) by auto
  then show ?thesis using started_next[OF h(3,1)] h Start by (auto simp: smp_inv_def round_of_def)
next
  case Last_acquire
  then show ?thesis using assms started_last[of "max n 1" w] by (cases "n \<le> 1") (auto simp: smp_inv_def max_def)
next
  case Returned
  then show ?thesis using assms by simp
qed

text \<open>Only the processor started last can be busy.\<close>

lemma busy_only:
  assumes "started i ok w" and "aps w j \<in> busy"
  shows "Suc j = i \<and> j \<noteq> 0 \<and> aps w j \<in> ok"
  using assms(1)[unfolded started_def, rule_format, of j] assms(2) by (auto split: if_splits)

lemma busy_where:
  assumes "smp_inv n w" and "aps w j \<in> busy"
  shows "j \<noteq> 0 \<and> init_lock w \<and> (bsp w = Acquire (Suc j) \<or> bsp w = Last_acquire \<and> n = Suc j)"
  using assms busy_only[of _ _ w j]
  by (cases "bsp w") (fastforce simp: smp_inv_def max_def split: if_splits)+

lemma started_change:
  assumes "started i (insert Ap_halted busy) w" and "aps w j \<in> busy" and "p \<in> insert Ap_halted busy"
  shows "started i (insert Ap_halted busy) (w\<lparr>aps := (aps w)(j := p)\<rparr>)"
  unfolding started_def using assms(1)[unfolded started_def, rule_format] busy_only[OF assms(1,2)] assms(3)
  by (auto split: if_splits)

lemma ap_move_inv:
  assumes "smp_inv n w" and "aps w j \<in> busy" and "p \<in> busy"
  shows "smp_inv n (ap_move p j w)"
  using busy_where[OF assms(1,2)] assms started_change[OF _ assms(2), of _ p]
  by (auto simp: smp_inv_def ap_move_def)

lemma ap_release_inv:
  assumes "smp_inv n w" and "aps w j \<in> busy"
  shows "smp_inv n (ap_release j w)"
proof -
  have "ap_release j w = w\<lparr>aps := (aps w)(j := Ap_halted), init_lock := False\<rparr>" by (simp add: ap_release_def)
  then show ?thesis
    using busy_where[OF assms] assms(1) started_change[OF _ assms(2), of _ Ap_halted]
    by (auto simp: smp_inv_def)
qed

lemma smp_step_inv: "smp_step n w w' \<Longrightarrow> smp_inv n w \<Longrightarrow> smp_inv n w'"
  by (induction rule: smp_step.induct) (simp_all add: bsp_step_inv ap_move_inv ap_release_inv del: bsp_step.simps)

lemma smp_inv_steps: "(smp_step n)\<^sup>*\<^sup>* w w' \<Longrightarrow> smp_inv n w \<Longrightarrow> smp_inv n w'"
  by (induction rule: rtranclp_induct) (auto intro: smp_step_inv)

section \<open>Progress\<close>

text \<open>A processor that the allocator has halted stays halted, and it holds the lock.\<close>

lemma no_memory_step:
  assumes "smp_step n w w'" and "smp_inv n w" and "aps w j = Out_of_memory"
  shows "aps w' j = Out_of_memory"
  using assms(1)
proof (cases rule: smp_step.cases)
  case smp_bsp
  have "bsp w \<noteq> Start j" using busy_where[OF assms(2), of j] assms(3) by auto
  then show ?thesis using assms(3) by (cases "bsp w") (auto simp: smp_bsp)
qed (use assms(3) in \<open>auto simp: ap_move_def ap_release_def\<close>)

lemma no_memory_for_ever:
  assumes "(smp_step n)\<^sup>*\<^sup>* w w'" and "smp_inv n w" and "aps w j = Out_of_memory"
  shows "aps w' j = Out_of_memory \<and> bsp w' \<noteq> Returned"
  using assms(1)
proof (induction rule: rtranclp_induct)
  case base
  then show ?case using busy_where[OF assms(2), of j] assms(3) by auto
next
  case (step y z)
  have inv: "smp_inv n y" "smp_inv n z" using smp_inv_steps[OF _ assms(2)] step(1,2) by (auto intro: rtranclp.rtrancl_into_rtrancl)
  have "aps z j = Out_of_memory" using no_memory_step[OF step(2) inv(1)] step(3) by blast
  then show ?case using busy_where[OF inv(2), of j] by auto
qed

definition smp_rank :: "nat \<Rightarrow> smp_world \<Rightarrow> nat" where
  "smp_rank n w =
     (let l = (if init_lock w then if \<exists>j. aps w j = Booting then 2 else 1 else 0) in
      case bsp w of Acquire i \<Rightarrow> 5 * (n - i) + 2 + l | Start i \<Rightarrow> 5 * (n - i) + 1
      | Last_acquire \<Rightarrow> 1 + l | Returned \<Rightarrow> 0)"

lemma smp_progress:
  assumes "smp_inv n w" and "bsp w \<noteq> Returned" and "\<forall>j. aps w j \<noteq> Out_of_memory"
  shows "\<exists>w'. smp_step n w w' \<and> (\<forall>j. aps w' j \<noteq> Out_of_memory) \<and> smp_rank n w' < smp_rank n w"
proof (cases "init_lock w \<and> (\<forall>i. bsp w \<noteq> Start i)")
  case True
  then obtain j where j: "aps w j \<in> busy" using assms(1,2) by (cases "bsp w") (auto simp: smp_inv_def)
  note B = busy_where[OF assms(1) j]
  have only: "k = j" if "aps w k = Booting" for k using busy_where[OF assms(1), of k] B that by auto
  show ?thesis
  proof (cases "aps w j = Booting")
    case True
    have "\<not> (\<exists>k. aps (ap_move Waiting j w) k = Booting)" using only by (auto simp: ap_move_def)
    moreover have "\<exists>k. aps w k = Booting" using True by blast
    moreover have "init_lock (ap_move Waiting j w) = init_lock w" "bsp (ap_move Waiting j w) = bsp w" by (simp_all add: ap_move_def)
    ultimately have "smp_rank n (ap_move Waiting j w) < smp_rank n w"
      using B by (elim conjE disjE) (simp_all add: smp_rank_def Let_def)
    then show ?thesis using smp_alloc[OF True] assms(3) by (intro exI[of _ "ap_move Waiting j w"]) (simp add: ap_move_def)
  next
    case False
    then have w: "aps w j = Waiting" using j assms(3) by auto
    have "\<not> init_lock (ap_release j w)" "bsp (ap_release j w) = bsp w" by (simp_all add: ap_release_def)
    then have "smp_rank n (ap_release j w) < smp_rank n w" using B by (elim conjE disjE) (simp_all add: smp_rank_def Let_def)
    then show ?thesis using smp_release[OF w] assms(3) by (intro exI[of _ "ap_release j w"]) (simp add: ap_release_def)
  qed
next
  case False
  have "smp_rank n (bsp_step n w) < smp_rank n w"
    using False assms(1,2) by (cases "bsp w") (auto simp: smp_rank_def smp_inv_def round_of_def Let_def)
  moreover have "\<forall>j. aps (bsp_step n w) j \<noteq> Out_of_memory" using assms(3) by (cases "bsp w") simp_all
  ultimately show ?thesis using smp_bsp by blast
qed

lemma smp_finishes:
  assumes "smp_inv n w" and "\<forall>j. aps w j \<noteq> Out_of_memory"
  shows "\<exists>w'. (smp_step n)\<^sup>*\<^sup>* w w' \<and> bsp w' = Returned"
  using assms
proof (induction "smp_rank n w" arbitrary: w rule: less_induct)
  case less
  show ?case
  proof (cases "bsp w = Returned")
    case False
    then obtain v where v: "smp_step n w v" "\<forall>j. aps v j \<noteq> Out_of_memory" "smp_rank n v < smp_rank n w"
      using smp_progress[OF less(2) _ less(3)] by blast
    then show ?thesis using less(1)[OF v(3) smp_step_inv[OF v(1) less(2)] v(2)] by (meson converse_rtranclp_into_rtranclp)
  qed blast
qed

section \<open>Properties\<close>



text \<open>The stacks of two processors do not overlap, and each ends where its stack pointer starts.\<close>

lemma ap_stacks_disjoint:
  assumes "p \<noteq> q" and "p < 2 ^ 20" and "q < 2 ^ 20"
  shows "{unat (ap_stack_addr p)..<unat (ap_stack_ptr p)} \<inter> {unat (ap_stack_addr q)..<unat (ap_stack_ptr q)} = {}"
proof -
  have a: "unat (ap_stack_addr x) = 18446744073709539328 - 8192 * unat x" "unat (ap_stack_ptr x) = 18446744073709547520 - 8192 * unat x"
    if "x < 2 ^ 20" for x
  proof -
    have x: "unat x < 2 ^ 20" using that by (simp add: word_less_nat_alt)
    then have "unat (ucast x :: u64) = unat x" by (simp add: unsigned_ucast_eq take_bit_nat_eq_self)
    then have "unat (8192 * ucast x :: u64) = 8192 * unat x" using x by (simp add: unat_word_ariths)
    then show "unat (ap_stack_addr x) = 18446744073709539328 - 8192 * unat x" "unat (ap_stack_ptr x) = 18446744073709547520 - 8192 * unat x"
      using x by (simp_all add: ap_stack_addr_def ap_stack_ptr_def KERNEL_STACK_ADDR_def KERNEL_STACK_PTR_def KERNEL_STACK_PAGES_def unat_sub_if')
  qed
  have "unat p \<noteq> unat q" using assms(1) by (simp add: word_unat_eq_iff)
  then show ?thesis using a[OF assms(2)] a[OF assms(3)] assms(2,3) by (auto simp: word_less_nat_alt)
qed

end
