(* ===== verification/Panic.thy ===== *)
theory Panic
  imports Printf Kheap
begin

text \<open>
  The exception handler (\<open>src/src/kernel/panic.c\<close>): what the kernel prints when the processor raises an exception. The
  handler ends in \<open>halt\<close>, which is an outcome of its own, with the state in which the processor stays. The
  registers come from the entry code, which is assembly; the values of the table and control registers,
  which are read by privileged instructions, are arguments: what the four variables of \<open>register_dump\<close> hold
  when they are printed (\<open>sgdt\<close> and \<open>sidt\<close> store ten bytes into variables of eight).
\<close>

section \<open>State\<close>

record IDTEFrame =
  f_cr2 :: u64
  f_r15 :: u64
  f_r14 :: u64
  f_r13 :: u64
  f_r12 :: u64
  f_r11 :: u64
  f_r10 :: u64
  f_r9 :: u64
  f_r8 :: u64
  f_rbp :: u64
  f_rdi :: u64
  f_rsi :: u64
  f_rdx :: u64
  f_rcx :: u64
  f_rbx :: u64
  f_rax :: u64
  f_type :: u64
  f_code :: u64
  f_rip :: u64
  f_cs :: u64
  f_flags :: u64
  f_rsp :: u64
  f_ss :: u64

record system_registers =
  sr_gdtr :: u64
  sr_idtr :: u64
  sr_cr3 :: u64
  sr_cr2 :: u64

record panic_state =
  con :: console
  frames_mem :: memory
  in_exception_handler :: bool
  interrupts_on :: bool
  kfg :: u32
  kbg :: u32

text \<open>How the handler ends: in the endless loop of \<open>halt\<close>, or by going back to the entry code.\<close>

datatype panic_end = Halts_in panic_state | Returns_in panic_state

definition halt :: "panic_state \<Rightarrow> panic_end" where
  "halt s = Halts_in (s\<lparr>interrupts_on := False\<rparr>)"

definition con_printf :: "string \<Rightarrow> va_list \<Rightarrow> panic_state \<Rightarrow> panic_state result" where
  "con_printf format args s = res_bind (printf (format @ [NUL]) args (con s)) (\<lambda>c. Inr (s\<lparr>con := c\<rparr>))"

abbreviation newline :: string where "newline \<equiv> [CHR 0x0A]"

section \<open>Operations\<close>

fun trace_loop :: "nat \<Rightarrow> u64 \<Rightarrow> panic_state \<Rightarrow> panic_state result" where
  "trace_loop fuel stack s =
     (if stack = 0 then Inr s
      else if fuel = 0 then Inl Diverged
      else
        res_bind (con_printf ('' 0x%x'' @ newline) [VInt (rd64 (frames_mem s) (stack + 8))] s) (\<lambda>s.
          trace_loop (fuel - 1) (rd64 (frames_mem s) stack) s))"

declare trace_loop.simps [simp del]

definition stack_trace :: "u64 \<Rightarrow> u64 \<Rightarrow> panic_state \<Rightarrow> panic_state result" where
  "stack_trace rbp rip s =
     res_bind (con_printf (newline @ ''Stack Trace (Most recent call last): '' @ newline) [] s) (\<lambda>s.
     res_bind (con_printf ('' 0x%x'' @ newline) [VInt rip] s) (trace_loop walk_fuel rbp))"

text \<open>The formats of the longer messages.\<close>

definition general_format :: string where
  "general_format =
     ''  r8: 0x%x     r9: 0x%x     rax: 0x%x'' @ newline @ '' r10: 0x%x    r11: 0x%x     rbx: 0x%x'' @ newline @
     '' r12: 0x%x    r13: 0x%x     rcx: 0x%x'' @ newline @ '' r14: 0x%x    r15: 0x%x     rdx: 0x%x'' @ newline"

definition system_format :: string where
  "system_format = ''GDTR: 0x%x   IDTR: 0x%x'' @ newline @ '' CR3: 0x%x    CR2: 0x%x'' @ newline"

definition exception_format :: string where
  "exception_format = ''Exception:  %s'' @ newline @ ''Error code: 0b%b'' @ newline"

definition register_dump :: "system_registers \<Rightarrow> IDTEFrame \<Rightarrow> panic_state \<Rightarrow> panic_state result" where
  "register_dump sr registers s =
     res_bind (con_printf (newline @ ''Registers: '' @ newline) [] s) (\<lambda>s.
     res_bind (con_printf general_format
       (map (\<lambda>f. VInt (f registers)) [f_r8, f_r9, f_rax, f_r10, f_r11, f_rbx, f_r12, f_r13, f_rcx, f_r14, f_r15, f_rdx]) s) (\<lambda>s.
     con_printf system_format (map (\<lambda>f. VInt (f sr)) [sr_gdtr, sr_idtr, sr_cr3, sr_cr2]) s))"

definition kpanic :: "system_registers \<Rightarrow> char list \<Rightarrow> IDTEFrame \<Rightarrow> panic_state \<Rightarrow> panic_end result" where
  "kpanic sr message registers s =
     (let s = s\<lparr>kbg := 0xFFFF00\<rparr>; s = s\<lparr>kfg := 0xFF0000\<rparr> in
      res_bind (con_printf (newline @ ''[KPANIC] The potato has gone rotten!'' @ newline) [] s) (\<lambda>s.
      let s = s\<lparr>kfg := 0xd8d9d7\<rparr>; s = s\<lparr>kbg := 0x012456\<rparr> in
      res_bind (con_printf exception_format [VStr message, VInt (f_code registers)] s) (\<lambda>s.
      res_bind (register_dump sr registers s) (\<lambda>s.
      res_bind (stack_trace (f_rbp registers) (f_rip registers) s) (\<lambda>s.
      res_bind (con_printf newline [] s) (\<lambda>s. Inr (halt s)))))))"

definition exception_label :: "u64 \<Rightarrow> char list result" where
  "exception_label ty =
     (if ty = 14 then Inr (''Page Fault'' @ [NUL])
      else if ty = 13 then Inr (''General Protection Fault'' @ [NUL])
      else res_bind (ku_uint16_to_string (ucast ty) (replicate 30 NUL)) (\<lambda>label. arr_set label 29 NUL))"

definition exception_handler :: "system_registers \<Rightarrow> IDTEFrame \<Rightarrow> panic_state \<Rightarrow> panic_end result" where
  "exception_handler sr registers s =
     (let s = s\<lparr>interrupts_on := False\<rparr> in
      if in_exception_handler s then Inr (halt s)
      else
        (let s = s\<lparr>in_exception_handler := True\<rparr> in
         res_bind (exception_label (f_type registers)) (\<lambda>label. kpanic sr label registers s)))"

section \<open>What is printed\<close>

definition hex_line :: "u64 \<Rightarrow> string" where
  "hex_line a = '' 0x'' @ hex16 (unat a) @ newline"

text \<open>The chain of stack frames from \<open>rbp\<close> on, with the return addresses \<open>rs\<close>.\<close>

fun frame_chain :: "memory \<Rightarrow> u64 \<Rightarrow> u64 list \<Rightarrow> bool" where
  "frame_chain m rbp [] \<longleftrightarrow> rbp = 0"
| "frame_chain m rbp (r # rs) \<longleftrightarrow> rbp \<noteq> 0 \<and> rd64 m (rbp + 8) = r \<and> frame_chain m (rd64 m rbp) rs"

definition printed :: "string \<Rightarrow> panic_state \<Rightarrow> panic_state" where
  "printed t s = s\<lparr>con := put_text t (con s)\<rparr>"

lemma printed_simps [simp]:
  "printed t (printed u s) = printed (u @ t) s" "frames_mem (printed t s) = frames_mem s" "printed [] s = s"
  "serial_lock (con (printed t s)) = serial_lock (con s)"
  by (simp_all add: printed_def)

lemma con_printf_printed:
  assumes "render True fs args = Some t" and "NUL \<notin> set fs" and "\<not> serial_lock (con s)"
  shows "con_printf fs args s = Inr (printed t s)"
  using printf_prints[OF assms] by (simp add: con_printf_def printed_def)

lemma print_hex_line: "\<not> serial_lock (con s) \<Longrightarrow> con_printf ('' 0x%x'' @ newline) [VInt a] s = Inr (printed (hex_line a) s)"
  by (rule con_printf_printed) (simp_all add: render_directive_def hex_line_def va_int_def)

lemma trace_loop_prints:
  assumes "frame_chain (frames_mem s) rbp rs" and "length rs < fuel" and "\<not> serial_lock (con s)"
  shows "trace_loop fuel rbp s = Inr (printed (concat (map hex_line rs)) s)"
  using assms
proof (induction rs arbitrary: fuel rbp s)
  case Nil
  then show ?case by (subst trace_loop.simps) simp
next
  case (Cons r rs)
  then show ?case by (subst trace_loop.simps) (simp add: print_hex_line[simplified])
qed

definition trace_text :: "u64 \<Rightarrow> u64 list \<Rightarrow> string" where
  "trace_text rip rs = newline @ ''Stack Trace (Most recent call last): '' @ newline @ concat (map hex_line (rip # rs))"

lemma stack_trace_prints:
  assumes "frame_chain (frames_mem s) rbp rs" and "length rs < walk_fuel" and "\<not> serial_lock (con s)"
  shows "stack_trace rbp rip s = Inr (printed (trace_text rip rs) s)"
proof -
  let ?h = "newline @ ''Stack Trace (Most recent call last): '' @ newline"
  have "con_printf ?h [] s = Inr (printed ?h s)" by (rule con_printf_printed) (simp_all add: assms(3))
  then show ?thesis
    unfolding stack_trace_def using assms print_hex_line[of "printed ?h s" rip]
    by (simp only: res_bind_simps printed_simps not_False_eq_True) (simp add: trace_loop_prints trace_text_def)
qed

text \<open>The registers, as the format of \<open>register_dump\<close> names them.\<close>

definition reg_text :: "string \<Rightarrow> u64 \<Rightarrow> string" where
  "reg_text name v = name @ '': 0x'' @ hex16 (unat v)"

definition general_text :: "IDTEFrame \<Rightarrow> string" where
  "general_text r =
     reg_text ''  r8'' (f_r8 r) @ reg_text ''     r9'' (f_r9 r) @ reg_text ''     rax'' (f_rax r) @ newline @
     reg_text '' r10'' (f_r10 r) @ reg_text ''    r11'' (f_r11 r) @ reg_text ''     rbx'' (f_rbx r) @ newline @
     reg_text '' r12'' (f_r12 r) @ reg_text ''    r13'' (f_r13 r) @ reg_text ''     rcx'' (f_rcx r) @ newline @
     reg_text '' r14'' (f_r14 r) @ reg_text ''    r15'' (f_r15 r) @ reg_text ''     rdx'' (f_rdx r) @ newline"

definition system_text :: "system_registers \<Rightarrow> string" where
  "system_text sr =
     reg_text ''GDTR'' (sr_gdtr sr) @ reg_text ''   IDTR'' (sr_idtr sr) @ newline @
     reg_text '' CR3'' (sr_cr3 sr) @ reg_text ''    CR2'' (sr_cr2 sr) @ newline"

lemma render_char: "f \<noteq> CHR ''%'' \<Longrightarrow> render k (f # fs) args = map_option ((#) f) (render k fs args)"
  by (cases fs) (simp_all split: option.split)

lemma render_hex: "render k (CHR ''%'' # CHR ''x'' # fs) (VInt v # args) = map_option ((@) (hex16 (unat v))) (render k fs args)"
  by (simp add: render_directive_def va_int_def split: option.split)

lemma prints_general:
  assumes "\<not> serial_lock (con s)"
  shows "con_printf general_format
      (map (\<lambda>f. VInt (f r)) [f_r8, f_r9, f_rax, f_r10, f_r11, f_rbx, f_r12, f_r13, f_rcx, f_r14, f_r15, f_rdx]) s =
    Inr (printed (general_text r) s)"
  by (rule con_printf_printed) (simp_all add: assms general_format_def render_char render_hex general_text_def reg_text_def del: render.simps(3))

lemma prints_system:
  assumes "\<not> serial_lock (con s)"
  shows "con_printf system_format (map (\<lambda>f. VInt (f sr)) [sr_gdtr, sr_idtr, sr_cr3, sr_cr2]) s = Inr (printed (system_text sr) s)"
  by (rule con_printf_printed) (simp_all add: assms system_format_def render_char render_hex system_text_def reg_text_def del: render.simps(3))

lemma prints_exception:
  assumes "\<not> serial_lock (con s)" and "NUL \<notin> set label"
  shows "con_printf exception_format [VStr (label @ NUL # junk), VInt code] s =
    Inr (printed (''Exception:  '' @ label @ newline @ ''Error code: 0b'' @ numeral_text 2 (unat code) @ newline) s)"
  by (rule con_printf_printed)
    (simp_all add: assms exception_format_def render_char render_directive_def va_int_def va_str_def c_str_text[OF assms(2)])

lemma prints_plain: "\<not> serial_lock (con s) \<Longrightarrow> NUL \<notin> set t \<Longrightarrow> CHR ''%'' \<notin> set t \<Longrightarrow> con_printf t [] s = Inr (printed t s)"
proof (rule con_printf_printed)
  show "render True t [] = Some t" if "CHR ''%'' \<notin> set t" using that by (induction t) (auto simp: render_char)
qed

lemma register_dump_prints:
  assumes "\<not> serial_lock (con s)"
  shows "register_dump sr registers s = Inr (printed (newline @ ''Registers: '' @ newline @ general_text registers @ system_text sr) s)"
proof -
  let ?h = "newline @ ''Registers: '' @ newline"
  have 1: "con_printf ?h [] s = Inr (printed ?h s)" by (rule prints_plain) (simp_all add: assms)
  show ?thesis
    unfolding register_dump_def 1 res_bind_simps prints_general[of "printed ?h s", unfolded printed_simps, OF assms]
    by (subst prints_system) (simp_all add: assms)
qed

definition report_text :: "system_registers \<Rightarrow> string \<Rightarrow> IDTEFrame \<Rightarrow> u64 list \<Rightarrow> string" where
  "report_text sr label r rs =
     newline @ ''[KPANIC] The potato has gone rotten!'' @ newline @
     ''Exception:  '' @ label @ newline @ ''Error code: 0b'' @ numeral_text 2 (unat (f_code r)) @ newline @
     newline @ ''Registers: '' @ newline @ general_text r @ system_text sr @ trace_text (f_rip r) rs @ newline"

lemma kpanic_prints:
  assumes "NUL \<notin> set label" and "frame_chain (frames_mem s) (f_rbp r) rs" and "length rs < walk_fuel" and "\<not> serial_lock (con s)"
  shows "kpanic sr (label @ NUL # junk) r s =
    Inr (halt (printed (report_text sr label r rs) (s\<lparr>kfg := 0xd8d9d7, kbg := 0x012456\<rparr>)))"
proof -
  let ?h = "newline @ ''[KPANIC] The potato has gone rotten!'' @ newline"
  let ?s = "s\<lparr>kfg := 0xd8d9d7, kbg := 0x012456\<rparr>"
  let ?t = "printed (''Exception:  '' @ label @ newline @ ''Error code: 0b'' @ numeral_text 2 (unat (f_code r)) @ newline) (printed ?h ?s)"
  have h: "con_printf ?h [] (s\<lparr>kbg := 0xFFFF00, kfg := 0xFF0000\<rparr>) = Inr (printed ?h (s\<lparr>kbg := 0xFFFF00, kfg := 0xFF0000\<rparr>))"
    by (rule prints_plain) (simp_all add: assms)
  have 1: "(printed ?h (s\<lparr>kbg := 0xFFFF00, kfg := 0xFF0000\<rparr>))\<lparr>kfg := 0xd8d9d7, kbg := 0x012456\<rparr> = printed ?h ?s"
    by (simp add: printed_def)
  have e: "con_printf exception_format [VStr (label @ NUL # junk), VInt (f_code r)] (printed ?h ?s) = Inr ?t"
    by (rule prints_exception) (simp_all add: assms)
  have d: "register_dump sr r ?t = Inr (printed (newline @ ''Registers: '' @ newline @ general_text r @ system_text sr) ?t)"
    by (rule register_dump_prints) (simp add: assms)
  let ?u = "printed (newline @ ''Registers: '' @ newline @ general_text r @ system_text sr) ?t"
  have t: "stack_trace (f_rbp r) (f_rip r) ?u = Inr (printed (trace_text (f_rip r) rs) ?u)"
    by (rule stack_trace_prints) (simp_all add: assms)
  have n: "con_printf newline [] (printed (trace_text (f_rip r) rs) ?u) = Inr (printed newline (printed (trace_text (f_rip r) rs) ?u))"
    by (rule prints_plain) (simp_all add: assms)
  show ?thesis
    unfolding kpanic_def Let_def h res_bind_simps 1 e d t n by (simp add: report_text_def)
qed

section \<open>Properties\<close>

text \<open>The name the report gives the exception.\<close>

definition label_text :: "u64 \<Rightarrow> string" where
  "label_text ty =
     (if ty = 14 then ''Page Fault'' else if ty = 13 then ''General Protection Fault''
      else numeral_text 10 (unat (ucast ty :: u16)))"

lemma exception_label_text: "\<exists>junk. exception_label ty = Inr (label_text ty @ NUL # junk) \<and> NUL \<notin> set (label_text ty)"
proof (cases "ty = 14 \<or> ty = 13")
  case True
  then show ?thesis by (auto simp: exception_label_def label_text_def)
next
  case False
  let ?n = "ucast ty :: u16" and ?t = "numeral_text 10 (unat (ucast ty :: u16))"
  have len: "length (num_digits 10 (unat ?n)) \<le> 5" using unsigned_less[of ?n, where 'a = nat] by (intro num_digits_length) simp_all
  have "ku_uint16_to_string ?n (replicate 30 NUL) = Inr (?t @ NUL # drop (length (num_digits 10 (unat ?n)) + 1) (replicate 30 NUL))"
    using len by (intro uint16_writes) simp_all
  moreover have "NUL \<notin> set ?t" by (rule numeral_text_nonnull) simp_all
  moreover have "length ?t = length (num_digits 10 (unat ?n))" by (simp add: numeral_text_def)
  ultimately show ?thesis
    using False terminate_again[of ?t 29 "drop (length (num_digits 10 (unat ?n)) + 1) (replicate 30 NUL)"] len
    by (auto simp: exception_label_def label_text_def)
qed

text \<open>C28. The report of an exception: when the output lock is free and the chain of stack frames from \<open>rbp\<close>
  ends in a null pointer, the first exception prints the banner, the exception's name (or number) and
  error code, the registers rax, rbx, rcx, rdx and r8 to r15, GDTR, IDTR, CR3 and CR2 (no other register),
  the interrupted instruction pointer and one line for each return address on the chain, then the processor
  halts with interrupts off; an exception while one is being reported halts at once and prints nothing.\<close>

theorem exception_report:
  assumes "frame_chain (frames_mem s) (f_rbp r) rs" and "length rs < walk_fuel" and "\<not> serial_lock (con s)"
  shows "exception_handler sr r s =
    Inr (Halts_in (if in_exception_handler s then s\<lparr>interrupts_on := False\<rparr>
         else printed (report_text sr (label_text (f_type r)) r rs)
                (s\<lparr>in_exception_handler := True, interrupts_on := False, kfg := 0xd8d9d7, kbg := 0x012456\<rparr>)))"
proof (cases "in_exception_handler s")
  case False
  obtain junk where l: "exception_label (f_type r) = Inr (label_text (f_type r) @ NUL # junk)" "NUL \<notin> set (label_text (f_type r))"
    using exception_label_text by blast
  let ?s = "s\<lparr>interrupts_on := False, in_exception_handler := True\<rparr>"
  have "kpanic sr (label_text (f_type r) @ NUL # junk) r ?s =
      Inr (halt (printed (report_text sr (label_text (f_type r)) r rs) (?s\<lparr>kfg := 0xd8d9d7, kbg := 0x012456\<rparr>)))"
    using assms by (intro kpanic_prints[OF l(2)]) simp_all
  then show ?thesis using False l(1) by (simp add: exception_handler_def halt_def printed_def)
qed (simp add: exception_handler_def halt_def)

text \<open>A chain of two frames at \<open>0x1000\<close> and \<open>0x2000\<close>.\<close>

definition sample_frames :: memory where
  "sample_frames = wr64 (wr64 (wr64 (\<lambda>_. 0) 0x1000 0x2000) 0x1008 0xAAAA) 0x2008 0xBBBB"

definition sample_panic :: panic_state where
  "sample_panic = \<lparr>con = \<lparr>serial_out = [], screen_out = [], font_avaliable = False, serial_lock = False\<rparr>,
     frames_mem = sample_frames, in_exception_handler = False, interrupts_on = True, kfg = 0, kbg = 0\<rparr>"

definition sample_frame :: IDTEFrame where
  "sample_frame = \<lparr>f_cr2 = 0, f_r15 = 0, f_r14 = 0, f_r13 = 0, f_r12 = 0, f_r11 = 0, f_r10 = 0, f_r9 = 0, f_r8 = 0, f_rbp = 0x1000,
     f_rdi = 0, f_rsi = 0, f_rdx = 0, f_rcx = 0, f_rbx = 0, f_rax = 0, f_type = 14, f_code = 2, f_rip = 0x400000, f_cs = 8,
     f_flags = 0, f_rsp = 0, f_ss = 16\<rparr>"

theorem exception_report_witness:
  "\<forall>sr. \<exists>s. exception_handler sr sample_frame sample_panic = Inr (Halts_in s) \<and> in_exception_handler s \<and>
     serial_out (con s) = report_text sr ''Page Fault'' sample_frame [0xAAAA, 0xBBBB]"
proof
  fix sr
  have "frame_chain sample_frames 0x1000 [0xAAAA, 0xBBBB]" unfolding sample_frames_def frame_chain.simps by code_simp
  then have c: "frame_chain (frames_mem sample_panic) (f_rbp sample_frame) [0xAAAA, 0xBBBB]"
    by (simp add: sample_panic_def sample_frame_def)
  have "length [0xAAAA, 0xBBBB :: u64] < walk_fuel" by (simp add: walk_fuel_def)
  from exception_report[OF c this, of sr]
  show "\<exists>s. exception_handler sr sample_frame sample_panic = Inr (Halts_in s) \<and> in_exception_handler s \<and>
     serial_out (con s) = report_text sr ''Page Fault'' sample_frame [0xAAAA, 0xBBBB]"
    by (simp add: sample_panic_def printed_def put_text_def label_text_def, simp add: sample_frame_def)
qed

end
