(* ===== verification/Devices.thy ===== *)
theory Devices
  imports Smp
begin

text \<open>
  Bringing up the devices (\<open>src/src/drivers/serial.c\<close>, and the parts of \<open>framebuffer.c\<close>, \<open>renderfont.c\<close>
  and \<open>keyboard.c\<close> that need the file system or the interrupt controllers): the serial port, the two
  framebuffer devices, the font file, the keyboard. The addresses of the device functions are the
  linker's.
\<close>

section \<open>The serial port\<close>

definition PORT :: u16 where "PORT = 0x3f8"

definition init_serial :: "'h machine \<Rightarrow> ('h, 'a) apic_state_scheme \<Rightarrow> (u32 \<times> ('h, 'a) apic_state_scheme) result" where
  "init_serial M s =
     (let s = outb M (PORT + 1) 0x00 s;
          s = outb M (PORT + 3) 0x80 s;
          s = outb M (PORT + 0) 0x03 s;
          s = outb M (PORT + 1) 0x00 s;
          s = outb M (PORT + 3) 0x03 s;
          s = outb M (PORT + 2) 0xC7 s;
          s = outb M (PORT + 4) 0x0B s;
          s = outb M (PORT + 4) 0x1E s;
          s = outb M (PORT + 0) 0xAE s;
          (b, s) = inb M (PORT + 0) s
      in if b \<noteq> 0xAE then Inr (1, s)
         else
           (let s = outb M (PORT + 4) 0x0F s in
            res_bind (console_printf [CHR 0x0A, NUL] [] s) (\<lambda>s. Inr (0, s))))"

definition is_transmit_empty :: "'h machine \<Rightarrow> 'h \<Rightarrow> u8 \<times> 'h" where
  "is_transmit_empty M h = (let (b, h) = port_in M (PORT + 5) h in (b AND 0x20, h))"

fun transmit_wait :: "nat \<Rightarrow> 'h machine \<Rightarrow> 'h \<Rightarrow> 'h result" where
  "transmit_wait fuel M h =
     (if fuel = 0 then Inl Diverged
      else let (b, h) = is_transmit_empty M h in if b = 0 then transmit_wait (fuel - 1) M h else Inr h)"

declare transmit_wait.simps [simp del]

definition write_serial_char :: "'h machine \<Rightarrow> u8 \<Rightarrow> 'h \<Rightarrow> 'h result" where
  "write_serial_char M a h = res_bind (transmit_wait walk_fuel M h) (\<lambda>h. Inr (port_out M PORT a h))"

primrec write_serial :: "'h machine \<Rightarrow> u8 list \<Rightarrow> 'h \<Rightarrow> 'h result" where
  "write_serial M [] h = Inr h"
| "write_serial M (a # str) h = res_bind (write_serial_char M a h) (write_serial M str)"

section \<open>The framebuffer's devices\<close>

datatype dev_fn = Fb_read | Fb_write | Fb_open | Fb_close | Fbinfo_read | Fbinfo_open | Fbinfo_close
  | Kb_read | Kb_open | Kb_close | Keyboard_isr

definition open_fb_device :: "u64 \<Rightarrow> u8 \<Rightarrow> 'a screen_state_scheme \<Rightarrow> 'a screen_state_scheme" where
  "open_fb_device filev mode s = s"

definition close_fb_device :: "u64 \<Rightarrow> 'a screen_state_scheme \<Rightarrow> 'a screen_state_scheme" where
  "close_fb_device filev s = s"

definition close_fbinfo_device :: "u64 \<Rightarrow> 'a screen_state_scheme \<Rightarrow> 'a screen_state_scheme" where
  "close_fbinfo_device filev s = s"

text \<open>A message is all that another mode leads to.\<close>

definition open_fbinfo_device :: "u64 \<Rightarrow> u8 \<Rightarrow> 'a screen_state_scheme \<Rightarrow> 'a screen_state_scheme" where
  "open_fbinfo_device filev mode s = s"

definition fbinfo_entries :: "'a screen_state_scheme \<Rightarrow> (string \<times> u64) list" where
  "fbinfo_entries s = [(''Width: '', fb_width s), (''Height: '', fb_height s), (''Pitch: '', fb_pitch s), (''Bytes: '', framebuffer_size s)]"

text \<open>The loop that fills the temporary buffer behind its first \<open>pos\<close> bytes.\<close>

primrec put_fbinfo :: "(string \<times> u64) list \<Rightarrow> u64 \<Rightarrow> nat \<Rightarrow> memory \<Rightarrow> nat \<times> memory" where
  "put_fbinfo [] temp_buffer pos m = (pos, m)"
| "put_fbinfo (e # es) temp_buffer pos m =
     (let this_strlen = length (fst e);
          m = placed temp_buffer pos (map of_char (fst e)) m;
          m = placed temp_buffer (pos + this_strlen) (word_bytes (snd e)) m
      in put_fbinfo es temp_buffer (pos + (this_strlen + 8)) m)"

definition read_fbinfo_device :: "u64 \<Rightarrow> u64 \<Rightarrow> u64 \<Rightarrow> 'a screen_state_scheme \<Rightarrow> (u32 \<times> 'a screen_state_scheme) result" where
  "read_fbinfo_device filev buffer max_len s =
     (let entries = fbinfo_entries s;
          whole_len = sum_list (map (\<lambda>e. length (fst e) + 8) entries) in
      res_bind (malloc (of_nat whole_len + 1) s) (\<lambda>(temp_buffer, s).
      let (pos, m) = put_fbinfo entries temp_buffer 0 (mem s);
          copy_amount = (if max_len > of_nat pos then of_nat pos else max_len);
          s = s\<lparr>mem := ku_memcpy buffer temp_buffer copy_amount m\<rparr>
      in res_bind (kfree temp_buffer s) (\<lambda>s. Inr (0, s))))"

definition init_framebuffer :: "(dev_fn \<Rightarrow> u64) \<Rightarrow> 'a vfs_state_scheme \<Rightarrow> 'a vfs_state_scheme result" where
  "init_framebuffer fn s =
     res_bind (init_framebuffer_memory s) (\<lambda>s.
     res_bind (create_device ''D:/fb0'' \<lparr>op_read = fn Fb_read, op_write = fn Fb_write, op_open = fn Fb_open, op_close = fn Fb_close\<rparr> s) (\<lambda>(_, s).
     res_bind (create_device ''D:/fbinfo0'' \<lparr>op_read = fn Fbinfo_read, op_write = 0, op_open = fn Fbinfo_open, op_close = fn Fbinfo_close\<rparr> s) (\<lambda>(_, s).
       Inr s)))"

section \<open>The font\<close>

definition PSF_FONT_MAGIC :: u16 where "PSF_FONT_MAGIC = 0x0436"

text \<open>\<open>font_info\<close> is kept as the character size it points to. What is printed through the serial port alone is a
  status message.\<close>

definition init_font :: "'a vfs_state_scheme device_calls \<Rightarrow> 'a vfs_state_scheme \<Rightarrow> 'a vfs_state_scheme result" where
  "init_font D s =
     res_bind (vfs_open D ''R:/sys/zap-light16.psf'' 0 MODE_READONLY s) (\<lambda>(f, s).
     if f = 0 then Inr s
     else
       res_bind (file_length f s) (\<lambda>file_size.
       res_bind (malloc file_size s) (\<lambda>(buffer, s).
       let s = s\<lparr>mem := ku_memset buffer 0 file_size (mem s)\<rparr> in
       res_bind (vfs_read D f buffer file_size s) (\<lambda>(read_status, s).
       if read_status \<noteq> 0 then vfs_close D f s
       else
         res_bind (vfs_close D f s) (\<lambda>s.
         let s = s\<lparr>char_size := mem s (buffer + 3)\<rparr>;
             s = s\<lparr>font_data := buffer + 4\<rparr>
         in if load 2 (mem s) buffer \<noteq> PSF_FONT_MAGIC then Inr s
            else
              (let s = s\<lparr>font_loaded := True\<rparr> in
               write_string
                 (map of_char (CHR 0x1B # ''[0;37mGraphical font rendering enabled. Allocator, VFS, TempFS, devices, initial ramdisk, and heap have already been set up.'' @ [CHR 0x0A, NUL])) s))))))"

section \<open>The keyboard\<close>

definition init_ps2_keyboard :: "'h machine \<Rightarrow> (dev_fn \<Rightarrow> u64) \<Rightarrow> ('h, 'a) apic_state_scheme \<Rightarrow> ('h, 'a) apic_state_scheme result" where
  "init_ps2_keyboard M fn s =
     res_bind (create_device ''D:/stdin'' \<lparr>op_read = fn Kb_read, op_write = 0, op_open = fn Kb_open, op_close = fn Kb_close\<rparr> s) (\<lambda>(_, s).
     let s = s\<lparr>mem := set_IDT_entry 33 (fn Keyboard_isr) 0x8E (idtr_offset (cpu_view s)) (mem s)\<rparr>
     in Inr (map_ioapic M 33 1 0 False False s))"

section \<open>The information device\<close>

definition info_bytes :: "(string \<times> u64) list \<Rightarrow> u8 list" where
  "info_bytes es = concat (map (\<lambda>e. map of_char (fst e) @ word_bytes (snd e)) es)"

lemma put_fbinfo_placed:
  "put_fbinfo es a pos m = (pos + length (info_bytes es), placed a pos (info_bytes es) m)"
proof (induction es arbitrary: pos m)
  case (Cons e es)
  have "placed a (pos + (length (fst e) + 8)) (info_bytes es) (placed a (pos + length (fst e)) (word_bytes (snd e))
      (placed a pos (map of_char (fst e)) m)) = placed a pos (info_bytes (e # es)) m"
    using placed_append[of a pos "map of_char (fst e)" "word_bytes (snd e)" m]
      placed_append[of a pos "map of_char (fst e) @ word_bytes (snd e)" "info_bytes es" m]
    by (simp add: info_bytes_def word_bytes_def add.assoc)
  then show ?case by (simp add: Cons Let_def info_bytes_def word_bytes_def)
qed (simp add: info_bytes_def)

lemma fbinfo_size: "length (info_bytes (fbinfo_entries s)) = 61"
  by (simp add: info_bytes_def fbinfo_entries_def word_bytes_def)

text \<open>Writing inside a live block keeps the heap.\<close>

lemma placed_heap:
  assumes inv: "heap_inv s" and b: "live s a = Some n" and l: "length bs \<le> n"
  shows "heap_inv (s\<lparr>mem := placed a 0 bs (mem s)\<rparr>)" "live (s\<lparr>mem := placed a 0 bs (mem s)\<rparr>) = live s"
proof -
  have wf: "pmm_wf s" by (rule heap_inv_wf[OF inv])
  have "placed a 0 bs (mem s) x = mem s x" if "e \<in> set (memmap s)" "usable e" "x - bitmap_at s e < 4096" for e x
  proof -
    have "\<not> unat (x - a) < n"
      using block_byte_owned(1)[OF inv b, of x] owned_not_bitmap[OF wf _ that(1,2), of "x - hhdm s"] that(3)
      by (auto simp: diff_diff_eq add.commute)
    then show ?thesis using l by (intro placed_outside) simp
  qed
  then show "heap_inv (s\<lparr>mem := placed a 0 bs (mem s)\<rparr>)" "live (s\<lparr>mem := placed a 0 bs (mem s)\<rparr>) = live s"
    using heap_mem(1,2)[OF wf] inv by blast+
qed

text \<open>Reading the information device fills the program's buffer with the screen's width, height, pitch and size in
  bytes, each behind its label, as far as the buffer goes; it changes no other byte of programs, and the
  heap is as before. It fails only for want of memory.\<close>

theorem read_fbinfo_describes_screen:
  assumes "heap_inv s" and "user_bytes s buffer (unat max_len)" and "unat max_len < 2 ^ 62"
  shows "(malloc 62 s = Inl Halted \<and> read_fbinfo_device filev buffer max_len s = Inl Halted) \<or>
    (\<exists>s'. read_fbinfo_device filev buffer max_len s = Inr (0, s') \<and> heap_inv s' \<and> live s' = live s \<and>
      mem_bytes (mem s') buffer (min 61 (unat max_len)) = take (unat max_len) (info_bytes (fbinfo_entries s)) \<and>
      (\<forall>x. \<not> kernel_byte s x \<and> min 61 max_len \<le> x - buffer \<longrightarrow> mem s' x = mem s x))"
proof -
  let ?bs = "info_bytes (fbinfo_entries s)"
  have w: "of_nat (sum_list (map (\<lambda>e. length (fst e) + 8) (fbinfo_entries s))) + 1 = (62 :: u64)" by (simp add: fbinfo_entries_def)
  have n: "61 < max_len \<Longrightarrow> min 61 max_len = 61" "\<not> 61 < max_len \<Longrightarrow> min 61 max_len = max_len" by (auto simp: min_def)
  let ?n = "min 61 max_len"
  have un: "unat ?n = min 61 (unat max_len)" by (simp add: min_def word_le_nat_alt)
  have eff: "case malloc 62 s of Inr (a, s') \<Rightarrow> malloc_done s 62 a s'
     | Inl err \<Rightarrow> err = Halted \<and> kmalloc (PAGE_ALIGN_UP (62 + 26) div 4096) s = Inl Halted"
    by (rule malloc_effect[OF assms(1)]) simp
  show ?thesis
  proof (cases "malloc 62 s")
    case (Inl e)
    then show ?thesis using eff by (simp add: read_fbinfo_device_def Let_def w)
  next
    case (Inr r)
    then obtain a s1 where m: "malloc 62 s = Inr (a, s1)" by (cases r) auto
    obtain mm t st ps where s1: "s1 = s\<lparr>mem := mm, total_memory_allocated := t, pools := st\<rparr>" and ch: "heap_chain s1 ps"
      and l: "live s a = None" "live s1 = (live s)(a \<mapsto> 62)"
      using eff m by (auto simp: malloc_done_def)
    have inv1: "heap_inv s1" using ch by (auto simp: heap_inv_def)
    have b1: "live s1 a = Some 62" using l by simp
    define s2 where "s2 = s1\<lparr>mem := placed a 0 ?bs (mem s1)\<rparr>"
    have s2: "heap_inv s2" "live s2 = live s1"
      unfolding s2_def using placed_heap[OF inv1 b1, of ?bs] fbinfo_size[of s] by simp_all
    have kb: "kernel_byte s1 x = kernel_byte s x" "kernel_byte s2 x = kernel_byte s x" for x
      by (simp_all add: kernel_byte_def s1 s2_def)
    have apart: "unat ?n \<le> unat (a + of_nat k - buffer)" if "k < unat ?n" for k
    proof -
      have "unat (a + of_nat k - a) = k" using that un by (simp add: unat_of_nat_u64)
      then have "kernel_byte s (a + of_nat k)" using block_byte_owned(2)[OF inv1 b1, of "a + of_nat k"] that un kb by simp
      then have "unat max_len \<le> unat (a + of_nat k - buffer)" using assms(2,3) by (intro user_bytes_apart[OF assms(2)]) simp_all
      then show ?thesis using un by simp
    qed
    define m3 where "m3 = ku_memcpy buffer a ?n (mem s2)"
    have m3: "m3 x = (if unat (x - buffer) < unat ?n then mem s2 (a + of_nat (unat (x - buffer))) else mem s2 x)" for x
      using memcpy_into_block[of 0 ?n "unat ?n" a buffer "mem s2"] apart un unfolding m3_def by simp
    have "m3 x = mem s2 x" if "kernel_byte s2 x" for x
    proof -
      have "unat max_len \<le> unat (x - buffer)" using that kb assms(2,3) by (intro user_bytes_apart[OF assms(2)]) simp_all
      then show ?thesis using un by (simp add: m3)
    qed
    note s3 = heap_mem_user[OF s2(1) this]
    have "live (s2\<lparr>mem := m3\<rparr>) a = Some 62" using s3(1) s2(2) b1 by simp
    from kfree_effect[OF s3(2) this] obtain s4 st' where k: "kfree a (s2\<lparr>mem := m3\<rparr>) = Inr s4" "heap_inv s4"
      "live s4 = (live (s2\<lparr>mem := m3\<rparr>))(a := None)" "s4 = s2\<lparr>mem := m3, pools := st'\<rparr>" by auto
    have fbinfo_entries1: "fbinfo_entries s1 = fbinfo_entries s" by (simp add: fbinfo_entries_def s1)
    have "read_fbinfo_device filev buffer max_len s = Inr (0, s4)"
      using m k(1) n by (cases "61 < max_len")
        (simp_all add: read_fbinfo_device_def Let_def w put_fbinfo_placed fbinfo_size[of s] fbinfo_entries1 m3_def s2_def)
    moreover have "live s4 = live s" unfolding k(3) using s3(1) s2(2) l by auto
    moreover have "mem_bytes (mem s4) buffer (min 61 (unat max_len)) = take (unat max_len) ?bs"
    proof (rule nth_equalityI)
      fix j assume "j < length (mem_bytes (mem s4) buffer (min 61 (unat max_len)))"
      then have j: "j < min 61 (unat max_len)" by (simp add: mem_bytes_def)
      have "unat (buffer + of_nat j - buffer) = j" "unat (a + of_nat j - a) = j" using j by (simp_all add: unat_of_nat_u64)
      then show "mem_bytes (mem s4) buffer (min 61 (unat max_len)) ! j = take (unat max_len) ?bs ! j"
        using j un by (simp add: mem_bytes_def k(4) m3 s2_def placed_def fbinfo_size)
    qed (simp add: mem_bytes_def fbinfo_size min.commute)
    moreover have "mem s4 x = mem s x" if x: "\<not> kernel_byte s x" "?n \<le> x - buffer" for x
    proof -
      have "\<not> unat (x - a) < 62" using block_byte_owned(2)[OF inv1 b1, of x] x(1) kb by auto
      moreover have "mem s1 x = mem s x" by (rule malloc_keeps(1)[OF assms(1) m x(1)])
      ultimately show ?thesis using x(2) fbinfo_size[of s] by (simp add: k(4) m3 s2_def placed_def word_le_nat_alt)
    qed
    ultimately show ?thesis using k(2) by blast
  qed
qed

theorem read_fbinfo_describes_screen_witness:
  "\<exists>(s :: fs_state) s'. fb_width s = 800 \<and> read_fbinfo_device 0 0x400000 8 s = Inr (0, s') \<and>
     mem_bytes (mem s') 0x400000 8 = map of_char ''Width: '' @ [32]"
proof -
  obtain t :: fs_state and n where t: "roomy 90000 t" "memmap t = sample_memmap" "hhdm t = 0xffff800000000000"
    using sample_file by blast
  define s where "s = t\<lparr>fb_width := 800\<rparr>"
  have "roomy 90000 s" using t(1) unfolding s_def by (subst heap_cong(3)[of _ t]) (simp_all add: kheap_state.defs)
  then have h: "heap_inv s" and r: "roomy (unat (62 :: u64) + 27 + 0) s" using roomy_inv roomy_mono[of 90000 s] by auto
  have m: "memmap s = sample_memmap" "hhdm s = 0xffff800000000000" using t by (simp_all add: s_def)
  have "\<exists>a s'. malloc 62 s = Inr (a, s')" using malloc_room[OF r] by auto
  moreover have "user_bytes s 0x400000 (unat (8 :: u64))" by (rule sample_user[OF m]) simp_all
  moreover have "info_bytes (fbinfo_entries s) = map of_char ''Width: '' @ 32 # tl (word_bytes 800) @ info_bytes (tl (fbinfo_entries s))"
    by (simp add: info_bytes_def fbinfo_entries_def s_def word_bytes_def upt_rec)
  ultimately have "\<exists>s'. read_fbinfo_device 0 0x400000 8 s = Inr (0, s') \<and> mem_bytes (mem s') 0x400000 8 = map of_char ''Width: '' @ [32]"
    using read_fbinfo_describes_screen[OF h, of "0x400000" 8 0] by auto
  moreover have "fb_width s = 800" by (simp add: s_def)
  ultimately show ?thesis by blast
qed

end
