(* ===== verification/Boot.thy ===== *)
theory Boot
  imports Devices
begin

text \<open>
  The kernel's start (\<open>src/src/kernel/entry.c\<close>, \<open>bootinfo.h\<close>, \<open>src/src/mem/print_mem.c\<close>): the data the boot
  loader hands over, and the order in which the parts are brought up until the first program is spawned.
  The hand-over of \<open>init_lock\<close> makes the processors initialise themselves one after the other while the
  boot processor waits (theory \<open>Smp\<close>), so here they run in that order. The final endless loop of
  \<open>_start\<close> is its end.
\<close>

section \<open>What the boot loader hands over\<close>

record boot_info =
  bi_memmap :: "limine_memmap_entry list"
  bi_hhdm :: u64
  bi_kernel :: kernel_layout
  bi_fb_address :: u64
  bi_fb_width :: u64
  bi_fb_height :: u64
  bi_fb_pitch :: u64
  bi_fb_bpp :: u16
  bi_initrd :: u64
  bi_rsdp :: u64
  bi_cpu_count :: u64
  bi_processor_ids :: "nat \<Rightarrow> u32"

record 'h boot_state = "'h apic_state" +
  total_memory :: u64

definition init_kernel_data :: "boot_info \<Rightarrow> ('h, 'a) boot_state_scheme \<Rightarrow> ('h, 'a) boot_state_scheme result" where
  "init_kernel_data B s =
     (let s = s\<lparr>memmap := bi_memmap B\<rparr>;
          s = s\<lparr>hhdm := bi_hhdm B\<rparr>;
          s = s\<lparr>fb_address := bi_fb_address B, fb_width := bi_fb_width B, fb_height := bi_fb_height B, fb_pitch := bi_fb_pitch B,
                fb_bpp := bi_fb_bpp B\<rparr>;
          s = s\<lparr>initial_ramdisk := bi_initrd B\<rparr>;
          s = s\<lparr>rsdp_table := bi_rsdp B\<rparr>;
          s = s\<lparr>cpu_count := bi_cpu_count B\<rparr>;
          s = s\<lparr>font_loaded := False, ch_X := 5, ch_Y := 5, fg_colour := 0xd8d9d7, bg_colour := 0x012456\<rparr>
      in if memmap s = [] then Inl OutOfBounds
         else Inr (s\<lparr>total_memory := me_base (last (memmap s)) + me_length (last (memmap s))\<rparr>))"

definition print_memory :: "'a vfs_state_scheme \<Rightarrow> 'a vfs_state_scheme result" where
  "print_memory s =
     res_bind (fold (\<lambda>e r. res_bind r (\<lambda>s.
         console_printf (CHR 0x0A # ''Base: 0x%x | Length: 0x%x | Type: %i'' @ [NUL])
           [VInt (me_base e), VInt (me_length e), VInt (me_type e)] s)) (memmap s) (Inr s)) (\<lambda>s.
       console_printf [CHR 0x0A, NUL] [] s)"

definition show_boot_info :: "'a vfs_state_scheme \<Rightarrow> 'a vfs_state_scheme result" where
  "show_boot_info s = res_bind (print_memory s) (console_printf [CHR 0x0A, NUL] [])"

text \<open>\<open>argv\<close> is the address of the array of \<open>entry.c\<close>.\<close>

definition try_spawn_init ::
  "kernel_layout \<Rightarrow> 'a sys_state_scheme device_calls \<Rightarrow> u64 \<Rightarrow> 'a sys_state_scheme \<Rightarrow> 'a sys_state_scheme result" where
  "try_spawn_init L D argv_array s =
     res_bind (spawn L D ''R:/exec/shell'' argv_array 3 s) (\<lambda>(status, s).
     if status \<noteq> 0 then Inl Halted else Inr (s\<lparr>can_task_switch := True\<rparr>))"

definition run_init_smp :: "'h machine \<Rightarrow> boot_info \<Rightarrow> ('h, 'a) apic_state_scheme \<Rightarrow> ('h, 'a) apic_state_scheme result" where
  "run_init_smp M B s = fold (\<lambda>i r. res_bind r (ap_entry M (bi_processor_ids B i))) [1..<unat (cpu_count s)] (Inr s)"

definition with_cpu :: "(cpu_state \<Rightarrow> cpu_state result) \<Rightarrow> ('h, 'a) apic_state_scheme \<Rightarrow> ('h, 'a) apic_state_scheme result" where
  "with_cpu f s = res_bind (f (cpu_view s)) (\<lambda>t. Inr (put_cpu t s))"

text \<open>\<open>fn\<close>, \<open>isr_addr\<close> and the other addresses are the linker's, \<open>ret\<close> is what \<open>find_MADT\<close> leaves in the return
  register when there is no such table.\<close>

record linked =
  fn_addr :: "dev_fn \<Rightarrow> u64"
  isr_at :: "isr_name \<Rightarrow> u64"
  syscall_isr_at :: u64
  devzero_at :: "u64 \<times> u64 \<times> u64"
  argv_at :: u64
  madt_ret :: u64

text \<open>The memory the kernel runs on: page allocator, heap, page tables.\<close>

definition start_memory :: "boot_info \<Rightarrow> ('h, 'a) apic_state_scheme \<Rightarrow> ('h, 'a) apic_state_scheme result" where
  "start_memory B s =
     (let s = init_PMM s in
      res_bind (init_kheap s) (\<lambda>s.
      res_bind (init_paging (bi_kernel B) s) (\<lambda>(tree, s). Inr (s\<lparr>cr3 := tree\<rparr>))))"

definition start_services ::
  "'h machine \<Rightarrow> linked \<Rightarrow> ('h, 'a) apic_state_scheme device_calls \<Rightarrow> ('h, 'a) apic_state_scheme \<Rightarrow> ('h, 'a) apic_state_scheme result" where
  "start_services M K D s =
     res_bind (init_acpi s) (\<lambda>s.
     res_bind (init_apic M (madt_ret K) s) (\<lambda>s.
     res_bind (init_tasklist s) (\<lambda>s.
     let s = init_vfs s; (r, op, cl) = devzero_at K in
     res_bind (init_devices r op cl s) (\<lambda>s.
     setup_initrd D s))))"

definition start_cpu :: "'h machine \<Rightarrow> linked \<Rightarrow> ('h, 'a) apic_state_scheme \<Rightarrow> ('h, 'a) apic_state_scheme result" where
  "start_cpu M K s =
     res_bind (with_cpu (\<lambda>t. Inr (init_TSS t)) s) (\<lambda>s.
     res_bind (with_cpu init_GDT s) (\<lambda>s.
     res_bind (with_cpu (init_IDT (isr_at K)) s) (\<lambda>s.
     let s = init_PIT M (isr_at K) s in
     res_bind (init_lapic_timer M s) (\<lambda>s.
     res_bind (with_cpu (\<lambda>t. Inr (init_syscalls (syscall_isr_at K) t)) s) (\<lambda>s.
     Inr (enable_interrupts M s))))))"

definition start_screen ::
  "'h machine \<Rightarrow> linked \<Rightarrow> ('h, 'a) apic_state_scheme device_calls \<Rightarrow> ('h, 'a) apic_state_scheme \<Rightarrow> ('h, 'a) apic_state_scheme result" where
  "start_screen M K D s =
     (let s = disable_interrupts M (lock_pit M s) in
      res_bind (init_ps2_keyboard M (fn_addr K) s) (\<lambda>s.
      res_bind (init_framebuffer (fn_addr K) s) (\<lambda>s.
      res_bind (init_font D s) (\<lambda>s. Inr (disable_interrupts M s)))))"

definition start ::
  "'h machine \<Rightarrow> boot_info \<Rightarrow> linked \<Rightarrow> ('h, 'a) boot_state_scheme device_calls \<Rightarrow> ('h, 'a) boot_state_scheme \<Rightarrow>
     ('h, 'a) boot_state_scheme result" where
  "start M B K D s =
     (let s = disable_interrupts M s in
      res_bind (init_kernel_data B s) (\<lambda>s.
      res_bind (init_serial M s) (\<lambda>(_, s).
      res_bind (show_boot_info s) (\<lambda>s.
      res_bind (start_memory B s) (\<lambda>s.
      res_bind (start_services M K D s) (\<lambda>s.
      res_bind (start_cpu M K s) (\<lambda>s.
      res_bind (run_init_smp M B s) (\<lambda>s.
      res_bind (start_screen M K D s) (\<lambda>s.
      res_bind (try_spawn_init (bi_kernel B) D (argv_at K) s) (\<lambda>s.
      let s = clear_screen s;
          s = lock_pit M s;
          s = unlock_lapic_timer M s
      in Inr (enable_interrupts M s)))))))))))"

section \<open>The heap at the start\<close>

text \<open>On a well-formed memory map the start has a heap with no block in use, or halts for want of two free pages.\<close>

lemma start_heap_ready:
  assumes "memmap_ok s" and "hhdm_ok s"
  shows "case init_kheap (init_PMM s) of Inr s' \<Rightarrow> heap_inv s' \<and> live s' = Map.empty \<and> roomy 8165 s' | Inl e \<Rightarrow> e = Halted"
proof (rule init_kheap_effect)
  show "pmm_wf (init_PMM s)" using init_PMM_all_free[OF assms(1)] by simp
  show "hhdm_ok (init_PMM s)" using assms(2) by (simp add: hhdm_ok_def init_PMM_def fold_init_single_bitmap)
qed

lemma start_memory_heap:
  assumes "memmap_ok s" and "hhdm_ok s"
  shows "(\<exists>e. start_memory B s = Inl e) \<or>
    (\<exists>s1 s2 tree. init_kheap (init_PMM s) = Inr s1 \<and> heap_inv s1 \<and> live s1 = Map.empty \<and>
       init_paging (bi_kernel B) s1 = Inr (tree, s2) \<and> start_memory B s = Inr (s2\<lparr>cr3 := tree\<rparr>))"
  using start_heap_ready[OF assms]
  by (cases "init_kheap (init_PMM s)"; cases "init_paging (bi_kernel B) (projr (init_kheap (init_PMM s)))") (auto simp: start_memory_def Let_def)

end
