(* ===== verification/Entry.thy ===== *)
theory Entry
  imports Apic Panic
begin

text \<open>
  The ways into the kernel (\<open>src/src/tasks/switch.asm\<close>, \<open>src/src/tasks/syscall_handler.asm\<close>,
  \<open>src/src/cpu/exceptions.asm\<close>): the timer's interrupt with the switch of tasks, the gate of the system calls and the
  entries of the exceptions, instruction by instruction, over a processor with registers, stacks and a page tree.

  A stack is the words at the addresses of one page tree: every task's tree maps its own kernel stack at the same
  addresses. What compiled C code leaves in the registers that a call need not preserve, and in the words
  below the stack pointer, is a parameter (\<open>call_effects\<close>).
\<close>

section \<open>The processor\<close>

datatype reg = RAX | RBX | RCX | RDX | RSI | RDI | RBP | R8 | R9 | R10 | R11 | R12 | R13 | R14 | R15

record cpu =
  gpr :: "reg \<Rightarrow> u64"
  c_rsp :: u64
  c_rip :: u64
  c_cs :: u64
  c_rflags :: u64
  c_ss :: u64
  c_cr3 :: u64
  stacks :: "u64 \<Rightarrow> u64 \<Rightarrow> u64"

definition mov :: "reg \<Rightarrow> u64 \<Rightarrow> cpu \<Rightarrow> cpu" where
  "mov r v c = c\<lparr>gpr := (gpr c)(r := v)\<rparr>"

definition push :: "u64 \<Rightarrow> cpu \<Rightarrow> cpu" where
  "push v c = c\<lparr>c_rsp := c_rsp c - 8, stacks := (stacks c)(c_cr3 c := (stacks c (c_cr3 c))(c_rsp c - 8 := v))\<rparr>"

definition pop :: "cpu \<Rightarrow> u64 \<times> cpu" where
  "pop c = (stacks c (c_cr3 c) (c_rsp c), c\<lparr>c_rsp := c_rsp c + 8\<rparr>)"

definition push_regs :: "reg list \<Rightarrow> cpu \<Rightarrow> cpu" where
  "push_regs rs c = fold (\<lambda>r c. push (gpr c r) c) rs c"

definition pop_regs :: "reg list \<Rightarrow> cpu \<Rightarrow> cpu" where
  "pop_regs rs c = fold (\<lambda>r c. let (v, c) = pop c in mov r v c) rs c"

definition iretq :: "cpu \<Rightarrow> cpu" where
  "iretq c =
     (let (ip, c) = pop c; (code_segment, c) = pop c; (flags, c) = pop c; (sp, c) = pop c; (stack_segment, c) = pop c
      in c\<lparr>c_rip := ip, c_cs := code_segment, c_rflags := flags, c_rsp := sp, c_ss := stack_segment\<rparr>)"

definition user_mode :: "cpu \<Rightarrow> bool" where
  "user_mode c \<longleftrightarrow> c_cs c AND 3 = 3"

text \<open>An interrupt through a gate with the kernel's code segment: from a program the processor takes the stack of
  the task state segment, from the kernel it stays on the stack it has.\<close>

definition interrupt :: "u64 \<Rightarrow> u64 \<Rightarrow> cpu \<Rightarrow> cpu" where
  "interrupt sp0 handler c =
     (let sp = (if user_mode c then sp0 else c_rsp c) AND NOT 0xF
      in (fold push [c_ss c, c_rsp c, c_rflags c, c_cs c, c_rip c] (c\<lparr>c_rsp := sp\<rparr>))
           \<lparr>c_cs := 0x08, c_ss := (if user_mode c then 0 else c_ss c), c_rip := handler\<rparr>)"

section \<open>Calls of C code\<close>

record call_effects =
  regs_after :: "string \<Rightarrow> cpu \<Rightarrow> reg \<Rightarrow> u64"
  stack_after :: "string \<Rightarrow> cpu \<Rightarrow> u64 \<Rightarrow> u64"
  return_addr :: "string \<Rightarrow> cpu \<Rightarrow> u64"

definition callee_saved :: "reg \<Rightarrow> bool" where
  "callee_saved r \<longleftrightarrow> r \<in> {RBX, RBP, R12, R13, R14, R15}"

text \<open>What a C function returns defines all of \<open>rax\<close>, its low 32 or its low 8 bits, or nothing of it.\<close>

datatype c_return = Ret64 u64 | Ret32 u32 | Ret8 u8 | Void

fun rax_after :: "c_return \<Rightarrow> u64 \<Rightarrow> u64" where
  "rax_after (Ret64 v) junk = v"
| "rax_after (Ret32 v) junk = push_bit 32 (drop_bit 32 junk) OR ucast v"
| "rax_after (Ret8 v) junk = push_bit 8 (drop_bit 8 junk) OR ucast v"
| "rax_after Void junk = junk"

text \<open>The call pushes the address behind it; what is further below the stack pointer is the callee's.\<close>

definition c_call :: "call_effects \<Rightarrow> string \<Rightarrow> c_return \<Rightarrow> cpu \<Rightarrow> cpu" where
  "c_call K f ret c = c\<lparr>
     gpr := (\<lambda>r. if callee_saved r then gpr c r else if r = RAX then rax_after ret (regs_after K f c RAX) else regs_after K f c r),
     stacks := (stacks c)(c_cr3 c := (\<lambda>a. if a < c_rsp c then (if a = c_rsp c - 8 then return_addr K f c else stack_after K f c a)
        else stacks c (c_cr3 c) a))\<rparr>"

section \<open>The timer's interrupt\<close>

definition saved_regs :: "reg list" where
  "saved_regs = [RAX, RBX, RCX, RDX, RSI, RDI, RBP, R8, R9, R10, R11, R12, R13, R14, R15]"

definition task_switch_previously_executed ::
  "call_effects \<Rightarrow> cpu \<times> ('h, 'a) apic_state_scheme \<Rightarrow> cpu \<times> ('h, 'a) apic_state_scheme" where
  "task_switch_previously_executed K = (\<lambda>(c, s).
     (iretq (pop_regs (rev saved_regs) (c_call K ''end_of_interrupt'' Void c)), end_of_interrupt s))"

definition cannot_task_switch ::
  "call_effects \<Rightarrow> cpu \<times> ('h, 'a) apic_state_scheme \<Rightarrow> cpu \<times> ('h, 'a) apic_state_scheme" where
  "cannot_task_switch K = (\<lambda>(c, s).
     (iretq (pop_regs (rev saved_regs) (c_call K ''end_of_interrupt'' Void c)), end_of_interrupt s))"

definition first_frame :: "cpu \<Rightarrow> cpu" where
  "first_frame c =
     (let c = push 0 c;
          c = mov RBX 0x20 c; c = mov RBX (gpr c RBX OR 3) c; c = push (gpr c RBX) c; c = mov RBX 0 c;
          c = mov RBX 0x6FFFFFFFFFF8 c; c = push (gpr c RBX) c;
          c = push 0x200 c;
          c = mov RBX 0x18 c; c = mov RBX (gpr c RBX OR 3) c; c = push (gpr c RBX) c
      in mov RBX 0 c)"

definition clear_regs :: "cpu \<Rightarrow> cpu" where
  "clear_regs c = fold (\<lambda>r. mov r 0) [RAX, RBX, RCX, RDX, RBP, R8, R9, R10, R11, R12, R13, R14, R15] c"

definition task_switch_first_exec ::
  "call_effects \<Rightarrow> 'h machine \<Rightarrow> cpu \<times> ('h, 'a) apic_state_scheme \<Rightarrow> (cpu \<times> ('h, 'a) apic_state_scheme) result" where
  "task_switch_first_exec K M = (\<lambda>(c, s).
     let c = mov RDI (gpr c R15) c in
     res_bind (task_disable_first_exec (gpr c RDI) s) (\<lambda>s.
     let c = c_call K ''task_disable_first_exec'' Void c;
         c = first_frame c in
     res_bind (task_get_entry_point (gpr c RDI) s) (\<lambda>ip.
     let c = c_call K ''task_get_entry_point'' (Ret64 ip) c;
         c = push (gpr c RAX) c;
         s = unlock_lapic_timer M s; c = c_call K ''unlock_lapic_timer'' Void c;
         s = end_of_interrupt s; c = c_call K ''end_of_interrupt'' Void c in
     res_bind (task_get_argc (gpr c RDI) s) (\<lambda>n.
     let c = c_call K ''task_get_argc'' (Ret64 n) c;
         c = mov R15 (gpr c RAX) c in
     res_bind (task_get_argv (gpr c RDI) s) (\<lambda>v.
     let c = c_call K ''task_get_argv'' (Ret64 v) c;
         c = mov RDI (gpr c R15) c;
         c = mov RSI (gpr c RAX) c
     in Inr (iretq (clear_regs c), s))))))"

text \<open>The second half of the switch, behind \<open>mov cr3, rax\<close>: the stack pointer is still the one of the task that is
  left, while the words are already those of the chosen task's tree.\<close>

definition enter_task ::
  "call_effects \<Rightarrow> 'h machine \<Rightarrow> cpu \<times> ('h, 'a) apic_state_scheme \<Rightarrow> (cpu \<times> ('h, 'a) apic_state_scheme) result" where
  "enter_task K M = (\<lambda>(c, s).
     let c = mov RDI (gpr c R15) c in
     res_bind (task_get_rsp (gpr c RDI) s) (\<lambda>sp.
     let c = c_call K ''task_get_rsp'' (Ret64 sp) c;
         c = c\<lparr>c_rsp := gpr c RAX\<rparr> in
     res_bind (task_get_flags (gpr c RDI) s) (\<lambda>fl.
     let c = c_call K ''task_get_flags'' (Ret64 fl) c;
         c = mov RAX (gpr c RAX AND 2) c in
     if gpr c RAX \<noteq> 0 then task_switch_first_exec K M (c, s)
     else Inr (task_switch_previously_executed K (c, s)))))"

definition task_switch ::
  "call_effects \<Rightarrow> 'h machine \<Rightarrow> cpu \<times> ('h, 'a) apic_state_scheme \<Rightarrow> (cpu \<times> ('h, 'a) apic_state_scheme) result" where
  "task_switch K M = (\<lambda>(c, s).
     let c = push_regs saved_regs c;
         s = pit_decrement_counter s; c = c_call K ''pit_decrement_counter'' Void c;
         c = c_call K ''check_task_switch_allowed'' (Ret8 (if check_task_switch_allowed s then 1 else 0)) c in
     if gpr c RAX = 0 then Inr (cannot_task_switch K (c, s))
     else
       res_bind (get_current_task s) (\<lambda>(task, s).
       let c = c_call K ''get_current_task'' (Ret64 task) c;
           c = mov RDI (gpr c RAX) c; c = mov RSI (c_rsp c) c in
       res_bind (task_set_rsp (gpr c RDI) (gpr c RSI) s) (\<lambda>s.
       let c = c_call K ''task_set_rsp'' Void c in
       res_bind (task_select s) (\<lambda>(task, s).
       let c = c_call K ''task_select'' (Ret64 task) c;
           c = mov RDI (gpr c RAX) c; c = mov R15 (gpr c RAX) c in
       res_bind (task_get_cr3 (gpr c RDI) s) (\<lambda>tree.
       let c = c_call K ''task_get_cr3'' (Ret64 tree) c
       in enter_task K M (c\<lparr>c_cr3 := gpr c RAX\<rparr>, s))))))"

section \<open>System calls\<close>

text \<open>The numbers of the C library (\<open>src/libc/include/syscall.h\<close>), in order.\<close>

datatype Syscall = SYS_READ | SYS_WRITE | SYS_OPEN | SYS_CLOSE | SYS_SPAWN | SYS_GETCWD | SYS_POLL | SYS_PEEK
  | SYS_GETERRNO | SYS_EXIT | SYS_MMAP

fun syscall_number :: "Syscall \<Rightarrow> u64" where
  "syscall_number SYS_READ = 0"
| "syscall_number SYS_WRITE = 1"
| "syscall_number SYS_OPEN = 2"
| "syscall_number SYS_CLOSE = 3"
| "syscall_number SYS_SPAWN = 4"
| "syscall_number SYS_GETCWD = 5"
| "syscall_number SYS_POLL = 6"
| "syscall_number SYS_PEEK = 7"
| "syscall_number SYS_GETERRNO = 8"
| "syscall_number SYS_EXIT = 9"
| "syscall_number SYS_MMAP = 10"

text \<open>The table of the gate: the functions at the numbers 0, 1, and so on.\<close>

definition syscall_lookup :: "string list" where
  "syscall_lookup = [''syscall_read'', ''syscall_write'', ''syscall_open'', ''syscall_close'', ''syscall_spawn'',
     ''syscall_get_cwd'', ''syscall_poll'', ''syscall_peek'', ''syscall_get_errno'', ''syscall_exit'', ''syscall_mmap'']"

text \<open>\<open>all_tasks_ended\<close> (\<open>src/src/kernel/entry.c\<close>) turns interrupts off and stays in a loop; its message is not modelled.\<close>

definition all_tasks_ended :: "'h machine \<Rightarrow> ('h, 'a) apic_state_scheme \<Rightarrow> ('h, 'a) apic_state_scheme" where
  "all_tasks_ended M s = disable_interrupts M s"

text \<open>\<open>syscall_exit\<close> with its instructions that reach the hardware.\<close>

definition exit_on :: "'h machine \<Rightarrow> u64 \<Rightarrow> ('h, 'a) apic_state_scheme \<Rightarrow> (exit_outcome \<times> ('h, 'a) apic_state_scheme) result" where
  "exit_on M exit_code s =
     res_bind (syscall_exit exit_code (disable_interrupts M s)) (\<lambda>(e, s).
       Inr (e, case e of Exit_returns \<Rightarrow> s
               | Exit_waits \<Rightarrow> unlock_pit M (enable_interrupts M s)
               | Exit_all_ended \<Rightarrow> all_tasks_ended M s))"

text \<open>A call of the function with the name \<open>f\<close> with the arguments in \<open>rdi\<close>, \<open>rsi\<close>, \<open>rdx\<close>, \<open>rcx\<close>, \<open>r8\<close> and \<open>r9\<close>.\<close>

definition returning :: "('r \<Rightarrow> c_return) \<Rightarrow> ('r \<times> 's) result \<Rightarrow> (exit_outcome \<times> c_return \<times> 's) result" where
  "returning ret r = res_bind r (\<lambda>(v, s). Inr (Exit_returns, ret v, s))"

definition nothing :: "'s result \<Rightarrow> (exit_outcome \<times> c_return \<times> 's) result" where
  "nothing r = res_bind r (\<lambda>s. Inr (Exit_returns, Void, s))"

definition call_syscall ::
  "'h machine \<Rightarrow> kernel_layout \<Rightarrow> ('h, 'a) apic_state_scheme device_calls \<Rightarrow> string \<Rightarrow> (reg \<Rightarrow> u64) \<Rightarrow> ('h, 'a) apic_state_scheme \<Rightarrow>
     (exit_outcome \<times> c_return \<times> ('h, 'a) apic_state_scheme) result" where
  "call_syscall M L D f g s =
     (if f = ''syscall_read'' then returning Ret32 (syscall_read D (g RDI) (g RSI) (g RDX) s)
      else if f = ''syscall_write'' then returning Ret32 (syscall_write D (g RDI) (g RSI) (g RDX) s)
      else if f = ''syscall_open'' then returning Ret32 (syscall_open D (g RDI) (g RSI) (g RDX) s)
      else if f = ''syscall_close'' then nothing (syscall_close D (g RDI) s)
      else if f = ''syscall_spawn'' then returning Ret32 (syscall_spawn L D (g RDI) (g RSI) (g RDX) s)
      else if f = ''syscall_get_cwd'' then nothing (syscall_get_cwd (g RDI) (g RSI) s)
      else if f = ''syscall_poll'' then nothing (syscall_poll (g RDI) s)
      else if f = ''syscall_peek'' then nothing (syscall_peek (g RDI) s)
      else if f = ''syscall_get_errno'' then returning Ret64 (syscall_get_errno s)
      else if f = ''syscall_exit'' then res_bind (exit_on M (g RDI) s) (\<lambda>(e, s). Inr (e, Void, s))
      else returning Ret64 (syscall_mmap D (g RDI) (g RSI) (ucast (g RDX)) (ucast (g RCX)) (ucast (g R8)) (g R9) s))"

definition syscall_saved :: "reg list" where
  "syscall_saved = [RBX, RCX, RDX, RSI, RDI, RBP, R8, R9, R10, R11, R12, R13, R14, R15]"

text \<open>How an entry ends: the interrupted code goes on, or the task waits for the timer to switch away from it, or
  the processor stays in \<open>all_tasks_ended\<close>.\<close>

datatype 'w entry_end = Resumes 'w | Waits 'w | All_ended 'w

definition invalid_syscall ::
  "call_effects \<Rightarrow> cpu \<times> ('h, 'a) apic_state_scheme \<Rightarrow> (cpu \<times> ('h, 'a) apic_state_scheme) result" where
  "invalid_syscall K = (\<lambda>(c, s).
     res_bind (syscall_invalid s) (\<lambda>s.
     let c = c_call K ''syscall_invalid'' Void c;
         (ip, c) = pop c
     in Inr (c\<lparr>c_rip := ip\<rparr>, s)))"

definition syscall_isr ::
  "call_effects \<Rightarrow> 'h machine \<Rightarrow> kernel_layout \<Rightarrow> ('h, 'a) apic_state_scheme device_calls \<Rightarrow> cpu \<times> ('h, 'a) apic_state_scheme \<Rightarrow>
     (cpu \<times> ('h, 'a) apic_state_scheme) entry_end result" where
  "syscall_isr K M L D = (\<lambda>(c, s).
     let s = disable_interrupts M s in
     if gpr c RAX \<ge> of_nat (length syscall_lookup) then
       res_bind (invalid_syscall K (c, s)) (\<lambda>w. Inr (Resumes w))
     else
       let f = syscall_lookup ! unat (gpr c RAX);
           c = push_regs syscall_saved c
       in res_bind (call_syscall M L D f (gpr c) s) (\<lambda>(e, v, s).
         let c = c_call K f v c in
         Inr (case e of Exit_returns \<Rightarrow> Resumes (iretq (pop_regs (rev syscall_saved) c), s)
              | Exit_waits \<Rightarrow> Waits (c, s) | Exit_all_ended \<Rightarrow> All_ended (c, s))))"

text \<open>The stubs of the C library (\<open>src/libc/impl/syscalls.c\<close>): where they put the number and the arguments.\<close>

definition syscall_args :: "u64 \<Rightarrow> u64 list \<Rightarrow> cpu \<Rightarrow> cpu" where
  "syscall_args n as c = fold (\<lambda>(r, a). mov r a) (zip [RDI, RSI, RDX, R10, R8, R9] as) (mov RAX n c)"

section \<open>Exceptions\<close>

text \<open>What the entry of an exception pushes: a zero where the processor pushes no error code, and the number.\<close>

fun exception_pushes :: "isr_name \<Rightarrow> (bool \<times> u64) option" where
  "exception_pushes divideException = Some (True, 0)"
| "exception_pushes debugException = Some (True, 1)"
| "exception_pushes breakpointException = Some (True, 3)"
| "exception_pushes overflowException = Some (True, 4)"
| "exception_pushes boundRangeExceededException = Some (True, 5)"
| "exception_pushes invalidOpcodeException = Some (True, 6)"
| "exception_pushes deviceNotAvaliableException = Some (True, 7)"
| "exception_pushes doubleFaultException = Some (False, 8)"
| "exception_pushes coprocessorSegmentOverrunException = Some (True, 9)"
| "exception_pushes invalidTSSException = Some (False, 10)"
| "exception_pushes segmentNotPresentException = Some (False, 11)"
| "exception_pushes stackSegmentFaultException = Some (False, 12)"
| "exception_pushes generalProtectionFaultException = Some (False, 13)"
| "exception_pushes pageFaultException = Some (False, 14)"
| "exception_pushes floatingPointException = Some (True, 16)"
| "exception_pushes alignmentCheckException = Some (False, 17)"
| "exception_pushes machineCheckException = Some (True, 18)"
| "exception_pushes simdFloatingPointException = Some (True, 19)"
| "exception_pushes virtualisationException = Some (True, 20)"
| "exception_pushes _ = None"

text \<open>The structure that \<open>exception_handler\<close> takes by value: the words at the stack pointer.\<close>

definition frame_at :: "cpu \<Rightarrow> IDTEFrame" where
  "frame_at c = (let w = (\<lambda>i. stacks c (c_cr3 c) (c_rsp c + 8 * of_nat i)) in
     \<lparr>f_cr2 = w 0, f_r15 = w 1, f_r14 = w 2, f_r13 = w 3, f_r12 = w 4, f_r11 = w 5, f_r10 = w 6, f_r9 = w 7, f_r8 = w 8,
      f_rbp = w 9, f_rdi = w 10, f_rsi = w 11, f_rdx = w 12, f_rcx = w 13, f_rbx = w 14, f_rax = w 15, f_type = w 16,
      f_code = w 17, f_rip = w 18, f_cs = w 19, f_flags = w 20, f_rsp = w 21, f_ss = w 22\<rparr>)"

text \<open>\<open>baseHandler\<close> ends the task first; it comes back only when the task is the kernel's own, and then calls
  \<open>exception_handler\<close> (theory \<open>Panic\<close>) with the registers.\<close>

datatype 'w exception_end = Handler_called IDTEFrame 'w | Task_ended "'w entry_end"

definition baseHandler ::
  "call_effects \<Rightarrow> 'h machine \<Rightarrow> u64 \<Rightarrow> cpu \<times> ('h, 'a) apic_state_scheme \<Rightarrow> (cpu \<times> ('h, 'a) apic_state_scheme) exception_end result" where
  "baseHandler K M cr2 = (\<lambda>(c, s).
     let c = push_regs saved_regs c;
         c = mov RDI (gpr c RAX) c in
     res_bind (exit_on M (gpr c RDI) s) (\<lambda>(e, s).
       let c = c_call K ''syscall_exit'' Void c in
       Inr (case e of Exit_returns \<Rightarrow>
              (let c = mov RAX cr2 c; c = push (gpr c RAX) c; c = mov RDI (c_rsp c) c
               in Handler_called (frame_at c) (c, s))
            | Exit_waits \<Rightarrow> Task_ended (Waits (c, s))
            | Exit_all_ended \<Rightarrow> Task_ended (All_ended (c, s)))))"

definition exception_entry ::
  "call_effects \<Rightarrow> 'h machine \<Rightarrow> bool \<times> u64 \<Rightarrow> u64 \<Rightarrow> cpu \<times> ('h, 'a) apic_state_scheme \<Rightarrow> (cpu \<times> ('h, 'a) apic_state_scheme) exception_end result" where
  "exception_entry K M = (\<lambda>(zero, number) cr2 (c, s).
     let c = (if zero then push 0 c else c);
         c = push number c
     in baseHandler K M cr2 (c, s))"

text \<open>A spurious interrupt (\<open>src/src/cpu/idt.c\<close>) is only acknowledged.\<close>

definition spurious_interrupt :: "'a kb_state_scheme \<Rightarrow> 'a kb_state_scheme" where
  "spurious_interrupt s = end_of_interrupt s"

section \<open>Stacks\<close>

definition stack_word :: "cpu \<Rightarrow> u64 \<Rightarrow> u64" where
  "stack_word c a = stacks c (c_cr3 c) a"

definition pushes :: "u64 list \<Rightarrow> cpu \<Rightarrow> cpu" where
  "pushes vs c = fold push vs c"

lemma push_simps [simp]:
  "gpr (push v c) = gpr c" "c_rsp (push v c) = c_rsp c - 8" "c_cr3 (push v c) = c_cr3 c"
  "c_rip (push v c) = c_rip c" "c_cs (push v c) = c_cs c" "c_rflags (push v c) = c_rflags c" "c_ss (push v c) = c_ss c"
  by (simp_all add: push_def)

lemma mov_simps [simp]:
  "gpr (mov r v c) = (gpr c)(r := v)" "c_rsp (mov r v c) = c_rsp c" "c_cr3 (mov r v c) = c_cr3 c" "stacks (mov r v c) = stacks c"
  "c_rip (mov r v c) = c_rip c" "c_cs (mov r v c) = c_cs c" "c_rflags (mov r v c) = c_rflags c" "c_ss (mov r v c) = c_ss c"
  by (simp_all add: mov_def)

lemma c_call_simps [simp]:
  "c_rsp (c_call K f v c) = c_rsp c" "c_cr3 (c_call K f v c) = c_cr3 c"
  "c_rip (c_call K f v c) = c_rip c" "c_cs (c_call K f v c) = c_cs c" "c_rflags (c_call K f v c) = c_rflags c" "c_ss (c_call K f v c) = c_ss c"
  "callee_saved r \<Longrightarrow> gpr (c_call K f v c) r = gpr c r"
  "gpr (c_call K f v c) RAX = rax_after v (regs_after K f c RAX)"
  "gpr (c_call K f v c) RDI = regs_after K f c RDI"
  "t \<noteq> c_cr3 c \<Longrightarrow> stacks (c_call K f v c) t = stacks c t"
  "\<not> a < c_rsp c \<Longrightarrow> stacks (c_call K f v c) t a = stacks c t a"
  by (simp_all add: c_call_def callee_saved_def)

lemma callee_saved_simps [simp]:
  "callee_saved R15" "callee_saved RBX" "\<not> callee_saved RAX" "\<not> callee_saved RDI" "\<not> callee_saved RSI"
  by (simp_all add: callee_saved_def)

lemma pushes_simps [simp]:
  "gpr (pushes vs c) = gpr c" "c_rsp (pushes vs c) = c_rsp c - 8 * of_nat (length vs)" "c_cr3 (pushes vs c) = c_cr3 c"
  "c_rip (pushes vs c) = c_rip c" "c_cs (pushes vs c) = c_cs c" "c_rflags (pushes vs c) = c_rflags c" "c_ss (pushes vs c) = c_ss c"
  unfolding pushes_def by (induction vs arbitrary: c) simp_all

lemma pushes_other: "t \<noteq> c_cr3 c \<Longrightarrow> stacks (pushes vs c) t = stacks c t"
  unfolding pushes_def by (induction vs arbitrary: c) (simp_all add: push_def)

text \<open>The stack pointers a push goes through, and the words it leaves there.\<close>

lemma pushes_outside:
  "(\<And>i. i < length vs \<Longrightarrow> a \<noteq> c_rsp c - 8 * of_nat (Suc i)) \<Longrightarrow> stacks (pushes vs c) t a = stacks c t a"
proof (induction vs arbitrary: c)
  case Nil
  then show ?case by (simp add: pushes_def)
next
  case (Cons v vs)
  have "a \<noteq> c_rsp (push v c) - 8 * of_nat (Suc i)" if "i < length vs" for i
    using Cons.prems[of "Suc i"] that by (simp add: algebra_simps)
  then have "stacks (pushes vs (push v c)) t a = stacks (push v c) t a" by (rule Cons.IH)
  moreover have "a \<noteq> c_rsp c - 8" using Cons.prems[of 0] by simp
  ultimately show ?case by (simp add: pushes_def push_def)
qed

lemma diff_left_cancel': "a - b = a - c \<Longrightarrow> b = (c :: u64)"
  by (metis diff_diff_eq2 add_diff_cancel_left')

lemma slot_inj:
  assumes "i < 2 ^ 60" "j < 2 ^ 60" "a - 8 * of_nat i = a - (8 * of_nat j :: u64)"
  shows "i = j"
proof -
  have u: "unat (of_nat (8 * k) :: u64) = 8 * k" if "k < 2 ^ 60" for k
    using that by (intro unat_of_nat_u64) simp
  have "of_nat (8 * i) = (of_nat (8 * j) :: u64)" using assms(3) unfolding of_nat_mult of_nat_numeral by (rule diff_left_cancel')
  then have "8 * i = 8 * j" using u[OF assms(1)] u[OF assms(2)] by metis
  then show ?thesis by simp
qed

lemma pushes_at:
  assumes "i < length vs" "length vs < 2 ^ 60"
  shows "stacks (pushes vs c) (c_cr3 c) (c_rsp c - 8 * of_nat (Suc i)) = vs ! i"
  using assms
proof (induction vs arbitrary: c i)
  case (Cons v vs)
  show ?case
  proof (cases i)
    case 0
    have "stacks (pushes vs (push v c)) (c_cr3 c) (c_rsp c - 8) = stacks (push v c) (c_cr3 c) (c_rsp c - 8)"
    proof (rule pushes_outside)
      fix j assume j: "j < length vs"
      show "c_rsp c - 8 \<noteq> c_rsp (push v c) - 8 * of_nat (Suc j)"
        using slot_inj[of 1 "Suc (Suc j)" "c_rsp c"] j Cons.prems by (auto simp: algebra_simps)
    qed
    then show ?thesis using 0 by (simp add: pushes_def push_def)
  next
    case (Suc j)
    then have "stacks (pushes vs (push v c)) (c_cr3 (push v c)) (c_rsp (push v c) - 8 * of_nat (Suc j)) = vs ! j"
      using Cons.prems by (intro Cons.IH) simp_all
    then show ?thesis using Suc by (simp add: pushes_def algebra_simps)
  qed
qed simp

lemma push_regs_pushes: "push_regs rs c = pushes (map (gpr c) rs) c"
proof -
  have "fold (\<lambda>r c. push (gpr c r) c) rs d = pushes (map (gpr c) rs) d" if "gpr d = gpr c" for d
    using that by (induction rs arbitrary: d) (simp_all add: pushes_def)
  then show ?thesis by (simp add: push_regs_def)
qed

lemma pop_regs_simps [simp]:
  "c_rsp (pop_regs rs c) = c_rsp c + 8 * of_nat (length rs)" "c_cr3 (pop_regs rs c) = c_cr3 c" "stacks (pop_regs rs c) = stacks c"
  unfolding pop_regs_def by (induction rs arbitrary: c) (simp_all add: pop_def algebra_simps)

lemma pop_regs_gpr:
  assumes "distinct rs"
  shows "r \<notin> set rs \<Longrightarrow> gpr (pop_regs rs c) r = gpr c r"
    and "i < length rs \<Longrightarrow> gpr (pop_regs rs c) (rs ! i) = stacks c (c_cr3 c) (c_rsp c + 8 * of_nat i)"
proof -
  show a: "r \<notin> set rs \<Longrightarrow> gpr (pop_regs rs c) r = gpr c r" for r
    unfolding pop_regs_def by (induction rs arbitrary: c) (simp_all add: pop_def)
  show "i < length rs \<Longrightarrow> gpr (pop_regs rs c) (rs ! i) = stacks c (c_cr3 c) (c_rsp c + 8 * of_nat i)"
    using assms
  proof (induction rs arbitrary: c i)
    case (Cons q rs)
    let ?c = "mov q (stacks c (c_cr3 c) (c_rsp c)) (c\<lparr>c_rsp := c_rsp c + 8\<rparr>)"
    have p: "pop_regs (q # rs) c = pop_regs rs ?c" by (simp add: pop_regs_def pop_def)
    have out: "q \<notin> set rs \<Longrightarrow> gpr (pop_regs rs d) q = gpr d q" for d
      unfolding pop_regs_def by (induction rs arbitrary: d) (simp_all add: pop_def)
    show ?case
    proof (cases i)
      case 0
      then show ?thesis unfolding p using Cons.prems out[of ?c] by simp
    next
      case (Suc j)
      then have "gpr (pop_regs rs ?c) (rs ! j) = stacks ?c (c_cr3 ?c) (c_rsp ?c + 8 * of_nat j)"
        using Cons.prems by (intro Cons.IH) simp_all
      then show ?thesis unfolding p using Suc by (simp add: algebra_simps)
    qed
  qed simp
qed

definition words_at :: "(u64 \<Rightarrow> u64) \<Rightarrow> u64 \<Rightarrow> nat \<Rightarrow> u64 list" where
  "words_at m a n = map (\<lambda>i. m (a + 8 * of_nat i)) [0..<n]"

lemma words_at_nth: "i < n \<Longrightarrow> words_at m a n ! i = m (a + 8 * of_nat i)"
  by (simp add: words_at_def)

lemma words_at_pushes:
  assumes "length vs < 2 ^ 60"
  shows "words_at (stacks (pushes vs c) (c_cr3 c)) (c_rsp (pushes vs c)) (length vs) = rev vs"
proof (rule nth_equalityI)
  show "length (words_at (stacks (pushes vs c) (c_cr3 c)) (c_rsp (pushes vs c)) (length vs)) = length (rev vs)"
    by (simp add: words_at_def)
next
  fix i assume "i < length (words_at (stacks (pushes vs c) (c_cr3 c)) (c_rsp (pushes vs c)) (length vs))"
  then have i: "i < length vs" by (simp add: words_at_def)
  define k where "k = length vs - Suc i"
  have k: "k < length vs" "length vs = Suc k + i" using i by (simp_all add: k_def)
  have "c_rsp (pushes vs c) + 8 * of_nat i = c_rsp c - 8 * of_nat (Suc k)" using k(2) by (simp add: algebra_simps)
  then show "words_at (stacks (pushes vs c) (c_cr3 c)) (c_rsp (pushes vs c)) (length vs) ! i = rev vs ! i"
    using pushes_at[OF k(1) assms, of c] i by (simp add: words_at_nth rev_nth k_def del: of_nat_Suc pushes_simps)
qed

text \<open>What an interrupt and the entry code leave on the stack, from the lowest word up, and when code goes on as
  if it had not been interrupted.\<close>

definition saved_frame :: "cpu \<Rightarrow> u64 list" where
  "saved_frame c = map (gpr c) (rev saved_regs) @ [c_rip c, c_cs c, c_rflags c, c_rsp c, c_ss c]"

definition resumed :: "cpu \<Rightarrow> cpu \<Rightarrow> bool" where
  "resumed c c' \<longleftrightarrow> gpr c' = gpr c \<and> c_rip c' = c_rip c \<and> c_cs c' = c_cs c \<and> c_rflags c' = c_rflags c \<and>
     c_rsp c' = c_rsp c \<and> c_ss c' = c_ss c"

definition entry_sp :: "u64 \<Rightarrow> cpu \<Rightarrow> u64" where
  "entry_sp sp0 c = (if user_mode c then sp0 else c_rsp c) AND NOT 0xF"

lemma interrupt_simps [simp]:
  "gpr (interrupt sp0 h c) = gpr c" "c_cr3 (interrupt sp0 h c) = c_cr3 c" "c_rsp (interrupt sp0 h c) = entry_sp sp0 c - 40"
  "c_rip (interrupt sp0 h c) = h" "c_cs (interrupt sp0 h c) = 0x08"
  by (simp_all add: interrupt_def entry_sp_def Let_def)

lemma stacks_pushes_cong:
  "stacks c = stacks d \<Longrightarrow> c_rsp c = c_rsp d \<Longrightarrow> c_cr3 c = c_cr3 d \<Longrightarrow> stacks (pushes vs c) = stacks (pushes vs d)"
  unfolding pushes_def by (induction vs arbitrary: c d) (simp_all add: push_def)

lemma interrupt_stacks:
  "stacks (pushes vs (interrupt sp0 h c)) =
   stacks (pushes ([c_ss c, c_rsp c, c_rflags c, c_cs c, c_rip c] @ vs) (c\<lparr>c_rsp := entry_sp sp0 c\<rparr>))"
proof -
  let ?f = "[c_ss c, c_rsp c, c_rflags c, c_cs c, c_rip c]" and ?d = "c\<lparr>c_rsp := entry_sp sp0 c\<rparr>"
  have "stacks (pushes vs (interrupt sp0 h c)) = stacks (pushes vs (pushes ?f ?d))"
  proof (rule stacks_pushes_cong)
    show "stacks (interrupt sp0 h c) = stacks (pushes ?f ?d)" by (simp add: interrupt_def pushes_def entry_sp_def Let_def)
  qed (simp_all del: fold_simps)
  also have "pushes vs (pushes ?f ?d) = pushes (?f @ vs) ?d" by (simp only: pushes_def fold_append comp_def)
  finally show ?thesis .
qed

lemma saved_regs_distinct: "distinct saved_regs" "set saved_regs = UNIV" "length saved_regs = 15"
proof -
  show "distinct saved_regs" "length saved_regs = 15" by (simp_all add: saved_regs_def)
  show "set saved_regs = UNIV"
  proof (rule set_eqI)
    fix r show "(r \<in> set saved_regs) = (r \<in> UNIV)" by (cases r) (simp_all add: saved_regs_def)
  qed
qed

definition frame_words :: "cpu \<Rightarrow> u64 list" where
  "frame_words c = [c_rip c, c_cs c, c_rflags c, c_rsp c, c_ss c]"

lemma pushed_words:
  fixes c :: cpu and h sp0 :: u64
  assumes "length rs < 100"
  defines "c' \<equiv> push_regs rs (interrupt sp0 h c)"
  shows "c_rsp c' = entry_sp sp0 c - 40 - 8 * of_nat (length rs)" "c_cr3 c' = c_cr3 c" "gpr c' = gpr c" "c_cs c' = 8"
    "words_at (stacks c' (c_cr3 c)) (c_rsp c') (5 + length rs) = map (gpr c) (rev rs) @ frame_words c"
proof -
  let ?vs = "[c_ss c, c_rsp c, c_rflags c, c_cs c, c_rip c] @ map (gpr c) rs"
  show r: "c_rsp c' = entry_sp sp0 c - 40 - 8 * of_nat (length rs)" "c_cr3 c' = c_cr3 c" "gpr c' = gpr c" "c_cs c' = 8"
    by (simp_all add: c'_def push_regs_pushes)
  have s: "stacks c' = stacks (pushes ?vs (c\<lparr>c_rsp := entry_sp sp0 c\<rparr>))"
    unfolding c'_def push_regs_pushes interrupt_stacks by simp
  have "c_rsp (pushes ?vs (c\<lparr>c_rsp := entry_sp sp0 c\<rparr>)) = c_rsp c'" and l: "length ?vs = 5 + length rs"
    and v: "rev ?vs = map (gpr c) (rev rs) @ frame_words c" and "c_cr3 (c\<lparr>c_rsp := entry_sp sp0 c\<rparr>) = c_cr3 c"
    by (simp_all add: r frame_words_def rev_map algebra_simps)
  moreover have "length ?vs < 2 ^ 60" using assms(1) l by simp
  ultimately show "words_at (stacks c' (c_cr3 c)) (c_rsp c') (5 + length rs) = map (gpr c) (rev rs) @ frame_words c"
    using words_at_pushes[of ?vs "c\<lparr>c_rsp := entry_sp sp0 c\<rparr>"] by (simp only: s l v)
qed

lemma popped_words:
  assumes w: "words_at (stacks c (c_cr3 c)) (c_rsp c) (5 + length rs) = map g (rev rs) @ frame_words d" and rs: "distinct rs"
  shows "\<And>r. r \<in> set rs \<Longrightarrow> gpr (pop_regs (rev rs) c) r = g r" "\<And>r. r \<notin> set rs \<Longrightarrow> gpr (pop_regs (rev rs) c) r = gpr c r"
    "frame_words (iretq (pop_regs (rev rs) c)) = frame_words d"
proof -
  let ?p = "pop_regs (rev rs) c"
  have w: "stacks c (c_cr3 c) (c_rsp c + 8 * of_nat i) = (map g (rev rs) @ frame_words d) ! i" if "i < 5 + length rs" for i
    using words_at_nth[OF that, of "stacks c (c_cr3 c)" "c_rsp c"] w by simp
  show "gpr ?p r = g r" if r: "r \<in> set rs" for r
  proof -
    obtain i where i: "i < length rs" "rev rs ! i = r" using r by (metis in_set_conv_nth length_rev set_rev)
    have "gpr ?p r = stacks c (c_cr3 c) (c_rsp c + 8 * of_nat i)"
      using pop_regs_gpr(2)[of "rev rs" i c] i rs by simp
    also have "\<dots> = g r" using w[of i] i by (simp add: nth_append)
    finally show ?thesis .
  qed
  show "\<And>r. r \<notin> set rs \<Longrightarrow> gpr ?p r = gpr c r" using pop_regs_gpr(1)[of "rev rs"] rs by simp
  show "frame_words (iretq ?p) = frame_words d"
    using w[of "length rs"] w[of "length rs + 1"] w[of "length rs + 2"] w[of "length rs + 3"] w[of "length rs + 4"]
    by (simp add: frame_words_def iretq_def pop_def nth_append algebra_simps)
qed

lemma saved_words:
  "c_rsp (push_regs saved_regs (interrupt sp0 h c)) = entry_sp sp0 c - 160"
  "words_at (stacks (push_regs saved_regs (interrupt sp0 h c)) (c_cr3 c)) (entry_sp sp0 c - 160) 20 = saved_frame c"
  using pushed_words(1,5)[of saved_regs sp0 h c] by (simp_all add: saved_regs_distinct saved_frame_def frame_words_def)

lemma restored_words:
  assumes "words_at (stacks c (c_cr3 c)) (c_rsp c) 20 = saved_frame d"
  shows "resumed d (iretq (pop_regs (rev saved_regs) c))" "c_cr3 (iretq (pop_regs (rev saved_regs) c)) = c_cr3 c"
proof -
  have "words_at (stacks c (c_cr3 c)) (c_rsp c) (5 + length saved_regs) = map (gpr d) (rev saved_regs) @ frame_words d"
    using assms by (simp add: saved_regs_distinct saved_frame_def frame_words_def)
  note p = popped_words[OF this saved_regs_distinct(1)]
  have "gpr (iretq (pop_regs (rev saved_regs) c)) = gpr d"
    using p(1) by (simp add: fun_eq_iff saved_regs_distinct(2) iretq_def pop_def)
  then show "resumed d (iretq (pop_regs (rev saved_regs) c))" using p(3) by (simp add: resumed_def frame_words_def)
  show "c_cr3 (iretq (pop_regs (rev saved_regs) c)) = c_cr3 c" by (simp add: iretq_def pop_def)
qed

section \<open>What a switch keeps of the tasks\<close>

definition same_task :: "Task \<Rightarrow> Task \<Rightarrow> bool" where
  "same_task t t' \<longleftrightarrow> t'\<lparr>task_flags := 0\<rparr> = t\<lparr>task_flags := 0\<rparr> \<and> task_flags t' AND TASK_FIRST_EXEC = task_flags t AND TASK_FIRST_EXEC"

definition same_tasks :: "'a tasks_state_scheme \<Rightarrow> 'a tasks_state_scheme \<Rightarrow> bool" where
  "same_tasks s s' \<longleftrightarrow> (\<forall>p. same_task (tasks s p) (tasks s' p))"

lemma same_task_refl [simp]: "same_task t t"
  by (simp add: same_task_def)

lemma same_tasks_trans [trans]: "same_tasks s s' \<Longrightarrow> same_tasks s' s'' \<Longrightarrow> same_tasks s s''"
  by (simp add: same_tasks_def same_task_def)

lemma same_tasks_eq: "tasks s' = tasks s \<Longrightarrow> same_tasks s s'"
  by (simp add: same_tasks_def)

lemma same_taskD:
  assumes "same_tasks s s'"
  shows "current_rsp (tasks s' p) = current_rsp (tasks s p)" "pml4_addr (tasks s' p) = pml4_addr (tasks s p)"
    "task_flags (tasks s' p) AND TASK_FIRST_EXEC = task_flags (tasks s p) AND TASK_FIRST_EXEC"
    "entry_point (tasks s' p) = entry_point (tasks s p)" "argc (tasks s' p) = argc (tasks s p)" "argv (tasks s' p) = argv (tasks s p)"
proof -
  have e: "(tasks s' p)\<lparr>task_flags := 0\<rparr> = (tasks s p)\<lparr>task_flags := 0\<rparr>"
    and "task_flags (tasks s' p) AND TASK_FIRST_EXEC = task_flags (tasks s p) AND TASK_FIRST_EXEC"
    using assms by (simp_all add: same_tasks_def same_task_def)
  then show "task_flags (tasks s' p) AND TASK_FIRST_EXEC = task_flags (tasks s p) AND TASK_FIRST_EXEC" by simp
  show "current_rsp (tasks s' p) = current_rsp (tasks s p)" using arg_cong[OF e, of current_rsp] by simp
  show "pml4_addr (tasks s' p) = pml4_addr (tasks s p)" using arg_cong[OF e, of pml4_addr] by simp
  show "entry_point (tasks s' p) = entry_point (tasks s p)" using arg_cong[OF e, of entry_point] by simp
  show "argc (tasks s' p) = argc (tasks s p)" using arg_cong[OF e, of argc] by simp
  show "argv (tasks s' p) = argv (tasks s p)" using arg_cong[OF e, of argv] by simp
qed

lemma running_bit:
  "(f AND NOT TASK_RUNNING) AND TASK_FIRST_EXEC = f AND TASK_FIRST_EXEC"
  "(f OR TASK_RUNNING) AND TASK_FIRST_EXEC = f AND TASK_FIRST_EXEC"
proof -
  have b: "bit TASK_FIRST_EXEC n \<longleftrightarrow> n = 1" "bit TASK_RUNNING n \<longleftrightarrow> n = 2" if "n < 8" for n
  proof -
    have "n \<in> {0, 1, 2, 3, 4, 5, 6, 7}" using that by auto
    then show "bit TASK_FIRST_EXEC n \<longleftrightarrow> n = 1" "bit TASK_RUNNING n \<longleftrightarrow> n = 2"
      by (auto simp: TASK_FIRST_EXEC_def TASK_RUNNING_def bit_iff_odd)
  qed
  show "(f AND NOT TASK_RUNNING) AND TASK_FIRST_EXEC = f AND TASK_FIRST_EXEC"
    by (rule bit_word_eqI) (auto simp: bit_simps b)
  show "(f OR TASK_RUNNING) AND TASK_FIRST_EXEC = f AND TASK_FIRST_EXEC"
    by (rule bit_word_eqI) (auto simp: bit_simps b)
qed

lemma same_tasks_set:
  "same_tasks s (set_Task p ((tasks s p)\<lparr>task_flags := task_flags (tasks s p) AND NOT TASK_RUNNING\<rparr>) s)"
  "same_tasks s (set_Task p ((tasks s p)\<lparr>task_flags := task_flags (tasks s p) OR TASK_RUNNING\<rparr>) s)"
  by (simp_all add: same_tasks_def same_task_def set_Task_def running_bit)

lemma get_current_task_tasks: "get_current_task s = Inr (t, s') \<Longrightarrow> tasks s' = tasks s"
  by (auto simp: get_current_task_def get_current_processor_def spinlock_aquire_def spinlock_release_def result_simps Let_def split: if_splits)

lemma vector_set_tasks: "vector_set v i x s = Inr s' \<Longrightarrow> tasks s' = tasks s"
  by (auto simp: vector_set_def result_simps split: if_splits)

lemma task_select_rec_keeps: "task_select_rec fuel s = Inr (t, s') \<Longrightarrow> same_tasks s s'"
proof (induction fuel arbitrary: s)
  case 0
  then show ?case by (subst (asm) task_select_rec.simps) simp
next
  case (Suc fuel)
  note p = Suc.prems[unfolded task_select_rec.simps[of "Suc fuel" s], simplified]
  from p obtain s1 core s2 n task tk where
    s1: "spinlock_aquire Scheduler_lock s = Inr s1" and s2: "get_current_processor s1 = Inr (core, s2)"
    and tk: "get_Task task s2 = Inr tk" and rest:
    "(let s = set_Task task (tk\<lparr>task_flags := task_flags tk AND NOT TASK_RUNNING\<rparr>) s2 in
        res_bind (get_vec (tasklist_list s) s) (\<lambda>l.
        if vec_length l = 1 then
          res_bind (vector_set (current_tasks s) core 0 s) (\<lambda>s.
          res_bind (get_task 0 s) (\<lambda>t0. Inr (t0, s)))
        else
          res_bind (vector_set (current_tasks s) core (n + 1) s) (\<lambda>s.
          res_bind (get_vec (tasklist_list s) s) (\<lambda>l.
          res_bind
            (if vec_length l \<le> n
             then vector_set (current_tasks s) core 0 s else Inr s) (\<lambda>s.
          res_bind (get_current_task s) (\<lambda>(new_task, s).
          res_bind (get_Task new_task s) (\<lambda>n.
          if runnable n then
            let s = set_Task new_task (n\<lparr>task_flags := task_flags n OR TASK_RUNNING\<rparr>) s in
            Inr (new_task, spinlock_release Scheduler_lock s)
          else task_select_rec fuel (spinlock_release Scheduler_lock s)))))))) = Inr (t, s')"
    by (simp only: res_bind_Inr_iff split_paired_Ex prod.case diff_Suc_1) blast
  define s3 where "s3 = set_Task task (tk\<lparr>task_flags := task_flags tk AND NOT TASK_RUNNING\<rparr>) s2"
  have "tasks s2 = tasks s" using s1 s2
    by (auto simp: get_current_processor_def spinlock_aquire_def spinlock_release_def result_simps Let_def split: if_splits)
  moreover have "tk = tasks s2 task" using tk by (simp add: get_Task_def split: if_splits)
  ultimately have "same_tasks s s2" "same_tasks s2 s3"
    using same_tasks_set(1)[of s2 task] by (simp_all add: s3_def same_tasks_eq)
  then have k: "same_tasks s s3" by (rule same_tasks_trans)
  have rel: "same_tasks u (spinlock_release lk u)" for lk and u :: "'a tasks_state_scheme"
    by (rule same_tasks_eq) (simp add: spinlock_release_def)
  show ?case
  proof (cases "\<exists>l. get_vec (tasklist_list s3) s3 = Inr l \<and> vec_length l = 1")
    case True
    then obtain s4 where "vector_set (current_tasks s3) core 0 s3 = Inr s4" "s' = s4"
      using rest by (auto simp: s3_def[symmetric] Let_def result_simps)
    then have "same_tasks s3 s'" by (simp add: same_tasks_eq[OF vector_set_tasks])
    then show ?thesis by (rule same_tasks_trans[OF k])
  next
    case False
    then obtain s4 s5 s6 nw x and l :: Vector where
      s4: "vector_set (current_tasks s3) core (n + 1) s3 = Inr s4"
      and s5: "(if vec_length l \<le> n then vector_set (current_tasks s4) core 0 s4 else Inr s4) = Inr s5"
      and s6: "get_current_task s5 = Inr (nw, s6)" and x: "get_Task nw s6 = Inr x"
      and r: "(if runnable x then let s = set_Task nw (x\<lparr>task_flags := task_flags x OR TASK_RUNNING\<rparr>) s6 in
            Inr (nw, spinlock_release Scheduler_lock s)
          else task_select_rec fuel (spinlock_release Scheduler_lock s6)) = Inr (t, s')"
      using rest by (auto simp: s3_def[symmetric] Let_def result_simps split del: if_split)
    have "tasks s5 = tasks s4" using s5 vector_set_tasks by (auto split: if_splits)
    then have "tasks s6 = tasks s3" using vector_set_tasks[OF s4] get_current_task_tasks[OF s6] by simp
    then have k6: "same_tasks s s6" by (rule same_tasks_trans[OF k same_tasks_eq])
    have "x = tasks s6 nw" using x by (simp add: get_Task_def split: if_splits)
    show ?thesis
    proof (cases "runnable x")
      case True
      then have "s' = spinlock_release Scheduler_lock (set_Task nw ((tasks s6 nw)\<lparr>task_flags := task_flags (tasks s6 nw) OR TASK_RUNNING\<rparr>) s6)"
        using r by (auto simp: \<open>x = tasks s6 nw\<close> Let_def)
      then have "same_tasks s6 s'" using same_tasks_trans[OF same_tasks_set(2)[of s6 nw] rel] by simp
      then show ?thesis by (rule same_tasks_trans[OF k6])
    next
      case False
      then have "same_tasks (spinlock_release Scheduler_lock s6) s'" using r by (intro Suc.IH) simp
      then show ?thesis by (rule same_tasks_trans[OF same_tasks_trans[OF k6 rel]])
    qed
  qed
qed

lemma task_select_keeps: "task_select s = Inr (t, s') \<Longrightarrow> same_tasks s s'"
  unfolding task_select_def by (rule task_select_rec_keeps)

section \<open>Switching away and back\<close>

text \<open>The words at and above an address of one page tree.\<close>

definition kept_above :: "u64 \<Rightarrow> u64 \<Rightarrow> (u64 \<Rightarrow> u64 \<Rightarrow> u64) \<Rightarrow> (u64 \<Rightarrow> u64 \<Rightarrow> u64) \<Rightarrow> bool" where
  "kept_above T sp m m' \<longleftrightarrow> (\<forall>a. \<not> a < sp \<longrightarrow> m' T a = m T a)"

lemma kept_above_refl [simp]: "kept_above T sp m m"
  by (simp add: kept_above_def)

lemma kept_above_call [simp]:
  "c_cr3 c \<noteq> T \<or> c_rsp c = sp \<Longrightarrow> kept_above T sp m (stacks (c_call K f v c)) = kept_above T sp m (stacks c)"
  by (auto simp: kept_above_def c_call_def)

lemma kept_above_push [simp]:
  "c_cr3 c \<noteq> T \<Longrightarrow> kept_above T sp m (stacks (push v c)) = kept_above T sp m (stacks c)"
  by (auto simp: kept_above_def push_def)

lemma words_kept:
  assumes "kept_above T sp m m'" "unat sp + 8 * n \<le> 2 ^ 64"
  shows "words_at (m' T) sp n = words_at (m T) sp n"
proof -
  have "\<not> sp + 8 * of_nat i < sp" if "i < n" for i
  proof -
    have "unat (8 * of_nat i :: u64) = 8 * i"
      using unat_of_nat_u64[of "8 * i"] that assms(2) by simp
    then have "unat (sp + 8 * of_nat i) = unat sp + 8 * i"
      using that assms(2) by (subst unat_add_lem[THEN iffD1]) simp_all
    then show ?thesis by (simp add: word_less_nat_alt)
  qed
  then show ?thesis using assms(1) by (simp add: words_at_def kept_above_def)
qed

lemma clear_regs_simps [simp]:
  "c_cr3 (clear_regs c) = c_cr3 c" "stacks (clear_regs c) = stacks c" "c_rsp (clear_regs c) = c_rsp c"
  by (simp_all add: clear_regs_def)

lemma iretq_simps [simp]: "c_cr3 (iretq c) = c_cr3 c" "stacks (iretq c) = stacks c" "gpr (iretq c) = gpr c"
  by (simp_all add: iretq_def pop_def)

lemma first_frame_simps:
  "c_cr3 (first_frame c) = c_cr3 c" "gpr (first_frame c) = (gpr c)(RBX := 0)"
  "c_cr3 c \<noteq> T \<Longrightarrow> kept_above T sp m (stacks (first_frame c)) = kept_above T sp m (stacks c)"
  by (simp_all add: first_frame_def Let_def)

lemma entry_state_simps [simp]:
  "tasks (end_of_interrupt s) = tasks s" "tasks (unlock_lapic_timer M s') = tasks s'" "tasks (pit_decrement_counter s') = tasks s'"
  by (simp_all add: end_of_interrupt_def unlock_lapic_timer_def update_lvt_def pit_decrement_counter_def split: prod.split)

lemma first_exec_other_stacks:
  assumes "task_switch_first_exec K M (c, s) = Inr (c', s')"
  shows "c_cr3 c' = c_cr3 c" "c_cr3 c \<noteq> T \<Longrightarrow> kept_above T sp m (stacks c') = kept_above T sp m (stacks c)"
    "\<And>p. current_rsp (tasks s' p) = current_rsp (tasks s p)"
  using assms
  by (auto simp: task_switch_first_exec_def result_simps Let_def first_frame_simps task_disable_first_exec_def set_Task_def get_Task_def
      split: if_splits)

lemma executed_other_stacks:
  assumes "task_switch_previously_executed K (c, s) = (c', s')"
  shows "c_cr3 c' = c_cr3 c" "c_cr3 c \<noteq> T \<Longrightarrow> kept_above T sp m (stacks c') = kept_above T sp m (stacks c)"
    "\<And>p. current_rsp (tasks s' p) = current_rsp (tasks s p)"
  using assms by (auto simp: task_switch_previously_executed_def)

lemma enter_task_split:
  assumes "enter_task K M (c, s) = Inr (c', s')"
  obtains c2 where "task_switch_first_exec K M (c2, s) = Inr (c', s') \<or> task_switch_previously_executed K (c2, s) = (c', s')"
    "c_cr3 c2 = c_cr3 c" "\<And>T sp m. c_cr3 c \<noteq> T \<Longrightarrow> kept_above T sp m (stacks c2) = kept_above T sp m (stacks c)"
proof -
  from assms obtain sp fl where f: "(let c2 = mov RAX (fl AND 2) (c_call K ''task_get_flags'' (Ret64 fl)
       ((c_call K ''task_get_rsp'' (Ret64 sp) (mov RDI (gpr c R15) c))\<lparr>c_rsp := sp\<rparr>)) in
     if fl AND 2 \<noteq> 0 then task_switch_first_exec K M (c2, s) else Inr (task_switch_previously_executed K (c2, s))) = Inr (c', s')"
    by (auto simp: enter_task_def result_simps Let_def cong: if_cong)
  show ?thesis
    by (rule that[of "mov RAX (fl AND 2) (c_call K ''task_get_flags'' (Ret64 fl)
       ((c_call K ''task_get_rsp'' (Ret64 sp) (mov RDI (gpr c R15) c))\<lparr>c_rsp := sp\<rparr>))"])
      (use f in \<open>auto simp: Let_def split: if_splits\<close>)
qed

lemma enter_task_other_stacks:
  assumes "enter_task K M (c, s) = Inr (c', s')"
  shows "c_cr3 c' = c_cr3 c" "c_cr3 c \<noteq> T \<Longrightarrow> kept_above T sp m (stacks c') = kept_above T sp m (stacks c)"
    "current_rsp (tasks s' p) = current_rsp (tasks s p)"
proof -
  obtain c2 where c2: "task_switch_first_exec K M (c2, s) = Inr (c', s') \<or> task_switch_previously_executed K (c2, s) = (c', s')"
    "c_cr3 c2 = c_cr3 c" "\<And>T sp m. c_cr3 c \<noteq> T \<Longrightarrow> kept_above T sp m (stacks c2) = kept_above T sp m (stacks c)"
    using assms by (rule enter_task_split) blast
  then show "c_cr3 c' = c_cr3 c" "current_rsp (tasks s' p) = current_rsp (tasks s p)"
    using first_exec_other_stacks(1,3) executed_other_stacks(1,3) by metis+
  show "c_cr3 c \<noteq> T \<Longrightarrow> kept_above T sp m (stacks c') = kept_above T sp m (stacks c)"
    using c2 first_exec_other_stacks(2) executed_other_stacks(2) by metis
qed

text \<open>The first half of a switch: what it leaves on the stack, in the structure of the task that is left and in the
  registers.\<close>

lemma task_switch_leaves:
  assumes sw: "task_switch K M (c, s) = Inr (c1, s1)"
  defines "d \<equiv> push_regs saved_regs c"
  shows "(c1, s1) = cannot_task_switch K (c_call K ''check_task_switch_allowed'' (Ret8 (if can_task_switch s then 1 else 0))
       (c_call K ''pit_decrement_counter'' Void d), pit_decrement_counter s) \<or>
    (\<exists>x s2 s3 t s4 c4. get_current_task (pit_decrement_counter s) = Inr (x, s2) \<and> x \<noteq> 0 \<and>
       s3 = set_Task x ((tasks s2 x)\<lparr>current_rsp := c_rsp d\<rparr>) s2 \<and> task_select s3 = Inr (t, s4) \<and> t \<noteq> 0 \<and>
       c_cr3 c4 = pml4_addr (tasks s4 t) \<and> c_rsp c4 = c_rsp d \<and> gpr c4 R15 = t \<and>
       kept_above (c_cr3 c) (c_rsp d) (stacks d) (stacks c4) \<and> (\<forall>T. T \<noteq> c_cr3 c \<longrightarrow> stacks c4 T = stacks c T) \<and>
       enter_task K M (c4, s4) = Inr (c1, s1))"
proof -
  define e where "e = c_call K ''check_task_switch_allowed'' (Ret8 (if can_task_switch s then 1 else 0)) (c_call K ''pit_decrement_counter'' Void d)"
  have chk: "check_task_switch_allowed (pit_decrement_counter s) = can_task_switch s"
    by (simp add: check_task_switch_allowed_def pit_decrement_counter_def)
  have d: "c_cr3 d = c_cr3 c" "\<And>T. T \<noteq> c_cr3 c \<Longrightarrow> stacks d T = stacks c T"
    by (simp_all add: d_def push_regs_pushes pushes_other)
  have e: "c_cr3 e = c_cr3 c" "c_rsp e = c_rsp d" "kept_above (c_cr3 c) (c_rsp d) (stacks d) (stacks e)" "\<And>T. T \<noteq> c_cr3 c \<Longrightarrow> stacks e T = stacks c T"
    by (simp_all add: e_def d)
  show ?thesis
  proof (cases "gpr e RAX = 0")
    case True
    then have "cannot_task_switch K (e, pit_decrement_counter s) = (c1, s1)"
      using sw by (simp only: task_switch_def Let_def chk d_def[symmetric] e_def[symmetric] prod.case if_True sum.inject simp_thms)
    then show ?thesis by (simp only: e_def simp_thms)
  next
    case False
    then have "res_bind (get_current_task (pit_decrement_counter s)) (\<lambda>(task, s).
       let c = c_call K ''get_current_task'' (Ret64 task) e;
           c = mov RDI (gpr c RAX) c; c = mov RSI (c_rsp c) c in
       res_bind (task_set_rsp (gpr c RDI) (gpr c RSI) s) (\<lambda>s.
       let c = c_call K ''task_set_rsp'' Void c in
       res_bind (task_select s) (\<lambda>(task, s).
       let c = c_call K ''task_select'' (Ret64 task) c;
           c = mov RDI (gpr c RAX) c; c = mov R15 (gpr c RAX) c in
       res_bind (task_get_cr3 (gpr c RDI) s) (\<lambda>tree.
       let c = c_call K ''task_get_cr3'' (Ret64 tree) c
       in enter_task K M (c\<lparr>c_cr3 := gpr c RAX\<rparr>, s))))) = Inr (c1, s1)"
      using sw by (simp only: task_switch_def Let_def chk d_def[symmetric] e_def[symmetric] prod.case if_False)
    then obtain x s2 s3 t s4 tree where g: "get_current_task (pit_decrement_counter s) = Inr (x, s2)"
        "task_set_rsp x (c_rsp d) s2 = Inr s3" "task_select s3 = Inr (t, s4)" "task_get_cr3 t s4 = Inr tree"
      and fin: "(let c = c_call K ''task_get_cr3'' (Ret64 tree)
          (mov R15 t (mov RDI t (c_call K ''task_select'' (Ret64 t)
            (c_call K ''task_set_rsp'' Void (mov RSI (c_rsp d) (mov RDI x (c_call K ''get_current_task'' (Ret64 x) e)))))))
          in enter_task K M (c\<lparr>c_cr3 := tree\<rparr>, s4)) = Inr (c1, s1)"
      by (auto simp: result_simps Let_def e(2))
    define c4 where "c4 = (c_call K ''task_get_cr3'' (Ret64 tree)
          (mov R15 t (mov RDI t (c_call K ''task_select'' (Ret64 t)
            (c_call K ''task_set_rsp'' Void (mov RSI (c_rsp d) (mov RDI x (c_call K ''get_current_task'' (Ret64 x) e))))))))\<lparr>c_cr3 := tree\<rparr>"
    have s3: "x \<noteq> 0" "s3 = set_Task x ((tasks s2 x)\<lparr>current_rsp := c_rsp d\<rparr>) s2" "t \<noteq> 0" "tree = pml4_addr (tasks s4 t)"
      using g(2,4) by (auto simp: task_set_rsp_def task_get_cr3_def get_Task_def split: if_splits)
    have "c_cr3 c4 = pml4_addr (tasks s4 t)" "c_rsp c4 = c_rsp d" "gpr c4 R15 = t"
      by (simp_all add: c4_def s3 e)
    moreover have "kept_above (c_cr3 c) (c_rsp d) (stacks d) (stacks c4)" "\<And>T. T \<noteq> c_cr3 c \<Longrightarrow> stacks c4 T = stacks c T"
      by (simp_all add: c4_def e)
    moreover have "enter_task K M (c4, s4) = Inr (c1, s1)" using fin by (simp add: c4_def Let_def)
    ultimately show ?thesis using g s3 by blast
  qed
qed

text \<open>What is on the stack of the chosen task when its registers are popped. The flags are those of the structure whose
  address the call of \<open>task_get_rsp\<close> leaves in \<open>rdi\<close>.\<close>

lemma enter_task_resumes:
  assumes e: "enter_task K M (c, s) = Inr (c', s')" and t: "gpr c R15 = t"
    and old: "task_flags (tasks s (regs_after K ''task_get_rsp'' (mov RDI t c) RDI)) AND TASK_FIRST_EXEC = 0"
  defines "sp \<equiv> current_rsp (tasks s t)"
  obtains fl where "c' = iretq (pop_regs (rev saved_regs) (c_call K ''end_of_interrupt'' Void (mov RAX 0 (c_call K ''task_get_flags'' (Ret64 fl)
       ((c_call K ''task_get_rsp'' (Ret64 sp) (mov RDI t c))\<lparr>c_rsp := sp\<rparr>)))))"
proof -
  let ?u = "regs_after K ''task_get_rsp'' (mov RDI t c) RDI"
  have t0: "t \<noteq> 0" using e t by (auto simp: enter_task_def task_get_rsp_def get_Task_def)
  then have u0: "?u \<noteq> 0" using e t by (auto simp: enter_task_def task_get_rsp_def task_get_flags_def get_Task_def Let_def)
  have "(ucast (task_flags (tasks s ?u)) :: u64) AND 2 = ucast (task_flags (tasks s ?u) AND TASK_FIRST_EXEC)"
    by (simp add: unsigned_and_eq TASK_FIRST_EXEC_def)
  then have "(ucast (task_flags (tasks s ?u)) :: u64) AND 2 = 0" using old by simp
  then show ?thesis
    using e t t0 u0
    by (intro that[of "ucast (task_flags (tasks s ?u))"])
      (simp add: enter_task_def task_get_rsp_def task_get_flags_def get_Task_def Let_def task_switch_previously_executed_def sp_def)
qed

text \<open>The words from the stack pointer of the chosen task upwards are those behind the call of \<open>task_get_rsp\<close>, however
  the task is entered.\<close>

lemma below_sp:
  fixes sp :: u64
  assumes "48 \<le> sp" "\<not> a < sp" "k < 6"
  shows "a \<noteq> sp - 8 * of_nat (Suc k)" "\<not> a < sp - 8 * of_nat (Suc k)"
proof -
  have k: "unat (8 * of_nat (Suc k) :: u64) = 8 * Suc k" using assms(3) by (subst unat_of_nat_u64[of "8 * Suc k", symmetric]) simp_all
  have "8 * of_nat (Suc k) \<le> sp" using assms(1,3) by (simp only: word_le_nat_alt k) simp
  then have "unat (sp - 8 * of_nat (Suc k)) = unat sp - 8 * Suc k" by (simp only: unat_sub k)
  then have "unat (sp - 8 * of_nat (Suc k)) < unat sp" using assms(1) by (simp add: word_le_nat_alt)
  then show "a \<noteq> sp - 8 * of_nat (Suc k)" "\<not> a < sp - 8 * of_nat (Suc k)" using assms(2) by (auto simp: word_less_nat_alt)
qed

lemma first_exec_above:
  assumes "task_switch_first_exec K M (c, s) = Inr (c', s')" and sp: "48 \<le> c_rsp c" "\<not> a < c_rsp c"
  shows "stacks c' (c_cr3 c) a = stacks c (c_cr3 c) a"
proof -
  note b = below_sp[OF sp]
  have b': "a \<noteq> c_rsp c - 8" "a \<noteq> c_rsp c - 16" "a \<noteq> c_rsp c - 24" "a \<noteq> c_rsp c - 32" "a \<noteq> c_rsp c - 40" "a \<noteq> c_rsp c - 48"
    "\<not> a < c_rsp c - 40" "\<not> a < c_rsp c - 48"
    using b(1)[of 0] b(1)[of 1] b(1)[of 2] b(1)[of 3] b(1)[of 4] b(1)[of 5] b(2)[of 4] b(2)[of 5] by simp_all
  have f: "stacks (first_frame d) (c_cr3 c) a = stacks d (c_cr3 c) a" "c_rsp (first_frame d) = c_rsp c - 40"
    if "c_rsp d = c_rsp c" "c_cr3 d = c_cr3 c" for d
    using b' that by (simp_all add: first_frame_def push_def Let_def)
  show ?thesis
    using assms(1) b' sp(2)
    by (auto simp: task_switch_first_exec_def result_simps Let_def first_frame_simps f push_def split: if_splits)
qed

lemma enter_task_above:
  assumes e: "enter_task K M (c, s) = Inr (c', s')" and t: "gpr c R15 = t"
    and sp: "48 \<le> current_rsp (tasks s t)" "\<not> a < current_rsp (tasks s t)"
  shows "stacks c' (c_cr3 c) a = stacks (c_call K ''task_get_rsp'' (Ret64 (current_rsp (tasks s t))) (mov RDI t c)) (c_cr3 c) a"
proof -
  let ?sp = "current_rsp (tasks s t)"
  have t0: "t \<noteq> 0" using e t by (auto simp: enter_task_def task_get_rsp_def get_Task_def)
  obtain fl where f: "(let c2 = mov RAX (fl AND 2) (c_call K ''task_get_flags'' (Ret64 fl)
       ((c_call K ''task_get_rsp'' (Ret64 ?sp) (mov RDI t c))\<lparr>c_rsp := ?sp\<rparr>)) in
     if fl AND 2 \<noteq> 0 then task_switch_first_exec K M (c2, s) else Inr (task_switch_previously_executed K (c2, s))) = Inr (c', s')"
    using e t t0 by (auto simp: enter_task_def task_get_rsp_def get_Task_def result_simps Let_def cong: if_cong)
  let ?c1 = "(c_call K ''task_get_rsp'' (Ret64 ?sp) (mov RDI t c))\<lparr>c_rsp := ?sp\<rparr>"
  let ?c2 = "mov RAX (fl AND 2) (c_call K ''task_get_flags'' (Ret64 fl) ?c1)"
  have c2: "c_rsp ?c2 = ?sp" "c_cr3 ?c2 = c_cr3 c" "stacks ?c2 (c_cr3 c) a = stacks ?c1 (c_cr3 c) a" using sp(2) by simp_all
  show ?thesis
  proof (cases "fl AND 2 = 0")
    case True
    then have "task_switch_previously_executed K (?c2, s) = (c', s')" using f by (simp add: Let_def)
    then have "stacks c' (c_cr3 c) a = stacks ?c2 (c_cr3 c) a" using sp(2) by (auto simp: task_switch_previously_executed_def)
    then show ?thesis using c2(3) by simp
  next
    case False
    then have "task_switch_first_exec K M (?c2, s) = Inr (c', s')" using f by (simp add: Let_def)
    from first_exec_above[OF this, of a] show ?thesis using sp c2 by simp
  qed
qed

text \<open>A second switch, from another task \<open>y\<close> on another tree, that chooses the task with the tree \<open>T\<close>.\<close>

lemma task_switch_again:
  assumes again: "task_switch K M (interrupt sp0 h c, s) = Inr (c', s')" and T: "c_cr3 c \<noteq> T" "c_cr3 c' = T"
    and cur: "get_current_task (pit_decrement_counter s) = Inr (y, s0)" and y: "y \<noteq> x"
    and x: "\<And>t. pml4_addr (tasks s t) = T \<longleftrightarrow> t = x"
  obtains d s4 where "c_cr3 d = T" "c_rsp d = entry_sp sp0 c - 160" "stacks d T = stacks c T" "gpr d R15 = x"
    "current_rsp (tasks s4 x) = current_rsp (tasks s x)"
    "\<And>u. task_flags (tasks s4 u) AND TASK_FIRST_EXEC = task_flags (tasks s u) AND TASK_FIRST_EXEC"
    "enter_task K M (d, s4) = Inr (c', s')"
proof -
  let ?i = "push_regs saved_regs (interrupt sp0 h c)"
  have i: "c_rsp ?i = entry_sp sp0 c - 160" by (rule saved_words)
  have "\<not> (c', s') = cannot_task_switch K (c_call K ''check_task_switch_allowed'' (Ret8 (if can_task_switch s then 1 else 0))
       (c_call K ''pit_decrement_counter'' Void ?i), pit_decrement_counter s)"
    using T by (auto simp: cannot_task_switch_def push_regs_pushes)
  then obtain s2 s3 t s4 c4 where g: "get_current_task (pit_decrement_counter s) = Inr (y, s2)"
       "s3 = set_Task y ((tasks s2 y)\<lparr>current_rsp := c_rsp ?i\<rparr>) s2" "task_select s3 = Inr (t, s4)"
       "c_cr3 c4 = pml4_addr (tasks s4 t)" "c_rsp c4 = c_rsp ?i" "gpr c4 R15 = t" "\<And>T. T \<noteq> c_cr3 c \<Longrightarrow> stacks c4 T = stacks (interrupt sp0 h c) T"
       "enter_task K M (c4, s4) = Inr (c', s')"
    using task_switch_leaves[OF again] cur by auto
  note k = same_taskD[OF task_select_keeps[OF g(3)]]
  have t2: "tasks s2 = tasks s" using get_current_task_tasks[OF g(1)] by simp
  have "pml4_addr (tasks s4 t) = pml4_addr (tasks s t)" using k(2)[of t] by (simp add: g(2) t2 set_Task_def)
  moreover have T4: "c_cr3 c4 = T" using enter_task_other_stacks(1)[OF g(8)] T(2) by simp
  ultimately have tx: "t = x" using x g(4) by simp
  have x4: "current_rsp (tasks s4 x) = current_rsp (tasks s x)"
    "task_flags (tasks s4 u) AND TASK_FIRST_EXEC = task_flags (tasks s u) AND TASK_FIRST_EXEC" for u
    using k(1)[of x] k(3)[of u] y by (simp_all add: g(2) t2 set_Task_def)
  have st: "stacks c4 T = stacks c T"
  proof -
    have "stacks (interrupt sp0 h c) T = stacks (pushes [] (interrupt sp0 h c)) T" by (simp add: pushes_def)
    also have "\<dots> = stacks (c\<lparr>c_rsp := entry_sp sp0 c\<rparr>) T"
      unfolding interrupt_stacks by (rule pushes_other) (use T in simp)
    finally have "stacks (interrupt sp0 h c) T = stacks c T" by simp
    then show ?thesis using g(7)[of T] T(1) by simp
  qed
  show ?thesis by (rule that[OF T4 _ st _ x4 g(8)]) (simp_all add: g(5,6) i tx)
qed

section \<open>Properties\<close>

text \<open>C15. A task goes on where the timer stopped it: when a switch left it for a task with another page tree, nobody
  touched its stack and its structure since, and a later switch, from another task, of the same or another core
  chooses it again, then all its registers, its instruction and stack pointers, segments and flags are those it
  was interrupted with. Every task has a page tree of its own; the stack pointer of the task that is left must
  not be above the one that was saved (the next property says why); and the structure whose flags the code
  reads, the one at the address that the call of \<open>task_get_rsp\<close> leaves in \<open>rdi\<close>, must not be marked for a first
  execution (the code takes it for the chosen task's).\<close>

theorem context_switch_resumes:
  assumes away: "task_switch K M (interrupt sp0 h c, s) = Inr (c1, s1)" "c_cr3 c1 \<noteq> c_cr3 c"
    and cur: "get_current_task (pit_decrement_counter s) = Inr (x, s0)" and sp: "160 \<le> entry_sp sp0 c"
    and kept: "current_rsp (tasks s2 x) = current_rsp (tasks s1 x)"
      "words_at (stacks c2 (c_cr3 c)) (current_rsp (tasks s1 x)) 20 = words_at (stacks c1 (c_cr3 c)) (current_rsp (tasks s1 x)) 20"
    and tree: "\<And>t. pml4_addr (tasks s2 t) = c_cr3 c \<longleftrightarrow> t = x"
    and old: "\<And>d. gpr d RDI = x \<Longrightarrow> task_flags (tasks s2 (regs_after K' ''task_get_rsp'' d RDI)) AND TASK_FIRST_EXEC = 0"
    and again: "task_switch K' M (interrupt sp0' h' c2, s2) = Inr (c3, s3)" "c_cr3 c2 \<noteq> c_cr3 c" "c_cr3 c3 = c_cr3 c"
    and cur': "get_current_task (pit_decrement_counter s2) = Inr (y, s0')" "y \<noteq> x"
    and depth: "160 \<le> entry_sp sp0' c2" "entry_sp sp0' c2 \<le> entry_sp sp0 c"
  shows "resumed c c3"
proof -
  let ?d = "push_regs saved_regs (interrupt sp0 h c)" and ?T = "c_cr3 c" and ?sp = "entry_sp sp0 c - 160"
  have d: "c_rsp ?d = ?sp" "words_at (stacks ?d ?T) ?sp 20 = saved_frame c" using saved_words[where c = c] by simp_all
  have nw: "unat ?sp + 8 * 20 \<le> 2 ^ 64"
    using sp unsigned_less[of "entry_sp sp0 c", where ?'a = nat] by (simp add: unat_sub word_le_nat_alt)
  have "\<not> (c1, s1) = cannot_task_switch K (c_call K ''check_task_switch_allowed'' (Ret8 (if can_task_switch s then 1 else 0))
       (c_call K ''pit_decrement_counter'' Void ?d), pit_decrement_counter s)"
    using away(2) by (auto simp: cannot_task_switch_def push_regs_pushes)
  then obtain s3' s4 t c4 where g: "s3' = set_Task x ((tasks s0 x)\<lparr>current_rsp := ?sp\<rparr>) s0" "task_select s3' = Inr (t, s4)"
    "c_cr3 c4 = pml4_addr (tasks s4 t)" "kept_above ?T ?sp (stacks ?d) (stacks c4)" "enter_task K M (c4, s4) = Inr (c1, s1)"
    using task_switch_leaves[OF away(1)] cur by (auto simp: d(1))
  have c4: "c_cr3 c4 \<noteq> ?T" using enter_task_other_stacks(1)[OF g(5)] away(2) by simp
  have "kept_above ?T ?sp (stacks ?d) (stacks c1)" using enter_task_other_stacks(2)[OF g(5) c4] g(4) by simp
  then have w1: "words_at (stacks c1 ?T) ?sp 20 = saved_frame c" using words_kept[OF _ nw] d(2) by simp
  have r1: "current_rsp (tasks s1 x) = ?sp"
    using enter_task_other_stacks(3)[OF g(5)] same_taskD(1)[OF task_select_keeps[OF g(2)], of x] by (simp add: g(1) set_Task_def)
  obtain e s5 where e: "c_cr3 e = ?T" "c_rsp e = entry_sp sp0' c2 - 160" "stacks e ?T = stacks c2 ?T" "gpr e R15 = x"
    and s5: "current_rsp (tasks s5 x) = current_rsp (tasks s2 x)"
      "\<And>u. task_flags (tasks s5 u) AND TASK_FIRST_EXEC = task_flags (tasks s2 u) AND TASK_FIRST_EXEC" "enter_task K' M (e, s5) = Inr (c3, s3)"
    by (rule task_switch_again[OF again cur' tree]) blast
  have r2: "current_rsp (tasks s5 x) = ?sp" using kept(1) r1 s5(1) by simp
  have "task_flags (tasks s5 (regs_after K' ''task_get_rsp'' (mov RDI x e) RDI)) AND TASK_FIRST_EXEC = 0"
    unfolding s5(2) by (rule old) simp
  from enter_task_resumes[OF s5(3) e(4) this, unfolded r2] obtain fl where
    c3: "c3 = iretq (pop_regs (rev saved_regs) (c_call K' ''end_of_interrupt'' Void (mov RAX 0 (c_call K' ''task_get_flags'' (Ret64 fl)
       ((c_call K' ''task_get_rsp'' (Ret64 ?sp) (mov RDI x e))\<lparr>c_rsp := ?sp\<rparr>)))))" by blast
  have le: "entry_sp sp0' c2 - 160 \<le> ?sp" using depth sp by (simp add: word_le_nat_alt unat_sub)
  let ?p = "c_call K' ''end_of_interrupt'' Void (mov RAX 0 (c_call K' ''task_get_flags'' (Ret64 fl)
       ((c_call K' ''task_get_rsp'' (Ret64 ?sp) (mov RDI x e))\<lparr>c_rsp := ?sp\<rparr>)))"
  have "kept_above ?T ?sp (stacks e) (stacks ?p)"
    using le by (auto simp: kept_above_def c_call_def e(1,2))
  then have "words_at (stacks ?p ?T) ?sp 20 = words_at (stacks e ?T) ?sp 20" by (rule words_kept[OF _ nw])
  also have "\<dots> = words_at (stacks c2 ?T) ?sp 20" by (simp only: e(3))
  also have "\<dots> = words_at (stacks c1 ?T) ?sp 20" using kept(2) by (simp only: r1)
  also note w1
  finally have w: "words_at (stacks ?p (c_cr3 ?p)) (c_rsp ?p) 20 = saved_frame c" by (simp add: e(1))
  show ?thesis unfolding c3 by (rule restored_words(1)[OF w])
qed

text \<open>C30. Why the depth matters: the calls behind \<open>mov cr3, rax\<close> still push at the stack pointer of the task that is
  left, and the words there are those of the task that is entered. If that task was interrupted deeper in
  its kernel stack (in the kernel, while it waited for the keyboard, say, when the other was in its program),
  the word below the other's stack pointer is live for it, and the return address of the call of
  \<open>task_get_rsp\<close> replaces it, whether the task is resumed or started. Every task has a page tree of its own, and the
  saved stack pointer is not at the very bottom of the address space.\<close>

theorem context_switch_overwrites:
  assumes again: "task_switch K M (interrupt sp0 h c, s) = Inr (c', s')" "c_cr3 c \<noteq> T" "c_cr3 c' = T"
    and cur: "get_current_task (pit_decrement_counter s) = Inr (y, s0)" "y \<noteq> x"
    and tree: "\<And>t. pml4_addr (tasks s t) = T \<longleftrightarrow> t = x"
    and deep: "168 \<le> entry_sp sp0 c" "current_rsp (tasks s x) \<le> entry_sp sp0 c - 168" "48 \<le> current_rsp (tasks s x)"
  shows "\<exists>d. c_cr3 d = T \<and> c_rsp d = entry_sp sp0 c - 160 \<and>
    stacks c' T (entry_sp sp0 c - 168) = return_addr K ''task_get_rsp'' d"
proof -
  let ?a = "entry_sp sp0 c - 168" and ?sp = "current_rsp (tasks s x)"
  obtain d s4 where d: "c_cr3 d = T" "c_rsp d = entry_sp sp0 c - 160" "gpr d R15 = x"
    and s4: "current_rsp (tasks s4 x) = ?sp" "enter_task K M (d, s4) = Inr (c', s')"
    by (rule task_switch_again[OF again cur tree]) blast
  have a: "?a = c_rsp d - 8" by (simp add: d(2))
  have lt: "?a < c_rsp d" using deep(1) by (simp add: d(2) word_less_nat_alt word_le_nat_alt unat_sub)
  have "stacks (c_call K ''task_get_rsp'' (Ret64 ?sp) (mov RDI x d)) T ?a = return_addr K ''task_get_rsp'' (mov RDI x d)"
    using lt unfolding a by (simp add: c_call_def d(1))
  moreover have "\<not> ?a < ?sp" using deep(2) by (simp add: not_less)
  then have "stacks c' T ?a = stacks (c_call K ''task_get_rsp'' (Ret64 ?sp) (mov RDI x d)) T ?a"
    using enter_task_above[OF s4(2) d(3), of ?a] deep(3) by (simp add: s4(1) d(1))
  ultimately show ?thesis using d(1,2) by (intro exI[of _ "mov RDI x d"]) simp
qed

lemma words_push:
  assumes "n < 2 ^ 59"
  shows "words_at (stacks (push v c) (c_cr3 c)) (c_rsp c - 8) (Suc n) = v # words_at (stacks c (c_cr3 c)) (c_rsp c) n"
proof -
  have ne: "c_rsp c + 8 * of_nat i \<noteq> c_rsp c - 8" if "i < n" for i
    using slot_inj[of 0 "Suc i" "c_rsp c + 8 * of_nat i"] that assms by (auto simp: algebra_simps)
  have M: "words_at m (c_rsp c - 8) (Suc n) = m (c_rsp c - 8) # map (\<lambda>i. m (c_rsp c + 8 * of_nat i)) [0..<n]" for m
    unfolding words_at_def upt_conv_Cons[OF zero_less_Suc] by (simp add: map_Suc_upt[symmetric] algebra_simps del: upt_Suc)
  have "map (\<lambda>i. stacks (push v c) (c_cr3 c) (c_rsp c + 8 * of_nat i)) [0..<n] = map (\<lambda>i. stacks c (c_cr3 c) (c_rsp c + 8 * of_nat i)) [0..<n]"
    using ne by (intro map_cong) (auto simp: push_def)
  moreover have "stacks (push v c) (c_cr3 c) (c_rsp c - 8) = v" by (simp add: push_def)
  ultimately show ?thesis unfolding M by (simp add: words_at_def)
qed

lemma words_call:
  "unat (c_rsp c) + 8 * n \<le> 2 ^ 64 \<Longrightarrow> words_at (stacks (c_call K f v c) (c_cr3 c)) (c_rsp c) n = words_at (stacks c (c_cr3 c)) (c_rsp c) n"
  by (rule words_kept) (simp add: kept_above_def)

lemma first_frame_words:
  "words_at (stacks (first_frame c) (c_cr3 c)) (c_rsp c - 40) 5 = [0x1B, 0x200, 0x6FFFFFFFFFF8, 0x23, 0]" "c_rsp (first_frame c) = c_rsp c - 40"
proof -
  have f: "stacks (first_frame c) = stacks (pushes [0, 0x23, 0x6FFFFFFFFFF8, 0x200, 0x1B] c)" "c_rsp (first_frame c) = c_rsp c - 40"
    by (simp_all add: first_frame_def pushes_def push_def mov_def Let_def)
  show "words_at (stacks (first_frame c) (c_cr3 c)) (c_rsp c - 40) 5 = [0x1B, 0x200, 0x6FFFFFFFFFF8, 0x23, 0]"
  proof -
    let ?vs = "[0, 0x23, 0x6FFFFFFFFFF8, 0x200, 0x1B] :: u64 list"
    have "length ?vs = 5" "c_rsp (pushes ?vs c) = c_rsp c - 40" by simp_all
    moreover have "words_at (stacks (pushes ?vs c) (c_cr3 c)) (c_rsp (pushes ?vs c)) (length ?vs) = rev ?vs"
      by (rule words_at_pushes) simp
    ultimately show ?thesis by (simp only: f(1) rev.simps append.simps)
  qed
  show "c_rsp (first_frame c) = c_rsp c - 40" by (rule f)
qed

lemma iretq_words:
  assumes "words_at (stacks c (c_cr3 c)) (c_rsp c) n = [ip, sel, fl, sp, seg] @ ws"
  shows "c_rip (iretq c) = ip" "c_cs (iretq c) = sel" "c_rflags (iretq c) = fl" "c_rsp (iretq c) = sp" "c_ss (iretq c) = seg"
proof -
  have "5 \<le> n" using arg_cong[OF assms, of length] by (simp add: words_at_def)
  then have "stacks c (c_cr3 c) (c_rsp c + 8 * of_nat i) = [ip, sel, fl, sp, seg] ! i" if "i < 5" for i
  proof -
    have "([ip, sel, fl, sp, seg] @ ws) ! i = [ip, sel, fl, sp, seg] ! i" using that by (subst nth_append) simp
    then show ?thesis using words_at_nth[of i n "stacks c (c_cr3 c)" "c_rsp c"] that \<open>5 \<le> n\<close> unfolding assms by simp
  qed
  from this[of 0] this[of 1] this[of 2] this[of 3] this[of 4]
  show "c_rip (iretq c) = ip" "c_cs (iretq c) = sel" "c_rflags (iretq c) = fl" "c_rsp (iretq c) = sp" "c_ss (iretq c) = seg"
    by (simp_all add: iretq_def pop_def add.assoc)
qed

lemma first_exec_words:
  fixes K g v ip
  assumes sp: "48 \<le> c_rsp c"
  defines "f \<equiv> c_call K g v (first_frame c)"
  defines "p \<equiv> push ip f"
  shows "c_rsp p = c_rsp c - 48" "c_cr3 p = c_cr3 c" "words_at (stacks p (c_cr3 c)) (c_rsp c - 48) 6 = [ip, 0x1B, 0x200, 0x6FFFFFFFFFF8, 0x23, 0]"
    "unat (c_rsp c - 48) + 8 * 6 \<le> 2 ^ 64"
proof -
  have l: "unat (c_rsp c) < 2 ^ 64" using unsigned_less[of "c_rsp c", where ?'a = nat] by simp
  have f: "c_rsp f = c_rsp c - 40" "c_cr3 f = c_cr3 c" by (simp_all add: f_def first_frame_words first_frame_simps)
  then show p: "c_rsp p = c_rsp c - 48" "c_cr3 p = c_cr3 c" by (simp_all add: p_def)
  have "unat (c_rsp c - 40) + 8 * 5 \<le> 2 ^ 64" using l sp by (simp add: unat_sub word_le_nat_alt)
  then have "words_at (stacks f (c_cr3 c)) (c_rsp c - 40) 5 = [0x1B, 0x200, 0x6FFFFFFFFFF8, 0x23, 0]"
    using words_call[of "first_frame c" 5 K g v] first_frame_words[of c] by (simp add: f_def first_frame_simps)
  moreover have "words_at (stacks p (c_cr3 f)) (c_rsp f - 8) (Suc 5) = ip # words_at (stacks f (c_cr3 f)) (c_rsp f) 5"
    unfolding p_def by (rule words_push) simp
  moreover have six: "(6 :: nat) = Suc 5" and a: "c_rsp f - 8 = c_rsp c - 48" by (simp_all add: f)
  ultimately show "words_at (stacks p (c_cr3 c)) (c_rsp c - 48) 6 = [ip, 0x1B, 0x200, 0x6FFFFFFFFFF8, 0x23, 0]"
    by (simp only: a f six)
  show "unat (c_rsp c - 48) + 8 * 6 \<le> 2 ^ 64" using l sp by (simp add: unat_sub word_le_nat_alt)
qed

lemma ucast_nonzero: "(f :: u8) \<noteq> 0 \<Longrightarrow> (ucast f :: u64) \<noteq> 0"
proof -
  assume "f \<noteq> 0"
  have "unat f < 2 ^ 64" using unsigned_less[of f, where ?'a = nat] by simp
  then have "unat (ucast f :: u64) = unat f" by (simp add: unsigned_ucast_eq take_bit_nat_eq_self)
  then show ?thesis using \<open>f \<noteq> 0\<close> by (metis unsigned_0 unsigned_eq_0_iff)
qed

text \<open>The calls between which the code of a first execution leaves \<open>rdi\<close> alone.\<close>

definition first_exec_calls :: "string list" where
  "first_exec_calls = [''task_disable_first_exec'', ''task_get_entry_point'', ''unlock_lapic_timer'', ''end_of_interrupt'', ''task_get_argc'']"

text \<open>C17. The first time a task is chosen it starts as a program does: in its own tree, in user mode with interrupts on,
  at the top of the user's stack, with zero in every register but two and on its kernel stack the error number,
  zero; and its mark for a first execution is gone. The entry point and the number and address of the arguments
  (in \<open>rdi\<close> and \<open>rsi\<close>) are those of the structures whose addresses three of the calls leave in \<open>rdi\<close>, which the code
  does not load again: they are the task's own when none of these calls changes \<open>rdi\<close>. The calls
  must not turn a pointer in \<open>rdi\<close> to null, and the mark read is that of the structure at the address behind
  \<open>task_get_rsp\<close>.\<close>

theorem first_switch_starts_program:
  assumes t: "gpr c R15 = t" "t \<noteq> 0" "48 \<le> current_rsp (tasks s t)"
    and first: "\<And>d. gpr d RDI = t \<Longrightarrow> task_flags (tasks s (regs_after K ''task_get_rsp'' d RDI)) AND TASK_FIRST_EXEC \<noteq> 0"
    and nonnull: "\<And>f d. f \<in> set (''task_get_rsp'' # first_exec_calls) \<Longrightarrow> gpr d RDI \<noteq> 0 \<Longrightarrow> regs_after K f d RDI \<noteq> 0"
  shows "\<exists>c' s' d2 d3 d4. enter_task K M (c, s) = Inr (c', s') \<and> c_cr3 c' = c_cr3 c \<and>
    c_cs c' = 0x1B \<and> user_mode c' \<and> c_ss c' = 0x23 \<and> c_rflags c' = 0x200 \<and>
    c_rsp c' = 0x6FFFFFFFFFF8 \<and> stacks c' (c_cr3 c) (current_rsp (tasks s t) - 8) = 0 \<and>
    (\<forall>r. r \<noteq> RDI \<and> r \<noteq> RSI \<longrightarrow> gpr c' r = 0) \<and> task_flags (tasks s' t) AND TASK_FIRST_EXEC = 0 \<and>
    c_rip c' = entry_point (tasks s (regs_after K ''task_disable_first_exec'' d2 RDI)) \<and> gpr d2 RDI = t \<and>
    gpr c' RDI = argc (tasks s (regs_after K ''end_of_interrupt'' d3 RDI)) \<and>
    gpr c' RSI = argv (tasks s (regs_after K ''task_get_argc'' d4 RDI)) \<and> gpr d4 RDI = regs_after K ''end_of_interrupt'' d3 RDI \<and>
    ((\<forall>f \<in> set first_exec_calls. \<forall>d. regs_after K f d RDI = gpr d RDI) \<longrightarrow>
       c_rip c' = entry_point (tasks s t) \<and> gpr c' RDI = argc (tasks s t) \<and> gpr c' RSI = argv (tasks s t))"
proof -
  let ?k = "tasks s t" and ?sp = "current_rsp (tasks s t)"
  let ?u = "regs_after K ''task_get_rsp'' (mov RDI t c) RDI"
  define c1 where "c1 = mov RAX (ucast (task_flags (tasks s ?u)) AND 2) (c_call K ''task_get_flags'' (Ret64 (ucast (task_flags (tasks s ?u))))
       ((c_call K ''task_get_rsp'' (Ret64 ?sp) (mov RDI t c))\<lparr>c_rsp := ?sp\<rparr>))"
  have c1: "gpr c1 R15 = t" "c_rsp c1 = ?sp" "c_cr3 c1 = c_cr3 c" using t(1) by (simp_all add: c1_def)
  have "(ucast (task_flags (tasks s ?u)) :: u64) AND 2 = ucast (task_flags (tasks s ?u) AND TASK_FIRST_EXEC)"
    by (simp add: unsigned_and_eq TASK_FIRST_EXEC_def)
  moreover have "(ucast (task_flags (tasks s ?u) AND TASK_FIRST_EXEC) :: u64) \<noteq> 0" by (rule ucast_nonzero, rule first) simp
  moreover have "?u \<noteq> 0" by (rule nonnull) (simp_all add: t(2))
  ultimately have e: "enter_task K M (c, s) = task_switch_first_exec K M (c1, s)"
    using t(1,2) by (simp add: enter_task_def task_get_rsp_def task_get_flags_def get_Task_def c1_def Let_def)
  define s1 where "s1 = set_Task t (?k\<lparr>task_flags := task_flags ?k AND NOT TASK_FIRST_EXEC\<rparr>) s"
  define d2 where "d2 = mov RDI t c1"
  define c2 where "c2 = c_call K ''task_disable_first_exec'' Void d2"
  define a2 where "a2 = regs_after K ''task_disable_first_exec'' d2 RDI"
  define ip where "ip = entry_point (tasks s a2)"
  define p where "p = push ip (c_call K ''task_get_entry_point'' (Ret64 ip) (first_frame c2))"
  define d3 where "d3 = c_call K ''unlock_lapic_timer'' Void p"
  define a3 where "a3 = regs_after K ''end_of_interrupt'' d3 RDI"
  define d4 where "d4 = c_call K ''end_of_interrupt'' Void d3"
  define a4 where "a4 = regs_after K ''task_get_argc'' d4 RDI"
  define n where "n = argc (tasks s a3)"
  define v where "v = argv (tasks s a4)"
  define s2 where "s2 = end_of_interrupt (unlock_lapic_timer M s1)"
  define q where "q = mov RSI v (mov RDI n (c_call K ''task_get_argv'' (Ret64 v) (mov R15 n (c_call K ''task_get_argc'' (Ret64 n) d4))))"
  have k: "tasks s2 = tasks s1" "entry_point (tasks s1 a) = entry_point (tasks s a)" "argc (tasks s1 a) = argc (tasks s a)"
    "argv (tasks s1 a) = argv (tasks s a)" for a
    by (simp_all add: s2_def s1_def set_Task_def)
  have c2: "c_rsp c2 = ?sp" "c_cr3 c2 = c_cr3 c" by (simp_all add: c2_def d2_def c1)
  have r: "gpr d2 RDI = t" "gpr c2 RDI = a2" "gpr d4 RDI = a3" by (simp_all add: c2_def d2_def a2_def d4_def a3_def)
  have a2: "a2 \<noteq> 0" unfolding a2_def by (rule nonnull) (simp_all add: first_exec_calls_def r t(2))
  have "gpr p RDI \<noteq> 0"
    using nonnull[of "''task_get_entry_point''" "first_frame c2"] a2 by (simp add: p_def first_frame_simps first_exec_calls_def r)
  then have "gpr d3 RDI \<noteq> 0" using nonnull[of "''unlock_lapic_timer''" p] by (simp add: d3_def first_exec_calls_def)
  then have a3: "a3 \<noteq> 0" using nonnull[of "''end_of_interrupt''" d3] by (simp add: a3_def first_exec_calls_def)
  then have a4: "a4 \<noteq> 0" using nonnull[of "''task_get_argc''" d4] by (simp add: a4_def first_exec_calls_def r)
  note nz = a2 a3 a4 a2[unfolded a2_def] a3[unfolded a3_def] a4[unfolded a4_def]
  from nz have run: "task_switch_first_exec K M (c1, s) = Inr (iretq (clear_regs q), s2)"
    using c1(1) t(2)
    by (simp add: task_switch_first_exec_def task_disable_first_exec_def get_Task_def task_get_entry_point_def task_get_argc_def
        task_get_argv_def first_frame_simps Let_def s1_def[symmetric] d2_def[symmetric] c2_def[symmetric] k r ip_def[symmetric]
        p_def[symmetric] s2_def[symmetric] d3_def[symmetric] d4_def[symmetric] n_def[symmetric] a4_def[symmetric] v_def[symmetric] q_def)
  note W4 = first_exec_words(4)[where c = c2, unfolded c2, OF t(3)]
  note W = first_exec_words(1-3)[where c = c2 and K = K and g = "''task_get_entry_point''" and v = "Ret64 ip" and ip = ip, folded p_def, unfolded c2, OF t(3)]
  have "words_at (stacks q (c_cr3 c)) (?sp - 48) 6 = words_at (stacks p (c_cr3 c)) (?sp - 48) 6"
    by (rule words_kept[OF _ W4]) (simp add: q_def d3_def d4_def W kept_above_def)
  then have w: "words_at (stacks (clear_regs q) (c_cr3 (clear_regs q))) (c_rsp (clear_regs q)) 6 = [ip, 0x1B, 0x200, 0x6FFFFFFFFFF8, 0x23] @ [0]"
    using W(1-3) by (simp add: q_def d3_def d4_def)
  have top: "stacks q (c_cr3 c) (?sp - 8) = 0"
    using w words_at_nth[of 5 6 "stacks q (c_cr3 c)" "?sp - 48"] W(1,2) by (simp add: q_def d3_def d4_def)
  have g: "gpr (clear_regs q) r = (if r = RDI then n else if r = RSI then v else 0)" for r
    by (cases r) (simp_all add: clear_regs_def q_def)
  have tree: "c_cr3 q = c_cr3 c" by (simp add: q_def d3_def d4_def W(2))
  have fl: "task_flags (tasks s2 t) AND TASK_FIRST_EXEC = 0" by (simp add: k s1_def set_Task_def and.assoc)
  have own: "a2 = t \<and> a3 = t \<and> a4 = t" if f: "\<forall>f \<in> set first_exec_calls. \<forall>d. regs_after K f d RDI = gpr d RDI"
  proof -
    have k: "regs_after K f d RDI = gpr d RDI" if "f \<in> set first_exec_calls" for f d using f that by blast
    have "a2 = t" unfolding a2_def by (subst k) (simp_all add: first_exec_calls_def r)
    moreover have "gpr p RDI = gpr c2 RDI"
      using k[of "''task_get_entry_point''"] by (simp add: p_def first_frame_simps first_exec_calls_def)
    moreover have "gpr d3 RDI = gpr p RDI" using k[of "''unlock_lapic_timer''"] by (simp add: d3_def first_exec_calls_def)
    moreover have "a3 = gpr d3 RDI" unfolding a3_def by (rule k) (simp add: first_exec_calls_def)
    moreover have "a4 = gpr d4 RDI" unfolding a4_def by (rule k) (simp add: first_exec_calls_def)
    ultimately show ?thesis by (simp add: r)
  qed
  show ?thesis
    unfolding e run
  proof (rule exI[of _ "iretq (clear_regs q)"], rule exI[of _ s2], rule exI[of _ d2], rule exI[of _ d3], rule exI[of _ d4], intro conjI)
    show "(\<forall>f \<in> set first_exec_calls. \<forall>d. regs_after K f d RDI = gpr d RDI) \<longrightarrow>
       c_rip (iretq (clear_regs q)) = entry_point (tasks s t) \<and> gpr (iretq (clear_regs q)) RDI = argc (tasks s t) \<and>
       gpr (iretq (clear_regs q)) RSI = argv (tasks s t)"
      using own by (auto simp: iretq_words[OF w] g ip_def n_def v_def)
  qed (simp_all add: iretq_words[OF w] tree g fl top user_mode_def r ip_def n_def v_def a2_def a3_def a4_def)
qed

section \<open>The gate of the system calls\<close>

text \<open>The function that a number of the C library means.\<close>

fun syscall_function :: "Syscall \<Rightarrow> string" where
  "syscall_function SYS_READ = ''syscall_read''"
| "syscall_function SYS_WRITE = ''syscall_write''"
| "syscall_function SYS_OPEN = ''syscall_open''"
| "syscall_function SYS_CLOSE = ''syscall_close''"
| "syscall_function SYS_SPAWN = ''syscall_spawn''"
| "syscall_function SYS_GETCWD = ''syscall_get_cwd''"
| "syscall_function SYS_POLL = ''syscall_poll''"
| "syscall_function SYS_PEEK = ''syscall_peek''"
| "syscall_function SYS_GETERRNO = ''syscall_get_errno''"
| "syscall_function SYS_EXIT = ''syscall_exit''"
| "syscall_function SYS_MMAP = ''syscall_mmap''"

lemma syscall_numbers:
  "\<not> of_nat (length syscall_lookup) \<le> syscall_number n" "syscall_lookup ! unat (syscall_number n) = syscall_function n"
proof -
  have "length syscall_lookup = 11" by (simp add: syscall_lookup_def)
  then show "\<not> of_nat (length syscall_lookup) \<le> syscall_number n" by (cases n) (simp_all add: word_le_nat_alt)
  show "syscall_lookup ! unat (syscall_number n) = syscall_function n" by (cases n; simp add: syscall_lookup_def)
qed

lemma syscall_saved_distinct: "distinct syscall_saved" "set syscall_saved = UNIV - {RAX}" "length syscall_saved = 14"
proof -
  show "distinct syscall_saved" "length syscall_saved = 14" by (simp_all add: syscall_saved_def)
  show "set syscall_saved = UNIV - {RAX}"
  proof (rule set_eqI)
    fix r show "(r \<in> set syscall_saved) = (r \<in> UNIV - {RAX})" by (cases r) (simp_all add: syscall_saved_def)
  qed
qed

lemma entry_room:
  assumes "8 * n \<le> k" "of_nat k \<le> (e :: u64)" "k \<le> 1000"
  shows "unat (e - of_nat (8 * n)) + 8 * n \<le> 2 ^ 64"
proof -
  have u: "unat (of_nat (8 * n) :: u64) = 8 * n" "unat (of_nat k :: u64) = k" using assms(1,3) by (intro unat_of_nat_u64; simp)+
  then have "of_nat (8 * n) \<le> e" using assms(1,2) unfolding word_le_nat_alt by simp
  then have "unat (e - of_nat (8 * n)) = unat e - 8 * n" using u(1) by (simp add: unat_sub)
  then show ?thesis using unsigned_less[of e, where ?'a = nat] assms(1,2) u(2) by (simp add: word_le_nat_alt)
qed

lemma isr_resumes:
  assumes "gpr c RAX = syscall_number n" and "160 \<le> entry_sp sp0 c"
    and "call_syscall M L D (syscall_function n) (gpr c) (disable_interrupts M s) = Inr (Exit_returns, v, s')"
  shows "\<exists>c' junk. syscall_isr K M L D (interrupt sp0 h c, s) = Inr (Resumes (c', s')) \<and>
    gpr c' = (gpr c)(RAX := rax_after v junk) \<and> c_rip c' = c_rip c \<and> c_cs c' = c_cs c \<and> c_rflags c' = c_rflags c \<and>
    c_rsp c' = c_rsp c \<and> c_ss c' = c_ss c \<and> c_cr3 c' = c_cr3 c"
proof -
  let ?f = "syscall_function n"
  define p where "p = push_regs syscall_saved (interrupt sp0 h c)"
  define q where "q = c_call K ?f v p"
  note P = pushed_words[of syscall_saved sp0 h c, folded p_def, unfolded syscall_saved_distinct(3)]
  have sp: "c_rsp p = entry_sp sp0 c - of_nat (8 * 19)" using P(1) by simp
  have "words_at (stacks q (c_cr3 p)) (c_rsp p) 19 = words_at (stacks p (c_cr3 p)) (c_rsp p) 19"
    unfolding q_def by (rule words_call) (use entry_room[of 19 160] assms(2) in \<open>simp add: sp\<close>)
  then have w: "words_at (stacks q (c_cr3 q)) (c_rsp q) (5 + length syscall_saved) = map (gpr c) (rev syscall_saved) @ frame_words c"
    using P(2,5) by (simp add: q_def syscall_saved_distinct(3))
  define c' where "c' = iretq (pop_regs (rev syscall_saved) q)"
  note R = popped_words[OF w syscall_saved_distinct(1), folded c'_def]
  have "gpr c' r = (if r = RAX then rax_after v (regs_after K ?f p RAX) else gpr c r)" for r
    using R(1)[of r] R(2)[of r] by (simp add: c'_def syscall_saved_distinct(2) q_def)
  then have "gpr c' = (gpr c)(RAX := rax_after v (regs_after K ?f p RAX))" by (simp add: fun_eq_iff)
  moreover have "syscall_isr K M L D (interrupt sp0 h c, s) = Inr (Resumes (c', s'))"
    using assms(3) syscall_numbers[of n] P(3)
    by (simp add: syscall_isr_def assms(1) Let_def p_def[symmetric] q_def c'_def)
  moreover have "c_cr3 c' = c_cr3 c" by (simp add: c'_def q_def P(2))
  ultimately show ?thesis using R(3) by (intro exI[of _ c'] exI[of _ "regs_after K ?f p RAX"]) (simp add: frame_words_def)
qed

text \<open>C16. A program that makes a system call sees only its result: the number leads to the function the C library
  means by it, which gets the arguments from \<open>rdi\<close>, \<open>rsi\<close> and \<open>rdx\<close>; when the function returns, the program goes on in
  its own mode, on its own stack, at its next instruction, with every register as before but \<open>rax\<close>, where
  the defined part is what the function returned.\<close>

theorem syscall_isr_returns:
  assumes "gpr c RAX = syscall_number n" and "160 \<le> entry_sp sp0 c"
    and "call_syscall M L D (syscall_function n) (gpr c) (disable_interrupts M s) = Inr (Exit_returns, v, s')"
  shows "\<exists>c' junk. syscall_isr K M L D (interrupt sp0 h c, s) = Inr (Resumes (c', s')) \<and>
    gpr c' = (gpr c)(RAX := rax_after v junk) \<and> c_rip c' = c_rip c \<and> c_cs c' = c_cs c \<and> c_rflags c' = c_rflags c \<and>
    c_rsp c' = c_rsp c \<and> c_ss c' = c_ss c \<and> c_cr3 c' = c_cr3 c"
  by (rule isr_resumes[OF assms])

text \<open>C31. A number without a function is answered with a message and a plain \<open>ret\<close>, which takes the return address off
  the processor's frame and leaves the rest: the program goes on at its next instruction with the kernel's
  code segment, on the kernel's stack, so with the kernel's rights.\<close>

theorem invalid_syscall_keeps_rights:
  assumes "of_nat (length syscall_lookup) \<le> gpr c RAX" and "160 \<le> entry_sp sp0 c" and "user_mode c"
    and "syscall_invalid (disable_interrupts M s) = Inr s'"
  shows "\<exists>c'. syscall_isr K M L D (interrupt sp0 h c, s) = Inr (Resumes (c', s')) \<and>
    c_rip c' = c_rip c \<and> c_cs c' = 0x08 \<and> \<not> user_mode c' \<and> c_rsp c' = entry_sp sp0 c - 32"
proof -
  define i where "i = interrupt sp0 h c"
  have i: "push_regs [] i = i" by (simp add: push_regs_def)
  note P = pushed_words[of "[]" sp0 h c, folded i_def, unfolded i]
  define q where "q = c_call K ''syscall_invalid'' Void i"
  have ip: "stacks i (c_cr3 i) (c_rsp i) = c_rip c"
    using words_at_nth[of 0 5 "stacks i (c_cr3 c)" "c_rsp i"] P(2,5) by (simp add: frame_words_def)
  have "syscall_isr K M L D (i, s) = Inr (Resumes (q\<lparr>c_rsp := c_rsp q + 8, c_rip := c_rip c\<rparr>, s'))"
    using assms(1,4) P(3) by (simp add: syscall_isr_def invalid_syscall_def pop_def ip q_def Let_def)
  moreover have "c_cs q = 8" "c_rsp q + 8 = entry_sp sp0 c - 32" using P(1,4) by (simp_all add: q_def)
  ultimately show ?thesis unfolding i_def by (intro exI) (auto simp: user_mode_def)
qed

text \<open>The fourth argument of a system call never arrives: the C library puts it into \<open>r10\<close>, and the gate calls
  \<open>syscall_mmap\<close> with the \<open>rcx\<close> of the program, whatever that holds, as its flags.\<close>

theorem mmap_flags_from_rcx:
  "\<exists>f. syscall_isr K M L D (interrupt sp0 h (syscall_args (syscall_number SYS_MMAP) [a1, a2, a3, a4, a5, a6] c), s) =
     res_bind (syscall_mmap D a1 a2 (ucast a3) (ucast (gpr c RCX)) (ucast a5) a6 (disable_interrupts M s))
       (\<lambda>(p, s'). Inr (Resumes (f p, s')))"
proof -
  define i where "i = interrupt sp0 h (syscall_args (syscall_number SYS_MMAP) [a1, a2, a3, a4, a5, a6] c)"
  have g: "gpr i RAX = syscall_number SYS_MMAP" "gpr i RDI = a1" "gpr i RSI = a2" "gpr i RDX = a3" "gpr i RCX = gpr c RCX"
     "gpr i R8 = a5" "gpr i R9 = a6"
    by (simp_all add: i_def syscall_args_def)
  define f where "f p = iretq (pop_regs (rev syscall_saved) (c_call K ''syscall_mmap'' (Ret64 p) (push_regs syscall_saved i)))" for p
  show ?thesis
    unfolding i_def[symmetric] using syscall_numbers[of SYS_MMAP] g
    by (intro exI[of _ f])
      (simp add: f_def syscall_isr_def Let_def call_syscall_def returning_def push_regs_pushes res_bind_assoc case_prod_unfold)
qed

section \<open>Exceptions\<close>

lemma hw_frames [frame_simps]:
  "vec_rep (s\<lparr>hw := g\<rparr>) v ns xs = vec_rep s v ns xs" "heap_inv (s\<lparr>hw := g\<rparr>) = heap_inv s" "live (s\<lparr>hw := g\<rparr>) = live s"
  "roomy k (s\<lparr>hw := g\<rparr>) = roomy k s"
  by (rule vec_rep_eq, simp add: vec_state.defs)+

lemma hw_task_frames [frame_simps]:
  "sched_rep (s\<lparr>hw := g\<rparr>) xs i = sched_rep s xs i" "unlocked (s\<lparr>hw := g\<rparr>) = unlocked s"
  "queue_addrs (s\<lparr>hw := g\<rparr>) q as = queue_addrs s q as"
  by (simp_all add: sched_rep_def unlocked_def queue_addrs_def vec_holds_def frame_simps cpu_of_def)

lemma hw_changes:
  "\<exists>g. disable_interrupts M s = s\<lparr>hw := g\<rparr>" "\<exists>g. enable_interrupts M s = s\<lparr>hw := g\<rparr>" "\<exists>g. unlock_pit M s = s\<lparr>hw := g\<rparr>"
  by (auto simp: disable_interrupts_def enable_interrupts_def on_hw_def unlock_pit_def unmask_ioapic_def Let_def split: prod.split)

lemma exit_on_user:
  assumes ok: "sched_rep s xs i" "unlocked s" and two: "2 \<le> length xs" and room: "roomy (110 + k) s"
    and user: "is_user (tasks s (xs ! i))" and p: "p = parent (tasks s (xs ! i))" "p \<noteq> 0"
    and q: "queue_holds s (event_queue (tasks s p)) evs" "queue (event_queue (tasks s p)) \<noteq> tasklist_list s"
  shows "\<exists>s'. exit_on M ec s = Inr (Exit_waits, s') \<and> tasks s' = (tasks s)(xs ! i := end_flags (tasks s (xs ! i))) \<and>
       serial_text s' = serial_text s \<and> roomy k s' \<and> queue_holds s' (event_queue (tasks s p)) (evs @ [exit_event i ec])"
proof -
  let ?q = "event_queue (tasks s p)" and ?T = "(tasks s)(xs ! i := end_flags (tasks s (xs ! i)))"
  obtain g where g: "disable_interrupts M s = s\<lparr>hw := g\<rparr>" by (rule exE[OF hw_changes(1)])
  obtain as where as: "queue_addrs s ?q as" "evs = map (events s) as" using q(1) by (auto simp: queue_holds_def)
  have "\<exists>s1 a. syscall_exit ec (s\<lparr>hw := g\<rparr>) = Inr (Exit_waits, s1\<lparr>tasks := ?T\<rparr>) \<and> queue_addrs s1 ?q (as @ [a]) \<and> a \<notin> set as \<and>
      events s1 = (events s)(a := exit_event i ec) \<and> events_state.more s1 = events_state.more (s\<lparr>hw := g\<rparr>) \<and> roomy k s1"
    using syscall_exit_room[of "s\<lparr>hw := g\<rparr>" xs i k p ?q as ec] ok two room user p as(1) q(2) by (simp add: frame_simps)
  then obtain s1 a where e: "syscall_exit ec (s\<lparr>hw := g\<rparr>) = Inr (Exit_waits, s1\<lparr>tasks := ?T\<rparr>)" (is "_ = Inr (_, ?s)")
    "queue_addrs s1 ?q (as @ [a])" "a \<notin> set as" "events s1 = (events s)(a := exit_event i ec)"
    "events_state.more s1 = events_state.more (s\<lparr>hw := g\<rparr>)" "roomy k s1" by blast
  obtain g1 where g1: "enable_interrupts M ?s = ?s\<lparr>hw := g1\<rparr>" by (rule exE[OF hw_changes(2)])
  obtain g2 where g2: "unlock_pit M (?s\<lparr>hw := g1\<rparr>) = ?s\<lparr>hw := g1, hw := g2\<rparr>" by (rule exE[OF hw_changes(3)])
  have "queue_holds (?s\<lparr>hw := g2\<rparr>) ?q (evs @ [exit_event i ec])"
  proof -
    have "queue_addrs (?s\<lparr>hw := g2\<rparr>) ?q (as @ [a])" using e(2) by (simp add: frame_simps)
    moreover have "events (?s\<lparr>hw := g2\<rparr>) = (events s)(a := exit_event i ec)" using e(4) by simp
    ultimately show ?thesis unfolding as(2) by (rule queue_appended[OF _ e(3)])
  qed
  moreover have "exit_on M ec s = Inr (Exit_waits, ?s\<lparr>hw := g2\<rparr>)" by (simp add: exit_on_def g e(1) g1 g2)
  moreover have "serial_text (?s\<lparr>hw := g2\<rparr>) = serial_text s" using e(5) by (cases s, cases s1) simp
  moreover have "roomy k ?s = roomy k s1" by (rule vec_rep_eq) (simp add: vec_state.defs)
  then have "roomy k (?s\<lparr>hw := g2\<rparr>)" using e(6) by (simp add: frame_simps)
  ultimately show ?thesis by (intro exI[of _ "?s\<lparr>hw := g2\<rparr>"]) simp
qed

text \<open>C18. While a program's task is the current one, of at least two, and the heap has room for an event, an exception,
  raised by the program or by the kernel's code that runs for it, ends that task and nothing else: the entry comes to
  wait for the next switch, the task is no longer present, no other task changes, nothing is printed, and the parent gets
  the event of a task that has exited behind those it has, with what \<open>rax\<close> held as the exit code.\<close>

theorem exception_ends_program:
  assumes "sched_rep s xs i" and "unlocked s" and "2 \<le> length xs" and "roomy 110 s"
    and "is_user (tasks s (xs ! i))" and "p = parent (tasks s (xs ! i))" and "p \<noteq> 0"
    and "queue_holds s (event_queue (tasks s p)) evs" and "queue (event_queue (tasks s p)) \<noteq> tasklist_list s"
  shows "\<exists>c' s'. exception_entry K M e cr2 (c, s) = Inr (Task_ended (Waits (c', s'))) \<and>
       tasks s' = (tasks s)(xs ! i := end_flags (tasks s (xs ! i))) \<and> task_flags (tasks s' (xs ! i)) AND TASK_PRESENT = 0 \<and>
       serial_text s' = serial_text s \<and>
       queue_holds s' (event_queue (tasks s p)) (evs @ [exit_event i (gpr c RAX)])"
proof -
  have r: "roomy (110 + 0) s" using assms(4) by simp
  show ?thesis
    using exit_on_user[OF assms(1-3) r assms(5-9), of M "gpr c RAX"] end_flags_absent[of "tasks s (xs ! i)"]
    by (cases e) (auto simp: exception_entry_def baseHandler_def Let_def push_regs_pushes)
qed

text \<open>The words of the handler's structure on the stack.\<close>

lemma frame_at_words:
  assumes "words_at (stacks c (c_cr3 c)) (c_rsp c) 23 =
    [a0, a1, a2, a3, a4, a5, a6, a7, a8, a9, a10, a11, a12, a13, a14, a15, a16, a17, a18, a19, a20, a21, a22]"
  shows "frame_at c = \<lparr>f_cr2 = a0, f_r15 = a1, f_r14 = a2, f_r13 = a3, f_r12 = a4, f_r11 = a5, f_r10 = a6, f_r9 = a7, f_r8 = a8,
      f_rbp = a9, f_rdi = a10, f_rsi = a11, f_rdx = a12, f_rcx = a13, f_rbx = a14, f_rax = a15, f_type = a16,
      f_code = a17, f_rip = a18, f_cs = a19, f_flags = a20, f_rsp = a21, f_ss = a22\<rparr>"
proof -
  have w: "stacks c (c_cr3 c) (c_rsp c + 8 * of_nat i) = words_at (stacks c (c_cr3 c)) (c_rsp c) 23 ! i" if "i < 23" for i
    using that by (simp add: words_at_nth)
  show ?thesis
    unfolding frame_at_def Let_def
    using w[of 0] w[of 1] w[of 2] w[of 3] w[of 4] w[of 5] w[of 6] w[of 7] w[of 8] w[of 9] w[of 10] w[of 11]
      w[of 12] w[of 13] w[of 14] w[of 15] w[of 16] w[of 17] w[of 18] w[of 19] w[of 20] w[of 21] w[of 22]
    unfolding assms by simp
qed

text \<open>The processor pushes an error code for the exceptions that have one.\<close>

definition exception :: "bool \<Rightarrow> u64 \<Rightarrow> u64 \<Rightarrow> u64 \<Rightarrow> cpu \<Rightarrow> cpu" where
  "exception zero error sp0 h c = (if zero then interrupt sp0 h c else push error (interrupt sp0 h c))"

lemma exit_on_kernel:
  assumes "sched_rep s xs i" "unlocked s" "\<not> is_user (tasks s (xs ! i))"
  shows "exit_on M ec s = Inr (Exit_returns, disable_interrupts M s)"
proof -
  obtain g where g: "disable_interrupts M s = s\<lparr>hw := g\<rparr>" by (rule exE[OF hw_changes(1)])
  have ok: "sched_rep (s\<lparr>hw := g\<rparr>) xs i" and un: "\<not> locks (s\<lparr>hw := g\<rparr>) l" for l
    using assms(1,2) by (simp_all add: frame_simps unlocked_def)
  note C = sched_current[OF ok]
  have "get_current_processor (s\<lparr>hw := g\<rparr>) = Inr (cpu_of (s\<lparr>hw := g\<rparr>), s\<lparr>hw := g\<rparr>)" by (rule get_current_processor_free[OF un])
  moreover have "get_current_task (s\<lparr>hw := g\<rparr>) = Inr (xs ! i, s\<lparr>hw := g\<rparr>)" using get_current_task_free[OF un un] C(1,2) by simp
  ultimately show ?thesis using C(1) assms(3) by (simp add: exit_on_def syscall_exit_def g)
qed

text \<open>C19. While the current task is the kernel's own (an exception in the kernel's code that runs for a program ends that
  program instead, as the property before says), an exception reaches the handler with the processor's state:
  the structure that \<open>exception_handler\<close> gets holds every register as it was, the faulting address, the number of the exception,
  its error code or zero, and the interrupted instruction, flags, stack and segments.\<close>

theorem exception_frame_complete:
  assumes "sched_rep s xs i" and "unlocked s" and "\<not> is_user (tasks s (xs ! i))" and "exception_pushes n = Some (zero, number)"
    and "200 \<le> entry_sp sp0 c"
  shows "\<exists>c'. exception_entry K M (zero, number) cr2 (exception zero error sp0 h c, s) =
    Inr (Handler_called
      \<lparr>f_cr2 = cr2, f_r15 = gpr c R15, f_r14 = gpr c R14, f_r13 = gpr c R13, f_r12 = gpr c R12, f_r11 = gpr c R11,
       f_r10 = gpr c R10, f_r9 = gpr c R9, f_r8 = gpr c R8, f_rbp = gpr c RBP, f_rdi = gpr c RDI, f_rsi = gpr c RSI,
       f_rdx = gpr c RDX, f_rcx = gpr c RCX, f_rbx = gpr c RBX, f_rax = gpr c RAX, f_type = number,
       f_code = (if zero then 0 else error), f_rip = c_rip c, f_cs = c_cs c, f_flags = c_rflags c, f_rsp = c_rsp c, f_ss = c_ss c\<rparr>
      (c', disable_interrupts M s))"
proof -
  let ?i = "interrupt sp0 h c" and ?vs = "[if zero then 0 else error, number] @ map (gpr c) saved_regs"
  define p where "p = pushes ?vs ?i"
  define d where "d = exception zero error sp0 h c"
  have d: "gpr d = gpr c" by (simp add: d_def exception_def)
  have entry: "(let c = (if zero then push 0 d else d); c = push number c in push_regs saved_regs c) = p"
    by (simp add: p_def push_regs_pushes d_def exception_def pushes_def)
  define q where "q = c_call K ''syscall_exit'' Void (mov RDI (gpr p RAX) p)"
  let ?w = "frame_words c"
  have P: "c_rsp p = entry_sp sp0 c - of_nat (8 * 22)" "c_cr3 p = c_cr3 c"
    by (simp_all add: p_def saved_regs_distinct)
  have "words_at (stacks p (c_cr3 c)) (c_rsp p) 22 = rev ?vs @ ?w"
  proof -
    let ?all = "[c_ss c, c_rsp c, c_rflags c, c_cs c, c_rip c] @ ?vs"
    have s: "stacks p = stacks (pushes ?all (c\<lparr>c_rsp := entry_sp sp0 c\<rparr>))" unfolding p_def by (rule interrupt_stacks)
    have l: "length ?all = 22" and v: "rev ?all = rev ?vs @ ?w" by (simp_all add: saved_regs_distinct frame_words_def)
    have "c_rsp (pushes ?all (c\<lparr>c_rsp := entry_sp sp0 c\<rparr>)) = c_rsp p" "c_cr3 (c\<lparr>c_rsp := entry_sp sp0 c\<rparr>) = c_cr3 c"
      using P(1) l by simp_all
    moreover have "length ?all < 2 ^ 60" using l by simp
    ultimately show ?thesis
      using words_at_pushes[of ?all "c\<lparr>c_rsp := entry_sp sp0 c\<rparr>"] by (simp only: s l v)
  qed
  moreover have "words_at (stacks q (c_cr3 c)) (c_rsp p) 22 = words_at (stacks p (c_cr3 c)) (c_rsp p) 22"
  proof -
    have "unat (c_rsp p) + 8 * 22 \<le> 2 ^ 64" unfolding P(1) by (rule entry_room[of 22 200]) (use assms(5) in simp_all)
    then show ?thesis using words_call[of "mov RDI (gpr p RAX) p" 22 K "''syscall_exit''" Void] by (simp add: q_def P(2))
  qed
  ultimately have w22: "words_at (stacks q (c_cr3 q)) (c_rsp q) 22 = rev ?vs @ ?w" by (simp add: q_def P(2))
  define r where "r = push cr2 (mov RAX cr2 q)"
  have "words_at (stacks r (c_cr3 (mov RAX cr2 q))) (c_rsp (mov RAX cr2 q) - 8) (Suc 22) = cr2 # words_at (stacks (mov RAX cr2 q) (c_cr3 (mov RAX cr2 q))) (c_rsp (mov RAX cr2 q)) 22"
    unfolding r_def by (rule words_push) simp
  then have w: "words_at (stacks r (c_cr3 r)) (c_rsp r) 23 = cr2 # rev ?vs @ ?w"
    using w22 by (simp add: r_def)
  define c' where "c' = mov RDI (c_rsp r) r"
  have "c_rsp r = c_rsp q - 8" by (simp add: r_def)
  then have "exception_entry K M (zero, number) cr2 (d, s) = Inr (Handler_called (frame_at c') (c', disable_interrupts M s))"
    using entry exit_on_kernel[OF assms(1-3), of M]
    by (simp add: exception_entry_def baseHandler_def Let_def q_def[symmetric] r_def[symmetric] c'_def)
  moreover have "frame_at c' = frame_at r" by (simp add: frame_at_def c'_def)
  ultimately show ?thesis
    using frame_at_words[of r] w unfolding d_def by (simp add: saved_regs_def frame_words_def)
qed

section \<open>A concrete processor\<close>

text \<open>Compiled code that leaves every register and stack word as it was, but for what a call itself pushes; a processor in
  a program, and the system of theory \<open>Tasklist\<close> with two tasks whose page trees are at \<open>0x11000\<close> and \<open>0x22000\<close>.\<close>

definition sample_effects :: call_effects where
  "sample_effects = \<lparr>regs_after = (\<lambda>_ c. gpr c), stack_after = (\<lambda>_ c. stacks c (c_cr3 c)), return_addr = (\<lambda>_ _. 0xC0DE)\<rparr>"

definition sample_user :: "u64 \<Rightarrow> (u64 \<Rightarrow> u64 \<Rightarrow> u64) \<Rightarrow> cpu" where
  "sample_user tree m = \<lparr>gpr = (\<lambda>r. if r = RBX then 7 else 0), c_rsp = 0x6FFFFFFFFF00, c_rip = 0x400123, c_cs = 0x1B, c_rflags = 0x200,
     c_ss = 0x23, c_cr3 = tree, stacks = m\<rparr>"

definition sample_call :: "vfs_state \<Rightarrow> call_state" where
  "sample_call v = sys_state.extend (kb_state.extend (sample_kb v) \<lparr>initial_ramdisk = 0, lapic_addr = 0xFEE00000, ioapic_addr = 0xFEC00000\<rparr>)
     \<lparr>syscall_handler_lock = False\<rparr>"

definition sample_entry :: "tasks_state \<Rightarrow> pc apic_state" where
  "sample_entry t = sample_apic (sample_call (sample_vfs t)) \<lparr>io_select = 0, io_regs = (\<lambda>_. 0), other_regs = (\<lambda>_. 0), due = []\<rparr>"

lemmas sample_entry_defs = sample_entry_def sample_apic_def sample_call_def sample_kb_def sample_vfs_def call_state.defs sys_state.defs
  kb_state.defs vfs_state.defs fs_state.defs screen_state.defs tasks_state.defs

lemma sample_entry_simps:
  "tasks (sample_entry t) = tasks t" "locks (sample_entry t) = locks t" "tasklist_list (sample_entry t) = tasklist_list t"
  "current_tasks (sample_entry t) = current_tasks t" "cpu_of (sample_entry t) = cpu_of t" "can_task_switch (sample_entry t) = can_task_switch t"
  "events (sample_entry t) = events t" "unlocked (sample_entry t) = unlocked t" "serial_held (sample_entry t) = False"
  by (simp_all add: cpu_of_def unlocked_def) (simp_all add: sample_entry_defs)

lemma sample_entry_heap:
  "vec_rep (sample_entry t) v ns xs = vec_rep t v ns xs" "heap_inv (sample_entry t) = heap_inv t" "live (sample_entry t) = live t"
  "roomy k (sample_entry t) = roomy k t"
  by (rule vec_rep_eq, simp add: sample_entry_defs vec_state.defs)+

lemma sample_entry_sched: "sched_rep (sample_entry t) xs i = sched_rep t xs i"
  by (simp add: sched_rep_def sample_entry_heap sample_entry_simps)

lemma sample_effects_rdi: "regs_after sample_effects f d RDI = gpr d RDI"
  by (simp add: sample_effects_def)

lemma sample_switch:
  assumes "distinct [0, t0, t1]"
  shows "\<exists>s :: pc apic_state. sched_rep s [t0, t1] 0 \<and> unlocked s \<and> can_task_switch s \<and> tasks s = T"
proof -
  obtain t :: tasks_state where t: "sched_rep t [t0, t1] 0" "unlocked t"
    using sample_sched_list[of "[t0, t1]" t0 t1 0] assms by auto
  let ?t = "t\<lparr>can_task_switch := True, tasks := T\<rparr>"
  have "vec_rep (t\<lparr>can_task_switch := True\<rparr>) v ns xs = vec_rep t v ns xs" for v ns xs
    by (rule vec_rep_eq) (simp add: vec_state.defs)
  then have "sched_rep ?t [t0, t1] 0" "unlocked ?t" using t by (simp_all add: sched_rep_def frame_simps cpu_of_def unlocked_def)
  then show ?thesis by (intro exI[of _ "sample_entry ?t"]) (simp add: sample_entry_sched sample_entry_simps)
qed

lemma rax_after_true: "rax_after (Ret8 1) junk \<noteq> 0"
proof
  assume "rax_after (Ret8 1) junk = 0"
  then have "bit (rax_after (Ret8 1) junk) 0 = bit (0 :: u64) 0" by simp
  then show False by (simp add: bit_simps)
qed

lemma task_switch_goes:
  assumes g: "get_current_task (pit_decrement_counter s) = Inr (x, s2)" "x \<noteq> 0" "can_task_switch s"
    and sel: "task_select (set_Task x ((tasks s2 x)\<lparr>current_rsp := c_rsp (push_regs saved_regs c)\<rparr>) s2) = Inr (t, s4)" "t \<noteq> 0"
    and old: "task_flags (tasks s4 t) AND TASK_FIRST_EXEC = 0" and rdi: "\<And>f d. regs_after K f d RDI = gpr d RDI"
  shows "\<exists>c' s'. task_switch K M (c, s) = Inr (c', s') \<and> c_cr3 c' = pml4_addr (tasks s4 t) \<and> tasks s' = tasks s4"
proof -
  define d where "d = push_regs saved_regs c"
  have a: "gpr (c_call K f (Ret8 1) e) RAX \<noteq> 0" for f e by (simp add: rax_after_true del: rax_after.simps)
  have chk: "check_task_switch_allowed (pit_decrement_counter s)"
    using g(3) by (simp add: check_task_switch_allowed_def pit_decrement_counter_def)
  define c4 where "c4 = (c_call K ''task_get_cr3'' (Ret64 (pml4_addr (tasks s4 t)))
          (mov R15 t (mov RDI t (c_call K ''task_select'' (Ret64 t)
            (c_call K ''task_set_rsp'' Void (mov RSI (c_rsp d) (mov RDI x (c_call K ''get_current_task'' (Ret64 x)
              (c_call K ''check_task_switch_allowed'' (Ret8 1) (c_call K ''pit_decrement_counter'' Void d))))))))))\<lparr>c_cr3 := pml4_addr (tasks s4 t)\<rparr>"
  have "task_switch K M (c, s) = enter_task K M (c4, s4)"
    using g sel a chk by (simp add: task_switch_def Let_def task_set_rsp_def task_get_cr3_def get_Task_def d_def[symmetric] c4_def)
  moreover have "\<exists>c' s'. enter_task K M (c4, s4) = Inr (c', s') \<and> tasks s' = tasks s4"
  proof -
    have "(ucast (task_flags (tasks s4 t)) :: u64) AND 2 = ucast (task_flags (tasks s4 t) AND TASK_FIRST_EXEC)"
      by (simp add: unsigned_and_eq TASK_FIRST_EXEC_def)
    then show ?thesis
      using sel(2) old by (simp add: enter_task_def Let_def task_get_rsp_def task_get_flags_def get_Task_def rdi c4_def task_switch_previously_executed_def)
  qed
  moreover have "c_cr3 c4 = pml4_addr (tasks s4 t)" by (simp add: c4_def)
  ultimately show ?thesis using enter_task_other_stacks(1) by metis
qed

lemma sample_switches:
  assumes s: "sched_rep s [t0, t1] 0" "unlocked s" "can_task_switch s" "runnable (tasks s t1)" "task_flags (tasks s t1) AND TASK_FIRST_EXEC = 0"
    and ne: "t0 \<noteq> t1"
  shows "get_current_task (pit_decrement_counter s) = Inr (t0, pit_decrement_counter s)"
    "\<exists>c' s'. task_switch sample_effects M (c, s) = Inr (c', s') \<and> c_cr3 c' = pml4_addr (tasks s t1)"
proof -
  let ?p = "pit_decrement_counter s"
  have "vec_rep ?p v ns xs = vec_rep s v ns xs" for v ns xs
    by (rule vec_rep_eq) (simp add: pit_decrement_counter_def vec_state.defs)
  then have p: "sched_rep ?p [t0, t1] 0" "unlocked ?p" "tasks ?p = tasks s"
    using s(1,2) by (simp_all add: sched_rep_def unlocked_def cpu_of_def pit_decrement_counter_def)
  then have un: "\<not> locks ?p l" for l by (simp add: unlocked_def)
  note C = sched_current[OF p(1)]
  show cur: "get_current_task ?p = Inr (t0, ?p)" using get_current_task_free[OF un un] C(1,2) by simp
  define q where "q = set_Task t0 ((tasks ?p t0)\<lparr>current_rsp := c_rsp (push_regs saved_regs c)\<rparr>) ?p"
  have q: "sched_rep q [t0, t1] 0" "unlocked q" "runnable (tasks q ([t0, t1] ! 1))" "tasks q t1 = tasks s t1"
    using p s(4) ne by (simp_all add: q_def set_Task_def frame_simps unlocked_def)
  obtain s4 where s4: "task_select q = Inr ([t0, t1] ! 1, s4)"
    using task_select_rec_picks[OF q(1,2) _ _ _ _ q(3), of walk_fuel] by (auto simp: task_select_def walk_fuel_def)
  have t1: "t1 \<noteq> 0" using p(1) by (auto simp: sched_rep_def)
  note k = same_taskD[OF task_select_keeps[OF s4], of t1]
  have "task_select (set_Task t0 ((tasks ?p t0)\<lparr>current_rsp := c_rsp (push_regs saved_regs c)\<rparr>) ?p) = Inr (t1, s4)"
    using s4 by (simp add: q_def)
  from task_switch_goes[OF cur _ s(3) this t1 _ sample_effects_rdi, of M]
  show "\<exists>c' s'. task_switch sample_effects M (c, s) = Inr (c', s') \<and> c_cr3 c' = pml4_addr (tasks s t1)"
    using C(3) k(2,3) s(5) by (auto simp: q(4))
qed

definition sample_two :: "u64 \<Rightarrow> u64 \<Rightarrow> Task" where
  "sample_two sp = (\<lambda>a. zero_Task\<lparr>is_user := True, parent := 0x2000, task_flags := 1, current_rsp := sp,
     pml4_addr := (if a = 0x1000 then 0x11000 else if a = 0x2000 then 0x22000 else 0)\<rparr>)"

lemma sample_two_simps:
  "runnable (sample_two sp a)" "task_flags (sample_two sp a) AND TASK_FIRST_EXEC = 0" "current_rsp (sample_two sp a) = sp"
  "pml4_addr (sample_two sp a) = 0x11000 \<longleftrightarrow> a = 0x1000" "pml4_addr (sample_two sp 0x2000) = 0x22000"
  by (simp_all add: sample_two_def runnable_def TASK_PRESENT_def TASK_RUNNING_def TASK_FIRST_EXEC_def zero_Task_def)

lemma sample_user_simps:
  "user_mode (sample_user t m)" "entry_sp KERNEL_STACK_PTR (sample_user t m) = KERNEL_STACK_PTR" "c_cr3 (sample_user t m) = t"
  "stacks (sample_user t m) = m"
  by (simp_all add: user_mode_def sample_user_def entry_sp_def KERNEL_STACK_PTR_def)

theorem context_switch_resumes_witness:
  "\<exists>(s :: pc apic_state) c1 s1 (s2 :: pc apic_state) c3 s3.
     task_switch sample_effects (pc_machine 0 (\<lambda>_. 0)) (interrupt KERNEL_STACK_PTR 0 (sample_user 0x11000 (\<lambda>_ _. 0)), s) = Inr (c1, s1) \<and>
     task_switch sample_effects (pc_machine 0 (\<lambda>_. 0)) (interrupt KERNEL_STACK_PTR 0 (sample_user 0x22000 (stacks c1)), s2) = Inr (c3, s3) \<and>
     c_cr3 c1 = 0x22000 \<and> gpr c3 RBX = 7 \<and> c_rip c3 = 0x400123"
proof -
  let ?M = "pc_machine 0 (\<lambda>_. 0)" and ?c = "sample_user 0x11000 (\<lambda>_ _. 0)"
  note U = sample_user_simps sample_user_simps(2)[unfolded KERNEL_STACK_PTR_def] and S = sample_two_simps
  have ne: "(0x1000 :: u64) \<noteq> 0x2000" "(0x2000 :: u64) \<noteq> 0x1000" by simp_all
  have "distinct [0, 0x1000, 0x2000 :: u64]" "distinct [0, 0x2000, 0x1000 :: u64]" by simp_all
  note D = this[THEN sample_switch]
  obtain s :: "pc apic_state" where s: "sched_rep s [0x1000, 0x2000] 0" "unlocked s" "can_task_switch s" "tasks s = sample_two 0"
    using D(1)[of "sample_two 0"] by blast
  note W = sample_switches[OF s(1-3), unfolded s(4), OF S(1,2) ne(1)]
  obtain c1 s1 where r1: "task_switch sample_effects ?M (interrupt KERNEL_STACK_PTR 0 ?c, s) = Inr (c1, s1)" "c_cr3 c1 = 0x22000"
    using W(2) S(5) by metis
  define sp where "sp = current_rsp (tasks s1 0x1000)"
  obtain s2 :: "pc apic_state" where s2: "sched_rep s2 [0x2000, 0x1000] 0" "unlocked s2" "can_task_switch s2" "tasks s2 = sample_two sp"
    using D(2)[of "sample_two sp"] by blast
  note V = sample_switches[OF s2(1-3), unfolded s2(4), OF S(1,2) ne(2)]
  let ?c2 = "sample_user 0x22000 (stacks c1)"
  obtain c3 s3 where r3: "task_switch sample_effects ?M (interrupt KERNEL_STACK_PTR 0 ?c2, s2) = Inr (c3, s3)" "c_cr3 c3 = 0x11000"
    using V(2) S(4)[of sp "0x1000"] by metis
  have "resumed ?c c3"
    by (rule context_switch_resumes[OF r1(1) _ W(1) _ _ _ _ _ r3(1) _ _ V(1) ne(2)])
      (simp_all add: U r1(2) r3(2) s2(4) S sp_def KERNEL_STACK_PTR_def)
  then have "gpr c3 RBX = 7" "c_rip c3 = 0x400123" by (simp_all add: resumed_def sample_user_def)
  then show ?thesis using r1 r3(1) by blast
qed

theorem context_switch_overwrites_witness:
  "\<exists>(s :: pc apic_state) c' s'.
     task_switch sample_effects (pc_machine 0 (\<lambda>_. 0)) (interrupt KERNEL_STACK_PTR 0 (sample_user 0x22000 (\<lambda>_ _. 0)), s) = Inr (c', s') \<and>
     stacks c' 0x11000 (KERNEL_STACK_PTR - 168) = 0xC0DE"
proof -
  let ?M = "pc_machine 0 (\<lambda>_. 0)" and ?c = "sample_user 0x22000 (\<lambda>_ _. 0)" and ?sp = "KERNEL_STACK_PTR - 400"
  note U = sample_user_simps sample_user_simps(2)[unfolded KERNEL_STACK_PTR_def] and S = sample_two_simps
  have ne: "(0x2000 :: u64) \<noteq> 0x1000" "distinct [0, 0x2000, 0x1000 :: u64]" by simp_all
  obtain s :: "pc apic_state" where s: "sched_rep s [0x2000, 0x1000] 0" "unlocked s" "can_task_switch s" "tasks s = sample_two ?sp"
    using sample_switch[OF ne(2), of "sample_two ?sp"] by blast
  note V = sample_switches[OF s(1-3), unfolded s(4), OF S(1,2) ne(1)]
  obtain c' s' where r: "task_switch sample_effects ?M (interrupt KERNEL_STACK_PTR 0 ?c, s) = Inr (c', s')" "c_cr3 c' = 0x11000"
    using V(2) S(4)[of ?sp "0x1000"] by metis
  have "\<exists>d. c_cr3 d = 0x11000 \<and> c_rsp d = entry_sp KERNEL_STACK_PTR ?c - 160 \<and>
      stacks c' 0x11000 (entry_sp KERNEL_STACK_PTR ?c - 168) = return_addr sample_effects ''task_get_rsp'' d"
    by (rule context_switch_overwrites[OF r(1) _ r(2) V(1) ne(1)])
      (simp_all add: U s(4) S KERNEL_STACK_PTR_def)
  then have "stacks c' 0x11000 (entry_sp KERNEL_STACK_PTR ?c - 168) = 0xC0DE" by (auto simp: sample_effects_def)
  then show ?thesis using r(1) by (auto simp: U)
qed

theorem first_switch_starts_program_witness:
  "\<forall>t :: tasks_state. \<exists>c' s'.
     enter_task sample_effects (pc_machine 0 (\<lambda>_. 0)) ((sample_user 0x11000 (\<lambda>_ _. 5))\<lparr>gpr := (\<lambda>_. 0x1000)\<rparr>,
       sample_entry (t\<lparr>tasks := (\<lambda>_. zero_Task\<lparr>task_flags := 3, entry_point := 0x400000, argc := 2, argv := 0x700000001010,
         current_rsp := 0x700000000000\<rparr>)\<rparr>)) = Inr (c', s') \<and>
     c_rip c' = 0x400000 \<and> user_mode c' \<and> gpr c' RDI = 2 \<and> gpr c' RSI = 0x700000001010"
proof
  fix t :: tasks_state
  let ?c = "(sample_user 0x11000 (\<lambda>_ _. 5))\<lparr>gpr := (\<lambda>_. 0x1000)\<rparr>"
  let ?t = "t\<lparr>tasks := (\<lambda>_. zero_Task\<lparr>task_flags := 3, entry_point := 0x400000, argc := 2, argv := 0x700000001010,
         current_rsp := 0x700000000000\<rparr>)\<rparr>"
  let ?s = "sample_entry ?t" and ?M = "pc_machine 0 (\<lambda>_. 0)"
  have g: "gpr ?c R15 = 0x1000" "(0x1000 :: u64) \<noteq> 0" by simp_all
  have k: "tasks ?s a = zero_Task\<lparr>task_flags := 3, entry_point := 0x400000, argc := 2, argv := 0x700000001010,
         current_rsp := 0x700000000000\<rparr>" for a by (simp add: sample_entry_simps)
  have f: "48 \<le> current_rsp (tasks ?s 0x1000)" "task_flags (tasks ?s a) AND TASK_FIRST_EXEC \<noteq> 0" for a
    by (simp_all add: k TASK_FIRST_EXEC_def)
  show "\<exists>c' s'. enter_task sample_effects ?M (?c, ?s) = Inr (c', s') \<and>
     c_rip c' = 0x400000 \<and> user_mode c' \<and> gpr c' RDI = 2 \<and> gpr c' RSI = 0x700000001010"
  proof (rule first_switch_starts_program[OF g f(1), where K = sample_effects and M = ?M, THEN exE])
    show "task_flags (tasks ?s (regs_after sample_effects ''task_get_rsp'' d RDI)) AND TASK_FIRST_EXEC \<noteq> 0" for d by (rule f(2))
    show "regs_after sample_effects f d RDI \<noteq> 0" if "gpr d RDI \<noteq> 0" for f d using that by (simp add: sample_effects_rdi)
  qed (elim exE conjE, intro exI conjI, assumption, simp_all add: k sample_user_def)
qed

theorem syscall_isr_returns_witness:
  "\<forall>L D. \<exists>(s :: pc apic_state) c' s'.
     syscall_isr sample_effects (pc_machine 0 (\<lambda>_. 0)) L D
       (interrupt KERNEL_STACK_PTR 0 ((sample_user 0x11000 (\<lambda>_ _. 0))\<lparr>gpr := (\<lambda>r. if r = RAX then 8 else 7)\<rparr>), s) = Inr (Resumes (c', s')) \<and>
     gpr c' RAX = 0x6FFFFFFFFFF8 \<and> gpr c' RDI = 7 \<and> c_rip c' = 0x400123"
proof (intro allI)
  fix L and D :: "pc apic_state device_calls"
  let ?M = "pc_machine 0 (\<lambda>_. 0)" and ?c = "(sample_user 0x11000 (\<lambda>_ _. 0))\<lparr>gpr := (\<lambda>r. if r = RAX then 8 else 7)\<rparr>"
  have "distinct [0, 0x1000, 0x2000 :: u64]" by simp
  from sample_switch[OF this, of "\<lambda>_. zero_Task\<lparr>errno := 0x6FFFFFFFFFF8\<rparr>"] obtain s :: "pc apic_state" where
    s: "sched_rep s [0x1000, 0x2000] 0" "unlocked s" "tasks s = (\<lambda>_. zero_Task\<lparr>errno := 0x6FFFFFFFFFF8\<rparr>)" by blast
  obtain g where g: "disable_interrupts ?M s = s\<lparr>hw := g\<rparr>" by (rule exE[OF hw_changes(1)])
  have ok: "sched_rep (s\<lparr>hw := g\<rparr>) [0x1000, 0x2000] 0" and un: "\<not> locks (s\<lparr>hw := g\<rparr>) l" for l
    using s(1,2) by (simp_all add: frame_simps unlocked_def)
  note C = sched_current[OF ok]
  have "get_current_task (s\<lparr>hw := g\<rparr>) = Inr (0x1000, s\<lparr>hw := g\<rparr>)" using get_current_task_free[OF un un] C(1,2) by simp
  then have call: "call_syscall ?M L D (syscall_function SYS_GETERRNO) (gpr ?c) (disable_interrupts ?M s) =
      Inr (Exit_returns, Ret64 0x6FFFFFFFFFF8, s\<lparr>hw := g\<rparr>)"
    by (simp add: call_syscall_def returning_def syscall_get_errno_def get_Task_def g s(3))
  have n: "gpr ?c RAX = syscall_number SYS_GETERRNO" "160 \<le> entry_sp KERNEL_STACK_PTR ?c"
    by (simp_all add: entry_sp_def user_mode_def sample_user_def KERNEL_STACK_PTR_def)
  show "\<exists>(s :: pc apic_state) c' s'.
     syscall_isr sample_effects ?M L D (interrupt KERNEL_STACK_PTR 0 ?c, s) = Inr (Resumes (c', s')) \<and>
     gpr c' RAX = 0x6FFFFFFFFFF8 \<and> gpr c' RDI = 7 \<and> c_rip c' = 0x400123"
    using syscall_isr_returns[OF n call, of sample_effects 0]
    by (elim exE conjE) (intro exI conjI, assumption, simp_all add: sample_user_def)
qed

theorem invalid_syscall_keeps_rights_witness:
  "\<forall>L D (t :: tasks_state). \<exists>c' s'.
     syscall_isr sample_effects (pc_machine 0 (\<lambda>_. 0)) L D
       (interrupt KERNEL_STACK_PTR 0 ((sample_user 0x11000 (\<lambda>_ _. 0))\<lparr>gpr := (\<lambda>_. 11)\<rparr>), sample_entry t) = Inr (Resumes (c', s')) \<and>
     c_rip c' = 0x400123 \<and> c_cs c' = 0x08"
proof (intro allI)
  fix L and D :: "pc apic_state device_calls" and t :: tasks_state
  let ?M = "pc_machine 0 (\<lambda>_. 0)" and ?c = "(sample_user 0x11000 (\<lambda>_ _. 0))\<lparr>gpr := (\<lambda>_. 11)\<rparr>"
  obtain g where g: "disable_interrupts ?M (sample_entry t) = (sample_entry t)\<lparr>hw := g\<rparr>" by (rule exE[OF hw_changes(1)])
  let ?f = "''Hey that syscall doesn'' @ [CHR 0x27] @ ''t exist! (Invalid syscall!)'' @ [CHR 0x0A]"
  have r: "render True ?f [] = Some ?f" "NUL \<notin> set ?f" by (simp_all add: render_directive_def)
  have "\<not> serial_held ((sample_entry t)\<lparr>hw := g\<rparr>)" by (simp add: sample_entry_simps)
  from console_renders[OF this r] obtain s' where "syscall_invalid (disable_interrupts ?M (sample_entry t)) = Inr s'"
    by (auto simp: syscall_invalid_def g)
  note inv = this
  have n: "of_nat (length syscall_lookup) \<le> gpr ?c RAX" "160 \<le> entry_sp KERNEL_STACK_PTR ?c" "user_mode ?c"
    by (simp_all add: syscall_lookup_def entry_sp_def user_mode_def sample_user_def KERNEL_STACK_PTR_def)
  show "\<exists>c' s'. syscall_isr sample_effects ?M L D (interrupt KERNEL_STACK_PTR 0 ?c, sample_entry t) = Inr (Resumes (c', s')) \<and>
     c_rip c' = 0x400123 \<and> c_cs c' = 0x08"
    using invalid_syscall_keeps_rights[OF n inv, of sample_effects L D 0]
    by (elim exE conjE) (intro exI conjI, assumption, simp_all add: sample_user_def)
qed

lemma sample_entry_queue: "queue_holds (sample_entry t) q evs = queue_holds t q evs"
  by (simp add: queue_holds_def queue_addrs_def vec_holds_def sample_entry_heap sample_entry_simps)

theorem exception_ends_program_witness:
  "\<exists>(s :: pc apic_state) q c' s'. queue_holds s q [] \<and>
     exception_entry sample_effects (pc_machine 0 (\<lambda>_. 0)) (True, 6) 0 (sample_user 0x22000 (\<lambda>_ _. 0), s) = Inr (Task_ended (Waits (c', s'))) \<and>
     queue_holds s' q [exit_event 1 0]"
proof -
  obtain t :: tasks_state and q where t: "sched_rep t [0x1000, 0x2000] 1" "unlocked t" "roomy 90000 t"
    "tasks t 0x1000 = sample_task False q 1" "tasks t 0x2000 = sample_task True q 1"
    "queue_holds t \<lparr>queue = q\<rparr> []" "q \<noteq> tasklist_list t" using sample_sched[of 1] by auto
  let ?s = "sample_entry t"
  have "roomy 110 t" using roomy_mono[OF t(3)] by simp
  then have s: "sched_rep ?s [0x1000, 0x2000] 1" "unlocked ?s" "2 \<le> length [0x1000, 0x2000 :: u64]" "roomy 110 ?s"
    "is_user (tasks ?s ([0x1000, 0x2000] ! 1))" "0x1000 = parent (tasks ?s ([0x1000, 0x2000] ! 1))" "(0x1000 :: u64) \<noteq> 0"
    "queue_holds ?s (event_queue (tasks ?s 0x1000)) []" "queue (event_queue (tasks ?s 0x1000)) \<noteq> tasklist_list ?s"
    using t by (simp_all add: sample_entry_sched sample_entry_simps sample_entry_heap sample_entry_queue sample_task_def)
  have q: "event_queue (tasks ?s 0x1000) = \<lparr>queue = q\<rparr>" "gpr (sample_user 0x22000 (\<lambda>_ _. 0)) RAX = 0"
    by (simp_all add: sample_entry_simps t(4) sample_task_def sample_user_def)
  obtain c' s' where "exception_entry sample_effects (pc_machine 0 (\<lambda>_. 0)) (True, 6) 0 (sample_user 0x22000 (\<lambda>_ _. 0), ?s) = Inr (Task_ended (Waits (c', s')))"
    "queue_holds s' \<lparr>queue = q\<rparr> ([] @ [exit_event 1 0])"
    using exception_ends_program[OF s, of sample_effects "pc_machine 0 (\<lambda>_. 0)" "(True, 6)" 0 "sample_user 0x22000 (\<lambda>_ _. 0)"]
    unfolding q by blast
  moreover have "queue_holds ?s \<lparr>queue = q\<rparr> []" using s(8) unfolding q .
  ultimately show ?thesis unfolding append_Nil by blast
qed

theorem exception_frame_complete_witness:
  "\<exists>(s :: pc apic_state) f c' s'. exception_entry sample_effects (pc_machine 0 (\<lambda>_. 0)) (False, 14) 0x1234
     (exception False 2 KERNEL_STACK_PTR 0 ((sample_user 0x11000 (\<lambda>_ _. 0))\<lparr>c_cs := 8, c_rsp := 0xFFFFFFFFFFFFE800\<rparr>), s) = Inr (Handler_called f (c', s')) \<and>
     f_cr2 f = 0x1234 \<and> f_type f = 14 \<and> f_code f = 2 \<and> f_rip f = 0x400123 \<and> f_rbx f = 7"
proof -
  obtain t :: tasks_state and q where t: "sched_rep t [0x1000, 0x2000] 0" "unlocked t" "tasks t 0x1000 = sample_task False q 1"
    using sample_sched[of 0] by auto
  let ?s = "sample_entry t" and ?c = "(sample_user 0x11000 (\<lambda>_ _. 0))\<lparr>c_cs := 8, c_rsp := 0xFFFFFFFFFFFFE800\<rparr>"
  have s: "sched_rep ?s [0x1000, 0x2000] 0" "unlocked ?s" "\<not> is_user (tasks ?s ([0x1000, 0x2000] ! 0))"
    "exception_pushes pageFaultException = Some (False, 14)" "200 \<le> entry_sp KERNEL_STACK_PTR ?c"
    using t by (simp_all add: sample_entry_sched sample_entry_simps sample_task_def entry_sp_def user_mode_def)
  show ?thesis
    using exception_frame_complete[OF s, of sample_effects "pc_machine 0 (\<lambda>_. 0)" "0x1234" 2 0]
    by (elim exE) (intro exI[of _ ?s] exI conjI, assumption, simp_all add: sample_user_def)
qed

text \<open>The numbers that the entries push are those of the gates they are installed at.\<close>

lemma exception_gates:
  "(v, n) \<in> set idt_gates \<Longrightarrow> (case exception_pushes n of None \<Rightarrow> n = spurious_irq \<or> n = timer_isr | Some (z, k) \<Rightarrow> k = ucast v)"
  by (auto simp: idt_gates_def)

end
