(* ===== verification/Programs.thy ===== *)
theory Programs
  imports Entry Printf
begin

text \<open>
  Programs and their library (\<open>src/libc\<close>, \<open>src/userspace\<close>): the stubs that raise the system call interrupt, the
  functions around them, the start code, and the two programs, down to the kernel's own definitions: a call goes
  through the processor's interrupt and the gate of theory \<open>Entry\<close> to the functions of theory \<open>Syscalls\<close>.

  A program runs on the memory of the kernel's state at its own addresses. The registers are those of theory
  \<open>Entry\<close>; what compiled code does to registers between two system calls is left out, since the gate reads only the
  registers that the stub sets.
\<close>

section \<open>Runs\<close>

text \<open>A piece of a program returns a value, or a system call in it never comes back to the program.\<close>

datatype ('v, 'w) run = Returns 'v 'w | Ends "'w entry_end"

definition run_bind :: "('v, 'w) run result \<Rightarrow> ('v \<Rightarrow> 'w \<Rightarrow> ('u, 'w) run result) \<Rightarrow> ('u, 'w) run result" where
  "run_bind r f = res_bind r (\<lambda>x. case x of Returns v w \<Rightarrow> f v w | Ends e \<Rightarrow> Inr (Ends e))"

text \<open>What is fixed for a program: the parameters of the gate, the kernel stack of its task state segment and the
  handler of interrupt \<open>0x80\<close>.\<close>

record ('h, 's) kernel_env =
  effects :: call_effects
  hardware :: "'h machine"
  layout :: kernel_layout
  device_fns :: "'s device_calls"
  kernel_stack :: u64
  gate :: u64

type_synonym ('h, 'a) env = "('h, ('h, 'a) apic_state_scheme) kernel_env"
type_synonym ('h, 'a) world = "cpu \<times> ('h, 'a) apic_state_scheme"
type_synonym ('v, 'h, 'a) outcome = "('v, cpu \<times> ('h, 'a) apic_state_scheme) run result"

section \<open>The stubs of the system calls\<close>

definition int80 :: "('h, 'a) env \<Rightarrow> ('h, 'a) world \<Rightarrow> (unit, 'h, 'a) outcome" where
  "int80 E = (\<lambda>(c, s).
     res_bind (syscall_isr (effects E) (hardware E) (layout E) (device_fns E) (interrupt (kernel_stack E) (gate E) c, s))
       (\<lambda>e. Inr (case e of Resumes w \<Rightarrow> Returns () w | _ \<Rightarrow> Ends e)))"

text \<open>The number goes into \<open>rax\<close>, the arguments into the registers of the stub; the result is all of \<open>rax\<close>.\<close>

definition call_stub :: "('h, 'a) env \<Rightarrow> Syscall \<Rightarrow> u64 list \<Rightarrow> ('h, 'a) world \<Rightarrow> (u64, 'h, 'a) outcome" where
  "call_stub E n as = (\<lambda>(c, s).
     run_bind (int80 E (syscall_args (syscall_number n) as c, s)) (\<lambda>_ (c, s). Inr (Returns (gpr c RAX) (c, s))))"

definition syscall0 :: "('h, 'a) env \<Rightarrow> Syscall \<Rightarrow> ('h, 'a) world \<Rightarrow> (u64, 'h, 'a) outcome" where
  "syscall0 E n = call_stub E n []"

definition syscall1 :: "('h, 'a) env \<Rightarrow> Syscall \<Rightarrow> u64 \<Rightarrow> ('h, 'a) world \<Rightarrow> (u64, 'h, 'a) outcome" where
  "syscall1 E n a1 = call_stub E n [a1]"

definition syscall2 :: "('h, 'a) env \<Rightarrow> Syscall \<Rightarrow> u64 \<Rightarrow> u64 \<Rightarrow> ('h, 'a) world \<Rightarrow> (u64, 'h, 'a) outcome" where
  "syscall2 E n a1 a2 = call_stub E n [a1, a2]"

definition syscall3 :: "('h, 'a) env \<Rightarrow> Syscall \<Rightarrow> u64 \<Rightarrow> u64 \<Rightarrow> u64 \<Rightarrow> ('h, 'a) world \<Rightarrow> (u64, 'h, 'a) outcome" where
  "syscall3 E n a1 a2 a3 = call_stub E n [a1, a2, a3]"

definition syscall4 :: "('h, 'a) env \<Rightarrow> Syscall \<Rightarrow> u64 \<Rightarrow> u64 \<Rightarrow> u64 \<Rightarrow> u64 \<Rightarrow> ('h, 'a) world \<Rightarrow> (u64, 'h, 'a) outcome" where
  "syscall4 E n a1 a2 a3 a4 = call_stub E n [a1, a2, a3, a4]"

definition syscall5 :: "('h, 'a) env \<Rightarrow> Syscall \<Rightarrow> u64 \<Rightarrow> u64 \<Rightarrow> u64 \<Rightarrow> u64 \<Rightarrow> u64 \<Rightarrow> ('h, 'a) world \<Rightarrow> (u64, 'h, 'a) outcome" where
  "syscall5 E n a1 a2 a3 a4 a5 = call_stub E n [a1, a2, a3, a4, a5]"

definition syscall6 :: "('h, 'a) env \<Rightarrow> Syscall \<Rightarrow> u64 \<Rightarrow> u64 \<Rightarrow> u64 \<Rightarrow> u64 \<Rightarrow> u64 \<Rightarrow> u64 \<Rightarrow> ('h, 'a) world \<Rightarrow> (u64, 'h, 'a) outcome" where
  "syscall6 E n a1 a2 a3 a4 a5 a6 = call_stub E n [a1, a2, a3, a4, a5, a6]"

section \<open>The library\<close>

text \<open>An \<open>int\<close> descriptor is widened with its sign.\<close>

definition libc_write :: "('h, 'a) env \<Rightarrow> u32 \<Rightarrow> u64 \<Rightarrow> u64 \<Rightarrow> ('h, 'a) world \<Rightarrow> (u64, 'h, 'a) outcome" where
  "libc_write E fd buf count = syscall3 E SYS_WRITE (scast fd) buf count"

definition libc_read :: "('h, 'a) env \<Rightarrow> u32 \<Rightarrow> u64 \<Rightarrow> u64 \<Rightarrow> ('h, 'a) world \<Rightarrow> (u64, 'h, 'a) outcome" where
  "libc_read E fd buf count w = run_bind (syscall3 E SYS_READ (scast fd) buf count w) (\<lambda>_ w. Inr (Returns count w))"

definition libc_getcwd :: "('h, 'a) env \<Rightarrow> u64 \<Rightarrow> u64 \<Rightarrow> ('h, 'a) world \<Rightarrow> (u64, 'h, 'a) outcome" where
  "libc_getcwd E buf sz w = run_bind (syscall2 E SYS_GETCWD buf sz w) (\<lambda>_ w. Inr (Returns buf w))"

definition libc_spawn :: "('h, 'a) env \<Rightarrow> u64 \<Rightarrow> u64 \<Rightarrow> u64 \<Rightarrow> ('h, 'a) world \<Rightarrow> (u64, 'h, 'a) outcome" where
  "libc_spawn E path argument_list n = syscall3 E SYS_SPAWN path argument_list n"

definition libc_exit :: "('h, 'a) env \<Rightarrow> u32 \<Rightarrow> ('h, 'a) world \<Rightarrow> (unit, 'h, 'a) outcome" where
  "libc_exit E status w = run_bind (syscall1 E SYS_EXIT (scast status) w) (\<lambda>_ w. Inr (Returns () w))"

text \<open>\<open>poll\<close> and \<open>peek\<close> are declared \<open>int\<close> and return nothing.\<close>

definition libc_poll :: "('h, 'a) env \<Rightarrow> u64 \<Rightarrow> ('h, 'a) world \<Rightarrow> (unit, 'h, 'a) outcome" where
  "libc_poll E buffer w = run_bind (syscall1 E SYS_POLL buffer w) (\<lambda>_ w. Inr (Returns () w))"

definition libc_peek :: "('h, 'a) env \<Rightarrow> u64 \<Rightarrow> ('h, 'a) world \<Rightarrow> (unit, 'h, 'a) outcome" where
  "libc_peek E buffer w = run_bind (syscall1 E SYS_PEEK buffer w) (\<lambda>_ w. Inr (Returns () w))"

definition libc_strlen :: "u64 \<Rightarrow> 'a pmm_state_scheme \<Rightarrow> u64 result" where
  "libc_strlen str s = res_bind (mem_string walk_fuel (mem s) str) (\<lambda>t. Inr (of_nat (length t)))"

definition libc_fputs :: "('h, 'a) env \<Rightarrow> u64 \<Rightarrow> u32 \<Rightarrow> ('h, 'a) world \<Rightarrow> (u32, 'h, 'a) outcome" where
  "libc_fputs E str stream = (\<lambda>(c, s).
     res_bind (libc_strlen str s) (\<lambda>n.
     run_bind (libc_write E stream str n (c, s)) (\<lambda>v w. Inr (Returns (ucast v) w))))"

definition libc_fgets :: "('h, 'a) env \<Rightarrow> u64 \<Rightarrow> u32 \<Rightarrow> u32 \<Rightarrow> ('h, 'a) world \<Rightarrow> (u64, 'h, 'a) outcome" where
  "libc_fgets E str n fd w = run_bind (libc_read E fd str (scast n) w) (\<lambda>_ w. Inr (Returns str w))"

section \<open>Printing\<close>

text \<open>The library's conversions are the kernel's, on the library's arrays.\<close>

definition libc_reverse :: "char list \<Rightarrow> int \<Rightarrow> char list result" where
  "libc_reverse str len = reverse_loop 0 (len - 1) str"

definition int_to_hex_string :: "u64 \<Rightarrow> char list \<Rightarrow> char list result" where
  "int_to_hex_string num str =
     (let buffer = local_array 17 in
      res_bind (if num = 0 then res_bind (arr_set buffer 0 (CHR ''0'')) (\<lambda>b. Inr (1, b))
                else hex_loop num 0 buffer) (\<lambda>(index, buffer).
      res_bind (pad_loop index buffer) (\<lambda>(index, buffer).
      res_bind (arr_set buffer index NUL) (\<lambda>buffer.
      res_bind (libc_reverse buffer (int index)) (\<lambda>buffer.
        copy_loop 17 0 str buffer)))))"

definition int_to_string :: "u64 \<Rightarrow> char list \<Rightarrow> char list result" where
  "int_to_string num str =
     (let len = get_num_length num in
      res_bind (arr_set str len NUL) (\<lambda>str. dec_fill num (int len - 1) str))"

text \<open>The local arrays of \<open>printf\<close> stand at addresses \<open>loc\<close> of the program's stack: \<open>buffer[10]\<close>, \<open>bufferx[20]\<close>
  and \<open>buffer[2]\<close> by their lengths. \<open>print_array\<close> hands an array to \<open>fputs\<close>.\<close>

definition print_array :: "('h, 'a) env \<Rightarrow> (nat \<Rightarrow> u64) \<Rightarrow> char list \<Rightarrow> ('h, 'a) world \<Rightarrow> (u32, 'h, 'a) outcome" where
  "print_array E loc buffer = (\<lambda>(c, s).
     let a = loc (length buffer)
     in libc_fputs E a 1 (c, s\<lparr>mem := placed a 0 (map of_char buffer) (mem s)\<rparr>))"

text \<open>The argument list is the list of the words passed; taking one that was not passed reads outside of it.\<close>

definition va_word :: "u64 list \<Rightarrow> (u64 \<times> u64 list) result" where
  "va_word args = (case args of n # r \<Rightarrow> Inr (n, r) | [] \<Rightarrow> Inl OutOfBounds)"

definition program_directive ::
  "('h, 'a) env \<Rightarrow> (nat \<Rightarrow> u64) \<Rightarrow> char \<Rightarrow> u64 list \<Rightarrow> ('h, 'a) world \<Rightarrow> (u64 list, 'h, 'a) outcome" where
  "program_directive E loc f args w =
     (let buffer = local_array 10; args_left = (\<lambda>r. \<lambda>_ w. Inr (Returns r w)) in
      if f = CHR ''d'' \<or> f = CHR ''i'' then
        res_bind (va_word args) (\<lambda>(n, args).
        res_bind (int_to_string n buffer) (\<lambda>buffer.
        res_bind (arr_set buffer 9 NUL) (\<lambda>buffer.
        run_bind (print_array E loc buffer w) (args_left args))))
      else if f = CHR ''c'' then
        res_bind (va_word args) (\<lambda>(n, args).
        res_bind (arr_set buffer 0 (char_of (unat n))) (\<lambda>buffer.
        res_bind (arr_set buffer 1 NUL) (\<lambda>buffer.
        run_bind (print_array E loc buffer w) (args_left args))))
      else if f = CHR ''x'' then
        res_bind (va_word args) (\<lambda>(n, args).
        res_bind (int_to_hex_string n (local_array 20)) (\<lambda>bufferx.
        res_bind (arr_set bufferx 19 NUL) (\<lambda>bufferx.
        run_bind (print_array E loc bufferx w) (args_left args))))
      else if f = CHR ''s'' then
        res_bind (va_word args) (\<lambda>(a, args).
        run_bind (libc_fputs E a 1 w) (args_left args))
      else Inr (Returns args w))"

fun program_printf_loop ::
  "nat \<Rightarrow> ('h, 'a) env \<Rightarrow> (nat \<Rightarrow> u64) \<Rightarrow> u64 \<Rightarrow> u64 list \<Rightarrow> ('h, 'a) world \<Rightarrow> (unit, 'h, 'a) outcome" where
  "program_printf_loop fuel E loc format args w =
     (if fuel = 0 then Inl Diverged
      else if mem (snd w) format = 0 then Inr (Returns () w)
      else if mem (snd w) format = 37 then
        run_bind (program_directive E loc (char_of (unat (mem (snd w) (format + 1)))) args w) (\<lambda>args w.
          program_printf_loop (fuel - 1) E loc (format + 2) args w)
      else
        run_bind (print_array E loc [char_of (unat (mem (snd w) format)), NUL] w) (\<lambda>_ w.
          program_printf_loop (fuel - 1) E loc (format + 1) args w))"

declare program_printf_loop.simps [simp del]

definition program_printf ::
  "('h, 'a) env \<Rightarrow> (nat \<Rightarrow> u64) \<Rightarrow> u64 \<Rightarrow> u64 list \<Rightarrow> ('h, 'a) world \<Rightarrow> (unit, 'h, 'a) outcome" where
  "program_printf E loc format args w = program_printf_loop walk_fuel E loc format args w"

text \<open>\<open>stack_message\<close> is the address of its text.\<close>

definition STACK_CHK_GUARD :: u64 where "STACK_CHK_GUARD = 0x595e9fbd94fda766"

definition stack_chk_fail :: "('h, 'a) env \<Rightarrow> (nat \<Rightarrow> u64) \<Rightarrow> u64 \<Rightarrow> ('h, 'a) world \<Rightarrow> (unit, 'h, 'a) outcome" where
  "stack_chk_fail E loc stack_message w =
     run_bind (program_printf E loc stack_message [] w) (\<lambda>_ w. libc_exit E 1 w)"

section \<open>The start of a program\<close>

text \<open>\<open>_start\<close> (\<open>src/libc/internal/crt0.asm\<close>): \<open>main\<close> with the arguments in \<open>rdi\<close> and \<open>rsi\<close>, then the system call
  that ends the task, with all of \<open>rax\<close>, of which \<open>main\<close> defines the low half.\<close>

definition start_program :: "('h, 'a) env \<Rightarrow> (u64 \<Rightarrow> u64 \<Rightarrow> ('h, 'a) world \<Rightarrow> (u32, 'h, 'a) outcome) \<Rightarrow> ('h, 'a) world \<Rightarrow> (unit, 'h, 'a) outcome" where
  "start_program E main = (\<lambda>(c, s).
     let c = push (gpr c RDI) c; c = push (gpr c RSI) c;
         (v, c) = pop c; c = mov RSI v c;
         (v, c) = pop c; c = mov RDI v c
     in run_bind (main (gpr c RDI) (gpr c RSI) (c, s)) (\<lambda>v (c, s).
       let c = mov RAX (rax_after (Ret32 v) (regs_after (effects E) ''main'' c RAX)) c;
           c = mov RDI (gpr c RAX) c;
           c = mov RAX 9 c
       in int80 E (c, s)))"

section \<open>The two programs\<close>

text \<open>The addresses of literals and static variables are parameters.\<close>

definition greeting_text :: string where
  "greeting_text = ''Hello, world!'' @ [CHR 0x0A]"

definition helloworld_main :: "('h, 'a) env \<Rightarrow> u64 \<Rightarrow> u64 \<Rightarrow> u64 \<Rightarrow> ('h, 'a) world \<Rightarrow> (u32, 'h, 'a) outcome" where
  "helloworld_main E greeting rdi rsi w = run_bind (libc_fputs E greeting 1 w) (\<lambda>_ w. Inr (Returns 0 w))"

text \<open>The shell waits in a loop of polls. What the rest of the system does behind each of them, other tasks and interrupts,
  is a list of steps; a wait that outlasts the list is still waiting.\<close>

primrec wait_for_event ::
  "('h, 'a) env \<Rightarrow> u64 \<Rightarrow> u64 \<Rightarrow> (('h, 'a) apic_state_scheme \<Rightarrow> ('h, 'a) apic_state_scheme result) list \<Rightarrow> ('h, 'a) world \<Rightarrow>
     (unit, 'h, 'a) outcome" where
  "wait_for_event E this_event event_type [] w = Inl Diverged"
| "wait_for_event E this_event event_type (other # others) w =
     run_bind (libc_poll E this_event w) (\<lambda>_ (c, s).
       if mem s this_event \<noteq> 0 \<and> rd64 (mem s) (this_event + 8) = event_type then Inr (Returns () (c, s))
       else res_bind (other s) (\<lambda>s. wait_for_event E this_event event_type others (c, s)))"

record shell_image =
  sh_banner :: u64
  sh_cwd_buffer :: u64
  sh_input_buffer :: u64
  sh_this_event :: u64
  sh_argvals :: u64
  sh_prompt :: u64
  sh_newline :: u64
  sh_failure :: u64
  sh_locals :: "nat \<Rightarrow> u64"

definition shell_round ::
  "('h, 'a) env \<Rightarrow> shell_image \<Rightarrow> (('h, 'a) apic_state_scheme \<Rightarrow> ('h, 'a) apic_state_scheme result) list \<Rightarrow> ('h, 'a) world \<Rightarrow>
     (unit, 'h, 'a) outcome" where
  "shell_round E I others w =
     run_bind (libc_getcwd E (sh_cwd_buffer I) 99 w) (\<lambda>_ w.
     run_bind (program_printf E (sh_locals I) (sh_prompt I) [sh_cwd_buffer I] w) (\<lambda>_ w.
     run_bind (libc_fgets E (sh_input_buffer I) 200 0 w) (\<lambda>_ w.
     run_bind (program_printf E (sh_locals I) (sh_newline I) [] w) (\<lambda>_ w.
     run_bind (libc_spawn E (sh_input_buffer I) (sh_argvals I) 3 w) (\<lambda>r w.
     let status = ucast r :: u32 in
     if status \<noteq> 0 then program_printf E (sh_locals I) (sh_failure I) [sh_input_buffer I, scast status] w
     else wait_for_event E (sh_this_event I) EVENT_TASK_EXITED others w)))))"

text \<open>The rounds of the endless loop, each with what the rest of the system does while it waits.\<close>

primrec shell_rounds ::
  "('h, 'a) env \<Rightarrow> shell_image \<Rightarrow> (('h, 'a) apic_state_scheme \<Rightarrow> ('h, 'a) apic_state_scheme result) list list \<Rightarrow> ('h, 'a) world \<Rightarrow>
     (unit, 'h, 'a) outcome" where
  "shell_rounds E I [] w = Inr (Returns () w)"
| "shell_rounds E I (others # rounds) w = run_bind (shell_round E I others w) (\<lambda>_ w. shell_rounds E I rounds w)"

definition shell_main ::
  "('h, 'a) env \<Rightarrow> shell_image \<Rightarrow> (('h, 'a) apic_state_scheme \<Rightarrow> ('h, 'a) apic_state_scheme result) list list \<Rightarrow> u64 \<Rightarrow> u64 \<Rightarrow> ('h, 'a) world \<Rightarrow>
     (unit, 'h, 'a) outcome" where
  "shell_main E I rounds rdi rsi w = run_bind (libc_fputs E (sh_banner I) 1 w) (\<lambda>_ w. shell_rounds E I rounds w)"

section \<open>A call and its return\<close>

lemma run_bind_simps [simp]:
  "run_bind (Inl e) f = Inl e" "run_bind (Inr (Returns v w)) f = f v w" "run_bind (Inr (Ends x)) f = Inr (Ends x)"
  by (simp_all add: run_bind_def)

lemma run_bind_assoc: "run_bind (run_bind r f) g = run_bind r (\<lambda>v w. run_bind (f v w) g)"
  by (simp add: run_bind_def res_bind_def split: sum.split run.split)

text \<open>A processor that runs a program whose kernel stack has room for the gate.\<close>

definition in_program :: "('h, 'a) env \<Rightarrow> cpu \<Rightarrow> bool" where
  "in_program E c \<longleftrightarrow> user_mode c \<and> 160 \<le> kernel_stack E AND NOT 0xF"

lemma in_program_entry: "in_program E c \<Longrightarrow> 160 \<le> entry_sp (kernel_stack E) c"
  by (simp add: in_program_def entry_sp_def)

text \<open>What a program sees of a call: the number of registers that the stub sets and \<open>rax\<close> have changed.\<close>

definition args_regs :: "u64 list \<Rightarrow> cpu \<Rightarrow> reg \<Rightarrow> u64" where
  "args_regs as c = gpr (syscall_args 0 as c)"

definition same_place :: "cpu \<Rightarrow> cpu \<Rightarrow> bool" where
  "same_place c c' \<longleftrightarrow> c_rip c' = c_rip c \<and> c_cs c' = c_cs c \<and> c_rflags c' = c_rflags c \<and> c_rsp c' = c_rsp c \<and>
     c_ss c' = c_ss c \<and> c_cr3 c' = c_cr3 c"

lemma same_place_trans: "same_place a b \<Longrightarrow> same_place b c \<Longrightarrow> same_place a c"
  by (simp add: same_place_def)

lemma same_place_in_program: "same_place c c' \<Longrightarrow> in_program E c' = in_program E c"
  by (simp add: same_place_def in_program_def user_mode_def)

lemma mov_args:
  "c_rip (fold (\<lambda>(r, a). mov r a) rs c) = c_rip c" "c_cs (fold (\<lambda>(r, a). mov r a) rs c) = c_cs c"
  "c_rflags (fold (\<lambda>(r, a). mov r a) rs c) = c_rflags c" "c_rsp (fold (\<lambda>(r, a). mov r a) rs c) = c_rsp c"
  "c_ss (fold (\<lambda>(r, a). mov r a) rs c) = c_ss c" "c_cr3 (fold (\<lambda>(r, a). mov r a) rs c) = c_cr3 c"
  "r \<notin> fst ` set rs \<Longrightarrow> gpr (fold (\<lambda>(r, a). mov r a) rs c) r = gpr c r"
  by (induction rs arbitrary: c) (simp_all add: split_beta)

lemma args_place: "same_place c (syscall_args n as c)"
  unfolding same_place_def syscall_args_def mov_args by simp

lemma args_rax: "gpr (syscall_args n as c) RAX = n"
proof -
  have "RAX \<notin> fst ` set (zip [RDI, RSI, RDX, R10, R8, R9] as)"
  proof
    assume "RAX \<in> fst ` set (zip [RDI, RSI, RDX, R10, R8, R9] as)"
    then obtain a where "(RAX, a) \<in> set (zip [RDI, RSI, RDX, R10, R8, R9] as)" unfolding image_iff by (metis prod.collapse)
    then have "RAX \<in> set [RDI, RSI, RDX, R10, R8, R9]" by (rule set_zip_leftD)
    then show False by simp
  qed
  from mov_args(7)[OF this] show ?thesis unfolding syscall_args_def by simp
qed

lemma call_stub_returns:
  assumes p: "in_program E c"
    and call: "call_syscall (hardware E) (layout E) (device_fns E) (syscall_function n) (gpr (syscall_args (syscall_number n) as c))
      (disable_interrupts (hardware E) s) = Inr (Exit_returns, v, s')"
  shows "\<exists>c' junk. call_stub E n as (c, s) = Inr (Returns (rax_after v junk) (c', s')) \<and> same_place c c'"
proof -
  let ?c = "syscall_args (syscall_number n) as c"
  have e: "160 \<le> entry_sp (kernel_stack E) ?c"
    using p in_program_entry same_place_in_program[OF args_place] by blast
  obtain c' junk where r: "syscall_isr (effects E) (hardware E) (layout E) (device_fns E) (interrupt (kernel_stack E) (gate E) ?c, s) =
      Inr (Resumes (c', s'))" "gpr c' = (gpr ?c)(RAX := rax_after v junk)" "same_place ?c c'"
    using isr_resumes[OF args_rax e call, of "effects E" "gate E"] by (auto simp: same_place_def)
  then have "call_stub E n as (c, s) = Inr (Returns (rax_after v junk) (c', s'))"
    by (simp add: call_stub_def int80_def run_bind_def)
  then show ?thesis using same_place_trans[OF args_place r(3)] by blast
qed

lemma call_stub_error:
  assumes "call_syscall (hardware E) (layout E) (device_fns E) (syscall_function n) (gpr (syscall_args (syscall_number n) as c))
      (disable_interrupts (hardware E) s) = Inl e"
  shows "call_stub E n as (c, s) = Inl e"
proof -
  let ?i = "interrupt (kernel_stack E) (gate E) (syscall_args (syscall_number n) as c)"
  have "gpr (push_regs syscall_saved ?i) = gpr (syscall_args (syscall_number n) as c)" by (simp add: push_regs_pushes)
  then show ?thesis
    using assms syscall_numbers[of n] by (simp add: call_stub_def int80_def run_bind_def syscall_isr_def args_rax Let_def)
qed

lemma rax_after_32: "ucast (rax_after (Ret32 v) junk) = v"
  by (rule bit_word_eqI) (simp add: bit_ucast_iff bit_or_iff bit_push_bit_iff)

section \<open>Text on the standard output\<close>

text \<open>The screen, when it is used, stands well and shares no byte with the bitmaps of the page allocator.\<close>

definition terminal_ready :: "'a vfs_state_scheme \<Rightarrow> bool" where
  "terminal_ready s \<longleftrightarrow> \<not> serial_held s \<and> (font_loaded s \<longrightarrow> screen_inv s \<and> (\<forall>ch. font_apart s ch) \<and>
     (\<forall>e \<in> set (memmap s). \<forall>x. usable e \<and> x - bitmap_at s e < 4096 \<longrightarrow> off_screen s x \<and> \<not> front s x))"

text \<open>The bytes of programs: neither memory that the kernel allocates nor the screen's buffers.\<close>

definition user_safe :: "'a vfs_state_scheme \<Rightarrow> u64 \<Rightarrow> bool" where
  "user_safe s x \<longleftrightarrow> \<not> kernel_byte s x \<and> (font_loaded s \<longrightarrow> off_screen s x \<and> \<not> front s x)"

definition user_same :: "'a vfs_state_scheme \<Rightarrow> 'a vfs_state_scheme \<Rightarrow> bool" where
  "user_same s s' \<longleftrightarrow> user_safe s' = user_safe s \<and> (\<forall>x. user_safe s x \<longrightarrow> mem s' x = mem s x)"

lemma user_safe_cong:
  "memmap s' = memmap s \<Longrightarrow> hhdm s' = hhdm s \<Longrightarrow> font_loaded s' = font_loaded s \<Longrightarrow> off_screen s' = off_screen s \<Longrightarrow> front s' = front s \<Longrightarrow>
     user_safe s' = user_safe s"
  by (simp add: user_safe_def kernel_byte_def fun_eq_iff)

lemma user_same_trans: "user_same s s' \<Longrightarrow> user_same s' s'' \<Longrightarrow> user_same s s''"
  by (simp add: user_same_def)

lemma written_chars_kept:
  assumes "screen_inv s" "\<forall>ch. font_apart s ch"
  shows "screen_inv (fold (\<lambda>ch. write_char (of_char ch)) t s) \<and> screen_kept s (fold (\<lambda>ch. write_char (of_char ch)) t s)"
  using assms
proof (induction t arbitrary: s)
  case Nil
  have "screen_kept s (s\<lparr>mem := mem s, ch_X := ch_X s, ch_Y := ch_Y s\<rparr>)" by (rule screen_kept_mem) simp
  then show ?case using Nil by simp
next
  case (Cons c t)
  have f: "font_apart s (of_char c)" using Cons.prems(2) by blast
  note W = write_char_ok[OF Cons.prems(1) f]
  obtain m x y where "write_char (of_char c) s = s\<lparr>mem := m, ch_X := x, ch_Y := y\<rparr>" using W(2) by (auto simp: screen_kept_def)
  then have "\<forall>ch. font_apart (write_char (of_char c) s) ch" using Cons.prems(2) by simp
  from Cons.IH[OF W(1) this] show ?case using screen_kept_trans[OF W(2)] by auto
qed

lemma console_keeps:
  assumes r: "terminal_ready s" "render True fmt args = Some t" "NUL \<notin> set fmt"
  shows "\<exists>s'. console_printf (fmt @ [NUL]) args s = Inr s' \<and> Keyboard.printed s s' \<and> serial_text s' = serial_text s @ map of_char t \<and>
    (font_loaded s \<longrightarrow> screen_inv s') \<and>
    (\<forall>a. (font_loaded s \<longrightarrow> off_screen s a \<and> \<not> front s a) \<longrightarrow> mem s' a = mem s a)"
proof -
  have held: "\<not> serial_held s" using r(1) by (simp add: terminal_ready_def)
  obtain s' where s': "console_printf (fmt @ [NUL]) args s = Inr s'" "Keyboard.printed s s'" "serial_text s' = serial_text s @ map of_char t"
    using console_renders[OF held r(2,3)] by blast
  let ?c = "\<lparr>serial_out = [], screen_out = [], font_avaliable = font_loaded s, serial_lock = False\<rparr>"
  let ?s1 = "s\<lparr>serial_text := serial_text s @ map of_char t\<rparr>"
  have "printf (fmt @ [NUL]) args ?c = Inr (put_text t ?c)" by (rule printf_prints[OF r(2,3)]) simp
  then have c: "console_printf (fmt @ [NUL]) args s =
      Inr ((let u = fold (\<lambda>ch. write_char (of_char ch)) (if font_loaded s then t else []) ?s1
            in if font_loaded u then swap_framebuffers u else u)\<lparr>serial_held := False\<rparr>)"
    using held by (simp add: console_printf_def put_text_def Let_def)
  show ?thesis
  proof (cases "font_loaded s")
    case False
    then have "mem s' = mem s" using c s'(1) by (simp add: Let_def)
    then show ?thesis using s' False by auto
  next
    case True
    let ?u = "fold (\<lambda>ch. write_char (of_char ch)) t ?s1"
    have cong: "screen_inv ?s1 = screen_inv s" "font_apart ?s1 = font_apart s" "off_screen ?s1 = off_screen s" "front ?s1 = front s"
      by (simp_all add: screen_inv_def geom_def font_apart_def off_screen_def front_def fun_eq_iff)
    have K: "screen_inv ?u" "screen_kept ?s1 ?u" using written_chars_kept[of ?s1 t] r(1) True by (simp_all add: terminal_ready_def cong)
    obtain m x y where u: "?u = ?s1\<lparr>mem := m, ch_X := x, ch_Y := y\<rparr>" using K(2) by (auto simp: screen_kept_def)
    have e: "s' = (swap_framebuffers ?u)\<lparr>serial_held := False\<rparr>" using c s'(1) True by (simp add: Let_def u)
    have "mem s' a = mem s a" if "off_screen s a \<and> \<not> front s a" for a
    proof -
      have fr: "front ?u = front s" by (simp add: u cong(4))
      have "mem s' a = mem (swap_framebuffers ?u) a" by (simp add: e)
      also have "\<dots> = mem ?u a" using that fr by (intro swap_mem) simp
      also have "\<dots> = mem ?s1 a" using K(2) that unfolding screen_kept_def cong by blast
      finally show ?thesis by simp
    qed
    moreover have "screen_inv s'"
    proof -
      obtain m' where "swap_framebuffers ?u = ?u\<lparr>mem := m'\<rparr>" by (simp add: swap_framebuffers_def)
      then show ?thesis using K(1) unfolding e by (simp add: screen_inv_def geom_def u)
    qed
    ultimately show ?thesis using s' True by blast
  qed
qed

text \<open>Printing leaves the heap alone.\<close>

lemma console_heap:
  assumes "heap_inv s" "terminal_ready s" "render True fmt args = Some t" "NUL \<notin> set fmt"
  shows "\<exists>s'. console_printf (fmt @ [NUL]) args s = Inr s' \<and> Keyboard.printed s s' \<and> serial_text s' = serial_text s @ map of_char t \<and>
    heap_inv s' \<and> live s' = live s \<and> terminal_ready s' \<and> user_same s s' \<and> (\<forall>k. roomy k s' = roomy k s)"
proof -
  obtain s' where s': "console_printf (fmt @ [NUL]) args s = Inr s'" "Keyboard.printed s s'" "serial_text s' = serial_text s @ map of_char t"
    "font_loaded s \<longrightarrow> screen_inv s'" "\<forall>a. (font_loaded s \<longrightarrow> off_screen s a \<and> \<not> front s a) \<longrightarrow> mem s' a = mem s a"
    using console_keeps[OF assms(2-4)] by blast
  obtain m x y u where p: "s' = s\<lparr>mem := m, ch_X := x, ch_Y := y, serial_text := u\<rparr>" using s'(2) by (auto simp: Keyboard.printed_def)
  have "m x = mem s x" if "e \<in> set (memmap s)" "usable e" "x - bitmap_at s e < 4096" for e x
    using s'(5) that assms(2) unfolding terminal_ready_def by (auto simp: p)
  note H = heap_mem[OF heap_inv_wf[OF assms(1)] this]
  have "live s' = live (s\<lparr>mem := m\<rparr>)" "heap_inv s' = heap_inv (s\<lparr>mem := m\<rparr>)" "roomy k s' = roomy k (s\<lparr>mem := m\<rparr>)" for k
    by (rule heap_cong, simp add: p kheap_state.defs)+
  then have "heap_inv s'" "live s' = live s" "\<forall>k. roomy k s' = roomy k s" using H assms(1) by simp_all
  moreover have "terminal_ready s'"
  proof -
    have "font_apart s' = font_apart s" "off_screen s' = off_screen s" "front s' = front s" "memmap s' = memmap s" "hhdm s' = hhdm s"
      "serial_held s' = serial_held s" "font_loaded s' = font_loaded s"
      by (simp_all add: p font_apart_def off_screen_def front_def fun_eq_iff)
    then show ?thesis using assms(2) s'(4) unfolding terminal_ready_def by auto
  qed
  moreover have "user_same s s'"
  proof -
    have "user_safe s' = user_safe s" by (rule user_safe_cong) (simp_all add: p off_screen_def front_def fun_eq_iff)
    then show ?thesis using s'(5) by (simp add: user_same_def user_safe_def)
  qed
  ultimately show ?thesis using s'(1-3) by blast
qed

lemma render_plain: "CHR ''%'' \<notin> set t \<Longrightarrow> render bin t args = Some t"
  by (induction bin t args rule: render.induct) auto

lemma mem_string_NUL: "mem_string fuel m a = Inr t \<Longrightarrow> NUL \<notin> set t"
proof (induction fuel m a arbitrary: t rule: mem_string.induct)
  case (1 fuel m a)
  have "char_of (unat (m a)) \<noteq> NUL" if "m a \<noteq> 0"
  proof
    assume "char_of (unat (m a)) = NUL"
    then have "of_char (char_of (unat (m a)) :: char) = (0 :: nat)" by simp
    then have "unat (m a) mod 256 = 0" by simp
    moreover have "unat (m a) < 256" using unsigned_less[of "m a", where ?'a = nat] by simp
    ultimately show False using that by (simp add: unat_eq_zero)
  qed
  then show ?case
    using "1.prems" "1.IH" by (subst (asm) mem_string.simps) (auto simp: res_bind_Inr_iff split: if_splits)
qed

text \<open>A descriptor of a task that leads to the standard output.\<close>

definition stdout_open :: "'a vfs_state_scheme \<Rightarrow> u64 \<Rightarrow> u64 \<Rightarrow> u64 \<Rightarrow> bool" where
  "stdout_open s t fd i \<longleftrightarrow> (\<exists>f root. resource_of t fd s = Inr f \<and> f \<noteq> 0 \<and>
     (let x = files s f in f_present x \<and> f_mode x = MODE_READWRITE \<and> ftype x = FTYPE_STDOUT \<and> f_private x = i \<and>
        tempfs_drive s (drive_char x) root))"

lemma printed_file:
  assumes "Keyboard.printed s s'" "live s' = live s"
  shows "file_nodes s' i ns = file_nodes s i ns" "fresh_zero s' = fresh_zero s" "kernel_byte s' = kernel_byte s"
    "files s' = files s" "drives s' = drives s"
  using assms by (auto simp: Keyboard.printed_def file_nodes_def node_list_def fresh_zero_def kernel_byte_def fun_eq_iff)

lemma write_room_mono: "L \<le> N \<Longrightarrow> write_room L m \<le> write_room N 0"
proof -
  assume "L \<le> N"
  then have "(L + 4087) div 4088 \<le> (N + 4087) div 4088" by (simp add: div_le_mono)
  then show ?thesis by (simp add: write_room_def)
qed

lemma stdout_write:
  assumes inv: "heap_inv s" and cur: "get_current_task s = Inr (k, s)" and o: "stdout_open s k fd i" and n: "file_nodes s i ns" "ns = [] \<longrightarrow> fresh_zero s"
    and len: "unat len < 2 ^ 62" "user_bytes s data (unat len)" and ready: "terminal_ready s"
    and t: "mem_string walk_fuel (mem s) data = Inr t" "CHR ''%'' \<notin> set t" and room: "roomy (write_room (unat len) 0 + r) s"
  shows "\<exists>s1 s'. syscall_write D fd data len s = Inr (0, s') \<and> Keyboard.printed s s1 \<and> heap_inv s1 \<and> live s1 = live s \<and> terminal_ready s1 \<and>
       serial_text s1 = serial_text s @ map of_char t \<and> user_same s s1 \<and> written i data len ns s1 s' \<and> roomy r s'"
proof -
  obtain f root where f: "resource_of k fd s = Inr f" "f \<noteq> 0"
    and x: "f_present (files s f)" "f_mode (files s f) = MODE_READWRITE" "ftype (files s f) = FTYPE_STDOUT" "f_private (files s f) = i"
    and d: "tempfs_drive s (drive_char (files s f)) root"
    using o by (auto simp: stdout_open_def Let_def)
  have rt: "render True t [] = Some t" by (rule render_plain[OF t(2)])
  obtain s1 where s1: "console_printf (t @ [NUL]) [] s = Inr s1" "Keyboard.printed s s1"
    "serial_text s1 = serial_text s @ map of_char t" "heap_inv s1" "live s1 = live s" "terminal_ready s1" "user_same s s1"
    "\<forall>k. roomy k s1 = roomy k s"
    using console_heap[OF inv ready rt mem_string_NUL[OF t(1)]] by blast
  note F = printed_file[OF s1(2,5)]
  have "tempfs_drive s1 (drive_char (files s f)) root" using d by (simp add: tempfs_drive_def F(5))
  then have "drive_at (drive_char (files s f)) s1 = Inr (drives s1 ! (code (drive_char (files s f)) - 65))"
    and "fs (drives s1 ! (code (drive_char (files s f)) - 65)) = TempFS_functions"
    by (auto intro: drive_at_letter simp: tempfs_drive_def Let_def)
  then have "vfs_write D f data len s = tempfs_write D i data len s1"
    using f x t(1) s1(1) by (simp add: vfs_write_def get_file_def MODE_READWRITE_def MODE_READONLY_def fs_call_def)
  then have w: "syscall_write D fd data len s =
      res_bind (tempfs_write D i data len s1) (\<lambda>(st, s). if st \<noteq> 0 then Inr (st, s) else Inr (0, s))"
    using cur f x(1) by (simp add: syscall_write_def get_file_def cong: res_bind_cong)
  have "file_nodes s1 i ns" "ns = [] \<Longrightarrow> fresh_zero s1" "user_bytes s1 data (unat len)"
    using n len(2) by (simp_all add: F user_bytes_def)
  note W = tempfs_write_written[OF s1(4) this(1,2) len(1) this(3), of D]
  have m: "roomy (write_room (unat len) (length ns) + r) s1"
    using roomy_mono[OF room add_right_mono[OF write_room_mono]] s1(8) by simp
  then have "roomy (write_room (unat len) (length ns)) s1" by (rule roomy_mono) simp
  then obtain s' where "tempfs_write D i data len s1 = Inr (0, s')" "written i data len ns s1 s'" "roomy r s'"
    using W m by blast
  then show ?thesis using w s1(2-7) by auto
qed

text \<open>What stays the same for the scheduler and the event queues: files grow by pages of 4096 bytes, and everything else
  that is allocated keeps its block.\<close>

definition quiet :: "'a tasks_state_scheme \<Rightarrow> 'a tasks_state_scheme \<Rightarrow> bool" where
  "quiet s s' \<longleftrightarrow> heap_inv s' \<and> (\<forall>b n. live s b = Some n \<and> n \<noteq> 4096 \<longrightarrow> live s' b = Some n) \<and> vecs s' = vecs s \<and> vnodes s' = vnodes s \<and>
     events s' = events s \<and> tasks s' = tasks s \<and> tasklist_list s' = tasklist_list s \<and> current_tasks s' = current_tasks s \<and>
     locks s' = locks s \<and> lapic_id s' = lapic_id s"

lemma quiet_vec_rep: "quiet s s' \<Longrightarrow> vec_rep s v ns xs \<Longrightarrow> vec_rep s' v ns xs"
  by (simp add: quiet_def vec_rep_def)

lemma quiet_sched: "quiet s s' \<Longrightarrow> sched_rep s xs i \<Longrightarrow> sched_rep s' xs i"
proof -
  assume q: "quiet s s'"
  then have "tasklist_list s' = tasklist_list s" "current_tasks s' = current_tasks s" "cpu_of s' = cpu_of s"
    by (simp_all add: quiet_def cpu_of_def)
  then show "sched_rep s xs i \<Longrightarrow> sched_rep s' xs i"
    unfolding sched_rep_def using quiet_vec_rep[OF q] by metis
qed

lemma quiet_queue: "quiet s s' \<Longrightarrow> queue_holds s q evs \<Longrightarrow> queue_holds s' q evs"
proof -
  assume q: "quiet s s'"
  then have "heap_inv s'" "events s' = events s" "live s a = Some 32 \<Longrightarrow> live s' a = Some 32" for a by (simp_all add: quiet_def)
  then show "queue_holds s q evs \<Longrightarrow> queue_holds s' q evs"
    using quiet_vec_rep[OF q] unfolding queue_holds_def queue_addrs_def vec_holds_def by metis
qed

lemma quiet_unlocked: "quiet s s' \<Longrightarrow> unlocked s' = unlocked s"
  by (simp add: quiet_def unlocked_def)

lemma quiet_trans: "quiet s s' \<Longrightarrow> quiet s' s'' \<Longrightarrow> quiet s s''"
  by (simp add: quiet_def)

lemma quiet_hw: "heap_inv s \<Longrightarrow> quiet s (s\<lparr>hw := g\<rparr>)"
  by (simp add: quiet_def frame_simps)

lemma output_quiet:
  assumes p: "Keyboard.printed s s1" "heap_inv s1" "live s1 = live s" and n: "file_nodes s i ns" and w: "written i data len ns s1 s'"
  shows "quiet s s'" "serial_text s' = serial_text s1" "user_same s s1 \<Longrightarrow> user_same s s'"
proof -
  obtain m x y u where s1: "s1 = s\<lparr>mem := m, ch_X := x, ch_Y := y, serial_text := u\<rparr>" using p(1) by (auto simp: Keyboard.printed_def)
  obtain m' t' q' f' p' where s': "s' = s1\<lparr>mem := m', total_memory_allocated := t', pools := q', fnode_next := f',
        inodes := (inodes s1)(i := (inodes s1 i)\<lparr>i_length := len, i_first := p'\<rparr>)\<rparr>"
    using w unfolding written_def by (elim conjE exE) (rule that)
  have l: "live s' b = Some n" if "live s b = Some n" "n \<noteq> 4096" for b n
  proof -
    have "b \<notin> set ns" using n that by (auto simp: file_nodes_def node_list_def)
    then show ?thesis using w that(1) p(3) by (simp add: written_def)
  qed
  have "heap_inv s'" using w by (simp add: written_def)
  then show "quiet s s'" using l unfolding quiet_def by (simp add: s' s1)
  show "serial_text s' = serial_text s1" by (simp add: s')
  have "user_safe s' = user_safe s1" by (rule user_safe_cong) (simp_all add: s' off_screen_def front_def fun_eq_iff)
  moreover have "mem s' x = mem s1 x" if "user_safe s1 x" for x using w that by (simp add: written_def user_safe_def)
  ultimately have "user_same s1 s'" by (simp add: user_same_def)
  then show "user_same s s1 \<Longrightarrow> user_same s s'" by (rule user_same_trans[rotated])
qed

section \<open>The greeting program\<close>

text \<open>The frame of a call: registers of the three-argument stub.\<close>

lemma args3: "gpr (syscall_args n [a1, a2, a3] c) RDI = a1" "gpr (syscall_args n [a1, a2, a3] c) RSI = a2"
    "gpr (syscall_args n [a1, a2, a3] c) RDX = a3" "gpr (syscall_args n [a1, a2] c) RDI = a1" "gpr (syscall_args n [a1, a2] c) RSI = a2"
    "gpr (syscall_args n [a1] c) RDI = a1"
  by (simp_all add: syscall_args_def)


text \<open>A task can print: its descriptor 1 leads to a well-formed file for the standard output.\<close>

definition io_ready :: "'a vfs_state_scheme \<Rightarrow> u64 \<Rightarrow> bool" where
  "io_ready s t \<longleftrightarrow> heap_inv s \<and> terminal_ready s \<and>
     (\<exists>i ns. stdout_open s t 1 i \<and> file_nodes s i ns \<and> (ns = [] \<longrightarrow> fresh_zero s))"

lemma terminal_ready_cong:
  assumes "serial_held s' = serial_held s" "font_loaded s' = font_loaded s" "memmap s' = memmap s" "hhdm s' = hhdm s"
    "screen_inv s' = screen_inv s" "font_apart s' = font_apart s" "off_screen s' = off_screen s" "front s' = front s"
  shows "terminal_ready s' = terminal_ready s"
  unfolding terminal_ready_def assms by (rule refl)

lemma output_ready:
  assumes "Keyboard.printed s s1" "live s1 = live s" "terminal_ready s1" "stdout_open s t 1 i"
    and n: "file_nodes s i ns" and w: "written i data len ns s1 s'"
  shows "io_ready s' t"
proof -
  obtain m x y u where s1: "s1 = s\<lparr>mem := m, ch_X := x, ch_Y := y, serial_text := u\<rparr>" using assms(1) by (auto simp: Keyboard.printed_def)
  obtain m' t' q' f' p' where s': "s' = s1\<lparr>mem := m', total_memory_allocated := t', pools := q', fnode_next := f',
        inodes := (inodes s1)(i := (inodes s1 i)\<lparr>i_length := len, i_first := p'\<rparr>)\<rparr>"
    using w unfolding written_def by (elim conjE exE) (rule that)
  obtain ns' where ns': "node_list s' (i_first (inodes s' i)) ns'" "unat len < 4088 * length ns'" "heap_inv s'"
    using w unfolding written_def by blast
  have "terminal_ready s' = terminal_ready s1"
    by (rule terminal_ready_cong) (simp_all add: s' screen_inv_def geom_def font_apart_def off_screen_def front_def fun_eq_iff)
  moreover have "stdout_open s' t 1 i = stdout_open s t 1 i"
    by (simp add: stdout_open_def resource_of_def get_Task_def tempfs_drive_def Let_def s' s1)
  moreover have "file_nodes s' i ns'" using n ns'(1) by (simp add: file_nodes_def s' s1)
  moreover have "ns' \<noteq> []" using ns'(2) by auto
  ultimately show ?thesis using ns'(3) assms(3,4) unfolding io_ready_def by blast
qed

lemma io_ready_hw: "io_ready (s\<lparr>hw := g\<rparr>) t = io_ready s t"
proof -
  have "terminal_ready (s\<lparr>hw := g\<rparr>) = terminal_ready s"
    by (rule terminal_ready_cong) (simp_all add: screen_inv_def geom_def font_apart_def off_screen_def front_def fun_eq_iff)
  moreover have "stdout_open (s\<lparr>hw := g\<rparr>) t 1 i = stdout_open s t 1 i" for i
    by (simp add: stdout_open_def resource_of_def get_Task_def tempfs_drive_def Let_def)
  moreover have "live (s\<lparr>hw := g\<rparr>) = live s" "heap_inv (s\<lparr>hw := g\<rparr>) = heap_inv s" by (simp_all add: frame_simps)
  ultimately show ?thesis by (simp add: io_ready_def file_nodes_def node_list_def fresh_zero_def)
qed

text \<open>\<open>fputs\<close> on the standard output, from the program down to the serial port and back.\<close>

lemma fputs_prints:
  assumes c: "in_program E c" and ok: "sched_rep s xs i" "unlocked s" and io: "io_ready s (xs ! i)"
    and t: "mem_string walk_fuel (mem s) str = Inr t" "CHR ''%'' \<notin> set t" "length t < 2 ^ 62" "user_bytes s str (length t)"
    and room: "roomy (write_room (length t) 0 + r) s"
  shows "\<exists>c' s'. libc_fputs E str 1 (c, s) = Inr (Returns 0 (c', s')) \<and> same_place c c' \<and> quiet s s' \<and> io_ready s' (xs ! i) \<and>
       user_same s s' \<and> serial_text s' = serial_text s @ map of_char t \<and> roomy r s'"
proof -
  obtain g where g: "disable_interrupts (hardware E) s = s\<lparr>hw := g\<rparr>" by (rule exE[OF hw_changes(1)])
  let ?s = "s\<lparr>hw := g\<rparr>" and ?n = "of_nat (length t) :: u64"
  have ok': "sched_rep ?s xs i" and un: "\<not> locks ?s l" for l using ok by (simp_all add: frame_simps unlocked_def)
  note C = sched_current[OF ok']
  have cur: "get_current_task ?s = Inr (xs ! i, ?s)" using get_current_task_free[OF un un] C(1,2) by simp
  have n: "unat ?n = length t" using t(3) by (intro unat_of_nat_u64) simp
  have "io_ready ?s (xs ! i)" using io by (simp add: io_ready_hw)
  then obtain j ns where f: "heap_inv ?s" "terminal_ready ?s" "stdout_open ?s (xs ! i) 1 j" "file_nodes ?s j ns" and z: "ns = [] \<longrightarrow> fresh_zero ?s"
    by (auto simp: io_ready_def)
  have b: "unat ?n < 2 ^ 62" "user_bytes ?s str (unat ?n)" "mem_string walk_fuel (mem ?s) str = Inr t"
    using t n by (simp_all add: user_bytes_def kernel_byte_def)
  let ?call = "call_syscall (hardware E) (layout E) (device_fns E) (syscall_function SYS_WRITE)
      (gpr (syscall_args (syscall_number SYS_WRITE) [1, str, ?n] c)) (disable_interrupts (hardware E) s)"
  have call: "?call = returning Ret32 (syscall_write (device_fns E) 1 str ?n ?s)"
    unfolding call_syscall_def by (simp only: args3 g) simp
  have fp: "libc_fputs E str 1 (c, s) = run_bind (call_stub E SYS_WRITE [1, str, ?n] (c, s)) (\<lambda>v w. Inr (Returns (ucast v) w))"
    by (simp add: libc_fputs_def libc_strlen_def t(1) libc_write_def syscall3_def)
  have rm: "roomy (write_room (unat ?n) 0 + r) ?s" using room by (simp add: n frame_simps)
  obtain s1 s' where w: "syscall_write (device_fns E) 1 str ?n ?s = Inr (0, s')" and p: "Keyboard.printed ?s s1" "heap_inv s1" "live s1 = live ?s"
    "terminal_ready s1" "serial_text s1 = serial_text ?s @ map of_char t" "user_same ?s s1" and wr: "written j str ?n ns s1 s'" and rs: "roomy r s'"
    using stdout_write[OF f(1) cur f(3,4) z b(1,2) f(2) b(3) t(2) rm, of "device_fns E"] by blast
  have "?call = Inr (Exit_returns, Ret32 0, s')" by (subst call) (simp add: returning_def w)
  from call_stub_returns[OF c this] obtain c' junk where st: "call_stub E SYS_WRITE [1, str, ?n] (c, s) = Inr (Returns (rax_after (Ret32 0) junk) (c', s'))"
    "same_place c c'" by blast
  have "libc_fputs E str 1 (c, s) = Inr (Returns 0 (c', s'))" by (simp only: fp st(1) run_bind_def) (simp add: rax_after_32 del: rax_after.simps)
  moreover have "quiet s s'"
  proof -
    have "heap_inv s" using io by (simp add: io_ready_def)
    from quiet_trans[OF quiet_hw[OF this] output_quiet(1)[OF p(1-3) f(4) wr]] show ?thesis .
  qed
  moreover have "serial_text s' = serial_text s @ map of_char t" using output_quiet(2)[OF p(1-3) f(4) wr] p(5) by simp
  moreover have "user_same s s'"
  proof -
    have "user_safe ?s = user_safe s" by (rule user_safe_cong) (simp_all add: off_screen_def front_def fun_eq_iff)
    then have "user_same s ?s" by (simp add: user_same_def)
    then show ?thesis using output_quiet(3)[OF p(1-3) f(4) wr p(6)] by (rule user_same_trans)
  qed
  ultimately show ?thesis using st(2) output_ready[OF p(1,3,4) f(3,4) wr] rs by blast
qed

lemma int80_exit:
  assumes n: "gpr c RAX = syscall_number SYS_EXIT" and ok: "sched_rep s xs i" "unlocked s" "2 \<le> length xs" "roomy (110 + k) s"
    and user: "is_user (tasks s (xs ! i))" "p = parent (tasks s (xs ! i))" "p \<noteq> 0"
    and q: "queue_holds s (event_queue (tasks s p)) evs" "queue (event_queue (tasks s p)) \<noteq> tasklist_list s"
  shows "\<exists>c' s'. int80 E (c, s) = Inr (Ends (Waits (c', s'))) \<and> tasks s' = (tasks s)(xs ! i := end_flags (tasks s (xs ! i))) \<and>
       serial_text s' = serial_text s \<and> queue_holds s' (event_queue (tasks s p)) (evs @ [exit_event i (gpr c RDI)])"
proof -
  let ?M = "hardware E"
  obtain g where g: "disable_interrupts ?M s = s\<lparr>hw := g\<rparr>" by (rule exE[OF hw_changes(1)])
  have qs: "quiet s (s\<lparr>hw := g\<rparr>)" by (rule quiet_hw[OF roomy_inv[OF ok(4)]])
  have room: "roomy (110 + k) (s\<lparr>hw := g\<rparr>)" and un: "unlocked (s\<lparr>hw := g\<rparr>)" using ok by (simp_all add: frame_simps)
  have "tasks (s\<lparr>hw := g\<rparr>) = tasks s" "tasklist_list (s\<lparr>hw := g\<rparr>) = tasklist_list s"
    "serial_text (s\<lparr>hw := g\<rparr>) = serial_text s" by simp_all
  note x = exit_on_user[of "s\<lparr>hw := g\<rparr>" xs i k p evs ?M "gpr c RDI", unfolded this, OF quiet_sched[OF qs ok(1)] un ok(3) room user
      quiet_queue[OF qs q(1)] q(2)]
  let ?i = "interrupt (kernel_stack E) (gate E) c"
  have "gpr (push_regs syscall_saved ?i) = gpr c" by (simp add: push_regs_pushes)
  then have "syscall_isr (effects E) ?M (layout E) (device_fns E) (?i, s) =
      res_bind (exit_on ?M (gpr c RDI) (s\<lparr>hw := g\<rparr>)) (\<lambda>(e, s).
        let d = c_call (effects E) ''syscall_exit'' Void (push_regs syscall_saved ?i) in
        Inr (case e of Exit_returns \<Rightarrow> Resumes (iretq (pop_regs (rev syscall_saved) d), s)
              | Exit_waits \<Rightarrow> Waits (d, s) | Exit_all_ended \<Rightarrow> All_ended (d, s)))"
    using syscall_numbers[of SYS_EXIT] n
    by (cases "exit_on ?M (gpr c RDI) (s\<lparr>hw := g\<rparr>)")
      (simp_all add: syscall_isr_def call_syscall_def g Let_def split: prod.split exit_outcome.split)
  then show ?thesis using x by (auto simp: int80_def Let_def)
qed

section \<open>Waiting for an event\<close>

definition event_at :: "memory \<Rightarrow> u64 \<Rightarrow> Event" where
  "event_at m a = \<lparr>do_handle = m a \<noteq> 0, event_id = rd64 m (a + 8), event_data0 = rd64 m (a + 16), event_data1 = rd64 m (a + 24)\<rparr>"

lemma put_event_at: "event_at (mem (put_event a e s)) a = e"
proof -
  have d: "a + 8 - (a + 16) = (-8 :: u64)" "a + 8 - (a + 24) = (-16 :: u64)" "a + 16 - (a + 24) = (-8 :: u64)"
    "a + 16 - (a + 8) = (8 :: u64)" "a + 24 - (a + 8) = (16 :: u64)" "a + 24 - (a + 16) = (8 :: u64)" by simp_all
  have b: "a - (a + 8) = (-8 :: u64)" "a - (a + 16) = (-16 :: u64)" "a - (a + 24) = (-24 :: u64)" by simp_all
  show ?thesis
    by (cases e) (simp add: event_at_def put_event_def Let_def rd64_wr64_apart d wr64_def[of _ _ _, THEN fun_cong] b store_def)
qed

lemma put_event_outside: "32 \<le> unat (x - a) \<Longrightarrow> mem (put_event a e s) x = mem s x"
proof -
  assume k: "32 \<le> unat (x - a)"
  have "\<not> x - (a + c) < 8" if "c \<le> 24" for c
  proof -
    have "c \<le> x - a" "unat c \<le> 24" using k that by (auto simp: word_le_nat_alt)
    moreover from this have "unat (x - a - c) = unat (x - a) - unat c" by (simp add: unat_sub)
    ultimately show ?thesis using k by (simp add: word_less_nat_alt diff_diff_eq)
  qed
  from this[of 8] this[of 16] this[of 24] show ?thesis using k
    by (simp add: put_event_def Let_def wr64_def store_def)
qed

text \<open>A task that may poll: it is the current one, no lock is held, and its queue holds some events.\<close>

definition may_poll :: "'a tasks_state_scheme \<Rightarrow> u64 \<Rightarrow> EventQueue \<Rightarrow> Event list \<Rightarrow> bool" where
  "may_poll s t q evs \<longleftrightarrow> get_current_task s = Inr (t, s) \<and> t \<noteq> 0 \<and> unlocked s \<and> event_queue (tasks s t) = q \<and> queue_holds s q evs"

lemma put_event_heap:
  assumes "heap_inv s" "user_bytes s a 32"
  shows "heap_inv (put_event a e s)" "live (put_event a e s) = live s"
proof -
  have "mem (put_event a e s) x = mem s x" if "kernel_byte s x" for x
    by (rule put_event_outside, rule user_bytes_apart[OF assms(2) that])
  from heap_mem_user[OF assms(1) this] show "heap_inv (put_event a e s)" "live (put_event a e s) = live s"
    by (simp_all add: put_event_def Let_def)
qed

lemma put_event_fields:
  "vecs (put_event a e s) = vecs s" "vnodes (put_event a e s) = vnodes s" "events (put_event a e s) = events s"
  by (simp_all add: put_event_def Let_def)

text \<open>The event is copied and freed, while the queue keeps its own.\<close>

lemma give_event:
  assumes q: "queue_addrs s q []" and l: "live s x = Some 32" and u: "user_bytes s a 32"
  shows "\<exists>s' st. kfree x (put_event a (events s x) s) = Inr s' \<and> s' = (put_event a (events s x) s)\<lparr>pools := st\<rparr> \<and>
    queue_holds s' q [] \<and> event_at (mem s') a = events s x \<and> (room_after n x s \<longrightarrow> room_for n s')"
proof -
  let ?p = "put_event a (events s x) s"
  have inv: "heap_inv s" using q by (simp add: queue_addrs_def vec_holds_def)
  note P = put_event_heap[OF inv u, where e = "events s x"]
  obtain s' st where s': "kfree x ?p = Inr s'" "heap_inv s'" "live s' = (live ?p)(x := None)" "s' = ?p\<lparr>pools := st\<rparr>"
    using kfree_effect[OF P(1), of x 32] l P(2) by auto
  obtain ns where r: "vec_rep s (queue q) ns []" using q by (auto simp: queue_addrs_def vec_holds_def)
  have "ns = []" using vec_repD(6)[OF r] by simp
  moreover have "queue q \<noteq> x" using vec_repD(4)[OF r] l by auto
  ultimately have "vec_rep s' (queue q) [] []"
    using r s'(3,4) P(2) by (simp add: vec_rep_def put_event_fields)
  then have "queue_holds s' q []" using s'(2) by (auto simp: queue_holds_def queue_addrs_def vec_holds_def)
  moreover have "event_at (mem s') a = events s x" using put_event_at[of a "events s x" s] by (simp add: s'(4))
  moreover have "room_for n s'" if "room_after n x s"
  proof (rule kfree_room_for[OF P(1) _ _ s'(1)])
    show "live ?p x = Some 32" using l P(2) by simp
    have "room_after n x ?p = room_after n x s" by (rule room_cong) (simp_all add: put_event_def Let_def)
    then show "room_after n x ?p" using that by simp
  qed
  ultimately show ?thesis using s'(1,4) by blast
qed

lemma syscall_poll_one:
  assumes c: "may_poll s t q [e]" and u: "user_bytes s a 32"
  shows "\<exists>s'. syscall_poll a s = Inr s' \<and> queue_holds s' q [] \<and> event_at (mem s') a = e \<and> tasks s' = tasks s"
proof -
  obtain x where x: "queue_addrs s q [x]" "events s x = e" using c by (auto simp: may_poll_def queue_holds_def)
  obtain s1 vt where s1: "poll q s = Inr (x, s1)" "queue_addrs s1 q []" "events s1 = events s" "s1 = s\<lparr>vecs := vt\<rparr>"
    using poll_one[OF x(1)] by blast
  have l: "live s1 x = Some 32" "x \<noteq> 0"
    using x(1) live_nonnull[of s x] by (auto simp: s1(4) frame_simps queue_addrs_def vec_holds_def)
  have "user_bytes s1 a 32" using u by (simp add: s1(4) user_bytes_def kernel_byte_def)
  from give_event[OF s1(2) l(1) this, of 32] obtain s' st where s': "kfree x (put_event a e s1) = Inr s'" "s' = (put_event a e s1)\<lparr>pools := st\<rparr>"
    "queue_holds s' q []" "event_at (mem s') a = e" by (auto simp: s1(3) x(2))
  have "syscall_poll a s = Inr s'"
    using c s1(1,3) l(2) s'(1) x(2) by (simp add: may_poll_def syscall_poll_def get_Task_def)
  moreover have "tasks s' = tasks s" by (simp add: s'(2) put_event_def Let_def s1(4))
  ultimately show ?thesis using s'(3,4) by blast
qed

lemma syscall_poll_none:
  assumes c: "may_poll s t q []" and u: "user_bytes s a 32" and room: "room_for 32 s"
  shows "\<exists>s'. syscall_poll a s = Inr s' \<and> may_poll s' t q [] \<and> event_at (mem s') a = no_event \<and> user_bytes s' = user_bytes s \<and> room_for 32 s'"
proof -
  have q: "queue_addrs s q []" and un: "\<not> locks s l" for l using c by (auto simp: may_poll_def queue_holds_def unlocked_def)
  have inv: "heap_inv s" and n: "unat sizeof_Event < 2 ^ 62" using q by (auto simp: queue_addrs_def vec_holds_def sizeof_Event_def)
  have l: "vec_length (vecs s (queue q)) = 0" "get_vec (queue q) s = Inr (vecs s (queue q))" using queue_length[OF q] by simp_all
  obtain x s1 where m: "malloc sizeof_Event s = Inr (x, s1)" and r1: "room_after 32 x s1"
    using malloc_room_for[of sizeof_Event s] room n by (auto simp: sizeof_Event_def)
  note M = malloc_vec_frame[OF inv n m]
  let ?s1 = "s1\<lparr>events := (events s1)(x := no_event)\<rparr>"
  obtain m' t' st where f: "s1 = s\<lparr>mem := m', total_memory_allocated := t', pools := st\<rparr>" by (rule malloc_frame[OF inv n m])
  have "live ?s1 x = Some 32" using M(5) by (simp add: frame_simps sizeof_Event_def)
  moreover have ub: "user_bytes ?s1 = user_bytes s" by (simp add: f user_bytes_def kernel_byte_def fun_eq_iff)
  moreover have "room_after 32 x ?s1 = room_after 32 x s1" by (rule room_cong) simp_all
  ultimately obtain s' st' where s': "kfree x (put_event a no_event ?s1) = Inr s'" "s' = (put_event a no_event ?s1)\<lparr>pools := st'\<rparr>"
    "queue_holds s' q []" "event_at (mem s') a = no_event" "room_for 32 s'"
    using give_event[OF fresh_event(1)[OF q m, of no_event], of x a 32] u r1 by auto
  have "syscall_poll a s = Inr s'"
    using c m l s'(1) M(6) by (simp add: may_poll_def syscall_poll_def get_Task_def poll_def)
  moreover have "get_current_task s' = Inr (t, s')"
    by (rule get_current_task_cong[of s]) (use c un in \<open>simp_all add: may_poll_def s'(2) put_event_def Let_def f\<close>)
  moreover have "unlocked s'" "event_queue (tasks s' t) = q" "t \<noteq> 0"
    using c by (simp_all add: may_poll_def s'(2) put_event_def Let_def f unlocked_def)
  moreover have "user_bytes s' = user_bytes s"
    by (simp add: s'(2) put_event_def Let_def f user_bytes_def kernel_byte_def fun_eq_iff)
  ultimately show ?thesis using s'(3-5) unfolding may_poll_def by blast
qed

lemma may_poll_hw: "may_poll s t q evs \<Longrightarrow> may_poll (s\<lparr>hw := g\<rparr>) t q evs"
proof -
  assume m: "may_poll s t q evs"
  then have "heap_inv s" and un: "\<not> locks s l" for l by (auto simp: may_poll_def queue_holds_def queue_addrs_def vec_holds_def unlocked_def)
  from quiet_queue[OF quiet_hw[OF this(1)]] have "queue_holds (s\<lparr>hw := g\<rparr>) q evs" using m by (simp add: may_poll_def)
  moreover have "get_current_task (s\<lparr>hw := g\<rparr>) = Inr (t, s\<lparr>hw := g\<rparr>)"
    by (rule get_current_task_cong[of s]) (use m un in \<open>simp_all add: may_poll_def\<close>)
  ultimately show ?thesis using m by (simp add: may_poll_def frame_simps)
qed

lemma libc_poll_call:
  assumes c: "in_program E c"
  shows "\<exists>g. (\<forall>s'. syscall_poll a (s\<lparr>hw := g\<rparr>) = Inr s' \<longrightarrow> (\<exists>c'. libc_poll E a (c, s) = Inr (Returns () (c', s')) \<and> same_place c c'))"
proof -
  obtain g where g: "disable_interrupts (hardware E) s = s\<lparr>hw := g\<rparr>" by (rule exE[OF hw_changes(1)])
  let ?call = "call_syscall (hardware E) (layout E) (device_fns E) (syscall_function SYS_POLL)
      (gpr (syscall_args (syscall_number SYS_POLL) [a] c)) (disable_interrupts (hardware E) s)"
  have call: "?call = nothing (syscall_poll a (s\<lparr>hw := g\<rparr>))"
    unfolding call_syscall_def by (simp only: args3 g) simp
  have p: "libc_poll E a (c, s) = run_bind (call_stub E SYS_POLL [a] (c, s)) (\<lambda>_ w. Inr (Returns () w))"
    by (simp add: libc_poll_def syscall1_def)
  have "\<exists>c'. libc_poll E a (c, s) = Inr (Returns () (c', s')) \<and> same_place c c'" if "syscall_poll a (s\<lparr>hw := g\<rparr>) = Inr s'" for s'
  proof -
    have "?call = Inr (Exit_returns, Void, s')" by (subst call) (simp add: nothing_def that)
    from call_stub_returns[OF c this] show ?thesis by (auto simp: p)
  qed
  then show ?thesis by blast
qed

section \<open>Properties\<close>


text \<open>Two tasks, the second a program whose descriptor 1 is an empty standard output.\<close>

definition sample_stdout :: "u64 \<Rightarrow> Task" where
  "sample_stdout q = (sample_task True q 1)\<lparr>resources := [0, 0x7000]\<rparr>"

definition sample_image :: "u8 list" where
  "sample_image = string_bytes greeting_text @ string_bytes ''SH %s> '' @ string_bytes ''R:/''"

definition sample_program :: "tasks_state \<Rightarrow> u64 \<Rightarrow> pc apic_state" where
  "sample_program t q = (sample_entry (t\<lparr>mem := placed 0x400000 0 sample_image (mem t),
       tasks := (tasks t)(0x2000 := sample_stdout q)\<rparr>))
     \<lparr>font_loaded := False,
      files := (\<lambda>_. \<lparr>f_present = True, ftype = FTYPE_STDOUT, f_length = 0, drive_char = CHR ''D'', f_mode = MODE_READWRITE, f_private = 0x8000\<rparr>),
      drives := replicate 26 \<lparr>present = True, fs = TempFS_functions, in_memory = True, mem_offset = 0x9000, partition = 0\<rparr>\<rparr>"

lemma sample_program_ok:
  assumes t: "sched_rep t [0x1000, 0x2000] i" "unlocked t" "roomy k t" "tasks t 0x1000 = sample_task False q 1"
    "queue_holds t \<lparr>queue = q\<rparr> evs" "q \<noteq> tasklist_list t" "memmap t = sample_memmap" "hhdm t = 0xffff800000000000"
  shows "sched_rep (sample_program t q) [0x1000, 0x2000] i" "unlocked (sample_program t q)" "io_ready (sample_program t q) 0x2000"
    "tasks (sample_program t q) 0x2000 = sample_stdout q" "tasks (sample_program t q) 0x1000 = sample_task False q 1"
    "queue_holds (sample_program t q) \<lparr>queue = q\<rparr> evs" "q \<noteq> tasklist_list (sample_program t q)"
    "mem_string walk_fuel (mem (sample_program t q)) 0x400000 = Inr greeting_text"
    "user_bytes (sample_program t q) 0x400000 (length greeting_text)" "serial_text (sample_program t q) = []"
    "user_bytes (sample_program t q) 0x500000 32" "user_bytes (sample_program t q) 0x400000 (length sample_image)"
    "\<And>k. k < length sample_image \<Longrightarrow> mem (sample_program t q) (0x400000 + of_nat k) = sample_image ! k"
    "font_loaded (sample_program t q) = False" "roomy k (sample_program t q)"
proof -
  let ?b = sample_image and ?s = "sample_program t q"
  have len: "length sample_image = 27" "length greeting_text = 14"
    by (simp_all add: sample_image_def string_bytes_def greeting_text_def)
  define m where "m = placed 0x400000 0 ?b (mem t)"
  let ?t = "t\<lparr>mem := m\<rparr>" and ?T = "(tasks t)(0x2000 := sample_stdout q)"
  have ub: "user_bytes t 0x400000 (0 + length ?b)" by (rule sample_user[OF t(7,8)]) (simp_all add: len)
  have "m x = mem t x" if "kernel_byte t x" for x
    unfolding m_def by (rule placed_outside, rule user_bytes_apart[OF ub that])
  note H = heap_mem_user[OF roomy_inv[OF t(3)] this]
  have Q: "quiet t ?t" using H by (simp add: quiet_def)
  have e: "sample_program t q = (sample_entry (?t\<lparr>tasks := ?T\<rparr>))
     \<lparr>font_loaded := False,
      files := (\<lambda>_. \<lparr>f_present = True, ftype = FTYPE_STDOUT, f_length = 0, drive_char = CHR ''D'', f_mode = MODE_READWRITE, f_private = 0x8000\<rparr>),
      drives := replicate 26 \<lparr>present = True, fs = TempFS_functions, in_memory = True, mem_offset = 0x9000, partition = 0\<rparr>\<rparr>"
    by (simp add: sample_program_def m_def)
  have V: "vec_rep ?s v ns xs = vec_rep ?t v ns xs" "heap_inv ?s = heap_inv ?t" "live ?s = live ?t" "roomy k ?s = roomy k ?t" for v ns xs
    unfolding e by (rule vec_rep_eq, simp add: sample_entry_defs vec_state.defs)+
  have F: "tasklist_list ?s = tasklist_list t" "current_tasks ?s = current_tasks t" "cpu_of ?s = cpu_of t" "events ?s = events t"
    "locks ?s = locks t" "tasks ?s = ?T" "mem ?s = m" "memmap ?s = memmap t" "hhdm ?s = hhdm t"
    by (simp_all add: e sample_entry_defs cpu_of_def)
  have G: "fnode_next ?s = (\<lambda>_. 0)" "inodes ?s = (\<lambda>_. zero_Inode)" "font_loaded ?s = False" "serial_held ?s = False"
     "files ?s = (\<lambda>_. \<lparr>f_present = True, ftype = FTYPE_STDOUT, f_length = 0, drive_char = CHR ''D'', f_mode = MODE_READWRITE, f_private = 0x8000\<rparr>)"
     "drives ?s = replicate 26 \<lparr>present = True, fs = TempFS_functions, in_memory = True, mem_offset = 0x9000, partition = 0\<rparr>"
    by (simp_all add: e sample_entry_defs)
  show "roomy k ?s" using V(4) H(3) t(3) by simp
  show "unlocked ?s" "tasks ?s 0x2000 = sample_stdout q" "tasks ?s 0x1000 = sample_task False q 1" "q \<noteq> tasklist_list ?s"
    using t(2,4,6) by (simp_all add: unlocked_def F)
  show "serial_text ?s = []" by (simp add: e sample_entry_defs)
  have "cpu_of ?t = cpu_of t" by (simp add: cpu_of_def)
  then show "sched_rep ?s [0x1000, 0x2000] i" using quiet_sched[OF Q t(1)] by (simp add: sched_rep_def V F)
  show "queue_holds ?s \<lparr>queue = q\<rparr> evs" using quiet_queue[OF Q t(5)] by (simp add: queue_holds_def queue_addrs_def vec_holds_def V F)
  have c: "drive_letter CHR ''D''" "code CHR ''D'' = 68" by (simp_all add: drive_letter_def code_def)
  have "stdout_open ?s 0x2000 1 0x8000"
    by (simp add: stdout_open_def resource_of_def get_Task_def F sample_stdout_def arr_get_def G tempfs_drive_def c Let_def)
  moreover have "file_nodes ?s 0x8000 []" by (simp add: file_nodes_def node_list_def G zero_Inode_def FILETYPE_DEVICE_def)
  moreover have "fresh_zero ?s" by (simp add: fresh_zero_def G)
  moreover have "terminal_ready ?s" by (simp add: terminal_ready_def G)
  ultimately show "io_ready ?s 0x2000" using V(2) H(2) unfolding io_ready_def by blast
  have "user_bytes t 0x500000 32" by (rule sample_user[OF t(7,8)]) simp_all
  then show "user_bytes ?s 0x500000 32" by (simp add: user_bytes_def kernel_byte_def F)
  show u: "user_bytes ?s 0x400000 (length sample_image)" using ub by (simp add: user_bytes_def kernel_byte_def F)
  then show "user_bytes ?s 0x400000 (length greeting_text)" by (simp add: user_bytes_def len)
  show b: "mem ?s (0x400000 + of_nat k) = ?b ! k" if "k < length sample_image" for k
  proof -
    have "unat (0x400000 + of_nat k - 0x400000 :: u64) = k" using that by (simp add: unat_of_nat_u64 len)
    then show ?thesis using that unfolding F m_def by (simp add: placed_def)
  qed
  show "font_loaded ?s = False" by (rule G(3))
  show "mem_string walk_fuel (mem ?s) 0x400000 = Inr greeting_text"
  proof (rule mem_string_bytes)
    show "NUL \<notin> set greeting_text" "length greeting_text < walk_fuel" by (simp_all add: greeting_text_def walk_fuel_def)
    fix k assume k: "k \<le> length greeting_text"
    then have "mem ?s (0x400000 + of_nat k) = sample_image ! k" by (intro b) (simp add: len)
    then show "mem ?s (0x400000 + of_nat k) = string_bytes greeting_text ! k"
      using k by (simp add: sample_image_def string_bytes_def nth_append)
  qed
qed

definition sample_env :: "kernel_layout \<Rightarrow> pc apic_state device_calls \<Rightarrow> (pc, pc apic_state) kernel_env" where
  "sample_env L D = \<lparr>effects = sample_effects, hardware = pc_machine 0 (\<lambda>_. 0), layout = L, device_fns = D,
     kernel_stack = KERNEL_STACK_PTR, gate = 0\<rparr>"

lemma sample_env_program: "in_program (sample_env L D) (sample_user tree m)"
  by (simp add: in_program_def sample_env_def sample_user_simps KERNEL_STACK_PTR_def)


text \<open>C13. The shell's wait ends when the program it started ends: however long the queue stays empty, the loop goes on
  polling; once the rest of the system has put an event of the awaited type into the queue, the next poll takes
  it, the wait returns, and the event's data is in the program's buffer. Each poll of an empty queue allocates an
  event and frees it again, so the heap must have room for one block of that size (\<open>room_for 32\<close>), which the poll
  gives back. The rest of the system must keep that room, leave the task current, no lock held, the queue empty
  until the awaited event, and the buffer outside the kernel's memory.\<close>

theorem wait_for_event_returns:
  assumes "in_program E c" and "may_poll s t q []" and "user_bytes s a 32" and "room_for 32 s"
    and "\<And>b s. b \<in> set before \<Longrightarrow> may_poll s t q [] \<Longrightarrow> user_bytes s a 32 \<Longrightarrow> room_for 32 s \<Longrightarrow>
      \<exists>s'. b s = Inr s' \<and> may_poll s' t q [] \<and> user_bytes s' a 32 \<and> room_for 32 s'"
    and "\<And>s. may_poll s t q [] \<Longrightarrow> user_bytes s a 32 \<Longrightarrow> room_for 32 s \<Longrightarrow> \<exists>s'. ends s = Inr s' \<and> may_poll s' t q [e] \<and> user_bytes s' a 32"
    and "do_handle e" "event_id e = event_type"
  shows "\<exists>c' s'. wait_for_event E a event_type (before @ ends # other # others) (c, s) = Inr (Returns () (c', s')) \<and>
       same_place c c' \<and> event_at (mem s') a = e \<and> queue_holds s' q []"
proof -
  have step: "\<exists>c1 s1. wait_for_event E a event_type (b # bs) (c, s) = res_bind (b s1) (\<lambda>s. wait_for_event E a event_type bs (c1, s)) \<and>
        same_place c c1 \<and> may_poll s1 t q [] \<and> user_bytes s1 a 32 \<and> room_for 32 s1"
    if c: "in_program E c" and s: "may_poll s t q []" "user_bytes s a 32" "room_for 32 s" for b bs c s
  proof -
    obtain g where g: "\<forall>s'. syscall_poll a (s\<lparr>hw := g\<rparr>) = Inr s' \<longrightarrow> (\<exists>c'. libc_poll E a (c, s) = Inr (Returns () (c', s')) \<and> same_place c c')"
      using libc_poll_call[OF c] by blast
    have u: "user_bytes (s\<lparr>hw := g\<rparr>) = user_bytes s" by (simp add: user_bytes_def kernel_byte_def fun_eq_iff)
    then have "user_bytes (s\<lparr>hw := g\<rparr>) a 32" using s(2) by simp
    moreover have "room_for 32 (s\<lparr>hw := g\<rparr>) = room_for 32 s" by (rule room_cong) (simp_all add: frame_simps)
    ultimately obtain s' where s': "syscall_poll a (s\<lparr>hw := g\<rparr>) = Inr s'" "may_poll s' t q []" "event_at (mem s') a = no_event"
        "user_bytes s' = user_bytes (s\<lparr>hw := g\<rparr>)" "room_for 32 s'" using syscall_poll_none[OF may_poll_hw[OF s(1)]] s(3) by blast
    then obtain c' where c': "libc_poll E a (c, s) = Inr (Returns () (c', s'))" "same_place c c'" using g by blast
    have "mem s' a = 0" using s'(3) by (simp add: event_at_def no_event_def)
    then have "wait_for_event E a event_type (b # bs) (c, s) = res_bind (b s') (\<lambda>s. wait_for_event E a event_type bs (c', s))"
      by (simp add: c'(1))
    then show ?thesis using c'(2) s'(2,5) s(2) u s'(4) by (intro exI[of _ c'] exI[of _ s']) simp
  qed
  have found: "\<exists>c' s'. wait_for_event E a event_type (b # bs) (c, s) = Inr (Returns () (c', s')) \<and> same_place c c' \<and>
       event_at (mem s') a = e \<and> queue_holds s' q []"
    if c: "in_program E c" and s: "may_poll s t q [e]" "user_bytes s a 32" for b bs c s
  proof -
    obtain g where g: "\<forall>s'. syscall_poll a (s\<lparr>hw := g\<rparr>) = Inr s' \<longrightarrow> (\<exists>c'. libc_poll E a (c, s) = Inr (Returns () (c', s')) \<and> same_place c c')"
      using libc_poll_call[OF c] by blast
    have "user_bytes (s\<lparr>hw := g\<rparr>) a 32" using s(2) by (simp add: user_bytes_def kernel_byte_def)
    from syscall_poll_one[OF may_poll_hw[OF s(1)] this] obtain s' where
      s': "syscall_poll a (s\<lparr>hw := g\<rparr>) = Inr s'" "queue_holds s' q []" "event_at (mem s') a = e" by blast
    have "mem s' a \<noteq> 0" "rd64 (mem s') (a + 8) = event_type" using s'(3) assms(7,8) by (auto simp: event_at_def)
    then show ?thesis using g s' by auto
  qed
  show ?thesis
    using assms(1-5)
  proof (induction before arbitrary: c s)
    case Nil
    from step[OF Nil.prems(1-4), of ends "other # others"] obtain c1 s1 where w: "wait_for_event E a event_type (ends # other # others) (c, s) =
          res_bind (ends s1) (\<lambda>s. wait_for_event E a event_type (other # others) (c1, s))"
      and c1: "same_place c c1" and s1: "may_poll s1 t q []" "user_bytes s1 a 32" "room_for 32 s1" by blast
    obtain s2 where s2: "ends s1 = Inr s2" "may_poll s2 t q [e]" "user_bytes s2 a 32" using assms(6)[OF s1] by blast
    have "in_program E c1" using Nil.prems(1) same_place_in_program[OF c1, of E] by simp
    from found[OF this s2(2,3), of other others] show ?case unfolding append_Nil w s2(1) res_bind_simps using same_place_trans[OF c1] by blast
  next
    case (Cons b before)
    from step[OF Cons.prems(1-4), of b "before @ ends # other # others"] obtain c1 s1
      where w: "wait_for_event E a event_type (b # before @ ends # other # others) (c, s) =
          res_bind (b s1) (\<lambda>s. wait_for_event E a event_type (before @ ends # other # others) (c1, s))"
      and c1: "same_place c c1" and s1: "may_poll s1 t q []" "user_bytes s1 a 32" "room_for 32 s1" by blast
    obtain s2 where s2: "b s1 = Inr s2" "may_poll s2 t q []" "user_bytes s2 a 32" "room_for 32 s2"
      using Cons.prems(5)[OF _ s1] by auto
    have "in_program E c1" using Cons.prems(1) same_place_in_program[OF c1, of E] by simp
    from Cons.IH[OF this s2(2-4)] Cons.prems(5) have
      "\<exists>c' s'. wait_for_event E a event_type (before @ ends # other # others) (c1, s2) = Inr (Returns () (c', s')) \<and>
         same_place c1 c' \<and> event_at (mem s') a = e \<and> queue_holds s' q []" by auto
    then show ?case unfolding append_Cons w s2(1) res_bind_simps using same_place_trans[OF c1] by blast
  qed
qed

text \<open>An event for a queue of its own leaves the scheduler's vectors alone.\<close>

lemma add_event_sched:
  assumes ok: "sched_rep s xs i" and q: "queue_holds s q []" "queue q \<noteq> tasklist_list s" and a: "add_event q ty d0 d1 s = Inr s'"
  shows "sched_rep s' xs i" "memmap s' = memmap s" "hhdm s' = hhdm s" "events_state.more s' = events_state.more s"
proof -
  have q0: "queue_addrs s q []" and inv: "heap_inv s" using q(1) by (auto simp: queue_holds_def queue_addrs_def vec_holds_def)
  obtain p s1 E where m: "malloc sizeof_Event s = Inr (p, s1)" and v: "vector_push (queue q) p (s1\<lparr>events := E\<rparr>) = Inr s'"
    using a unfolding add_event_def Let_def by (auto simp: res_bind_Inr_iff)
  have n: "unat sizeof_Event < 2 ^ 62" "unat sizeof_VectorNode < 2 ^ 62" by (simp_all add: sizeof_Event_def sizeof_VectorNode_def)
  note M = malloc_vec_frame[OF inv n(1) m]
  let ?s1 = "s1\<lparr>events := E\<rparr>"
  have h: "heap_inv ?s1" using M(3) by (simp add: frame_simps)
  obtain ns where "vec_rep s (queue q) ns []" using q0 by (auto simp: queue_addrs_def vec_holds_def)
  then have r: "vec_rep s (queue q) [] []" using vec_repD(6) by fastforce
  have r1: "vec_rep ?s1 (queue q) [] []"
    using r M(1,2,4,5) by (auto simp: vec_rep_def frame_simps)
  obtain b where b: "live ?s1 b = None" "live s' = (live ?s1)(b \<mapsto> 24)" "\<forall>w. w \<noteq> queue q \<longrightarrow> vecs s' w = vecs ?s1 w"
    "\<forall>n. n \<notin> {b} \<longrightarrow> vnodes s' n = vnodes ?s1 n"
    using vector_push_rep[OF h r1, of p] v by auto
  have f: "events_state.more s' = events_state.more s" by (rule add_event_frame(1)[OF inv a])
  note T = tasks_of_more[OF f]
  have V: "vec_rep s' w ns ys" if w: "vec_rep s w ns ys" "w \<noteq> queue q" for w ns ys
  proof (rule vec_rep_cong[OF w(1)])
    have l: "live s' x = live s x" if "live s x = Some 24" for x
      using that b(1,2) M(4,5) by (auto simp: frame_simps split: if_splits)
    have nb: "x \<noteq> b" if "live s x = Some 24" for x using that b(1) M(4,5) by (auto simp: frame_simps split: if_splits)
    show "vecs s' w = vecs s w" using b(3) w(2) M(1) by simp
    show "vnodes s' x = vnodes s x" if "x \<in> set ns" for x using b(4) nb[OF vec_repD(3)[OF w(1) that]] M(2) by simp
    show "live s' x = live s x" if "x \<in> insert w (set ns)" for x using l that vec_repD(3,4)[OF w(1)] by blast
  qed
  obtain ns ms cs where S: "vec_rep s (tasklist_list s) ns xs" "vec_rep s (current_tasks s) ms cs" "set ns \<inter> set ms = {}"
    "unat (cpu_of s) < length cs" "cs ! unat (cpu_of s) = of_nat i" "i < length xs" "distinct xs" "0 \<notin> set xs"
    using ok unfolding sched_rep_def by blast
  have "unat (vec_length (vecs s (current_tasks s))) \<noteq> unat (vec_length (vecs s (queue q)))"
    using vec_repD(9)[OF S(2)] vec_repD(9)[OF r] S(4) by auto
  then have "current_tasks s \<noteq> queue q" by auto
  then have "vec_rep s' (tasklist_list s) ns xs" "vec_rep s' (current_tasks s) ms cs" using V S(1,2) q(2) by auto
  moreover have "tasklist_list s' = tasklist_list s" "current_tasks s' = current_tasks s" "cpu_of s' = cpu_of s"
    using T f by (simp_all add: cpu_of_def, cases s, cases s', simp)
  ultimately show "sched_rep s' xs i" unfolding sched_rep_def using S(3-8) by (simp only:) blast
  show "events_state.more s' = events_state.more s" by (rule f)
  obtain x s2 st vt where v2: "malloc sizeof_VectorNode ?s1 = Inr (x, s2)" "s' = s2\<lparr>vnodes := st, vecs := vt\<rparr>"
    using v unfolding vector_push_def Let_def by (auto simp: res_bind_Inr_iff split: if_splits)
  have "memmap s1 = memmap s" "hhdm s1 = hhdm s" by (rule malloc_frame[OF inv n(1) m], simp)+
  moreover have "memmap s2 = memmap ?s1" "hhdm s2 = hhdm ?s1" by (rule malloc_frame[OF h n(2) v2(1)], simp)+
  ultimately show "memmap s' = memmap s" "hhdm s' = hhdm s" using v2(2) by simp_all
qed

theorem wait_for_event_returns_witness:
  "\<forall>L D. \<exists>(s :: pc apic_state) s1.
     (\<exists>c' s'. wait_for_event (sample_env L D) 0x500000 EVENT_TASK_EXITED ([Inr, Inr] @ (\<lambda>_. Inr s1) # Inr # []) (sample_user 0x22000 (\<lambda>_ _. 0), s) =
         Inr (Returns () (c', s')) \<and> event_data1 (event_at (mem s') 0x500000) = 3)"
proof (intro allI)
  fix L and D :: "pc apic_state device_calls"
  obtain t :: tasks_state and q where t: "sched_rep t [0x1000, 0x2000] 1" "unlocked t" "roomy 90000 t" "tasks t 0x1000 = sample_task False q 1"
    "queue_holds t \<lparr>queue = q\<rparr> []" "q \<noteq> tasklist_list t" "memmap t = sample_memmap" "hhdm t = 0xffff800000000000"
    using sample_sched[of 1] by auto
  let ?e = "\<lparr>do_handle = True, event_id = EVENT_TASK_EXITED, event_data0 = 2, event_data1 = 3\<rparr>" and ?q = "\<lparr>queue = q\<rparr>"
  obtain t1 a where t1: "add_event ?q EVENT_TASK_EXITED 2 3 t = Inr t1" "queue_addrs t1 ?q [a]" "events t1 a = ?e"
    "roomy 1000 t1"
    using add_event_room[of t ?q "[]" 1000 EVENT_TASK_EXITED 2 3] t(5) roomy_mono[OF t(3)] by (auto simp: queue_holds_def)
  have q1: "queue ?q \<noteq> tasklist_list t" using t(6) by simp
  note A = add_event_sched[OF t(1,5) q1 t1(1)]
  note T = tasks_of_more[OF A(4)]
  have "queue_holds t1 ?q [?e]" using t1(2,3) by (auto simp: queue_holds_def)
  then have u: "sched_rep t1 [0x1000, 0x2000] 1" "unlocked t1" "roomy 1000 t1" "tasks t1 0x1000 = sample_task False q 1"
    "queue_holds t1 ?q [?e]" "q \<noteq> tasklist_list t1" "memmap t1 = sample_memmap" "hhdm t1 = 0xffff800000000000"
    using A t T t1(4) by (simp_all add: unlocked_def)
  have poll: "may_poll (sample_program x q) 0x2000 ?q evs"
    if x: "sched_rep (sample_program x q) [0x1000, 0x2000] 1" "unlocked (sample_program x q)" "tasks (sample_program x q) 0x2000 = sample_stdout q"
      "queue_holds (sample_program x q) ?q evs" for x evs
  proof -
    have "\<not> locks (sample_program x q) l" for l using x(2) by (simp add: unlocked_def)
    note un = this
    have "get_current_task (sample_program x q) = Inr (0x2000, sample_program x q)"
      using get_current_task_free[OF un un] sched_current(1,2)[OF x(1)] by simp
    then show ?thesis using x(2,4) by (simp add: may_poll_def x(3) sample_stdout_def sample_task_def)
  qed
  note S = sample_program_ok[OF t] and U = sample_program_ok[OF u]
  have m: "may_poll (sample_program t q) 0x2000 ?q []" "may_poll (sample_program t1 q) 0x2000 ?q [?e]"
    using poll S(1,2,4,6) U(1,2,4,6) by blast+
  have "do_handle ?e" "event_id ?e = EVENT_TASK_EXITED" by simp_all
  have "roomy (32 + 28) (sample_program t q)" using roomy_mono[OF S(15)] by simp
  note r = roomy_room_for[OF this]
  note W = wait_for_event_returns[OF sample_env_program[of L D "0x22000" "\<lambda>_ _. 0"] m(1) S(11) r _ _ \<open>do_handle ?e\<close> \<open>event_id ?e = EVENT_TASK_EXITED\<close>,
      where before = "[Inr, Inr]" and ends = "\<lambda>_. Inr (sample_program t1 q)" and other = Inr and others = "[]"]
  show "\<exists>(s :: pc apic_state) s1.
     (\<exists>c' s'. wait_for_event (sample_env L D) 0x500000 EVENT_TASK_EXITED ([Inr, Inr] @ (\<lambda>_. Inr s1) # Inr # []) (sample_user 0x22000 (\<lambda>_ _. 0), s) =
         Inr (Returns () (c', s')) \<and> event_data1 (event_at (mem s') 0x500000) = 3)"
  proof (rule exI[of _ "sample_program t q"], rule exI[of _ "sample_program t1 q"], rule exE[OF W])
    show "\<exists>s'. b s = Inr s' \<and> may_poll s' 0x2000 ?q [] \<and> user_bytes s' 0x500000 32 \<and> room_for 32 s'"
      if "b \<in> set [Inr, Inr]" "may_poll s 0x2000 ?q []" "user_bytes s 0x500000 32" "room_for 32 s" for b s using that by auto
    show "\<exists>s'. Inr (sample_program t1 q) = Inr s' \<and> may_poll s' 0x2000 ?q [?e] \<and> user_bytes s' 0x500000 32" using m(2) U(11) by blast
  qed (elim exE conjE, intro exI conjI, assumption, simp)
qed

end
