(* ===== verification/LibcPrintf.thy ===== *)
theory LibcPrintf
  imports Programs
begin

text \<open>
  The C library's \<open>printf\<close> as a program runs it (\<open>program_printf\<close> of theory \<open>Programs\<close>): format, strings and local
  arrays in the program's memory, every piece of text a system call. It is shown to put on the serial port the
  text that the format and its arguments stand for (\<open>render\<close> of theory \<open>Printf\<close>).
\<close>

section \<open>Text in a program's memory\<close>

text \<open>The local arrays of \<open>printf\<close>, and the bytes that none of them holds.\<close>

definition array_sizes :: "nat list" where
  "array_sizes = [2, 10, 20]"

definition off_arrays :: "(nat \<Rightarrow> u64) \<Rightarrow> u64 \<Rightarrow> bool" where
  "off_arrays loc x \<longleftrightarrow> (\<forall>n \<in> set array_sizes. n \<le> unat (x - loc n))"

definition arrays_safe :: "'a vfs_state_scheme \<Rightarrow> (nat \<Rightarrow> u64) \<Rightarrow> bool" where
  "arrays_safe s loc \<longleftrightarrow> (\<forall>n \<in> set array_sizes. \<forall>k < n. user_safe s (loc n + of_nat k))"

definition text_at :: "'a vfs_state_scheme \<Rightarrow> (nat \<Rightarrow> u64) \<Rightarrow> u64 \<Rightarrow> string \<Rightarrow> bool" where
  "text_at s loc a u \<longleftrightarrow> NUL \<notin> set u \<and> length u < 2 ^ 62 \<and>
     (\<forall>k \<le> length u. user_safe s (a + of_nat k) \<and> off_arrays loc (a + of_nat k) \<and> mem s (a + of_nat k) = string_bytes u ! k)"

text \<open>The words passed stand for the arguments of the specification: numbers for themselves, pointers for strings.\<close>

fun arg_is :: "'a vfs_state_scheme \<Rightarrow> (nat \<Rightarrow> u64) \<Rightarrow> u64 \<Rightarrow> va \<Rightarrow> bool" where
  "arg_is s loc w (VInt n) \<longleftrightarrow> w = n"
| "arg_is s loc w (VStr t) \<longleftrightarrow> (\<exists>u. t = u @ [NUL] \<and> text_at s loc w u)"

text \<open>Nothing of a program changed but the arrays.\<close>

definition texts_same :: "(nat \<Rightarrow> u64) \<Rightarrow> 'a vfs_state_scheme \<Rightarrow> 'a vfs_state_scheme \<Rightarrow> bool" where
  "texts_same loc s s' \<longleftrightarrow> user_safe s' = user_safe s \<and> (\<forall>x. user_safe s x \<and> off_arrays loc x \<longrightarrow> mem s' x = mem s x)"

lemma texts_same_trans: "texts_same loc s s' \<Longrightarrow> texts_same loc s' s'' \<Longrightarrow> texts_same loc s s''"
  by (simp add: texts_same_def)

lemma texts_same_user: "user_same s s' \<Longrightarrow> texts_same loc s s'"
  by (simp add: texts_same_def user_same_def)

lemma texts_same_text: "texts_same loc s s' \<Longrightarrow> text_at s loc a u \<Longrightarrow> text_at s' loc a u"
  by (simp add: texts_same_def text_at_def)

lemma texts_same_arg: "texts_same loc s s' \<Longrightarrow> arg_is s loc w v \<Longrightarrow> arg_is s' loc w v"
  by (cases v) (auto intro: texts_same_text)

lemma texts_same_arrays: "texts_same loc s s' \<Longrightarrow> arrays_safe s loc \<Longrightarrow> arrays_safe s' loc"
  by (simp add: texts_same_def arrays_safe_def)

lemma text_at_string: "text_at s loc a u \<Longrightarrow> mem_string walk_fuel (mem s) a = Inr u"
  by (rule mem_string_bytes) (auto simp: text_at_def walk_fuel_def)

lemma text_at_user: "text_at s loc a u \<Longrightarrow> user_bytes s a (length u)"
  by (auto simp: text_at_def user_bytes_def user_safe_def)

lemma text_at_Cons:
  assumes "text_at s loc a (c # u)"
  shows "text_at s loc (a + 1) u" "mem s a = of_char c" "c \<noteq> NUL"
proof -
  have b: "user_safe s (a + of_nat k) \<and> off_arrays loc (a + of_nat k) \<and> mem s (a + of_nat k) = string_bytes (c # u) ! k" if "k \<le> Suc (length u)" for k
    using assms that by (auto simp: text_at_def)
  show "mem s a = of_char c" using b[of 0] by (simp add: string_bytes_def)
  show "c \<noteq> NUL" using assms by (auto simp: text_at_def)
  have "user_safe s (a + 1 + of_nat k) \<and> off_arrays loc (a + 1 + of_nat k) \<and> mem s (a + 1 + of_nat k) = string_bytes u ! k" if "k \<le> length u" for k
    using b[of "Suc k"] that by (simp add: string_bytes_def add.assoc)
  then show "text_at s loc (a + 1) u" using assms by (simp add: text_at_def)
qed

lemma text_at_Nil: "text_at s loc a [] \<Longrightarrow> mem s a = 0"
  by (simp add: text_at_def string_bytes_def)

lemma char_byte: "char_of (unat (of_char c :: u8)) = c" "c \<noteq> NUL \<Longrightarrow> (of_char c :: u8) \<noteq> 0"
    "(of_char c :: u8) = 37 \<Longrightarrow> c = CHR ''%''"
proof -
  have u: "unat (of_char c :: u8) = of_char c"
    using nat_of_char_less_256[of c] unat_of_nat[of "of_char c", where ?'a = 8]
    by (simp add: of_nat_of_char take_bit_eq_mod)
  show b: "char_of (unat (of_char c :: u8)) = c" by (simp add: u)
  show "(of_char c :: u8) \<noteq> 0" if "c \<noteq> NUL"
  proof
    assume "(of_char c :: u8) = 0"
    then have "c = char_of (0 :: nat)" using b by simp
    also have "\<dots> = NUL" by code_simp
    finally show False using that by simp
  qed
  show "c = CHR ''%''" if "(of_char c :: u8) = 37"
  proof -
    have "c = char_of (37 :: nat)" using b that by simp
    also have "\<dots> = CHR ''%''" by code_simp
    finally show ?thesis .
  qed
qed

lemma percent_byte: "(of_char CHR ''%'' :: u8) = 37"
  by simp

section \<open>One piece\<close>

text \<open>What printing a piece does: its text is on the serial port, and everything that printing needs is as it was.\<close>

definition said :: "(nat \<Rightarrow> u64) \<Rightarrow> u64 \<Rightarrow> string \<Rightarrow> cpu \<times> ('h, 'a) apic_state_scheme \<Rightarrow> cpu \<times> ('h, 'a) apic_state_scheme \<Rightarrow> bool" where
  "said loc k t w w' \<longleftrightarrow> same_place (fst w) (fst w') \<and> quiet (snd w) (snd w') \<and> io_ready (snd w') k \<and> texts_same loc (snd w) (snd w') \<and>
     serial_text (snd w') = serial_text (snd w) @ map of_char t"

lemma said_trans: "said loc k t w w' \<Longrightarrow> said loc k u w' w'' \<Longrightarrow> said loc k (t @ u) w w''"
  by (simp add: said_def) (blast intro: same_place_trans quiet_trans texts_same_trans)

text \<open>A program that can print: the current task has a standard output, and the arrays are its own.\<close>

definition can_print :: "('h, 'a) env \<Rightarrow> (nat \<Rightarrow> u64) \<Rightarrow> u64 list \<Rightarrow> nat \<Rightarrow> ('h, 'a) world \<Rightarrow> bool" where
  "can_print E loc xs i w \<longleftrightarrow> in_program E (fst w) \<and> sched_rep (snd w) xs i \<and> unlocked (snd w) \<and> io_ready (snd w) (xs ! i) \<and> arrays_safe (snd w) loc"

lemma said_can_print: "can_print E loc xs i w \<Longrightarrow> said loc (xs ! i) t w w' \<Longrightarrow> can_print E loc xs i w'"
  using same_place_in_program quiet_sched quiet_unlocked texts_same_arrays by (simp add: can_print_def said_def) blast

lemma fputs_said:
  assumes "can_print E loc xs i w" and "mem_string walk_fuel (mem (snd w)) str = Inr t" "CHR ''%'' \<notin> set t" "length t < 2 ^ 62"
    "user_bytes (snd w) str (length t)" "roomy (write_room (length t) 0 + r) (snd w)"
  shows "\<exists>w'. libc_fputs E str 1 w = Inr (Returns 0 w') \<and> said loc (xs ! i) t w w' \<and> roomy r (snd w')"
proof -
  obtain c s where w: "w = (c, s)" by (cases w)
  from fputs_prints[of E c s xs i str t r] show ?thesis
    using assms unfolding w can_print_def said_def by (auto intro: texts_same_user)
qed

lemma fputs_text_said:
  assumes "can_print E loc xs i w" and t: "text_at (snd w) loc str t" "CHR ''%'' \<notin> set t"
    and room: "roomy (write_room (length t) 0 + r) (snd w)"
  shows "\<exists>w'. libc_fputs E str 1 w = Inr (Returns 0 w') \<and> said loc (xs ! i) t w w' \<and> roomy r (snd w')"
  by (rule fputs_said[OF assms(1) text_at_string[OF t(1)] t(2) _ text_at_user[OF t(1)] room]) (use t(1) in \<open>simp add: text_at_def\<close>)

text \<open>Writing an array of the program changes nothing else.\<close>

lemma poke_array:
  assumes c: "can_print E loc xs i (c, s)" and n: "length b \<in> set array_sizes"
  shows "can_print E loc xs i (c, s\<lparr>mem := placed (loc (length b)) 0 (map of_char b) (mem s)\<rparr>)"
    "quiet s (s\<lparr>mem := placed (loc (length b)) 0 (map of_char b) (mem s)\<rparr>)"
    "texts_same loc s (s\<lparr>mem := placed (loc (length b)) 0 (map of_char b) (mem s)\<rparr>)"
    "roomy r (s\<lparr>mem := placed (loc (length b)) 0 (map of_char b) (mem s)\<rparr>) = roomy r s"
proof -
  let ?a = "loc (length b)" and ?m = "placed (loc (length b)) 0 (map of_char b) (mem s)"
  let ?s = "s\<lparr>mem := ?m\<rparr>"
  have inv: "heap_inv s" using c by (simp add: can_print_def io_ready_def)
  have ub: "user_bytes s ?a (length b)"
    using c n by (auto simp: can_print_def arrays_safe_def user_bytes_def user_safe_def)
  have out: "?m x = mem s x" if "length b \<le> unat (x - ?a)" for x by (rule placed_outside) (use that in simp)
  have "?m x = mem s x" if "kernel_byte s x" for x by (rule out, rule user_bytes_apart[OF ub that])
  note H = heap_mem_user[OF inv this]
  show "roomy r ?s = roomy r s" by (rule H(3))
  show q: "quiet s ?s" using H by (simp add: quiet_def)
  have us: "user_safe ?s = user_safe s" by (rule user_safe_cong) (simp_all add: off_screen_def front_def fun_eq_iff)
  show "texts_same loc s ?s" using out n us by (simp add: texts_same_def off_arrays_def)
  have "terminal_ready ?s = terminal_ready s"
    by (rule terminal_ready_cong) (simp_all add: screen_inv_def geom_def font_apart_def off_screen_def front_def fun_eq_iff)
  moreover have "stdout_open ?s t 1 j = stdout_open s t 1 j" for t j
    by (simp add: stdout_open_def resource_of_def get_Task_def tempfs_drive_def Let_def)
  moreover have "file_nodes ?s j ns = file_nodes s j ns" "fresh_zero ?s = fresh_zero s" for j ns
    using H(1) by (simp_all add: file_nodes_def node_list_def fresh_zero_def)
  ultimately have "io_ready ?s t = io_ready s t" for t using H(2) inv by (simp add: io_ready_def)
  then show "can_print E loc xs i (c, ?s)"
    using c quiet_sched[OF q] us by (simp add: can_print_def unlocked_def arrays_safe_def)
qed

lemma print_array_said:
  assumes c: "can_print E loc xs i w" and b: "b = t @ NUL # ys" "length b \<in> set array_sizes" "NUL \<notin> set t" "CHR ''%'' \<notin> set t"
    and room: "roomy (write_room (length t) 0 + r) (snd w)"
  shows "\<exists>w'. print_array E loc b w = Inr (Returns 0 w') \<and> said loc (xs ! i) t w w' \<and> roomy r (snd w')"
proof -
  obtain d s where w: "w = (d, s)" by (cases w)
  let ?a = "loc (length b)"
  let ?s = "s\<lparr>mem := placed ?a 0 (map of_char b) (mem s)\<rparr>"
  note P = poke_array[OF c[unfolded w] b(2)]
  have l: "length b \<le> 20" using b(2) by (auto simp: array_sizes_def)
  have "mem_string walk_fuel (mem ?s) ?a = Inr t"
  proof (rule mem_string_bytes[OF b(3)])
    show "length t < walk_fuel" using l b(1) by (simp add: walk_fuel_def)
    fix k assume k: "k \<le> length t"
    have "unat (of_nat k :: u64) = k" using k l b(1) by (intro unat_of_nat_u64) simp
    then have "mem ?s (?a + of_nat k) = map of_char b ! k" using k b(1) by (simp add: placed_def)
    also have "\<dots> = string_bytes t ! k" using k by (simp add: b(1) string_bytes_def nth_append)
    finally show "mem ?s (?a + of_nat k) = string_bytes t ! k" .
  qed
  moreover have "user_bytes ?s ?a (length t)"
    using P(1) b(1,2) by (fastforce simp: can_print_def arrays_safe_def user_bytes_def user_safe_def)
  moreover have "roomy (write_room (length t) 0 + r) ?s" using room P(4) by (simp add: w)
  ultimately have "\<exists>w'. libc_fputs E ?a 1 (d, ?s) = Inr (Returns 0 w') \<and> said loc (xs ! i) t (d, ?s) w' \<and> roomy r (snd w')"
    using fputs_said[OF P(1), of ?a t r] b l by simp
  moreover have "said loc (xs ! i) t w w'" if "said loc (xs ! i) t (d, ?s) w'" for w'
    using that P(2,3) unfolding said_def w by (auto intro: quiet_trans texts_same_trans)
  ultimately show ?thesis unfolding w print_array_def by (auto simp: Let_def)
qed

section \<open>Directives and formats\<close>

lemma conversions_same: "int_to_string = ku_uint64_to_string" "int_to_hex_string = ku_uint64_to_hex_string"
  by (simp_all add: fun_eq_iff int_to_string_def ku_uint64_to_string_def int_to_hex_string_def ku_uint64_to_hex_string_def
      libc_reverse_def ku_reverse_def)

lemma arr_set_length: "arr_set xs i x = Inr ys \<Longrightarrow> length ys = length xs"
  by (auto simp: arr_set_def split: if_splits)

lemma directive_said:
  assumes c: "can_print E loc xs i w" and r: "render_directive False d vas = Some (u, vas')" and u: "CHR ''%'' \<notin> set u"
    and a: "list_all2 (arg_is (snd w) loc) args vas" and room: "roomy (write_room (length u) 0 + k) (snd w)"
  shows "\<exists>args' w'. program_directive E loc d args w = Inr (Returns args' w') \<and> said loc (xs ! i) u w w' \<and>
      list_all2 (arg_is (snd w') loc) args' vas' \<and> roomy k (snd w')"
proof -
  have kept: "list_all2 (arg_is (snd w') loc) as vs" if "said loc (xs ! i) t w w'" "list_all2 (arg_is (snd w) loc) as vs" for t w' as vs
    using that(2) by (rule list_all2_mono) (use that(1) texts_same_arg in \<open>auto simp: said_def\<close>)
  have array: "\<exists>args' w'. run_bind (print_array E loc b w) (\<lambda>_ w. Inr (Returns as w)) = Inr (Returns args' w') \<and> said loc (xs ! i) u w w' \<and>
         list_all2 (arg_is (snd w') loc) args' vas' \<and> roomy k (snd w')"
    if "b = u @ NUL # ys" "length b \<in> set array_sizes" "NUL \<notin> set u" "list_all2 (arg_is (snd w) loc) as vas'" for b ys as
    using print_array_said[OF c that(1-3) u room] kept that(4) by auto
  consider "d = CHR ''d'' \<or> d = CHR ''i''" | "d = CHR ''c''" | "d = CHR ''x''" | "d = CHR ''s''"
    | "d \<notin> {CHR ''d'', CHR ''i'', CHR ''c'', CHR ''x'', CHR ''s''}" by blast
  then show ?thesis
  proof cases
    case 1
    then obtain n where n: "vas = VInt n # vas'" "unat n < 10 ^ 9" "u = numeral_text 10 (unat n)"
      using r by (auto simp: render_directive_def split: list.splits va.splits if_splits)
    obtain as where as: "args = n # as" "list_all2 (arg_is (snd w) loc) as vas'" using a n(1) by (auto simp: list_all2_Cons2)
    obtain ys where ys: "ku_uint64_to_string n (local_array 10) = Inr (u @ NUL # ys)"
      "length u \<le> 9" "length u + 1 + length ys = 10" using decimal_short[OF n(2)] n(3) by blast
    have nn: "NUL \<notin> set u" using n(3) by (simp add: numeral_text_nonnull)
    obtain zs where z: "arr_set (u @ NUL # ys) 9 NUL = Inr (u @ NUL # zs)" using terminate_again[OF nn] ys(2,3) by fastforce
    have "length (u @ NUL # zs) \<in> set array_sizes" using arr_set_length[OF z] ys(3) by (simp add: array_sizes_def)
    from array[OF refl this nn as(2)] show ?thesis
      using 1 by (auto simp: program_directive_def va_word_def as(1) conversions_same ys(1) z)
  next
    case 2
    then obtain n where n: "vas = VInt n # vas'" "unat n mod 256 \<noteq> 0" "u = [char_of (unat n)]"
      using r by (auto simp: render_directive_def split: list.splits va.splits if_splits)
    obtain as where as: "args = n # as" "list_all2 (arg_is (snd w) loc) as vas'" using a n(1) by (auto simp: list_all2_Cons2)
    have nn: "NUL \<notin> set u"
    proof
      assume "NUL \<in> set u"
      then have "char_of (unat n) = NUL" using n(3) by simp
      then have "of_char (char_of (unat n)) = (0 :: nat)" by simp
      with n(2) show False by simp
    qed
    let ?b = "u @ NUL # local_array 8"
    have "res_bind (arr_set (local_array 10) 0 (char_of (unat n))) (\<lambda>b. arr_set b 1 NUL) = Inr ?b"
      by (simp add: n(3) arr_set_def local_array_def eval_nat_numeral)
    then have e: "res_bind (arr_set (local_array 10) 0 (char_of (unat n))) (\<lambda>b. res_bind (arr_set b (Suc 0) NUL) f) = f ?b" for f
      by (metis One_nat_def res_bind_assoc res_bind_simps(2))
    have "length ?b \<in> set array_sizes" by (simp add: n(3) array_sizes_def local_array_def)
    from array[OF refl this nn as(2)] show ?thesis using 2 by (auto simp: program_directive_def va_word_def as(1) e)
  next
    case 3
    then obtain n where n: "vas = VInt n # vas'" "u = hex16 (unat n)"
      using r by (auto simp: render_directive_def split: list.splits va.splits)
    obtain as where as: "args = n # as" "list_all2 (arg_is (snd w) loc) as vas'" using a n(1) by (auto simp: list_all2_Cons2)
    obtain ys where ys: "ku_uint64_to_hex_string n (local_array 20) = Inr (u @ NUL # ys)"
      "length u = 16" "length ys = 3" and nn: "NUL \<notin> set u" using hex_short n(2) by blast
    obtain zs where z: "arr_set (u @ NUL # ys) 19 NUL = Inr (u @ NUL # zs)" using terminate_again[OF nn] ys(2,3) by fastforce
    have "length (u @ NUL # zs) \<in> set array_sizes" using arr_set_length[OF z] ys(2,3) by (simp add: array_sizes_def)
    from array[OF refl this nn as(2)] show ?thesis
      using 3 by (auto simp: program_directive_def va_word_def as(1) conversions_same ys(1) z)
  next
    case 4
    then obtain t where t: "vas = VStr t # vas'" "u = c_str t"
      using r by (auto simp: render_directive_def split: list.splits va.splits if_splits)
    obtain p as where as: "args = p # as" "arg_is (snd w) loc p (VStr t)" "list_all2 (arg_is (snd w) loc) as vas'"
      using a t(1) by (auto simp: list_all2_Cons2)
    obtain v where v: "t = v @ [NUL]" "text_at (snd w) loc p v" using as(2) by auto
    have "c_str t = v" using v(2) by (simp add: v(1) text_at_def c_str_text)
    then have "text_at (snd w) loc p u" using v(2) t(2) by simp
    from fputs_text_said[OF c this u room] kept as(3) show ?thesis
      using 4 by (auto simp: program_directive_def va_word_def as(1))
  next
    case 5
    then have "u = []" "vas' = vas" using r by (auto simp: render_directive_def)
    moreover have "roomy k (snd w)" by (rule roomy_mono[OF room]) simp
    moreover have "said loc (xs ! i) [] w w"
      using c unfolding said_def can_print_def io_ready_def by (simp add: same_place_def quiet_def texts_same_def)
    ultimately show ?thesis using 5 a by (auto simp: program_directive_def)
  qed
qed

lemma said_nil: "can_print E loc xs i w \<Longrightarrow> said loc (xs ! i) [] w w"
  unfolding said_def can_print_def io_ready_def by (simp add: same_place_def quiet_def texts_same_def)

lemma said_text: "said loc k t w w' \<Longrightarrow> text_at (snd w) loc a u \<Longrightarrow> text_at (snd w') loc a u"
  by (auto simp: said_def intro: texts_same_text)

text \<open>One character of the format, and the loop over the format.\<close>

lemma plain_said:
  assumes c: "can_print E loc xs i w" and f: "f \<noteq> NUL" "f \<noteq> CHR ''%''" and room: "roomy (write_room 1 0 + r) (snd w)"
  shows "\<exists>w'. print_array E loc [f, NUL] w = Inr (Returns 0 w') \<and> said loc (xs ! i) [f] w w' \<and> roomy r (snd w')"
  using print_array_said[OF c, of "[f, NUL]" "[f]" "[]" r] f room by (simp add: array_sizes_def)

lemma printf_loop_said:
  "render False f vas = Some t \<Longrightarrow> CHR ''%'' \<notin> set t \<Longrightarrow> can_print E loc xs i w \<Longrightarrow> text_at (snd w) loc a f \<Longrightarrow>
     list_all2 (arg_is (snd w) loc) args vas \<Longrightarrow> length f < fuel \<Longrightarrow> length t \<le> N \<Longrightarrow>
     roomy (length f * write_room N 0 + r) (snd w) \<Longrightarrow>
     \<exists>w'. program_printf_loop fuel E loc a args w = Inr (Returns () w') \<and> said loc (xs ! i) t w w' \<and> roomy r (snd w')"
proof (induction False f vas arbitrary: t w a args fuel rule: render.induct)
  case (1 vas)
  then show ?case using said_nil[OF 1(3)] text_at_Nil[OF 1(4)] by (subst program_printf_loop.simps)+ auto
next
  case (2 f vas)
  have t: "t = [f]" "f \<noteq> CHR ''%''" using 2(1) by (auto split: if_splits)
  note T = text_at_Cons[OF 2(4)]
  have b: "mem (snd w) a \<noteq> 0" "mem (snd w) a \<noteq> 37" "char_of (unat (mem (snd w) a)) = f"
    unfolding T(2) using char_byte(2)[OF T(3)] char_byte(3)[of f] t(2) by (auto simp: char_byte(1))
  have rest: "program_printf_loop (fuel - 1) E loc (a + 1) args w' = Inr (Returns () w')" if "said loc (xs ! i) [f] w w'" for w'
    using text_at_Nil[OF said_text[OF that T(1)]] 2(6) by (subst program_printf_loop.simps) simp
  have e: "program_printf_loop fuel E loc a args w =
      run_bind (print_array E loc [f, NUL] w) (\<lambda>_. program_printf_loop (fuel - 1) E loc (a + 1) args)"
    using b 2(6) by (subst program_printf_loop.simps) simp
  have "1 \<le> N" using 2(7) t(1) by simp
  then have "roomy (write_room 1 0 + r) (snd w)" using roomy_mono[OF 2(8)] write_room_mono[of 1 N 0] by simp
  from plain_said[OF 2(3) T(3) t(2) this] show ?case unfolding e t(1) using rest by auto
next
  case (3 f d fs vas)
  note T = text_at_Cons[OF 3(6)]
  note T2 = text_at_Cons[OF T(1)]
  have fuel: "fuel \<noteq> 0" "length (d # fs) < fuel - 1" "length fs < fuel - 1" using 3(8) by simp_all
  let ?R = "write_room N 0"
  show ?case
  proof (cases "f = CHR ''%''")
    case True
    then obtain u v t' where u: "render_directive False d vas = Some (u, v)" "render False fs v = Some t'" "t = u @ t'"
      using 3(3) by (auto split: option.splits)
    have b: "mem (snd w) a \<noteq> 0" "mem (snd w) a = 37" "char_of (unat (mem (snd w) (a + 1))) = d"
      unfolding T(2) T2(2) by (simp_all add: char_byte(1) True)
    have p: "CHR ''%'' \<notin> set u" "CHR ''%'' \<notin> set t'" "length t' \<le> N" using 3(4,9) u(3) by auto
    have e: "program_printf_loop fuel E loc a args w =
        run_bind (program_directive E loc d args w) (program_printf_loop (fuel - 1) E loc (a + 2))"
      using b fuel(1) by (subst program_printf_loop.simps) simp
    have "write_room (length u) 0 \<le> ?R" using 3(9) u(3) by (intro write_room_mono) simp
    then have "roomy (write_room (length u) 0 + (length fs * ?R + r)) (snd w)" by (intro roomy_mono[OF 3(10)]) simp
    from directive_said[OF 3(5) u(1) p(1) 3(7) this] obtain args' w' where d: "program_directive E loc d args w = Inr (Returns args' w')"
      "said loc (xs ! i) u w w'" "list_all2 (arg_is (snd w') loc) args' v" "roomy (length fs * ?R + r) (snd w')" by blast
    have "text_at (snd w') loc (a + 2) fs" using said_text[OF d(2) T2(1)] by (simp add: add.commute)
    from 3(1)[OF True u(1) refl u(2) p(2) said_can_print[OF 3(5) d(2)] this d(3) fuel(3) p(3) d(4)]
    show ?thesis unfolding e d(1) u(3) run_bind_simps using said_trans[OF d(2)] by blast
  next
    case False
    then obtain t' where t': "render False (d # fs) vas = Some t'" "t = f # t'" using 3(3) by auto
    have b: "mem (snd w) a \<noteq> 0" "mem (snd w) a \<noteq> 37" "char_of (unat (mem (snd w) a)) = f"
      unfolding T(2) using char_byte(2)[OF T(3)] char_byte(3)[of f] False by (auto simp: char_byte(1))
    have p: "CHR ''%'' \<notin> set t'" "length t' \<le> N" using 3(4,9) t'(2) by simp_all
    have e: "program_printf_loop fuel E loc a args w =
        run_bind (print_array E loc [f, NUL] w) (\<lambda>_. program_printf_loop (fuel - 1) E loc (a + 1) args)"
      using b fuel(1) by (subst program_printf_loop.simps) simp
    have "write_room 1 0 \<le> ?R" using 3(9) t'(2) by (intro write_room_mono) simp
    then have "roomy (write_room 1 0 + (length (d # fs) * ?R + r)) (snd w)" by (intro roomy_mono[OF 3(10)]) simp
    from plain_said[OF 3(5) T(3) False this] obtain w' where d: "print_array E loc [f, NUL] w = Inr (Returns 0 w')"
      "said loc (xs ! i) [f] w w'" "roomy (length (d # fs) * ?R + r) (snd w')" by blast
    have "list_all2 (arg_is (snd w') loc) args vas"
      using 3(7) by (rule list_all2_mono) (use d(2) texts_same_arg in \<open>auto simp: said_def\<close>)
    from 3(2)[OF False t'(1) p(1) said_can_print[OF 3(5) d(2)] said_text[OF d(2) T(1)] this fuel(2) p(2) d(3)]
    show ?thesis unfolding e d(1) t'(2) run_bind_simps using said_trans[OF d(2)] by fastforce
  qed
qed

section \<open>Properties\<close>


text \<open>The prompt of the shell, from the sample image: the format at \<open>0x40000F\<close>, the directory at \<open>0x400017\<close>.\<close>

lemma sample_apart: "n < 27 \<Longrightarrow> 20 \<le> unat (0x400000 + of_nat n - 0x500000 :: u64)"
proof -
  assume n: "n < 27"
  have e: "0x400000 + of_nat n - 0x500000 = (of_nat n + 0xFFFFFFFFFFF00000 :: u64)" by simp
  have "unat (of_nat n :: u64) = n" using n by (intro unat_of_nat_u64) simp
  then have "unat (of_nat n + 0xFFFFFFFFFFF00000 :: u64) = n + 0xFFFFFFFFFFF00000" using n by (simp add: unat_add_u64)
  then have "20 \<le> unat (of_nat n + 0xFFFFFFFFFFF00000 :: u64)" by linarith
  then show ?thesis unfolding e .
qed


end
