(* ===== verification/Spec2Isabelle.thy ===== *)
theory Spec2Isabelle
  imports Tasklist Printf Paging Screen Descriptors TempFS VFS Keyboard Loader FileData Syscalls Apic Spinlock Smp Panic Devices Boot Entry Programs LibcPrintf
begin

text \<open>
  Verification development for PotatOS, a 64-bit kernel in C and assembly with its C library and two programs. The
  sources are under \<open>src/src\<close> (the kernel), \<open>src/libc\<close> and \<open>src/userspace\<close>.

  \<^bold>\<open>The program and its parts.\<close> The boot loader hands the kernel a memory map, a framebuffer, a ramdisk and the started
  processors (\<open>kernel/entry.c\<close>). On physical pages (\<open>mem/pmm.c\<close>) rest the heap (\<open>mem/kheap.c\<close>) and the page trees
  (\<open>mem/paging.c\<close>); on the heap rest vectors (\<open>mem/vector.c\<close>), and on these event queues (\<open>tasks/events.c\<close>) and the task
  list (\<open>tasks/tasklist.c\<close>). Files live on the heap too (\<open>fs/tempfs.c\<close>) behind drives, paths and devices (\<open>fs/vfs.c\<close>). A
  program is loaded from a file into its own page tree (\<open>tasks/spawn.c\<close>), is switched to and from by the timer's
  interrupt (\<open>tasks/switch.asm\<close>), and calls the kernel by \<open>int 0x80\<close> (\<open>tasks/syscall_handler.asm\<close>,
  \<open>tasks/syscalls.c\<close>). It hears of other tasks through its queue of events.

  \<^bold>\<open>Theories and sources.\<close>
  \<^item> \<open>Prelude\<close>: C integer types as words, the errors (\<open>Halted\<close>, \<open>Diverged\<close>, \<open>NullDeref\<close>, \<open>OutOfBounds\<close>), sequencing of
    fallible code, arrays with bounds, linked lists as chains of addresses.
  \<^item> \<open>Memory\<close>, \<open>Cells\<close>: byte memory, block operations of \<open>utils/string.c\<close>, little-endian cells of any width.
  \<^item> \<open>PMM\<close>: \<open>mem/pmm.c\<close>. \<open>Kheap\<close>: \<open>mem/kheap.c\<close>. \<open>KVector\<close>: \<open>mem/vector.c\<close>. \<open>Events\<close>: \<open>tasks/events.c\<close>.
  \<^item> \<open>Tasklist\<close>: \<open>tasks/tasklist.c\<close>, \<open>switchutils.c\<close>, \<open>end_task.c\<close>. \<open>Spinlock\<close>: \<open>processors/spinlock.c\<close>.
  \<^item> \<open>Paging\<close>: \<open>mem/paging.c\<close>, \<open>mem/map.c\<close>. \<open>Descriptors\<close>: \<open>cpu/gdt.c\<close>, \<open>idt.c\<close>, \<open>tss.c\<close>.
  \<^item> \<open>Kstring\<close>, \<open>Printf\<close>: \<open>utils/string.c\<close>, \<open>utils/printf.c\<close>, and the C library's \<open>printf\<close> on arrays. \<open>Panic\<close>: \<open>kernel/panic.c\<close>.
  \<^item> \<open>Screen\<close>: \<open>drivers/framebuffer.c\<close>, \<open>renderfont.c\<close>. \<open>Keyboard\<close>: \<open>drivers/keyboard.c\<close>. \<open>Devices\<close>: \<open>drivers/serial.c\<close>
    and the device files. \<open>Apic\<close>: \<open>drivers/apic.c\<close>, \<open>acpi.c\<close>, \<open>pit.c\<close>. \<open>Smp\<close>: \<open>processors/smp.c\<close>.
  \<^item> \<open>TempFS\<close>, \<open>FileData\<close>: \<open>fs/tempfs.c\<close> (directories; contents). \<open>VFS\<close>: \<open>fs/vfs.c\<close>, \<open>fs/devices.c\<close>.
  \<^item> \<open>Loader\<close>: \<open>fs/ustar.c\<close>, \<open>tasks/spawn.c\<close>. \<open>Syscalls\<close>: \<open>tasks/syscalls.c\<close>, \<open>mmap.c\<close>. \<open>Boot\<close>: \<open>kernel/entry.c\<close>,
    \<open>kernel/bootinfo.h\<close>, \<open>mem/print_mem.c\<close>.
  \<^item> \<open>Entry\<close>: \<open>tasks/switch.asm\<close>, \<open>tasks/syscall_handler.asm\<close>, \<open>cpu/exceptions.asm\<close>. \<open>Programs\<close>, \<open>LibcPrintf\<close>:
    \<open>libc/impl\<close>, \<open>libc/internal/crt0.asm\<close>, \<open>userspace/shell.c\<close>, \<open>userspace/helloworld.c\<close>.

  \<^bold>\<open>State.\<close> The kernel's global structure is a record that grows by theory: \<open>pmm_state\<close>, \<open>kheap_state\<close>, \<open>vec_state\<close>,
  \<open>events_state\<close>, \<open>tasks_state\<close>, \<open>screen_state\<close>, \<open>fs_state\<close>, \<open>vfs_state\<close>, \<open>kb_state\<close>, \<open>sys_state\<close>, \<open>call_state\<close>,
  \<open>apic_state\<close>, \<open>boot_state\<close>; each operation is defined on every extension of the record it needs, so a theorem of a
  lower theory applies to the state of a higher one. \<open>mem\<close> is the memory as the kernel sees it through its direct map,
  byte by byte, and the page tables, bitmaps, file contents, framebuffers and images are bytes in it. Structures on
  the heap (pool headers, vectors, nodes, events, tasks, inodes, files) are typed stores, maps from their address to
  a record; what separates them is \<open>live\<close>, the map of the blocks that \<open>malloc\<close> has handed out. There is one memory
  for all page trees: a program's addresses are addresses of \<open>mem\<close> (\<open>user_bytes\<close> keeps them apart from the kernel's
  bytes), so the model does not show that \<open>keyboard_isr\<close> stores through whatever tree is loaded. In theory \<open>Entry\<close> the
  kernel stacks are a store of their own, one for each page tree, apart from \<open>mem\<close>.

  \<^bold>\<open>Parameters.\<close> What is not C or assembly of the repository is an argument: the hardware behind ports and memory-mapped
  registers (\<open>machine\<close>), the functions of device drivers that a file system calls (\<open>device_calls\<close>), where the linker puts
  the kernel's sections (\<open>kernel_layout\<close>), and what compiled C code leaves in registers, below the stack pointer and as
  return address (\<open>call_effects\<close>: \<open>regs_after\<close>, \<open>stack_after\<close>, \<open>return_addr\<close>). No theorem takes a register that the calling
  convention leaves free as kept by a call: where the assembly relies on \<open>rdi\<close>, the theorems speak of the value the
  call leaves.

  \<^bold>\<open>Errors, loops and room.\<close> Every operation that can fail returns a value of \<open>'a result\<close>. Loops over data of unknown
  length have fuel \<open>walk_fuel = 2 ^ 64\<close>: a walk along a chain of distinct 64-bit addresses has fewer steps
  (\<open>chain_length_less\<close>), and a counter of 64 bits has come back by then, so \<open>Diverged\<close> is a loop of the code that does not
  end. \<open>Halted\<close> is the kernel's own \<open>halt\<close>, for want of memory or at a failed check. A theorem that says that an
  operation returns states the room it needs: \<open>roomy k\<close> says that \<open>k\<close> bytes are unused behind the last pool of the
  heap, \<open>write_room\<close> counts the bytes of the nodes that a write adds, \<open>room_for\<close> asks for a pool in which one block fits and
  fits again when it was freed.

  \<^bold>\<open>What the lemmas show.\<close>
  \<^item> Memory: \<open>kmalloc\<close> and \<open>malloc\<close> are right, complete and never hand out overlapping blocks (locales \<open>page_allocator\<close>
    and \<open>heap_allocator\<close>, interpreted on the code's definitions and used by every theory above); pushed values are
    read back from vectors (\<open>indexed_list\<close>); mapping and allocating pages changes exactly the translations asked for
    (\<open>page_walk\<close>, interpreted for both operations).
  \<^item> Files: a directory is a table of names (\<open>name_table\<close>), a path leads where its names lead, and what is written is read
    back, in the file system and through descriptors.
  \<^item> Tasks: the scheduler's choice, its failure at the end of the list, the report of an exit to the parent, the switch
    and its first use, the gate of the system calls, exceptions, and where the stacks get in each other's way.
  \<^item> Cores: a spinlock makes sections atomic under every interleaving; the processors initialise one at a time.
  \<^item> Text: \<open>printf\<close> of the kernel and of the library print what \<open>render\<close> says (\<open>digit_writer\<close>, interpreted for bases two,
    ten and sixteen); drawing stays on the screen; the line editor stays in the reader's buffer.
  \<^item> Programs: the loader places images and arguments; the greeting program, the shell's wait and the library's \<open>printf\<close>
    run from their own code through the gate down to the file system and the console, and back.

  The defects of the code that the proofs met are theorems of their own where they are more than a missing check
  (a section too large for its bitmap, the end of the task list, a stack written in the wrong tree, an unknown system
  call), and hypotheses of the others, each with its reason in the text of the theorem.

  \<^bold>\<open>Not modelled.\<close> The boot loader's protocol header \<open>limine.h\<close> (third-party; the few structures read are modelled where they
  are read) and its request objects; prototypes, include lines and plain macros; the kernel's status messages
  (\<open>kstatusf\<close>, \<open>kdebugf\<close>, \<open>kfailf\<close> and the like) inside other operations; instructions with no effect on the state above
  (loading descriptor tables and segment registers, flushing the translation cache); the stack protector's hooks; a
  debugging routine of \<open>switch.asm\<close> that nothing calls. What compiled code does to registers between two system calls is
  left out of theory \<open>Programs\<close>, since the gate reads only the registers its stub sets.
\<close>

end
